(* ===== verification/Npu_Prelude.thy ===== *)
theory Npu_Prelude
  imports Main "HOL-Library.Word"
begin

text \<open>
  Shared vocabulary of the development: the C integer types at their width, the
  fact collections the component theories fill, the C arithmetic the sources rely on
  (\<open>int\<close> products, \<open>__builtin_mul_overflow\<close>), counted \<open>for\<close> loops over machine-word
  counters, and the generic facts on words, lists and mixed-radix indices that every
  component uses.  Undefined behaviour of C is the value \<^term>\<open>None\<close>.
\<close>

unbundle bit_operations_syntax

section \<open>Machine integers\<close>

type_synonym u8 = "8 word"
type_synonym u16 = "16 word"
type_synonym u32 = "32 word"
type_synonym u64 = "64 word"
type_synonym byte = "8 word"

named_theorems c_consts "values of the preprocessor constants and enumerators"
named_theorems c_sem "unfolding rules of the C operations a component models"
named_theorems rtl_sem "unfolding rules of the register-transfer definitions"
named_theorems keeps "what each operation keeps of its component's invariant"

text \<open>Largest value of \<open>int\<close>; a product of two promoted \<open>uint16_t\<close> values is an
  \<open>int\<close> product, undefined when it does not fit.\<close>

definition INT_MAX :: nat where
  "INT_MAX = 2 ^ 31 - 1"

definition c_int_mul_u16 :: "u16 \<Rightarrow> u16 \<Rightarrow> nat option" where
  "c_int_mul_u16 a b = (if unat a * unat b \<le> INT_MAX then Some (unat a * unat b) else None)"

text \<open>\<open>__builtin_mul_overflow(a, b, &r)\<close> on \<open>uint32_t\<close>: the flag and the wrapped product.\<close>

definition builtin_mul_overflow :: "u32 \<Rightarrow> u32 \<Rightarrow> bool \<times> u32" where
  "builtin_mul_overflow a b = (2 ^ 32 \<le> unat a * unat b, a * b)"

section \<open>Counted loops\<close>

text \<open>\<open>for (i = i0; i < n; ++i) body\<close> with a word-sized counter.  The body may end in
  undefined behaviour.\<close>

function for_word :: "'a::len word \<Rightarrow> 'a word \<Rightarrow> ('a word \<Rightarrow> 's \<Rightarrow> 's option) \<Rightarrow> 's \<Rightarrow> 's option"
  where
  "for_word i n f s =
     (if i < n then (case f i s of None \<Rightarrow> None | Some s' \<Rightarrow> for_word (i + 1) n f s')
      else Some s)"
  by pat_completeness auto
termination
proof (relation "measure (\<lambda>(i, n, f, s). unat n - unat i)", goal_cases)
  case 1
  show ?case by simp
next
  case (2 i n f s s')
  from \<open>i < n\<close> have "unat (i + 1) = Suc (unat i)"
    by (metis add.commute max_word_wrap unatSuc word_not_simps(3))
  with \<open>i < n\<close> show ?case by (simp add: word_less_nat_alt)
qed

declare for_word.simps [simp del]

text \<open>Left-to-right iteration over a list, stopping at undefined behaviour.\<close>

fun foldM :: "('a \<Rightarrow> 's \<Rightarrow> 's option) \<Rightarrow> 'a list \<Rightarrow> 's \<Rightarrow> 's option" where
  "foldM f [] s = Some s"
| "foldM f (x # xs) s = (case f x s of None \<Rightarrow> None | Some s' \<Rightarrow> foldM f xs s')"

section \<open>Words\<close>

lemma unat_Suc_less: "i < n \<Longrightarrow> unat (i + 1) = Suc (unat i)" for i n :: "'a::len word"
  by (metis add.commute max_word_wrap unatSuc word_not_simps(3))

lemma unat_u8_less [simp]: "unat (x :: u8) < 256"
  using unsigned_less [of x, where ?'a = nat] by simp

lemma unat_u16_less [simp]: "unat (x :: u16) < 65536"
  using unsigned_less [of x, where ?'a = nat] by simp

lemma unat_u32_less [simp]: "unat (x :: u32) < 4294967296"
  using unsigned_less [of x, where ?'a = nat] by simp

lemma unat_u16_le: "unat (x :: u16) \<le> 65535"
  using unat_u16_less [of x] by linarith

lemma unat_ucast_up:
  fixes x :: "'a::len word"
  assumes "LENGTH('a) \<le> LENGTH('b::len)"
  shows "unat (ucast x :: 'b word) = unat x"
proof -
  have "unat x < 2 ^ LENGTH('a)" by simp
  also have "\<dots> \<le> 2 ^ LENGTH('b)" using assms by (rule power_increasing) simp
  finally show ?thesis by (simp add: unsigned_ucast_eq take_bit_nat_eq_self)
qed

lemma unat_ucast_u16_u32 [simp]: "unat (ucast (x :: u16) :: u32) = unat x"
  by (rule unat_ucast_up) simp

lemma ucast_u16_u32 [simp]: "ucast (ucast (a :: u16) :: u32) = a"
  by (rule bit_word_eqI) (simp add: bit_simps)

lemma ucast_u16_u32_u20 [simp]: "(ucast (ucast (a :: u16) :: u32) :: 20 word) = ucast a"
  by (rule bit_word_eqI) (auto simp: bit_simps)

lemma unat_ucast_u16_u64 [simp]: "unat (ucast (x :: u16) :: u64) = unat x"
  by (rule unat_ucast_up) simp

lemma unat_ucast_u8_u32 [simp]: "unat (ucast (x :: u8) :: u32) = unat x"
  by (rule unat_ucast_up) simp

lemma unat_eq_0_iff [simp]: "unat (x :: 'a::len word) = 0 \<longleftrightarrow> x = 0"
  by (rule unat_eq_zero)

text \<open>The C test \<open>v & BIT(n)\<close>.\<close>

lemma and_bit_test:
  "v AND 1 \<noteq> 0 \<longleftrightarrow> bit v 0" "v AND 2 \<noteq> 0 \<longleftrightarrow> bit v 1" "v AND 4 \<noteq> 0 \<longleftrightarrow> bit v 2" for v :: u32
  using and_exp_eq_0_iff_not_bit [of v 0] and_exp_eq_0_iff_not_bit [of v 1]
    and_exp_eq_0_iff_not_bit [of v 2] by simp_all

section \<open>Iteration\<close>

lemma foldM_append:
  "foldM f (xs @ ys) s = (case foldM f xs s of None \<Rightarrow> None | Some s' \<Rightarrow> foldM f ys s')"
  by (induction xs arbitrary: s) (auto split: option.split)

lemma foldM_concat: "foldM f (concat xss) s = foldM (foldM f) xss s"
  by (induction xss arbitrary: s) (auto simp: foldM_append split: option.split)

lemma foldM_map: "foldM f (map g xs) s = foldM (\<lambda>x. f (g x)) xs s"
  by (induction xs arbitrary: s) (auto split: option.split)

lemma foldM_cong:
  assumes "xs = ys" and "\<And>x s. x \<in> set ys \<Longrightarrow> f x s = g x s"
  shows "foldM f xs s = foldM g ys s"
  using assms by (induction ys arbitrary: xs s) (auto split: option.split)

lemma foldM_None: "x \<in> set xs \<Longrightarrow> (\<And>s. f x s = None) \<Longrightarrow> foldM f xs s = None"
  by (induction xs arbitrary: s) (auto split: option.split)

lemma foldM_Some: "foldM (\<lambda>x s. Some (g x s)) xs s = Some (fold g xs s)"
  by (induction xs arbitrary: s) auto

text \<open>The word-counted loop is iteration over the interval of naturals it counts.\<close>

lemma for_word_foldM:
  "for_word i n f s = foldM (\<lambda>k. f (word_of_nat k)) [unat i..<unat n] s"
proof (induction i n f s rule: for_word.induct)
  case (1 i n f s)
  show ?case
  proof (cases "i < n")
    case True
    then have up: "[unat i..<unat n] = unat i # [unat (i + 1)..<unat n]"
      by (simp add: unat_Suc_less upt_conv_Cons word_less_nat_alt)
    from True "1" show ?thesis
      by (subst for_word.simps) (simp add: up split: option.split)
  next
    case False
    then show ?thesis
      by (subst for_word.simps) (simp add: word_less_nat_alt)
  qed
qed

lemma for_word_0_foldM:
  "for_word 0 n f s = foldM (\<lambda>k. f (word_of_nat k)) [0..<unat n] s"
  by (simp add: for_word_foldM)

lemma unat_eqD: "unat x = k \<Longrightarrow> x = word_of_nat k"
  by auto

section \<open>Mixed-radix indices\<close>

lemma radix_less: "a < A \<Longrightarrow> b < B \<Longrightarrow> a * B + b < A * B" for a b :: nat
  by (metis add_less_cancel_left less_le_trans mult_le_mono1 mult_Suc Suc_leI add.commute)

lemma radix_inj:
  fixes a a' b b' B :: nat
  assumes "b < B" and "b' < B" and "a * B + b = a' * B + b'"
  shows "a = a' \<and> b = b'"
proof -
  have "(a * B + b) div B = a" and "(a' * B + b') div B = a'" using assms(1,2) by auto
  with assms(3) have "a = a'" by simp
  with assms(3) show ?thesis by simp
qed

lemma radix_surj: "i < A * B \<Longrightarrow> \<exists>a b. a < A \<and> b < B \<and> i = a * B + b" for i :: nat
  by (metis bot_nat_0.not_eq_extremum div_mod_decomp less_mult_imp_div_less mod_less_divisor
      mult_is_0 not_less_zero)

section \<open>Counters\<close>

text \<open>A counter of 16 bits against a dimension minus one on 32 bits.\<close>

lemma counter16:
  assumes "x < unat (d :: u16)"
  shows "(ucast (word_of_nat x :: u16) :: u32) = ucast d - 1 \<longleftrightarrow> Suc x = unat d"
    and "(ucast (word_of_nat x :: u16) :: u32) < ucast d - 1 \<longleftrightarrow> Suc x < unat d"
proof -
  have d: "unat d < 65536" using unsigned_less [of d, where ?'a = nat] by simp
  have x: "x < 65536" using less_trans [OF assms d] .
  have l: "unat (ucast (word_of_nat x :: u16) :: u32) = x"
    using x by (simp add: unsigned_ucast_eq unat_of_nat take_bit_nat_eq_self)
  have "(ucast d - 1 :: u32) = word_of_nat (unat d - 1)" using assms by (simp add: of_nat_diff)
  then have r: "unat (ucast d - 1 :: u32) = unat d - 1"
    using less_imp_diff_less [OF d, of 1] by (simp add: unat_of_nat take_bit_nat_eq_self)
  show "(ucast (word_of_nat x :: u16) :: u32) = ucast d - 1 \<longleftrightarrow> Suc x = unat d"
    unfolding word_unat_eq_iff l r using assms by auto
  show "(ucast (word_of_nat x :: u16) :: u32) < ucast d - 1 \<longleftrightarrow> Suc x < unat d"
    unfolding word_less_nat_alt l r using assms by auto
qed

text \<open>The last of a pair of nested counters.\<close>

lemma radix_last:
  fixes i A B :: nat
  assumes "i < A * B"
  shows "Suc (i div B) = A \<and> Suc (i mod B) = B \<longleftrightarrow> Suc i = A * B"
proof
  assume *: "Suc (i div B) = A \<and> Suc (i mod B) = B"
  then have "Suc i = i div B * B + B" using div_mult_mod_eq [of i B] by linarith
  also have "\<dots> = Suc (i div B) * B" by simp
  finally show "Suc i = A * B" using * by simp
next
  assume *: "Suc i = A * B"
  then have "Suc i mod B = 0" by simp
  then have "Suc (i mod B) = B" by (simp add: mod_Suc split: if_splits)
  moreover have "Suc i div B = A" using * assms by (metis mult_0_right nonzero_mult_div_cancel_right not_less_zero)
  then have "Suc (i div B) = A" using \<open>Suc i mod B = 0\<close> by (simp add: div_Suc)
  ultimately show "Suc (i div B) = A \<and> Suc (i mod B) = B" by simp
qed

end
