(* ===== verification/Npu_Bits.thy ===== *)
theory Npu_Bits
  imports Npu_Prelude "HOL-Library.Log_Nat" "HOL-Library.Monad_Syntax"
begin

text \<open>
  The helper macros and functions of \<open>sw/shared/annotations.h\<close> that compute something: minimum,
  maximum and clamp, powers of two and alignment, single bits, rotations, byte swaps and the
  counts of leading zeros, trailing zeros and set bits.  Where the header chooses between a
  compiler builtin and code of its own, the code is what is modelled.  A C shift by a negative
  amount or by the full width or more is undefined: the model gives \<open>None\<close> there.
\<close>

section \<open>Ordering and alignment macros\<close>

definition c_MIN :: "'a::linorder \<Rightarrow> 'a \<Rightarrow> 'a" where
  "c_MIN a b = (if a < b then a else b)"

definition c_MAX :: "'a::linorder \<Rightarrow> 'a \<Rightarrow> 'a" where
  "c_MAX a b = (if a > b then a else b)"

definition CLAMP :: "'a::linorder \<Rightarrow> 'a \<Rightarrow> 'a \<Rightarrow> 'a" where
  "CLAMP x lo hi = (if x < lo then lo else if x > hi then hi else x)"

definition IS_POWER_OF_2 :: "'a::len word \<Rightarrow> bool" where
  "IS_POWER_OF_2 x = (x \<noteq> 0 \<and> \<not> (x AND (x - 1) \<noteq> 0))"

definition ALIGN_UP :: "'a::len word \<Rightarrow> 'a word \<Rightarrow> 'a word" where
  "ALIGN_UP val align = (val + align - 1) AND NOT (align - 1)"

definition ALIGN_DOWN :: "'a::len word \<Rightarrow> 'a word \<Rightarrow> 'a word" where
  "ALIGN_DOWN val align = val AND NOT (align - 1)"

definition IS_ALIGNED :: "'a::len word \<Rightarrow> 'a word \<Rightarrow> bool" where
  "IS_ALIGNED val align = (\<not> (val AND (align - 1) \<noteq> 0))"

section \<open>Shifts, single bits and rotations\<close>

definition c_shl :: "'a::len word \<Rightarrow> int \<Rightarrow> 'a word option" where
  "c_shl x r = (if 0 \<le> r \<and> r < LENGTH('a) then Some (push_bit (nat r) x) else None)"

definition c_lshr :: "'a::len word \<Rightarrow> int \<Rightarrow> 'a word option" where
  "c_lshr x r = (if 0 \<le> r \<and> r < LENGTH('a) then Some (drop_bit (nat r) x) else None)"

definition BIT :: "int \<Rightarrow> u64 option" where
  "BIT n = c_shl 1 n"

definition BIT_SET :: "u64 \<Rightarrow> int \<Rightarrow> u64 option" where
  "BIT_SET val n = map_option (\<lambda>b. val OR b) (BIT n)"

definition BIT_CLEAR :: "u64 \<Rightarrow> int \<Rightarrow> u64 option" where
  "BIT_CLEAR val n = map_option (\<lambda>b. val AND NOT b) (BIT n)"

definition BIT_TOGGLE :: "u64 \<Rightarrow> int \<Rightarrow> u64 option" where
  "BIT_TOGGLE val n = map_option (\<lambda>b. val XOR b) (BIT n)"

definition BIT_CHECK :: "u64 \<Rightarrow> int \<Rightarrow> bool option" where
  "BIT_CHECK val n = map_option (\<lambda>b. val AND b \<noteq> 0) (BIT n)"

definition ROTL32 :: "u32 \<Rightarrow> int \<Rightarrow> u32 option" where
  "ROTL32 x r = do { a \<leftarrow> c_shl x r; b \<leftarrow> c_lshr x (32 - r); Some (a OR b) }"

definition ROTR32 :: "u32 \<Rightarrow> int \<Rightarrow> u32 option" where
  "ROTR32 x r = do { a \<leftarrow> c_lshr x r; b \<leftarrow> c_shl x (32 - r); Some (a OR b) }"

definition ROTL64 :: "u64 \<Rightarrow> int \<Rightarrow> u64 option" where
  "ROTL64 x r = do { a \<leftarrow> c_shl x r; b \<leftarrow> c_lshr x (64 - r); Some (a OR b) }"

definition ROTR64 :: "u64 \<Rightarrow> int \<Rightarrow> u64 option" where
  "ROTR64 x r = do { a \<leftarrow> c_lshr x r; b \<leftarrow> c_shl x (64 - r); Some (a OR b) }"

section \<open>Byte swaps\<close>

text \<open>A 16-bit operand is promoted before it is shifted.\<close>

definition BSWAP16 :: "u16 \<Rightarrow> u16" where
  "BSWAP16 x = (let x = (ucast x :: u32) in ucast (drop_bit 8 x OR push_bit 8 x))"

definition BSWAP32 :: "u32 \<Rightarrow> u32" where
  "BSWAP32 x = drop_bit 24 x OR (drop_bit 8 x AND 0xFF00) OR (push_bit 8 x AND 0xFF0000) OR push_bit 24 x"

definition BSWAP64 :: "u64 \<Rightarrow> u64" where
  "BSWAP64 x = push_bit 32 (ucast (BSWAP32 (ucast x))) OR ucast (BSWAP32 (ucast (drop_bit 32 x)))"

section \<open>Counting bits\<close>

text \<open>\<open>if (x >> k) { n -= k; x >>= k; }\<close>\<close>

definition clz_step :: "nat \<Rightarrow> u32 \<times> u32 \<Rightarrow> u32 \<times> u32" where
  "clz_step k = (\<lambda>(n, x). if drop_bit k x \<noteq> 0 then (n - word_of_nat k, drop_bit k x) else (n, x))"

definition clz32_fallback :: "u32 \<Rightarrow> u32" where
  "clz32_fallback x =
     (let s = (32, x);
          s = clz_step 16 s;
          s = clz_step 8 s;
          s = clz_step 4 s;
          s = clz_step 2 s;
          (n, x) = clz_step 1 s
      in n - x)"

definition CLZ64 :: "u64 \<Rightarrow> u32" where
  "CLZ64 x = (if (ucast (drop_bit 32 x) :: u32) \<noteq> 0 then clz32_fallback (ucast (drop_bit 32 x))
     else 32 + clz32_fallback (ucast x))"

definition CTZ32 :: "u32 \<Rightarrow> u32" where
  "CTZ32 x = (if x \<noteq> 0 then 31 - clz32_fallback (x AND - x) else 32)"

definition CTZ64 :: "u64 \<Rightarrow> u32" where
  "CTZ64 x = (if x \<noteq> 0 then 63 - CLZ64 (x AND - x) else 64)"

definition popcount32_fallback :: "u32 \<Rightarrow> u32" where
  "popcount32_fallback x =
     (let x = x - (drop_bit 1 x AND 0x55555555);
          x = (x AND 0x33333333) + (drop_bit 2 x AND 0x33333333);
          x = (x + drop_bit 4 x) AND 0x0F0F0F0F
      in drop_bit 24 (x * 0x01010101))"

definition POPCOUNT64 :: "u64 \<Rightarrow> u32" where
  "POPCOUNT64 x = popcount32_fallback (ucast x) + popcount32_fallback (ucast (drop_bit 32 x))"

section \<open>Specifications and proof invariants\<close>

text \<open>The number of leading zeros of a word, as the position of its highest set bit.\<close>

definition leading_zeros :: "nat \<Rightarrow> nat \<Rightarrow> nat \<Rightarrow> bool" where
  "leading_zeros w x n = (if x = 0 then n = w else n < w \<and> 2 ^ (w - 1 - n) \<le> x \<and> x < 2 ^ (w - n))"

text \<open>The number of trailing zeros, as the position of the lowest set bit.\<close>

definition trailing_zeros :: "'a::len word \<Rightarrow> nat \<Rightarrow> bool" where
  "trailing_zeros x n = (if x = 0 then n = LENGTH('a) else bit x n \<and> (\<forall>i<n. \<not> bit x i))"

text \<open>The bytes of a word, least significant first.\<close>

definition bytes_of :: "'a::len word \<Rightarrow> u8 list" where
  "bytes_of x = map (\<lambda>i. ucast (drop_bit (8 * i) x)) [0..<LENGTH('a) div 8]"

text \<open>The state of the search for the highest set bit: \<open>y\<close> holds the top bits of \<open>x\<close> still in play.\<close>

definition clz_inv :: "u32 \<Rightarrow> nat \<Rightarrow> u32 \<times> u32 \<Rightarrow> bool" where
  "clz_inv x k = (\<lambda>(n, y). unat n + floorlog 2 (unat x) = 32 + floorlog 2 (unat y) \<and> unat n \<le> 32 \<and>
     k \<le> unat n \<and> unat y < 2 ^ k)"

text \<open>The first three steps of the population count for any masks, and the bits of a byte.\<close>

definition swar :: "nat \<Rightarrow> nat \<Rightarrow> nat \<Rightarrow> nat \<Rightarrow> nat" where
  "swar m1 m2 m4 x =
     (let x = x - (x div 2 AND m1);
          x = (x AND m2) + (x div 4 AND m2)
      in (x + x div 16) AND m4)"

definition byte_bits :: "nat \<Rightarrow> nat" where
  "byte_bits a = (\<Sum>i<8. of_bool (bit a i))"

definition byte_ok :: "nat \<Rightarrow> bool" where
  "byte_ok a = (swar 0x55 0x33 0x0F a =
    of_bool (bit a 0) + of_bool (bit a 1) + of_bool (bit a 2) + of_bool (bit a 3) + of_bool (bit a 4)
     + of_bool (bit a 5) + of_bool (bit a 6) + of_bool (bit a 7))"

section \<open>Words as naturals\<close>

lemma unat_drop_bit: "unat (drop_bit k y) = unat y div 2 ^ k" for y :: "'a::len word"
proof -
  have "take_bit LENGTH('a) (unat y) = unat y" by (simp add: take_bit_nat_eq_self)
  then show ?thesis by (subst unsigned_drop_bit_eq) (simp only: drop_bit_eq_div)
qed

lemma unat_push_bit_1: "t < LENGTH('a) \<Longrightarrow> unat (push_bit t (1 :: 'a::len word)) = 2 ^ t"
proof -
  assume "t < LENGTH('a)"
  moreover have "push_bit t (1 :: 'a word) = word_of_nat (2 ^ t)" by (simp add: push_bit_of_1)
  ultimately show ?thesis by (simp only: unat_of_nat) simp
qed

section \<open>The lowest set bit, powers of two, alignment\<close>

text \<open>\<open>x & -x\<close> isolates the lowest set bit.\<close>

lemma odd_and_neg: "odd y \<Longrightarrow> y AND - y = 1" for y :: "'a::len word"
proof -
  assume "odd y"
  then have "NOT y AND 1 = 0" by (simp add: and_one_eq even_not_iff mod_2_eq_odd)
  then have "- y = NOT y OR 1" by (simp add: minus_eq_not_plus_1 disjunctive_add_eq_or)
  then have "y AND - y = y AND 1" by (simp add: bit.conj_disj_distrib)
  with \<open>odd y\<close> show ?thesis by (simp add: and_one_eq mod_2_eq_odd)
qed

lemma lowest_bit:
  fixes x :: "'a::len word"
  assumes "bit x t" and "\<And>i. i < t \<Longrightarrow> \<not> bit x i"
  shows "x AND - x = push_bit t 1"
proof -
  define y where "y = drop_bit t x"
  have "t \<le> n" if "bit x n" for n using that assms(2) by (meson not_le)
  then have x: "x = push_bit t y" by (intro bit_word_eqI) (auto simp: y_def bit_simps)
  have "odd y" using assms(1) by (simp add: y_def bit_iff_odd_drop_bit)
  moreover have "- x = push_bit t (- y)" by (simp add: x push_bit_eq_mult)
  ultimately show ?thesis unfolding x by (simp add: odd_and_neg flip: push_bit_and)
qed

lemma lowest_bit_exists:
  assumes "(x :: 'a::len word) \<noteq> 0"
  obtains t where "t < LENGTH('a)" "bit x t" "\<And>i. i < t \<Longrightarrow> \<not> bit x i"
proof -
  obtain n where "bit x n" using assms by (auto simp: bit_eq_iff)
  then have "bit x (LEAST n. bit x n)" by (rule LeastI)
  then show thesis by (intro that) (auto dest: not_less_Least bit_imp_le_length)
qed

lemma power_of_2_iff: "IS_POWER_OF_2 x \<longleftrightarrow> (\<exists>k<LENGTH('a). x = 2 ^ k)" for x :: "'a::len word"
proof
  assume p: "IS_POWER_OF_2 x"
  then obtain t where t: "t < LENGTH('a)" "x AND - x = push_bit t 1"
    by (auto simp: IS_POWER_OF_2_def elim!: lowest_bit_exists dest: lowest_bit)
  have "x = (x AND - x) OR (x AND NOT (- x))" by (simp flip: bit.conj_disj_distrib)
  also have "NOT (- x) = x - 1" by (simp add: not_eq_complement)
  finally have "x = push_bit t 1" using p t(2) by (simp add: IS_POWER_OF_2_def)
  with t(1) show "\<exists>k<LENGTH('a). x = 2 ^ k" by (auto simp: push_bit_of_1)
next
  assume "\<exists>k<LENGTH('a). x = 2 ^ k"
  then obtain k where k: "k < LENGTH('a)" "x = 2 ^ k" by blast
  then have "x - 1 = mask k" by (simp add: mask_eq_exp_minus_1)
  moreover have "(2 ^ k :: 'a word) AND mask k = 0"
    by (rule bit_word_eqI) (auto simp: bit_simps)
  ultimately show "IS_POWER_OF_2 x" using k by (simp add: IS_POWER_OF_2_def)
qed

lemma unat_align_down: "unat (ALIGN_DOWN v (2 ^ k)) = unat v div 2 ^ k * 2 ^ k"
proof -
  have "ALIGN_DOWN v (2 ^ k) = push_bit k (drop_bit k v)"
    by (rule bit_word_eqI) (auto simp: ALIGN_DOWN_def bit_simps simp flip: mask_eq_exp_minus_1)
  moreover have "unat v div 2 ^ k * 2 ^ k < 2 ^ LENGTH('a)"
    by (rule le_less_trans [OF div_times_less_eq_dividend unsigned_less])
  ultimately show ?thesis
    by (subst \<open>ALIGN_DOWN v (2 ^ k) = _\<close>, subst unsigned_push_bit_eq)
       (simp add: unat_drop_bit push_bit_eq_mult take_bit_nat_eq_self del: unsigned_drop_bit_eq)
qed

text \<open>Rounding up: of the wrapped sum, hence the least multiple that is not below the value, unless
  the sum wraps.\<close>

lemma unat_align_up_wraps:
  "unat (ALIGN_UP v (2 ^ k)) = (unat v + 2 ^ k - 1) mod 2 ^ LENGTH('a) div 2 ^ k * 2 ^ k"
  for v :: "'a::len word"
proof -
  have "v + 2 ^ k - 1 = word_of_nat (unat v + 2 ^ k - 1)"
    by (subst of_nat_diff) (simp_all add: trans_le_add2)
  then have "unat (v + 2 ^ k - 1) = (unat v + 2 ^ k - 1) mod 2 ^ LENGTH('a)"
    by (simp only: unat_of_nat)
  moreover have "ALIGN_UP v (2 ^ k) = ALIGN_DOWN (v + 2 ^ k - 1) (2 ^ k)"
    by (simp add: ALIGN_UP_def ALIGN_DOWN_def)
  ultimately show ?thesis by (simp only: unat_align_down)
qed

lemma align_up_least:
  fixes v :: "'a::len word"
  assumes "unat v + 2 ^ k - 1 < 2 ^ LENGTH('a)"
  shows "v \<le> ALIGN_UP v (2 ^ k) \<and> unat (ALIGN_UP v (2 ^ k)) < unat v + 2 ^ k"
proof -
  have "unat (ALIGN_UP v (2 ^ k)) = (unat v + 2 ^ k - 1) div 2 ^ k * 2 ^ k"
    using assms by (simp only: unat_align_up_wraps mod_less)
  moreover have "(unat v + 2 ^ k - 1) div 2 ^ k * 2 ^ k + (unat v + 2 ^ k - 1) mod 2 ^ k = unat v + 2 ^ k - 1"
    by (rule div_mult_mod_eq)
  moreover have "(unat v + 2 ^ k - 1) mod 2 ^ k < 2 ^ k" by simp
  ultimately show ?thesis unfolding word_le_nat_alt by linarith
qed

lemma align_up_below:
  fixes v :: "'a::len word"
  assumes "k < LENGTH('a)" and "2 ^ LENGTH('a) \<le> unat v + 2 ^ k - 1"
  shows "ALIGN_UP v (2 ^ k) < v"
proof -
  have k: "(2 :: nat) ^ k < 2 ^ LENGTH('a)" using assms(1) by simp
  have v: "unat v < 2 ^ LENGTH('a)" by simp
  then have "(unat v + 2 ^ k - 1) mod 2 ^ LENGTH('a) = unat v + 2 ^ k - 1 - 2 ^ LENGTH('a)"
    using k assms(2) by (subst le_mod_geq) (simp, rule mod_less, linarith)
  moreover have "unat (ALIGN_UP v (2 ^ k)) \<le> (unat v + 2 ^ k - 1) mod 2 ^ LENGTH('a)"
    by (simp only: unat_align_up_wraps div_times_less_eq_dividend)
  ultimately have "unat (ALIGN_UP v (2 ^ k)) < unat v" using k assms(2) by linarith
  then show ?thesis by (simp add: word_less_nat_alt)
qed

lemma is_aligned_iff: "IS_ALIGNED v (2 ^ k) \<longleftrightarrow> 2 ^ k dvd unat v"
proof -
  have "IS_ALIGNED v (2 ^ k) \<longleftrightarrow> take_bit k v = 0"
    by (simp add: IS_ALIGNED_def take_bit_eq_mask mask_eq_exp_minus_1)
  also have "\<dots> \<longleftrightarrow> take_bit k (unat v) = 0"
    by (metis unat_eq_0_iff unsigned_take_bit_eq unsigned_0)
  finally show ?thesis by (simp add: take_bit_eq_mod dvd_eq_mod_eq_0)
qed


section \<open>Leading and trailing zeros\<close>

text \<open>Halving the search: the number of significant bits of \<open>x\<close> is \<open>k\<close> more than that of \<open>x >> k\<close>,
  when that is not zero.\<close>

lemma floorlog_0 [simp]: "floorlog 2 0 = 0" and floorlog_1 [simp]: "floorlog 2 (Suc 0) = Suc 0"
  by (simp_all add: floorlog_def)

lemma floorlog_2_power [simp]: "floorlog 2 (2 ^ t) = Suc t"
  using floorlog_power [of 1 2 t] by simp

lemma floorlog_shift:
  assumes "x div 2 ^ k \<noteq> (0 :: nat)"
  shows "floorlog 2 x = k + floorlog 2 (x div 2 ^ k)"
  using assms
proof (induction k arbitrary: x)
  case (Suc k)
  have d: "x div 2 div 2 ^ k = x div 2 ^ Suc k" by (simp add: div_mult2_eq)
  with Suc.prems have "x > 0" by (metis div_0 gr0I)
  then have "floorlog 2 x = Suc (floorlog 2 (x div 2))" by (simp add: compute_floorlog [of 2 x])
  with Suc.IH [of "x div 2"] Suc.prems d show ?case by simp
qed simp

lemma clz_step_inv:
  assumes "clz_inv x (2 * k) s" and "k < 32"
  shows "clz_inv x k (clz_step k s)"
proof (cases s)
  case (Pair n y)
  note d = unat_drop_bit [of k y]
  show ?thesis
  proof (cases "drop_bit k y = 0")
    case True
    then have "unat y div 2 ^ k = 0" using d by simp
    then have "unat y < 2 ^ k" by (simp add: div_eq_0_iff)
    with True assms(1) Pair show ?thesis by (simp add: clz_step_def clz_inv_def)
  next
    case False
    then have nz: "unat y div 2 ^ k \<noteq> 0" using d by (metis unat_eq_0_iff)
    have "unat y < 2 ^ k * 2 ^ k" using assms(1) Pair by (simp add: clz_inv_def mult_2 power_add)
    then have "unat y div 2 ^ k < 2 ^ k" by (simp add: less_mult_imp_div_less)
    moreover have kn: "2 * k \<le> unat n" using assms(1) Pair by (simp add: clz_inv_def)
    moreover have "unat (n - word_of_nat k) = unat n - k"
    proof -
      have "unat (word_of_nat k :: u32) = k" using assms(2) by (simp add: unat_of_nat take_bit_nat_eq_self)
      with kn show ?thesis by (simp add: unat_sub word_le_nat_alt)
    qed
    ultimately show ?thesis
      using False assms(1) Pair floorlog_shift [OF nz] by (auto simp: clz_step_def clz_inv_def d)
  qed
qed

lemma clz32_floorlog: "unat (clz32_fallback x) = 32 - floorlog 2 (unat x)"
proof -
  have "clz_inv x 32 (32, x)" by (simp add: clz_inv_def)
  then have "clz_inv x 16 (clz_step 16 (32, x))" using clz_step_inv [of x 16 "(32, x)"] by simp
  then have "clz_inv x 8 (clz_step 8 (clz_step 16 (32, x)))" using clz_step_inv [of x 8] by simp
  then have "clz_inv x 4 (clz_step 4 (clz_step 8 (clz_step 16 (32, x))))" using clz_step_inv [of x 4] by simp
  then have "clz_inv x 2 (clz_step 2 (clz_step 4 (clz_step 8 (clz_step 16 (32, x)))))"
    using clz_step_inv [of x 2] by simp
  then have i: "clz_inv x 1 (clz_step 1 (clz_step 2 (clz_step 4 (clz_step 8 (clz_step 16 (32, x))))))"
    using clz_step_inv [of x 1] by simp
  obtain n y where s: "clz_step 1 (clz_step 2 (clz_step 4 (clz_step 8 (clz_step 16 (32, x))))) = (n, y)"
    by fastforce
  have "unat y < 2" "1 \<le> unat n" and n: "unat n + floorlog 2 (unat x) = 32 + floorlog 2 (unat y)"
    using i s by (auto simp: clz_inv_def)
  then have "floorlog 2 (unat y) = unat y" by (auto simp: less_2_cases_iff)
  moreover have "unat (n - y) = unat n - unat y"
    using \<open>unat y < 2\<close> \<open>1 \<le> unat n\<close> by (intro unat_sub) (simp add: word_le_nat_alt)
  ultimately show ?thesis using n by (simp add: clz32_fallback_def s [unfolded One_nat_def])
qed

lemma leading_zeros_floorlog:
  assumes "x < 2 ^ w"
  shows "leading_zeros w x (w - floorlog 2 x)"
proof (cases "x = 0")
  case False
  then have "floorlog 2 x \<le> w" "floorlog 2 x \<noteq> 0"
    using assms by (auto simp: floorlog_le_iff floorlog_eq_zero_iff)
  with False show ?thesis using floorlog_bounds [of x 2] by (simp add: leading_zeros_def)
qed (simp add: leading_zeros_def)

lemma clz32_leading: "leading_zeros 32 (unat x) (unat (clz32_fallback x))"
  unfolding clz32_floorlog by (rule leading_zeros_floorlog) (use unat_u32_less [of x] in simp)

lemma u64_halves:
  "unat (ucast x :: u32) = unat x mod 2 ^ 32" "unat (ucast (drop_bit 32 x) :: u32) = unat x div 2 ^ 32"
  for x :: u64
proof -
  have "unat x < 2 ^ 64" using unsigned_less [of x] by simp
  then have "unat x div 2 ^ 32 < 2 ^ 32" by (simp add: less_mult_imp_div_less)
  then show "unat (ucast (drop_bit 32 x) :: u32) = unat x div 2 ^ 32"
    by (simp add: unsigned_ucast_eq unat_drop_bit take_bit_nat_eq_self del: unsigned_drop_bit_eq)
qed (simp add: unsigned_ucast_eq take_bit_eq_mod)

lemma clz64_floorlog: "unat (CLZ64 x) = 64 - floorlog 2 (unat x)"
proof (cases "unat x div 2 ^ 32 = 0")
  case True
  then have "unat x < 2 ^ 32" by (simp add: div_eq_0_iff)
  moreover from this have "floorlog 2 (unat x) \<le> 32" by (intro floorlog_leI) auto
  moreover have "unat (32 + clz32_fallback (ucast x) :: u32) = 32 + (32 - floorlog 2 (unat x))"
    using \<open>unat x < 2 ^ 32\<close> by (simp add: unat_word_ariths clz32_floorlog u64_halves)
  moreover have "(ucast (drop_bit 32 x) :: u32) = 0" using True u64_halves(2) [of x] by (metis unat_eq_0_iff)
  ultimately show ?thesis by (simp add: CLZ64_def)
next
  case False
  then have "(ucast (drop_bit 32 x) :: u32) \<noteq> 0" using u64_halves(2) [of x] by (metis unat_eq_0_iff)
  then show ?thesis
    by (simp add: CLZ64_def clz32_floorlog u64_halves(2) floorlog_shift [OF False])
qed

lemma ctz32_lowest:
  assumes "bit x t" and "\<And>i. i < t \<Longrightarrow> \<not> bit x i"
  shows "unat (CTZ32 x) = t"
proof -
  have t: "t < 32" using bit_imp_le_length [OF assms(1)] by simp
  have "x \<noteq> 0" using assms(1) by auto
  moreover have "unat (clz32_fallback (x AND - x)) = 31 - t"
    using unat_push_bit_1 [of t, where 'a = 32] t
    by (simp only: lowest_bit [OF assms] clz32_floorlog floorlog_2_power) simp
  ultimately show ?thesis using t by (simp add: CTZ32_def unat_sub word_le_nat_alt)
qed

lemma ctz64_lowest:
  assumes "bit x t" and "\<And>i. i < t \<Longrightarrow> \<not> bit x i"
  shows "unat (CTZ64 x) = t"
proof -
  have t: "t < 64" using bit_imp_le_length [OF assms(1)] by simp
  have "x \<noteq> 0" using assms(1) by auto
  moreover have "unat (CLZ64 (x AND - x)) = 63 - t"
    using unat_push_bit_1 [of t, where 'a = 64] t
    by (simp only: lowest_bit [OF assms] clz64_floorlog floorlog_2_power) simp
  ultimately show ?thesis using t by (simp add: CTZ64_def unat_sub word_le_nat_alt)
qed

section \<open>Rotations and byte order\<close>

lemma rotr_bits:
  assumes "0 < r" and "r < LENGTH('a)"
  shows "drop_bit r x OR push_bit (LENGTH('a) - r) x = word_rotr r (x :: 'a::len word)"
proof (rule bit_word_eqI)
  fix n
  assume n: "n < LENGTH('a)"
  have "(n + r) mod LENGTH('a) = (if n + r < LENGTH('a) then n + r else n - (LENGTH('a) - r))"
    using n assms by (auto simp: mod_if)
  with n assms show "bit (drop_bit r x OR push_bit (LENGTH('a) - r) x) n \<longleftrightarrow> bit (word_rotr r x) n"
    by (auto simp: bit_simps add.commute dest: bit_imp_le_length)
qed

lemma rotl_bits:
  assumes "0 < r" and "r < LENGTH('a)"
  shows "push_bit r x OR drop_bit (LENGTH('a) - r) x = word_rotl r (x :: 'a::len word)"
  using rotr_bits [of "LENGTH('a) - r" x] assms by (simp add: word_rotl_eq_word_rotr or.commute)

lemma rotate_eq:
  "ROTL32 x r = (if 0 < r \<and> r < 32 then Some (word_rotl (nat r) x) else None)"
  "ROTR32 x r = (if 0 < r \<and> r < 32 then Some (word_rotr (nat r) x) else None)"
  "ROTL64 y r = (if 0 < r \<and> r < 64 then Some (word_rotl (nat r) y) else None)"
  "ROTR64 y r = (if 0 < r \<and> r < 64 then Some (word_rotr (nat r) y) else None)"
  using rotl_bits [of "nat r" x] rotr_bits [of "nat r" x] rotl_bits [of "nat r" y] rotr_bits [of "nat r" y]
  by (auto simp: ROTL32_def ROTR32_def ROTL64_def ROTR64_def c_shl_def c_lshr_def nat_diff_distrib)

lemma bswap_masks: "(0xFF00 :: u32) = push_bit 8 (mask 8)" "(0xFF0000 :: u32) = push_bit 16 (mask 8)"
  by (simp_all add: mask_eq_exp_minus_1)

lemma bswap32_byte:
  "(ucast (BSWAP32 x) :: u8) = ucast (drop_bit 24 x)"
  "(ucast (drop_bit 8 (BSWAP32 x)) :: u8) = ucast (drop_bit 16 x)"
  "(ucast (drop_bit 16 (BSWAP32 x)) :: u8) = ucast (drop_bit 8 x)"
  "(ucast (drop_bit 24 (BSWAP32 x)) :: u8) = ucast x"
  unfolding BSWAP32_def bswap_masks
  by (rule bit_word_eqI; auto simp: bit_simps dest: bit_imp_le_length)+

lemma bswap32_bytes: "bytes_of (BSWAP32 x) = rev (bytes_of x)"
  by (simp add: bytes_of_def upt_rec bswap32_byte)

lemma bswap16_bytes: "bytes_of (BSWAP16 x) = rev (bytes_of x)"
proof -
  have "(ucast (BSWAP16 x) :: u8) = ucast (drop_bit 8 x)" "(ucast (drop_bit 8 (BSWAP16 x)) :: u8) = ucast x"
    unfolding BSWAP16_def Let_def by (rule bit_word_eqI; auto simp: bit_simps dest: bit_imp_le_length)+
  then show ?thesis by (simp add: bytes_of_def upt_rec)
qed

text \<open>A 64-bit word built from two halves, byte by byte.\<close>

lemma halves_bytes:
  "bytes_of (push_bit 32 (ucast (a :: u32)) OR ucast (b :: u32) :: u64) = bytes_of b @ bytes_of a"
proof -
  have "(ucast (drop_bit k (push_bit 32 (ucast a) OR ucast b :: u64)) :: u8) = ucast (drop_bit k b)"
    if "k \<le> 24" for k
    using that by (intro bit_word_eqI) (auto simp: bit_simps dest: bit_imp_le_length)
  moreover have "(ucast (drop_bit (32 + k) (push_bit 32 (ucast a) OR ucast b :: u64)) :: u8) =
      ucast (drop_bit k a)" if "k \<le> 24" for k
    using that by (intro bit_word_eqI) (auto simp: bit_simps dest: bit_imp_le_length)
  from this [of 0] this [of 8] this [of 16] this [of 24] calculation [of 0] show ?thesis
    using calculation [of 8] calculation [of 16] calculation [of 24] by (simp add: bytes_of_def upt_rec)
qed

lemma bswap64_bytes: "bytes_of (BSWAP64 x) = rev (bytes_of x)"
proof -
  have "x = push_bit 32 (ucast (ucast (drop_bit 32 x) :: u32)) OR ucast (ucast x :: u32)"
    by (rule bit_word_eqI) (auto simp: bit_simps dest: bit_imp_le_length)
  then have "bytes_of x = bytes_of (ucast x :: u32) @ bytes_of (ucast (drop_bit 32 x) :: u32)"
    by (metis halves_bytes)
  then show ?thesis by (simp add: BSWAP64_def halves_bytes bswap32_bytes)
qed

section \<open>Population count\<close>

text \<open>Words as \<open>u + 2 ^ k * v\<close>: the operations of the count work on the two parts separately, as long
  as no carry leaves the low part and the masks stop the bits shifted in from the high part.\<close>

lemma field_join: "u < 2 ^ k \<Longrightarrow> u + 2 ^ k * v = (u OR push_bit k v)" for u v :: nat
proof -
  assume "u < 2 ^ k"
  then have "\<not> bit u n" if "k \<le> n" for n
    using that by (metis bit_take_bit_iff not_le take_bit_nat_eq_self)
  then have "u AND push_bit k v = 0" by (intro bit_eqI) (auto simp: bit_simps)
  then show ?thesis by (simp add: disjunctive_add_eq_or push_bit_eq_mult mult.commute)
qed

lemma nat_and_le: "(x AND y :: nat) \<le> x" "(x AND y :: nat) \<le> y"
  by (metis AND_upper1 AND_upper2 of_nat_0_le_iff of_nat_and_eq of_nat_le_iff)+

lemma field_and:
  assumes "a < 2 ^ k" and "m < (2 ^ k :: nat)"
  shows "(a + 2 ^ k * b) AND (m + 2 ^ k * n) = (a AND m) + 2 ^ k * (b AND n)"
proof -
  have hi: "\<not> bit u n" if "k \<le> n" "u < 2 ^ k" for u n :: nat
    using that by (metis bit_take_bit_iff not_le take_bit_nat_eq_self)
  have "a AND m < 2 ^ k" using assms(1) by (rule le_less_trans [OF nat_and_le(1)])
  then have "(a AND m) + 2 ^ k * (b AND n) = ((a AND m) OR push_bit k (b AND n))" by (rule field_join)
  also have "\<dots> = (a OR push_bit k b) AND (m OR push_bit k n)"
    using assms hi by (intro bit_eqI) (auto simp: bit_simps)
  finally show ?thesis by (simp add: field_join assms)
qed

lemma byte_cases: "list_all byte_ok ([0, 1] @ [2..<256])"
proof (simp add: upt_rec_numeral, simp add: byte_ok_def swar_def Let_def)
  have "(2 :: nat) AND 15 = 2" "(3 :: nat) AND 15 = 3" by simp_all
  then show "(bit (Suc 0) 0 \<longrightarrow> Suc (Suc 0) AND 15 = Suc (Suc 0) \<and>
      Suc (Suc (Suc 0)) AND 15 = Suc (Suc (Suc 0))) \<and> bit (Suc 0) 0"
    by (simp add: bit_0 flip: numeral_2_eq_2 numeral_3_eq_3)
qed

lemma byte_okI: "a < 256 \<Longrightarrow> byte_ok a"
proof -
  assume "a < 256"
  then have "a \<in> {0, 1} \<union> {2..<256}" by auto
  then have "a \<in> set ([0, 1] @ [2..<256])" by (simp only: set_append set_upt list.set)
  with byte_cases show ?thesis by (simp only: list_all_iff)
qed

lemma nibble_and: "(y AND m) mod 16 \<le> m mod 16" for y m :: nat
proof -
  have "(y AND m) mod 16 = (y mod 16) AND (m mod 16)"
    using take_bit_and [of 4 y m] by (simp add: take_bit_eq_mod)
  then show ?thesis by (simp add: nat_and_le)
qed

text \<open>A masked shift, when the mask of the low byte has no bit where the high part is shifted in.\<close>

lemma shift_byte:
  fixes a x m n :: nat
  assumes "a < 256" and "k \<le> 8" and "m < 2 ^ (8 - k)"
  shows "(a + 256 * x) div 2 ^ k AND (m + 256 * n) = (a div 2 ^ k AND m) + 256 * (x div 2 ^ k AND n)"
proof -
  let ?lo = "a div 2 ^ k + 2 ^ (8 - k) * (x mod 2 ^ k)"
  have p: "(256 :: nat) = 2 ^ k * 2 ^ (8 - k)" using assms(2) by (simp flip: power_add)
  have lo: "a div 2 ^ k < 2 ^ (8 - k)"
    using assms(1) unfolding p by (simp add: less_mult_imp_div_less mult.commute)
  have "(a + 256 * x) div 2 ^ k = a div 2 ^ k + 2 ^ (8 - k) * x"
    unfolding p by (simp add: mult.assoc)
  also have "\<dots> = ?lo + 256 * (x div 2 ^ k)"
  proof -
    have "2 ^ (8 - k) * x = 2 ^ (8 - k) * (x div 2 ^ k * 2 ^ k + x mod 2 ^ k)"
      by (simp only: div_mult_mod_eq)
    also have "\<dots> = 2 ^ (8 - k) * (x mod 2 ^ k) + 2 ^ k * 2 ^ (8 - k) * (x div 2 ^ k)"
      by (simp only: distrib_left mult.assoc mult.commute mult.left_commute add.commute)
    finally show ?thesis unfolding p by (simp only: add.assoc)
  qed
  finally have e: "(a + 256 * x) div 2 ^ k = ?lo + 256 * (x div 2 ^ k)" .
  have "(a + 256 * x) div 2 ^ k AND (m + 256 * n) = (?lo AND m) + 256 * (x div 2 ^ k AND n)"
  proof -
    have "?lo < 256"
      using radix_less [OF _ lo, of "x mod 2 ^ k" "2 ^ k"] unfolding p by (simp add: mult.commute add.commute)
    moreover have "m < 256" using assms(3) power_increasing [of "8 - k" 8 "2 :: nat"] by simp
    ultimately show ?thesis
      unfolding e using field_and [where a = ?lo and k = 8 and m = m] by simp
  qed
  then show ?thesis using field_and [OF lo assms(3), of _ 0] by simp
qed

lemma swar_byte:
  assumes "a < 256" and m: "m2 mod 16 \<le> 3"
  shows "swar (0x55 + 256 * m1) (0x33 + 256 * m2) (0x0F + 256 * m4) (a + 256 * x) =
    swar 0x55 0x33 0x0F a + 256 * swar m1 m2 m4 x"
proof -
  note byte = field_and [where k = 8, simplified]
  define a1 x1 where "a1 = a - (a div 2 AND 0x55)" and "x1 = x - (x div 2 AND m1)"
  define a2 x2 where "a2 = (a1 AND 0x33) + (a1 div 4 AND 0x33)" and "x2 = (x1 AND m2) + (x1 div 4 AND m2)"
  have "a div 2 AND 0x55 \<le> a" "x div 2 AND m1 \<le> x"
    using nat_and_le(1) [of "a div 2" "0x55"] nat_and_le(1) [of "x div 2" m1] by linarith+
  moreover have "(a + 256 * x) - (p + 256 * q) = (a - p) + 256 * (x - q)" if "p \<le> a" "q \<le> x" for p q
    using that by (simp add: diff_mult_distrib2)
  ultimately have s1: "(a + 256 * x) - ((a + 256 * x) div 2 AND (0x55 + 256 * m1)) = a1 + 256 * x1"
    using shift_byte [of a 1 "0x55" x m1] assms(1) unfolding a1_def x1_def by simp
  have a1: "a1 < 256" using assms(1) by (simp add: a1_def)
  have s2: "((a1 + 256 * x1) AND (0x33 + 256 * m2)) + ((a1 + 256 * x1) div 4 AND (0x33 + 256 * m2)) =
      a2 + 256 * x2"
    using shift_byte [of a1 2 "0x33" x1 m2] a1 by (simp add: a2_def x2_def byte)
  have a2: "a2 \<le> 102"
    using nat_and_le(2) [of a1 "0x33"] nat_and_le(2) [of "a1 div 4" "0x33"] by (simp add: a2_def)
  have x2: "x2 mod 16 \<le> 6"
    using nibble_and [of x1 m2] nibble_and [of "x1 div 4" m2] m
      mod_add_eq [of "x1 AND m2" 16 "x1 div 4 AND m2"] by (simp add: x2_def)
  have "(a2 + 256 * x2) div 16 = a2 div 16 + 16 * x2"
    using div_mult_self1 [of 16 a2 "16 * x2"] by simp
  moreover have "x2 = 16 * u + v \<Longrightarrow> 16 * x2 = 16 * v + 256 * u" for u v by simp
  from this [OF mult_div_mod_eq [symmetric]] have "16 * x2 = 16 * (x2 mod 16) + 256 * (x2 div 16)" .
  ultimately have s3: "(a2 + 256 * x2) + (a2 + 256 * x2) div 16 =
      (a2 + a2 div 16 + 16 * (x2 mod 16)) + 256 * (x2 + x2 div 16)"
    by (simp only: distrib_left add.assoc add.left_commute)
  have "(a2 + a2 div 16 + 16 * (x2 mod 16)) AND 0x0F = (a2 + a2 div 16) AND 0x0F"
    using take_bit_eq_mask [of 4 "a2 + a2 div 16 + 16 * (x2 mod 16)"] take_bit_eq_mask [of 4 "a2 + a2 div 16"]
    by (simp add: take_bit_eq_mod mask_eq_exp_minus_1)
  moreover have "a2 + a2 div 16 + 16 * (x2 mod 16) < 256" using a2 x2 by linarith
  ultimately have "((a2 + 256 * x2) + (a2 + 256 * x2) div 16) AND (0x0F + 256 * m4) =
      ((a2 + a2 div 16) AND 0x0F) + 256 * ((x2 + x2 div 16) AND m4)"
    unfolding s3 by (subst byte) simp_all
  then show ?thesis
    unfolding swar_def Let_def s1 s2 by (simp only: a1_def x1_def a2_def x2_def)
qed

lemma swar_bytes:
  assumes "a < 256" "b < 256" "c < 256" "d < 256"
  shows "swar 0x55555555 0x33333333 0x0F0F0F0F (a + 256 * (b + 256 * (c + 256 * d))) =
    byte_bits a + 256 * (byte_bits b + 256 * (byte_bits c + 256 * byte_bits d))"
proof -
  have byte: "swar 0x55 0x33 0x0F u = byte_bits u" if "u < 256" for u
    using byte_okI [OF that] by (simp add: byte_ok_def byte_bits_def eval_nat_numeral)
  show ?thesis
    using swar_byte [OF assms(1), of "0x333333" "0x555555" "0x0F0F0F" "b + 256 * (c + 256 * d)"]
      swar_byte [OF assms(2), of "0x3333" "0x5555" "0x0F0F" "c + 256 * d"]
      swar_byte [OF assms(3), of "0x33" "0x55" "0x0F" d] assms
    by (simp add: byte)
qed

text \<open>The word operations do not wrap, and the product collects the four byte counts in its top byte.\<close>

lemma popcount_swar:
  "unat (popcount32_fallback x) =
    swar 0x55555555 0x33333333 0x0F0F0F0F (unat x) * 0x01010101 mod 2 ^ 32 div 2 ^ 24"
proof -
  define x1 where "x1 = x - (drop_bit 1 x AND 0x55555555)"
  define x2 where "x2 = (x1 AND 0x33333333) + (drop_bit 2 x1 AND 0x33333333)"
  have d1: "unat (drop_bit 1 x AND 0x55555555) = unat x div 2 AND 0x55555555"
    by (simp add: unsigned_and_eq unat_drop_bit [where k = 1, simplified])
  have "unat x div 2 AND 0x55555555 \<le> unat x"
    using nat_and_le(1) [of "unat x div 2" "0x55555555"] by linarith
  then have u1: "unat x1 = unat x - (unat x div 2 AND 0x55555555)"
    by (simp only: x1_def d1 [symmetric] word_le_nat_alt [symmetric] unat_sub)
  have u2: "unat x2 = (unat x1 AND 0x33333333) + (unat x1 div 4 AND 0x33333333)"
    and b2: "unat x2 \<le> 0x66666666"
  proof -
    have "unat (x1 AND 0x33333333) = unat x1 AND 0x33333333"
      "unat (drop_bit 2 x1 AND 0x33333333) = unat x1 div 4 AND 0x33333333"
      using unat_drop_bit [of 2 x1] by (simp_all add: unsigned_and_eq)
    moreover have "(unat x1 AND 0x33333333) \<le> 0x33333333" "(unat x1 div 4 AND 0x33333333) \<le> 0x33333333"
      by (rule nat_and_le)+
    ultimately show "unat x2 = (unat x1 AND 0x33333333) + (unat x1 div 4 AND 0x33333333)"
      "unat x2 \<le> 0x66666666"
      by (simp_all add: x2_def unat_word_ariths)
  qed
  have u3: "unat ((x2 + drop_bit 4 x2) AND 0x0F0F0F0F) = (unat x2 + unat x2 div 16) AND 0x0F0F0F0F"
  proof -
    have "unat (drop_bit 4 x2) = unat x2 div 16" using unat_drop_bit [of 4 x2] by simp
    moreover have "unat x2 + unat x2 div 16 < 2 ^ 32"
      using b2 div_le_dividend [of "unat x2" 16] by simp
    ultimately have "unat (x2 + drop_bit 4 x2) = unat x2 + unat x2 div 16" by (simp add: unat_word_ariths)
    then show ?thesis by (simp add: unsigned_and_eq)
  qed
  have "popcount32_fallback x = drop_bit 24 (((x2 + drop_bit 4 x2) AND 0x0F0F0F0F) * 0x01010101)"
    by (simp only: popcount32_fallback_def Let_def x1_def x2_def)
  then show ?thesis
    by (simp add: unat_drop_bit unat_word_ariths u3 swar_def Let_def flip: u1 u2)
qed

lemma byte_sum:
  assumes "p \<le> 8" "q \<le> 8" "r \<le> 8" "t \<le> (8 :: nat)"
  shows "(p + 256 * (q + 256 * (r + 256 * t))) * 0x01010101 mod 2 ^ 32 div 2 ^ 24 = p + q + r + t"
proof -
  define l where "l = p + 256 * (p + q) + 65536 * (p + q + r)"
  define h where "h = (q + r + t) + 256 * (r + t) + 65536 * t"
  have e: "(p + 256 * (q + 256 * (r + 256 * t))) * 0x01010101 = (l + 2 ^ 24 * (p + q + r + t)) + 2 ^ 32 * h"
    by (simp add: l_def h_def algebra_simps)
  have l: "l < 2 ^ 24" using assms by (simp add: l_def)
  then have "l + 2 ^ 24 * (p + q + r + t) < 2 ^ 32" using assms by simp
  then have "(l + 2 ^ 24 * (p + q + r + t) + 2 ^ 32 * h) mod 2 ^ 32 = l + 2 ^ 24 * (p + q + r + t)"
    by (simp only: mod_mult_self2 mod_less)
  then show ?thesis unfolding e using l by (simp only: div_mult_self2) simp
qed

text \<open>The bits of a word, byte by byte.\<close>

lemma byte_bits_word: "byte_bits (unat x div 256 ^ j mod 256) = (\<Sum>i<8. of_bool (bit x (8 * j + i)))"
proof -
  have "bit (unat x div 256 ^ j mod 256) i \<longleftrightarrow> bit x (8 * j + i)" if "i < 8" for i
  proof -
    have "unat x div 256 ^ j mod 256 = take_bit 8 (drop_bit (8 * j) (unat x))"
      by (simp add: take_bit_eq_mod drop_bit_eq_div power_mult)
    with that show ?thesis by (simp add: bit_simps bit_unsigned_iff)
  qed
  then show ?thesis by (simp add: byte_bits_def)
qed

lemma octets:
  "(\<Sum>i<8. f (8 * 0 + i)) + (\<Sum>i<8. f (8 * 1 + i)) + (\<Sum>i<8. f (8 * 2 + i)) + (\<Sum>i<8. f (8 * 3 + i)) =
    (\<Sum>i<32. f i)" for f :: "nat \<Rightarrow> nat"
  by (simp add: lessThan_nat_numeral lessThan_Suc)

lemma card_bits:
  "card {i. bit (x :: 'a::len word) i} = (\<Sum>i<LENGTH('a). of_bool (bit x i))"
proof -
  have "{..<LENGTH('a)} \<inter> {i. bit x i} = {i. bit x i}" by (auto dest: bit_imp_le_length)
  then show ?thesis by (simp add: sum_of_bool_eq)
qed

lemma four_bytes:
  fixes n :: nat
  assumes "n < 2 ^ 32"
  shows "n = n mod 256 + 256 * (n div 256 mod 256 + 256 * (n div 256\<^sup>2 mod 256 + 256 * (n div 256 ^ 3 mod 256)))"
proof -
  have d: "n div 256\<^sup>2 = n div 256 div 256" "n div 256 ^ 3 = n div 256 div 256 div 256"
    by (simp_all add: div_mult2_eq [symmetric])
  have "n div 256 div 256 div 256 < 256"
    using assms by (simp add: div_mult2_eq [symmetric] less_mult_imp_div_less)
  then have "n div 256 div 256 div 256 mod 256 = n div 256 div 256 div 256" by (rule mod_less)
  then show ?thesis unfolding d by (simp only: mod_mult_div_eq)
qed

lemma popcount32_bits: "unat (popcount32_fallback x) = card {i. bit x i}"
proof -
  let ?b = "\<lambda>j. unat x div 256 ^ j mod 256"
  have le: "byte_bits a \<le> 8" for a
    using sum_bounded_above [of "{..<8}" "\<lambda>i. of_bool (bit a i)" "1 :: nat"] by (simp add: byte_bits_def)
  have "unat x < 2 ^ 32" using unat_u32_less [of x] by simp
  then have "unat x = ?b 0 + 256 * (?b 1 + 256 * (?b 2 + 256 * ?b 3))"
    by (simp only: power_0 div_by_1 power_one_right) (rule four_bytes)
  then have "swar 0x55555555 0x33333333 0x0F0F0F0F (unat x) =
      swar 0x55555555 0x33333333 0x0F0F0F0F (?b 0 + 256 * (?b 1 + 256 * (?b 2 + 256 * ?b 3)))"
    by (rule arg_cong)
  also have "\<dots> =
      byte_bits (?b 0) + 256 * (byte_bits (?b 1) + 256 * (byte_bits (?b 2) + 256 * byte_bits (?b 3)))"
    by (rule swar_bytes) simp_all
  finally have "unat (popcount32_fallback x) = byte_bits (?b 0) + byte_bits (?b 1) + byte_bits (?b 2) + byte_bits (?b 3)"
    unfolding popcount_swar by (simp only: byte_sum le)
  also have "\<dots> = (\<Sum>i<32. of_bool (bit x i))"
    unfolding byte_bits_word by (rule octets)
  finally show ?thesis unfolding card_bits by simp
qed

lemma card_image_add: "card {i. k \<le> i \<and> P (i - k)} = card {i. P i}" for k :: nat
proof -
  have "{i. k \<le> i \<and> P (i - k)} = (\<lambda>i. i + k) ` {i. P i}"
    by (auto simp: image_iff) (metis le_add_diff_inverse2)
  then show ?thesis by (simp add: card_image)
qed

lemma popcount64_bits: "unat (POPCOUNT64 x) = card {i. bit x i}"
proof -
  let ?lo = "ucast x :: u32" and ?hi = "ucast (drop_bit 32 x) :: u32"
  have fin: "finite {i. bit y i}" for y :: "'a::len word"
    by (rule finite_subset [of _ "{..<LENGTH('a)}"]) (auto dest: bit_imp_le_length)
  have le: "card {i. bit y i} \<le> 32" for y :: u32
  proof -
    have "{i. bit y i} \<subseteq> {..<32}" by (auto dest: bit_imp_le_length)
    then show ?thesis using card_mono [of "{..<32}" "{i. bit y i}"] by simp
  qed
  have "{i. bit x i} = {i. bit ?lo i} \<union> {i. 32 \<le> i \<and> bit ?hi (i - 32)}"
    by (auto simp: bit_simps dest: bit_imp_le_length)
  moreover have "{i. bit ?lo i} \<inter> {i. 32 \<le> i \<and> bit ?hi (i - 32)} = {}"
    by (auto dest: bit_imp_le_length)
  moreover have "finite {i. 32 \<le> i \<and> bit ?hi (i - 32)}"
    by (rule finite_subset [of _ "{..<64}"]) (auto dest: bit_imp_le_length)
  ultimately have "card {i. bit x i} = card {i. bit ?lo i} + card {i. bit ?hi i}"
    by (simp only: card_Un_disjoint fin card_image_add)
  moreover have "unat (popcount32_fallback ?lo + popcount32_fallback ?hi) = card {i. bit ?lo i} + card {i. bit ?hi i}"
    using le [of ?lo] le [of ?hi] unfolding unat_word_ariths popcount32_bits by simp
  ultimately show ?thesis by (simp only: POPCOUNT64_def)
qed

lemma clamp_eq:
  "lo \<le> hi \<Longrightarrow> CLAMP x lo hi = c_MAX lo (c_MIN x hi)" "c_MIN a b = min a b" "c_MAX a b = max a b"
  by (auto simp: CLAMP_def c_MIN_def c_MAX_def)

lemma bit_macros:
  "BIT_SET v n = (if 0 \<le> n \<and> n < 64 then Some (set_bit (nat n) v) else None)"
  "BIT_CLEAR v n = (if 0 \<le> n \<and> n < 64 then Some (unset_bit (nat n) v) else None)"
  "BIT_TOGGLE v n = (if 0 \<le> n \<and> n < 64 then Some (flip_bit (nat n) v) else None)"
  "BIT_CHECK v n = (if 0 \<le> n \<and> n < 64 then Some (bit v (nat n)) else None)"
  by (simp_all add: BIT_SET_def BIT_CLEAR_def BIT_TOGGLE_def BIT_CHECK_def BIT_def c_shl_def
      set_bit_eq_or unset_bit_eq_and_not flip_bit_eq_xor bit_iff_and_push_bit_not_eq_0)

lemma trailing_zerosI:
  assumes "\<And>t. bit x t \<Longrightarrow> (\<And>i. i < t \<Longrightarrow> \<not> bit x i) \<Longrightarrow> n = t" and "x = 0 \<Longrightarrow> n = LENGTH('a)"
  shows "trailing_zeros (x :: 'a::len word) n"
proof (cases "x = 0")
  case False
  then obtain t where "bit x t" "\<And>i. i < t \<Longrightarrow> \<not> bit x i" using lowest_bit_exists by blast
  with assms(1) False show ?thesis by (auto simp: trailing_zeros_def)
qed (simp add: trailing_zeros_def assms(2))

section \<open>Properties\<close>

text \<open>C33: The bit counters compute what their names say.  The population counts of 32 and 64 bits are the
  number of set bits; the leading-zero counts give the distance of the highest set bit from the top
  and the trailing-zero counts the position of the lowest set bit, with the full width for zero.\<close>

theorem bit_counts_correct:
  "unat (popcount32_fallback x) = card {i. bit x i} \<and> unat (POPCOUNT64 y) = card {i. bit y i} \<and>
   leading_zeros 32 (unat x) (unat (clz32_fallback x)) \<and> leading_zeros 64 (unat y) (unat (CLZ64 y)) \<and>
   trailing_zeros x (unat (CTZ32 x)) \<and> trailing_zeros y (unat (CTZ64 y))"
proof (intro conjI)
  show "leading_zeros 64 (unat y) (unat (CLZ64 y))"
    unfolding clz64_floorlog by (rule leading_zeros_floorlog) (use unsigned_less [of y] in simp)
  show "trailing_zeros x (unat (CTZ32 x))"
    by (rule trailing_zerosI) (erule ctz32_lowest, blast, simp add: CTZ32_def)
  show "trailing_zeros y (unat (CTZ64 y))"
    by (rule trailing_zerosI) (erule ctz64_lowest, blast, simp add: CTZ64_def)
qed (simp_all add: popcount32_bits popcount64_bits clz32_leading)

text \<open>The arithmetic and bit helpers, in the portable form the header writes out, implement their
  mathematical counterparts.  The power-of-two test is exact.  For a 32-bit value and an alignment
  \<open>2 ^ k\<close> with k below 32, rounding down and the alignment test are exact for every value; rounding
  up rounds down the sum \<open>v + 2 ^ k - 1\<close> taken modulo \<open>2 ^ 32\<close>, so it is the least multiple not below
  the value exactly as long as that sum does not wrap, and smaller than the value when it does.
  All four rotation macros (left and right, 32 and 64 bits) and the macros that build, set, clear,
  toggle and test a single bit are the word operations, and are undefined exactly when the rotation distance is not
  strictly between 0 and the width (a rotation by 0 included) or the bit number is out of range.
  Byte swaps reverse the bytes.\<close>

theorem bit_helpers_correct:
  fixes v :: u32
  assumes "k < 32"
  shows "IS_POWER_OF_2 x = (\<exists>j<32. x = (2 ^ j :: u32)) \<and>
    unat (ALIGN_DOWN v (2 ^ k)) = unat v div 2 ^ k * 2 ^ k \<and>
    (IS_ALIGNED v (2 ^ k) = (2 ^ k dvd unat v)) \<and>
    unat (ALIGN_UP v (2 ^ k)) = (unat v + 2 ^ k - 1) mod 2 ^ 32 div 2 ^ k * 2 ^ k \<and>
    (unat v + 2 ^ k - 1 < 2 ^ 32 \<longrightarrow> v \<le> ALIGN_UP v (2 ^ k) \<and> unat (ALIGN_UP v (2 ^ k)) < unat v + 2 ^ k) \<and>
    (2 ^ 32 \<le> unat v + 2 ^ k - 1 \<longrightarrow> ALIGN_UP v (2 ^ k) < v) \<and>
    ROTL32 x r = (if 0 < r \<and> r < 32 then Some (word_rotl (nat r) x) else None) \<and>
    ROTR32 x r = (if 0 < r \<and> r < 32 then Some (word_rotr (nat r) x) else None) \<and>
    ROTL64 y r = (if 0 < r \<and> r < 64 then Some (word_rotl (nat r) y) else None) \<and>
    ROTR64 y r = (if 0 < r \<and> r < 64 then Some (word_rotr (nat r) y) else None) \<and>
    BIT n = (if 0 \<le> n \<and> n < 64 then Some (2 ^ nat n) else None) \<and>
    BIT_SET y n = (if 0 \<le> n \<and> n < 64 then Some (set_bit (nat n) y) else None) \<and>
    BIT_CLEAR y n = (if 0 \<le> n \<and> n < 64 then Some (unset_bit (nat n) y) else None) \<and>
    BIT_TOGGLE y n = (if 0 \<le> n \<and> n < 64 then Some (flip_bit (nat n) y) else None) \<and>
    BIT_CHECK y n = (if 0 \<le> n \<and> n < 64 then Some (bit y (nat n)) else None) \<and>
    bytes_of (BSWAP16 h) = rev (bytes_of h) \<and> bytes_of (BSWAP32 x) = rev (bytes_of x) \<and>
    bytes_of (BSWAP64 y) = rev (bytes_of y)"
  using power_of_2_iff [of x] unat_align_down [of v k] unat_align_up_wraps [of v k] is_aligned_iff [of v k]
    align_up_least [of v k] align_up_below [of k v] assms
  by (simp add: rotate_eq bit_macros bswap16_bytes bswap32_bytes bswap64_bytes BIT_def c_shl_def push_bit_of_1)

theorem bit_helpers_correct_witness:
  "unat (ALIGN_UP (0x1001 :: u32) (2 ^ 6)) = 0x1040 \<and> unat (ALIGN_UP (0xFFFFFFC1 :: u32) (2 ^ 6)) = 0 \<and>
   unat (ALIGN_DOWN (0xFFFFFFC1 :: u32) (2 ^ 6)) = 0xFFFFFFC0 \<and> ROTL32 0x80000001 0 = None \<and>
   bytes_of (BSWAP32 0x12345678) = rev (bytes_of (0x12345678 :: u32))"
  using bit_helpers_correct [of 6 "0x80000001" "0x1001" 0] bit_helpers_correct [of 6 "0x12345678" "0xFFFFFFC1" 0]
  by simp

end
