(* ===== verification/Npu_Cmem.thy ===== *)
theory Npu_Cmem
  imports Npu_Prelude
begin

text \<open>
  Byte-addressed memory of the host process, as far as the runtime uses it: loads,
  stores, \<open>memmove\<close> and single-byte copies.  An access outside every object is undefined
  behaviour (\<^term>\<open>None\<close>), so a theorem that an operation returns \<^term>\<open>Some\<close> also
  says that it never reads or writes out of bounds.  Buffers may overlap: aliasing is
  decided by the addresses.
\<close>

section \<open>Definitions\<close>

type_synonym mem = "nat \<Rightarrow> byte option"

definition mem_store :: "nat \<Rightarrow> byte \<Rightarrow> mem \<Rightarrow> mem option" where
  "mem_store a v m = (if m a = None then None else Some (m(a \<mapsto> v)))"

text \<open>\<open>*dst = *src\<close> on one byte.\<close>

definition copy_byte :: "nat \<Rightarrow> nat \<Rightarrow> mem \<Rightarrow> mem option" where
  "copy_byte dst src m = (case m src of None \<Rightarrow> None | Some v \<Rightarrow> mem_store dst v m)"

text \<open>\<open>n\<close> bytes from \<open>a\<close> on belong to mapped objects.\<close>

definition mapped :: "mem \<Rightarrow> nat \<Rightarrow> nat \<Rightarrow> bool" where
  "mapped m a n = list_all (\<lambda>i. m (a + i) \<noteq> None) [0..<n]"

definition disjoint_bufs :: "nat \<Rightarrow> nat \<Rightarrow> nat \<Rightarrow> bool" where
  "disjoint_bufs a b n = (a + n \<le> b \<or> b + n \<le> a)"

fun mem_read_bytes :: "mem \<Rightarrow> nat \<Rightarrow> nat \<Rightarrow> byte list option" where
  "mem_read_bytes m a 0 = Some []"
| "mem_read_bytes m a (Suc n) =
     (case m a of None \<Rightarrow> None
      | Some v \<Rightarrow> (case mem_read_bytes m (Suc a) n of None \<Rightarrow> None | Some vs \<Rightarrow> Some (v # vs)))"

fun mem_write_bytes :: "nat \<Rightarrow> byte list \<Rightarrow> mem \<Rightarrow> mem option" where
  "mem_write_bytes a [] m = Some m"
| "mem_write_bytes a (v # vs) m =
     (case mem_store a v m of None \<Rightarrow> None | Some m' \<Rightarrow> mem_write_bytes (Suc a) vs m')"

text \<open>\<open>memmove\<close> behaves as if through a temporary: all bytes are read before any is written.\<close>

definition memmove :: "nat \<Rightarrow> nat \<Rightarrow> nat \<Rightarrow> mem \<Rightarrow> mem option" where
  "memmove dst src n m =
     (case mem_read_bytes m src n of None \<Rightarrow> None | Some vs \<Rightarrow> mem_write_bytes dst vs m)"

section \<open>Reading and writing runs of bytes\<close>

lemma mapped_iff: "mapped m a n \<longleftrightarrow> (\<forall>i<n. m (a + i) \<noteq> None)"
  by (auto simp: mapped_def list_all_iff)

lemma mappedD: "mapped m a n \<Longrightarrow> i < n \<Longrightarrow> m (a + i) \<noteq> None"
  by (simp add: mapped_iff)

lemma mapped_range: "mapped m a n \<longleftrightarrow> (\<forall>x\<in>{a..<a + n}. m x \<noteq> None)"
  unfolding mapped_iff by (metis atLeastLessThan_iff le_add1 le_iff_add nat_add_left_cancel_less)

lemma mapped_mono: "mapped m a n \<Longrightarrow> k \<le> n \<Longrightarrow> mapped m a k"
  by (simp add: mapped_iff)

lemma mapped_Suc: "mapped m a (Suc n) \<longleftrightarrow> m a \<noteq> None \<and> mapped m (Suc a) n"
  by (auto simp: mapped_iff less_Suc_eq_0_disj)

lemma mem_read_bytes_mapped:
  "mapped m a n \<Longrightarrow> mem_read_bytes m a n = Some (map (\<lambda>i. the (m (a + i))) [0..<n])"
proof (induction n arbitrary: a)
  case (Suc n)
  have up: "[0..<Suc n] = 0 # map Suc [0..<n]"
    by (simp add: map_Suc_upt upt_conv_Cons del: upt_Suc)
  from Suc.prems have "m a \<noteq> None" and "mapped m (Suc a) n" by (simp_all add: mapped_Suc)
  with Suc.IH show ?case by (auto simp: up o_def simp del: upt_Suc)
qed simp

lemma mem_write_bytes_mapped:
  "mapped m a (length vs) \<Longrightarrow>
   mem_write_bytes a vs m =
     Some (\<lambda>x. if a \<le> x \<and> x < a + length vs then Some (vs ! (x - a)) else m x)"
proof (induction vs arbitrary: a m)
  case (Cons v vs)
  from Cons.prems have "m a \<noteq> None" and *: "mapped m (Suc a) (length vs)"
    by (simp_all add: mapped_Suc)
  from * have "mapped (m(a \<mapsto> v)) (Suc a) (length vs)"
    by (simp add: mapped_iff)
  then have "mem_write_bytes (Suc a) vs (m(a \<mapsto> v)) =
      Some (\<lambda>x. if Suc a \<le> x \<and> x < Suc a + length vs then Some (vs ! (x - Suc a))
        else (m(a \<mapsto> v)) x)"
    by (rule Cons.IH)
  also have "\<dots> = Some (\<lambda>x. if a \<le> x \<and> x < a + length (v # vs) then Some ((v # vs) ! (x - a))
        else m x)"
    by (auto simp: nth_Cons')
  finally show ?case using \<open>m a \<noteq> None\<close> by (simp add: mem_store_def)
qed (auto simp: fun_eq_iff)

lemma memmove_mapped:
  assumes "mapped m src n" and "mapped m dst n"
  shows "memmove dst src n m =
    Some (\<lambda>x. if dst \<le> x \<and> x < dst + n then m (src + (x - dst)) else m x)"
proof -
  have "the (m (src + (x - dst))) = v" if "m (src + (x - dst)) = Some v" for x v
    using that by simp
  moreover have "m (src + (x - dst)) \<noteq> None" if "dst \<le> x" "x < dst + n" for x
    using assms(1) that by (intro mappedD) auto
  ultimately show ?thesis
    using assms by (auto simp: memmove_def mem_read_bytes_mapped mem_write_bytes_mapped fun_eq_iff)
qed

section \<open>A sequence of byte copies between disjoint regions\<close>

lemma copy_byte_Some:
  "m s = Some v \<Longrightarrow> m d \<noteq> None \<Longrightarrow> copy_byte d s m = Some (m(d \<mapsto> v))"
  by (simp add: copy_byte_def mem_store_def)

text \<open>If no copy writes an address that some copy reads, and the destinations are
  distinct, the whole sequence succeeds, every destination ends up holding what its
  source held at the start, and nothing else changes.\<close>

lemma foldM_copy_byte:
  assumes "\<And>x. x \<in> set xs \<Longrightarrow> m (src x) \<noteq> None"
    and "\<And>x. x \<in> set xs \<Longrightarrow> m (dst x) \<noteq> None"
    and "\<And>x y. x \<in> set xs \<Longrightarrow> y \<in> set xs \<Longrightarrow> src x \<noteq> dst y"
    and "distinct xs" and "inj_on dst (set xs)"
  shows "\<exists>m'. foldM (\<lambda>x. copy_byte (dst x) (src x)) xs m = Some m' \<and>
           (\<forall>x\<in>set xs. m' (dst x) = m (src x)) \<and>
           (\<forall>a. a \<notin> dst ` set xs \<longrightarrow> m' a = m a)"
  using assms
proof (induction xs arbitrary: m)
  case (Cons x xs)
  obtain v where v: "m (src x) = Some v" using Cons.prems(1) [of x] by auto
  define m1 where "m1 = m(dst x \<mapsto> v)"
  have step: "copy_byte (dst x) (src x) m = Some m1"
    using v Cons.prems(2) [of x] by (simp add: copy_byte_Some m1_def)
  have src1: "m1 (src y) = m (src y)" if "y \<in> set xs" for y
    using Cons.prems(3) [of y x] that by (auto simp: m1_def)
  have "m1 (dst y) \<noteq> None" if "y \<in> set xs" for y
    using Cons.prems(2) [of y] that by (auto simp: m1_def)
  moreover have "m1 (src y) \<noteq> None" if "y \<in> set xs" for y
    using Cons.prems(1) [of y] src1 [OF that] that by simp
  ultimately obtain m' where m': "foldM (\<lambda>x. copy_byte (dst x) (src x)) xs m1 = Some m'"
      and at: "\<forall>y\<in>set xs. m' (dst y) = m1 (src y)"
      and frame: "\<forall>a. a \<notin> dst ` set xs \<longrightarrow> m' a = m1 a"
    using Cons.IH [of m1] Cons.prems(3-5) by (auto simp: inj_on_def)
  have "dst x \<notin> dst ` set xs" using Cons.prems(4,5) by (auto simp: inj_on_def)
  then have "m' (dst x) = m (src x)" using frame v by (simp add: m1_def)
  with m' at frame src1 step show ?case by (auto simp: m1_def)
qed auto

end
