(* ===== verification/Npu_Tensor.thy ===== *)
theory Npu_Tensor
  imports Npu_Cmem "HOL-Library.Multiset"
begin

text \<open>
  Tensor descriptors and layout conversion: \<open>sw/uapi/lgnpu_tensor.h\<close> and
  \<open>sw/runtime/tensor_desc.c\<close>.  A NULL pointer is \<^term>\<open>None\<close>; the two enums of the
  descriptor keep the full range of their underlying integer type, since the code guards
  against values outside the enumeration.  Dimensions and offsets stay at their C width.
\<close>

section \<open>Descriptor and error codes (\<open>lgnpu_tensor.h\<close>)\<close>

definition LGNPU_DTYPE_INT8 :: u32 where [c_consts]: "LGNPU_DTYPE_INT8 = 0"

definition LGNPU_LAYOUT_NHWC :: u32 where [c_consts]: "LGNPU_LAYOUT_NHWC = 0"

definition LGNPU_LAYOUT_NCHW :: u32 where [c_consts]: "LGNPU_LAYOUT_NCHW = 1"

definition LGNPU_LAYOUT_COUNT :: u32 where [c_consts]: "LGNPU_LAYOUT_COUNT = 2"

record npu_tensor_desc =
  base_addr :: u16
  dim_n :: u16
  dim_h :: u16
  dim_w :: u16
  dim_c :: u16
  layout :: u32
  dtype :: u32

datatype npu_tensor_err =
    LGNPU_TENSOR_OK
  | LGNPU_TENSOR_ERR_NULL_PTR
  | LGNPU_TENSOR_ERR_ZERO_DIM
  | LGNPU_TENSOR_ERR_BATCH_UNSUP
  | LGNPU_TENSOR_ERR_LAYOUT_UNKNOWN
  | LGNPU_TENSOR_ERR_OVERFLOW
  | LGNPU_TENSOR_ERR_BUF_TOO_SMALL

text \<open>Products of \<open>size_t\<close>-promoted dimensions (64 bits).\<close>

definition npu_tensor_element_count :: "npu_tensor_desc \<Rightarrow> u64" where
  "npu_tensor_element_count desc =
     ucast (dim_n desc) * ucast (dim_h desc) * ucast (dim_w desc) * ucast (dim_c desc)"

definition npu_tensor_byte_size :: "npu_tensor_desc \<Rightarrow> u64" where
  "npu_tensor_byte_size desc = npu_tensor_element_count desc"

definition npu_tensor_nhwc_offset :: "npu_tensor_desc \<Rightarrow> u16 \<Rightarrow> u16 \<Rightarrow> u16 \<Rightarrow> u16 \<Rightarrow> u64" where
  "npu_tensor_nhwc_offset desc n h w c =
     ucast (base_addr desc) +
       (((ucast n * ucast (dim_h desc) + ucast h) * ucast (dim_w desc) + ucast w)
          * ucast (dim_c desc) + ucast c)"

definition npu_tensor_is_canonical :: "u32 \<Rightarrow> bool" where
  "npu_tensor_is_canonical l = (l = LGNPU_LAYOUT_NHWC)"

section \<open>Validation and conversion (\<open>tensor_desc.c\<close>)\<close>

definition npu_tensor_validate :: "npu_tensor_desc option \<Rightarrow> npu_tensor_err" where
  "npu_tensor_validate d = (case d of
     None \<Rightarrow> LGNPU_TENSOR_ERR_NULL_PTR
   | Some desc \<Rightarrow>
       if dim_n desc = 0 \<or> dim_h desc = 0 \<or> dim_w desc = 0 \<or> dim_c desc = 0
         then LGNPU_TENSOR_ERR_ZERO_DIM
       else if dim_n desc \<noteq> 1 then LGNPU_TENSOR_ERR_BATCH_UNSUP
       else if layout desc \<ge> LGNPU_LAYOUT_COUNT then LGNPU_TENSOR_ERR_LAYOUT_UNKNOWN
       else (let (of1, hw) = builtin_mul_overflow (ucast (dim_h desc)) (ucast (dim_w desc));
                 (of2, hwc) = builtin_mul_overflow hw (ucast (dim_c desc))
             in if of1 \<or> of2 then LGNPU_TENSOR_ERR_OVERFLOW else LGNPU_TENSOR_OK))"

text \<open>The permutation loop nest.  Row pointers are advanced in \<open>size_t\<close>; the innermost
  destination index \<open>w * C\<close> multiplies two promoted \<open>uint16_t\<close>, hence is an \<open>int\<close>
  product.\<close>

definition convert_nchw_to_nhwc ::
  "nat \<Rightarrow> nat \<Rightarrow> u16 \<Rightarrow> u16 \<Rightarrow> u16 \<Rightarrow> u16 \<Rightarrow> mem \<Rightarrow> mem option" where
  "convert_nchw_to_nhwc dst src N H W C m =
     (let HW = (ucast H :: u64) * ucast W;
          WC = (ucast W :: u64) * ucast C;
          HWC = HW * ucast C
      in for_word 0 N (\<lambda>n m.
           let dn = dst + unat (ucast n * HWC);
               sn = src + unat (ucast n * HWC)
           in for_word 0 C (\<lambda>c m.
                let dc = dn + unat c;
                    sc = sn + unat (ucast c * HW)
                in for_word 0 H (\<lambda>h m.
                     let sh = sc + unat ((ucast h :: u64) * ucast W);
                         dh = dc + unat (ucast h * WC)
                     in for_word 0 W (\<lambda>w m.
                          case c_int_mul_u16 w C of
                            None \<Rightarrow> None
                          | Some wC \<Rightarrow> copy_byte (dh + wC) (sh + unat w) m) m) m) m) m)"

definition npu_tensor_convert_to_nhwc ::
  "nat option \<Rightarrow> nat option \<Rightarrow> npu_tensor_desc option \<Rightarrow> u64 \<Rightarrow> mem
     \<Rightarrow> (npu_tensor_err \<times> mem) option" where
  "npu_tensor_convert_to_nhwc dst src d buf_bytes m =
     (case (dst, src) of
        (Some out, Some inp) \<Rightarrow>
          (let err = npu_tensor_validate d
           in if err \<noteq> LGNPU_TENSOR_OK then Some (err, m)
              else (case d of
                 None \<Rightarrow> None
               | Some desc \<Rightarrow>
                   (let total = npu_tensor_byte_size desc
                    in if buf_bytes < total then Some (LGNPU_TENSOR_ERR_BUF_TOO_SMALL, m)
                       else if layout desc = LGNPU_LAYOUT_NHWC
                         then map_option (Pair LGNPU_TENSOR_OK) (memmove out inp (unat total) m)
                       else if layout desc = LGNPU_LAYOUT_NCHW
                         then map_option (Pair LGNPU_TENSOR_OK)
                                (convert_nchw_to_nhwc out inp (dim_n desc) (dim_h desc)
                                   (dim_w desc) (dim_c desc) m)
                       else Some (LGNPU_TENSOR_ERR_LAYOUT_UNKNOWN, m))))
      | _ \<Rightarrow> Some (LGNPU_TENSOR_ERR_NULL_PTR, m))"

section \<open>Abstract layouts\<close>

text \<open>Position of element \<open>[n][h][w][c]\<close> in the two memory orders, on naturals: what
  \<open>docs/spec/tensor_layouts.md\<close> prescribes.\<close>

definition nhwc_index :: "nat \<Rightarrow> nat \<Rightarrow> nat \<Rightarrow> nat \<Rightarrow> nat \<Rightarrow> nat \<Rightarrow> nat \<Rightarrow> nat" where
  "nhwc_index H W C n h w c = ((n * H + h) * W + w) * C + c"

definition nchw_index :: "nat \<Rightarrow> nat \<Rightarrow> nat \<Rightarrow> nat \<Rightarrow> nat \<Rightarrow> nat \<Rightarrow> nat \<Rightarrow> nat" where
  "nchw_index H W C n h w c = ((n * C + c) * H + h) * W + w"

text \<open>Index of an element in the order a descriptor declares.\<close>

definition layout_index :: "npu_tensor_desc \<Rightarrow> nat \<Rightarrow> nat \<Rightarrow> nat \<Rightarrow> nat \<Rightarrow> nat" where
  "layout_index d n h w c =
     (if layout d = LGNPU_LAYOUT_NHWC
      then nhwc_index (unat (dim_h d)) (unat (dim_w d)) (unat (dim_c d)) n h w c
      else nchw_index (unat (dim_h d)) (unat (dim_w d)) (unat (dim_c d)) n h w c)"

text \<open>The loop nest visits these positions in this order.\<close>

definition nchw_positions :: "nat \<Rightarrow> nat \<Rightarrow> nat \<Rightarrow> nat \<Rightarrow> (nat \<times> nat \<times> nat \<times> nat) list" where
  "nchw_positions N H W C =
     concat (map (\<lambda>n. concat (map (\<lambda>c. concat (map (\<lambda>h.
       map (\<lambda>w. (n, c, h, w)) [0..<W]) [0..<H])) [0..<C])) [0..<N])"

text \<open>Number of elements of a descriptor, on naturals.\<close>

definition tensor_elems :: "npu_tensor_desc \<Rightarrow> nat" where
  "tensor_elems d = unat (dim_n d) * unat (dim_h d) * unat (dim_w d) * unat (dim_c d)"

text \<open>What a caller of the conversion has to provide.  Disjointness is what the
  \<open>RESTRICT\<close> qualifiers demand; the bound on a row is what the \<open>int\<close> index product
  demands.\<close>

definition convert_pre :: "npu_tensor_desc \<Rightarrow> u64 \<Rightarrow> nat \<Rightarrow> nat \<Rightarrow> mem \<Rightarrow> bool" where
  "convert_pre t buf_bytes dst src m \<longleftrightarrow>
     npu_tensor_validate (Some t) = LGNPU_TENSOR_OK \<and>
     tensor_elems t \<le> unat buf_bytes \<and>
     mapped m src (tensor_elems t) \<and> mapped m dst (tensor_elems t) \<and>
     disjoint_bufs dst src (tensor_elems t) \<and>
     (unat (dim_w t) - 1) * unat (dim_c t) \<le> INT_MAX"

definition sample_tensor :: "u32 \<Rightarrow> npu_tensor_desc" where
  "sample_tensor l = \<lparr>base_addr = 0, dim_n = 1, dim_h = 1, dim_w = 2, dim_c = 2, layout = l,
     dtype = LGNPU_DTYPE_INT8\<rparr>"

definition sample_mem :: mem where
  "sample_mem a = (if a < 8 then Some (word_of_nat a) else None)"

section \<open>Size arithmetic never wraps\<close>

lemma u16_prod2: "unat (a :: u16) * unat (b :: u16) \<le> 65535 * 65535"
  by (rule mult_le_mono) (rule unat_u16_le)+

lemma unat_mult_small:
  "unat a * unat b < 2 ^ LENGTH('a) \<Longrightarrow> unat (a * b) = unat a * unat b" for a b :: "'a::len word"
  by (simp add: unat_mult_lem)

lemma unat_add_small:
  "unat a + unat b < 2 ^ LENGTH('a) \<Longrightarrow> unat (a + b) = unat a + unat b" for a b :: "'a::len word"
  by (simp add: unat_add_lem)

lemma unat_u64_prod2: "unat ((ucast (a :: u16) :: u64) * ucast (b :: u16)) = unat a * unat b"
  using u16_prod2 [of a b] by (subst unat_mult_small) simp_all

lemma unat_u64_prod3:
  "unat ((ucast (a :: u16) :: u64) * ucast (b :: u16) * ucast (c :: u16)) = unat a * unat b * unat c"
proof -
  have "unat a * unat b * unat c \<le> 65535 * 65535 * 65535"
    using u16_prod2 unat_u16_le by (rule mult_le_mono)
  then show ?thesis by (subst unat_mult_small) (simp_all add: unat_u64_prod2)
qed

lemma unat_u64_prod4:
  "unat ((ucast (a :: u16) :: u64) * ucast (b :: u16) * ucast (c :: u16) * ucast (d :: u16)) =
     unat a * unat b * unat c * unat d"
proof -
  have "unat a * unat b * unat c * unat d \<le> 65535 * 65535 * 65535 * 65535"
    by (intro mult_le_mono unat_u16_le)
  then show ?thesis by (subst unat_mult_small) (simp_all add: unat_u64_prod3)
qed

lemma unat_u64_prod_1_3:
  "unat ((ucast (a :: u16) :: u64) * (ucast (b :: u16) * ucast (c :: u16) * ucast (d :: u16))) =
     unat a * (unat b * unat c * unat d)"
  using unat_u64_prod4 [of a b c d] by (simp add: mult.assoc)

lemma unat_u64_prod_1_2:
  "unat ((ucast (a :: u16) :: u64) * (ucast (b :: u16) * ucast (c :: u16))) =
     unat a * (unat b * unat c)"
  using unat_u64_prod3 [of a b c] by (simp add: mult.assoc)

lemmas u64_size_simps =
  unat_u64_prod2 unat_u64_prod3 unat_u64_prod4 unat_u64_prod_1_2 unat_u64_prod_1_3

lemma unat_byte_size: "unat (npu_tensor_byte_size d) = tensor_elems d"
  by (simp add: npu_tensor_byte_size_def npu_tensor_element_count_def tensor_elems_def
      unat_u64_prod4)

lemma nhwc_offset_exact:
  "unat (npu_tensor_nhwc_offset d n h w c) =
     unat (base_addr d) +
       nhwc_index (unat (dim_h d)) (unat (dim_w d)) (unat (dim_c d)) (unat n) (unat h) (unat w) (unat c)"
proof -
  define A B D where "A = unat n * unat (dim_h d) + unat h"
    and "B = A * unat (dim_w d) + unat w" and "D = B * unat (dim_c d) + unat c"
  have A: "A \<le> 65535 * 65535 + 65535"
    unfolding A_def by (intro add_le_mono mult_le_mono unat_u16_le)
  have B: "B \<le> (65535 * 65535 + 65535) * 65535 + 65535"
    unfolding B_def by (intro add_le_mono mult_le_mono unat_u16_le A)
  have D: "D \<le> ((65535 * 65535 + 65535) * 65535 + 65535) * 65535 + 65535"
    unfolding D_def by (intro add_le_mono mult_le_mono unat_u16_le B)
  have base: "unat (base_addr d) \<le> 65535" by (rule unat_u16_le)
  have wA: "unat ((ucast n :: u64) * ucast (dim_h d) + ucast h) = A"
    using A unfolding A_def by (subst unat_add_small) (simp_all add: unat_u64_prod2)
  have A1: "A * unat (dim_w d) \<le> (65535 * 65535 + 65535) * 65535"
    by (intro mult_le_mono unat_u16_le A)
  have wB: "unat (((ucast n :: u64) * ucast (dim_h d) + ucast h) * ucast (dim_w d) + ucast w) = B"
    using A1 B unfolding B_def
    by (subst unat_add_small; subst unat_mult_small) (simp_all add: wA)
  have B1: "B * unat (dim_c d) \<le> ((65535 * 65535 + 65535) * 65535 + 65535) * 65535"
    by (intro mult_le_mono unat_u16_le B)
  have wD: "unat ((((ucast n :: u64) * ucast (dim_h d) + ucast h) * ucast (dim_w d) + ucast w)
      * ucast (dim_c d) + ucast c) = D"
    using B1 D unfolding D_def
    by (subst unat_add_small; subst unat_mult_small) (simp_all add: wB)
  show ?thesis
    unfolding npu_tensor_nhwc_offset_def nhwc_index_def
    using D base by (subst unat_add_small) (simp_all add: wD, simp_all add: D_def B_def A_def)
qed

section \<open>Layout indices\<close>

lemma nhwc_index_less:
  "n < N \<Longrightarrow> h < H \<Longrightarrow> w < W \<Longrightarrow> c < C \<Longrightarrow> nhwc_index H W C n h w c < N * H * W * C"
  unfolding nhwc_index_def by (intro radix_less)

lemma nchw_index_less:
  "n < N \<Longrightarrow> h < H \<Longrightarrow> w < W \<Longrightarrow> c < C \<Longrightarrow> nchw_index H W C n h w c < N * H * W * C"
  using radix_less [OF radix_less [OF radix_less [of n N c C]], of h H w W]
  by (simp add: nchw_index_def ac_simps)

lemma nhwc_index_inj:
  assumes "h < H" "w < W" "c < C" "h' < H" "w' < W" "c' < C"
    and "nhwc_index H W C n h w c = nhwc_index H W C n' h' w' c'"
  shows "n = n' \<and> h = h' \<and> w = w' \<and> c = c'"
  using assms unfolding nhwc_index_def by (metis radix_inj)

lemma nchw_index_inj:
  assumes "h < H" "w < W" "c < C" "h' < H" "w' < W" "c' < C"
    and "nchw_index H W C n h w c = nchw_index H W C n' h' w' c'"
  shows "n = n' \<and> h = h' \<and> w = w' \<and> c = c'"
  using assms unfolding nchw_index_def by (metis radix_inj)

lemma nhwc_index_surj:
  assumes "i < N * H * W * C"
  shows "\<exists>n h w c. n < N \<and> h < H \<and> w < W \<and> c < C \<and> i = nhwc_index H W C n h w c"
  using assms unfolding nhwc_index_def by (metis radix_surj)

lemma nchw_index_surj:
  assumes "i < N * H * W * C"
  shows "\<exists>n h w c. n < N \<and> h < H \<and> w < W \<and> c < C \<and> i = nchw_index H W C n h w c"
proof -
  from assms have "i < N * C * H * W" by (simp add: ac_simps)
  then show ?thesis unfolding nchw_index_def by (metis radix_surj)
qed

section \<open>The permutation loop nest\<close>

lemma set_nchw_positions:
  "set (nchw_positions N H W C) = {(n, c, h, w). n < N \<and> c < C \<and> h < H \<and> w < W}"
  by (fastforce simp: nchw_positions_def)

lemma distinct_concat_map_Pair:
  assumes "distinct xs" and "\<And>x. x \<in> set xs \<Longrightarrow> distinct (f x)"
    and "\<And>x y v. x \<in> set xs \<Longrightarrow> y \<in> set xs \<Longrightarrow> v \<in> set (f x) \<Longrightarrow> v \<in> set (f y) \<Longrightarrow> x = y"
  shows "distinct (concat (map f xs))"
  using assms
proof (induction xs)
  case (Cons x xs)
  have "set (f x) \<inter> (\<Union>y\<in>set xs. set (f y)) = {}"
    using Cons.prems(1) Cons.prems(3) [of x] by auto
  with Cons show ?case by auto
qed simp

lemma distinct_nchw_positions: "distinct (nchw_positions N H W C)"
  unfolding nchw_positions_def
  by (intro distinct_concat_map_Pair) (auto simp: distinct_map inj_on_def)

lemma convert_positions:
  "convert_nchw_to_nhwc dst src N H W C m =
     foldM (\<lambda>(n, c, h, w) m.
        if w * unat C \<le> INT_MAX
        then copy_byte (dst + nhwc_index (unat H) (unat W) (unat C) n h w c)
               (src + nchw_index (unat H) (unat W) (unat C) n h w c) m
        else None)
       (nchw_positions (unat N) (unat H) (unat W) (unat C)) m"
proof -
  have idx: "unat (word_of_nat k :: u16) = k" if "k < unat (x :: u16)" for k x
  proof -
    have "k < 65536" using that unat_u16_less [of x] by linarith
    then show ?thesis by (simp add: unat_of_nat)
  qed
  have addr: "dst + n * (H' * W' * C') + c + h * (W' * C') + w * C' =
      dst + nhwc_index H' W' C' n h w c"
    "src + n * (H' * W' * C') + c * (H' * W') + h * W' + w =
      src + nchw_index H' W' C' n h w c" for n h w c H' W' C'
    by (simp_all add: nhwc_index_def nchw_index_def algebra_simps)
  show ?thesis
    unfolding convert_nchw_to_nhwc_def nchw_positions_def Let_def for_word_0_foldM
      foldM_concat foldM_map u64_size_simps c_int_mul_u16_def
    by (intro foldM_cong refl) (simp add: idx addr u64_size_simps)
qed

lemma convert_nchw_correct:
  assumes src: "mapped m src (unat N * unat H * unat W * unat C)"
    and dst: "mapped m dst (unat N * unat H * unat W * unat C)"
    and dis: "disjoint_bufs dst src (unat N * unat H * unat W * unat C)"
    and fits: "(unat W - 1) * unat C \<le> INT_MAX"
  shows "\<exists>m'. convert_nchw_to_nhwc dst src N H W C m = Some m' \<and>
    (\<forall>n h w c. n < unat N \<and> h < unat H \<and> w < unat W \<and> c < unat C \<longrightarrow>
       m' (dst + nhwc_index (unat H) (unat W) (unat C) n h w c) =
       m (src + nchw_index (unat H) (unat W) (unat C) n h w c)) \<and>
    (\<forall>a. a < dst \<or> dst + unat N * unat H * unat W * unat C \<le> a \<longrightarrow> m' a = m a)"
proof -
  define P where "P = nchw_positions (unat N) (unat H) (unat W) (unat C)"
  define d where "d = (\<lambda>(n, c, h, w). dst + nhwc_index (unat H) (unat W) (unat C) n h w c)"
  define s where "s = (\<lambda>(n, c, h, w). src + nchw_index (unat H) (unat W) (unat C) n h w c)"
  let ?E = "unat N * unat H * unat W * unat C"
  have d_in: "dst \<le> d x \<and> d x < dst + ?E" and s_in: "src \<le> s x \<and> s x < src + ?E"
    if "x \<in> set P" for x
    using that nhwc_index_less nchw_index_less
    by (auto simp: d_def s_def P_def set_nchw_positions)
  have fits': "w * unat C \<le> INT_MAX" if "(n, c, h, w) \<in> set P" for n c h w
  proof -
    have "w \<le> unat W - 1" using that by (auto simp: P_def set_nchw_positions)
    then show ?thesis using fits by (meson le_trans mult_le_mono1)
  qed
  have fold: "convert_nchw_to_nhwc dst src N H W C m = foldM (\<lambda>x. copy_byte (d x) (s x)) P m"
    unfolding convert_positions P_def [symmetric]
    by (rule foldM_cong) (auto simp: d_def s_def fits')
  have "inj_on d (set P)"
    by (auto simp: inj_on_def d_def P_def set_nchw_positions dest!: nhwc_index_inj [rotated 6])
  moreover have "m (s x) \<noteq> None" "m (d x) \<noteq> None" if "x \<in> set P" for x
    using d_in [OF that] s_in [OF that] src dst by (auto simp: mapped_range)
  moreover have "s x \<noteq> d y" if "x \<in> set P" "y \<in> set P" for x y
    using d_in [OF that(2)] s_in [OF that(1)] dis by (auto simp: disjoint_bufs_def)
  moreover have "distinct P" by (simp add: P_def distinct_nchw_positions)
  ultimately obtain m' where m': "foldM (\<lambda>x. copy_byte (d x) (s x)) P m = Some m'"
      and at: "\<forall>x\<in>set P. m' (d x) = m (s x)" and frame: "\<forall>a. a \<notin> d ` set P \<longrightarrow> m' a = m a"
    using foldM_copy_byte [of P m s d] by blast
  have "m' a = m a" if "a < dst \<or> dst + ?E \<le> a" for a
  proof -
    have "a \<notin> d ` set P" using that by (auto dest!: d_in)
    with frame show ?thesis by blast
  qed
  with m' at show ?thesis
    by (auto simp: fold P_def set_nchw_positions d_def s_def)
qed

section \<open>Validation\<close>

lemma unat_u32_prod2: "unat ((ucast (a :: u16) :: u32) * ucast (b :: u16)) = unat a * unat b"
  using u16_prod2 [of a b] by (subst unat_mult_small) simp_all

lemma layout_ge_count: "layout t \<ge> LGNPU_LAYOUT_COUNT \<longleftrightarrow> 2 \<le> unat (layout t)"
  by (simp add: LGNPU_LAYOUT_COUNT_def word_le_nat_alt)

lemma validate_Some:
  "npu_tensor_validate (Some t) =
     (if dim_n t = 0 \<or> dim_h t = 0 \<or> dim_w t = 0 \<or> dim_c t = 0 then LGNPU_TENSOR_ERR_ZERO_DIM
      else if dim_n t \<noteq> 1 then LGNPU_TENSOR_ERR_BATCH_UNSUP
      else if 2 \<le> unat (layout t) then LGNPU_TENSOR_ERR_LAYOUT_UNKNOWN
      else if 2 ^ 32 \<le> tensor_elems t then LGNPU_TENSOR_ERR_OVERFLOW
      else LGNPU_TENSOR_OK)"
  using u16_prod2 [of "dim_h t" "dim_w t"]
  by (auto simp: npu_tensor_validate_def layout_ge_count builtin_mul_overflow_def
      unat_u32_prod2 tensor_elems_def)

lemma layout_less_2: "\<not> 2 \<le> unat l \<longleftrightarrow> l = LGNPU_LAYOUT_NHWC \<or> l = LGNPU_LAYOUT_NCHW"
proof -
  have "\<not> 2 \<le> unat l \<longleftrightarrow> unat l = 0 \<or> unat l = 1" by linarith
  also have "\<dots> \<longleftrightarrow> l = 0 \<or> l = 1" by (metis unat_1 unat_eq_0_iff word_unat_eq_iff)
  finally show ?thesis by (simp add: c_consts)
qed

lemma validate_OK_iff:
  "npu_tensor_validate (Some t) = LGNPU_TENSOR_OK \<longleftrightarrow>
     dim_n t = 1 \<and> dim_h t \<noteq> 0 \<and> dim_w t \<noteq> 0 \<and> dim_c t \<noteq> 0 \<and>
     (layout t = LGNPU_LAYOUT_NHWC \<or> layout t = LGNPU_LAYOUT_NCHW) \<and> tensor_elems t < 2 ^ 32"
  by (auto simp: validate_Some simp flip: layout_less_2)

lemma byte_size_le: "buf < npu_tensor_byte_size t \<longleftrightarrow> unat buf < tensor_elems t"
  by (simp add: word_less_nat_alt unat_byte_size)

text \<open>The call on a valid descriptor with a large enough buffer, one equation per layout.\<close>

lemma convert_valid:
  assumes "npu_tensor_validate (Some t) = LGNPU_TENSOR_OK" and "tensor_elems t \<le> unat buf"
  shows "npu_tensor_convert_to_nhwc (Some dst) (Some src) (Some t) buf m =
    map_option (Pair LGNPU_TENSOR_OK)
      (if layout t = LGNPU_LAYOUT_NHWC then memmove dst src (tensor_elems t) m
       else convert_nchw_to_nhwc dst src (dim_n t) (dim_h t) (dim_w t) (dim_c t) m)"
  using assms
  by (auto simp: npu_tensor_convert_to_nhwc_def byte_size_le validate_OK_iff unat_byte_size Let_def)

section \<open>Correctness of the conversion\<close>

lemma convert_to_nhwc_correct:
  assumes "convert_pre t buf_bytes dst src m"
  shows "\<exists>m'. npu_tensor_convert_to_nhwc (Some dst) (Some src) (Some t) buf_bytes m =
      Some (LGNPU_TENSOR_OK, m') \<and>
    (\<forall>n h w c. n < unat (dim_n t) \<and> h < unat (dim_h t) \<and> w < unat (dim_w t) \<and> c < unat (dim_c t) \<longrightarrow>
       m' (dst + nhwc_index (unat (dim_h t)) (unat (dim_w t)) (unat (dim_c t)) n h w c) =
       m (src + layout_index t n h w c)) \<and>
    (\<forall>a. a < dst \<or> dst + tensor_elems t \<le> a \<longrightarrow> m' a = m a)"
proof (cases "layout t = LGNPU_LAYOUT_NHWC")
  case True
  with assms show ?thesis
    using nhwc_index_less
    by (auto simp: convert_pre_def convert_valid memmove_mapped layout_index_def tensor_elems_def)
next
  case False
  with assms convert_nchw_correct [of m src "dim_n t" "dim_h t" "dim_w t" "dim_c t" dst]
  show ?thesis by (auto simp: convert_pre_def convert_valid layout_index_def tensor_elems_def)
qed

text \<open>Both memory orders enumerate the byte range of the tensor exactly once.\<close>

lemma finite_positions: "finite {(n :: nat, h :: nat, w :: nat, c :: nat). n < N \<and> h < H \<and> w < W \<and> c < C}"
proof -
  have "{(n, h, w, c). n < N \<and> h < H \<and> w < W \<and> c < C} = {..<N} \<times> {..<H} \<times> {..<W} \<times> {..<C}" by auto
  then show ?thesis by simp
qed

lemma index_bijI:
  assumes "\<And>n h w c. n < N \<Longrightarrow> h < H \<Longrightarrow> w < W \<Longrightarrow> c < C \<Longrightarrow> f n h w c < E"
    and "\<And>n h w c n' h' w' c'. h < H \<Longrightarrow> w < W \<Longrightarrow> c < C \<Longrightarrow> h' < H \<Longrightarrow> w' < W \<Longrightarrow> c' < C \<Longrightarrow>
      f n h w c = f n' h' w' c' \<Longrightarrow> n = n' \<and> h = h' \<and> w = w' \<and> c = c'"
    and "\<And>i. i < E \<Longrightarrow> \<exists>n h w c. n < N \<and> h < H \<and> w < W \<and> c < C \<and> i = f n h w c"
  shows "bij_betw (\<lambda>(n :: nat, h :: nat, w :: nat, c :: nat). f n h w c)
     {(n, h, w, c). n < N \<and> h < H \<and> w < W \<and> c < C} {..<E :: nat}"
  unfolding bij_betw_def
proof (intro conjI set_eqI iffI)
  show "inj_on (\<lambda>(n, h, w, c). f n h w c) {(n, h, w, c). n < N \<and> h < H \<and> w < W \<and> c < C}"
    by (intro inj_onI) (clarsimp, blast dest: assms(2))
next
  fix i assume "i \<in> {..<E}"
  with assms(3) obtain n h w c where "n < N \<and> h < H \<and> w < W \<and> c < C" and "i = f n h w c" by blast
  then show "i \<in> (\<lambda>(n, h, w, c). f n h w c) ` {(n, h, w, c). n < N \<and> h < H \<and> w < W \<and> c < C}"
    by (intro image_eqI [where x = "(n, h, w, c)"]) auto
qed (use assms(1) in auto)

lemma nhwc_positions_bij:
  "bij_betw (\<lambda>(n, h, w, c). nhwc_index H W C n h w c)
     {(n, h, w, c). n < N \<and> h < H \<and> w < W \<and> c < C} {..<N * H * W * C}"
  by (rule index_bijI [OF nhwc_index_less nhwc_index_inj nhwc_index_surj])

lemma nchw_positions_bij:
  "bij_betw (\<lambda>(n, h, w, c). nchw_index H W C n h w c)
     {(n, h, w, c). n < N \<and> h < H \<and> w < W \<and> c < C} {..<N * H * W * C}"
  by (rule index_bijI [OF nchw_index_less nchw_index_inj nchw_index_surj])

lemma layout_positions_bij:
  "bij_betw (\<lambda>(n, h, w, c). layout_index t n h w c)
     {(n, h, w, c). n < N \<and> h < unat (dim_h t) \<and> w < unat (dim_w t) \<and> c < unat (dim_c t)}
     {..<N * unat (dim_h t) * unat (dim_w t) * unat (dim_c t)}"
proof (cases "layout t = LGNPU_LAYOUT_NHWC")
  case True
  show ?thesis unfolding layout_index_def if_P [OF True] by (rule nhwc_positions_bij)
next
  case False
  show ?thesis unfolding layout_index_def if_not_P [OF False] by (rule nchw_positions_bij)
qed

lemma mset_map_upt_positions:
  assumes "bij_betw f Q {..<E}"
  shows "mset (map g [a..<a + E]) = image_mset (\<lambda>q. g (a + f q)) (mset_set Q)"
proof -
  have "mset (map g [a..<a + E]) = image_mset (\<lambda>i. g (a + i)) (mset_set {..<E})"
  proof -
    have "map g [a..<a + E] = map (\<lambda>i. g (a + i)) [0..<E]"
      by (rule nth_equalityI) simp_all
    then show ?thesis by (simp add: atLeast0LessThan [symmetric] mset_map)
  qed
  also have "mset_set {..<E} = image_mset f (mset_set Q)"
    using assms by (simp add: bij_betw_def image_mset_mset_set)
  finally show ?thesis by (simp add: image_mset.compositionality o_def)
qed

lemma sample_convert_pre: "convert_pre (sample_tensor LGNPU_LAYOUT_NCHW) 4 4 0 sample_mem"
proof -
  have "tensor_elems (sample_tensor LGNPU_LAYOUT_NCHW) = 4"
    by (simp add: sample_tensor_def tensor_elems_def)
  moreover have "mapped sample_mem 0 4" "mapped sample_mem 4 4"
    by (simp_all add: mapped_iff sample_mem_def)
  ultimately show ?thesis
    by (simp add: convert_pre_def validate_OK_iff disjoint_bufs_def)
      (simp add: sample_tensor_def INT_MAX_def c_consts)
qed

section \<open>Properties\<close>

text \<open>\<open>npu_tensor_validate\<close> rejects, in this order, a NULL pointer, a zero
  dimension, a batch other than 1, a layout outside the enumeration, and a tensor whose
  element count does not fit 32 bits; it accepts everything else.  In particular the
  word-level overflow test with \<open>__builtin_mul_overflow\<close> is exact.\<close>

theorem tensor_validate_spec:
  "npu_tensor_validate None = LGNPU_TENSOR_ERR_NULL_PTR \<and>
   npu_tensor_validate (Some t) =
     (if unat (dim_n t) * unat (dim_h t) * unat (dim_w t) * unat (dim_c t) = 0
        then LGNPU_TENSOR_ERR_ZERO_DIM
      else if unat (dim_n t) \<noteq> 1 then LGNPU_TENSOR_ERR_BATCH_UNSUP
      else if 1 < unat (layout t) then LGNPU_TENSOR_ERR_LAYOUT_UNKNOWN
      else if 2 ^ 32 \<le> unat (dim_h t) * unat (dim_w t) * unat (dim_c t)
        then LGNPU_TENSOR_ERR_OVERFLOW
      else LGNPU_TENSOR_OK)"
proof -
  have "unat (dim_n t) = 1 \<longleftrightarrow> dim_n t = 1" by (metis unat_1 word_unat_eq_iff)
  then show ?thesis
    by (auto simp: validate_Some tensor_elems_def npu_tensor_validate_def [of None])
qed

text \<open>C36: Size arithmetic never wraps.  For every descriptor (the batch size and zero dimensions
  included) \<open>npu_tensor_element_count\<close> and \<open>npu_tensor_byte_size\<close>, and for every four indices,
  in range or not, \<open>npu_tensor_nhwc_offset\<close>, all computed in 64-bit words, are the exact
  products and sums on naturals.  An index whose four components are in range lands inside the
  tensor's bytes, and no other index with its row, column and channel in range lands on the
  same byte.\<close>

theorem tensor_offset_exact:
  "unat (npu_tensor_element_count t) =
      unat (dim_n t) * unat (dim_h t) * unat (dim_w t) * unat (dim_c t) \<and>
    unat (npu_tensor_byte_size t) =
      unat (dim_n t) * unat (dim_h t) * unat (dim_w t) * unat (dim_c t) \<and>
    unat (npu_tensor_nhwc_offset t n h w c) =
      unat (base_addr t) +
      (((unat n * unat (dim_h t) + unat h) * unat (dim_w t) + unat w) * unat (dim_c t) + unat c) \<and>
    (n < dim_n t \<and> h < dim_h t \<and> w < dim_w t \<and> c < dim_c t \<longrightarrow>
      unat (npu_tensor_nhwc_offset t n h w c) <
        unat (base_addr t) + unat (npu_tensor_byte_size t) \<and>
      (\<forall>n' h' w' c'. h' < dim_h t \<and> w' < dim_w t \<and> c' < dim_c t \<and>
         npu_tensor_nhwc_offset t n' h' w' c' = npu_tensor_nhwc_offset t n h w c \<longrightarrow>
         n' = n \<and> h' = h \<and> w' = w \<and> c' = c))"
proof -
  have "n' = n \<and> h' = h \<and> w' = w \<and> c' = c"
    if "h < dim_h t" "w < dim_w t" "c < dim_c t" "h' < dim_h t" "w' < dim_w t" "c' < dim_c t"
      and "npu_tensor_nhwc_offset t n' h' w' c' = npu_tensor_nhwc_offset t n h w c" for n' h' w' c'
    using nhwc_index_inj [of "unat h'" "unat (dim_h t)" "unat w'" "unat (dim_w t)" "unat c'"
        "unat (dim_c t)" "unat h" "unat w" "unat c" "unat n'" "unat n"] that
    by (simp add: word_less_nat_alt word_unat_eq_iff nhwc_offset_exact)
  then show ?thesis
    using nhwc_index_less [of "unat n" "unat (dim_n t)" "unat h" "unat (dim_h t)" "unat w"
        "unat (dim_w t)" "unat c" "unat (dim_c t)"] unat_byte_size [of t]
    by (auto simp: npu_tensor_byte_size_def tensor_elems_def nhwc_offset_exact nhwc_index_def
        word_less_nat_alt)
qed

theorem tensor_offset_exact_witness:
  "unat (npu_tensor_nhwc_offset (sample_tensor LGNPU_LAYOUT_NHWC) 0 0 1 1) = 3 \<and>
   3 < unat (base_addr (sample_tensor LGNPU_LAYOUT_NHWC)) +
     unat (npu_tensor_byte_size (sample_tensor LGNPU_LAYOUT_NHWC))"
  using tensor_offset_exact [of "sample_tensor LGNPU_LAYOUT_NHWC" 0 0 1 1]
  by (simp add: sample_tensor_def)

text \<open>C4: Layout conversion is correct.  For a valid descriptor, buffers at least as large
  as the tensor, disjoint source and destination, and a row that stays within \<open>int\<close>
  (\<open>(W - 1) * C\<close> at most \<open>INT_MAX\<close>), the call returns OK without any out-of-bounds access;
  afterwards element \<open>[n][h][w][c]\<close> of the destination, read in NHWC order, is element
  \<open>[n][h][w][c]\<close> of the source, read in the declared layout; no byte outside the
  destination tensor changes.\<close>

theorem tensor_convert_correct:
  assumes "convert_pre t buf_bytes dst src m"
  shows "\<exists>m'. npu_tensor_convert_to_nhwc (Some dst) (Some src) (Some t) buf_bytes m =
      Some (LGNPU_TENSOR_OK, m') \<and>
    (\<forall>n h w c. n < unat (dim_n t) \<and> h < unat (dim_h t) \<and> w < unat (dim_w t) \<and> c < unat (dim_c t) \<longrightarrow>
       m' (dst + nhwc_index (unat (dim_h t)) (unat (dim_w t)) (unat (dim_c t)) n h w c) =
       m (src + layout_index t n h w c)) \<and>
    (\<forall>a. a < dst \<or> dst + tensor_elems t \<le> a \<longrightarrow> m' a = m a)"
  using assms by (rule convert_to_nhwc_correct)

theorem tensor_convert_correct_witness:
  "\<exists>m'. npu_tensor_convert_to_nhwc (Some 4) (Some 0) (Some (sample_tensor LGNPU_LAYOUT_NCHW)) 4
      sample_mem = Some (LGNPU_TENSOR_OK, m') \<and> m' 5 = Some 2 \<and> m' 6 = Some 1"
proof -
  have "convert_pre (sample_tensor LGNPU_LAYOUT_NCHW) 4 4 0 sample_mem"
    by (rule sample_convert_pre)
  from tensor_convert_correct [OF this] obtain m' where
    ok: "npu_tensor_convert_to_nhwc (Some 4) (Some 0) (Some (sample_tensor LGNPU_LAYOUT_NCHW)) 4
        sample_mem = Some (LGNPU_TENSOR_OK, m')"
    and at: "\<And>w c. w < 2 \<Longrightarrow> c < 2 \<Longrightarrow> m' (4 + nhwc_index 1 2 2 0 0 w c) =
        sample_mem (nchw_index 1 2 2 0 0 w c)"
    by (auto simp: sample_tensor_def layout_index_def c_consts)
  from at [of 0 1] at [of 1 0] ok show ?thesis
    by (auto simp: nhwc_index_def nchw_index_def sample_mem_def)
qed

text \<open>Conversion only reorders.  The bytes of the destination tensor after the call are,
  as a multiset, the bytes of the source tensor before it: no element is lost, duplicated
  or altered.\<close>

theorem tensor_convert_permutes:
  assumes "convert_pre t buf_bytes dst src m"
    and "npu_tensor_convert_to_nhwc (Some dst) (Some src) (Some t) buf_bytes m = Some (e, m')"
  shows "mset (map m' [dst..<dst + tensor_elems t]) = mset (map m [src..<src + tensor_elems t])"
proof -
  let ?Q = "{(n, h, w, c). n < unat (dim_n t) \<and> h < unat (dim_h t) \<and> w < unat (dim_w t) \<and>
    c < unat (dim_c t)}"
  let ?d = "\<lambda>(n, h, w, c). nhwc_index (unat (dim_h t)) (unat (dim_w t)) (unat (dim_c t)) n h w c"
  let ?s = "\<lambda>(n, h, w, c). layout_index t n h w c"
  have "m' (dst + ?d q) = m (src + ?s q)" if "q \<in> ?Q" for q
    using convert_to_nhwc_correct [OF assms(1)] assms(2) that by auto
  then have "image_mset (\<lambda>q. m' (dst + ?d q)) (mset_set ?Q) =
      image_mset (\<lambda>q. m (src + ?s q)) (mset_set ?Q)"
    by (intro image_mset_cong) (auto simp: finite_positions)
  then show ?thesis
    unfolding tensor_elems_def
    by (subst mset_map_upt_positions [OF nhwc_positions_bij],
        subst mset_map_upt_positions [OF layout_positions_bij])
qed

theorem tensor_convert_permutes_witness:
  "\<exists>m'. mset (map m' [4..<8]) = mset (map sample_mem [0..<4])"
proof -
  obtain m' where
    "npu_tensor_convert_to_nhwc (Some 4) (Some 0) (Some (sample_tensor LGNPU_LAYOUT_NCHW)) 4
        sample_mem = Some (LGNPU_TENSOR_OK, m')"
    using convert_to_nhwc_correct [OF sample_convert_pre] by blast
  from tensor_convert_permutes [OF sample_convert_pre this] show ?thesis
    by (intro exI [of _ m']) (simp add: sample_tensor_def tensor_elems_def)
qed

text \<open>A descriptor already in NHWC is copied correctly even when the two buffers
  overlap (\<open>dst == src\<close> included), as the comment in the code promises for \<open>memmove\<close>:
  destination byte \<open>i\<close> is what source byte \<open>i\<close> was before the call.\<close>

theorem tensor_convert_nhwc_overlap:
  assumes "npu_tensor_validate (Some t) = LGNPU_TENSOR_OK" and "layout t = LGNPU_LAYOUT_NHWC"
    and "tensor_elems t \<le> unat buf_bytes"
    and "mapped m src (tensor_elems t)" and "mapped m dst (tensor_elems t)"
  shows "\<exists>m'. npu_tensor_convert_to_nhwc (Some dst) (Some src) (Some t) buf_bytes m =
      Some (LGNPU_TENSOR_OK, m') \<and>
    (\<forall>i < tensor_elems t. m' (dst + i) = m (src + i)) \<and>
    (\<forall>a. a < dst \<or> dst + tensor_elems t \<le> a \<longrightarrow> m' a = m a)"
  using assms by (auto simp: convert_valid memmove_mapped)

theorem tensor_convert_nhwc_overlap_witness:
  "\<exists>m'. npu_tensor_convert_to_nhwc (Some 1) (Some 0) (Some (sample_tensor LGNPU_LAYOUT_NHWC)) 4
      sample_mem = Some (LGNPU_TENSOR_OK, m') \<and> m' 4 = Some 3"
proof -
  let ?t = "sample_tensor LGNPU_LAYOUT_NHWC"
  have "npu_tensor_validate (Some ?t) = LGNPU_TENSOR_OK" and l: "layout ?t = LGNPU_LAYOUT_NHWC"
    and E: "tensor_elems ?t = 4" and "mapped sample_mem 0 4" "mapped sample_mem 1 4"
    by (simp_all add: validate_OK_iff)
      (simp_all add: sample_tensor_def tensor_elems_def c_consts mapped_iff sample_mem_def)
  then obtain m' where "npu_tensor_convert_to_nhwc (Some 1) (Some 0) (Some ?t) 4 sample_mem =
      Some (LGNPU_TENSOR_OK, m')" and at: "\<forall>i < 4. m' (1 + i) = sample_mem (0 + i)"
    using tensor_convert_nhwc_overlap [of ?t 4 sample_mem 0 1] by auto
  moreover from at have "m' 4 = Some 3" by (auto simp: sample_mem_def dest!: spec [of _ 3])
  ultimately show ?thesis by blast
qed

text \<open>C37: Errors of the conversion, each with its condition.  The code of a call is decided by the
  first of these checks that fails: both buffers and the descriptor are not NULL, no dimension
  is zero, the batch is 1, the layout is one of the two known ones, the element count is below
  \<open>2 ^ 32\<close>, the buffer has at least that many bytes.  Whenever one fails, the call returns exactly its code with
  memory untouched, and a call that returns when none fails returns OK; so the final
  \<open>return LGNPU_TENSOR_ERR_LAYOUT_UNKNOWN\<close> of the function is never reached.\<close>

theorem tensor_convert_errors:
  "let code = (if dst = None \<or> src = None then LGNPU_TENSOR_ERR_NULL_PTR
      else case d of None \<Rightarrow> LGNPU_TENSOR_ERR_NULL_PTR
      | Some t \<Rightarrow>
         if unat (dim_n t) * unat (dim_h t) * unat (dim_w t) * unat (dim_c t) = 0
           then LGNPU_TENSOR_ERR_ZERO_DIM
         else if unat (dim_n t) \<noteq> 1 then LGNPU_TENSOR_ERR_BATCH_UNSUP
         else if layout t \<noteq> LGNPU_LAYOUT_NHWC \<and> layout t \<noteq> LGNPU_LAYOUT_NCHW
           then LGNPU_TENSOR_ERR_LAYOUT_UNKNOWN
         else if 2 ^ 32 \<le> unat (dim_h t) * unat (dim_w t) * unat (dim_c t)
           then LGNPU_TENSOR_ERR_OVERFLOW
         else if unat buf_bytes < unat (dim_h t) * unat (dim_w t) * unat (dim_c t)
           then LGNPU_TENSOR_ERR_BUF_TOO_SMALL
         else LGNPU_TENSOR_OK)
   in (code \<noteq> LGNPU_TENSOR_OK \<longrightarrow> npu_tensor_convert_to_nhwc dst src d buf_bytes m = Some (code, m)) \<and>
      (\<forall>e m'. npu_tensor_convert_to_nhwc dst src d buf_bytes m = Some (e, m') \<longrightarrow> e = code)"
proof (cases "dst = None \<or> src = None")
  case True
  then show ?thesis by (auto simp: npu_tensor_convert_to_nhwc_def split: option.split)
next
  case False
  then obtain out inp where ptrs: "dst = Some out" "src = Some inp" by auto
  show ?thesis
  proof (cases d)
    case None
    then show ?thesis by (simp add: npu_tensor_convert_to_nhwc_def ptrs npu_tensor_validate_def)
  next
    case (Some t)
    have one: "unat (dim_n t) = Suc 0 \<longleftrightarrow> dim_n t = 1" by (metis One_nat_def unat_1 word_unat_eq_iff)
    have known: "2 \<le> unat (layout t) \<longleftrightarrow> layout t \<noteq> LGNPU_LAYOUT_NHWC \<and> layout t \<noteq> LGNPU_LAYOUT_NCHW"
      using layout_less_2 [of "layout t"] by blast
    have elems: "dim_n t = 1 \<Longrightarrow> unat (dim_h t) * unat (dim_w t) * unat (dim_c t) = tensor_elems t"
      by (simp add: tensor_elems_def)
    show ?thesis
      by (simp add: npu_tensor_convert_to_nhwc_def ptrs Some Let_def validate_Some known elems byte_size_le
          one unat_eq_0_iff)
  qed
qed

theorem tensor_convert_errors_witness:
  "npu_tensor_convert_to_nhwc (Some 4) (Some 0) (Some (sample_tensor 7)) 4 sample_mem =
     Some (LGNPU_TENSOR_ERR_LAYOUT_UNKNOWN, sample_mem) \<and>
   npu_tensor_convert_to_nhwc (Some 4) (Some 0) (Some (sample_tensor LGNPU_LAYOUT_NCHW)) 3 sample_mem =
     Some (LGNPU_TENSOR_ERR_BUF_TOO_SMALL, sample_mem)"
  using tensor_convert_errors [where dst = "Some 4" and src = "Some 0" and d = "Some (sample_tensor 7)"
      and buf_bytes = 4 and m = sample_mem]
    tensor_convert_errors [where dst = "Some 4" and src = "Some 0"
      and d = "Some (sample_tensor LGNPU_LAYOUT_NCHW)" and buf_bytes = 3 and m = sample_mem]
  by (simp add: sample_tensor_def c_consts)

text \<open>The bound on a row in the correctness theorem is needed.  A valid NCHW descriptor
  whose last column offset \<open>(W - 1) * C\<close> exceeds \<open>INT_MAX\<close> passes validation, yet the
  conversion evaluates \<open>w * C\<close> with \<open>int\<close> overflow, which is undefined behaviour, whatever
  memory and buffers are supplied.\<close>

theorem tensor_convert_int_overflow:
  assumes "npu_tensor_validate (Some t) = LGNPU_TENSOR_OK" and "layout t = LGNPU_LAYOUT_NCHW"
    and "tensor_elems t \<le> unat buf_bytes" and "INT_MAX < (unat (dim_w t) - 1) * unat (dim_c t)"
  shows "npu_tensor_convert_to_nhwc (Some dst) (Some src) (Some t) buf_bytes m = None"
proof -
  have "(0, 0, 0, unat (dim_w t) - 1) \<in> set (nchw_positions (unat (dim_n t)) (unat (dim_h t))
      (unat (dim_w t)) (unat (dim_c t)))"
    using assms(1) by (auto simp: validate_OK_iff set_nchw_positions unat_gt_0)
  then have "convert_nchw_to_nhwc dst src (dim_n t) (dim_h t) (dim_w t) (dim_c t) m = None"
    unfolding convert_positions by (rule foldM_None) (use assms(4) in simp)
  with assms show ?thesis by (simp add: convert_valid c_consts)
qed

theorem tensor_convert_int_overflow_witness:
  "npu_tensor_convert_to_nhwc (Some 0) (Some 4294836225)
     (Some \<lparr>base_addr = 0, dim_n = 1, dim_h = 1, dim_w = 65535, dim_c = 65535,
        layout = LGNPU_LAYOUT_NCHW, dtype = LGNPU_DTYPE_INT8\<rparr>) 4294836225 (\<lambda>_. Some 0) = None"
  by (rule tensor_convert_int_overflow)
    (simp_all add: validate_OK_iff tensor_elems_def INT_MAX_def c_consts)

end
