(* ===== verification/Npu_Regs.thy ===== *)
theory Npu_Regs
  imports Npu_Prelude
begin

text \<open>
  The register map: the macros of \<open>sw/uapi/lgnpu_regs.h\<close> as constants, and the four
  places that state the map (the generated header and its older copy \<open>npu_regs.h\<close>, the
  driver's \<open>lgnpu_drv.h\<close>, the hardware's \<open>npu_addrmap_pkg.sv\<close>) as tables from macro name to
  value.  The components below use the constants; the agreement of the tables is what
  entitles the driver and the hardware model to share them.
\<close>

section \<open>Constants (\<open>sw/uapi/lgnpu_regs.h\<close>)\<close>

definition LGNPU_REG_CTRL :: u32 where [c_consts]: "LGNPU_REG_CTRL = 0"

definition LGNPU_REG_STATUS :: u32 where [c_consts]: "LGNPU_REG_STATUS = 0x00004"

definition LGNPU_REG_DOORBELL :: u32 where [c_consts]: "LGNPU_REG_DOORBELL = 0x00008"

definition LGNPU_REG_IRQ_STATUS :: u32 where [c_consts]: "LGNPU_REG_IRQ_STATUS = 0x0000C"

definition LGNPU_REG_IRQ_ENABLE :: u32 where [c_consts]: "LGNPU_REG_IRQ_ENABLE = 0x00010"

definition LGNPU_REG_IRQ_CLEAR :: u32 where [c_consts]: "LGNPU_REG_IRQ_CLEAR = 0x00014"

definition LGNPU_REG_FEATURE_ID :: u32 where [c_consts]: "LGNPU_REG_FEATURE_ID = 0x00018"

definition LGNPU_REG_PERF_CYCLES :: u32 where [c_consts]: "LGNPU_REG_PERF_CYCLES = 0x00020"

definition LGNPU_REG_PERF_ACTIVE :: u32 where [c_consts]: "LGNPU_REG_PERF_ACTIVE = 0x00024"

definition LGNPU_REG_PERF_STALL :: u32 where [c_consts]: "LGNPU_REG_PERF_STALL = 0x00028"

definition LGNPU_REG_DMA_EXT_ADDR :: u32 where [c_consts]: "LGNPU_REG_DMA_EXT_ADDR = 0x00030"

definition LGNPU_REG_DMA_LOC_ADDR :: u32 where [c_consts]: "LGNPU_REG_DMA_LOC_ADDR = 0x00034"

definition LGNPU_REG_DMA_LEN :: u32 where [c_consts]: "LGNPU_REG_DMA_LEN = 0x00038"

definition LGNPU_REG_DMA_CTRL :: u32 where [c_consts]: "LGNPU_REG_DMA_CTRL = 0x0003C"

definition LGNPU_REG_DMA_STATUS :: u32 where [c_consts]: "LGNPU_REG_DMA_STATUS = 0x00040"

definition LGNPU_CMD_QUEUE_BASE :: u32 where [c_consts]: "LGNPU_CMD_QUEUE_BASE = 0x01000"

definition LGNPU_WEIGHT_BUF_BASE :: u32 where [c_consts]: "LGNPU_WEIGHT_BUF_BASE = 0x10000"

definition LGNPU_ACT_BUF_BASE :: u32 where [c_consts]: "LGNPU_ACT_BUF_BASE = 0x20000"

definition LGNPU_PSUM_BUF_BASE :: u32 where [c_consts]: "LGNPU_PSUM_BUF_BASE = 0x30000"

definition LGNPU_CMD_ENTRY_BYTES :: u32 where [c_consts]: "LGNPU_CMD_ENTRY_BYTES = 0x00040"

definition LGNPU_CTRL_SOFT_RESET :: u32 where [c_consts]: "LGNPU_CTRL_SOFT_RESET = 0x00001"

definition LGNPU_CTRL_ENABLE :: u32 where [c_consts]: "LGNPU_CTRL_ENABLE = 0x00002"

definition LGNPU_STATUS_IDLE :: u32 where [c_consts]: "LGNPU_STATUS_IDLE = 0x00001"

definition LGNPU_STATUS_BUSY :: u32 where [c_consts]: "LGNPU_STATUS_BUSY = 0x00002"

definition LGNPU_STATUS_QUEUE_FULL :: u32 where [c_consts]: "LGNPU_STATUS_QUEUE_FULL = 0x00004"

definition LGNPU_DMA_CTRL_START :: u32 where [c_consts]: "LGNPU_DMA_CTRL_START = 0x00001"

definition LGNPU_DMA_CTRL_DIR :: u32 where [c_consts]: "LGNPU_DMA_CTRL_DIR = 0x00002"

definition LGNPU_DMA_STATUS_BUSY :: u32 where [c_consts]: "LGNPU_DMA_STATUS_BUSY = 0x00001"

text \<open>Constants only the driver has (\<open>sw/driver/lgnpu_drv.h\<close>).\<close>

definition LGNPU_MMIO_SIZE :: u32 where [c_consts]: "LGNPU_MMIO_SIZE = 262144"

definition LGNPU_STATUS_PENDING :: u32 where [c_consts]: "LGNPU_STATUS_PENDING = 1"

definition LGNPU_DMA_TO_DEVICE :: u32 where [c_consts]: "LGNPU_DMA_TO_DEVICE = 0"

definition LGNPU_DMA_FROM_DEVICE :: u32 where [c_consts]: "LGNPU_DMA_FROM_DEVICE = 1"

definition LGNPU_DMA_POLL_ITERS :: u32 where [c_consts]: "LGNPU_DMA_POLL_ITERS = 10000"

definition LGNPU_DMA_POLL_US :: u32 where [c_consts]: "LGNPU_DMA_POLL_US = 1"

definition LGNPU_CMD_TIMEOUT_MS :: u32 where [c_consts]: "LGNPU_CMD_TIMEOUT_MS = 5000"

section \<open>The map as each file states it\<close>

text \<open>Macro names, without the \<open>LGNPU_\<close> prefix that only the C headers carry.\<close>

datatype macro =
    REG_CTRL
  | REG_STATUS
  | REG_DOORBELL
  | REG_IRQ_STATUS
  | REG_IRQ_ENABLE
  | REG_IRQ_CLEAR
  | REG_FEATURE_ID
  | REG_PERF_CYCLES
  | REG_PERF_ACTIVE
  | REG_PERF_STALL
  | REG_DMA_EXT_ADDR
  | REG_DMA_LOC_ADDR
  | REG_DMA_LEN
  | REG_DMA_CTRL
  | REG_DMA_STATUS
  | CMD_QUEUE_BASE
  | WEIGHT_BUF_BASE
  | ACT_BUF_BASE
  | PSUM_BUF_BASE
  | MMIO_SIZE
  | CMD_ENTRY_BYTES
  | CTRL_SOFT_RESET
  | CTRL_ENABLE
  | STATUS_IDLE
  | STATUS_BUSY
  | STATUS_QUEUE_FULL
  | STATUS_PENDING
  | DMA_CTRL_START
  | DMA_CTRL_DIR
  | DMA_STATUS_BUSY
  | DMA_TO_DEVICE
  | DMA_FROM_DEVICE
  | DMA_POLL_ITERS
  | DMA_POLL_US
  | CMD_TIMEOUT_MS

definition uapi_regs :: "(macro \<times> nat) list" where
  "uapi_regs =
    [(REG_CTRL, 0),
     (REG_STATUS, 4),
     (REG_DOORBELL, 8),
     (REG_IRQ_STATUS, 0xC),
     (REG_IRQ_ENABLE, 0x10),
     (REG_IRQ_CLEAR, 0x14),
     (REG_FEATURE_ID, 0x18),
     (REG_PERF_CYCLES, 0x20),
     (REG_PERF_ACTIVE, 0x24),
     (REG_PERF_STALL, 0x28),
     (REG_DMA_EXT_ADDR, 0x30),
     (REG_DMA_LOC_ADDR, 0x34),
     (REG_DMA_LEN, 0x38),
     (REG_DMA_CTRL, 0x3C),
     (REG_DMA_STATUS, 0x40),
     (CMD_QUEUE_BASE, 0x1000),
     (WEIGHT_BUF_BASE, 0x10000),
     (ACT_BUF_BASE, 0x20000),
     (PSUM_BUF_BASE, 0x30000),
     (CMD_ENTRY_BYTES, 0x40),
     (CTRL_SOFT_RESET, 1),
     (CTRL_ENABLE, 2),
     (STATUS_IDLE, 1),
     (STATUS_BUSY, 2),
     (STATUS_QUEUE_FULL, 4),
     (DMA_CTRL_START, 1),
     (DMA_CTRL_DIR, 2),
     (DMA_STATUS_BUSY, 1)]"

definition uapi_regs_old :: "(macro \<times> nat) list" where
  "uapi_regs_old =
    [(REG_CTRL, 0),
     (REG_STATUS, 4),
     (REG_DOORBELL, 8),
     (REG_IRQ_STATUS, 0xC),
     (REG_IRQ_ENABLE, 0x10),
     (REG_IRQ_CLEAR, 0x14),
     (REG_FEATURE_ID, 0x18),
     (REG_PERF_CYCLES, 0x20),
     (REG_PERF_ACTIVE, 0x24),
     (REG_PERF_STALL, 0x28),
     (REG_DMA_EXT_ADDR, 0x30),
     (REG_DMA_LOC_ADDR, 0x34),
     (REG_DMA_LEN, 0x38),
     (REG_DMA_CTRL, 0x3C),
     (REG_DMA_STATUS, 0x40),
     (CMD_QUEUE_BASE, 0x1000),
     (WEIGHT_BUF_BASE, 0x10000),
     (ACT_BUF_BASE, 0x20000),
     (PSUM_BUF_BASE, 0x30000),
     (CMD_ENTRY_BYTES, 0x40),
     (CTRL_SOFT_RESET, 1),
     (CTRL_ENABLE, 2),
     (STATUS_IDLE, 1),
     (STATUS_BUSY, 2),
     (STATUS_QUEUE_FULL, 4),
     (DMA_CTRL_START, 1),
     (DMA_CTRL_DIR, 2),
     (DMA_STATUS_BUSY, 1)]"

definition drv_regs :: "(macro \<times> nat) list" where
  "drv_regs =
    [(REG_CTRL, 0),
     (REG_STATUS, 4),
     (REG_DOORBELL, 8),
     (REG_IRQ_STATUS, 0xC),
     (REG_IRQ_ENABLE, 0x10),
     (REG_IRQ_CLEAR, 0x14),
     (REG_FEATURE_ID, 0x18),
     (REG_PERF_CYCLES, 0x20),
     (REG_PERF_ACTIVE, 0x24),
     (REG_PERF_STALL, 0x28),
     (REG_DMA_EXT_ADDR, 0x30),
     (REG_DMA_LOC_ADDR, 0x34),
     (REG_DMA_LEN, 0x38),
     (REG_DMA_CTRL, 0x3C),
     (REG_DMA_STATUS, 0x40),
     (CMD_QUEUE_BASE, 0x1000),
     (WEIGHT_BUF_BASE, 0x10000),
     (ACT_BUF_BASE, 0x20000),
     (PSUM_BUF_BASE, 0x30000),
     (MMIO_SIZE, 0x40000),
     (CMD_ENTRY_BYTES, 0x40),
     (CTRL_SOFT_RESET, 1),
     (CTRL_ENABLE, 2),
     (STATUS_IDLE, 1),
     (STATUS_BUSY, 2),
     (STATUS_QUEUE_FULL, 4),
     (STATUS_PENDING, 1),
     (DMA_CTRL_START, 1),
     (DMA_CTRL_DIR, 2),
     (DMA_STATUS_BUSY, 1),
     (DMA_TO_DEVICE, 0),
     (DMA_FROM_DEVICE, 1),
     (DMA_POLL_ITERS, 0x2710),
     (DMA_POLL_US, 1),
     (CMD_TIMEOUT_MS, 0x1388)]"

definition addrmap_pkg :: "(macro \<times> nat) list" where
  "addrmap_pkg =
    [(REG_CTRL, 0),
     (REG_STATUS, 4),
     (REG_DOORBELL, 8),
     (REG_IRQ_STATUS, 0xC),
     (REG_IRQ_ENABLE, 0x10),
     (REG_IRQ_CLEAR, 0x14),
     (REG_FEATURE_ID, 0x18),
     (REG_PERF_CYCLES, 0x20),
     (REG_PERF_ACTIVE, 0x24),
     (REG_PERF_STALL, 0x28),
     (REG_DMA_EXT_ADDR, 0x30),
     (REG_DMA_LOC_ADDR, 0x34),
     (REG_DMA_LEN, 0x38),
     (REG_DMA_CTRL, 0x3C),
     (REG_DMA_STATUS, 0x40),
     (CMD_QUEUE_BASE, 0x1000),
     (CMD_ENTRY_BYTES, 0x40),
     (WEIGHT_BUF_BASE, 0x10000),
     (ACT_BUF_BASE, 0x20000),
     (PSUM_BUF_BASE, 0x30000)]"

text \<open>The constants of the integration bench (\<open>tb/integration/npu_tb.h\<close>), which gives bits by
  position.\<close>

definition bench_regs :: "(macro \<times> nat) list" where
  "bench_regs =
    [(REG_CTRL, 0),
     (REG_STATUS, 4),
     (REG_DOORBELL, 8),
     (REG_IRQ_STATUS, 0xC),
     (REG_IRQ_ENABLE, 0x10),
     (REG_IRQ_CLEAR, 0x14),
     (REG_FEATURE_ID, 0x18),
     (REG_PERF_CYCLES, 0x20),
     (REG_PERF_ACTIVE, 0x24),
     (REG_PERF_STALL, 0x28),
     (REG_DMA_EXT_ADDR, 0x30),
     (REG_DMA_LOC_ADDR, 0x34),
     (REG_DMA_LEN, 0x38),
     (REG_DMA_CTRL, 0x3C),
     (REG_DMA_STATUS, 0x40),
     (CMD_QUEUE_BASE, 0x1000),
     (WEIGHT_BUF_BASE, 0x10000),
     (ACT_BUF_BASE, 0x20000),
     (PSUM_BUF_BASE, 0x30000),
     (CTRL_SOFT_RESET, 2 ^ 0),
     (CTRL_ENABLE, 2 ^ 1),
     (STATUS_IDLE, 2 ^ 0),
     (STATUS_BUSY, 2 ^ 1),
     (STATUS_QUEUE_FULL, 2 ^ 2),
     (DMA_CTRL_START, 2 ^ 0),
     (DMA_CTRL_DIR, 2 ^ 1)]"

text \<open>Two tables agree where both define a name.\<close>

definition tables_agree :: "(macro \<times> nat) list \<Rightarrow> (macro \<times> nat) list \<Rightarrow> bool" where
  "tables_agree t u = list_all (\<lambda>(k, v). case map_of u k of None \<Rightarrow> True | Some v' \<Rightarrow> v' = v) t"

section \<open>Properties\<close>

text \<open>The five statements of the register map agree.  The older generated header is the
  current one, line for line; every register offset, window base and bit mask the driver
  redefines has the value the runtime uses; and every hardware offset and every constant of
  the integration bench is in the runtime's header with the same value.  No two registers share an
  offset.\<close>

theorem register_maps_agree:
  "uapi_regs_old = uapi_regs \<and> tables_agree drv_regs uapi_regs \<and>
   list_all (\<lambda>(k, v). map_of uapi_regs k = Some v) addrmap_pkg \<and>
   list_all (\<lambda>(k, v). map_of uapi_regs k = Some v) bench_regs \<and>
   distinct (map snd (take 15 uapi_regs))"
proof -
  have "uapi_regs_old = uapi_regs" by (simp add: uapi_regs_old_def uapi_regs_def)
  moreover have "tables_agree drv_regs uapi_regs" 
    by (simp add: tables_agree_def drv_regs_def uapi_regs_def)
  moreover have "list_all (\<lambda>(k, v). map_of uapi_regs k = Some v) addrmap_pkg"
    by (simp add: addrmap_pkg_def uapi_regs_def)
  moreover have "list_all (\<lambda>(k, v). map_of uapi_regs k = Some v) bench_regs"
    by (simp add: bench_regs_def uapi_regs_def)
  moreover have "distinct (map snd (take 15 uapi_regs))" by (simp add: uapi_regs_def)
  ultimately show ?thesis by blast
qed

end
