(* ===== verification/Npu_Cmd.thy ===== *)
theory Npu_Cmd
  imports Npu_Regs
begin

text \<open>
  Command descriptors and their builders: \<open>sw/uapi/lgnpu_cmd.h\<close> and
  \<open>sw/runtime/command_builder.c\<close>.  A parameter struct is a record with the C widths (the
  field names carry the opcode as prefix); a pointer argument is an option, with
  \<^term>\<open>None\<close> for NULL; a builder returns its \<open>int\<close> result and the descriptor afterwards.
\<close>

section \<open>Opcodes, selectors, structs (\<open>lgnpu_cmd.h\<close>)\<close>

text \<open>\<open>LGNPU_CMD_ENTRY_BYTES / sizeof(uint32_t)\<close>.\<close>

definition LGNPU_CMD_WORDS :: nat where
  "LGNPU_CMD_WORDS = unat LGNPU_CMD_ENTRY_BYTES div 4"

datatype npu_opcode =
    LGNPU_OP_CONV | LGNPU_OP_GEMM | LGNPU_OP_SOFTMAX | LGNPU_OP_VEC | LGNPU_OP_LNORM | LGNPU_OP_POOL

fun opcode_value :: "npu_opcode \<Rightarrow> u32" where
  "opcode_value LGNPU_OP_CONV = 0x1"
| "opcode_value LGNPU_OP_GEMM = 0x2"
| "opcode_value LGNPU_OP_SOFTMAX = 0x3"
| "opcode_value LGNPU_OP_VEC = 0x4"
| "opcode_value LGNPU_OP_LNORM = 0x5"
| "opcode_value LGNPU_OP_POOL = 0x6"

definition LGNPU_ACT_NONE :: u8 where [c_consts]: "LGNPU_ACT_NONE = 0"

definition LGNPU_ACT_RELU :: u8 where [c_consts]: "LGNPU_ACT_RELU = 1"

definition LGNPU_ACT_LEAKY_RELU :: u8 where [c_consts]: "LGNPU_ACT_LEAKY_RELU = 2"

definition LGNPU_VEC_ADD :: u8 where [c_consts]: "LGNPU_VEC_ADD = 0"

definition LGNPU_VEC_MUL :: u8 where [c_consts]: "LGNPU_VEC_MUL = 1"

definition LGNPU_POOL_MAX :: u8 where [c_consts]: "LGNPU_POOL_MAX = 0"

definition LGNPU_POOL_AVG :: u8 where [c_consts]: "LGNPU_POOL_AVG = 1"

record npu_cmd_desc =
  words :: "u32 list"

record npu_conv_params =
  conv_act_in_addr :: u16
  conv_act_out_addr :: u16
  conv_weight_addr :: u16
  conv_bias_addr :: u16
  conv_in_h :: u16
  conv_in_w :: u16
  conv_in_c :: u16
  conv_out_k :: u16
  conv_filt_r :: u16
  conv_filt_s :: u16
  conv_stride_h :: u16
  conv_stride_w :: u16
  conv_pad_h :: u16
  conv_pad_w :: u16
  conv_out_h :: u16
  conv_out_w :: u16
  conv_quant_shift :: u8
  conv_act_mode :: u8

record npu_gemm_params =
  gemm_a_addr :: u16
  gemm_c_addr :: u16
  gemm_b_addr :: u16
  gemm_bias_addr :: u16
  gemm_M :: u16
  gemm_N :: u16
  gemm_K :: u16
  gemm_quant_shift :: u8
  gemm_act_mode :: u8

record npu_softmax_params =
  softmax_in_addr :: u16
  softmax_out_addr :: u16
  softmax_num_rows :: u16
  softmax_row_len :: u16

record npu_vec_params =
  vec_a_addr :: u16
  vec_out_addr :: u16
  vec_b_addr :: u16
  vec_length :: u16
  vec_vec_op :: u8
  vec_quant_shift :: u8
  vec_act_mode :: u8

record npu_lnorm_params =
  lnorm_in_addr :: u16
  lnorm_out_addr :: u16
  lnorm_num_rows :: u16
  lnorm_row_len :: u16
  lnorm_norm_shift :: u8

record npu_pool_params =
  pool_in_addr :: u16
  pool_out_addr :: u16
  pool_in_h :: u16
  pool_in_w :: u16
  pool_in_c :: u16
  pool_pool_r :: u16
  pool_pool_s :: u16
  pool_stride_h :: u16
  pool_stride_w :: u16
  pool_pad_h :: u16
  pool_pad_w :: u16
  pool_out_h :: u16
  pool_out_w :: u16
  pool_pool_mode :: u8

section \<open>Builders (\<open>command_builder.c\<close>)\<close>

text \<open>\<open>desc->words[i] = v\<close>.\<close>

definition set_word :: "nat \<Rightarrow> u32 \<Rightarrow> npu_cmd_desc \<Rightarrow> npu_cmd_desc" where
  "set_word i v d = d\<lparr>words := (words d)[i := v]\<rparr>"

definition cmd_clear :: "npu_cmd_desc \<Rightarrow> npu_cmd_desc" where
  "cmd_clear d = d\<lparr>words := replicate LGNPU_CMD_WORDS 0\<rparr>"

definition derive_out_dim :: "u16 \<Rightarrow> u16 \<Rightarrow> u16 \<Rightarrow> u16 \<Rightarrow> u16 \<Rightarrow> u16" where
  "derive_out_dim in_dim pad filt stride provided =
     (if provided \<noteq> 0 then provided
      else if stride = 0 then 0
      else ucast (((ucast in_dim :: u32) + 2 * ucast pad - ucast filt) div ucast stride + 1))"

definition npu_cmd_build_conv ::
  "npu_cmd_desc option \<Rightarrow> npu_conv_params option \<Rightarrow> int \<times> npu_cmd_desc option" where
  "npu_cmd_build_conv desc params = (case (desc, params) of
     (Some d, Some p) \<Rightarrow>
       (let d = cmd_clear d;
            out_h = derive_out_dim (conv_in_h p) (conv_pad_h p) (conv_filt_r p) (conv_stride_h p)
                      (conv_out_h p);
            out_w = derive_out_dim (conv_in_w p) (conv_pad_w p) (conv_filt_s p) (conv_stride_w p)
                      (conv_out_w p);
            d = set_word 0 (opcode_value LGNPU_OP_CONV) d;
            d = set_word 1 (ucast (conv_act_in_addr p)) d;
            d = set_word 2 (ucast (conv_act_out_addr p)) d;
            d = set_word 3 (ucast (conv_weight_addr p)) d;
            d = set_word 4 (ucast (conv_bias_addr p)) d;
            d = set_word 5 (ucast (conv_in_h p)) d;
            d = set_word 6 (ucast (conv_in_w p)) d;
            d = set_word 7 (ucast (conv_in_c p)) d;
            d = set_word 8 (ucast (conv_out_k p)) d;
            d = set_word 9 (ucast (conv_filt_r p)) d;
            d = set_word 10 (ucast (conv_filt_s p)) d;
            d = set_word 11 (ucast (conv_stride_h p)) d;
            d = set_word 12 (ucast (conv_stride_w p)) d;
            d = set_word 13 (ucast (conv_pad_h p) OR push_bit 16 (ucast out_h)) d;
            d = set_word 14 (ucast (conv_pad_w p) OR push_bit 16 (ucast out_w)) d;
            d = set_word 15 ((ucast (conv_quant_shift p) AND 0x1F)
                   OR push_bit 5 (ucast (conv_act_mode p) AND 0x3)) d
        in (0, Some d))
   | _ \<Rightarrow> (-1, desc))"

definition npu_cmd_build_gemm ::
  "npu_cmd_desc option \<Rightarrow> npu_gemm_params option \<Rightarrow> int \<times> npu_cmd_desc option" where
  "npu_cmd_build_gemm desc params = (case (desc, params) of
     (Some d, Some p) \<Rightarrow>
       (let d = cmd_clear d;
            d = set_word 0 (opcode_value LGNPU_OP_GEMM) d;
            d = set_word 1 (ucast (gemm_a_addr p)) d;
            d = set_word 2 (ucast (gemm_c_addr p)) d;
            d = set_word 3 (ucast (gemm_b_addr p)) d;
            d = set_word 4 (ucast (gemm_bias_addr p)) d;
            d = set_word 5 (ucast (gemm_M p)) d;
            d = set_word 6 (ucast (gemm_N p)) d;
            d = set_word 7 (ucast (gemm_K p)) d;
            d = set_word 15 ((ucast (gemm_quant_shift p) AND 0x1F)
                   OR push_bit 5 (ucast (gemm_act_mode p) AND 0x3)) d
        in (0, Some d))
   | _ \<Rightarrow> (-1, desc))"

definition npu_cmd_build_softmax ::
  "npu_cmd_desc option \<Rightarrow> npu_softmax_params option \<Rightarrow> int \<times> npu_cmd_desc option" where
  "npu_cmd_build_softmax desc params = (case (desc, params) of
     (Some d, Some p) \<Rightarrow>
       (let d = cmd_clear d;
            d = set_word 0 (opcode_value LGNPU_OP_SOFTMAX) d;
            d = set_word 1 (ucast (softmax_in_addr p)) d;
            d = set_word 2 (ucast (softmax_out_addr p)) d;
            d = set_word 5 (ucast (softmax_num_rows p)) d;
            d = set_word 6 (ucast (softmax_row_len p)) d
        in (0, Some d))
   | _ \<Rightarrow> (-1, desc))"

definition npu_cmd_build_vec ::
  "npu_cmd_desc option \<Rightarrow> npu_vec_params option \<Rightarrow> int \<times> npu_cmd_desc option" where
  "npu_cmd_build_vec desc params = (case (desc, params) of
     (Some d, Some p) \<Rightarrow>
       (let d = cmd_clear d;
            d = set_word 0 (opcode_value LGNPU_OP_VEC) d;
            d = set_word 1 (ucast (vec_a_addr p)) d;
            d = set_word 2 (ucast (vec_out_addr p)) d;
            d = set_word 3 (ucast (vec_b_addr p)) d;
            d = set_word 5 (ucast (vec_length p)) d;
            d = set_word 6 (ucast (vec_vec_op p)) d;
            d = set_word 15 ((ucast (vec_quant_shift p) AND 0x1F)
                   OR push_bit 5 (ucast (vec_act_mode p) AND 0x3)) d
        in (0, Some d))
   | _ \<Rightarrow> (-1, desc))"

definition npu_cmd_build_lnorm ::
  "npu_cmd_desc option \<Rightarrow> npu_lnorm_params option \<Rightarrow> int \<times> npu_cmd_desc option" where
  "npu_cmd_build_lnorm desc params = (case (desc, params) of
     (Some d, Some p) \<Rightarrow>
       (let d = cmd_clear d;
            d = set_word 0 (opcode_value LGNPU_OP_LNORM) d;
            d = set_word 1 (ucast (lnorm_in_addr p)) d;
            d = set_word 2 (ucast (lnorm_out_addr p)) d;
            d = set_word 5 (ucast (lnorm_num_rows p)) d;
            d = set_word 6 (ucast (lnorm_row_len p)) d;
            d = set_word 15 (ucast (lnorm_norm_shift p) AND 0x1F) d
        in (0, Some d))
   | _ \<Rightarrow> (-1, desc))"

definition npu_cmd_build_pool ::
  "npu_cmd_desc option \<Rightarrow> npu_pool_params option \<Rightarrow> int \<times> npu_cmd_desc option" where
  "npu_cmd_build_pool desc params = (case (desc, params) of
     (Some d, Some p) \<Rightarrow>
       (let d = cmd_clear d;
            out_h = derive_out_dim (pool_in_h p) (pool_pad_h p) (pool_pool_r p) (pool_stride_h p)
                      (pool_out_h p);
            out_w = derive_out_dim (pool_in_w p) (pool_pad_w p) (pool_pool_s p) (pool_stride_w p)
                      (pool_out_w p);
            d = set_word 0 (opcode_value LGNPU_OP_POOL) d;
            d = set_word 1 (ucast (pool_in_addr p)) d;
            d = set_word 2 (ucast (pool_out_addr p)) d;
            d = set_word 5 (ucast (pool_in_h p)) d;
            d = set_word 6 (ucast (pool_in_w p)) d;
            d = set_word 7 (ucast (pool_in_c p)) d;
            d = set_word 9 (ucast (pool_pool_r p)) d;
            d = set_word 10 (ucast (pool_pool_s p)) d;
            d = set_word 11 (ucast (pool_stride_h p)) d;
            d = set_word 12 (ucast (pool_stride_w p)) d;
            d = set_word 13 (ucast (pool_pad_h p) OR push_bit 16 (ucast out_h)) d;
            d = set_word 14 (ucast (pool_pad_w p) OR push_bit 16 (ucast out_w)) d;
            d = set_word 15 (ucast (pool_pool_mode p) AND 0x1) d
        in (0, Some d))
   | _ \<Rightarrow> (-1, desc))"

section \<open>What the builders write\<close>

text \<open>Assigning words one by one to the cleared descriptor; used to compute the descriptor
  each builder leaves.\<close>

lemma words_set_word [simp]: "words (set_word i v d) = (words d)[i := v]"
  by (simp add: set_word_def)

lemma cmd_words_16 [simp]: "LGNPU_CMD_WORDS = 16"
  by (simp add: LGNPU_CMD_WORDS_def c_consts)

lemma replicate_16: "replicate 16 x = [x, x, x, x, x, x, x, x, x, x, x, x, x, x, x, x]"
  by (simp add: numeral_eq_Suc)

lemma words_cmd_clear [simp]:
  "words (cmd_clear d) = [0, 0, 0, 0, 0, 0, 0, 0, 0, 0, 0, 0, 0, 0, 0, 0]"
  by (simp add: cmd_clear_def replicate_16)

lemma list_update_numeral: "(x # xs)[numeral k := v] = x # xs[pred_numeral k := v]"
  by (simp add: numeral_eq_Suc)

lemmas build_simps = Let_def list_update_numeral pred_numeral_simps

text \<open>The descriptor each builder leaves, word by word; a word left out by the builder is 0.\<close>

lemma build_conv_words:
  assumes "npu_cmd_build_conv (Some d) (Some p) = (r, Some d')"
  shows "r = 0 \<and> words d' =
    [1, ucast (conv_act_in_addr p), ucast (conv_act_out_addr p), ucast (conv_weight_addr p),
     ucast (conv_bias_addr p), ucast (conv_in_h p), ucast (conv_in_w p), ucast (conv_in_c p),
     ucast (conv_out_k p), ucast (conv_filt_r p), ucast (conv_filt_s p), ucast (conv_stride_h p),
     ucast (conv_stride_w p),
     ucast (conv_pad_h p) OR push_bit 16 (ucast (derive_out_dim (conv_in_h p) (conv_pad_h p)
       (conv_filt_r p) (conv_stride_h p) (conv_out_h p))),
     ucast (conv_pad_w p) OR push_bit 16 (ucast (derive_out_dim (conv_in_w p) (conv_pad_w p)
       (conv_filt_s p) (conv_stride_w p) (conv_out_w p))),
     (ucast (conv_quant_shift p) AND 31) OR push_bit 5 (ucast (conv_act_mode p) AND 3)]"
  using assms by (auto simp: npu_cmd_build_conv_def build_simps)

lemma build_gemm_words:
  assumes "npu_cmd_build_gemm (Some d) (Some p) = (r, Some d')"
  shows "r = 0 \<and> words d' =
    [2, ucast (gemm_a_addr p), ucast (gemm_c_addr p), ucast (gemm_b_addr p),
     ucast (gemm_bias_addr p), ucast (gemm_M p), ucast (gemm_N p), ucast (gemm_K p),
     0, 0, 0, 0, 0, 0, 0,
     (ucast (gemm_quant_shift p) AND 31) OR push_bit 5 (ucast (gemm_act_mode p) AND 3)]"
  using assms by (auto simp: npu_cmd_build_gemm_def build_simps)

lemma build_softmax_words:
  assumes "npu_cmd_build_softmax (Some d) (Some p) = (r, Some d')"
  shows "r = 0 \<and> words d' =
    [3, ucast (softmax_in_addr p), ucast (softmax_out_addr p), 0, 0,
     ucast (softmax_num_rows p), ucast (softmax_row_len p), 0, 0, 0, 0, 0, 0, 0, 0, 0]"
  using assms by (auto simp: npu_cmd_build_softmax_def build_simps)

lemma build_vec_words:
  assumes "npu_cmd_build_vec (Some d) (Some p) = (r, Some d')"
  shows "r = 0 \<and> words d' =
    [4, ucast (vec_a_addr p), ucast (vec_out_addr p), ucast (vec_b_addr p), 0,
     ucast (vec_length p), ucast (vec_vec_op p), 0, 0, 0, 0, 0, 0, 0, 0,
     (ucast (vec_quant_shift p) AND 31) OR push_bit 5 (ucast (vec_act_mode p) AND 3)]"
  using assms by (auto simp: npu_cmd_build_vec_def build_simps)

lemma build_lnorm_words:
  assumes "npu_cmd_build_lnorm (Some d) (Some p) = (r, Some d')"
  shows "r = 0 \<and> words d' =
    [5, ucast (lnorm_in_addr p), ucast (lnorm_out_addr p), 0, 0,
     ucast (lnorm_num_rows p), ucast (lnorm_row_len p), 0, 0, 0, 0, 0, 0, 0, 0,
     ucast (lnorm_norm_shift p) AND 31]"
  using assms by (auto simp: npu_cmd_build_lnorm_def build_simps)

lemma build_pool_words:
  assumes "npu_cmd_build_pool (Some d) (Some p) = (r, Some d')"
  shows "r = 0 \<and> words d' =
    [6, ucast (pool_in_addr p), ucast (pool_out_addr p), 0, 0,
     ucast (pool_in_h p), ucast (pool_in_w p), ucast (pool_in_c p), 0,
     ucast (pool_pool_r p), ucast (pool_pool_s p), ucast (pool_stride_h p), ucast (pool_stride_w p),
     ucast (pool_pad_h p) OR push_bit 16 (ucast (derive_out_dim (pool_in_h p) (pool_pad_h p)
       (pool_pool_r p) (pool_stride_h p) (pool_out_h p))),
     ucast (pool_pad_w p) OR push_bit 16 (ucast (derive_out_dim (pool_in_w p) (pool_pad_w p)
       (pool_pool_s p) (pool_stride_w p) (pool_out_w p))),
     ucast (pool_pool_mode p) AND 1]"
  using assms by (auto simp: npu_cmd_build_pool_def build_simps)


text \<open>A builder that is given both pointers succeeds, whatever the descriptor held.\<close>

lemma build_any_desc:
  "npu_cmd_build_conv (Some d) (Some pc) = npu_cmd_build_conv (Some d0) (Some pc)"
  "npu_cmd_build_gemm (Some d) (Some pg) = npu_cmd_build_gemm (Some d0) (Some pg)"
  "npu_cmd_build_softmax (Some d) (Some ps) = npu_cmd_build_softmax (Some d0) (Some ps)"
  "npu_cmd_build_vec (Some d) (Some pv) = npu_cmd_build_vec (Some d0) (Some pv)"
  "npu_cmd_build_lnorm (Some d) (Some pl) = npu_cmd_build_lnorm (Some d0) (Some pl)"
  "npu_cmd_build_pool (Some d) (Some pp) = npu_cmd_build_pool (Some d0) (Some pp)"
proof -
  have "cmd_clear d = cmd_clear d0" by (cases d, cases d0) (simp add: cmd_clear_def)
  then show
    "npu_cmd_build_conv (Some d) (Some pc) = npu_cmd_build_conv (Some d0) (Some pc)"
    "npu_cmd_build_gemm (Some d) (Some pg) = npu_cmd_build_gemm (Some d0) (Some pg)"
    "npu_cmd_build_softmax (Some d) (Some ps) = npu_cmd_build_softmax (Some d0) (Some ps)"
    "npu_cmd_build_vec (Some d) (Some pv) = npu_cmd_build_vec (Some d0) (Some pv)"
    "npu_cmd_build_lnorm (Some d) (Some pl) = npu_cmd_build_lnorm (Some d0) (Some pl)"
    "npu_cmd_build_pool (Some d) (Some pp) = npu_cmd_build_pool (Some d0) (Some pp)"
    by (simp_all add: npu_cmd_build_conv_def npu_cmd_build_gemm_def npu_cmd_build_softmax_def
        npu_cmd_build_vec_def npu_cmd_build_lnorm_def npu_cmd_build_pool_def)
qed

section \<open>Output dimensions\<close>

text \<open>The window positions that fit into a padded dimension.\<close>

lemma card_windows:
  fixes n f st :: nat
  assumes "0 < st" and "f \<le> n"
  shows "card {k. k * st + f \<le> n} = (n - f) div st + 1"
proof -
  have "k * st + f \<le> n \<longleftrightarrow> k \<le> (n - f) div st" for k
  proof -
    have "k * st + f \<le> n \<longleftrightarrow> k * st \<le> n - f" using assms(2) by linarith
    also have "\<dots> \<longleftrightarrow> k \<le> (n - f) div st" using assms(1) by (simp add: less_eq_div_iff_mult_less_eq)
    finally show ?thesis .
  qed
  then have "{k. k * st + f \<le> n} = {..(n - f) div st}" by auto
  then show ?thesis by simp
qed

lemma pow16: "(2 :: nat) ^ 16 = 65536"
  by simp

lemma unat_padded: "unat ((ucast (i :: u16) :: u32) + 2 * ucast (p :: u16)) = unat i + 2 * unat p"
  using unat_u16_le [of i] unat_u16_le [of p]
  by (simp add: unat_word_ariths)

lemma unat_quotient_plus_1:
  fixes x :: u32
  assumes "unat x div unat (st :: u16) + 1 < 2 ^ 32"
  shows "unat (ucast (x div ucast st + 1) :: u16) = (unat x div unat st + 1) mod 2 ^ 16"
proof -
  have "unat (x div ucast st) = unat x div unat st" by (simp add: unat_div_distrib)
  then have "unat (x div ucast st + 1) = unat x div unat st + 1"
    using assms by (simp add: unat_word_ariths)
  then show ?thesis by (simp add: unsigned_ucast_eq take_bit_eq_mod)
qed

section \<open>Properties\<close>

text \<open>When the caller leaves the output dimension to the builder (\<open>provided = 0\<close>), the
  stride is not zero and the filter fits into the padded input, \<open>derive_out_dim\<close> returns the
  number of window positions that fit, cut to the 16 bits of its return type.\<close>

theorem derive_out_dim_counts_windows:
  assumes "stride \<noteq> 0" and "unat filt \<le> unat in_dim + 2 * unat pad"
  shows "unat (derive_out_dim in_dim pad filt stride 0) =
    card {k. k * unat stride + unat filt \<le> unat in_dim + 2 * unat pad} mod 2 ^ 16"
proof -
  let ?x = "(ucast in_dim :: u32) + 2 * ucast pad - ucast filt"
  let ?n = "unat in_dim + 2 * unat pad - unat filt"
  have x: "unat ?x = ?n"
    using assms(2) by (subst unat_sub) (simp_all add: word_le_nat_alt unat_padded)
  have "?n \<le> 200000" using unat_u16_le [of in_dim] unat_u16_le [of pad] by linarith
  then have "?n div unat stride \<le> 200000" by (metis div_le_dividend le_trans)
  then have "unat (derive_out_dim in_dim pad filt stride 0) = (?n div unat stride + 1) mod 2 ^ 16"
    using assms(1) unat_quotient_plus_1 [of ?x stride] x by (simp add: derive_out_dim_def)
  moreover have "0 < unat stride" using assms(1) by (simp add: unat_gt_0)
  ultimately show ?thesis using card_windows assms(2) by simp
qed

theorem derive_out_dim_counts_windows_witness:
  "unat (derive_out_dim 7 1 3 2 0) = card {k. k * unat (2 :: u16) + unat (3 :: u16) \<le> unat (7 :: u16) + 2 * unat (1 :: u16)} mod 2 ^ 16"
  by (rule derive_out_dim_counts_windows) simp_all

text \<open>A filter larger than the padded input leaves no window position, and
  \<open>derive_out_dim\<close> does not report it: the unsigned subtraction wraps, and with stride 1 every
  such shape but the one that is short by exactly one yields a nonzero output dimension that
  the builder writes into the descriptor.\<close>

theorem derive_out_dim_underflow:
  assumes "unat in_dim + 2 * unat pad + 1 < unat filt"
  shows "{k. k * unat (1 :: u16) + unat filt \<le> unat in_dim + 2 * unat pad} = {} \<and>
    unat (derive_out_dim in_dim pad filt 1 0) =
      65536 - (unat filt - (unat in_dim + 2 * unat pad) - 1) \<and>
    derive_out_dim in_dim pad filt 1 0 \<noteq> 0"
proof -
  let ?x = "(ucast in_dim :: u32) + 2 * ucast pad - ucast filt"
  let ?d = "unat filt - (unat in_dim + 2 * unat pad)"
  have d: "2 \<le> ?d" "?d < 65536" using assms unat_u16_less [of filt] by linarith+
  have "\<not> (ucast filt :: u32) \<le> ucast in_dim + 2 * ucast pad"
    using assms by (simp add: word_le_nat_alt unat_padded)
  then have x: "unat ?x = 2 ^ 32 - ?d"
    using assms d unat_padded [of in_dim pad] by (simp add: unat_sub_if' word_le_nat_alt)
  have "unat (derive_out_dim in_dim pad filt 1 0) = (2 ^ 32 - ?d + 1) mod 2 ^ 16"
    using unat_quotient_plus_1 [of ?x 1] x d by (simp add: derive_out_dim_def)
  also have "2 ^ 32 - ?d + 1 = 65535 * 65536 + (65536 - (?d - 1))" using d by simp
  also have "\<dots> mod 2 ^ 16 = 65536 - (?d - 1)"
  proof -
    have wrap: "e < m \<Longrightarrow> (k * m + e) mod m = e" for e k m :: nat by simp
    have "65536 - (?d - 1) < 65536" using d by linarith
    from wrap [OF this, of 65535] show ?thesis unfolding pow16 .
  qed
  finally have r: "unat (derive_out_dim in_dim pad filt 1 0) = 65536 - (?d - 1)" .
  with d have "derive_out_dim in_dim pad filt 1 0 \<noteq> 0" by force
  with r assms show ?thesis by simp
qed

theorem derive_out_dim_underflow_witness:
  "{k. k * unat (1 :: u16) + unat (5 :: u16) \<le> unat (3 :: u16) + 2 * unat (0 :: u16)} = {} \<and>
    unat (derive_out_dim 3 0 5 1 0) =
      65536 - (unat (5 :: u16) - (unat (3 :: u16) + 2 * unat (0 :: u16)) - 1) \<and>
    derive_out_dim 3 0 5 1 0 \<noteq> 0"
  by (rule derive_out_dim_underflow) simp

text \<open>Error behaviour of the six builders: a NULL descriptor or a NULL parameter block
  gives -1 and leaves the descriptor as it was; with both present the result does not depend
  on what the descriptor held before, so no stale word reaches the hardware.\<close>

theorem builders_null_and_stale:
  "npu_cmd_build_conv None pc = (-1, None) \<and> npu_cmd_build_conv (Some d) None = (-1, Some d) \<and>
   npu_cmd_build_gemm None pg = (-1, None) \<and> npu_cmd_build_gemm (Some d) None = (-1, Some d) \<and>
   npu_cmd_build_softmax None ps = (-1, None) \<and>
   npu_cmd_build_softmax (Some d) None = (-1, Some d) \<and>
   npu_cmd_build_vec None pv = (-1, None) \<and> npu_cmd_build_vec (Some d) None = (-1, Some d) \<and>
   npu_cmd_build_lnorm None pl = (-1, None) \<and> npu_cmd_build_lnorm (Some d) None = (-1, Some d) \<and>
   npu_cmd_build_pool None pp = (-1, None) \<and> npu_cmd_build_pool (Some d) None = (-1, Some d) \<and>
   npu_cmd_build_conv (Some d) (Some qc) = npu_cmd_build_conv (Some d0) (Some qc) \<and>
   npu_cmd_build_gemm (Some d) (Some qg) = npu_cmd_build_gemm (Some d0) (Some qg) \<and>
   npu_cmd_build_softmax (Some d) (Some qs) = npu_cmd_build_softmax (Some d0) (Some qs) \<and>
   npu_cmd_build_vec (Some d) (Some qv) = npu_cmd_build_vec (Some d0) (Some qv) \<and>
   npu_cmd_build_lnorm (Some d) (Some ql) = npu_cmd_build_lnorm (Some d0) (Some ql) \<and>
   npu_cmd_build_pool (Some d) (Some qp) = npu_cmd_build_pool (Some d0) (Some qp)"
  by (intro conjI; (rule build_any_desc)?)
    (simp_all add: npu_cmd_build_conv_def npu_cmd_build_gemm_def npu_cmd_build_softmax_def
      npu_cmd_build_vec_def npu_cmd_build_lnorm_def npu_cmd_build_pool_def)

end
