(* ===== verification/Npu_Mmio.thy ===== *)
theory Npu_Mmio
  imports Npu_Cmd "HOL-Library.Monad_Syntax"
begin

text \<open>
  The memory-mapped bus between host and device, shared by the user-space runtime and the
  kernel driver.  A volatile access is a call of the bus, which may change the device's state
  (a status read takes time, a doorbell write starts work); polling loops count with a C
  unsigned counter.  The two locales state what the host code relies on of a device: the
  command window with its doorbell, and the DMA request registers.
\<close>

section \<open>The bus\<close>

record 's bus =
  bus_read :: "u64 \<Rightarrow> 's \<Rightarrow> u32 \<times> 's"
  bus_write :: "u64 \<Rightarrow> u32 \<Rightarrow> 's \<Rightarrow> 's"

text \<open>A sequence of writes, and the state and value of the \<open>k\<close>-th repeated read of one address.\<close>

definition bus_writes :: "'s bus \<Rightarrow> (u64 \<times> u32) list \<Rightarrow> 's \<Rightarrow> 's" where
  "bus_writes b ws s = fold (\<lambda>(a, v). bus_write b a v) ws s"

primrec bus_reads :: "'s bus \<Rightarrow> u64 \<Rightarrow> nat \<Rightarrow> 's \<Rightarrow> 's" where
  "bus_reads b a 0 s = s"
| "bus_reads b a (Suc k) s = bus_reads b a k (snd (bus_read b a s))"

definition bus_value :: "'s bus \<Rightarrow> u64 \<Rightarrow> nat \<Rightarrow> 's \<Rightarrow> u32" where
  "bus_value b a k s = fst (bus_read b a (bus_reads b a k s))"

text \<open>Byte address of a register at an offset from the mapped base.\<close>

definition reg_addr :: "u64 \<Rightarrow> u32 \<Rightarrow> u64" where
  "reg_addr b off = b + ucast off"

text \<open>The writes that fill the command window, word 0 first.\<close>

definition window_writes :: "u64 \<Rightarrow> u32 list \<Rightarrow> (u64 \<times> u32) list" where
  "window_writes b ws =
     map (\<lambda>i. (reg_addr b LGNPU_CMD_QUEUE_BASE + 4 * word_of_nat i, ws ! i)) [0..<length ws]"

text \<open>A bus that records the writes, in order, and reads one constant.\<close>

definition trace_bus :: "u32 \<Rightarrow> (u64 \<times> u32) list bus" where
  "trace_bus v = \<lparr>bus_read = (\<lambda>a s. (v, s)), bus_write = (\<lambda>a w s. s @ [(a, w)])\<rparr>"

section \<open>Polling loops\<close>

text \<open>\<open>for (i = i0; i < n; ++i) if (test) return ...;\<close> with a word-sized counter: whether the
  test succeeded, and the state then.\<close>

function poll_word ::
  "'a::len word \<Rightarrow> 'a word \<Rightarrow> ('s \<Rightarrow> (bool \<times> 's) option) \<Rightarrow> 's \<Rightarrow> (bool \<times> 's) option" where
  "poll_word i n f s =
     (if i < n then
        (case f s of None \<Rightarrow> None
         | Some (found, s') \<Rightarrow> if found then Some (True, s') else poll_word (i + 1) n f s')
      else Some (False, s))"
  by pat_completeness auto
termination
  by (relation "measure (\<lambda>(i, n, f, s). unat n - unat i)")
    (auto simp: unat_Suc_less word_less_nat_alt intro!: diff_less_mono2)

declare poll_word.simps [simp del]

text \<open>The same loop counting down a natural number.\<close>

primrec poll_n :: "nat \<Rightarrow> ('s \<Rightarrow> (bool \<times> 's) option) \<Rightarrow> 's \<Rightarrow> (bool \<times> 's) option" where
  "poll_n 0 f s = Some (False, s)"
| "poll_n (Suc k) f s = (case f s of None \<Rightarrow> None
     | Some (found, s') \<Rightarrow> if found then Some (True, s') else poll_n k f s')"

section \<open>Lemmas on bus sequences and polling\<close>

lemma bus_writes_Nil [simp]: "bus_writes b [] s = s"
  by (simp add: bus_writes_def)

lemma bus_writes_Cons [simp]: "bus_writes b ((a, v) # ws) s = bus_writes b ws (bus_write b a v s)"
  by (simp add: bus_writes_def)

lemma bus_writes_append [simp]: "bus_writes b (xs @ ys) s = bus_writes b ys (bus_writes b xs s)"
  by (simp add: bus_writes_def)

lemma length_window_writes [simp]: "length (window_writes b ws) = length ws"
  by (simp add: window_writes_def)

lemma window_writes_snoc:
  "window_writes b (ws @ [w]) =
     window_writes b ws @ [(reg_addr b LGNPU_CMD_QUEUE_BASE + 4 * word_of_nat (length ws), w)]"
  by (simp add: window_writes_def nth_append)

lemma poll_word_poll_n: "poll_word i n f s = poll_n (unat n - unat i) f s"
proof (induction i n f s rule: poll_word.induct)
  case (1 i n f s)
  show ?case
  proof (cases "i < n")
    case True
    then have d: "unat n - unat i = Suc (unat n - unat (i + 1))"
      by (simp add: unat_Suc_less word_less_nat_alt Suc_diff_Suc)
    from True "1" show ?thesis
      by (subst poll_word.simps) (auto simp: d split: option.split)
  next
    case False
    then show ?thesis by (subst poll_word.simps) (simp add: word_less_nat_alt)
  qed
qed

lemma poll_word_0: "poll_word 0 n f s = poll_n (unat n) f s"
  by (simp add: poll_word_poll_n)

text \<open>A loop that tests one register: it stops at the first value that passes, after as many
  reads as that takes, and otherwise performs all its reads.\<close>

lemma bus_value_Suc: "bus_value b a (Suc k) s = bus_value b a k (snd (bus_read b a s))"
  by (simp add: bus_value_def)

lemma poll_n_register:
  "poll_n n (\<lambda>s. Some (P (fst (bus_read b a s)), snd (bus_read b a s))) s =
     Some (if \<exists>k<n. P (bus_value b a k s)
           then (True, bus_reads b a (Suc (LEAST k. P (bus_value b a k s))) s)
           else (False, bus_reads b a n s))"
proof (induction n arbitrary: s)
  case 0
  show ?case by simp
next
  case (Suc n)
  let ?s = "snd (bus_read b a s)"
  show ?case
  proof (cases "P (bus_value b a 0 s)")
    case True
    then have "(LEAST k. P (bus_value b a k s)) = 0" by (simp add: Least_eq_0)
    with True show ?thesis by (auto simp: bus_value_def)
  next
    case False
    then have ex: "(\<exists>k<Suc n. P (bus_value b a k s)) \<longleftrightarrow> (\<exists>k<n. P (bus_value b a k ?s))"
      by (metis Suc_less_eq bus_value_Suc less_Suc_eq_0_disj)
    have least: "(LEAST k. P (bus_value b a k s)) = Suc (LEAST k. P (bus_value b a k ?s))"
      if "P (bus_value b a k ?s)" for k
    proof -
      from that have "P (bus_value b a (Suc k) s)" by (simp add: bus_value_Suc)
      from Least_Suc [of "\<lambda>k. P (bus_value b a k s)", OF this False] show ?thesis
        by (simp only: bus_value_Suc)
    qed
    from False have "\<not> P (fst (bus_read b a s))" by (simp add: bus_value_def)
    then show ?thesis using Suc.IH [of ?s] ex least by auto
  qed
qed

text \<open>A loop whose failing test changes the state by \<open>h\<close> and whose succeeding one by \<open>g\<close>.\<close>

lemma poll_n_steps:
  "poll_n n (\<lambda>s. Some (if P s then (True, g s) else (False, h s))) s =
     Some (if \<exists>k<n. P ((h ^^ k) s) then (True, g ((h ^^ (LEAST k. P ((h ^^ k) s))) s))
           else (False, (h ^^ n) s))"
proof (induction n arbitrary: s)
  case 0
  show ?case by simp
next
  case (Suc n)
  show ?case
  proof (cases "P s")
    case True
    then have "(LEAST k. P ((h ^^ k) s)) = 0" by (simp add: Least_eq_0)
    with True show ?thesis by (auto intro!: exI [of _ 0])
  next
    case False
    have step: "(h ^^ Suc k) s = (h ^^ k) (h s)" for k by (simp add: funpow_swap1)
    from False have ex: "(\<exists>k<Suc n. P ((h ^^ k) s)) \<longleftrightarrow> (\<exists>k<n. P ((h ^^ k) (h s)))"
      using step by (metis Suc_less_eq funpow_0 less_Suc_eq_0_disj)
    have least: "(h ^^ (LEAST k. P ((h ^^ k) s))) s = (h ^^ (LEAST k. P ((h ^^ k) (h s)))) (h s)"
      if "P ((h ^^ k) (h s))" for k
    proof -
      from that have "P ((h ^^ Suc k) s)" by (simp only: step)
      from Least_Suc [of "\<lambda>k. P ((h ^^ k) s)", OF this] False show ?thesis
        by (simp only: step funpow_0 if_False not_False_eq_True)
    qed
    from False show ?thesis using Suc.IH [of "h s"] ex least step [of n] by auto
  qed
qed

section \<open>What the host relies on\<close>

text \<open>A device mapped at \<open>mmio\<close> with a command window of sixteen words and a doorbell.  While it
  is live (no reset is under way), writing word \<open>i\<close> of the window changes that word only,
  reading STATUS, enabling the interrupt and ringing the doorbell leave the window alone, and
  the doorbell write is noticed.\<close>

locale command_device =
  fixes bus :: "'s bus" and mmio :: u64 and live :: "'s \<Rightarrow> bool"
    and window :: "'s \<Rightarrow> u32 list" and rung :: "'s \<Rightarrow> bool"
  assumes window_length: "length (window s) = LGNPU_CMD_WORDS"
    and window_write: "i < LGNPU_CMD_WORDS \<Longrightarrow>
      window (bus_write bus (reg_addr mmio LGNPU_CMD_QUEUE_BASE + 4 * word_of_nat i) v s) =
        (window s)[i := v]"
    and live_window: "i < LGNPU_CMD_WORDS \<Longrightarrow> live s \<Longrightarrow>
      live (bus_write bus (reg_addr mmio LGNPU_CMD_QUEUE_BASE + 4 * word_of_nat i) v s)"
    and live_status: "live s \<Longrightarrow> live (snd (bus_read bus (reg_addr mmio LGNPU_REG_STATUS) s))"
    and live_irq_enable:
      "live s \<Longrightarrow> live (bus_write bus (reg_addr mmio LGNPU_REG_IRQ_ENABLE) v s)"
    and window_irq_enable:
      "window (bus_write bus (reg_addr mmio LGNPU_REG_IRQ_ENABLE) v s) = window s"
    and window_doorbell:
      "window (bus_write bus (reg_addr mmio LGNPU_REG_DOORBELL) v s) = window s"
    and rung_doorbell: "live s \<Longrightarrow> rung (bus_write bus (reg_addr mmio LGNPU_REG_DOORBELL) v s)"
begin

lemma window_filled_prefix:
  assumes "length ws \<le> LGNPU_CMD_WORDS"
  shows "window (bus_writes bus (window_writes mmio ws) s) = ws @ drop (length ws) (window s)"
  using assms
proof (induction ws rule: rev_induct)
  case Nil
  show ?case by (simp add: window_writes_def)
next
  case (snoc w ws)
  then have l: "length ws < length (window s)" by (simp add: window_length)
  with snoc show ?case
    by (simp add: window_writes_snoc window_write list_update_append Cons_nth_drop_Suc [symmetric])
qed

lemma window_filled:
  assumes "length ws = LGNPU_CMD_WORDS"
  shows "window (bus_writes bus (window_writes mmio ws) s) = ws"
  using assms window_filled_prefix [of ws s] by (simp add: window_length)

lemma live_filled:
  assumes "length ws \<le> LGNPU_CMD_WORDS" and "live s"
  shows "live (bus_writes bus (window_writes mmio ws) s)"
  using assms
proof (induction ws rule: rev_induct)
  case Nil
  then show ?case by (simp add: window_writes_def)
next
  case (snoc w ws)
  then show ?case by (simp add: window_writes_snoc live_window)
qed

end

text \<open>A device that also has the DMA request registers: while it is live each register write sets
  its own field, and the control write with the start bit issues the request with the fields
  as they are.\<close>

locale dma_device = command_device +
  fixes req_ext :: "'s \<Rightarrow> u32" and req_loc :: "'s \<Rightarrow> 20 word" and req_len :: "'s \<Rightarrow> u16"
    and req_issued :: "'s \<Rightarrow> (u32 \<times> 20 word \<times> u16 \<times> bool) option"
  assumes ext_write: "live s \<Longrightarrow> s' = bus_write bus (reg_addr mmio LGNPU_REG_DMA_EXT_ADDR) v s \<Longrightarrow>
      live s' \<and> req_ext s' = v \<and> req_loc s' = req_loc s \<and> req_len s' = req_len s"
    and loc_write: "live s \<Longrightarrow> s' = bus_write bus (reg_addr mmio LGNPU_REG_DMA_LOC_ADDR) v s \<Longrightarrow>
      live s' \<and> req_ext s' = req_ext s \<and> req_loc s' = ucast v \<and> req_len s' = req_len s"
    and len_write: "live s \<Longrightarrow> s' = bus_write bus (reg_addr mmio LGNPU_REG_DMA_LEN) v s \<Longrightarrow>
      live s' \<and> req_ext s' = req_ext s \<and> req_loc s' = req_loc s \<and> req_len s' = ucast v"
    and ctrl_write: "live s \<Longrightarrow> bit v 0 \<Longrightarrow>
      req_issued (bus_write bus (reg_addr mmio LGNPU_REG_DMA_CTRL) v s) =
        Some (req_ext s, req_loc s, req_len s, bit v 1)"
begin

lemma dma_request:
  assumes "live s" and "bit c 0"
  shows "req_issued (bus_writes bus
      [(reg_addr mmio LGNPU_REG_DMA_EXT_ADDR, e), (reg_addr mmio LGNPU_REG_DMA_LOC_ADDR, l),
       (reg_addr mmio LGNPU_REG_DMA_LEN, n), (reg_addr mmio LGNPU_REG_DMA_CTRL, c)] s) =
    Some (e, ucast l, ucast n, bit c 1)"
proof -
  define s1 where "s1 = bus_write bus (reg_addr mmio LGNPU_REG_DMA_EXT_ADDR) e s"
  define s2 where "s2 = bus_write bus (reg_addr mmio LGNPU_REG_DMA_LOC_ADDR) l s1"
  define s3 where "s3 = bus_write bus (reg_addr mmio LGNPU_REG_DMA_LEN) n s2"
  note e = ext_write [OF assms(1) s1_def]
  note l = loc_write [OF conjunct1 [OF e] s2_def]
  note n = len_write [OF conjunct1 [OF l] s3_def]
  from ctrl_write [OF conjunct1 [OF n] assms(2)] e l n show ?thesis
    by (simp add: s1_def s2_def s3_def)
qed

end

end
