(* ===== verification/Npu_Runtime.thy ===== *)
theory Npu_Runtime
  imports Npu_Mmio
begin

text \<open>
  The user-space runtime: \<open>sw/uapi/lgnpu_ioctl.h\<close>, \<open>sw/runtime/mmio_helpers.h\<close>,
  \<open>sw/runtime/liblgnpu.c\<close> and \<open>sw/runtime/submit.c\<close>.  A device handle is
  an optional \<open>npu_device\<close> with \<^term>\<open>None\<close> for a NULL handle; its \<open>base\<close> field is
  \<^term>\<open>None\<close> after \<open>npu_close\<close>.  Every call that touches the device takes the bus
  and the bus state and returns the C result and the new state, or \<^term>\<open>None\<close> where the C
  code dereferences NULL.
\<close>

section \<open>Types (\<open>lgnpu_ioctl.h\<close>)\<close>

record npu_device =
  base :: "u64 option"

datatype npu_dma_dir = LGNPU_DMA_TO_DEVICE | LGNPU_DMA_FROM_DEVICE

record npu_dma_req =
  dma_req_ext_addr :: u32
  dma_req_loc_addr :: u16
  dma_req_len :: u16
  dma_req_dir :: npu_dma_dir

record npu_status =
  status_idle :: int
  status_busy :: int
  status_queue_full :: int

record npu_device_info =
  version_major :: u8
  version_minor :: u8
  num_backends :: u8
  array_rows :: u8
  array_cols :: u8
  dtypes_supported :: u8

section \<open>Raw accesses (\<open>mmio_helpers.h\<close>)\<close>

text \<open>\<open>dev->base[offset / sizeof(uint32_t)]\<close>: the byte address of that word.\<close>

definition elem_addr :: "u64 \<Rightarrow> u32 \<Rightarrow> u64" where
  "elem_addr b offset = b + 4 * ucast (offset div 4)"

definition npu_mmio_read :: "'s bus \<Rightarrow> npu_device \<Rightarrow> u32 \<Rightarrow> 's \<Rightarrow> (u32 \<times> 's) option" where
  "npu_mmio_read bus dev offset s = (case base dev of
     None \<Rightarrow> None
   | Some b \<Rightarrow> Some (bus_read bus (elem_addr b offset) s))"

definition npu_mmio_write :: "'s bus \<Rightarrow> npu_device \<Rightarrow> u32 \<Rightarrow> u32 \<Rightarrow> 's \<Rightarrow> 's option" where
  "npu_mmio_write bus dev offset value s = (case base dev of
     None \<Rightarrow> None
   | Some b \<Rightarrow> Some (bus_write bus (elem_addr b offset) value s))"

section \<open>Lifecycle, control, status (\<open>liblgnpu.c\<close>)\<close>

definition npu_open :: "npu_device option \<Rightarrow> u64 option \<Rightarrow> int \<times> npu_device option" where
  "npu_open dev mmio_base = (case dev of
     None \<Rightarrow> (-1, dev)
   | Some d \<Rightarrow> (case mmio_base of
       None \<Rightarrow> (-1, dev)
     | Some b \<Rightarrow> (0, Some (d\<lparr>base := Some b\<rparr>))))"

definition npu_close :: "npu_device option \<Rightarrow> int \<times> npu_device option" where
  "npu_close dev = (case dev of
     None \<Rightarrow> (-1, None)
   | Some d \<Rightarrow> (0, Some (d\<lparr>base := None\<rparr>)))"

definition npu_reset :: "'s bus \<Rightarrow> npu_device option \<Rightarrow> 's \<Rightarrow> (int \<times> 's) option" where
  "npu_reset bus dev s = (case dev of
     None \<Rightarrow> Some (-1, s)
   | Some d \<Rightarrow> do {
       s \<leftarrow> npu_mmio_write bus d LGNPU_REG_CTRL LGNPU_CTRL_SOFT_RESET s;
       Some (0, s) })"

definition npu_enable :: "'s bus \<Rightarrow> npu_device option \<Rightarrow> 's \<Rightarrow> (int \<times> 's) option" where
  "npu_enable bus dev s = (case dev of
     None \<Rightarrow> Some (-1, s)
   | Some d \<Rightarrow> do {
       s \<leftarrow> npu_mmio_write bus d LGNPU_REG_CTRL LGNPU_CTRL_ENABLE s;
       Some (0, s) })"

definition npu_read_status ::
  "'s bus \<Rightarrow> npu_device option \<Rightarrow> npu_status option \<Rightarrow> 's \<Rightarrow> (int \<times> npu_status option \<times> 's) option"
where
  "npu_read_status bus dev out s = (case (dev, out) of
     (Some d, Some o') \<Rightarrow> do {
       (val, s) \<leftarrow> npu_mmio_read bus d LGNPU_REG_STATUS s;
       Some (0, Some (o'\<lparr>status_idle := of_bool (val AND LGNPU_STATUS_IDLE \<noteq> 0),
                         status_busy := of_bool (val AND LGNPU_STATUS_BUSY \<noteq> 0),
                         status_queue_full := of_bool (val AND LGNPU_STATUS_QUEUE_FULL \<noteq> 0)\<rparr>), s) }
   | _ \<Rightarrow> Some (-1, out, s))"

definition npu_read_info ::
  "'s bus \<Rightarrow> npu_device option \<Rightarrow> npu_device_info option \<Rightarrow> 's \<Rightarrow>
     (int \<times> npu_device_info option \<times> 's) option"
where
  "npu_read_info bus dev out s = (case (dev, out) of
     (Some d, Some o') \<Rightarrow> do {
       (val, s) \<leftarrow> npu_mmio_read bus d LGNPU_REG_FEATURE_ID s;
       Some (0, Some (o'\<lparr>version_major := ucast (drop_bit 24 val AND 0xFF),
                         version_minor := ucast (drop_bit 16 val AND 0xFF),
                         num_backends := ucast (drop_bit 12 val AND 0x0F),
                         array_rows := ucast (drop_bit 8 val AND 0x0F),
                         array_cols := ucast (drop_bit 4 val AND 0x0F),
                         dtypes_supported := ucast (val AND 0x0F)\<rparr>), s) }
   | _ \<Rightarrow> Some (-1, out, s))"

definition npu_poll_idle :: "'s bus \<Rightarrow> npu_device option \<Rightarrow> u32 \<Rightarrow> 's \<Rightarrow> (int \<times> 's) option" where
  "npu_poll_idle bus dev timeout_cycles s = (case dev of
     None \<Rightarrow> Some (-1, s)
   | Some d \<Rightarrow> do {
       (found, s) \<leftarrow> poll_word 0 timeout_cycles
          (\<lambda>s. do {
             (val, s) \<leftarrow> npu_mmio_read bus d LGNPU_REG_STATUS s;
             Some (val AND LGNPU_STATUS_IDLE \<noteq> 0 \<and> \<not> val AND LGNPU_STATUS_BUSY \<noteq> 0, s) }) s;
       Some (if found then 0 else -1, s) })"

definition npu_irq_enable :: "'s bus \<Rightarrow> npu_device option \<Rightarrow> 's \<Rightarrow> (int \<times> 's) option" where
  "npu_irq_enable bus dev s = (case dev of
     None \<Rightarrow> Some (-1, s)
   | Some d \<Rightarrow> do { s \<leftarrow> npu_mmio_write bus d LGNPU_REG_IRQ_ENABLE 1 s; Some (0, s) })"

definition npu_irq_disable :: "'s bus \<Rightarrow> npu_device option \<Rightarrow> 's \<Rightarrow> (int \<times> 's) option" where
  "npu_irq_disable bus dev s = (case dev of
     None \<Rightarrow> Some (-1, s)
   | Some d \<Rightarrow> do { s \<leftarrow> npu_mmio_write bus d LGNPU_REG_IRQ_ENABLE 0 s; Some (0, s) })"

definition npu_irq_clear :: "'s bus \<Rightarrow> npu_device option \<Rightarrow> 's \<Rightarrow> (int \<times> 's) option" where
  "npu_irq_clear bus dev s = (case dev of
     None \<Rightarrow> Some (-1, s)
   | Some d \<Rightarrow> do { s \<leftarrow> npu_mmio_write bus d LGNPU_REG_IRQ_CLEAR 1 s; Some (0, s) })"

definition npu_irq_pending :: "'s bus \<Rightarrow> npu_device option \<Rightarrow> 's \<Rightarrow> (int \<times> 's) option" where
  "npu_irq_pending bus dev s = (case dev of
     None \<Rightarrow> Some (0, s)
   | Some d \<Rightarrow> do {
       (val, s) \<leftarrow> npu_mmio_read bus d LGNPU_REG_IRQ_STATUS s;
       Some (of_bool (val AND 1 \<noteq> 0), s) })"

definition npu_perf_read_cycles :: "'s bus \<Rightarrow> npu_device option \<Rightarrow> 's \<Rightarrow> (u32 \<times> 's) option" where
  "npu_perf_read_cycles bus dev s = (case dev of
     None \<Rightarrow> Some (0, s)
   | Some d \<Rightarrow> npu_mmio_read bus d LGNPU_REG_PERF_CYCLES s)"

definition npu_perf_read_active :: "'s bus \<Rightarrow> npu_device option \<Rightarrow> 's \<Rightarrow> (u32 \<times> 's) option" where
  "npu_perf_read_active bus dev s = (case dev of
     None \<Rightarrow> Some (0, s)
   | Some d \<Rightarrow> npu_mmio_read bus d LGNPU_REG_PERF_ACTIVE s)"

definition npu_perf_read_stall :: "'s bus \<Rightarrow> npu_device option \<Rightarrow> 's \<Rightarrow> (u32 \<times> 's) option" where
  "npu_perf_read_stall bus dev s = (case dev of
     None \<Rightarrow> Some (0, s)
   | Some d \<Rightarrow> npu_mmio_read bus d LGNPU_REG_PERF_STALL s)"

section \<open>Submission and DMA (\<open>submit.c\<close>)\<close>

text \<open>\<open>queue[i] = desc->words[i]\<close>, where \<open>queue\<close> is \<open>dev->base + LGNPU_CMD_QUEUE_BASE / 4\<close>.\<close>

definition queue_store ::
  "'s bus \<Rightarrow> npu_device \<Rightarrow> npu_cmd_desc \<Rightarrow> u32 \<Rightarrow> 's \<Rightarrow> 's option" where
  "queue_store bus d desc i s = (case base d of
     None \<Rightarrow> None
   | Some b \<Rightarrow>
       Some (bus_write bus (elem_addr b LGNPU_CMD_QUEUE_BASE + 4 * ucast i) (words desc ! unat i) s))"

definition npu_submit ::
  "'s bus \<Rightarrow> npu_device option \<Rightarrow> npu_cmd_desc option \<Rightarrow> 's \<Rightarrow> (int \<times> 's) option" where
  "npu_submit bus dev desc s = (case (dev, desc) of
     (Some d, Some desc) \<Rightarrow> do {
       s \<leftarrow> for_word 0 (word_of_nat LGNPU_CMD_WORDS) (queue_store bus d desc) s;
       s \<leftarrow> npu_mmio_write bus d LGNPU_REG_DOORBELL 1 s;
       Some (0, s) }
   | _ \<Rightarrow> Some (-1, s))"

definition npu_dma_start ::
  "'s bus \<Rightarrow> npu_device option \<Rightarrow> npu_dma_req option \<Rightarrow> 's \<Rightarrow> (int \<times> 's) option" where
  "npu_dma_start bus dev req s = (case (dev, req) of
     (Some d, Some req) \<Rightarrow> do {
       s \<leftarrow> npu_mmio_write bus d LGNPU_REG_DMA_EXT_ADDR (dma_req_ext_addr req) s;
       s \<leftarrow> npu_mmio_write bus d LGNPU_REG_DMA_LOC_ADDR (ucast (dma_req_loc_addr req)) s;
       s \<leftarrow> npu_mmio_write bus d LGNPU_REG_DMA_LEN (ucast (dma_req_len req)) s;
       let ctrl = LGNPU_DMA_CTRL_START;
       let ctrl = (if dma_req_dir req = LGNPU_DMA_FROM_DEVICE then ctrl OR LGNPU_DMA_CTRL_DIR
                   else ctrl);
       s \<leftarrow> npu_mmio_write bus d LGNPU_REG_DMA_CTRL ctrl s;
       Some (0, s) }
   | _ \<Rightarrow> Some (-1, s))"

definition npu_dma_poll :: "'s bus \<Rightarrow> npu_device option \<Rightarrow> u32 \<Rightarrow> 's \<Rightarrow> (int \<times> 's) option" where
  "npu_dma_poll bus dev timeout_cycles s = (case dev of
     None \<Rightarrow> Some (-1, s)
   | Some d \<Rightarrow> do {
       (found, s) \<leftarrow> poll_word 0 timeout_cycles
          (\<lambda>s. do {
             (val, s) \<leftarrow> npu_mmio_read bus d LGNPU_REG_DMA_STATUS s;
             Some (\<not> val AND LGNPU_DMA_STATUS_BUSY \<noteq> 0, s) }) s;
       Some (if found then 0 else -1, s) })"


text \<open>The control word \<open>npu_dma_start\<close> ends with, per direction.\<close>

definition dma_ctrl_word :: "npu_dma_dir \<Rightarrow> u32" where
  "dma_ctrl_word dir = (if dir = LGNPU_DMA_FROM_DEVICE then 3 else 1)"

section \<open>Addresses\<close>

text \<open>All offsets are word aligned, so an element of \<open>base\<close> is the register at its offset.\<close>

lemma elem_addr_aligned: "unat off mod 4 = 0 \<Longrightarrow> elem_addr b off = reg_addr b off"
proof -
  assume a: "unat off mod 4 = 0"
  have "unat (4 * ucast (off div 4) :: u64) = unat (ucast off :: u64)"
  proof -
    have "4 * unat (off div 4) = unat off" using a by (simp add: unat_div_distrib) presburger
    moreover have "unat (ucast (off div 4) :: u64) = unat (off div 4)"
      by (rule unat_ucast_up) simp
    moreover have "unat (ucast off :: u64) = unat off" by (rule unat_ucast_up) simp
    moreover have "unat off < 2 ^ 64" using unat_u32_less [of off] by (simp del: unat_u32_less)
    ultimately show ?thesis by (simp add: unat_word_ariths)
  qed
  then have "(4 * ucast (off div 4) :: u64) = ucast off" by (rule word_unat_eq_iff [THEN iffD2])
  then show ?thesis by (simp add: elem_addr_def reg_addr_def)
qed

lemma elem_addr_regs [simp]:
  "elem_addr b LGNPU_REG_CTRL = reg_addr b LGNPU_REG_CTRL"
  "elem_addr b LGNPU_REG_STATUS = reg_addr b LGNPU_REG_STATUS"
  "elem_addr b LGNPU_REG_DOORBELL = reg_addr b LGNPU_REG_DOORBELL"
  "elem_addr b LGNPU_REG_IRQ_STATUS = reg_addr b LGNPU_REG_IRQ_STATUS"
  "elem_addr b LGNPU_REG_IRQ_ENABLE = reg_addr b LGNPU_REG_IRQ_ENABLE"
  "elem_addr b LGNPU_REG_IRQ_CLEAR = reg_addr b LGNPU_REG_IRQ_CLEAR"
  "elem_addr b LGNPU_REG_FEATURE_ID = reg_addr b LGNPU_REG_FEATURE_ID"
  "elem_addr b LGNPU_REG_PERF_CYCLES = reg_addr b LGNPU_REG_PERF_CYCLES"
  "elem_addr b LGNPU_REG_PERF_ACTIVE = reg_addr b LGNPU_REG_PERF_ACTIVE"
  "elem_addr b LGNPU_REG_PERF_STALL = reg_addr b LGNPU_REG_PERF_STALL"
  "elem_addr b LGNPU_REG_DMA_EXT_ADDR = reg_addr b LGNPU_REG_DMA_EXT_ADDR"
  "elem_addr b LGNPU_REG_DMA_LOC_ADDR = reg_addr b LGNPU_REG_DMA_LOC_ADDR"
  "elem_addr b LGNPU_REG_DMA_LEN = reg_addr b LGNPU_REG_DMA_LEN"
  "elem_addr b LGNPU_REG_DMA_CTRL = reg_addr b LGNPU_REG_DMA_CTRL"
  "elem_addr b LGNPU_REG_DMA_STATUS = reg_addr b LGNPU_REG_DMA_STATUS"
  "elem_addr b LGNPU_CMD_QUEUE_BASE = reg_addr b LGNPU_CMD_QUEUE_BASE"
  by (rule elem_addr_aligned, simp add: c_consts)+

lemma mmio_open [simp]:
  "base d = Some b \<Longrightarrow> npu_mmio_read bus d off s = Some (bus_read bus (elem_addr b off) s)"
  "base d = Some b \<Longrightarrow> npu_mmio_write bus d off v s = Some (bus_write bus (elem_addr b off) v s)"
  by (simp_all add: npu_mmio_read_def npu_mmio_write_def)

lemma mmio_closed [simp]:
  "base d = None \<Longrightarrow> npu_mmio_read bus d off s = None"
  "base d = None \<Longrightarrow> npu_mmio_write bus d off v s = None"
  by (simp_all add: npu_mmio_read_def npu_mmio_write_def)

section \<open>The descriptor loop\<close>

lemma ucast_of_small_nat: "k < 4294967296 \<Longrightarrow> (ucast (word_of_nat k :: u32) :: u64) = word_of_nat k"
  by (simp add: word_unat_eq_iff unat_ucast_up unat_of_nat)

lemma queue_loop:
  assumes "base d = Some b" and "length (words desc) = LGNPU_CMD_WORDS"
  shows "for_word 0 (word_of_nat LGNPU_CMD_WORDS) (queue_store bus d desc) s =
    Some (bus_writes bus (window_writes b (words desc)) s)"
proof -
  let ?st = "\<lambda>k. bus_write bus (reg_addr b LGNPU_CMD_QUEUE_BASE + 4 * word_of_nat k) (words desc ! k)"
  have "for_word 0 (word_of_nat LGNPU_CMD_WORDS) (queue_store bus d desc) s =
      foldM (\<lambda>k. queue_store bus d desc (word_of_nat k)) [0..<16] s"
    by (simp add: for_word_0_foldM)
  also have "\<dots> = foldM (\<lambda>k s. Some (?st k s)) [0..<16] s"
    using assms(1) by (intro foldM_cong) (auto simp: queue_store_def ucast_of_small_nat unat_of_nat)
  also have "\<dots> = Some (fold ?st [0..<16] s)" by (rule foldM_Some)
  also have "fold ?st [0..<16] s = bus_writes bus (window_writes b (words desc)) s"
    using assms(2) by (simp add: bus_writes_def window_writes_def fold_map comp_def)
  finally show ?thesis .
qed

lemma submit_writes:
  assumes "base d = Some b" and "length (words desc) = LGNPU_CMD_WORDS"
  shows "npu_submit bus (Some d) (Some desc) s =
    Some (0, bus_writes bus
      (window_writes b (words desc) @ [(reg_addr b LGNPU_REG_DOORBELL, 1)]) s)"
  using assms queue_loop [OF assms, of bus s] by (simp add: npu_submit_def)

lemma dma_ctrl_bits [simp]:
  "bit (dma_ctrl_word dir) 0" "bit (dma_ctrl_word dir) (Suc 0) \<longleftrightarrow> dir = LGNPU_DMA_FROM_DEVICE"
  by (simp_all add: dma_ctrl_word_def bit_1_iff bit_numeral_simps)

lemma dma_start_writes:
  assumes "base d = Some b"
  shows "npu_dma_start bus (Some d) (Some req) s = Some (0, bus_writes bus
     [(reg_addr b LGNPU_REG_DMA_EXT_ADDR, dma_req_ext_addr req),
      (reg_addr b LGNPU_REG_DMA_LOC_ADDR, ucast (dma_req_loc_addr req)),
      (reg_addr b LGNPU_REG_DMA_LEN, ucast (dma_req_len req)),
      (reg_addr b LGNPU_REG_DMA_CTRL, dma_ctrl_word (dma_req_dir req))] s)"
  using assms by (simp add: npu_dma_start_def dma_ctrl_word_def LGNPU_DMA_CTRL_START_def
      LGNPU_DMA_CTRL_DIR_def)

section \<open>The runtime on a device that keeps the bus contract\<close>

context command_device
begin

lemma submit_latches:
  assumes "npu_device.base d = Some mmio" and "length (words desc) = LGNPU_CMD_WORDS" and "live s"
  shows "\<exists>s'. npu_submit bus (Some d) (Some desc) s = Some (0, s') \<and>
    window s' = words desc \<and> rung s'"
  using assms
  by (simp add: submit_writes window_filled window_doorbell rung_doorbell live_filled)

end

context dma_device
begin

lemma dma_start_issues:
  assumes "npu_device.base d = Some mmio" and "live s"
  shows "\<exists>s'. npu_dma_start bus (Some d) (Some req) s = Some (0, s') \<and>
    req_issued s' = Some (dma_req_ext_addr req, ucast (dma_req_loc_addr req), dma_req_len req,
      dma_req_dir req = LGNPU_DMA_FROM_DEVICE)"
  using assms dma_request [OF assms(2), of "dma_ctrl_word (dma_req_dir req)"]
  by (simp add: dma_start_writes)

end


section \<open>Bits of register values\<close>

lemmas runtime_defs = npu_reset_def npu_enable_def npu_read_status_def npu_read_info_def
  npu_poll_idle_def npu_dma_poll_def npu_irq_enable_def npu_irq_disable_def npu_irq_clear_def
  npu_irq_pending_def npu_perf_read_cycles_def npu_perf_read_active_def npu_perf_read_stall_def
  npu_submit_def npu_dma_start_def

text \<open>The C idiom \<open>(val >> 24) & 0xFF\<close> and its companions cut the register into six fields.\<close>

lemma ucast_field8: "ucast (ucast (x AND 255) :: u8) = take_bit 8 x" for x :: u32
proof -
  have m: "(255 :: u32) = mask 8" by (simp add: mask_eq_exp_minus_1)
  show ?thesis unfolding m by (rule bit_word_eqI) (auto simp: bit_simps)
qed

lemma ucast_field4: "ucast (ucast (x AND 15) :: u8) = take_bit 4 x" for x :: u32
proof -
  have m: "(15 :: u32) = mask 4" by (simp add: mask_eq_exp_minus_1)
  show ?thesis unfolding m by (rule bit_word_eqI) (auto simp: bit_simps)
qed

lemma field_chunk:
  "push_bit k (take_bit m (drop_bit k v)) OR take_bit k v = take_bit (k + m) v" for v :: u32
  by (rule bit_word_eqI) (auto simp: bit_simps)

lemma feature_fields:
  fixes v :: u32
  shows "push_bit 24 (ucast (ucast (drop_bit 24 v AND 255) :: u8)) OR
    push_bit 16 (ucast (ucast (drop_bit 16 v AND 255) :: u8)) OR
    push_bit 12 (ucast (ucast (drop_bit 12 v AND 15) :: u8)) OR
    push_bit 8 (ucast (ucast (drop_bit 8 v AND 15) :: u8)) OR
    push_bit 4 (ucast (ucast (drop_bit 4 v AND 15) :: u8)) OR
    ucast (ucast (v AND 15) :: u8) = v"
  unfolding ucast_field8 ucast_field4 field_chunk
  by (simp only: field_chunk add_num_simps arith_simps) (rule bit_word_eqI, simp add: bit_simps)

lemma nibble_bound: "(ucast (v AND 15 :: u32) :: u8) < 16"
proof -
  have "unat (v AND 15) \<le> unat (15 :: u32)" by (meson word_and_le1 word_le_nat_alt)
  then show ?thesis by (simp add: word_less_nat_alt unsigned_ucast_eq take_bit_nat_eq_self)
qed

section \<open>Open and closed handles\<close>

lemma poll_open: "base d = Some b \<Longrightarrow>
   poll_word 0 t (\<lambda>s. npu_mmio_read bus d off s \<bind> (\<lambda>(v, s). Some (P v, s))) s =
     Some (if \<exists>k < unat t. P (bus_value bus (elem_addr b off) k s)
           then (True, bus_reads bus (elem_addr b off)
                  (Suc (LEAST k. P (bus_value bus (elem_addr b off) k s))) s)
           else (False, bus_reads bus (elem_addr b off) (unat t) s))" for t :: u32
  using poll_n_register [of "unat t" P bus "elem_addr b off" s]
  by (simp add: poll_word_0 split_def)

lemma poll_closed: "base d = None \<Longrightarrow>
   poll_word 0 t (\<lambda>s. npu_mmio_read bus d off s \<bind> f) s =
     (if t = 0 then Some (False, s) else None)" for t :: u32
  by (cases "unat t") (auto simp: poll_word_0)

lemma queue_loop_open: "base d = Some b \<Longrightarrow>
   \<exists>s'. for_word 0 n (queue_store bus d desc) s = Some s'"
proof -
  assume "base d = Some b"
  then have "queue_store bus d desc = (\<lambda>i s. Some (bus_write bus
      (elem_addr b LGNPU_CMD_QUEUE_BASE + 4 * ucast i) (words desc ! unat i) s))"
    by (intro ext) (simp add: queue_store_def)
  then show ?thesis by (simp add: for_word_0_foldM foldM_Some)
qed

lemma queue_loop_closed: "base d = None \<Longrightarrow>
   for_word 0 (word_of_nat LGNPU_CMD_WORDS) (queue_store bus d desc) s = None"
  by (simp add: for_word.simps queue_store_def)

section \<open>Properties\<close>

text \<open>On an open device \<open>npu_submit\<close> performs exactly seventeen bus writes and nothing
  else: the sixteen descriptor words into the command window, word 0 first, and then the
  doorbell; it returns 0.\<close>

theorem npu_submit_bus_trace:
  assumes "base d = Some b" and "length (words desc) = LGNPU_CMD_WORDS"
  shows "npu_submit bus (Some d) (Some desc) s =
    Some (0, bus_writes bus
      (map (\<lambda>i. (b + 0x1000 + 4 * word_of_nat i, words desc ! i)) [0..<16] @ [(b + 8, 1)]) s)"
  using submit_writes [OF assms, of bus s] assms(2)
  by (simp add: window_writes_def reg_addr_def LGNPU_CMD_QUEUE_BASE_def LGNPU_REG_DOORBELL_def)

theorem npu_submit_bus_trace_witness:
  "npu_submit (trace_bus 0) (Some \<lparr>base = Some 0x40000000\<rparr>) (Some \<lparr>words = replicate 16 7\<rparr>) [] =
    Some (0, bus_writes (trace_bus 0)
      (map (\<lambda>i. (0x40000000 + 0x1000 + 4 * word_of_nat i, words \<lparr>words = replicate 16 7\<rparr> ! i))
        [0..<16] @ [(0x40000000 + 8, 1)]) [])"
  by (rule npu_submit_bus_trace) simp_all

text \<open>\<open>npu_poll_idle\<close> on an open device reads STATUS at most \<open>timeout_cycles\<close> times.  It
  returns 0 exactly when one of these reads shows IDLE set and BUSY clear, right after the
  first such read; otherwise it returns -1 after all of them.\<close>

theorem npu_poll_idle_spec:
  "npu_poll_idle bus (Some \<lparr>base = Some b\<rparr>) timeout_cycles s =
    Some (if \<exists>k < unat timeout_cycles. bit (bus_value bus (b + 4) k s) 0 \<and>
               \<not> bit (bus_value bus (b + 4) k s) 1
          then (0, bus_reads bus (b + 4)
                  (Suc (LEAST k. bit (bus_value bus (b + 4) k s) 0 \<and>
                     \<not> bit (bus_value bus (b + 4) k s) 1)) s)
          else (-1, bus_reads bus (b + 4) (unat timeout_cycles) s))"
proof -
  have a: "elem_addr b LGNPU_REG_STATUS = b + 4"
    by (simp only: elem_addr_regs) (simp add: reg_addr_def LGNPU_REG_STATUS_def)
  have t: "v AND LGNPU_STATUS_IDLE \<noteq> 0 \<and> \<not> v AND LGNPU_STATUS_BUSY \<noteq> 0 \<longleftrightarrow>
      bit v 0 \<and> \<not> bit v 1" for v
    unfolding LGNPU_STATUS_IDLE_def LGNPU_STATUS_BUSY_def and_bit_test ..
  show ?thesis unfolding npu_poll_idle_def option.case t poll_open [OF npu_device.select_convs(1)] a
    by auto
qed

text \<open>\<open>npu_dma_poll\<close> has the same form over the BUSY bit of DMA_STATUS: 0 right after the
  first read that shows it clear, -1 when all \<open>timeout_cycles\<close> reads show it set.\<close>

lemma npu_dma_poll_spec:
  "npu_dma_poll bus (Some \<lparr>base = Some b\<rparr>) timeout_cycles s =
    Some (if \<exists>k < unat timeout_cycles. \<not> bit (bus_value bus (b + 0x40) k s) 0
          then (0, bus_reads bus (b + 0x40)
                  (Suc (LEAST k. \<not> bit (bus_value bus (b + 0x40) k s) 0)) s)
          else (-1, bus_reads bus (b + 0x40) (unat timeout_cycles) s))"
proof -
  have a: "elem_addr b LGNPU_REG_DMA_STATUS = b + 0x40"
    by (simp only: elem_addr_regs) (simp add: reg_addr_def LGNPU_REG_DMA_STATUS_def)
  have t: "\<not> v AND LGNPU_DMA_STATUS_BUSY \<noteq> 0 \<longleftrightarrow> \<not> bit v 0" for v
    unfolding LGNPU_DMA_STATUS_BUSY_def and_bit_test ..
  show ?thesis unfolding npu_dma_poll_def option.case t poll_open [OF npu_device.select_convs(1)] a
    by auto
qed

text \<open>\<open>npu_read_info\<close> splits FEATURE_ID without loss: the six fields it stores reassemble
  to the register value, and the four nibble fields are below 16.\<close>

theorem npu_read_info_roundtrip:
  "\<exists>i. npu_read_info bus (Some \<lparr>base = Some b\<rparr>) (Some out) s =
      Some (0, Some i, snd (bus_read bus (b + 0x18) s)) \<and>
    push_bit 24 (ucast (version_major i)) OR push_bit 16 (ucast (version_minor i)) OR
    push_bit 12 (ucast (num_backends i)) OR push_bit 8 (ucast (array_rows i)) OR
    push_bit 4 (ucast (array_cols i)) OR ucast (dtypes_supported i) =
      fst (bus_read bus (b + 0x18) s) \<and>
    num_backends i < 16 \<and> array_rows i < 16 \<and> array_cols i < 16 \<and> dtypes_supported i < 16"
proof -
  have "reg_addr b LGNPU_REG_FEATURE_ID = b + 0x18"
    by (simp add: reg_addr_def LGNPU_REG_FEATURE_ID_def)
  then show ?thesis
    by (simp add: npu_read_info_def split_def feature_fields nibble_bound)
qed

text \<open>A NULL handle is refused by every call without touching the bus: the control, poll,
  submit and DMA calls return -1, the interrupt query and the counters return 0; a NULL
  out-pointer, descriptor or request is refused in the same way.\<close>

lemma runtime_null_arguments:
  "npu_reset bus None s = Some (-1, s) \<and> npu_enable bus None s = Some (-1, s) \<and>
   npu_read_status bus None st s = Some (-1, st, s) \<and>
   npu_read_status bus dev None s = Some (-1, None, s) \<and>
   npu_read_info bus None info s = Some (-1, info, s) \<and>
   npu_read_info bus dev None s = Some (-1, None, s) \<and>
   npu_poll_idle bus None t s = Some (-1, s) \<and> npu_dma_poll bus None t s = Some (-1, s) \<and>
   npu_irq_enable bus None s = Some (-1, s) \<and> npu_irq_disable bus None s = Some (-1, s) \<and>
   npu_irq_clear bus None s = Some (-1, s) \<and> npu_irq_pending bus None s = Some (0, s) \<and>
   npu_perf_read_cycles bus None s = Some (0, s) \<and> npu_perf_read_active bus None s = Some (0, s) \<and>
   npu_perf_read_stall bus None s = Some (0, s) \<and>
   npu_submit bus None desc s = Some (-1, s) \<and> npu_submit bus dev None s = Some (-1, s) \<and>
   npu_dma_start bus None req s = Some (-1, s) \<and> npu_dma_start bus dev None s = Some (-1, s)"
  by (cases dev) (simp_all add: runtime_defs)

text \<open>C40: A handle is usable between \<open>npu_open\<close> and \<open>npu_close\<close> only.  Opening a handle with a
  mapped base succeeds and then each of the fifteen calls that touch the device, with its
  other argument not NULL, is defined; opening with a NULL base fails and changes nothing.  Closing succeeds, and
  afterwards each of the fifteen dereferences the NULL base, because only the handle is
  checked (the two polls do so unless their timeout is 0).\<close>

theorem runtime_lifecycle:
  "let opened = snd (npu_open (Some d) (Some b)); closed = snd (npu_close (Some d))
   in npu_open (Some d) (Some b) = (0, Some (d\<lparr>base := Some b\<rparr>)) \<and>
     npu_open (Some d) None = (-1, Some d) \<and> fst (npu_close (Some d)) = 0 \<and>
     npu_reset bus opened s \<noteq> None \<and>
     npu_enable bus opened s \<noteq> None \<and>
     npu_irq_enable bus opened s \<noteq> None \<and>
     npu_irq_disable bus opened s \<noteq> None \<and>
     npu_irq_clear bus opened s \<noteq> None \<and>
     npu_irq_pending bus opened s \<noteq> None \<and>
     npu_perf_read_cycles bus opened s \<noteq> None \<and>
     npu_perf_read_active bus opened s \<noteq> None \<and>
     npu_perf_read_stall bus opened s \<noteq> None \<and>
     npu_read_status bus opened (Some st) s \<noteq> None \<and>
     npu_read_info bus opened (Some nfo) s \<noteq> None \<and>
     npu_submit bus opened (Some desc) s \<noteq> None \<and>
     npu_dma_start bus opened (Some req) s \<noteq> None \<and>
     npu_poll_idle bus opened t s \<noteq> None \<and> npu_dma_poll bus opened t s \<noteq> None \<and>
     npu_reset bus closed s = None \<and>
     npu_enable bus closed s = None \<and>
     npu_irq_enable bus closed s = None \<and>
     npu_irq_disable bus closed s = None \<and>
     npu_irq_clear bus closed s = None \<and>
     npu_irq_pending bus closed s = None \<and>
     npu_perf_read_cycles bus closed s = None \<and>
     npu_perf_read_active bus closed s = None \<and>
     npu_perf_read_stall bus closed s = None \<and>
     npu_read_status bus closed (Some st) s = None \<and>
     npu_read_info bus closed (Some nfo) s = None \<and>
     npu_submit bus closed (Some desc) s = None \<and>
     npu_dma_start bus closed (Some req) s = None \<and>
     (npu_poll_idle bus closed t s = None \<longleftrightarrow> t \<noteq> 0) \<and> (npu_dma_poll bus closed t s = None \<longleftrightarrow> t \<noteq> 0)"
proof -
  define d1 where "d1 = d\<lparr>base := Some b\<rparr>"
  define d0 where "d0 = d\<lparr>base := None\<rparr>"
  have b: "base d1 = Some b" "base d0 = None" by (simp_all add: d1_def d0_def)
  have op: "npu_open (Some d) (Some b) = (0, Some d1)" "npu_close (Some d) = (0, Some d0)"
    by (simp_all add: npu_open_def npu_close_def d1_def d0_def)
  have "npu_poll_idle bus (Some d1) t s \<noteq> None" "npu_dma_poll bus (Some d1) t s \<noteq> None"
    unfolding npu_poll_idle_def npu_dma_poll_def option.case poll_open [OF b(1)] by simp_all
  moreover have "npu_poll_idle bus (Some d0) t s = None \<longleftrightarrow> t \<noteq> 0"
    "npu_dma_poll bus (Some d0) t s = None \<longleftrightarrow> t \<noteq> 0"
    unfolding npu_poll_idle_def npu_dma_poll_def option.case poll_closed [OF b(2)] by simp_all
  ultimately show ?thesis
    unfolding op snd_conv fst_conv Let_def
    using queue_loop_open [OF b(1), of 16 bus desc s] queue_loop_closed [OF b(2), of bus desc s] b
    by (auto simp: npu_submit_def npu_dma_start_def npu_reset_def npu_enable_def npu_read_status_def
      npu_read_info_def npu_irq_enable_def npu_irq_disable_def npu_irq_clear_def npu_irq_pending_def
      npu_perf_read_cycles_def npu_perf_read_active_def npu_perf_read_stall_def npu_open_def d1_def split_def)
qed

end
