(* ===== verification/Npu_Driver.thy ===== *)
theory Npu_Driver
  imports Npu_Mmio
begin

text \<open>
  The kernel driver, \<open>sw/driver\<close>: register and buffer accessors (\<open>npu_mmio.h\<close>), reset and
  bring-up (\<open>npu_reset.c\<close>), interrupts (\<open>npu_irq.c\<close>), DMA (\<open>npu_dma.c\<close>), command submission
  (\<open>npu_queue.c\<close>), the ioctl switch, probe and remove (\<open>npu_drv.c\<close>).  Each function is one
  sequential run against the bus; the interleaving of several callers with the interrupt
  handler is the subject of the theory of concurrent runs.  Kernel services whose code is not
  part of the repository are fields of the records \<open>kernel\<close> and \<open>platform\<close>.  A function returns
  \<^term>\<open>None\<close> where the running thread would block for ever on a lock it already holds.
\<close>

section \<open>State (\<open>lgnpu_drv.h\<close>)\<close>

definition LGNPU_DRV_NAME :: string where [c_consts]: "LGNPU_DRV_NAME = ''lgnpu''"

text \<open>The private device structure.  A mutex or spinlock is whether it is held, a completion is
  its count; \<open>miscdev\<close> is the name once it is filled in.\<close>

record lgnpu_device =
  dev :: u64
  regs :: u64
  irq :: int
  miscdev :: "string option"
  cmd_lock :: bool
  cmd_done :: nat
  irq_lock :: bool
  feature_id :: u32

text \<open>What a running driver function can change: the device structure and the hardware.\<close>

record 's drv =
  npu :: lgnpu_device
  hw :: 's

section \<open>User interface (\<open>lgnpu_uapi.h\<close>)\<close>

record lgnpu_ioctl_status =
  st_idle :: u32
  st_busy :: u32
  st_queue_full :: u32

record lgnpu_ioctl_info =
  info_version_major :: u8
  info_version_minor :: u8
  info_num_backends :: u8
  info_array_rows :: u8
  info_array_cols :: u8
  info_dtypes_supported :: u8
  info_pad :: "u8 list"

record lgnpu_ioctl_submit =
  sub_words :: "u32 list"

record lgnpu_ioctl_dma =
  dma_ext_addr :: u32
  dma_loc_addr :: u32
  dma_len :: u32
  dma_dir :: u32

record lgnpu_ioctl_perf =
  perf_cycles :: u32
  perf_active :: u32
  perf_stall :: u32

datatype ioctl_out =
    OutStatus lgnpu_ioctl_status
  | OutInfo lgnpu_ioctl_info
  | OutPerf lgnpu_ioctl_perf

definition LGNPU_IOC_MAGIC :: u8 where [c_consts]: "LGNPU_IOC_MAGIC = 0x4C"

section \<open>Kernel services\<close>

text \<open>Services the driver calls: the busy wait, the completion wait (milliseconds; it returns the
  remaining jiffies, 0 on timeout, or a negative error), user-memory access (the words read, or
  a fault; whether a store of so many bytes is possible), and the \<open>_IO\<close>, \<open>_IOR\<close>, \<open>_IOW\<close> number
  encodings.\<close>

record 's kernel =
  udelay :: "u32 \<Rightarrow> 's \<Rightarrow> 's"
  wait_for_completion_interruptible_timeout :: "u32 \<Rightarrow> 's drv \<Rightarrow> int \<times> 's drv"
  copy_from_user :: "u64 \<Rightarrow> nat \<Rightarrow> u32 list option"
  copy_to_user_ok :: "u64 \<Rightarrow> nat \<Rightarrow> bool"
  IO :: "u8 \<Rightarrow> u8 \<Rightarrow> u32"
  IOR :: "u8 \<Rightarrow> u8 \<Rightarrow> nat \<Rightarrow> u32"
  IOW :: "u8 \<Rightarrow> u8 \<Rightarrow> nat \<Rightarrow> u32"

text \<open>Platform services used by probe: the allocation, the register mapping (an error or the
  address), the interrupt number or error, the results of requesting it and of registering the
  device node.\<close>

record platform =
  pdev_dev :: u64
  devm_kzalloc_ok :: bool
  devm_platform_ioremap_resource :: "int + u64"
  platform_get_irq :: int
  devm_request_irq :: "int \<Rightarrow> int"
  misc_register :: int

definition EBUSY :: int where [c_consts]: "EBUSY = 16"

definition ETIMEDOUT :: int where [c_consts]: "ETIMEDOUT = 110"

definition EFAULT :: int where [c_consts]: "EFAULT = 14"

definition EINVAL :: int where [c_consts]: "EINVAL = 22"

definition ENOTTY :: int where [c_consts]: "ENOTTY = 25"

definition ENODEV :: int where [c_consts]: "ENODEV = 19"

definition ENOMEM :: int where [c_consts]: "ENOMEM = 12"

definition mutex_lock :: "'s drv \<Rightarrow> 's drv option" where
  "mutex_lock st = (if cmd_lock (npu st) then None
     else Some (st\<lparr>npu := (npu st)\<lparr>cmd_lock := True\<rparr>\<rparr>))"

definition mutex_unlock :: "'s drv \<Rightarrow> 's drv" where
  "mutex_unlock st = st\<lparr>npu := (npu st)\<lparr>cmd_lock := False\<rparr>\<rparr>"

definition spin_lock :: "'s drv \<Rightarrow> 's drv option" where
  "spin_lock st = (if irq_lock (npu st) then None
     else Some (st\<lparr>npu := (npu st)\<lparr>irq_lock := True\<rparr>\<rparr>))"

definition spin_unlock :: "'s drv \<Rightarrow> 's drv" where
  "spin_unlock st = st\<lparr>npu := (npu st)\<lparr>irq_lock := False\<rparr>\<rparr>"

definition reinit_completion :: "'s drv \<Rightarrow> 's drv" where
  "reinit_completion st = st\<lparr>npu := (npu st)\<lparr>cmd_done := 0\<rparr>\<rparr>"

definition complete :: "'s drv \<Rightarrow> 's drv" where
  "complete st = st\<lparr>npu := (npu st)\<lparr>cmd_done := Suc (cmd_done (npu st))\<rparr>\<rparr>"

section \<open>Accessors (\<open>npu_mmio.h\<close>)\<close>

definition lgnpu_reg_read :: "'s bus \<Rightarrow> u32 \<Rightarrow> 's drv \<Rightarrow> u32 \<times> 's drv" where
  "lgnpu_reg_read bus offset st =
     (let (v, s) = bus_read bus (reg_addr (regs (npu st)) offset) (hw st) in (v, st\<lparr>hw := s\<rparr>))"

definition lgnpu_reg_write :: "'s bus \<Rightarrow> u32 \<Rightarrow> u32 \<Rightarrow> 's drv \<Rightarrow> 's drv" where
  "lgnpu_reg_write bus offset val st =
     st\<lparr>hw := bus_write bus (reg_addr (regs (npu st)) offset) val (hw st)\<rparr>"

text \<open>\<open>memcpy_toio\<close> and \<open>memcpy_fromio\<close> of \<open>count\<close> words, in ascending order.\<close>

definition lgnpu_buf_write :: "'s bus \<Rightarrow> u32 \<Rightarrow> u32 list \<Rightarrow> u32 \<Rightarrow> 's drv \<Rightarrow> 's drv" where
  "lgnpu_buf_write bus offset data count st =
     st\<lparr>hw := fold (\<lambda>i. bus_write bus (reg_addr (regs (npu st)) offset + 4 * word_of_nat i) (data ! i))
        [0..<unat count] (hw st)\<rparr>"

definition lgnpu_buf_read :: "'s bus \<Rightarrow> u32 \<Rightarrow> u32 \<Rightarrow> 's drv \<Rightarrow> u32 list \<times> 's drv" where
  "lgnpu_buf_read bus offset count st =
     (let (data, s) = fold (\<lambda>i (data, s).
          let (v, s) = bus_read bus (reg_addr (regs (npu st)) offset + 4 * word_of_nat i) s
          in (data @ [v], s)) [0..<unat count] ([], hw st)
      in (data, st\<lparr>hw := s\<rparr>))"

section \<open>Reset and bring-up (\<open>npu_reset.c\<close>)\<close>

definition lgnpu_hw_reset :: "'s kernel \<Rightarrow> 's bus \<Rightarrow> 's drv \<Rightarrow> int \<times> 's drv" where
  "lgnpu_hw_reset kern bus st =
     (let st = lgnpu_reg_write bus LGNPU_REG_CTRL LGNPU_CTRL_SOFT_RESET st;
          st = st\<lparr>hw := udelay kern 1 (hw st)\<rparr>
      in (0, st))"

definition lgnpu_hw_enable :: "'s bus \<Rightarrow> 's drv \<Rightarrow> int \<times> 's drv" where
  "lgnpu_hw_enable bus st = (0, lgnpu_reg_write bus LGNPU_REG_CTRL LGNPU_CTRL_ENABLE st)"

definition lgnpu_hw_init :: "'s kernel \<Rightarrow> 's bus \<Rightarrow> 's drv \<Rightarrow> int \<times> 's drv" where
  "lgnpu_hw_init kern bus st =
     (let (ret, st) = lgnpu_hw_reset kern bus st
      in if ret \<noteq> 0 then (ret, st)
         else let (ret, st) = lgnpu_hw_enable bus st
              in if ret \<noteq> 0 then (ret, st)
                 else let (v, st) = lgnpu_reg_read bus LGNPU_REG_FEATURE_ID st;
                          st = st\<lparr>npu := (npu st)\<lparr>feature_id := v\<rparr>\<rparr>
                      in if feature_id (npu st) = 0 then (- ENODEV, st) else (0, st))"

section \<open>Interrupts (\<open>npu_irq.c\<close>)\<close>

datatype irqreturn_t = IRQ_NONE | IRQ_HANDLED

text \<open>The mask \<open>LGNPU_IRQ_STATUS_PENDING\<close> the handler names is defined nowhere in the sources
  and is an argument.\<close>

definition lgnpu_irq_handler ::
  "u32 \<Rightarrow> 's bus \<Rightarrow> 's drv \<Rightarrow> (irqreturn_t \<times> 's drv) option" where
  "lgnpu_irq_handler IRQ_STATUS_PENDING bus st = do {
     st \<leftarrow> spin_lock st;
     let (status, st) = lgnpu_reg_read bus LGNPU_REG_IRQ_STATUS st;
     if status AND IRQ_STATUS_PENDING = 0 then Some (IRQ_NONE, spin_unlock st)
     else do {
       let st = lgnpu_reg_write bus LGNPU_REG_IRQ_CLEAR IRQ_STATUS_PENDING st;
       let st = spin_unlock st;
       Some (IRQ_HANDLED, complete st) } }"

definition lgnpu_irq_init :: "platform \<Rightarrow> 's drv \<Rightarrow> int \<times> 's drv" where
  "lgnpu_irq_init pdev st =
     (let i = platform_get_irq pdev
      in if i < 0 then (i, st)
         else let ret = devm_request_irq pdev i
              in if ret \<noteq> 0 then (ret, st) else (0, st\<lparr>npu := (npu st)\<lparr>irq := i\<rparr>\<rparr>))"

definition lgnpu_irq_enable :: "'s bus \<Rightarrow> 's drv \<Rightarrow> 's drv option" where
  "lgnpu_irq_enable bus st = do {
     st \<leftarrow> spin_lock st;
     let st = lgnpu_reg_write bus LGNPU_REG_IRQ_ENABLE 1 st;
     Some (spin_unlock st) }"

definition lgnpu_irq_disable :: "'s bus \<Rightarrow> 's drv \<Rightarrow> 's drv option" where
  "lgnpu_irq_disable bus st = do {
     st \<leftarrow> spin_lock st;
     let st = lgnpu_reg_write bus LGNPU_REG_IRQ_ENABLE 0 st;
     Some (spin_unlock st) }"

section \<open>DMA (\<open>npu_dma.c\<close>)\<close>

definition lgnpu_dma_transfer ::
  "'s kernel \<Rightarrow> 's bus \<Rightarrow> u32 \<Rightarrow> u32 \<Rightarrow> u32 \<Rightarrow> u32 \<Rightarrow> 's drv \<Rightarrow> (int \<times> 's drv) option" where
  "lgnpu_dma_transfer kern bus ext_addr loc_addr len dir st = do {
     st \<leftarrow> mutex_lock st;
     let st = lgnpu_reg_write bus LGNPU_REG_DMA_EXT_ADDR ext_addr st;
     let st = lgnpu_reg_write bus LGNPU_REG_DMA_LOC_ADDR loc_addr st;
     let st = lgnpu_reg_write bus LGNPU_REG_DMA_LEN len st;
     let ctl = LGNPU_DMA_CTRL_START;
     let ctl = (if dir = LGNPU_DMA_FROM_DEVICE then ctl OR LGNPU_DMA_CTRL_DIR else ctl);
     let st = lgnpu_reg_write bus LGNPU_REG_DMA_CTRL ctl st;
     (found, st) \<leftarrow> poll_word 0 LGNPU_DMA_POLL_ITERS
        (\<lambda>st. let (v, st) = lgnpu_reg_read bus LGNPU_REG_DMA_STATUS st
              in if v AND LGNPU_DMA_STATUS_BUSY = 0 then Some (True, st)
                 else Some (False, st\<lparr>hw := udelay kern LGNPU_DMA_POLL_US (hw st)\<rparr>)) st;
     if found then do {
       let st = lgnpu_reg_write bus LGNPU_REG_IRQ_CLEAR LGNPU_STATUS_PENDING st;
       Some (0, mutex_unlock st) }
     else Some (- ETIMEDOUT, mutex_unlock st) }"

section \<open>Command submission (\<open>npu_queue.c\<close>)\<close>

definition lgnpu_cmd_submit ::
  "'s kernel \<Rightarrow> 's bus \<Rightarrow> u32 list \<Rightarrow> 's drv \<Rightarrow> (int \<times> 's drv) option" where
  "lgnpu_cmd_submit kern bus ws st = do {
     st \<leftarrow> mutex_lock st;
     let (status, st) = lgnpu_reg_read bus LGNPU_REG_STATUS st;
     if status AND LGNPU_STATUS_QUEUE_FULL \<noteq> 0 then Some (- EBUSY, mutex_unlock st)
     else do {
       let st = lgnpu_buf_write bus LGNPU_CMD_QUEUE_BASE ws (word_of_nat LGNPU_CMD_WORDS) st;
       let st = reinit_completion st;
       st \<leftarrow> lgnpu_irq_enable bus st;
       let st = lgnpu_reg_write bus LGNPU_REG_DOORBELL 1 st;
       let (timeout, st) = wait_for_completion_interruptible_timeout kern LGNPU_CMD_TIMEOUT_MS st;
       st \<leftarrow> lgnpu_irq_disable bus st;
       let st = mutex_unlock st;
       if timeout = 0 then Some (- ETIMEDOUT, st)
       else if timeout < 0 then Some (timeout, st)
       else Some (0, st) } }"

section \<open>The ioctl switch, probe and remove (\<open>npu_drv.c\<close>)\<close>

definition LGNPU_IOCTL_RESET :: "'s kernel \<Rightarrow> u32" where
  "LGNPU_IOCTL_RESET kern = IO kern LGNPU_IOC_MAGIC 0"

definition LGNPU_IOCTL_ENABLE :: "'s kernel \<Rightarrow> u32" where
  "LGNPU_IOCTL_ENABLE kern = IO kern LGNPU_IOC_MAGIC 1"

definition LGNPU_IOCTL_STATUS :: "'s kernel \<Rightarrow> u32" where
  "LGNPU_IOCTL_STATUS kern = IOR kern LGNPU_IOC_MAGIC 2 12"

definition LGNPU_IOCTL_INFO :: "'s kernel \<Rightarrow> u32" where
  "LGNPU_IOCTL_INFO kern = IOR kern LGNPU_IOC_MAGIC 3 8"

definition LGNPU_IOCTL_SUBMIT :: "'s kernel \<Rightarrow> u32" where
  "LGNPU_IOCTL_SUBMIT kern = IOW kern LGNPU_IOC_MAGIC 4 64"

definition LGNPU_IOCTL_DMA_XFER :: "'s kernel \<Rightarrow> u32" where
  "LGNPU_IOCTL_DMA_XFER kern = IOW kern LGNPU_IOC_MAGIC 5 16"

definition LGNPU_IOCTL_PERF :: "'s kernel \<Rightarrow> u32" where
  "LGNPU_IOCTL_PERF kern = IOR kern LGNPU_IOC_MAGIC 6 12"

text \<open>\<open>copy_to_user\<close> of an object of so many bytes, then the return value: what arrived in user
  memory, if anything.\<close>

definition put_user ::
  "'s kernel \<Rightarrow> u64 \<Rightarrow> nat \<Rightarrow> ioctl_out \<Rightarrow> 's drv \<Rightarrow> int \<times> ioctl_out option \<times> 's drv" where
  "put_user kern uptr n x st =
     (if copy_to_user_ok kern uptr n then (0, Some x, st) else (- EFAULT, None, st))"

definition info_of_feature_id :: "u32 \<Rightarrow> lgnpu_ioctl_info" where
  "info_of_feature_id val =
     \<lparr>info_version_major = ucast (drop_bit 24 val AND 0xFF),
      info_version_minor = ucast (drop_bit 16 val AND 0xFF),
      info_num_backends = ucast (drop_bit 12 val AND 0x0F),
      info_array_rows = ucast (drop_bit 8 val AND 0x0F),
      info_array_cols = ucast (drop_bit 4 val AND 0x0F),
      info_dtypes_supported = ucast (val AND 0x0F),
      info_pad = [0, 0]\<rparr>"

definition lgnpu_ioctl ::
  "'s kernel \<Rightarrow> 's bus \<Rightarrow> u32 \<Rightarrow> u64 \<Rightarrow> 's drv \<Rightarrow> (int \<times> ioctl_out option \<times> 's drv) option" where
  "lgnpu_ioctl kern bus cmd uptr st =
     (if cmd = LGNPU_IOCTL_RESET kern then
        let (r, st) = lgnpu_hw_reset kern bus st in Some (r, None, st)
      else if cmd = LGNPU_IOCTL_ENABLE kern then
        let (r, st) = lgnpu_hw_enable bus st in Some (r, None, st)
      else if cmd = LGNPU_IOCTL_STATUS kern then
        let (val, st) = lgnpu_reg_read bus LGNPU_REG_STATUS st
        in Some (put_user kern uptr 12 (OutStatus
             \<lparr>st_idle = of_bool (val AND LGNPU_STATUS_IDLE \<noteq> 0),
              st_busy = of_bool (val AND LGNPU_STATUS_BUSY \<noteq> 0),
              st_queue_full = of_bool (val AND LGNPU_STATUS_QUEUE_FULL \<noteq> 0)\<rparr>) st)
      else if cmd = LGNPU_IOCTL_INFO kern then
        Some (put_user kern uptr 8 (OutInfo (info_of_feature_id (feature_id (npu st)))) st)
      else if cmd = LGNPU_IOCTL_SUBMIT kern then
        (case copy_from_user kern uptr 64 of
           None \<Rightarrow> Some (- EFAULT, None, st)
         | Some ws \<Rightarrow> do {
             (r, st) \<leftarrow> lgnpu_cmd_submit kern bus ws st;
             Some (r, None, st) })
      else if cmd = LGNPU_IOCTL_DMA_XFER kern then
        (case copy_from_user kern uptr 16 of
           None \<Rightarrow> Some (- EFAULT, None, st)
         | Some ws \<Rightarrow>
             let dma = \<lparr>dma_ext_addr = ws ! 0, dma_loc_addr = ws ! 1, dma_len = ws ! 2,
                        dma_dir = ws ! 3\<rparr>
             in if dma_dir dma > LGNPU_DMA_FROM_DEVICE then Some (- EINVAL, None, st)
                else do {
                  (r, st) \<leftarrow> lgnpu_dma_transfer kern bus (dma_ext_addr dma) (dma_loc_addr dma)
                               (dma_len dma) (dma_dir dma) st;
                  Some (r, None, st) })
      else if cmd = LGNPU_IOCTL_PERF kern then
        let (cycles, st) = lgnpu_reg_read bus LGNPU_REG_PERF_CYCLES st;
            (active, st) = lgnpu_reg_read bus LGNPU_REG_PERF_ACTIVE st;
            (stall, st) = lgnpu_reg_read bus LGNPU_REG_PERF_STALL st
        in Some (put_user kern uptr 12 (OutPerf
             \<lparr>perf_cycles = cycles, perf_active = active, perf_stall = stall\<rparr>) st)
      else Some (- ENOTTY, None, st))"

definition lgnpu_mmio_init :: "platform \<Rightarrow> 's drv \<Rightarrow> int \<times> 's drv" where
  "lgnpu_mmio_init pdev st = (case devm_platform_ioremap_resource pdev of
     Inl e \<Rightarrow> (e, st\<lparr>npu := (npu st)\<lparr>regs := word_of_int e\<rparr>\<rparr>)
   | Inr a \<Rightarrow> (0, st\<lparr>npu := (npu st)\<lparr>regs := a\<rparr>\<rparr>))"

text \<open>What probe leaves behind: the driver data, whether the device node exists.\<close>

record 's host =
  drvdata :: "lgnpu_device option"
  misc_node :: bool
  host_hw :: 's

definition host_of :: "'s drv \<Rightarrow> bool \<Rightarrow> 's host" where
  "host_of st node = \<lparr>drvdata = Some (npu st), misc_node = node, host_hw = hw st\<rparr>"

definition lgnpu_probe :: "'s kernel \<Rightarrow> 's bus \<Rightarrow> platform \<Rightarrow> 's host \<Rightarrow> int \<times> 's host" where
  "lgnpu_probe kern bus pdev h =
     (if \<not> devm_kzalloc_ok pdev then (- ENOMEM, h)
      else
        let n = \<lparr>dev = pdev_dev pdev, regs = 0, irq = 0, miscdev = None, cmd_lock = False,
                 cmd_done = 0, irq_lock = False, feature_id = 0\<rparr>;
            st = \<lparr>npu = n, hw = host_hw h\<rparr>;
            (ret, st) = lgnpu_mmio_init pdev st
        in if ret \<noteq> 0 then (ret, host_of st (misc_node h))
           else let (ret, st) = lgnpu_irq_init pdev st
           in if ret \<noteq> 0 then (ret, host_of st (misc_node h))
           else let (ret, st) = lgnpu_hw_init kern bus st
           in if ret \<noteq> 0 then (ret, host_of st (misc_node h))
           else let st = st\<lparr>npu := (npu st)\<lparr>miscdev := Some LGNPU_DRV_NAME\<rparr>\<rparr>;
                    ret = misc_register pdev
           in if ret \<noteq> 0 then (ret, host_of st (misc_node h))
           else (0, host_of st True))"

definition lgnpu_remove :: "'s bus \<Rightarrow> 's host \<Rightarrow> 's host option" where
  "lgnpu_remove bus h = (case drvdata h of
     None \<Rightarrow> None
   | Some n \<Rightarrow> do {
       st \<leftarrow> lgnpu_irq_disable bus \<lparr>npu = n, hw = host_hw h\<rparr>;
       Some (host_of st False) })"


section \<open>What the kernel promises\<close>

text \<open>Waiting for the completion consumes or leaves the completion count and lets the hardware
  run; it changes nothing else of the device structure, since the caller holds the mutex and
  the interrupt handler gives its spinlock back.\<close>

definition wait_frame :: "'s kernel \<Rightarrow> bool" where
  "wait_frame kern \<longleftrightarrow> (\<forall>t st. \<exists>c s.
     snd (wait_for_completion_interruptible_timeout kern t st) =
       st\<lparr>npu := (npu st)\<lparr>cmd_done := c\<rparr>, hw := s\<rparr>)"

text \<open>A successful \<open>copy_from_user\<close> of \<open>n\<close> bytes delivers that many.\<close>

definition copy_frame :: "'s kernel \<Rightarrow> bool" where
  "copy_frame kern \<longleftrightarrow> (\<forall>u n ws. copy_from_user kern u n = Some ws \<longrightarrow> 4 * length ws = n)"

text \<open>Neither lock is held.\<close>

definition locks_free :: "'s drv \<Rightarrow> bool" where
  "locks_free st \<longleftrightarrow> \<not> cmd_lock (npu st) \<and> \<not> irq_lock (npu st)"

text \<open>A driver call may change the completion count and the hardware, and leaves every other field
  of the device structure as it found it, both locks included.\<close>

definition drv_frame :: "'s drv \<Rightarrow> 's drv \<Rightarrow> bool" where
  "drv_frame st st' \<longleftrightarrow> (\<exists>c s. st' = st\<lparr>npu := (npu st)\<lparr>cmd_done := c\<rparr>, hw := s\<rparr>)"

text \<open>The state in which submission waits: descriptor written, completion armed, interrupt
  enabled, doorbell rung.\<close>

definition submitted :: "'s bus \<Rightarrow> u32 list \<Rightarrow> 's drv \<Rightarrow> 's drv" where
  "submitted bus ws st =
     st\<lparr>npu := (npu st)\<lparr>cmd_lock := True, cmd_done := 0\<rparr>,
        hw := bus_writes bus (window_writes (regs (npu st)) ws @
            [(reg_addr (regs (npu st)) LGNPU_REG_IRQ_ENABLE, 1),
             (reg_addr (regs (npu st)) LGNPU_REG_DOORBELL, 1)])
          (snd (bus_read bus (reg_addr (regs (npu st)) LGNPU_REG_STATUS) (hw st)))\<rparr>"

text \<open>The return value of submission from the result of the wait.\<close>

definition wait_result :: "int \<Rightarrow> int" where
  "wait_result t = (if t = 0 then - ETIMEDOUT else if t < 0 then t else 0)"

text \<open>One failed poll of DMA_STATUS: the read, then the delay; and whether the read after \<open>k\<close> of
  them shows the engine free.\<close>

definition dma_round :: "'s kernel \<Rightarrow> 's bus \<Rightarrow> u64 \<Rightarrow> 's \<Rightarrow> 's" where
  "dma_round kern bus a s = udelay kern LGNPU_DMA_POLL_US (snd (bus_read bus a s))"

definition dma_free :: "'s kernel \<Rightarrow> 's bus \<Rightarrow> u64 \<Rightarrow> 's \<Rightarrow> nat \<Rightarrow> bool" where
  "dma_free kern bus a s k = (\<not> bit (fst (bus_read bus a ((dma_round kern bus a ^^ k) s))) 0)"

text \<open>A kernel that keeps these promises: no time passes in a delay, the completion wait returns
  at once, user memory reads as zeros and is writable, and ioctl numbers have the generic
  layout (direction, size, type, number).\<close>

definition generic_kernel :: "'s kernel" where
  "generic_kernel =
     \<lparr>udelay = (\<lambda>us s. s),
      wait_for_completion_interruptible_timeout = (\<lambda>ms st. (1, st)),
      copy_from_user = (\<lambda>u n. if n mod 4 = 0 then Some (replicate (n div 4) 0) else None),
      copy_to_user_ok = (\<lambda>u n. True),
      IO = (\<lambda>ty nr. push_bit 8 (ucast ty) OR ucast nr),
      IOR = (\<lambda>ty nr sz. push_bit 30 2 OR push_bit 16 (word_of_nat sz) OR push_bit 8 (ucast ty) OR ucast nr),
      IOW = (\<lambda>ty nr sz. push_bit 30 1 OR push_bit 16 (word_of_nat sz) OR push_bit 8 (ucast ty) OR ucast nr)\<rparr>"

definition demo_drv :: "(u64 \<times> u32) list drv" where
  "demo_drv = \<lparr>npu = \<lparr>dev = 0x1000, regs = 0x40000000, irq = 5, miscdev = Some LGNPU_DRV_NAME,
     cmd_lock = False, cmd_done = 0, irq_lock = False, feature_id = 0x01006881\<rparr>, hw = []\<rparr>"

definition demo_pdev :: platform where
  "demo_pdev = \<lparr>pdev_dev = 0x1000, devm_kzalloc_ok = True,
     devm_platform_ioremap_resource = Inr 0x40000000, platform_get_irq = 5,
     devm_request_irq = (\<lambda>i. 0), misc_register = 0\<rparr>"

definition demo_host :: "(u64 \<times> u32) list host" where
  "demo_host = \<lparr>drvdata = None, misc_node = False, host_hw = []\<rparr>"

text \<open>The seven ioctl numbers.\<close>

definition ioctl_numbers :: "'s kernel \<Rightarrow> u32 list" where
  "ioctl_numbers kern = [LGNPU_IOCTL_RESET kern, LGNPU_IOCTL_ENABLE kern, LGNPU_IOCTL_STATUS kern,
     LGNPU_IOCTL_INFO kern, LGNPU_IOCTL_SUBMIT kern, LGNPU_IOCTL_DMA_XFER kern,
     LGNPU_IOCTL_PERF kern]"

text \<open>The hardware after reset, delay and enable.\<close>

definition bring_up :: "'s kernel \<Rightarrow> 's bus \<Rightarrow> u64 \<Rightarrow> 's \<Rightarrow> 's" where
  "bring_up kern bus a s =
     bus_write bus (reg_addr a LGNPU_REG_CTRL) LGNPU_CTRL_ENABLE
       (udelay kern 1 (bus_write bus (reg_addr a LGNPU_REG_CTRL) LGNPU_CTRL_SOFT_RESET s))"

section \<open>Lemmas on the primitives\<close>

lemma reg_write_frame [simp]:
  "npu (lgnpu_reg_write bus off v st) = npu st"
  "hw (lgnpu_reg_write bus off v st) = bus_write bus (reg_addr (regs (npu st)) off) v (hw st)"
  by (simp_all add: lgnpu_reg_write_def)

lemma drv_swap: "st\<lparr>hw := a, npu := b\<rparr> = st\<lparr>npu := b, hw := a\<rparr>"
  by simp

lemma reg_read_eq [c_sem]: "lgnpu_reg_read bus off st =
   (fst (bus_read bus (reg_addr (regs (npu st)) off) (hw st)),
    st\<lparr>hw := snd (bus_read bus (reg_addr (regs (npu st)) off) (hw st))\<rparr>)"
  by (simp add: lgnpu_reg_read_def split_def Let_def)

lemma buf_write_eq:
  assumes "length ws = LGNPU_CMD_WORDS"
  shows "lgnpu_buf_write bus LGNPU_CMD_QUEUE_BASE ws 16 st =
    st\<lparr>hw := bus_writes bus (window_writes (regs (npu st)) ws) (hw st)\<rparr>"
  using assms by (simp add: lgnpu_buf_write_def bus_writes_def window_writes_def fold_map comp_def)

lemma irq_gate:
  assumes "\<not> irq_lock (npu st)"
  shows "lgnpu_irq_enable bus st =
      Some (st\<lparr>hw := bus_write bus (reg_addr (regs (npu st)) LGNPU_REG_IRQ_ENABLE) 1 (hw st)\<rparr>)"
    and "lgnpu_irq_disable bus st =
      Some (st\<lparr>hw := bus_write bus (reg_addr (regs (npu st)) LGNPU_REG_IRQ_ENABLE) 0 (hw st)\<rparr>)"
  using assms by (cases st; cases "npu st"; simp add: lgnpu_irq_enable_def lgnpu_irq_disable_def
      spin_lock_def spin_unlock_def lgnpu_reg_write_def)+

lemma wait_frameE:
  assumes "wait_frame kern"
  obtains c s where "wait_for_completion_interruptible_timeout kern t st =
    (fst (wait_for_completion_interruptible_timeout kern t st),
     st\<lparr>npu := (npu st)\<lparr>cmd_done := c\<rparr>, hw := s\<rparr>)"
  using assms unfolding wait_frame_def by (metis prod.collapse)

section \<open>Command submission\<close>

lemma cmd_submit_eq:
  assumes "locks_free st" and "wait_frame kern" and "length ws = LGNPU_CMD_WORDS"
  shows "lgnpu_cmd_submit kern bus ws st =
    (let (v, s1) = bus_read bus (reg_addr (regs (npu st)) LGNPU_REG_STATUS) (hw st);
         (t, st3) = wait_for_completion_interruptible_timeout kern 5000 (submitted bus ws st)
     in if bit v 2 then Some (- EBUSY, st\<lparr>hw := s1\<rparr>)
        else Some (wait_result t,
          st3\<lparr>npu := (npu st3)\<lparr>cmd_lock := False\<rparr>,
              hw := bus_write bus (reg_addr (regs (npu st)) LGNPU_REG_IRQ_ENABLE) 0 (hw st3)\<rparr>))"
proof -
  let ?S = "submitted bus ws st"
  let ?w = "wait_for_completion_interruptible_timeout kern 5000 ?S"
  obtain c s where w: "?w = (fst ?w, ?S\<lparr>npu := (npu ?S)\<lparr>cmd_done := c\<rparr>, hw := s\<rparr>)"
    using assms(2) by (rule wait_frameE)
  obtain n h where st: "st = \<lparr>npu = n, hw = h\<rparr>" by (cases st)
  have l: "\<not> cmd_lock n" "\<not> irq_lock n" using assms(1) by (simp_all add: locks_free_def st)
  then have n: "n\<lparr>cmd_lock := False\<rparr> = n" by (cases n) simp
  have f: "v AND LGNPU_STATUS_QUEUE_FULL \<noteq> 0 \<longleftrightarrow> bit v 2" for v
    by (simp add: LGNPU_STATUS_QUEUE_FULL_def and_bit_test)
  have ready: "lgnpu_cmd_submit kern bus ws st =
    (let v = fst (bus_read bus (reg_addr (regs n) LGNPU_REG_STATUS) h);
         s1 = snd (bus_read bus (reg_addr (regs n) LGNPU_REG_STATUS) h)
     in if bit v 2 then Some (- EBUSY, st\<lparr>hw := s1\<rparr>)
        else do {
          st3 \<leftarrow> lgnpu_irq_disable bus (snd ?w);
          Some (wait_result (fst ?w), mutex_unlock st3) })"
    using l n assms(3)
    by (simp add: lgnpu_cmd_submit_def mutex_lock_def mutex_unlock_def reg_read_eq st f Let_def
        buf_write_eq reinit_completion_def irq_gate lgnpu_reg_write_def submitted_def
        LGNPU_CMD_TIMEOUT_MS_def split_def wait_result_def)
  have np: "npu (snd ?w) = n\<lparr>cmd_lock := True, cmd_done := c\<rparr>"
    by (subst w) (simp add: submitted_def st)
  have d: "lgnpu_irq_disable bus (snd ?w) = Some ((snd ?w)\<lparr>hw :=
      bus_write bus (reg_addr (regs n) LGNPU_REG_IRQ_ENABLE) 0 (hw (snd ?w))\<rparr>)"
    using l np irq_gate(2) [of "snd ?w" bus] by simp
  show ?thesis
    unfolding ready d by (simp add: st split_def mutex_unlock_def Let_def drv_swap)
qed


section \<open>DMA\<close>

lemma dma_round_iter:
  "((\<lambda>st. st\<lparr>hw := dma_round kern bus (reg_addr (regs (npu st)) off) (hw st)\<rparr>) ^^ k) st =
     st\<lparr>hw := (dma_round kern bus (reg_addr (regs (npu st)) off) ^^ k) (hw st)\<rparr>"
  by (induction k) simp_all

lemma dma_poll_eq:
  "poll_word 0 LGNPU_DMA_POLL_ITERS
      (\<lambda>st. let (v, st) = lgnpu_reg_read bus LGNPU_REG_DMA_STATUS st
            in if v AND LGNPU_DMA_STATUS_BUSY = 0 then Some (True, st)
               else Some (False, st\<lparr>hw := udelay kern LGNPU_DMA_POLL_US (hw st)\<rparr>)) st =
    (let a = reg_addr (regs (npu st)) LGNPU_REG_DMA_STATUS
     in Some (if \<exists>k<10000. dma_free kern bus a (hw st) k
          then (True, st\<lparr>hw := snd (bus_read bus a
                 ((dma_round kern bus a ^^ (LEAST k. dma_free kern bus a (hw st) k)) (hw st)))\<rparr>)
          else (False, st\<lparr>hw := (dma_round kern bus a ^^ 10000) (hw st)\<rparr>)))"
proof -
  let ?a = "\<lambda>st. reg_addr (regs (npu st)) LGNPU_REG_DMA_STATUS"
  let ?P = "\<lambda>st. \<not> bit (fst (bus_read bus (?a st) (hw st))) 0"
  let ?g = "\<lambda>st. st\<lparr>hw := snd (bus_read bus (?a st) (hw st))\<rparr>"
  let ?h = "\<lambda>st. st\<lparr>hw := dma_round kern bus (?a st) (hw st)\<rparr>"
  have f: "v AND LGNPU_DMA_STATUS_BUSY = 0 \<longleftrightarrow> \<not> bit v 0" for v
    unfolding LGNPU_DMA_STATUS_BUSY_def using and_bit_test(1) [of v] by blast
  have body: "(\<lambda>st. let (v, st) = lgnpu_reg_read bus LGNPU_REG_DMA_STATUS st
      in if v AND LGNPU_DMA_STATUS_BUSY = 0 then Some (True, st)
         else Some (False, st\<lparr>hw := udelay kern LGNPU_DMA_POLL_US (hw st)\<rparr>)) =
    (\<lambda>st. Some (if ?P st then (True, ?g st) else (False, ?h st)))"
    by (rule ext) (simp add: reg_read_eq f dma_round_def)
  have n: "unat LGNPU_DMA_POLL_ITERS = 10000" by (simp add: LGNPU_DMA_POLL_ITERS_def)
  show ?thesis
    unfolding body
    unfolding poll_word_0 n poll_n_steps dma_round_iter
    by (simp add: dma_free_def [abs_def] Let_def)
qed

lemma dma_transfer_eq:
  assumes "\<not> cmd_lock (npu st)"
  shows "lgnpu_dma_transfer kern bus e l n d st =
    (let r = reg_addr (regs (npu st));
         a = r LGNPU_REG_DMA_STATUS;
         s0 = bus_writes bus [(r LGNPU_REG_DMA_EXT_ADDR, e), (r LGNPU_REG_DMA_LOC_ADDR, l),
                (r LGNPU_REG_DMA_LEN, n), (r LGNPU_REG_DMA_CTRL, if d = 1 then 3 else 1)] (hw st)
     in Some (if \<exists>k<10000. dma_free kern bus a s0 k
              then (0, st\<lparr>hw := bus_write bus (r LGNPU_REG_IRQ_CLEAR) 1 (snd (bus_read bus a
                     ((dma_round kern bus a ^^ (LEAST k. dma_free kern bus a s0 k)) s0)))\<rparr>)
              else (- ETIMEDOUT, st\<lparr>hw := (dma_round kern bus a ^^ 10000) s0\<rparr>)))"
proof -
  obtain m h where st: "st = \<lparr>npu = m, hw = h\<rparr>" by (cases st)
  have m: "m\<lparr>cmd_lock := False\<rparr> = m" and l: "\<not> cmd_lock m"
    using assms by (cases m; simp add: st)+
  show ?thesis
    unfolding lgnpu_dma_transfer_def dma_poll_eq
    using l
    by (auto simp: mutex_lock_def st Let_def mutex_unlock_def lgnpu_reg_write_def m LGNPU_DMA_CTRL_START_def LGNPU_DMA_CTRL_DIR_def
        LGNPU_DMA_FROM_DEVICE_def LGNPU_STATUS_PENDING_def)
qed


section \<open>Frames\<close>

text \<open>What each operation can change of the driver state.\<close>

lemma drv_frame_done [keeps]: "drv_frame st (st\<lparr>npu := (npu st)\<lparr>cmd_done := c\<rparr>, hw := s\<rparr>)"
  by (auto simp: drv_frame_def)

lemma drv_frame_hw [keeps]: "drv_frame st (st\<lparr>hw := s\<rparr>)"
  using drv_frame_done [where st = st and c = "cmd_done (npu st)" and s = s] by simp

lemma drv_frame_refl [keeps]: "drv_frame st st"
  using drv_frame_hw [of st "hw st"] by simp

lemma drv_frame_locks: "drv_frame st st' \<Longrightarrow> locks_free st' = locks_free st"
  by (auto simp: drv_frame_def locks_free_def)

lemma dma_transfer_frame:
  assumes "locks_free st"
  shows "\<exists>r st'. lgnpu_dma_transfer kern bus e l n d st = Some (r, st') \<and> drv_frame st st'"
proof -
  from assms have "\<not> cmd_lock (npu st)" by (simp add: locks_free_def)
  from dma_transfer_eq [OF this] show ?thesis by (auto simp: Let_def keeps split: if_split)
qed

lemma cmd_submit_frame:
  assumes "locks_free st" and "wait_frame kern" and "length ws = LGNPU_CMD_WORDS"
  shows "\<exists>r st'. lgnpu_cmd_submit kern bus ws st = Some (r, st') \<and> drv_frame st st'"
proof -
  let ?S = "submitted bus ws st"
  obtain c s where w: "wait_for_completion_interruptible_timeout kern 5000 ?S =
    (fst (wait_for_completion_interruptible_timeout kern 5000 ?S),
     ?S\<lparr>npu := (npu ?S)\<lparr>cmd_done := c\<rparr>, hw := s\<rparr>)"
    using assms(2) by (rule wait_frameE)
  have n: "(npu st)\<lparr>cmd_done := c, cmd_lock := False\<rparr> = (npu st)\<lparr>cmd_done := c\<rparr>" for c
    using assms(1) by (cases "npu st") (simp add: locks_free_def)
  show ?thesis
    unfolding cmd_submit_eq [OF assms]
    by (subst w) (simp add: Let_def split_def submitted_def n keeps)
qed

lemma ioctl_frame:
  assumes "locks_free st" and "wait_frame kern" and "copy_frame kern"
  shows "\<exists>r out st'. lgnpu_ioctl kern bus cmd uptr st = Some (r, out, st') \<and> drv_frame st st'"
proof -
  have sub: "\<exists>r out st'. (lgnpu_cmd_submit kern bus ws st \<bind> (\<lambda>(r, st). Some (r, None, st))) =
      Some (r, out, st') \<and> drv_frame st st'"
    if "copy_from_user kern uptr 64 = Some ws" for ws
  proof -
    from assms(3) that have "length ws = LGNPU_CMD_WORDS" by (fastforce simp: copy_frame_def)
    from cmd_submit_frame [OF assms(1,2) this, of bus] show ?thesis by auto
  qed
  have dma: "\<exists>r out st'. (lgnpu_dma_transfer kern bus e l n d st \<bind>
      (\<lambda>(r, st). Some (r, None, st))) = Some (r, out, st') \<and> drv_frame st st'" for e l n d
    using dma_transfer_frame [OF assms(1), of kern bus e l n d] by auto
  show ?thesis
    by (auto simp: lgnpu_ioctl_def lgnpu_hw_reset_def lgnpu_hw_enable_def lgnpu_reg_write_def
        reg_read_eq put_user_def Let_def keeps split: option.split if_split intro!: sub dma)
qed


section \<open>Bring-up\<close>

lemma hw_init_eq: "lgnpu_hw_init kern bus st =
   (let a = regs (npu st);
        (v, s) = bus_read bus (reg_addr a LGNPU_REG_FEATURE_ID) (bring_up kern bus a (hw st));
        st' = st\<lparr>npu := (npu st)\<lparr>feature_id := v\<rparr>, hw := s\<rparr>
    in if v = 0 then (- ENODEV, st') else (0, st'))"
  by (simp add: lgnpu_hw_init_def lgnpu_hw_reset_def lgnpu_hw_enable_def lgnpu_reg_write_def
      reg_read_eq Let_def split_def bring_up_def drv_swap)

lemma probe_eq:
  assumes "devm_kzalloc_ok pdev" and "devm_platform_ioremap_resource pdev = Inr a"
    and "0 \<le> platform_get_irq pdev" and "devm_request_irq pdev (platform_get_irq pdev) = 0"
  shows "lgnpu_probe kern bus pdev h =
    (let (fid, s) = bus_read bus (reg_addr a LGNPU_REG_FEATURE_ID) (bring_up kern bus a (host_hw h));
         n = \<lparr>dev = pdev_dev pdev, regs = a, irq = platform_get_irq pdev, miscdev = None,
              cmd_lock = False, cmd_done = 0, irq_lock = False, feature_id = fid\<rparr>;
         n' = n\<lparr>miscdev := Some LGNPU_DRV_NAME\<rparr>
     in if fid = 0 then (- ENODEV, \<lparr>drvdata = Some n, misc_node = misc_node h, host_hw = s\<rparr>)
        else if misc_register pdev \<noteq> 0
        then (misc_register pdev, \<lparr>drvdata = Some n', misc_node = misc_node h, host_hw = s\<rparr>)
        else (0, \<lparr>drvdata = Some n', misc_node = True, host_hw = s\<rparr>))"
  using assms
  by (simp add: lgnpu_probe_def lgnpu_mmio_init_def lgnpu_irq_init_def hw_init_eq host_of_def
      Let_def split_def ENODEV_def)

lemma probe_early_failure:
  assumes "\<And>e. devm_platform_ioremap_resource pdev = Inl e \<Longrightarrow> e \<noteq> 0"
    and "\<not> (devm_kzalloc_ok pdev \<and> (\<exists>a. devm_platform_ioremap_resource pdev = Inr a) \<and>
      0 \<le> platform_get_irq pdev \<and> devm_request_irq pdev (platform_get_irq pdev) = 0)"
  shows "fst (lgnpu_probe kern bus pdev h) \<noteq> 0 \<and>
    misc_node (snd (lgnpu_probe kern bus pdev h)) = misc_node h"
  using assms
  by (cases "devm_platform_ioremap_resource pdev")
    (auto simp: lgnpu_probe_def lgnpu_mmio_init_def lgnpu_irq_init_def host_of_def Let_def ENOMEM_def)

section \<open>The generic kernel keeps the promises\<close>

lemma generic_kernel_wait: "wait_frame generic_kernel"
proof -
  have "\<exists>c s. st = st\<lparr>npu := (npu st)\<lparr>cmd_done := c\<rparr>, hw := s\<rparr>" for st :: "'a drv"
    using drv_frame_refl [of st] by (simp add: drv_frame_def)
  then show ?thesis by (simp add: wait_frame_def generic_kernel_def)
qed

lemma generic_kernel_copy: "copy_frame generic_kernel"
  by (auto simp: copy_frame_def generic_kernel_def split: if_splits)

lemma generic_ioctl_numbers:
  "ioctl_numbers generic_kernel = [0x4C00, 0x4C01, 0x800C4C02, 0x80084C03, 0x40404C04, 0x40104C05,
     0x800C4C06]"
  by (simp add: ioctl_numbers_def generic_kernel_def LGNPU_IOC_MAGIC_def LGNPU_IOCTL_RESET_def
      LGNPU_IOCTL_ENABLE_def LGNPU_IOCTL_STATUS_def LGNPU_IOCTL_INFO_def LGNPU_IOCTL_SUBMIT_def
      LGNPU_IOCTL_DMA_XFER_def LGNPU_IOCTL_PERF_def)

lemma demo_locks: "locks_free demo_drv"
  by (simp add: locks_free_def demo_drv_def)


lemma ioctl_numbers_distinct:
  assumes "distinct (ioctl_numbers kern)"
  shows "LGNPU_IOCTL_ENABLE kern \<noteq> LGNPU_IOCTL_RESET kern"
    "LGNPU_IOCTL_STATUS kern \<noteq> LGNPU_IOCTL_RESET kern"
    "LGNPU_IOCTL_STATUS kern \<noteq> LGNPU_IOCTL_ENABLE kern"
    "LGNPU_IOCTL_INFO kern \<noteq> LGNPU_IOCTL_RESET kern"
    "LGNPU_IOCTL_INFO kern \<noteq> LGNPU_IOCTL_ENABLE kern"
    "LGNPU_IOCTL_INFO kern \<noteq> LGNPU_IOCTL_STATUS kern"
    "LGNPU_IOCTL_SUBMIT kern \<noteq> LGNPU_IOCTL_RESET kern"
    "LGNPU_IOCTL_SUBMIT kern \<noteq> LGNPU_IOCTL_ENABLE kern"
    "LGNPU_IOCTL_SUBMIT kern \<noteq> LGNPU_IOCTL_STATUS kern"
    "LGNPU_IOCTL_SUBMIT kern \<noteq> LGNPU_IOCTL_INFO kern"
    "LGNPU_IOCTL_DMA_XFER kern \<noteq> LGNPU_IOCTL_RESET kern"
    "LGNPU_IOCTL_DMA_XFER kern \<noteq> LGNPU_IOCTL_ENABLE kern"
    "LGNPU_IOCTL_DMA_XFER kern \<noteq> LGNPU_IOCTL_STATUS kern"
    "LGNPU_IOCTL_DMA_XFER kern \<noteq> LGNPU_IOCTL_INFO kern"
    "LGNPU_IOCTL_DMA_XFER kern \<noteq> LGNPU_IOCTL_SUBMIT kern"
    "LGNPU_IOCTL_PERF kern \<noteq> LGNPU_IOCTL_RESET kern"
    "LGNPU_IOCTL_PERF kern \<noteq> LGNPU_IOCTL_ENABLE kern"
    "LGNPU_IOCTL_PERF kern \<noteq> LGNPU_IOCTL_STATUS kern"
    "LGNPU_IOCTL_PERF kern \<noteq> LGNPU_IOCTL_INFO kern"
    "LGNPU_IOCTL_PERF kern \<noteq> LGNPU_IOCTL_SUBMIT kern"
    "LGNPU_IOCTL_PERF kern \<noteq> LGNPU_IOCTL_DMA_XFER kern"
  using assms by (simp_all add: ioctl_numbers_def eq_commute)

section \<open>The driver on a device that keeps the bus contract\<close>

context command_device
begin

lemma submitted_window:
  assumes "regs (npu st) = mmio" and "length ws = LGNPU_CMD_WORDS" and "live (hw st)"
  shows "window (hw (submitted bus ws st)) = ws \<and> rung (hw (submitted bus ws st))"
  using assms
  by (simp add: submitted_def window_filled window_irq_enable window_doorbell rung_doorbell
      live_irq_enable live_filled live_status)

end

context dma_device
begin

lemma dma_transfer_issues:
  assumes "regs (npu st) = mmio" and "\<not> cmd_lock (npu st)" and "live (hw st)"
  shows "\<exists>s0. req_issued s0 = Some (e, ucast l, ucast n, d = 1) \<and>
    lgnpu_dma_transfer kern bus e l n d st =
      (let a = reg_addr mmio LGNPU_REG_DMA_STATUS
       in Some (if \<exists>k<10000. dma_free kern bus a s0 k
              then (0, st\<lparr>hw := bus_write bus (reg_addr mmio LGNPU_REG_IRQ_CLEAR) 1
                     (snd (bus_read bus a
                       ((dma_round kern bus a ^^ (LEAST k. dma_free kern bus a s0 k)) s0)))\<rparr>)
              else (- ETIMEDOUT, st\<lparr>hw := (dma_round kern bus a ^^ 10000) s0\<rparr>)))"
proof -
  let ?c = "if d = 1 then 3 else 1 :: u32"
  have c: "bit ?c 0" "bit ?c 1 \<longleftrightarrow> d = 1" by (simp_all add: bit_1_iff bit_numeral_simps)
  let ?s0 = "bus_writes bus
      [(reg_addr mmio LGNPU_REG_DMA_EXT_ADDR, e), (reg_addr mmio LGNPU_REG_DMA_LOC_ADDR, l),
       (reg_addr mmio LGNPU_REG_DMA_LEN, n), (reg_addr mmio LGNPU_REG_DMA_CTRL, ?c)] (hw st)"
  have "req_issued ?s0 = Some (e, ucast l, ucast n, d = 1)"
    using dma_request [OF assms(3) c(1), of e l n] unfolding c(2) .
  with dma_transfer_eq [OF assms(2), of kern bus e l n d]
  show ?thesis unfolding assms(1) Let_def by (intro exI [of _ ?s0] conjI)
qed

end

section \<open>Properties\<close>

text \<open>C6: \<open>lgnpu_dma_transfer\<close>, complete behaviour of a run that finds the mutex free: it programs
  the three request registers and then the control register (start, and direction from
  \<open>dir\<close>), polls DMA_STATUS up to 10000 times with a delay after each busy answer, clears the
  pending interrupt and returns 0 as soon as the engine is free, and otherwise returns
  -ETIMEDOUT; the mutex is free again on both paths and nothing else of the device structure
  has changed.\<close>

theorem lgnpu_dma_transfer_spec:
  assumes "\<not> cmd_lock (npu st)"
  shows "lgnpu_dma_transfer kern bus ext_addr loc_addr len dir st =
    (let r = reg_addr (regs (npu st));
         a = r LGNPU_REG_DMA_STATUS;
         s0 = bus_writes bus
                [(r LGNPU_REG_DMA_EXT_ADDR, ext_addr), (r LGNPU_REG_DMA_LOC_ADDR, loc_addr),
                 (r LGNPU_REG_DMA_LEN, len), (r LGNPU_REG_DMA_CTRL, if dir = 1 then 3 else 1)] (hw st)
     in Some (if \<exists>k<10000. dma_free kern bus a s0 k
              then (0, st\<lparr>hw := bus_write bus (r LGNPU_REG_IRQ_CLEAR) 1 (snd (bus_read bus a
                     ((dma_round kern bus a ^^ (LEAST k. dma_free kern bus a s0 k)) s0)))\<rparr>)
              else (- ETIMEDOUT, st\<lparr>hw := (dma_round kern bus a ^^ 10000) s0\<rparr>)))"
  using assms by (rule dma_transfer_eq)

theorem lgnpu_dma_transfer_spec_witness:
  "lgnpu_dma_transfer generic_kernel (trace_bus 0) 0x80000000 0x20000 64 1 demo_drv =
    Some (0, demo_drv\<lparr>hw := [(0x40000030, 0x80000000), (0x40000034, 0x20000), (0x40000038, 64),
      (0x4000003C, 3), (0x40000014, 1)]\<rparr>)"
proof -
  have l: "\<not> cmd_lock (npu demo_drv)" by (simp add: demo_drv_def)
  have f: "dma_free generic_kernel (trace_bus 0) a s k" for a s k
    by (simp add: dma_free_def trace_bus_def)
  then have m: "(LEAST k. dma_free generic_kernel (trace_bus 0) a s k) = 0" for a s
    by (simp add: Least_eq_0)
  have e: "\<exists>k<10000. dma_free generic_kernel (trace_bus 0) a s k" for a s
    using f by (intro exI [of _ 0]) simp
  show ?thesis
    by (subst lgnpu_dma_transfer_spec [OF l])
      (simp add: Let_def m e, simp add: trace_bus_def demo_drv_def reg_addr_def c_consts)
qed

text \<open>C5: \<open>lgnpu_cmd_submit\<close>, complete behaviour of a run that finds both locks free: a full queue
  gives -EBUSY after the STATUS read alone; otherwise the sixteen words go into the window,
  the completion count is reset, the interrupt is enabled and the doorbell rung, in this
  order, before the wait; afterwards the interrupt is disabled, the mutex is released and the
  wait's answer becomes -ETIMEDOUT, the negative error, or 0.\<close>

theorem lgnpu_cmd_submit_spec:
  assumes "locks_free st" and "wait_frame kern" and "length ws = 16"
  shows "lgnpu_cmd_submit kern bus ws st =
    (let r = reg_addr (regs (npu st));
         (v, s1) = bus_read bus (r LGNPU_REG_STATUS) (hw st);
         armed = st\<lparr>npu := (npu st)\<lparr>cmd_lock := True, cmd_done := 0\<rparr>,
                    hw := bus_writes bus
                      (map (\<lambda>i. (r LGNPU_CMD_QUEUE_BASE + 4 * word_of_nat i, ws ! i)) [0..<16] @
                       [(r LGNPU_REG_IRQ_ENABLE, 1), (r LGNPU_REG_DOORBELL, 1)]) s1\<rparr>;
         (t, st3) = wait_for_completion_interruptible_timeout kern 5000 armed
     in if bit v 2 then Some (- EBUSY, st\<lparr>hw := s1\<rparr>)
        else Some (if t = 0 then - ETIMEDOUT else if t < 0 then t else 0,
          st3\<lparr>npu := (npu st3)\<lparr>cmd_lock := False\<rparr>,
              hw := bus_write bus (r LGNPU_REG_IRQ_ENABLE) 0 (hw st3)\<rparr>))"
proof -
  from assms(3) have l: "length ws = LGNPU_CMD_WORDS" by simp
  have "submitted bus ws st =
    st\<lparr>npu := (npu st)\<lparr>cmd_lock := True, cmd_done := 0\<rparr>,
       hw := bus_writes bus
         (map (\<lambda>i. (reg_addr (regs (npu st)) LGNPU_CMD_QUEUE_BASE + 4 * word_of_nat i, ws ! i)) [0..<16] @
          [(reg_addr (regs (npu st)) LGNPU_REG_IRQ_ENABLE, 1),
           (reg_addr (regs (npu st)) LGNPU_REG_DOORBELL, 1)])
         (snd (bus_read bus (reg_addr (regs (npu st)) LGNPU_REG_STATUS) (hw st)))\<rparr>"
    by (simp add: submitted_def window_writes_def assms(3))
  then show ?thesis
    unfolding cmd_submit_eq [OF assms(1,2) l] Let_def split_def wait_result_def fst_conv snd_conv
    by simp
qed

theorem lgnpu_cmd_submit_spec_witness:
  "lgnpu_cmd_submit generic_kernel (trace_bus 4) (replicate 16 7) demo_drv = Some (-16, demo_drv) \<and>
   lgnpu_cmd_submit generic_kernel (trace_bus 1) (replicate 16 7) demo_drv \<noteq> None"
proof -
  have b: "bit (4 :: u32) 2" by (simp add: bit_iff_odd)
  note sp = lgnpu_cmd_submit_spec [OF demo_locks generic_kernel_wait, of "replicate 16 7"]
  have "lgnpu_cmd_submit generic_kernel (trace_bus 4) (replicate 16 7) demo_drv = Some (-16, demo_drv)"
    by (subst sp) (simp_all add: trace_bus_def EBUSY_def b Let_def split_def)
  moreover have "lgnpu_cmd_submit generic_kernel (trace_bus 1) (replicate 16 7) demo_drv \<noteq> None"
    by (subst sp) (simp_all add: Let_def split_def)
  ultimately show ?thesis ..
qed

text \<open>C27: Lock discipline of the whole ioctl interface.  Whatever the command number and user
  pointer, an ioctl that starts with both locks free neither blocks on a lock it holds nor
  leaves one behind: it returns with both locks free and with every field of the device
  structure but the completion count unchanged.\<close>

theorem lgnpu_ioctl_locks:
  assumes "locks_free st" and "wait_frame kern" and "copy_frame kern"
  shows "\<exists>r out st'. lgnpu_ioctl kern bus cmd uptr st = Some (r, out, st') \<and> locks_free st' \<and>
    (\<exists>c. npu st' = (npu st)\<lparr>cmd_done := c\<rparr>)"
proof -
  obtain r out st' where "lgnpu_ioctl kern bus cmd uptr st = Some (r, out, st')" "drv_frame st st'"
    using ioctl_frame [OF assms, of bus cmd uptr] by blast
  with drv_frame_locks [of st st'] assms(1) show ?thesis by (auto simp: drv_frame_def)
qed

theorem lgnpu_ioctl_locks_witness:
  "\<exists>r out st'. lgnpu_ioctl generic_kernel (trace_bus 1) 0x40404C04 0 demo_drv = Some (r, out, st') \<and>
    locks_free st' \<and> (\<exists>c. npu st' = (npu demo_drv)\<lparr>cmd_done := c\<rparr>)"
  by (rule lgnpu_ioctl_locks [OF demo_locks generic_kernel_wait generic_kernel_copy])

text \<open>C39: Errors of the ioctl interface.  With seven distinct numbers, an unknown command gives
  -ENOTTY, a faulting descriptor or request copy gives -EFAULT, and a DMA direction above 1
  gives -EINVAL; in each case neither the hardware nor the device structure is touched.  A
  faulting result copy of the information, the status or the performance counters gives -EFAULT
  after the register reads (none, the STATUS register, the three counters in order), and
  hands nothing to the caller.\<close>

theorem lgnpu_ioctl_errors:
  assumes "distinct (ioctl_numbers kern)"
  shows "(cmd \<notin> set (ioctl_numbers kern) \<longrightarrow>
      lgnpu_ioctl kern bus cmd uptr st = Some (- ENOTTY, None, st)) \<and>
    (copy_from_user kern uptr 64 = None \<longrightarrow>
      lgnpu_ioctl kern bus (LGNPU_IOCTL_SUBMIT kern) uptr st = Some (- EFAULT, None, st)) \<and>
    (copy_from_user kern uptr 16 = None \<longrightarrow>
      lgnpu_ioctl kern bus (LGNPU_IOCTL_DMA_XFER kern) uptr st = Some (- EFAULT, None, st)) \<and>
    (copy_from_user kern uptr 16 = Some ws \<and> 1 < ws ! 3 \<longrightarrow>
      lgnpu_ioctl kern bus (LGNPU_IOCTL_DMA_XFER kern) uptr st = Some (- EINVAL, None, st)) \<and>
    (\<not> copy_to_user_ok kern uptr 8 \<longrightarrow>
      lgnpu_ioctl kern bus (LGNPU_IOCTL_INFO kern) uptr st = Some (- EFAULT, None, st)) \<and>
    (\<not> copy_to_user_ok kern uptr 12 \<longrightarrow>
      lgnpu_ioctl kern bus (LGNPU_IOCTL_STATUS kern) uptr st =
        Some (- EFAULT, None, snd (lgnpu_reg_read bus LGNPU_REG_STATUS st))) \<and>
    (\<not> copy_to_user_ok kern uptr 12 \<longrightarrow>
      lgnpu_ioctl kern bus (LGNPU_IOCTL_PERF kern) uptr st =
        Some (- EFAULT, None, snd (lgnpu_reg_read bus LGNPU_REG_PERF_STALL
          (snd (lgnpu_reg_read bus LGNPU_REG_PERF_ACTIVE
            (snd (lgnpu_reg_read bus LGNPU_REG_PERF_CYCLES st)))))))"
  by (intro conjI impI)
    (simp_all add: lgnpu_ioctl_def put_user_def reg_read_eq LGNPU_DMA_FROM_DEVICE_def
      ioctl_numbers_distinct [OF assms] ioctl_numbers_def)

theorem lgnpu_ioctl_errors_witness:
  "lgnpu_ioctl generic_kernel (trace_bus 0) 0x1234 0 demo_drv = Some (- ENOTTY, None, demo_drv)"
proof -
  have d: "distinct (ioctl_numbers generic_kernel)" unfolding generic_ioctl_numbers by simp
  have "0x1234 \<notin> set (ioctl_numbers generic_kernel)" unfolding generic_ioctl_numbers by simp
  with lgnpu_ioctl_errors [OF d, of "0x1234" "trace_bus 0" 0 demo_drv] show ?thesis by blast
qed

text \<open>The interrupt handler, with the pending mask taken as bit 0: when IRQ_STATUS shows a
  pending interrupt it acknowledges it, signals the completion once and reports it handled;
  otherwise it reports that the (shared) line was not its own and writes nothing.  The
  spinlock is released on both paths.\<close>

theorem lgnpu_irq_handler_spec:
  assumes "\<not> irq_lock (npu st)"
  shows "lgnpu_irq_handler 1 bus st =
    (let (v, s) = bus_read bus (reg_addr (regs (npu st)) LGNPU_REG_IRQ_STATUS) (hw st)
     in Some (if bit v 0
              then (IRQ_HANDLED, st\<lparr>npu := (npu st)\<lparr>cmd_done := Suc (cmd_done (npu st))\<rparr>,
                      hw := bus_write bus (reg_addr (regs (npu st)) LGNPU_REG_IRQ_CLEAR) 1 s\<rparr>)
              else (IRQ_NONE, st\<lparr>hw := s\<rparr>)))"
proof -
  obtain n h where st: "st = \<lparr>npu = n, hw = h\<rparr>" by (cases st)
  have l: "\<not> irq_lock n" and n: "n\<lparr>irq_lock := False\<rparr> = n" using assms by (cases n; simp add: st)+
  have b: "v AND 1 = 0 \<longleftrightarrow> \<not> bit v 0" for v :: u32 using and_bit_test(1) [of v] by blast
  show ?thesis
    using l n
    by (simp add: lgnpu_irq_handler_def spin_lock_def spin_unlock_def complete_def reg_read_eq
        lgnpu_reg_write_def st b Let_def split_def del: bit_0)
qed

theorem lgnpu_irq_handler_spec_witness:
  "lgnpu_irq_handler 1 (trace_bus 1) demo_drv =
    Some (IRQ_HANDLED, demo_drv\<lparr>npu := (npu demo_drv)\<lparr>cmd_done := 1\<rparr>, hw := [(0x40000014, 1)]\<rparr>)"
proof -
  have "\<not> irq_lock (npu demo_drv)" by (simp add: demo_drv_def)
  from lgnpu_irq_handler_spec [OF this, of "trace_bus 1"] show ?thesis
    by (simp add: trace_bus_def demo_drv_def reg_addr_def c_consts)
qed

text \<open>Probe registers the device node exactly when it returns 0, and it returns 0 exactly when
  the allocation, the mapping, the interrupt request, the identification after reset and
  enable, and the registration all succeed.  A device whose FEATURE_ID reads as zero is
  refused.\<close>

theorem lgnpu_probe_spec:
  assumes "\<not> misc_node h" and "\<And>e. devm_platform_ioremap_resource pdev = Inl e \<Longrightarrow> e \<noteq> 0"
  shows "(misc_node (snd (lgnpu_probe kern bus pdev h)) \<longleftrightarrow> fst (lgnpu_probe kern bus pdev h) = 0) \<and>
    (fst (lgnpu_probe kern bus pdev h) = 0 \<longleftrightarrow>
      devm_kzalloc_ok pdev \<and> 0 \<le> platform_get_irq pdev \<and>
      devm_request_irq pdev (platform_get_irq pdev) = 0 \<and> misc_register pdev = 0 \<and>
      (\<exists>a. devm_platform_ioremap_resource pdev = Inr a \<and>
        fst (bus_read bus (reg_addr a LGNPU_REG_FEATURE_ID) (bring_up kern bus a (host_hw h))) \<noteq> 0))"
proof (cases "devm_kzalloc_ok pdev \<and> (\<exists>a. devm_platform_ioremap_resource pdev = Inr a) \<and>
    0 \<le> platform_get_irq pdev \<and> devm_request_irq pdev (platform_get_irq pdev) = 0")
  case True
  then obtain a where "devm_platform_ioremap_resource pdev = Inr a" by blast
  with True assms(1) show ?thesis
    by (simp add: probe_eq Let_def split_def ENODEV_def)
next
  case False
  with probe_early_failure [OF assms(2) False, of kern bus h] assms(1) show ?thesis by auto
qed

theorem lgnpu_probe_spec_witness:
  "fst (lgnpu_probe generic_kernel (trace_bus 0x01006881) demo_pdev demo_host) = 0 \<and>
   misc_node (snd (lgnpu_probe generic_kernel (trace_bus 0x01006881) demo_pdev demo_host))"
proof -
  have "\<not> misc_node demo_host" by (simp add: demo_host_def)
  moreover have "devm_platform_ioremap_resource demo_pdev = Inl e \<Longrightarrow> e \<noteq> 0" for e
    by (simp add: demo_pdev_def)
  ultimately show ?thesis
    using lgnpu_probe_spec [of demo_host demo_pdev generic_kernel "trace_bus 0x01006881"]
    by (simp add: demo_pdev_def trace_bus_def)
qed

text \<open>Remove undoes probe: after a successful probe it finds the driver data, disables the
  interrupt with one register write, and takes the device node away.\<close>

lemma lgnpu_probe_remove:
  assumes "fst (lgnpu_probe kern bus pdev h) = 0" and "devm_platform_ioremap_resource pdev = Inr a"
    and "0 \<le> platform_get_irq pdev" and "devm_request_irq pdev (platform_get_irq pdev) = 0"
  shows "\<exists>h'. lgnpu_remove bus (snd (lgnpu_probe kern bus pdev h)) = Some h' \<and> \<not> misc_node h' \<and>
    host_hw h' = bus_write bus (reg_addr a LGNPU_REG_IRQ_ENABLE) 0
      (host_hw (snd (lgnpu_probe kern bus pdev h)))"
proof -
  have k: "devm_kzalloc_ok pdev"
    using assms(1) by (rule contrapos_pp) (simp add: lgnpu_probe_def ENOMEM_def)
  show ?thesis
    using assms(1)
    by (simp add: probe_eq [OF k assms(2-4)] Let_def split_def lgnpu_remove_def irq_gate host_of_def
        split: if_splits)
qed

end
