(* ===== verification/Npu_Decode.thy ===== *)
theory Npu_Decode
  imports Npu_Cmd
begin

text \<open>
  The hardware side of the descriptor: the packed command types and view functions of
  \<open>include/pkg/npu_cmd_pkg.sv\<close>, the field extraction and opcode check of
  \<open>rtl/control/npu_cmd_decode.sv\<close> (combinational part; its state machine is in the device
  theory), and the opcode routing of \<open>rtl/core/npu_dispatch.sv\<close>.  A packed field
  \<open>logic [w-1:0]\<close> is a \<open>w\<close>-bit word.
\<close>

section \<open>Command types (\<open>npu_cmd_pkg.sv\<close>)\<close>

definition OP_CONV :: "4 word" where [rtl_sem]: "OP_CONV = 1"

definition OP_GEMM :: "4 word" where [rtl_sem]: "OP_GEMM = 2"

definition OP_SOFTMAX :: "4 word" where [rtl_sem]: "OP_SOFTMAX = 3"

definition OP_VEC :: "4 word" where [rtl_sem]: "OP_VEC = 4"

definition OP_LNORM :: "4 word" where [rtl_sem]: "OP_LNORM = 5"

definition OP_POOL :: "4 word" where [rtl_sem]: "OP_POOL = 6"

record conv_cmd_t =
  opcode :: "4 word"
  act_in_addr :: u16
  act_out_addr :: u16
  weight_addr :: u16
  bias_addr :: u16
  in_h :: u16
  in_w :: u16
  in_c :: u16
  out_k :: u16
  filt_r :: u16
  filt_s :: u16
  stride_h :: u16
  stride_w :: u16
  pad_h :: u16
  pad_w :: u16
  out_h :: u16
  out_w :: u16
  quant_shift :: "5 word"
  act_mode :: "2 word"

record gemm_cmd_t =
  g_a_addr :: u16
  g_c_addr :: u16
  g_b_addr :: u16
  g_bias_addr :: u16
  g_m_dim :: u16
  g_n_dim :: u16
  g_k_dim :: u16
  g_quant_shift :: "5 word"
  g_act_mode :: "2 word"

record softmax_cmd_t =
  s_in_addr :: u16
  s_out_addr :: u16
  s_num_rows :: u16
  s_row_len :: u16

record vec_cmd_t =
  v_a_addr :: u16
  v_out_addr :: u16
  v_b_addr :: u16
  v_length :: u16
  v_vec_op :: bool
  v_quant_shift :: "5 word"
  v_act_mode :: "2 word"

record lnorm_cmd_t =
  l_in_addr :: u16
  l_out_addr :: u16
  l_num_rows :: u16
  l_row_len :: u16
  l_norm_shift :: "5 word"

record pool_cmd_t =
  p_in_addr :: u16
  p_out_addr :: u16
  p_in_h :: u16
  p_in_w :: u16
  p_in_c :: u16
  p_pool_r :: u16
  p_pool_s :: u16
  p_stride_h :: u16
  p_stride_w :: u16
  p_pad_h :: u16
  p_pad_w :: u16
  p_out_h :: u16
  p_out_w :: u16
  p_pool_mode :: bool

definition conv_to_gemm_cmd :: "conv_cmd_t \<Rightarrow> gemm_cmd_t" where
  "conv_to_gemm_cmd cmd =
     \<lparr>g_a_addr = act_in_addr cmd, g_c_addr = act_out_addr cmd, g_b_addr = weight_addr cmd,
      g_bias_addr = bias_addr cmd, g_m_dim = in_h cmd, g_n_dim = in_w cmd, g_k_dim = in_c cmd,
      g_quant_shift = quant_shift cmd, g_act_mode = act_mode cmd\<rparr>"

definition conv_to_softmax_cmd :: "conv_cmd_t \<Rightarrow> softmax_cmd_t" where
  "conv_to_softmax_cmd cmd =
     \<lparr>s_in_addr = act_in_addr cmd, s_out_addr = act_out_addr cmd, s_num_rows = in_h cmd,
      s_row_len = in_w cmd\<rparr>"

definition conv_to_vec_cmd :: "conv_cmd_t \<Rightarrow> vec_cmd_t" where
  "conv_to_vec_cmd cmd =
     \<lparr>v_a_addr = act_in_addr cmd, v_out_addr = act_out_addr cmd, v_b_addr = weight_addr cmd,
      v_length = in_h cmd, v_vec_op = bit (in_w cmd) 0, v_quant_shift = quant_shift cmd,
      v_act_mode = act_mode cmd\<rparr>"

definition conv_to_lnorm_cmd :: "conv_cmd_t \<Rightarrow> lnorm_cmd_t" where
  "conv_to_lnorm_cmd cmd =
     \<lparr>l_in_addr = act_in_addr cmd, l_out_addr = act_out_addr cmd, l_num_rows = in_h cmd,
      l_row_len = in_w cmd, l_norm_shift = quant_shift cmd\<rparr>"

definition conv_to_pool_cmd :: "conv_cmd_t \<Rightarrow> pool_cmd_t" where
  "conv_to_pool_cmd cmd =
     \<lparr>p_in_addr = act_in_addr cmd, p_out_addr = act_out_addr cmd, p_in_h = in_h cmd,
      p_in_w = in_w cmd, p_in_c = in_c cmd, p_pool_r = filt_r cmd, p_pool_s = filt_s cmd,
      p_stride_h = stride_h cmd, p_stride_w = stride_w cmd, p_pad_h = pad_h cmd,
      p_pad_w = pad_w cmd, p_out_h = out_h cmd, p_out_w = out_w cmd,
      p_pool_mode = bit (quant_shift cmd) 0\<rparr>"

section \<open>Field extraction (\<open>npu_cmd_decode.sv\<close>)\<close>

definition decode_err :: "u32 list \<Rightarrow> bool" where
  "decode_err desc_regs =
     (let op = ucast (desc_regs ! 0) :: 4 word
      in op \<noteq> OP_CONV \<and> op \<noteq> OP_GEMM \<and> op \<noteq> OP_SOFTMAX \<and> op \<noteq> OP_VEC \<and> op \<noteq> OP_LNORM \<and>
         op \<noteq> OP_POOL)"

definition decode_fields :: "u32 list \<Rightarrow> conv_cmd_t" where
  "decode_fields desc_regs =
     \<lparr>opcode = ucast (desc_regs ! 0),
      act_in_addr = ucast (desc_regs ! 1),
      act_out_addr = ucast (desc_regs ! 2),
      weight_addr = ucast (desc_regs ! 3),
      bias_addr = ucast (desc_regs ! 4),
      in_h = ucast (desc_regs ! 5),
      in_w = ucast (desc_regs ! 6),
      in_c = ucast (desc_regs ! 7),
      out_k = ucast (desc_regs ! 8),
      filt_r = ucast (desc_regs ! 9),
      filt_s = ucast (desc_regs ! 10),
      stride_h = ucast (desc_regs ! 11),
      stride_w = ucast (desc_regs ! 12),
      pad_h = ucast (desc_regs ! 13),
      pad_w = ucast (desc_regs ! 14),
      out_h = ucast (drop_bit 16 (desc_regs ! 13)),
      out_w = ucast (drop_bit 16 (desc_regs ! 14)),
      quant_shift = ucast (desc_regs ! 15),
      act_mode = ucast (drop_bit 5 (desc_regs ! 15))\<rparr>"

section \<open>Routing (\<open>npu_dispatch.sv\<close>)\<close>

datatype backend_cmd =
    Gemm gemm_cmd_t
  | Softmax softmax_cmd_t
  | Vec vec_cmd_t
  | Lnorm lnorm_cmd_t
  | Pool pool_cmd_t
  | Conv conv_cmd_t

definition npu_dispatch :: "conv_cmd_t \<Rightarrow> backend_cmd" where
  "npu_dispatch cmd =
     (if opcode cmd = OP_GEMM then Gemm (conv_to_gemm_cmd cmd)
      else if opcode cmd = OP_SOFTMAX then Softmax (conv_to_softmax_cmd cmd)
      else if opcode cmd = OP_VEC then Vec (conv_to_vec_cmd cmd)
      else if opcode cmd = OP_LNORM then Lnorm (conv_to_lnorm_cmd cmd)
      else if opcode cmd = OP_POOL then Pool (conv_to_pool_cmd cmd)
      else Conv cmd)"

text \<open>What the hardware makes of a descriptor: an error event for a reserved opcode, else a
  command for one backend.\<close>

definition hw_accepts :: "u32 list \<Rightarrow> backend_cmd option" where
  "hw_accepts desc_regs =
     (if decode_err desc_regs then None else Some (npu_dispatch (decode_fields desc_regs)))"

section \<open>Packed fields\<close>

lemma u32_masks: "(31 :: u32) = mask 5" "(3 :: u32) = mask 2" "(1 :: u32) = mask 1"
  by (simp_all add: mask_eq_exp_minus_1)

lemma ucast_pair_low [simp]: "ucast ((ucast (a :: u16) :: u32) OR push_bit 16 (ucast (b :: u16))) = a"
  by (rule bit_word_eqI) (simp add: bit_simps)

lemma ucast_pair_high [simp]:
  "ucast (drop_bit 16 ((ucast (a :: u16) :: u32) OR push_bit 16 (ucast (b :: u16)))) = b"
  by (rule bit_word_eqI) (auto simp: bit_simps dest: bit_imp_le_length)

lemma ucast_shift_low [simp]:
  "ucast (((ucast (q :: u8) :: u32) AND 31) OR push_bit 5 (ucast (a :: u8) AND 3)) = (ucast q :: 5 word)"
  unfolding u32_masks by (rule bit_word_eqI) (auto simp: bit_simps)

lemma ucast_shift_high [simp]:
  "ucast (drop_bit 5 (((ucast (q :: u8) :: u32) AND 31) OR push_bit 5 (ucast (a :: u8) AND 3))) =
     (ucast a :: 2 word)"
  unfolding u32_masks by (rule bit_word_eqI) (auto simp: bit_simps)

lemma ucast_mask5 [simp]: "ucast ((ucast (q :: u8) :: u32) AND 31) = (ucast q :: 5 word)"
  unfolding u32_masks by (rule bit_word_eqI) (auto simp: bit_simps)

lemma bit0_mask1 [simp]: "bit (ucast ((ucast (q :: u8) :: u32) AND 1) :: 5 word) 0 = bit q 0"
  unfolding u32_masks by (auto simp: bit_simps)

lemma bit0_u8_u16 [simp]: "bit (ucast (ucast (q :: u8) :: u32) :: u16) 0 = bit q 0"
  by (auto simp: bit_simps)

lemma bit0_odd: "bit (q :: u8) 0 = odd (unat q)"
  using bit_0 [of "unat q"] by (simp add: bit_unsigned_iff del: bit_0)

section \<open>Builder and decoder\<close>

lemma nth_list16 [simp]:
  "[a0, a1, a2, a3, a4, a5, a6, a7, a8, a9, a10, a11, a12, a13, a14, a15] ! 0 = a0"
  "[a0, a1, a2, a3, a4, a5, a6, a7, a8, a9, a10, a11, a12, a13, a14, a15] ! 1 = a1"
  "[a0, a1, a2, a3, a4, a5, a6, a7, a8, a9, a10, a11, a12, a13, a14, a15] ! 2 = a2"
  "[a0, a1, a2, a3, a4, a5, a6, a7, a8, a9, a10, a11, a12, a13, a14, a15] ! 3 = a3"
  "[a0, a1, a2, a3, a4, a5, a6, a7, a8, a9, a10, a11, a12, a13, a14, a15] ! 4 = a4"
  "[a0, a1, a2, a3, a4, a5, a6, a7, a8, a9, a10, a11, a12, a13, a14, a15] ! 5 = a5"
  "[a0, a1, a2, a3, a4, a5, a6, a7, a8, a9, a10, a11, a12, a13, a14, a15] ! 6 = a6"
  "[a0, a1, a2, a3, a4, a5, a6, a7, a8, a9, a10, a11, a12, a13, a14, a15] ! 7 = a7"
  "[a0, a1, a2, a3, a4, a5, a6, a7, a8, a9, a10, a11, a12, a13, a14, a15] ! 8 = a8"
  "[a0, a1, a2, a3, a4, a5, a6, a7, a8, a9, a10, a11, a12, a13, a14, a15] ! 9 = a9"
  "[a0, a1, a2, a3, a4, a5, a6, a7, a8, a9, a10, a11, a12, a13, a14, a15] ! 10 = a10"
  "[a0, a1, a2, a3, a4, a5, a6, a7, a8, a9, a10, a11, a12, a13, a14, a15] ! 11 = a11"
  "[a0, a1, a2, a3, a4, a5, a6, a7, a8, a9, a10, a11, a12, a13, a14, a15] ! 12 = a12"
  "[a0, a1, a2, a3, a4, a5, a6, a7, a8, a9, a10, a11, a12, a13, a14, a15] ! 13 = a13"
  "[a0, a1, a2, a3, a4, a5, a6, a7, a8, a9, a10, a11, a12, a13, a14, a15] ! 14 = a14"
  "[a0, a1, a2, a3, a4, a5, a6, a7, a8, a9, a10, a11, a12, a13, a14, a15] ! 15 = a15"
  by simp_all

lemmas decode_simps = hw_accepts_def decode_err_def decode_fields_def npu_dispatch_def Let_def
  conv_to_gemm_cmd_def conv_to_softmax_cmd_def conv_to_vec_cmd_def conv_to_lnorm_cmd_def
  conv_to_pool_cmd_def rtl_sem

lemma build_total:
  "\<exists>d'. npu_cmd_build_conv (Some d) (Some pc) = (0, Some d')"
  "\<exists>d'. npu_cmd_build_gemm (Some d) (Some pg) = (0, Some d')"
  "\<exists>d'. npu_cmd_build_softmax (Some d) (Some ps) = (0, Some d')"
  "\<exists>d'. npu_cmd_build_vec (Some d) (Some pv) = (0, Some d')"
  "\<exists>d'. npu_cmd_build_lnorm (Some d) (Some pl) = (0, Some d')"
  "\<exists>d'. npu_cmd_build_pool (Some d) (Some pp) = (0, Some d')"
  by (simp_all add: npu_cmd_build_conv_def npu_cmd_build_gemm_def npu_cmd_build_softmax_def
      npu_cmd_build_vec_def npu_cmd_build_lnorm_def npu_cmd_build_pool_def Let_def)

lemma gemm_accepted:
  "\<exists>d'. npu_cmd_build_gemm (Some d) (Some g) = (0, Some d') \<and>
     hw_accepts (words d') = Some (Gemm
       \<lparr>g_a_addr = gemm_a_addr g, g_c_addr = gemm_c_addr g, g_b_addr = gemm_b_addr g,
        g_bias_addr = gemm_bias_addr g, g_m_dim = gemm_M g, g_n_dim = gemm_N g,
        g_k_dim = gemm_K g, g_quant_shift = ucast (gemm_quant_shift g),
        g_act_mode = ucast (gemm_act_mode g)\<rparr>)"
proof -
  obtain d' where b: "npu_cmd_build_gemm (Some d) (Some g) = (0, Some d')"
    using build_total by blast
  with build_gemm_words [OF b] show ?thesis
    by (simp add: decode_simps del: drop_bit_or push_bit_and)
qed

lemma vec_accepted:
  "\<exists>d'. npu_cmd_build_vec (Some d) (Some v) = (0, Some d') \<and>
     hw_accepts (words d') = Some (Vec
       \<lparr>v_a_addr = vec_a_addr v, v_out_addr = vec_out_addr v, v_b_addr = vec_b_addr v,
        v_length = vec_length v, v_vec_op = odd (unat (vec_vec_op v)),
        v_quant_shift = ucast (vec_quant_shift v), v_act_mode = ucast (vec_act_mode v)\<rparr>)"
proof -
  obtain d' where b: "npu_cmd_build_vec (Some d) (Some v) = (0, Some d')"
    using build_total by blast
  with build_vec_words [OF b] show ?thesis
    by (simp add: decode_simps bit0_odd del: drop_bit_or push_bit_and)
qed

lemma softmax_accepted:
  "\<exists>d'. npu_cmd_build_softmax (Some d) (Some s) = (0, Some d') \<and>
     hw_accepts (words d') = Some (Softmax
       \<lparr>s_in_addr = softmax_in_addr s, s_out_addr = softmax_out_addr s,
        s_num_rows = softmax_num_rows s, s_row_len = softmax_row_len s\<rparr>)"
proof -
  obtain d' where b: "npu_cmd_build_softmax (Some d) (Some s) = (0, Some d')"
    using build_total by blast
  with build_softmax_words [OF b] show ?thesis
    by (simp add: decode_simps del: drop_bit_or push_bit_and)
qed

lemma lnorm_accepted:
  "\<exists>d'. npu_cmd_build_lnorm (Some d) (Some l) = (0, Some d') \<and>
     hw_accepts (words d') = Some (Lnorm
       \<lparr>l_in_addr = lnorm_in_addr l, l_out_addr = lnorm_out_addr l,
        l_num_rows = lnorm_num_rows l, l_row_len = lnorm_row_len l,
        l_norm_shift = ucast (lnorm_norm_shift l)\<rparr>)"
proof -
  obtain d' where b: "npu_cmd_build_lnorm (Some d) (Some l) = (0, Some d')"
    using build_total by blast
  with build_lnorm_words [OF b] show ?thesis
    by (simp add: decode_simps del: drop_bit_or push_bit_and)
qed

lemma pool_accepted:
  "\<exists>d'. npu_cmd_build_pool (Some d) (Some p) = (0, Some d') \<and> length (words d') = LGNPU_CMD_WORDS \<and>
    hw_accepts (words d') = Some (Pool
      \<lparr>p_in_addr = pool_in_addr p, p_out_addr = pool_out_addr p,
       p_in_h = pool_in_h p, p_in_w = pool_in_w p, p_in_c = pool_in_c p,
       p_pool_r = pool_pool_r p, p_pool_s = pool_pool_s p,
       p_stride_h = pool_stride_h p, p_stride_w = pool_stride_w p,
       p_pad_h = pool_pad_h p, p_pad_w = pool_pad_w p,
       p_out_h = derive_out_dim (pool_in_h p) (pool_pad_h p) (pool_pool_r p) (pool_stride_h p)
         (pool_out_h p),
       p_out_w = derive_out_dim (pool_in_w p) (pool_pad_w p) (pool_pool_s p) (pool_stride_w p)
         (pool_out_w p),
       p_pool_mode = bit (pool_pool_mode p) 0\<rparr>)"
proof -
  obtain d' where b: "npu_cmd_build_pool (Some d) (Some p) = (0, Some d')"
    using build_total by blast
  with build_pool_words [OF b] show ?thesis
    by (simp add: decode_simps del: drop_bit_or push_bit_and)
qed

lemma conv_accepted:
  "\<exists>d'. npu_cmd_build_conv (Some d) (Some p) = (0, Some d') \<and> length (words d') = LGNPU_CMD_WORDS \<and>
    hw_accepts (words d') = Some (Conv
      \<lparr>opcode = OP_CONV, act_in_addr = conv_act_in_addr p, act_out_addr = conv_act_out_addr p,
       weight_addr = conv_weight_addr p, bias_addr = conv_bias_addr p,
       in_h = conv_in_h p, in_w = conv_in_w p, in_c = conv_in_c p, out_k = conv_out_k p,
       filt_r = conv_filt_r p, filt_s = conv_filt_s p,
       stride_h = conv_stride_h p, stride_w = conv_stride_w p,
       pad_h = conv_pad_h p, pad_w = conv_pad_w p,
       out_h = derive_out_dim (conv_in_h p) (conv_pad_h p) (conv_filt_r p) (conv_stride_h p)
         (conv_out_h p),
       out_w = derive_out_dim (conv_in_w p) (conv_pad_w p) (conv_filt_s p) (conv_stride_w p)
         (conv_out_w p),
       quant_shift = ucast (conv_quant_shift p), act_mode = ucast (conv_act_mode p)\<rparr>)"
proof -
  obtain d' where b: "npu_cmd_build_conv (Some d) (Some p) = (0, Some d')"
    using build_total by blast
  with build_conv_words [OF b] show ?thesis
    by (simp add: decode_simps del: drop_bit_or push_bit_and)
qed

section \<open>Properties\<close>

text \<open>C26: A descriptor built by \<open>npu_cmd_build_conv\<close> is accepted by the hardware decoder and
  routed to the convolution backend with exactly the caller's parameters: all sixteen words
  line up with \<open>npu_cmd_decode.sv\<close>, the two derived output dimensions arrive in the upper
  halves of words 13 and 14, and the shift and activation selectors are cut to 5 and 2 bits.\<close>

theorem conv_descriptor_roundtrip:
  "\<exists>d'. npu_cmd_build_conv (Some d) (Some p) = (0, Some d') \<and> length (words d') = LGNPU_CMD_WORDS \<and>
    hw_accepts (words d') = Some (Conv
      \<lparr>opcode = OP_CONV, act_in_addr = conv_act_in_addr p, act_out_addr = conv_act_out_addr p,
       weight_addr = conv_weight_addr p, bias_addr = conv_bias_addr p,
       in_h = conv_in_h p, in_w = conv_in_w p, in_c = conv_in_c p, out_k = conv_out_k p,
       filt_r = conv_filt_r p, filt_s = conv_filt_s p,
       stride_h = conv_stride_h p, stride_w = conv_stride_w p,
       pad_h = conv_pad_h p, pad_w = conv_pad_w p,
       out_h = derive_out_dim (conv_in_h p) (conv_pad_h p) (conv_filt_r p) (conv_stride_h p)
         (conv_out_h p),
       out_w = derive_out_dim (conv_in_w p) (conv_pad_w p) (conv_filt_s p) (conv_stride_w p)
         (conv_out_w p),
       quant_shift = ucast (conv_quant_shift p), act_mode = ucast (conv_act_mode p)\<rparr>)"
  by (rule conv_accepted)

text \<open>The same for pooling: the command the pooling backend receives carries the caller's
  window, stride, padding and shape, the derived output shape, and the mode bit.\<close>

theorem pool_descriptor_roundtrip:
  "\<exists>d'. npu_cmd_build_pool (Some d) (Some p) = (0, Some d') \<and> length (words d') = LGNPU_CMD_WORDS \<and>
    hw_accepts (words d') = Some (Pool
      \<lparr>p_in_addr = pool_in_addr p, p_out_addr = pool_out_addr p,
       p_in_h = pool_in_h p, p_in_w = pool_in_w p, p_in_c = pool_in_c p,
       p_pool_r = pool_pool_r p, p_pool_s = pool_pool_s p,
       p_stride_h = pool_stride_h p, p_stride_w = pool_stride_w p,
       p_pad_h = pool_pad_h p, p_pad_w = pool_pad_w p,
       p_out_h = derive_out_dim (pool_in_h p) (pool_pad_h p) (pool_pool_r p) (pool_stride_h p)
         (pool_out_h p),
       p_out_w = derive_out_dim (pool_in_w p) (pool_pad_w p) (pool_pool_s p) (pool_stride_w p)
         (pool_out_w p),
       p_pool_mode = bit (pool_pool_mode p) 0\<rparr>)"
  by (rule pool_accepted)

text \<open>GEMM and vector descriptors arrive at their backends with the caller's parameters
  under the hardware's field aliases.  For the vector unit the operation is the lowest bit
  of \<open>vec_op\<close>, so every even selector is an addition.\<close>

theorem gemm_vec_descriptor_roundtrip:
  "(\<exists>d'. npu_cmd_build_gemm (Some d) (Some g) = (0, Some d') \<and>
     hw_accepts (words d') = Some (Gemm
       \<lparr>g_a_addr = gemm_a_addr g, g_c_addr = gemm_c_addr g, g_b_addr = gemm_b_addr g,
        g_bias_addr = gemm_bias_addr g, g_m_dim = gemm_M g, g_n_dim = gemm_N g,
        g_k_dim = gemm_K g, g_quant_shift = ucast (gemm_quant_shift g),
        g_act_mode = ucast (gemm_act_mode g)\<rparr>)) \<and>
   (\<exists>d'. npu_cmd_build_vec (Some d) (Some v) = (0, Some d') \<and>
     hw_accepts (words d') = Some (Vec
       \<lparr>v_a_addr = vec_a_addr v, v_out_addr = vec_out_addr v, v_b_addr = vec_b_addr v,
        v_length = vec_length v, v_vec_op = odd (unat (vec_vec_op v)),
        v_quant_shift = ucast (vec_quant_shift v), v_act_mode = ucast (vec_act_mode v)\<rparr>))"
  using gemm_accepted vec_accepted by blast

text \<open>Softmax and layer-norm descriptors arrive at their backends with the caller's
  parameters; the layer-norm shift is cut to 5 bits.\<close>

theorem softmax_lnorm_descriptor_roundtrip:
  "(\<exists>d'. npu_cmd_build_softmax (Some d) (Some s) = (0, Some d') \<and>
     hw_accepts (words d') = Some (Softmax
       \<lparr>s_in_addr = softmax_in_addr s, s_out_addr = softmax_out_addr s,
        s_num_rows = softmax_num_rows s, s_row_len = softmax_row_len s\<rparr>)) \<and>
   (\<exists>d'. npu_cmd_build_lnorm (Some d) (Some l) = (0, Some d') \<and>
     hw_accepts (words d') = Some (Lnorm
       \<lparr>l_in_addr = lnorm_in_addr l, l_out_addr = lnorm_out_addr l,
        l_num_rows = lnorm_num_rows l, l_row_len = lnorm_row_len l,
        l_norm_shift = ucast (lnorm_norm_shift l)\<rparr>))"
  using softmax_accepted lnorm_accepted by blast

end
