(* ===== verification/Npu_Fifo.thy ===== *)
theory Npu_Fifo
  imports Npu_Prelude
begin

text \<open>
  The command queue: the synchronous ring buffer \<open>rtl/common/fifo.sv\<close> at the depth
  \<open>npu_queue.sv\<close> uses (four entries, so a 2-bit index and pointers with one extra bit), an
  abstract bounded queue on lists, and the refinement between them.  What the clients of a
  queue rely on is the locale \<open>bounded_queue\<close>.
\<close>

section \<open>The ring buffer (\<open>fifo.sv\<close>)\<close>

record 'a fifo =
  fifo_mem :: "2 word \<Rightarrow> 'a"
  wr_ptr :: "3 word"
  rd_ptr :: "3 word"

definition fifo_full :: "'a fifo \<Rightarrow> bool" where
  "fifo_full f = (bit (wr_ptr f) 2 \<noteq> bit (rd_ptr f) 2 \<and>
     (ucast (wr_ptr f) :: 2 word) = ucast (rd_ptr f))"

definition fifo_empty :: "'a fifo \<Rightarrow> bool" where
  "fifo_empty f = (wr_ptr f = rd_ptr f)"

text \<open>\<open>rd_data\<close>; meaningful only when the queue is not empty.\<close>

definition fifo_rd_data :: "'a fifo \<Rightarrow> 'a" where
  "fifo_rd_data f = fifo_mem f (ucast (rd_ptr f))"

text \<open>One clock edge, with the write request (the data, if \<open>wr_valid\<close>) and \<open>rd_ready\<close>.\<close>

definition fifo_step :: "'a option \<Rightarrow> bool \<Rightarrow> 'a fifo \<Rightarrow> 'a fifo" where
  "fifo_step wr rd_ready f =
     (let do_wr = (wr \<noteq> None \<and> \<not> fifo_full f);
          do_rd = (\<not> fifo_empty f \<and> rd_ready)
      in \<lparr>fifo_mem = (if do_wr then (fifo_mem f)(ucast (wr_ptr f) := the wr) else fifo_mem f),
          wr_ptr = (if do_wr then wr_ptr f + 1 else wr_ptr f),
          rd_ptr = (if do_rd then rd_ptr f + 1 else rd_ptr f)\<rparr>)"

definition fifo_reset :: "'a fifo \<Rightarrow> 'a fifo" where
  "fifo_reset f = f\<lparr>wr_ptr := 0, rd_ptr := 0\<rparr>"

section \<open>The abstract queue\<close>

definition fifo_count :: "'a fifo \<Rightarrow> nat" where
  "fifo_count f = unat (wr_ptr f - rd_ptr f)"

definition fifo_inv :: "'a fifo \<Rightarrow> bool" where
  "fifo_inv f = (fifo_count f \<le> 4)"

text \<open>The entries, oldest first.\<close>

definition contents :: "'a fifo \<Rightarrow> 'a list" where
  "contents f = map (\<lambda>i. fifo_mem f (ucast (rd_ptr f + word_of_nat i))) [0..<fifo_count f]"

text \<open>A bounded queue takes the write unless it is full and drops the oldest entry on a read.\<close>

definition queue_step :: "nat \<Rightarrow> 'a option \<Rightarrow> bool \<Rightarrow> 'a list \<Rightarrow> 'a list" where
  "queue_step cap wr rd xs =
     (if rd then tl xs else xs) @
     (case wr of Some x \<Rightarrow> if length xs < cap then [x] else [] | None \<Rightarrow> [])"

text \<open>What a run of steps accepts and delivers.\<close>

fun queue_run :: "('q \<Rightarrow> bool) \<Rightarrow> ('q \<Rightarrow> bool) \<Rightarrow> ('q \<Rightarrow> 'a) \<Rightarrow> ('a option \<Rightarrow> bool \<Rightarrow> 'q \<Rightarrow> 'q) \<Rightarrow>
    ('a option \<times> bool) list \<Rightarrow> 'q \<Rightarrow> 'a list \<times> 'a list \<times> 'q" where
  "queue_run full emp front step [] q = ([], [], q)"
| "queue_run full emp front step ((wr, rd) # ins) q =
     (let (acc, out, q') = queue_run full emp front step ins (step wr rd q)
      in ((case wr of Some x \<Rightarrow> if full q then [] else [x] | None \<Rightarrow> []) @ acc,
          (if rd \<and> \<not> emp q then [front q] else []) @ out, q'))"

section \<open>The queue interface\<close>

locale bounded_queue =
  fixes inv :: "'q \<Rightarrow> bool" and view :: "'q \<Rightarrow> 'a list" and cap :: nat
    and full :: "'q \<Rightarrow> bool" and emp :: "'q \<Rightarrow> bool" and front :: "'q \<Rightarrow> 'a"
    and step :: "'a option \<Rightarrow> bool \<Rightarrow> 'q \<Rightarrow> 'q"
  assumes cap_pos: "0 < cap"
    and inv_step: "inv q \<Longrightarrow> inv (step wr rd q)"
    and view_bound: "inv q \<Longrightarrow> length (view q) \<le> cap"
    and full_iff: "inv q \<Longrightarrow> full q \<longleftrightarrow> length (view q) = cap"
    and empty_iff: "inv q \<Longrightarrow> emp q \<longleftrightarrow> view q = []"
    and front_hd: "inv q \<Longrightarrow> view q \<noteq> [] \<Longrightarrow> front q = hd (view q)"
    and view_step: "inv q \<Longrightarrow> view (step wr rd q) = queue_step cap wr rd (view q)"
begin

text \<open>In order, without loss or duplication, over any sequence of requests.\<close>

lemma run_order:
  assumes "inv q" and "queue_run full emp front step ins q = (acc, out, q')"
  shows "inv q' \<and> view q @ acc = out @ view q'"
  using assms
proof (induction ins arbitrary: q acc out)
  case Nil
  then show ?case by simp
next
  case (Cons io ins)
  obtain wr rd where io: "io = (wr, rd)" by (cases io)
  obtain acc1 out1 where r: "queue_run full emp front step ins (step wr rd q) = (acc1, out1, q')"
    and acc: "acc = (case wr of Some x \<Rightarrow> if full q then [] else [x] | None \<Rightarrow> []) @ acc1"
    and out: "out = (if rd \<and> \<not> emp q then [front q] else []) @ out1"
    using Cons.prems(2)
    by (cases "queue_run full emp front step ins (step wr rd q)") (auto simp: io Let_def)
  have IH: "inv q' \<and> view (step wr rd q) @ acc1 = out1 @ view q'"
    using Cons.IH [OF inv_step [OF Cons.prems(1)] r] .
  have "(if rd \<and> \<not> emp q then [front q] else []) @ view (step wr rd q) =
      view q @ (case wr of Some x \<Rightarrow> if full q then [] else [x] | None \<Rightarrow> [])"
    using Cons.prems(1) view_bound [OF Cons.prems(1)] cap_pos
    by (cases "view q")
      (auto simp: view_step queue_step_def full_iff empty_iff front_hd split: option.split)
  with IH have "(view q @ (case wr of Some x \<Rightarrow> if full q then [] else [x] | None \<Rightarrow> [])) @ acc1 =
      (if rd \<and> \<not> emp q then [front q] else []) @ out1 @ view q'"
    by (metis append.assoc)
  with IH show ?case by (simp only: acc out append_assoc)
qed

lemma last_pushed:
  assumes "inv q" and "\<not> full q"
  shows "view (step (Some x) rd q) \<noteq> [] \<and> last (view (step (Some x) rd q)) = x"
  using assms view_bound [OF assms(1)] by (simp add: view_step queue_step_def full_iff)

end


section \<open>The ring buffer is a queue of four entries\<close>

lemma unat_3_less [simp]: "unat (x :: 3 word) < 8"
  using unsigned_less [of x, where ?'a = nat] by simp

lemma unat_3_diff: "unat (w - r) = (if unat r \<le> unat w then unat w - unat r else unat w + 8 - unat r)"
  for w r :: "3 word"
  by (simp add: unat_sub_if' word_le_nat_alt)

lemma ring_full_iff:
  fixes w r :: "3 word"
  shows "bit w 2 \<noteq> bit r 2 \<and> (ucast w :: 2 word) = ucast r \<longleftrightarrow> unat (w - r) = 4"
proof -
  have b: "bit x 2 \<longleftrightarrow> odd (unat x div 4)" for x :: "3 word"
    using bit_unsigned_iff [where ?'a = nat, of x 2] by (auto simp: bit_iff_odd)
  have u: "(ucast w :: 2 word) = ucast r \<longleftrightarrow> unat w mod 4 = unat r mod 4"
    by (simp add: word_unat_eq_iff unsigned_ucast_eq take_bit_eq_mod)
  have d: "odd (unat x div 4) \<longleftrightarrow> 4 \<le> unat x" for x :: "3 word"
  proof (cases "4 \<le> unat x")
    case True
    then have "unat x div 4 = 1" using unat_3_less [of x] by (intro div_nat_eqI) simp_all
    with True show ?thesis by simp
  qed simp
  have m: "unat x mod 4 = (if 4 \<le> unat x then unat x - 4 else unat x)" for x :: "3 word"
    using unat_3_less [of x] by (cases "4 \<le> unat x") (simp_all add: le_mod_geq del: unat_3_less)
  show ?thesis unfolding b u unat_3_diff d m
    using unat_3_less [of w] unat_3_less [of r] by (simp del: unat_3_less split: if_split) (intro conjI impI iffI; linarith)
qed

lemma ring_index_inj:
  assumes "i < 4" and "j < 4" and
    "(ucast (r + word_of_nat i) :: 2 word) = ucast (r + word_of_nat j :: 3 word)"
  shows "i = j"
proof -
  have u: "unat (ucast (r + word_of_nat k) :: 2 word) = (unat r + k) mod 4" if "k < 4" for k
  proof -
    have "unat (ucast (r + word_of_nat k) :: 2 word) = ((unat r + k mod 8) mod 8) mod 4"
      by (simp add: unsigned_ucast_eq take_bit_eq_mod unat_word_ariths unat_of_nat)
    also have "\<dots> = (unat r + k) mod 4" using that by (simp add: mod_mod_cancel)
    finally show ?thesis .
  qed
  from assms(3) have "(unat r + i) mod 4 = (unat r + j) mod 4" using u [OF assms(1)] u [OF assms(2)] by simp
  then obtain p q where "unat r + i + 4 * p = unat r + j + 4 * q" by (auto simp: nat_mod_eq_iff)
  with assms(1,2) show ?thesis by presburger
qed

lemma fifo_full_iff: "fifo_full f \<longleftrightarrow> fifo_count f = 4"
  unfolding fifo_full_def fifo_count_def by (rule ring_full_iff)


lemma fifo_count_le: "fifo_inv f \<Longrightarrow> fifo_count f \<le> 4"
  by (simp add: fifo_inv_def)

lemma length_contents [simp]: "length (contents f) = fifo_count f"
  by (simp add: contents_def)

lemma fifo_empty_iff: "fifo_empty f \<longleftrightarrow> fifo_count f = 0"
  by (simp add: fifo_empty_def fifo_count_def)

lemma wr_ptr_eq: "wr_ptr f = rd_ptr f + word_of_nat (fifo_count f)"
  by (simp add: fifo_count_def)

text \<open>A write appends and a read drops, each taken alone.\<close>

lemma fifo_push:
  assumes "fifo_count f < 4"
  shows "fifo_count (fifo_step (Some x) False f) = Suc (fifo_count f)"
    and "contents (fifo_step (Some x) False f) = contents f @ [x]"
proof -
  let ?g = "fifo_step (Some x) False f"
  have g: "fifo_mem ?g = (fifo_mem f)(ucast (wr_ptr f) := x)" "wr_ptr ?g = wr_ptr f + 1"
    "rd_ptr ?g = rd_ptr f"
    using assms by (simp_all add: fifo_step_def fifo_full_iff Let_def)
  have "wr_ptr f + 1 - rd_ptr f = (wr_ptr f - rd_ptr f) + 1" by simp
  moreover have "unat ((wr_ptr f - rd_ptr f) + 1) = Suc (unat (wr_ptr f - rd_ptr f))"
    using assms by (simp add: fifo_count_def unat_word_ariths)
  ultimately show c: "fifo_count ?g = Suc (fifo_count f)" by (simp only: fifo_count_def g)
  have "fifo_mem ?g (ucast (rd_ptr f + word_of_nat i)) = fifo_mem f (ucast (rd_ptr f + word_of_nat i))"
    if "i < fifo_count f" for i
    using that assms ring_index_inj [of i "fifo_count f" "rd_ptr f"] wr_ptr_eq [of f]
    by (auto simp: g(1))
  moreover have "fifo_mem ?g (ucast (rd_ptr f + word_of_nat (fifo_count f))) = x"
    by (simp add: g(1) flip: wr_ptr_eq)
  ultimately show "contents ?g = contents f @ [x]" by (simp add: contents_def c g(3))
qed


text \<open>A read and a write at one edge touch different pointers, so the step is the read followed by
  the write of the value that was accepted.\<close>

lemma fifo_pop:
  assumes "0 < fifo_count f"
  shows "fifo_count (f\<lparr>rd_ptr := rd_ptr f + 1\<rparr>) = fifo_count f - 1"
    and "contents (f\<lparr>rd_ptr := rd_ptr f + 1\<rparr>) = tl (contents f)"
proof -
  let ?d = "wr_ptr f - rd_ptr f"
  have d: "?d \<noteq> 0" using assms by (simp add: fifo_count_def unat_gt_0)
  have "unat (?d - 1) = unat ?d - 1" by (rule unat_minus_one [OF d])
  moreover have w: "wr_ptr f - (rd_ptr f + 1) = ?d - 1" by simp
  ultimately show c: "fifo_count (f\<lparr>rd_ptr := rd_ptr f + 1\<rparr>) = fifo_count f - 1"
    by (simp add: fifo_count_def w)
  from assms obtain n where n: "fifo_count f = Suc n" by (cases "fifo_count f") auto
  then show "contents (f\<lparr>rd_ptr := rd_ptr f + 1\<rparr>) = tl (contents f)"
    unfolding contents_def c by (simp add: map_tl [symmetric] upt_conv_Cons map_Suc_upt [symmetric]
        add.assoc del: upt_Suc)
qed

lemma fifo_step_count:
  assumes "fifo_inv f"
  shows "fifo_inv (fifo_step wr rd f) \<and> contents (fifo_step wr rd f) = queue_step 4 wr rd (contents f)"
proof -
  define f1 where "f1 = (case wr of Some x \<Rightarrow> if fifo_full f then f else fifo_step (Some x) False f
    | None \<Rightarrow> f)"
  have le: "fifo_count f \<le> 4" using assms by (rule fifo_count_le)
  have f1: "contents f1 = contents f @ (case wr of Some x \<Rightarrow> if fifo_count f < 4 then [x] else [] | None \<Rightarrow> [])"
    and c1: "fifo_count f1 \<le> 4" "fifo_count f \<le> fifo_count f1"
    using le fifo_push [of f] by (auto simp: f1_def fifo_full_iff split: option.split)
  have st: "fifo_step wr rd f = (if rd \<and> \<not> fifo_empty f then f1\<lparr>rd_ptr := rd_ptr f1 + 1\<rparr> else f1)"
    by (auto simp: fifo_step_def f1_def Let_def split: option.split)
  show ?thesis
  proof (cases "rd \<and> \<not> fifo_empty f")
    case True
    then have pos: "0 < fifo_count f" by (simp add: fifo_empty_iff)
    then have "contents f \<noteq> []" by (metis length_contents length_0_conv less_nat_zero_code)
    with True pos c1 show ?thesis
      unfolding st by (cases wr) (auto simp: fifo_inv_def fifo_pop f1 queue_step_def)
  next
    case False
    moreover from this have "rd \<Longrightarrow> contents f = []" by (simp add: fifo_empty_iff contents_def)
    ultimately show ?thesis using c1 unfolding st by (cases wr) (auto simp: fifo_inv_def f1 queue_step_def)
  qed
qed

interpretation cmdq: bounded_queue fifo_inv contents 4 fifo_full fifo_empty fifo_rd_data fifo_step
proof (unfold_locales, goal_cases)
  case 1 show ?case by simp
next
  case (2 q wr rd) then show ?case using fifo_step_count by blast
next
  case (3 q) then show ?case by (simp add: fifo_count_le)
next
  case (4 q) then show ?case by (simp add: fifo_full_iff)
next
  case (5 q) then show ?case by (metis fifo_empty_iff length_0_conv length_contents)
next
  case (6 q)
  then obtain n where "fifo_count q = Suc n"
    by (metis length_0_conv length_contents not0_implies_Suc)
  then show ?case by (simp add: contents_def fifo_rd_data_def upt_conv_Cons del: upt_Suc)
next
  case (7 q wr rd) then show ?case using fifo_step_count by blast
qed

section \<open>Properties\<close>

text \<open>C10: The ring buffer of \<open>fifo.sv\<close> refines the abstract queue of four entries: in every cycle its
  entries change exactly as the list does, for any combination of write request and read
  readiness (also both at once, on a full queue and on an empty one), and its pointer
  invariant is kept; the full and empty flags and the read data are those of the list.\<close>

theorem fifo_refines_queue:
  assumes "fifo_inv f"
  shows "fifo_inv (fifo_step wr rd f) \<and>
    contents (fifo_step wr rd f) = queue_step 4 wr rd (contents f) \<and>
    (fifo_full f \<longleftrightarrow> length (contents f) = 4) \<and> (fifo_empty f \<longleftrightarrow> contents f = []) \<and>
    (contents f = [] \<or> fifo_rd_data f = hd (contents f))"
  using assms cmdq.inv_step cmdq.view_step cmdq.full_iff cmdq.empty_iff cmdq.front_hd by metis

theorem fifo_refines_queue_witness:
  "fifo_inv \<lparr>fifo_mem = (\<lambda>i. 9 :: nat), wr_ptr = 1, rd_ptr = 7\<rparr> \<and>
   contents (fifo_step (Some 5) True \<lparr>fifo_mem = (\<lambda>i. 9), wr_ptr = 1, rd_ptr = 7\<rparr>) =
     queue_step 4 (Some 5) True (contents \<lparr>fifo_mem = (\<lambda>i. 9 :: nat), wr_ptr = 1, rd_ptr = 7\<rparr>)"
proof -
  have "fifo_inv \<lparr>fifo_mem = (\<lambda>i. 9 :: nat), wr_ptr = 1, rd_ptr = 7\<rparr>"
    by (simp add: fifo_inv_def fifo_count_def)
  with fifo_refines_queue [OF this, of "Some 5" True] show ?thesis by blast
qed

text \<open>Commands leave the queue in the order in which they were accepted, none lost and none
  duplicated: over any sequence of cycles, what was in the queue followed by what was
  accepted equals what was delivered followed by what is left.\<close>

theorem fifo_run_in_order:
  assumes "fifo_inv f"
    and "queue_run fifo_full fifo_empty fifo_rd_data fifo_step ins f = (acc, out, f')"
  shows "contents f @ acc = out @ contents f' \<and> fifo_inv f'"
  using cmdq.run_order [OF assms] by blast

theorem fifo_run_in_order_witness:
  "contents (fifo_reset \<lparr>fifo_mem = (\<lambda>i. 0 :: nat), wr_ptr = 0, rd_ptr = 0\<rparr>) @ [7, 8] = [7] @ [8]"
proof -
  have i: "fifo_inv (fifo_reset \<lparr>fifo_mem = (\<lambda>i. 0 :: nat), wr_ptr = 0, rd_ptr = 0\<rparr>)"
    by (simp add: fifo_inv_def fifo_count_def fifo_reset_def)
  have "queue_run fifo_full fifo_empty fifo_rd_data fifo_step
      [(Some 7, True), (Some 8, True), (None, False)]
      (fifo_reset \<lparr>fifo_mem = (\<lambda>i. 0 :: nat), wr_ptr = 0, rd_ptr = 0\<rparr>) =
    ([7, 8], [7], \<lparr>fifo_mem = (\<lambda>i. 0)(0 := 7, 1 := 8), wr_ptr = 2, rd_ptr = 1\<rparr>)"
    by (simp add: fifo_full_def fifo_empty_def fifo_rd_data_def fifo_step_def fifo_reset_def)
  from fifo_run_in_order [OF i this] show ?thesis by (simp add: contents_def fifo_count_def)
qed

end
