(* ===== verification/Npu_Shell.thy ===== *)
theory Npu_Shell
  imports Npu_Runtime Npu_Driver Npu_Decode Npu_Fifo
begin

text \<open>
  The control path of the device, cycle by cycle: the register block with the command window
  (\<open>npu_reg_block.sv\<close>), the reset controller (\<open>npu_reset_ctrl.sv\<close>), descriptor fetch and decode
  (\<open>npu_cmd_fetch.sv\<close>, \<open>npu_cmd_decode.sv\<close>), the command queue (\<open>npu_queue.sv\<close>), the scheduler
  (\<open>npu_scheduler.sv\<close>), the interrupt controller (\<open>npu_irq_ctrl.sv\<close>) and the status
  aggregation (\<open>npu_status.sv\<close>), wired as in \<open>npu_shell.sv\<close>.  One function per module gives
  the registers after a clock edge from those before it; reset is asynchronous and hard reset
  is released.  The compute backends, the DMA engines, the performance counters and the
  buffer memories are inputs: what they drive in a cycle is an \<open>env_in\<close> record.  A host access
  takes one cycle, and read data is sampled after the edge, as the integration bench does.
\<close>

section \<open>Inputs\<close>

record mmio_in =
  mmio_addr :: "20 word"
  mmio_wdata :: u32
  mmio_wr :: bool
  mmio_valid :: bool

record env_in =
  dispatch_ready :: bool
  backend_done :: bool
  backend_busy :: bool
  dma_busy :: bool
  dma_done :: bool
  env_perf_cycles :: u32
  env_perf_active :: u32
  env_perf_stall :: u32
  buf_rdata :: u32

section \<open>Register block (\<open>npu_reg_block.sv\<close>)\<close>

record reg_block =
  ctrl_reg :: u32
  irq_en_reg :: u32
  doorbell_r :: bool
  irq_clear_r :: bool
  dma_ext_addr_r :: u32
  dma_loc_addr_r :: "20 word"
  dma_len_r :: u16
  dma_start_r :: bool
  dma_dir_r :: bool
  cmd_mem :: "4 word \<Rightarrow> u32"
  fetch_rvalid_r :: bool
  fetch_rdata_r :: u32
  is_buf_r :: bool

definition is_reg :: "20 word \<Rightarrow> bool" where
  "is_reg a = (a < ucast LGNPU_CMD_QUEUE_BASE)"

definition is_cmd_queue :: "20 word \<Rightarrow> bool" where
  "is_cmd_queue a = (ucast LGNPU_CMD_QUEUE_BASE \<le> a \<and> a < ucast LGNPU_WEIGHT_BUF_BASE)"

definition is_buf :: "20 word \<Rightarrow> bool" where
  "is_buf a = (ucast LGNPU_WEIGHT_BUF_BASE \<le> a)"

definition cmd_index :: "20 word \<Rightarrow> 4 word" where
  "cmd_index a = ucast (drop_bit 2 (a - ucast LGNPU_CMD_QUEUE_BASE))"

definition reg_block_write :: "20 word \<Rightarrow> u32 \<Rightarrow> reg_block \<Rightarrow> reg_block" where
  "reg_block_write a v r =
     (if a = ucast LGNPU_REG_CTRL then r\<lparr>ctrl_reg := v\<rparr>
      else if a = ucast LGNPU_REG_DOORBELL then r\<lparr>doorbell_r := True\<rparr>
      else if a = ucast LGNPU_REG_IRQ_ENABLE then r\<lparr>irq_en_reg := v\<rparr>
      else if a = ucast LGNPU_REG_IRQ_CLEAR then r\<lparr>irq_clear_r := True\<rparr>
      else if a = ucast LGNPU_REG_DMA_EXT_ADDR then r\<lparr>dma_ext_addr_r := v\<rparr>
      else if a = ucast LGNPU_REG_DMA_LOC_ADDR then r\<lparr>dma_loc_addr_r := ucast v\<rparr>
      else if a = ucast LGNPU_REG_DMA_LEN then r\<lparr>dma_len_r := ucast v\<rparr>
      else if a = ucast LGNPU_REG_DMA_CTRL then r\<lparr>dma_start_r := bit v 0, dma_dir_r := bit v 1\<rparr>
      else r)"

definition cmd_mem_next :: "mmio_in \<Rightarrow> reg_block \<Rightarrow> 4 word \<Rightarrow> u32" where
  "cmd_mem_next m r =
     (if mmio_valid m \<and> mmio_wr m \<and> is_cmd_queue (mmio_addr m)
      then (cmd_mem r)(cmd_index (mmio_addr m) := mmio_wdata m) else cmd_mem r)"

definition reg_block_step :: "mmio_in \<Rightarrow> bool \<Rightarrow> 20 word \<Rightarrow> reg_block \<Rightarrow> reg_block" where
  "reg_block_step m fetch_req fetch_addr r =
     (let r1 = r\<lparr>doorbell_r := False, irq_clear_r := False, dma_start_r := False\<rparr>;
          r2 = (if mmio_valid m \<and> mmio_wr m \<and> is_reg (mmio_addr m)
                then reg_block_write (mmio_addr m) (mmio_wdata m) r1 else r1)
      in r2\<lparr>cmd_mem := cmd_mem_next m r,
            fetch_rvalid_r := fetch_req,
            fetch_rdata_r := (if fetch_req then cmd_mem r (cmd_index fetch_addr) else fetch_rdata_r r),
            is_buf_r := (if mmio_valid m then is_buf (mmio_addr m) else is_buf_r r)\<rparr>)"

text \<open>The window has no reset; everything else does.\<close>

definition reg_block_reset :: "mmio_in \<Rightarrow> reg_block \<Rightarrow> reg_block" where
  "reg_block_reset m r =
     \<lparr>ctrl_reg = 0, irq_en_reg = 0, doorbell_r = False, irq_clear_r = False, dma_ext_addr_r = 0,
      dma_loc_addr_r = 0, dma_len_r = 0, dma_start_r = False, dma_dir_r = False,
      cmd_mem = cmd_mem_next m r, fetch_rvalid_r = False, fetch_rdata_r = 0, is_buf_r = False\<rparr>"

section \<open>Descriptor fetch (\<open>npu_cmd_fetch.sv\<close>)\<close>

datatype fetch_state = F_IDLE | F_READ | F_WAIT

record cmd_fetch =
  f_state :: fetch_state
  word_cnt :: "4 word"

definition fetch_req :: "cmd_fetch \<Rightarrow> bool" where
  "fetch_req f = (f_state f = F_READ)"

definition fetch_addr :: "cmd_fetch \<Rightarrow> 20 word" where
  "fetch_addr f = ucast LGNPU_CMD_QUEUE_BASE + push_bit 2 (ucast (word_cnt f))"

definition desc_word_valid :: "bool \<Rightarrow> cmd_fetch \<Rightarrow> bool" where
  "desc_word_valid rvalid f = (f_state f = F_WAIT \<and> rvalid)"

definition desc_done :: "bool \<Rightarrow> cmd_fetch \<Rightarrow> bool" where
  "desc_done rvalid f = (desc_word_valid rvalid f \<and> word_cnt f = 15)"

definition cmd_fetch_step :: "bool \<Rightarrow> bool \<Rightarrow> cmd_fetch \<Rightarrow> cmd_fetch" where
  "cmd_fetch_step doorbell rvalid f =
     \<lparr>f_state = (case f_state f of
          F_IDLE \<Rightarrow> if doorbell then F_READ else F_IDLE
        | F_READ \<Rightarrow> F_WAIT
        | F_WAIT \<Rightarrow> if rvalid then (if word_cnt f = 15 then F_IDLE else F_READ) else F_WAIT),
      word_cnt = (if f_state f = F_IDLE \<and> doorbell then 0
                  else if f_state f = F_WAIT \<and> rvalid then word_cnt f + 1 else word_cnt f)\<rparr>"

section \<open>Decode (\<open>npu_cmd_decode.sv\<close>)\<close>

datatype decode_state = D_IDLE | D_CHECK | D_VALID

record cmd_decode =
  d_state :: decode_state
  desc_regs :: "u32 list"
  cmd_r :: conv_cmd_t
  err_r :: bool

definition cmd_valid :: "cmd_decode \<Rightarrow> bool" where
  "cmd_valid d = (d_state d = D_VALID \<and> \<not> err_r d)"

definition decode_error :: "cmd_decode \<Rightarrow> bool" where
  "decode_error d = (d_state d = D_VALID \<and> err_r d)"

definition cmd_decode_step ::
  "bool \<Rightarrow> 4 word \<Rightarrow> u32 \<Rightarrow> bool \<Rightarrow> bool \<Rightarrow> cmd_decode \<Rightarrow> cmd_decode" where
  "cmd_decode_step word_valid idx word done cmd_ready d =
     \<lparr>d_state = (case d_state d of
          D_IDLE \<Rightarrow> if done then D_CHECK else D_IDLE
        | D_CHECK \<Rightarrow> D_VALID
        | D_VALID \<Rightarrow> if cmd_ready \<or> err_r d then D_IDLE else D_VALID),
      desc_regs = (if word_valid then (desc_regs d)[unat idx := word] else desc_regs d),
      cmd_r = (if d_state d = D_CHECK then decode_fields (desc_regs d) else cmd_r d),
      err_r = (if d_state d = D_CHECK then decode_err (desc_regs d) else err_r d)\<rparr>"

definition conv_cmd_zero :: conv_cmd_t where
  "conv_cmd_zero = decode_fields (replicate 16 0)"

definition cmd_decode_reset :: cmd_decode where
  "cmd_decode_reset =
     \<lparr>d_state = D_IDLE, desc_regs = replicate 16 0, cmd_r = conv_cmd_zero, err_r = False\<rparr>"

section \<open>Scheduler (\<open>npu_scheduler.sv\<close>)\<close>

datatype sched_state = S_IDLE | S_ISSUE | S_WAIT

record scheduler =
  s_state :: sched_state
  sched_cmd :: conv_cmd_t

definition queue_ready :: "scheduler \<Rightarrow> bool" where
  "queue_ready c = (s_state c = S_IDLE)"

definition scheduler_step :: "bool \<Rightarrow> conv_cmd_t \<Rightarrow> env_in \<Rightarrow> scheduler \<Rightarrow> scheduler" where
  "scheduler_step queue_valid queue_cmd e c =
     \<lparr>s_state = (case s_state c of
          S_IDLE \<Rightarrow> if queue_valid then S_ISSUE else S_IDLE
        | S_ISSUE \<Rightarrow> if dispatch_ready e then S_WAIT else S_ISSUE
        | S_WAIT \<Rightarrow> if backend_done e then S_IDLE else S_WAIT),
      sched_cmd = (if s_state c = S_IDLE \<and> queue_valid then queue_cmd else sched_cmd c)\<rparr>"

section \<open>Interrupt and reset controllers\<close>

definition irq_step :: "bool \<Rightarrow> bool \<Rightarrow> bool \<Rightarrow> bool" where
  "irq_step clear event pending = (if clear then False else if event then True else pending)"

record reset_ctrl =
  soft_reset_sync1 :: bool
  soft_reset_sync2 :: bool

definition reset_ctrl_step :: "bool \<Rightarrow> reset_ctrl \<Rightarrow> reset_ctrl" where
  "reset_ctrl_step soft_reset c =
     \<lparr>soft_reset_sync1 = soft_reset, soft_reset_sync2 = soft_reset_sync1 c\<rparr>"

section \<open>The shell (\<open>npu_shell.sv\<close>)\<close>

record shell =
  sh_regs :: reg_block
  sh_fetch :: cmd_fetch
  sh_decode :: cmd_decode
  sh_queue :: "conv_cmd_t fifo"
  sh_sched :: scheduler
  irq_pending :: bool
  sh_reset :: reset_ctrl

definition shell_step :: "mmio_in \<Rightarrow> env_in \<Rightarrow> shell \<Rightarrow> shell" where
  "shell_step m e s =
     (let r = sh_regs s; f = sh_fetch s; d = sh_decode s; q = sh_queue s; c = sh_sched s;
          rvalid = fetch_rvalid_r r
      in \<lparr>sh_regs = reg_block_step m (fetch_req f) (fetch_addr f) r,
          sh_fetch = cmd_fetch_step (doorbell_r r) rvalid f,
          sh_decode = cmd_decode_step (desc_word_valid rvalid f) (word_cnt f) (fetch_rdata_r r)
             (desc_done rvalid f) (\<not> fifo_full q) d,
          sh_queue = fifo_step (if cmd_valid d then Some (cmd_r d) else None) (queue_ready c) q,
          sh_sched = scheduler_step (\<not> fifo_empty q) (fifo_rd_data q) e c,
          irq_pending = irq_step (irq_clear_r r)
             (backend_done e \<or> dma_done e \<or> decode_error d) (irq_pending s),
          sh_reset = sh_reset s\<rparr>)"

definition shell_reset :: "mmio_in \<Rightarrow> shell \<Rightarrow> shell" where
  "shell_reset m s =
     \<lparr>sh_regs = reg_block_reset m (sh_regs s),
      sh_fetch = \<lparr>f_state = F_IDLE, word_cnt = 0\<rparr>,
      sh_decode = cmd_decode_reset,
      sh_queue = fifo_reset (sh_queue s),
      sh_sched = \<lparr>s_state = S_IDLE, sched_cmd = conv_cmd_zero\<rparr>,
      irq_pending = False,
      sh_reset = sh_reset s\<rparr>"

text \<open>One clock edge of the whole shell.  Reset is asserted before the edge by \<open>soft_reset_sync2\<close>,
  and right after it (asynchronously) when that register is being set.\<close>

definition shell_cycle :: "mmio_in \<Rightarrow> env_in \<Rightarrow> shell \<Rightarrow> shell" where
  "shell_cycle m e s =
     (let rc = reset_ctrl_step (bit (ctrl_reg (sh_regs s)) 0) (sh_reset s);
          s' = (if soft_reset_sync2 (sh_reset s) \<or> soft_reset_sync2 rc then shell_reset m s
                else shell_step m e s)
      in s'\<lparr>sh_reset := rc\<rparr>)"

text \<open>\<open>npu_status.sv\<close>, \<open>npu_feature_id.sv\<close> and the read multiplexer.\<close>

definition core_idle :: "env_in \<Rightarrow> shell \<Rightarrow> bool" where
  "core_idle e s = (\<not> (backend_busy e \<or> dma_busy e) \<and> fifo_empty (sh_queue s) \<and>
     \<not> (f_state (sh_fetch s) \<noteq> F_IDLE \<or> d_state (sh_decode s) \<noteq> D_IDLE))"

definition status_word :: "env_in \<Rightarrow> shell \<Rightarrow> u32" where
  "status_word e s = of_bool (core_idle e s) OR push_bit 1 (of_bool (backend_busy e \<or> dma_busy e))
     OR push_bit 2 (of_bool (fifo_full (sh_queue s)))"

definition hw_feature_id :: u32 where
  "hw_feature_id = 0x00011111"

definition mmio_rdata :: "20 word \<Rightarrow> env_in \<Rightarrow> shell \<Rightarrow> u32" where
  "mmio_rdata a e s = (let r = sh_regs s in
     if is_buf_r r then buf_rdata e
     else if a = ucast LGNPU_REG_CTRL then ctrl_reg r
     else if a = ucast LGNPU_REG_STATUS then status_word e s
     else if a = ucast LGNPU_REG_IRQ_STATUS then of_bool (irq_pending s)
     else if a = ucast LGNPU_REG_IRQ_ENABLE then irq_en_reg r
     else if a = ucast LGNPU_REG_FEATURE_ID then hw_feature_id
     else if a = ucast LGNPU_REG_PERF_CYCLES then env_perf_cycles e
     else if a = ucast LGNPU_REG_PERF_ACTIVE then env_perf_active e
     else if a = ucast LGNPU_REG_PERF_STALL then env_perf_stall e
     else if a = ucast LGNPU_REG_DMA_EXT_ADDR then dma_ext_addr_r r
     else if a = ucast LGNPU_REG_DMA_LOC_ADDR then ucast (dma_loc_addr_r r)
     else if a = ucast LGNPU_REG_DMA_LEN then ucast (dma_len_r r)
     else if a = ucast LGNPU_REG_DMA_STATUS then of_bool (dma_busy e)
     else 0)"

definition irq_out :: "shell \<Rightarrow> bool" where
  "irq_out s = (irq_pending s \<and> bit (irq_en_reg (sh_regs s)) 0)"

section \<open>The shell as a bus\<close>

text \<open>The shell together with what its environment drives from now on.\<close>

record soc =
  sh :: shell
  env :: "nat \<Rightarrow> env_in"

definition soc_cycle :: "mmio_in \<Rightarrow> soc \<Rightarrow> soc" where
  "soc_cycle m p = \<lparr>sh = shell_cycle m (env p 0) (sh p), env = (\<lambda>t. env p (Suc t))\<rparr>"

definition soc_bus :: "u64 \<Rightarrow> soc bus" where
  "soc_bus mmio =
     \<lparr>bus_read = (\<lambda>a p.
        let addr = ucast (a - mmio);
            p' = soc_cycle \<lparr>mmio_addr = addr, mmio_wdata = 0, mmio_wr = False, mmio_valid = True\<rparr> p
        in (mmio_rdata addr (env p' 0) (sh p'), p')),
      bus_write = (\<lambda>a v p.
        soc_cycle \<lparr>mmio_addr = ucast (a - mmio), mmio_wdata = v, mmio_wr = True, mmio_valid = True\<rparr> p)\<rparr>"

text \<open>A cycle without host access, and a run of them.\<close>

definition no_access :: mmio_in where
  "no_access = \<lparr>mmio_addr = 0, mmio_wdata = 0, mmio_wr = False, mmio_valid = False\<rparr>"

definition run_clocks :: "nat \<Rightarrow> soc \<Rightarrow> soc" where
  "run_clocks n = soc_cycle no_access ^^ n"

section \<open>What the host sees of the shell\<close>

definition shell_live :: "soc \<Rightarrow> bool" where
  "shell_live p = (\<not> bit (ctrl_reg (sh_regs (sh p))) 0 \<and> \<not> soft_reset_sync1 (sh_reset (sh p)) \<and>
     \<not> soft_reset_sync2 (sh_reset (sh p)))"

definition shell_window :: "soc \<Rightarrow> u32 list" where
  "shell_window p = map (\<lambda>i. cmd_mem (sh_regs (sh p)) (word_of_nat i)) [0..<16]"

definition shell_rung :: "soc \<Rightarrow> bool" where
  "shell_rung p = doorbell_r (sh_regs (sh p))"

definition shell_dma_request :: "soc \<Rightarrow> (u32 \<times> 20 word \<times> u16 \<times> bool) option" where
  "shell_dma_request p = (let r = sh_regs (sh p) in
     if dma_start_r r then Some (dma_ext_addr_r r, dma_loc_addr_r r, dma_len_r r, dma_dir_r r)
     else None)"


text \<open>Phases of the command pipeline: at rest with room in the queue; in the middle of fetching
  the descriptor \<open>w\<close>, before word \<open>k\<close>; and with the whole descriptor in the decoder, about to
  be checked or about to be handed on.\<close>

definition queue_room :: "soc \<Rightarrow> bool" where
  "queue_room p = (fifo_inv (sh_queue (sh p)) \<and> fifo_count (sh_queue (sh p)) < 4)"

definition pipe_idle :: "soc \<Rightarrow> bool" where
  "pipe_idle p = (shell_live p \<and> f_state (sh_fetch (sh p)) = F_IDLE \<and>
     d_state (sh_decode (sh p)) = D_IDLE \<and> length (desc_regs (sh_decode (sh p))) = 16 \<and> queue_room p)"

definition fetching :: "u32 list \<Rightarrow> nat \<Rightarrow> soc \<Rightarrow> bool" where
  "fetching w k p = (shell_live p \<and> f_state (sh_fetch (sh p)) = F_READ \<and>
     word_cnt (sh_fetch (sh p)) = word_of_nat k \<and> \<not> shell_rung p \<and> shell_window p = w \<and>
     d_state (sh_decode (sh p)) = D_IDLE \<and> length (desc_regs (sh_decode (sh p))) = 16 \<and>
     take k (desc_regs (sh_decode (sh p))) = take k w \<and> queue_room p)"

definition decoding :: "decode_state \<Rightarrow> u32 list \<Rightarrow> soc \<Rightarrow> bool" where
  "decoding ds w p = (shell_live p \<and> f_state (sh_fetch (sh p)) = F_IDLE \<and> \<not> shell_rung p \<and>
     d_state (sh_decode (sh p)) = ds \<and> desc_regs (sh_decode (sh p)) = w \<and> length w = 16 \<and>
     (ds = D_VALID \<longrightarrow> cmd_r (sh_decode (sh p)) = decode_fields w \<and>
        err_r (sh_decode (sh p)) = decode_err w \<and> \<not> irq_clear_r (sh_regs (sh p))) \<and> queue_room p)"

text \<open>The shell right after reset, with an environment in which nothing happens.\<close>

definition quiet_env :: env_in where
  "quiet_env = \<lparr>dispatch_ready = False, backend_done = False, backend_busy = False, dma_busy = False,
     dma_done = False, env_perf_cycles = 0, env_perf_active = 0, env_perf_stall = 0, buf_rdata = 0\<rparr>"

definition reset_soc :: soc where
  "reset_soc = \<lparr>sh = \<lparr>
      sh_regs = reg_block_reset no_access
        \<lparr>ctrl_reg = 0, irq_en_reg = 0, doorbell_r = False, irq_clear_r = False, dma_ext_addr_r = 0,
         dma_loc_addr_r = 0, dma_len_r = 0, dma_start_r = False, dma_dir_r = False,
         cmd_mem = (\<lambda>i. 0), fetch_rvalid_r = False, fetch_rdata_r = 0, is_buf_r = False\<rparr>,
      sh_fetch = \<lparr>f_state = F_IDLE, word_cnt = 0\<rparr>, sh_decode = cmd_decode_reset,
      sh_queue = \<lparr>fifo_mem = (\<lambda>i. conv_cmd_zero), wr_ptr = 0, rd_ptr = 0\<rparr>,
      sh_sched = \<lparr>s_state = S_IDLE, sched_cmd = conv_cmd_zero\<rparr>, irq_pending = False,
      sh_reset = \<lparr>soft_reset_sync1 = False, soft_reset_sync2 = False\<rparr>\<rparr>,
    env = (\<lambda>t. quiet_env)\<rparr>"

section \<open>Addresses on the bus\<close>

lemma bus_addr_reg [simp]: "(ucast (reg_addr mmio off - mmio) :: 20 word) = ucast off"
  unfolding reg_addr_def by (rule bit_word_eqI) (auto simp: bit_simps)

lemma bus_addr_window [simp]:
  "(ucast (reg_addr mmio off + 4 * word_of_nat i - mmio) :: 20 word) = ucast off + 4 * word_of_nat i"
proof -
  have e: "reg_addr mmio off + 4 * word_of_nat i - mmio = ucast off + 4 * word_of_nat i"
    by (simp add: reg_addr_def)
  have "(ucast (ucast off + 4 * word_of_nat i :: u64) :: 20 word) = ucast off + 4 * word_of_nat i"
    by (simp add: word_unat_eq_iff unsigned_ucast_eq take_bit_eq_mod unat_word_ariths unat_of_nat
        mod_mod_cancel mod_simps)
  then show ?thesis unfolding e .
qed

lemma window_decode:
  assumes "i < 16"
  shows "is_cmd_queue (ucast LGNPU_CMD_QUEUE_BASE + 4 * word_of_nat i)"
    and "\<not> is_reg (ucast LGNPU_CMD_QUEUE_BASE + 4 * word_of_nat i)"
    and "cmd_index (ucast LGNPU_CMD_QUEUE_BASE + 4 * word_of_nat i) = word_of_nat i"
proof -
  let ?a = "ucast LGNPU_CMD_QUEUE_BASE + 4 * word_of_nat i :: 20 word"
  have u: "unat ?a = 4096 + 4 * i" using assms
    by (simp add: LGNPU_CMD_QUEUE_BASE_def unat_word_ariths unat_of_nat)
  show "is_cmd_queue ?a" "\<not> is_reg ?a"
    using assms u by (simp_all add: is_cmd_queue_def is_reg_def word_less_nat_alt word_le_nat_alt
        LGNPU_CMD_QUEUE_BASE_def LGNPU_WEIGHT_BUF_BASE_def)
  have "unat (drop_bit 2 (4 * word_of_nat i :: 20 word)) = i"
    using assms by (simp add: unat_drop_bit_eq drop_bit_eq_div unat_word_ariths unat_of_nat)
  then show "cmd_index ?a = word_of_nat i"
    using assms by (simp add: cmd_index_def word_unat_eq_iff unsigned_ucast_eq take_bit_eq_mod unat_of_nat)
qed

lemma reg_decode:
  "is_reg (ucast LGNPU_REG_CTRL)" "is_reg (ucast LGNPU_REG_DOORBELL)" "is_reg (ucast LGNPU_REG_IRQ_ENABLE)"
  "is_reg (ucast LGNPU_REG_DMA_EXT_ADDR)" "is_reg (ucast LGNPU_REG_DMA_LOC_ADDR)"
  "is_reg (ucast LGNPU_REG_DMA_LEN)" "is_reg (ucast LGNPU_REG_DMA_CTRL)"
  "\<not> is_cmd_queue (ucast LGNPU_REG_DOORBELL)" "\<not> is_cmd_queue (ucast LGNPU_REG_IRQ_ENABLE)"
  by (simp_all add: is_reg_def is_cmd_queue_def c_consts)

section \<open>Cycles\<close>

lemma cmd_mem_cycle: "cmd_mem (sh_regs (sh (soc_cycle m p))) = cmd_mem_next m (sh_regs (sh p))"
  by (simp add: soc_cycle_def shell_cycle_def shell_step_def shell_reset_def reg_block_step_def
      reg_block_reset_def Let_def)

lemma live_cycle:
  assumes "shell_live p"
  shows "sh (soc_cycle m p) = shell_step m (env p 0) (sh p)"
  using assms
  by (cases "sh_reset (sh p)")
    (simp add: shell_live_def soc_cycle_def shell_cycle_def reset_ctrl_step_def shell_step_def Let_def)

lemma live_regs:
  assumes "shell_live p"
  shows "sh_regs (sh (soc_cycle m p)) =
    reg_block_step m (fetch_req (sh_fetch (sh p))) (fetch_addr (sh_fetch (sh p))) (sh_regs (sh p))"
  by (simp add: live_cycle [OF assms] shell_step_def Let_def)

text \<open>Only a write of CTRL can start a reset.\<close>

lemma live_kept:
  assumes "shell_live p" and "mmio_valid m \<and> mmio_wr m \<Longrightarrow> mmio_addr m \<noteq> ucast LGNPU_REG_CTRL"
  shows "shell_live (soc_cycle m p)"
proof -
  have "ctrl_reg (sh_regs (sh (soc_cycle m p))) = ctrl_reg (sh_regs (sh p))"
    using assms(2) by (auto simp: live_regs [OF assms(1)] reg_block_step_def reg_block_write_def Let_def)
  moreover have "sh_reset (sh (soc_cycle m p)) = sh_reset (sh p)"
    by (simp add: live_cycle [OF assms(1)] shell_step_def Let_def)
  ultimately show ?thesis using assms(1) by (simp add: shell_live_def)
qed


section \<open>The shell keeps the host's bus contract\<close>

lemma window_nth [simp]: "i < 16 \<Longrightarrow> shell_window p ! i = cmd_mem (sh_regs (sh p)) (word_of_nat i)"
  by (simp add: shell_window_def)

lemma length_shell_window [simp]: "length (shell_window p) = 16"
  by (simp add: shell_window_def)

lemma word4_of_nat_inj: "i < 16 \<Longrightarrow> j < 16 \<Longrightarrow> (word_of_nat i :: 4 word) = word_of_nat j \<longleftrightarrow> i = j"
  by (simp add: word_unat_eq_iff unat_of_nat)

lemma shell_window_write:
  assumes "i < 16"
  shows "shell_window (bus_write (soc_bus mmio) (reg_addr mmio LGNPU_CMD_QUEUE_BASE + 4 * word_of_nat i) v p) =
    (shell_window p)[i := v]"
  using assms
  by (intro nth_equalityI)
    (auto simp: soc_bus_def cmd_mem_cycle cmd_mem_next_def window_decode nth_list_update word4_of_nat_inj)

lemma shell_window_other:
  assumes "\<not> is_cmd_queue (mmio_addr m)"
  shows "shell_window (soc_cycle m p) = shell_window p"
  using assms by (simp add: shell_window_def cmd_mem_cycle cmd_mem_next_def)

lemmas bus_cycle_simps = soc_bus_def live_regs reg_block_step_def reg_block_write_def Let_def
  reg_decode

interpretation shell: dma_device "soc_bus mmio" mmio shell_live shell_window shell_rung
  "\<lambda>p. dma_ext_addr_r (sh_regs (sh p))" "\<lambda>p. dma_loc_addr_r (sh_regs (sh p))"
  "\<lambda>p. dma_len_r (sh_regs (sh p))" shell_dma_request
  for mmio
proof (unfold_locales, goal_cases)
  case (1 s) show ?case by simp
next
  case (2 i v s) then show ?case by (simp add: shell_window_write)
next
  case (3 i s v)
  then have "ucast LGNPU_CMD_QUEUE_BASE + 4 * word_of_nat i \<noteq> (ucast LGNPU_REG_CTRL :: 20 word)"
    using window_decode(2) [of i] reg_decode(1) by fastforce
  with 3 show ?case by (auto simp: soc_bus_def intro!: live_kept)
next
  case (4 s) then show ?case by (auto simp: soc_bus_def Let_def intro!: live_kept)
next
  case (5 s v) then show ?case by (auto simp: soc_bus_def c_consts intro!: live_kept)
next
  case (6 v s) show ?case by (simp add: soc_bus_def shell_window_other reg_decode)
next
  case (7 v s) show ?case by (simp add: soc_bus_def shell_window_other reg_decode)
next
  case (8 s v)
  then show ?case by (simp add: bus_cycle_simps shell_rung_def) (simp add: c_consts)
next
  case (9 s s' v)
  then show ?case by (auto simp: bus_cycle_simps is_reg_def c_consts intro!: live_kept)
next
  case (10 s s' v)
  then show ?case by (auto simp: bus_cycle_simps is_reg_def c_consts intro!: live_kept)
next
  case (11 s s' v)
  then show ?case by (auto simp: bus_cycle_simps is_reg_def c_consts intro!: live_kept)
next
  case (12 s v)
  then show ?case by (simp add: bus_cycle_simps shell_dma_request_def) (simp add: c_consts)
qed


section \<open>From the window to the queue\<close>

lemma cmd_index_fetch: "cmd_index (fetch_addr f) = word_cnt f"
  unfolding cmd_index_def fetch_addr_def
  by (simp, rule bit_word_eqI) (auto simp: bit_simps dest: bit_imp_le_length)

lemma no_access_simps [simp]:
  "\<not> mmio_valid no_access" "\<not> is_cmd_queue (mmio_addr no_access)"
  by (simp_all add: no_access_def is_cmd_queue_def c_consts)

lemma idle_regs:
  assumes "shell_live p"
  shows "sh_regs (sh (soc_cycle no_access p)) = (sh_regs (sh p))\<lparr>doorbell_r := False,
     irq_clear_r := False, dma_start_r := False, fetch_rvalid_r := fetch_req (sh_fetch (sh p)),
     fetch_rdata_r := (if fetch_req (sh_fetch (sh p)) then cmd_mem (sh_regs (sh p)) (word_cnt (sh_fetch (sh p)))
        else fetch_rdata_r (sh_regs (sh p)))\<rparr>"
  by (simp add: live_regs [OF assms] reg_block_step_def cmd_mem_next_def cmd_index_fetch Let_def)

lemma live_idle [keeps]: "shell_live p \<Longrightarrow> shell_live (soc_cycle no_access p)"
  by (rule live_kept) simp_all

lemma live_parts:
  assumes "shell_live p"
  shows "sh_fetch (sh (soc_cycle m p)) =
      cmd_fetch_step (doorbell_r (sh_regs (sh p))) (fetch_rvalid_r (sh_regs (sh p))) (sh_fetch (sh p))"
    and "sh_decode (sh (soc_cycle m p)) =
      cmd_decode_step (desc_word_valid (fetch_rvalid_r (sh_regs (sh p))) (sh_fetch (sh p)))
        (word_cnt (sh_fetch (sh p))) (fetch_rdata_r (sh_regs (sh p)))
        (desc_done (fetch_rvalid_r (sh_regs (sh p))) (sh_fetch (sh p)))
        (\<not> fifo_full (sh_queue (sh p))) (sh_decode (sh p))"
    and "sh_queue (sh (soc_cycle m p)) =
      fifo_step (if cmd_valid (sh_decode (sh p)) then Some (cmd_r (sh_decode (sh p))) else None)
        (queue_ready (sh_sched (sh p))) (sh_queue (sh p))"
    and "irq_pending (sh (soc_cycle m p)) = irq_step (irq_clear_r (sh_regs (sh p)))
      (backend_done (env p 0) \<or> dma_done (env p 0) \<or> decode_error (sh_decode (sh p)))
      (irq_pending (sh p))"
  by (simp_all add: live_cycle [OF assms] shell_step_def Let_def)

text \<open>While the decoder offers nothing the queue can only shrink.\<close>

lemma room_kept:
  assumes "shell_live p" and "queue_room p" and "d_state (sh_decode (sh p)) \<noteq> D_VALID"
  shows "queue_room (soc_cycle m p)"
proof -
  let ?q = "sh_queue (sh p)"
  have inv: "fifo_inv ?q" and room: "length (contents ?q) < 4" using assms(2) by (simp_all add: queue_room_def)
  have q: "sh_queue (sh (soc_cycle m p)) = fifo_step None (queue_ready (sh_sched (sh p))) ?q"
    using assms(3) by (simp add: live_parts(3) [OF assms(1)] cmd_valid_def)
  have "contents (fifo_step None rd ?q) = queue_step 4 None rd (contents ?q)" for rd
    using fifo_step_count [OF inv] by blast
  then have "length (contents (fifo_step None rd ?q)) \<le> length (contents ?q)" for rd
    by (simp add: queue_step_def del: length_contents)
  with room fifo_step_count [OF inv] q show ?thesis
    unfolding queue_room_def by (metis length_contents le_less_trans)
qed

lemma fetch_one_word:
  assumes "fetching w k p" and "k < 16"
  shows "if k = 15 then decoding D_CHECK w (run_clocks 2 p) else fetching w (Suc k) (run_clocks 2 p)"
proof -
  let ?p1 = "soc_cycle no_access p" and ?p2 = "soc_cycle no_access (soc_cycle no_access p)"
  have run: "run_clocks 2 p = ?p2" by (simp add: run_clocks_def eval_nat_numeral)
  from assms(1) have live: "shell_live p" and win: "shell_window p = w" by (simp_all add: fetching_def)
  have l1: "shell_live ?p1" using live by (rule live_idle)
  have wk: "cmd_mem (sh_regs (sh p)) (word_of_nat k) = w ! k" using win assms(2) by auto
  have p1: "f_state (sh_fetch (sh ?p1)) = F_WAIT" "word_cnt (sh_fetch (sh ?p1)) = word_of_nat k"
    "fetch_rvalid_r (sh_regs (sh ?p1))" "fetch_rdata_r (sh_regs (sh ?p1)) = w ! k"
    "\<not> doorbell_r (sh_regs (sh ?p1))" "d_state (sh_decode (sh ?p1)) = D_IDLE"
    "desc_regs (sh_decode (sh ?p1)) = desc_regs (sh_decode (sh p))"
    using assms(1) wk
    by (simp_all add: fetching_def live_parts cmd_fetch_step_def cmd_decode_step_def idle_regs
        fetch_req_def desc_word_valid_def desc_done_def)
  have room: "queue_room ?p2"
    using assms(1) live l1 p1(6) by (intro room_kept) (simp_all add: fetching_def)
  have last: "(word_of_nat k :: 4 word) = 15 \<longleftrightarrow> k = 15"
    using word4_of_nat_inj [of k 15] assms(2) by simp
  have cnt: "unat (word_of_nat k :: 4 word) = k" using assms(2) by (simp add: unat_of_nat)
  have win2: "shell_window ?p2 = w" by (simp add: shell_window_other win)
  have dr: "desc_regs (sh_decode (sh ?p2)) = (desc_regs (sh_decode (sh p)))[k := w ! k]"
    using p1 by (simp add: live_parts(2) [OF l1] cmd_decode_step_def desc_word_valid_def cnt)
  have len: "length (desc_regs (sh_decode (sh p))) = 16" "length w = 16"
    using assms(1) win by (auto simp: fetching_def)
  have pre: "take (Suc k) ((desc_regs (sh_decode (sh p)))[k := w ! k]) = take (Suc k) w"
    using assms len by (simp add: fetching_def take_Suc_conv_app_nth)
  have full: "k = 15 \<Longrightarrow> (desc_regs (sh_decode (sh p)))[k := w ! k] = w" using pre len by simp
  have st: "f_state (sh_fetch (sh ?p2)) = (if k = 15 then F_IDLE else F_READ)"
    "word_cnt (sh_fetch (sh ?p2)) = word_of_nat (Suc k)"
    "d_state (sh_decode (sh ?p2)) = (if k = 15 then D_CHECK else D_IDLE)" "\<not> shell_rung ?p2"
    using p1 last by (simp_all add: live_parts [OF l1] cmd_fetch_step_def cmd_decode_step_def
        desc_done_def desc_word_valid_def idle_regs [OF l1] shell_rung_def)
  show ?thesis
    unfolding run
    using st dr pre full len win2 room live_idle [OF l1] by (simp add: decoding_def fetching_def)
qed

lemma run_clocks_add: "run_clocks (m + n) p = run_clocks n (run_clocks m p)"
  by (simp add: run_clocks_def funpow_add add.commute [of m])

lemma run_clocks_Suc: "run_clocks (Suc n) p = run_clocks n (soc_cycle no_access p)"
  by (simp add: run_clocks_def funpow_swap1)

lemma run_clocks_last: "run_clocks (Suc n) p = soc_cycle no_access (run_clocks n p)"
  by (simp add: run_clocks_def)

lemma fetch_words:
  assumes "fetching w 0 p" and "k \<le> 15"
  shows "fetching w k (run_clocks (2 * k) p)"
  using assms(2)
proof (induction k)
  case 0
  show ?case using assms(1) by (simp add: run_clocks_def)
next
  case (Suc k)
  with fetch_one_word [of w k "run_clocks (2 * k) p"] show ?case
    by (simp add: run_clocks_add [symmetric] add.commute)
qed

lemma fetch_all:
  assumes "fetching w 0 p"
  shows "decoding D_CHECK w (run_clocks 32 p)"
  using fetch_one_word [of w 15 "run_clocks 30 p"] fetch_words [OF assms, of 15] run_clocks_add [of 30 2 p]
  by simp

text \<open>The doorbell cycle starts the fetch.\<close>

lemma doorbell_starts:
  assumes "pipe_idle p" and "shell_rung p"
  shows "fetching (shell_window p) 0 (soc_cycle no_access p)"
proof -
  from assms have l: "shell_live p" by (simp add: pipe_idle_def)
  have "queue_room (soc_cycle no_access p)"
    using assms l by (intro room_kept) (simp_all add: pipe_idle_def)
  with assms l show ?thesis
    by (simp add: fetching_def pipe_idle_def shell_rung_def live_parts idle_regs cmd_fetch_step_def
        cmd_decode_step_def desc_word_valid_def desc_done_def shell_window_other keeps)
qed

lemma check_cycle:
  assumes "decoding D_CHECK w p"
  shows "decoding D_VALID w (soc_cycle no_access p)"
proof -
  from assms have l: "shell_live p" by (simp add: decoding_def)
  have "queue_room (soc_cycle no_access p)"
    using assms l by (intro room_kept) (simp_all add: decoding_def)
  with assms l show ?thesis
    by (simp add: decoding_def shell_rung_def live_parts idle_regs cmd_fetch_step_def
        cmd_decode_step_def desc_word_valid_def desc_done_def keeps)
qed

text \<open>The last cycle queues the command, or reports the reserved opcode.\<close>

lemma valid_cycle:
  assumes "decoding D_VALID w p"
  shows "f_state (sh_fetch (sh (soc_cycle no_access p))) = F_IDLE \<and>
    d_state (sh_decode (sh (soc_cycle no_access p))) = D_IDLE \<and>
    (if decode_err w then irq_pending (sh (soc_cycle no_access p))
     else contents (sh_queue (sh (soc_cycle no_access p))) \<noteq> [] \<and>
       last (contents (sh_queue (sh (soc_cycle no_access p)))) = decode_fields w)"
proof -
  from assms have l: "shell_live p" by (simp add: decoding_def)
  have room: "fifo_inv (sh_queue (sh p))" "\<not> fifo_full (sh_queue (sh p))"
    using assms by (simp_all add: decoding_def queue_room_def fifo_full_iff)
  show ?thesis
    using assms l room cmdq.last_pushed [OF room, of "decode_fields w"]
    by (simp add: decoding_def shell_rung_def live_parts cmd_fetch_step_def cmd_decode_step_def
        cmd_valid_def decode_error_def irq_step_def)
qed

lemma rung_to_queue:
  assumes "pipe_idle p" and "shell_rung p"
  shows "f_state (sh_fetch (sh (run_clocks 35 p))) = F_IDLE \<and>
    d_state (sh_decode (sh (run_clocks 35 p))) = D_IDLE \<and>
    (if decode_err (shell_window p) then irq_pending (sh (run_clocks 35 p))
     else contents (sh_queue (sh (run_clocks 35 p))) \<noteq> [] \<and>
       last (contents (sh_queue (sh (run_clocks 35 p)))) = decode_fields (shell_window p))"
proof -
  let ?w = "shell_window p"
  have "decoding D_CHECK ?w (run_clocks 33 p)"
    using fetch_all [OF doorbell_starts [OF assms]] run_clocks_Suc [of 32 p] by simp
  then have "decoding D_VALID ?w (soc_cycle no_access (run_clocks 33 p))" by (rule check_cycle)
  then have "decoding D_VALID ?w (run_clocks 34 p)" using run_clocks_last [of 33 p] by simp
  moreover have r: "run_clocks 35 p = soc_cycle no_access (run_clocks 34 p)"
    using run_clocks_last [of 34 p] by simp
  ultimately show ?thesis unfolding r by (intro valid_cycle)
qed


section \<open>Submission on the shell\<close>

text \<open>Host accesses other than a CTRL write leave the resting pipeline at rest, except that a
  doorbell write sets the doorbell.\<close>

lemma pipe_idle_access:
  assumes "pipe_idle p" and "\<not> shell_rung p"
    and "mmio_valid m \<and> mmio_wr m \<Longrightarrow> mmio_addr m \<noteq> ucast LGNPU_REG_CTRL"
  shows "pipe_idle (soc_cycle m p)"
proof -
  from assms have l: "shell_live p" by (simp add: pipe_idle_def)
  have "queue_room (soc_cycle m p)" using assms(1) l by (intro room_kept) (simp_all add: pipe_idle_def)
  moreover have "shell_live (soc_cycle m p)" using l assms(3) by (rule live_kept)
  ultimately show ?thesis
    using assms(1,2) l
    by (simp add: pipe_idle_def shell_rung_def live_parts cmd_fetch_step_def cmd_decode_step_def
        desc_word_valid_def desc_done_def)
qed

lemma window_fill_idle:
  assumes "pipe_idle p" and "\<not> shell_rung p" and "length ws \<le> 16"
  shows "pipe_idle (bus_writes (soc_bus mmio) (window_writes mmio ws) p) \<and>
    \<not> shell_rung (bus_writes (soc_bus mmio) (window_writes mmio ws) p)"
  using assms(3)
proof (induction ws rule: rev_induct)
  case Nil
  then show ?case using assms by (simp add: window_writes_def)
next
  case (snoc w ws)
  let ?p = "bus_writes (soc_bus mmio) (window_writes mmio ws) p"
  let ?a = "ucast LGNPU_CMD_QUEUE_BASE + 4 * word_of_nat (length ws) :: 20 word"
  let ?m = "\<lparr>mmio_addr = ?a, mmio_wdata = w, mmio_wr = True, mmio_valid = True\<rparr>"
  from snoc have IH: "pipe_idle ?p" "\<not> shell_rung ?p" and n: "length ws < 16" by auto
  then have l: "shell_live ?p" by (simp add: pipe_idle_def)
  have a: "\<not> is_reg ?a" using window_decode(2) [OF n] .
  then have "?a \<noteq> ucast LGNPU_REG_CTRL" using reg_decode(1) by metis
  then have "pipe_idle (soc_cycle ?m ?p)" using IH by (intro pipe_idle_access) simp_all
  moreover have "\<not> shell_rung (soc_cycle ?m ?p)"
    using a by (simp add: shell_rung_def live_regs [OF l] reg_block_step_def Let_def)
  ultimately show ?case by (simp add: window_writes_snoc soc_bus_def)
qed

lemma submitted_rung:
  fixes mmio :: u64
  assumes "pipe_idle p" and "\<not> shell_rung p" and "length ws = 16"
  defines "p' \<equiv> bus_writes (soc_bus mmio)
    (window_writes mmio ws @ [(reg_addr mmio LGNPU_REG_DOORBELL, 1)]) p"
  shows "pipe_idle p' \<and> shell_rung p' \<and> shell_window p' = ws"
proof -
  let ?p = "bus_writes (soc_bus mmio) (window_writes mmio ws) p"
  let ?q = "bus_write (soc_bus mmio) (reg_addr mmio LGNPU_REG_DOORBELL) 1 ?p"
  have i: "pipe_idle ?p" "\<not> shell_rung ?p" using window_fill_idle [OF assms(1,2)] assms(3) by simp_all
  have "pipe_idle ?q"
    unfolding soc_bus_def bus.simps using i
    by (intro pipe_idle_access) (simp_all add: soc_bus_def c_consts)
  moreover have "shell_rung ?q" using i(1) by (intro shell.rung_doorbell) (simp add: pipe_idle_def)
  moreover have "shell_window ?q = ws"
    using shell.window_doorbell [of mmio 1 ?p] shell.window_filled [of ws mmio p] assms(3) by simp
  ultimately show ?thesis by (simp add: p'_def)
qed


lemma reset_soc_idle: "pipe_idle reset_soc" "\<not> shell_rung reset_soc" "shell_live reset_soc"
  by (simp_all add: pipe_idle_def shell_live_def queue_room_def reset_soc_def reg_block_reset_def
      shell_rung_def cmd_decode_reset_def fifo_inv_def fifo_count_def)

lemma submit_to_queue:
  assumes "pipe_idle p" and "\<not> shell_rung p" and "base d = Some mmio"
    and "length (words desc) = LGNPU_CMD_WORDS"
  shows "\<exists>p'. npu_submit (soc_bus mmio) (Some d) (Some desc) p = Some (0, p') \<and>
    f_state (sh_fetch (sh (run_clocks 35 p'))) = F_IDLE \<and>
    d_state (sh_decode (sh (run_clocks 35 p'))) = D_IDLE \<and>
    (if decode_err (words desc) then irq_pending (sh (run_clocks 35 p'))
     else contents (sh_queue (sh (run_clocks 35 p'))) \<noteq> [] \<and>
       last (contents (sh_queue (sh (run_clocks 35 p')))) = decode_fields (words desc))"
proof -
  have l: "length (words desc) = 16" using assms(4) by simp
  note sub = submitted_rung [OF assms(1,2) l, of mmio]
  from rung_to_queue [OF conjunct1 [OF sub]] sub submit_writes [OF assms(3,4), of "soc_bus mmio" p]
  show ?thesis by (metis (no_types, lifting))
qed

section \<open>Reading STATUS\<close>

lemma status_bits:
  "bit (status_word e s) 0 \<longleftrightarrow> core_idle e s"
  "bit (status_word e s) 1 \<longleftrightarrow> backend_busy e \<or> dma_busy e"
  "bit (status_word e s) 2 \<longleftrightarrow> fifo_full (sh_queue s)"
  by (auto simp: status_word_def bit_simps)

text \<open>A STATUS read takes a cycle and returns the status after it.\<close>

lemma status_read:
  assumes "shell_live p"
  defines "p' \<equiv> soc_cycle \<lparr>mmio_addr = ucast LGNPU_REG_STATUS, mmio_wdata = 0, mmio_wr = False,
    mmio_valid = True\<rparr> p"
  shows "bus_read (soc_bus mmio) (reg_addr mmio LGNPU_REG_STATUS) p =
    (status_word (env p' 0) (sh p'), p')"
proof -
  have "\<not> is_buf_r (sh_regs (sh p'))"
    by (simp add: p'_def live_regs [OF assms(1)] reg_block_step_def Let_def is_buf_def c_consts)
  moreover have "(ucast LGNPU_REG_STATUS :: 20 word) \<noteq> ucast LGNPU_REG_CTRL" by (simp add: c_consts)
  ultimately show ?thesis by (simp add: soc_bus_def mmio_rdata_def Let_def p'_def)
qed

lemma pipe_idle_not_full:
  assumes "pipe_idle p"
  shows "\<not> bit (fst (bus_read (soc_bus mmio) (reg_addr mmio LGNPU_REG_STATUS) p)) 2"
proof -
  let ?p = "soc_cycle \<lparr>mmio_addr = ucast LGNPU_REG_STATUS, mmio_wdata = 0, mmio_wr = False,
    mmio_valid = True\<rparr> p"
  have l: "shell_live p" using assms by (simp add: pipe_idle_def)
  have "queue_room ?p" using assms l by (intro room_kept) (simp_all add: pipe_idle_def)
  then show ?thesis by (simp add: status_read [OF l] status_bits(3) queue_room_def fifo_full_iff)
qed

section \<open>Soft reset\<close>

lemma reset_cycle:
  assumes "soft_reset_sync1 (sh_reset (sh p)) \<or> soft_reset_sync2 (sh_reset (sh p))"
  shows "sh (soc_cycle m p) = (shell_reset m (sh p))\<lparr>sh_reset :=
    \<lparr>soft_reset_sync1 = bit (ctrl_reg (sh_regs (sh p))) 0,
     soft_reset_sync2 = soft_reset_sync1 (sh_reset (sh p))\<rparr>\<rparr>"
  using assms by (auto simp: soc_cycle_def shell_cycle_def reset_ctrl_step_def Let_def)

lemma pending_cycle:
  assumes "\<not> soft_reset_sync1 (sh_reset (sh p))" and "\<not> soft_reset_sync2 (sh_reset (sh p))"
  shows "sh (soc_cycle m p) = (shell_step m (env p 0) (sh p))\<lparr>sh_reset :=
    \<lparr>soft_reset_sync1 = bit (ctrl_reg (sh_regs (sh p))) 0, soft_reset_sync2 = False\<rparr>\<rparr>"
  using assms by (auto simp: soc_cycle_def shell_cycle_def reset_ctrl_step_def Let_def)

text \<open>A CTRL write on a live device.\<close>

lemma ctrl_write_cycle:
  fixes v :: u32
  assumes "shell_live p"
  defines "p' \<equiv> soc_cycle \<lparr>mmio_addr = ucast LGNPU_REG_CTRL, mmio_wdata = v, mmio_wr = True,
    mmio_valid = True\<rparr> p"
  shows "ctrl_reg (sh_regs (sh p')) = v \<and> \<not> soft_reset_sync1 (sh_reset (sh p')) \<and>
    \<not> soft_reset_sync2 (sh_reset (sh p'))"
  using assms(1) unfolding p'_def live_cycle [OF assms(1)]
  by (simp add: shell_step_def reg_block_step_def reg_block_write_def reg_decode shell_live_def Let_def)

text \<open>Two cycles in which the first reset register is set: the device is being reset, and after
  the next cycle it is live, empty and at rest.\<close>

lemma reset_done:
  assumes "soft_reset_sync2 (sh_reset (sh p))" and "\<not> soft_reset_sync1 (sh_reset (sh p))"
    and "ctrl_reg (sh_regs (sh p)) = 0"
  shows "pipe_idle (soc_cycle no_access p) \<and> \<not> shell_rung (soc_cycle no_access p) \<and>
    contents (sh_queue (sh (soc_cycle no_access p))) = [] \<and>
    \<not> irq_pending (sh (soc_cycle no_access p)) \<and> ctrl_reg (sh_regs (sh (soc_cycle no_access p))) = 0 \<and>
    irq_en_reg (sh_regs (sh (soc_cycle no_access p))) = 0"
proof -
  have c: "sh (soc_cycle no_access p) = (shell_reset no_access (sh p))\<lparr>sh_reset :=
      \<lparr>soft_reset_sync1 = False, soft_reset_sync2 = False\<rparr>\<rparr>"
    using assms by (simp add: reset_cycle)
  show ?thesis
    by (simp add: c pipe_idle_def shell_live_def shell_rung_def queue_room_def shell_reset_def
        reg_block_reset_def cmd_decode_reset_def fifo_reset_def fifo_inv_def fifo_count_def contents_def)
qed

text \<open>A CTRL write of 1 on a live device, and the four cycles that follow it.\<close>

lemma reset_sequence:
  assumes "shell_live p"
  defines "p1 \<equiv> soc_cycle \<lparr>mmio_addr = ucast LGNPU_REG_CTRL, mmio_wdata = 1, mmio_wr = True,
    mmio_valid = True\<rparr> p"
  shows "pipe_idle (run_clocks 4 p1) \<and> \<not> shell_rung (run_clocks 4 p1) \<and>
    contents (sh_queue (sh (run_clocks 4 p1))) = [] \<and> \<not> irq_pending (sh (run_clocks 4 p1)) \<and>
    ctrl_reg (sh_regs (sh (run_clocks 4 p1))) = 0 \<and> irq_en_reg (sh_regs (sh (run_clocks 4 p1))) = 0"
proof -
  let ?c = "soc_cycle no_access"
  have s1: "ctrl_reg (sh_regs (sh p1)) = 1" "\<not> soft_reset_sync1 (sh_reset (sh p1))"
    "\<not> soft_reset_sync2 (sh_reset (sh p1))"
    using ctrl_write_cycle [OF assms(1), of 1] by (simp_all add: p1_def)
  have s2: "soft_reset_sync1 (sh_reset (sh (?c p1)))" "\<not> soft_reset_sync2 (sh_reset (sh (?c p1)))"
    "ctrl_reg (sh_regs (sh (?c p1))) = 1"
    using s1 by (simp_all add: pending_cycle shell_step_def reg_block_step_def Let_def)
  have s3: "soft_reset_sync1 (sh_reset (sh (?c (?c p1))))" "soft_reset_sync2 (sh_reset (sh (?c (?c p1))))"
    "ctrl_reg (sh_regs (sh (?c (?c p1)))) = 0"
    using s2 by (simp_all add: reset_cycle shell_reset_def reg_block_reset_def)
  have s4: "\<not> soft_reset_sync1 (sh_reset (sh (?c (?c (?c p1)))))"
    "soft_reset_sync2 (sh_reset (sh (?c (?c (?c p1)))))" "ctrl_reg (sh_regs (sh (?c (?c (?c p1))))) = 0"
    using s3 by (simp_all add: reset_cycle shell_reset_def reg_block_reset_def)
  have "run_clocks 4 p1 = ?c (?c (?c (?c p1)))" by (simp add: run_clocks_def eval_nat_numeral)
  with reset_done [OF s4(2,1,3)] show ?thesis by metis
qed

section \<open>Properties\<close>

text \<open>C3: End to end from the host call to the command queue.  With the pipeline at rest and room in
  the queue, \<open>npu_submit\<close> on the device returns 0, and 35 clocks later, whatever the backends
  and the DMA engine do meanwhile, fetch and decode are at rest again and either the
  descriptor's opcode is reserved and the interrupt is pending, or the newest entry of the
  command queue is exactly the command the descriptor's sixteen words encode.\<close>

theorem npu_submit_reaches_queue:
  assumes "pipe_idle p" and "\<not> shell_rung p" and "base d = Some mmio"
    and "length (words desc) = LGNPU_CMD_WORDS"
  shows "\<exists>p'. npu_submit (soc_bus mmio) (Some d) (Some desc) p = Some (0, p') \<and>
    f_state (sh_fetch (sh (run_clocks 35 p'))) = F_IDLE \<and>
    d_state (sh_decode (sh (run_clocks 35 p'))) = D_IDLE \<and>
    (if decode_err (words desc) then irq_pending (sh (run_clocks 35 p'))
     else contents (sh_queue (sh (run_clocks 35 p'))) \<noteq> [] \<and>
       last (contents (sh_queue (sh (run_clocks 35 p')))) = decode_fields (words desc))"
  using assms by (rule submit_to_queue)

theorem npu_submit_reaches_queue_witness:
  "\<exists>p'. npu_submit (soc_bus 0x40000000) (Some \<lparr>base = Some 0x40000000\<rparr>)
      (Some \<lparr>words = 2 # replicate 15 1\<rparr>) reset_soc = Some (0, p') \<and>
    f_state (sh_fetch (sh (run_clocks 35 p'))) = F_IDLE \<and>
    d_state (sh_decode (sh (run_clocks 35 p'))) = D_IDLE \<and>
    (if decode_err (words \<lparr>words = 2 # replicate 15 1\<rparr>) then irq_pending (sh (run_clocks 35 p'))
     else contents (sh_queue (sh (run_clocks 35 p'))) \<noteq> [] \<and>
       last (contents (sh_queue (sh (run_clocks 35 p')))) =
         decode_fields (words \<lparr>words = 2 # replicate 15 1\<rparr>))"
  by (rule npu_submit_reaches_queue [OF reset_soc_idle(1,2)]) simp_all

text \<open>The DMA request the device starts is the one the host asked for: after \<open>npu_dma_start\<close> on
  a device that is not being reset, the register block issues a start with the request's
  external address, local address, length and direction.\<close>

theorem npu_dma_start_issues:
  assumes "shell_live p" and "base d = Some mmio"
  shows "\<exists>p'. npu_dma_start (soc_bus mmio) (Some d) (Some req) p = Some (0, p') \<and>
    shell_dma_request p' = Some (dma_req_ext_addr req, ucast (dma_req_loc_addr req), dma_req_len req,
      dma_req_dir req = npu_dma_dir.LGNPU_DMA_FROM_DEVICE)"
  using shell.dma_start_issues [OF assms(2,1)] .

theorem npu_dma_start_issues_witness:
  "\<exists>p'. npu_dma_start (soc_bus 0) (Some \<lparr>base = Some 0\<rparr>)
      (Some \<lparr>dma_req_ext_addr = 0x80000000, dma_req_loc_addr = 0x100, dma_req_len = 64,
             dma_req_dir = npu_dma_dir.LGNPU_DMA_FROM_DEVICE\<rparr>) reset_soc = Some (0, p') \<and>
    shell_dma_request p' = Some (0x80000000, ucast (0x100 :: u16), 64, True)"
  using npu_dma_start_issues [OF reset_soc_idle(3), of "\<lparr>base = Some 0\<rparr>" 0
      "\<lparr>dma_req_ext_addr = 0x80000000, dma_req_loc_addr = 0x100, dma_req_len = 64,
        dma_req_dir = npu_dma_dir.LGNPU_DMA_FROM_DEVICE\<rparr>"] by simp


text \<open>C32: Soft reset.  Whatever the device is doing, \<open>npu_reset\<close> followed by four clocks leaves it live
  with fetch and decode at rest, an empty command queue, no interrupt pending, interrupts
  disabled and CTRL cleared: the request clears itself.\<close>

theorem npu_reset_restores_idle:
  assumes "shell_live p" and "base d = Some mmio"
  shows "\<exists>p'. npu_reset (soc_bus mmio) (Some d) p = Some (0, p') \<and>
    pipe_idle (run_clocks 4 p') \<and> \<not> shell_rung (run_clocks 4 p') \<and>
    contents (sh_queue (sh (run_clocks 4 p'))) = [] \<and> \<not> irq_pending (sh (run_clocks 4 p')) \<and>
    ctrl_reg (sh_regs (sh (run_clocks 4 p'))) = 0 \<and> irq_en_reg (sh_regs (sh (run_clocks 4 p'))) = 0"
  using reset_sequence [OF assms(1)] assms(2)
  by (auto simp: npu_reset_def soc_bus_def LGNPU_CTRL_SOFT_RESET_def)

theorem npu_reset_restores_idle_witness:
  "\<exists>p'. npu_reset (soc_bus 0) (Some \<lparr>base = Some 0\<rparr>) reset_soc = Some (0, p') \<and>
    pipe_idle (run_clocks 4 p') \<and> \<not> shell_rung (run_clocks 4 p') \<and>
    contents (sh_queue (sh (run_clocks 4 p'))) = [] \<and> \<not> irq_pending (sh (run_clocks 4 p')) \<and>
    ctrl_reg (sh_regs (sh (run_clocks 4 p'))) = 0 \<and> irq_en_reg (sh_regs (sh (run_clocks 4 p'))) = 0"
  by (rule npu_reset_restores_idle [OF reset_soc_idle(3)]) simp

text \<open>The reset is not a single-cycle pulse: it takes effect two clocks after the CTRL write, so an
  \<open>npu_enable\<close> issued back to back with \<open>npu_reset\<close> is accepted by the bus and then discarded;
  two clocks later CTRL reads 0.\<close>

theorem npu_enable_after_reset_lost:
  assumes "shell_live p" and "base d = Some mmio"
  shows "\<exists>p1 p2. npu_reset (soc_bus mmio) (Some d) p = Some (0, p1) \<and>
    npu_enable (soc_bus mmio) (Some d) p1 = Some (0, p2) \<and>
    ctrl_reg (sh_regs (sh p2)) = LGNPU_CTRL_ENABLE \<and> ctrl_reg (sh_regs (sh (run_clocks 2 p2))) = 0"
proof -
  define p1 where "p1 = soc_cycle \<lparr>mmio_addr = ucast LGNPU_REG_CTRL, mmio_wdata = 1,
    mmio_wr = True, mmio_valid = True\<rparr> p"
  define p2 where "p2 = soc_cycle \<lparr>mmio_addr = ucast LGNPU_REG_CTRL, mmio_wdata = 2,
    mmio_wr = True, mmio_valid = True\<rparr> p1"
  let ?c = "soc_cycle no_access"
  have w: "npu_reset (soc_bus mmio) (Some d) p = Some (0, p1)"
    "npu_enable (soc_bus mmio) (Some d) p1 = Some (0, p2)"
    using assms(2) by (simp_all add: npu_reset_def npu_enable_def p1_def p2_def soc_bus_def
        LGNPU_CTRL_SOFT_RESET_def LGNPU_CTRL_ENABLE_def)
  have s1: "ctrl_reg (sh_regs (sh p1)) = 1" "\<not> soft_reset_sync1 (sh_reset (sh p1))"
    "\<not> soft_reset_sync2 (sh_reset (sh p1))"
    using ctrl_write_cycle [OF assms(1), of 1] by (simp_all add: p1_def)
  have s2: "soft_reset_sync1 (sh_reset (sh p2))" "ctrl_reg (sh_regs (sh p2)) = 2"
    using s1 by (simp_all add: p2_def pending_cycle shell_step_def reg_block_step_def
        reg_block_write_def reg_decode Let_def)
  then have s3: "ctrl_reg (sh_regs (sh (?c p2))) = 0" "soft_reset_sync2 (sh_reset (sh (?c p2)))"
    by (simp_all add: reset_cycle shell_reset_def reg_block_reset_def)
  then have "ctrl_reg (sh_regs (sh (?c (?c p2)))) = 0"
    by (simp add: reset_cycle shell_reset_def reg_block_reset_def)
  moreover have "run_clocks 2 p2 = ?c (?c p2)" by (simp add: run_clocks_def eval_nat_numeral)
  ultimately show ?thesis using w s2 by (metis LGNPU_CTRL_ENABLE_def)
qed

theorem npu_enable_after_reset_lost_witness:
  "\<exists>p1 p2. npu_reset (soc_bus 0) (Some \<lparr>base = Some 0\<rparr>) reset_soc = Some (0, p1) \<and>
    npu_enable (soc_bus 0) (Some \<lparr>base = Some 0\<rparr>) p1 = Some (0, p2) \<and>
    ctrl_reg (sh_regs (sh p2)) = LGNPU_CTRL_ENABLE \<and> ctrl_reg (sh_regs (sh (run_clocks 2 p2))) = 0"
  by (rule npu_enable_after_reset_lost [OF reset_soc_idle(3)]) simp

end
