(* ===== verification/Npu_Concurrent.thy ===== *)
theory Npu_Concurrent
  imports Npu_Driver
begin

text \<open>
  Concurrent runs of the driver: any number of threads inside \<open>lgnpu_cmd_submit\<close>
  (\<open>npu_queue.c\<close>), \<open>lgnpu_dma_transfer\<close> (\<open>npu_dma.c\<close>) and the two ioctls that write CTRL without
  taking a lock, \<open>lgnpu_hw_reset\<close> and \<open>lgnpu_hw_enable\<close> (\<open>npu_reset.c\<close>), interleaved statement by
  statement with the interrupt handler (\<open>npu_irq.c\<close>) and with the device.  A program point is the
  statement a thread executes next; a statement is one access to shared state (a lock
  operation, one register or window word, the completion).  The ioctls that only read registers
  change nothing here.  The device is reduced to what these statements touch: the window, the
  interrupt latch and its enable, the enable bit of CTRL, the DMA request registers, how many
  commands are in flight and whether a DMA transfer is.  A soft reset asked for through CTRL
  takes effect some time later (the synchroniser of \<open>npu_reset_ctrl.sv\<close>), holds the register block
  for a while, during which register writes are lost, and is then released; the window
  (\<open>cmd_mem\<close> of \<open>npu_reg_block.sv\<close>) has no reset and keeps taking writes.  Ghost fields record
  every doorbell and DMA start together with what the device held at that moment, and whether a
  reset has held the device since the mutex was last taken for a transfer.
\<close>

section \<open>Program points\<close>

datatype sub_pc =
    Q_lock | Q_status | Q_copy nat | Q_reinit | Q_en_lock | Q_en_write | Q_en_unlock | Q_bell | Q_wait
  | Q_dis_lock int | Q_dis_write int | Q_dis_unlock int | Q_unlock int

datatype dma_pc = X_lock | X_ext | X_loc | X_len | X_ctrl | X_poll nat | X_clear | X_unlock int

datatype ctl_pc = C_reset | C_delay | C_enable

type_synonym dma_args = "u32 \<times> u32 \<times> u32 \<times> u32"

text \<open>The three request registers at their width: external address, local address, length.\<close>

type_synonym dma_held = "u32 \<times> 20 word \<times> 16 word"

datatype pc = Idle | PSub "u32 list" sub_pc | PDma dma_args dma_pc | PCtl ctl_pc | Returned int

datatype irq_pc = H_idle | H_lock | H_read | H_clear | H_unlock | H_complete | H_unlock_none

datatype reset_phase = Rst_none | Rst_asked | Rst_on

datatype holder = Thread nat | Handler

record cstate =
  mutex :: "nat option"
  spin :: "holder option"
  completion :: nat
  pcs :: "nat \<Rightarrow> pc"
  hpc :: irq_pc
  window :: "u32 list"
  pending :: bool
  irq_en :: bool
  enabled :: bool
  rst :: reset_phase
  inflight :: nat
  dma_regs :: dma_held
  dma_active :: bool
  bells :: "(nat \<times> u32 list \<times> u32 list) list"
  dmas :: "(nat \<times> dma_args \<times> (dma_held \<times> bool) \<times> bool) list"
  reset_hit :: bool
  since_bell :: nat

section \<open>Statements\<close>

definition goto :: "nat \<Rightarrow> pc \<Rightarrow> cstate \<Rightarrow> cstate" where
  "goto t p s = s\<lparr>pcs := (pcs s)(t := p)\<rparr>"

text \<open>A register write reaches the register block unless the reset is holding it.\<close>

definition reg_write :: "(cstate \<Rightarrow> cstate) \<Rightarrow> cstate \<Rightarrow> cstate" where
  "reg_write f s = (if rst s = Rst_on then s else f s)"

text \<open>\<open>lgnpu_cmd_submit\<close>, the next statement of thread \<open>t\<close>; the STATUS read finds room.  The wait
  proceeds when the completion has been signalled, and consumes it.\<close>

fun sub_step :: "nat \<Rightarrow> u32 list \<Rightarrow> sub_pc \<Rightarrow> cstate \<Rightarrow> cstate option" where
  "sub_step t ws Q_lock s =
     (if mutex s = None then Some (goto t (PSub ws Q_status) (s\<lparr>mutex := Some t\<rparr>)) else None)"
| "sub_step t ws Q_status s = Some (goto t (PSub ws (Q_copy 0)) s)"
| "sub_step t ws (Q_copy i) s =
     (if i < 16 then Some (goto t (PSub ws (Q_copy (Suc i))) (s\<lparr>window := (window s)[i := ws ! i]\<rparr>))
      else Some (goto t (PSub ws Q_reinit) s))"
| "sub_step t ws Q_reinit s = Some (goto t (PSub ws Q_en_lock) (s\<lparr>completion := 0\<rparr>))"
| "sub_step t ws Q_en_lock s =
     (if spin s = None then Some (goto t (PSub ws Q_en_write) (s\<lparr>spin := Some (Thread t)\<rparr>)) else None)"
| "sub_step t ws Q_en_write s = Some (goto t (PSub ws Q_en_unlock) (reg_write (irq_en_update (\<lambda>_. True)) s))"
| "sub_step t ws Q_en_unlock s = Some (goto t (PSub ws Q_bell) (s\<lparr>spin := None\<rparr>))"
| "sub_step t ws Q_bell s = Some (goto t (PSub ws Q_wait)
     (reg_write (inflight_update Suc) (s\<lparr>bells := (t, ws, window s) # bells s, since_bell := 0\<rparr>)))"
| "sub_step t ws Q_wait s =
     (if completion s > 0
      then Some (goto t (PSub ws (Q_dis_lock 1)) (s\<lparr>completion := completion s - 1\<rparr>)) else None)"
| "sub_step t ws (Q_dis_lock r) s =
     (if spin s = None then Some (goto t (PSub ws (Q_dis_write r)) (s\<lparr>spin := Some (Thread t)\<rparr>))
      else None)"
| "sub_step t ws (Q_dis_write r) s = 
     Some (goto t (PSub ws (Q_dis_unlock r)) (reg_write (irq_en_update (\<lambda>_. False)) s))"
| "sub_step t ws (Q_dis_unlock r) s =
     Some (goto t (PSub ws (Q_unlock (wait_result r))) (s\<lparr>spin := None\<rparr>))"
| "sub_step t ws (Q_unlock r) s = Some (goto t (Returned r) (s\<lparr>mutex := None\<rparr>))"

text \<open>\<open>lgnpu_dma_transfer\<close>.\<close>

fun dma_step :: "nat \<Rightarrow> dma_args \<Rightarrow> dma_pc \<Rightarrow> cstate \<Rightarrow> cstate option" where
  "dma_step t a X_lock s =
     (if mutex s = None
      then Some (goto t (PDma a X_ext) (s\<lparr>mutex := Some t, reset_hit := (rst s = Rst_on)\<rparr>)) else None)"
| "dma_step t (e, l, n, d) X_ext s = Some (goto t (PDma (e, l, n, d) X_loc)
     (reg_write (dma_regs_update (\<lambda>(_, l', n'). (e, l', n'))) s))"
| "dma_step t (e, l, n, d) X_loc s = Some (goto t (PDma (e, l, n, d) X_len)
     (reg_write (dma_regs_update (\<lambda>(e', _, n'). (e', ucast l, n'))) s))"
| "dma_step t (e, l, n, d) X_len s = Some (goto t (PDma (e, l, n, d) X_ctrl)
     (reg_write (dma_regs_update (\<lambda>(e', l', _). (e', l', ucast n))) s))"
| "dma_step t (e, l, n, d) X_ctrl s = Some (goto t (PDma (e, l, n, d) (X_poll 0))
     (reg_write (\<lambda>s. s\<lparr>dma_active := True,
        dmas := (t, (e, l, n, d), (dma_regs s, d = LGNPU_DMA_FROM_DEVICE), reset_hit s) # dmas s\<rparr>) s))"
| "dma_step t a (X_poll i) s =
     (if i < 10000
      then (if dma_active s then Some (goto t (PDma a (X_poll (Suc i))) s)
            else Some (goto t (PDma a X_clear) s))
      else Some (goto t (PDma a (X_unlock (- ETIMEDOUT))) s))"
| "dma_step t a X_clear s =
     Some (goto t (PDma a (X_unlock 0)) (reg_write (pending_update (\<lambda>_. False)) s))"
| "dma_step t a (X_unlock r) s = Some (goto t (Returned r) (s\<lparr>mutex := None\<rparr>))"

text \<open>\<open>lgnpu_hw_reset\<close>, whose write of CTRL also clears the enable bit, and \<open>lgnpu_hw_enable\<close>:
  neither takes a lock.  Once asked for, a reset is not withdrawn by a later write of CTRL, which
  the synchroniser has already sampled.\<close>

fun ctl_step :: "nat \<Rightarrow> ctl_pc \<Rightarrow> cstate \<Rightarrow> cstate option" where
  "ctl_step t C_reset s =
     Some (goto t (PCtl C_delay) (reg_write (\<lambda>s. s\<lparr>rst := Rst_asked, enabled := False\<rparr>) s))"
| "ctl_step t C_delay s = Some (goto t (Returned 0) s)"
| "ctl_step t C_enable s =
     Some (goto t (Returned 0) (reg_write (enabled_update (\<lambda>_. True)) s))"

text \<open>The reset takes effect: registers, interrupt latch, command queue, backends and DMA engine
  return to their reset values.  Then it is released.\<close>

fun reset_step :: "cstate \<Rightarrow> cstate option" where
  "reset_step s = (case rst s of
     Rst_none \<Rightarrow> None
   | Rst_asked \<Rightarrow> Some (s\<lparr>rst := Rst_on, enabled := False, pending := False, irq_en := False,
       inflight := 0, dma_regs := (0, 0, 0), dma_active := False, reset_hit := True\<rparr>)
   | Rst_on \<Rightarrow> Some (s\<lparr>rst := Rst_none\<rparr>))"

text \<open>\<open>lgnpu_irq_handler\<close>.  It may be entered at any time: the line is requested as shared, so it
  also runs for the interrupts of other devices.\<close>

fun handler_step :: "cstate \<Rightarrow> cstate option" where
  "handler_step s = (case hpc s of
     H_idle \<Rightarrow> Some (s\<lparr>hpc := H_lock\<rparr>)
   | H_lock \<Rightarrow> if spin s = None then Some (s\<lparr>spin := Some Handler, hpc := H_read\<rparr>) else None
   | H_read \<Rightarrow> Some (s\<lparr>hpc := (if pending s then H_clear else H_unlock_none)\<rparr>)
   | H_clear \<Rightarrow> Some (reg_write (pending_update (\<lambda>_. False)) s\<lparr>hpc := H_unlock\<rparr>)
   | H_unlock \<Rightarrow> Some (s\<lparr>spin := None, hpc := H_complete\<rparr>)
   | H_complete \<Rightarrow> Some (s\<lparr>completion := Suc (completion s), hpc := H_idle\<rparr>)
   | H_unlock_none \<Rightarrow> Some (s\<lparr>spin := None, hpc := H_idle\<rparr>))"

section \<open>Interleaving\<close>

datatype op = Submit "u32 list" | Dma dma_args | Reset | Enable

text \<open>Who moves: a thread enters an ioctl, executes its next statement, finds the queue full, has
  its wait expire or interrupted (with a negative code); the handler executes its next
  statement; the device finishes a command or a DMA transfer, or its reset advances.\<close>

datatype action =
    Enter nat op | Run nat | Full nat | Expire nat | Signal nat int | Irq | CmdDone | DmaDone | RstStep

fun resting :: "pc \<Rightarrow> bool" where
  "resting Idle = True"
| "resting (Returned r) = True"
| "resting _ = False"

fun exec :: "action \<Rightarrow> cstate \<Rightarrow> cstate option" where
  "exec (Enter t (Submit ws)) s =
     (if resting (pcs s t) \<and> length ws = 16
      then Some (goto t (PSub ws Q_lock) s) else None)"
| "exec (Enter t (Dma a)) s =
     (if resting (pcs s t) then Some (goto t (PDma a X_lock) s) else None)"
| "exec (Enter t Reset) s =
     (if resting (pcs s t) then Some (goto t (PCtl C_reset) s) else None)"
| "exec (Enter t Enable) s =
     (if resting (pcs s t) then Some (goto t (PCtl C_enable) s) else None)"
| "exec (Run t) s = (case pcs s t of
     PSub ws q \<Rightarrow> sub_step t ws q s
   | PDma a x \<Rightarrow> dma_step t a x s
   | PCtl c \<Rightarrow> ctl_step t c s
   | _ \<Rightarrow> None)"
| "exec (Full t) s = (case pcs s t of
     PSub ws Q_status \<Rightarrow> Some (goto t (PSub ws (Q_unlock (- EBUSY))) s)
   | _ \<Rightarrow> None)"
| "exec (Expire t) s = (case pcs s t of
     PSub ws Q_wait \<Rightarrow> Some (goto t (PSub ws (Q_dis_lock 0)) s)
   | _ \<Rightarrow> None)"
| "exec (Signal t r) s = (case pcs s t of
     PSub ws Q_wait \<Rightarrow> if r < 0 then Some (goto t (PSub ws (Q_dis_lock r)) s) else None
   | _ \<Rightarrow> None)"
| "exec Irq s = handler_step s"
| "exec CmdDone s =
     (if inflight s > 0
      then Some (s\<lparr>inflight := inflight s - 1, pending := True, since_bell := Suc (since_bell s)\<rparr>)
      else None)"
| "exec DmaDone s =
     (if dma_active s then Some (s\<lparr>dma_active := False, pending := True\<rparr>) else None)"
| "exec RstStep s = reset_step s"

definition initial :: cstate where
  "initial = \<lparr>mutex = None, spin = None, completion = 0, pcs = (\<lambda>t. Idle), hpc = H_idle,
     window = replicate 16 0, pending = False, irq_en = False, enabled = True,
     rst = Rst_none, inflight = 0, dma_regs = (0, 0, 0),
     dma_active = False, bells = [], dmas = [], reset_hit = False, since_bell = 0\<rparr>"

inductive reachable :: "cstate \<Rightarrow> bool" where
  reach_initial: "reachable initial"
| reach_step: "reachable s \<Longrightarrow> exec a s = Some s' \<Longrightarrow> reachable s'"

section \<open>Invariant\<close>

text \<open>Which program points hold which lock, and between which the interrupt is enabled.\<close>

fun holds_mutex :: "pc \<Rightarrow> bool" where
  "holds_mutex (PSub ws q) = (q \<noteq> Q_lock)"
| "holds_mutex (PDma a x) = (x \<noteq> X_lock)"
| "holds_mutex _ = False"

fun holds_spin :: "pc \<Rightarrow> bool" where
  "holds_spin (PSub ws Q_en_write) = True"
| "holds_spin (PSub ws Q_en_unlock) = True"
| "holds_spin (PSub ws (Q_dis_write r)) = True"
| "holds_spin (PSub ws (Q_dis_unlock r)) = True"
| "holds_spin _ = False"

definition handler_holds :: "irq_pc \<Rightarrow> bool" where
  "handler_holds h = (h \<in> {H_read, H_clear, H_unlock, H_unlock_none})"

fun irq_window :: "pc \<Rightarrow> bool" where
  "irq_window (PSub ws Q_en_unlock) = True"
| "irq_window (PSub ws Q_bell) = True"
| "irq_window (PSub ws Q_wait) = True"
| "irq_window (PSub ws (Q_dis_lock r)) = True"
| "irq_window (PSub ws (Q_dis_write r)) = True"
| "irq_window _ = False"

text \<open>What the device holds on behalf of a thread at each program point.  A request register holds
  what the thread wrote, or zero if a reset has hit it since.\<close>

definition reg_is :: "bool \<Rightarrow> 'a::zero \<Rightarrow> 'a \<Rightarrow> bool" where
  "reg_is hit r v = (v = r \<or> hit \<and> v = 0)"

definition regs_are :: "bool \<Rightarrow> dma_args \<Rightarrow> dma_held \<Rightarrow> bool" where
  "regs_are hit a d = (case a of (e, l, n, dir) \<Rightarrow> case d of (e', l', n') \<Rightarrow>
     reg_is hit e e' \<and> reg_is hit (ucast l) l' \<and> reg_is hit (ucast n) n')"

fun device_holds :: "pc \<Rightarrow> u32 list \<Rightarrow> dma_held \<Rightarrow> bool \<Rightarrow> bool" where
  "device_holds (PSub ws q) win d hit = (length ws = 16 \<and> (case q of
      Q_copy i \<Rightarrow> i \<le> 16 \<and> take i win = take i ws
    | Q_reinit \<Rightarrow> win = ws | Q_en_lock \<Rightarrow> win = ws | Q_en_write \<Rightarrow> win = ws | Q_en_unlock \<Rightarrow> win = ws
    | Q_bell \<Rightarrow> win = ws
    | _ \<Rightarrow> True))"
| "device_holds (PDma (e, l, n, dir) x) win d hit = (case x of
      X_loc \<Rightarrow> reg_is hit e (fst d)
    | X_len \<Rightarrow> reg_is hit e (fst d) \<and> reg_is hit (ucast l) (fst (snd d))
    | X_ctrl \<Rightarrow> regs_are hit (e, l, n, dir) d
    | _ \<Rightarrow> True)"
| "device_holds _ win d hit = True"

definition locks_ok :: "cstate \<Rightarrow> bool" where
  "locks_ok s = ((\<forall>t. holds_mutex (pcs s t) \<longleftrightarrow> mutex s = Some t) \<and>
     (\<forall>t. holds_spin (pcs s t) \<longleftrightarrow> spin s = Some (Thread t)) \<and>
     (handler_holds (hpc s) \<longleftrightarrow> spin s = Some Handler))"

definition ghosts_ok ::
  "(nat \<times> u32 list \<times> u32 list) list \<Rightarrow> (nat \<times> dma_args \<times> (dma_held \<times> bool) \<times> bool) list \<Rightarrow> bool"
where
  "ghosts_ok bs ds = ((\<forall>(t, ws, win) \<in> set bs. win = ws) \<and>
     (\<forall>(t, a, (d, dir), hit) \<in> set ds.
        regs_are hit a d \<and> dir = (snd (snd (snd a)) = LGNPU_DMA_FROM_DEVICE)))"

definition device_ok :: "cstate \<Rightarrow> bool" where
  "device_ok s = (length (window s) = 16 \<and>
     (\<forall>t. device_holds (pcs s t) (window s) (dma_regs s) (reset_hit s)) \<and>
     (rst s = Rst_on \<longrightarrow> dma_regs s = (0, 0, 0) \<and> reset_hit s) \<and> ghosts_ok (bells s) (dmas s))"

definition irq_ok :: "cstate \<Rightarrow> bool" where
  "irq_ok s = ((irq_en s \<longrightarrow> (\<exists>t. irq_window (pcs s t))) \<and> (rst s = Rst_on \<longrightarrow> \<not> irq_en s))"

definition inv :: "cstate \<Rightarrow> bool" where
  "inv s = (locks_ok s \<and> device_ok s \<and> irq_ok s)"


text \<open>A run in which thread 0 times out, its command finishes late, and thread 1 submits next.\<close>

definition late_run :: "action list" where
  "late_run =
     Enter 0 (Submit (replicate 16 1)) # replicate 24 (Run 0) @ [Expire 0] @ replicate 4 (Run 0) @
     [CmdDone] @
     Enter 1 (Submit (replicate 16 2)) # replicate 23 (Run 1) @ replicate 6 Irq @ replicate 6 (Run 1)"

text \<open>Thread 0 executes \<open>n\<close> statements of a submission, then thread 1 enters one.\<close>

definition contended_run :: "nat \<Rightarrow> action list" where
  "contended_run n =
     Enter 0 (Submit (replicate 16 1)) # replicate n (Run 0) @ [Enter 1 (Submit (replicate 16 2))]"

text \<open>A transfer during which a second thread resets the device: before its start, and after it.\<close>

definition reset_before_start_run :: "dma_args \<Rightarrow> action list" where
  "reset_before_start_run a =
     [Enter 0 (Dma a), Run 0, Run 0, Run 0, Run 0, Enter 1 Reset, Run 1, RstStep, RstStep, Run 1,
      Run 0, DmaDone, Run 0, Run 0, Run 0]"

definition reset_after_start_run :: "dma_args \<Rightarrow> action list" where
  "reset_after_start_run a =
     [Enter 0 (Dma a), Run 0, Run 0, Run 0, Run 0, Run 0, Enter 1 Reset, Run 1, RstStep, RstStep,
      Run 1, Run 0, Run 0, Run 0]"

section \<open>Preservation\<close>

lemma irq_window_mutex: "irq_window p \<Longrightarrow> holds_mutex p"
  by (cases p rule: irq_window.cases) auto

lemma holds_spin_mutex: "holds_spin p \<Longrightarrow> holds_mutex p"
  by (cases p rule: holds_spin.cases) auto

lemma resting_holds [simp]: "resting p \<Longrightarrow> \<not> holds_mutex p" "resting p \<Longrightarrow> \<not> holds_spin p"
  "resting p \<Longrightarrow> \<not> irq_window p"
  by (cases p; simp)+

lemma device_holds_indep:
  "\<not> holds_mutex p \<Longrightarrow> device_holds p win d h \<longleftrightarrow> device_holds p win' d' h'"
  by (cases p) (auto split: sub_pc.split dma_pc.split)

lemma sole_holder:
  assumes "locks_ok s" and "holds_mutex (pcs s t)" and "t' \<noteq> t"
  shows "\<not> holds_mutex (pcs s t')"
  using assms by (auto simp: locks_ok_def)

lemma goto_simps [simp]:
  "mutex (goto t p s) = mutex s" "spin (goto t p s) = spin s" "hpc (goto t p s) = hpc s"
  "pcs (goto t p s) = (pcs s)(t := p)" "window (goto t p s) = window s"
  "dma_regs (goto t p s) = dma_regs s" "bells (goto t p s) = bells s" "dmas (goto t p s) = dmas s"
  "irq_en (goto t p s) = irq_en s" "rst (goto t p s) = rst s" "reset_hit (goto t p s) = reset_hit s"
  by (simp_all add: goto_def)

lemma ghosts_simps [simp]:
  "ghosts_ok [] []"
  "ghosts_ok ((t, ws, win) # bs) ds \<longleftrightarrow> win = ws \<and> ghosts_ok bs ds"
  "ghosts_ok bs ((t, a, (d, dir), hit) # ds) \<longleftrightarrow>
     regs_are hit a d \<and> dir = (snd (snd (snd a)) = LGNPU_DMA_FROM_DEVICE) \<and> ghosts_ok bs ds"
  by (auto simp: ghosts_ok_def)


text \<open>A thread moves to program point \<open>p\<close>: the locks it then holds are those it held, or one it
  found free, or one less.\<close>

lemma locks_move:
  assumes "locks_ok s" and "pcs s0 = pcs s" and "hpc s0 = hpc s"
    and m: "mutex s0 = (if holds_mutex p = holds_mutex (pcs s t) then mutex s
      else if holds_mutex p then Some t else None)"
    and m': "holds_mutex p \<and> \<not> holds_mutex (pcs s t) \<Longrightarrow> mutex s = None"
    and sp: "spin s0 = (if holds_spin p = holds_spin (pcs s t) then spin s
      else if holds_spin p then Some (Thread t) else None)"
    and sp': "holds_spin p \<and> \<not> holds_spin (pcs s t) \<Longrightarrow> spin s = None"
  shows "locks_ok (goto t p s0)"
proof -
  have "holds_mutex (pcs (goto t p s0) t') \<longleftrightarrow> mutex s0 = Some t'" for t'
    using assms(1) m m' by (auto simp: locks_ok_def assms(2))
  moreover have "holds_spin (pcs (goto t p s0) t') \<longleftrightarrow> spin s0 = Some (Thread t')" for t'
    using assms(1) sp sp' by (auto simp: locks_ok_def assms(2))
  moreover have "handler_holds (hpc s) \<longleftrightarrow> spin s0 = Some Handler"
    using assms(1) sp sp' by (auto simp: locks_ok_def)
  ultimately show ?thesis by (simp add: locks_ok_def assms(3))
qed

lemma locks_sub:
  assumes "locks_ok s" and "pcs s t = PSub ws q" and "sub_step t ws q s = Some s'"
  shows "locks_ok s'"
  using assms(2,3)
  by (cases q) (auto intro!: locks_move [OF assms(1)] simp: reg_write_def split: if_splits)

lemma locks_dma:
  assumes "locks_ok s" and "pcs s t = PDma a x" and "dma_step t a x s = Some s'"
  shows "locks_ok s'"
  using assms(2,3)
  by (cases a; cases x)
    (auto intro!: locks_move [OF assms(1)] simp: reg_write_def split: if_splits)

lemma locks_ctl:
  assumes "locks_ok s" and "pcs s t = PCtl c" and "ctl_step t c s = Some s'"
  shows "locks_ok s'"
  using assms(2,3)
  by (cases c) (auto intro!: locks_move [OF assms(1)] simp: reg_write_def)

lemma locks_handler:
  assumes "locks_ok s" and "pcs s' = pcs s" and "mutex s' = mutex s"
    and sp: "spin s' = (if handler_holds (hpc s') = handler_holds (hpc s) then spin s
      else if handler_holds (hpc s') then Some Handler else None)"
    and sp': "handler_holds (hpc s') \<and> \<not> handler_holds (hpc s) \<Longrightarrow> spin s = None"
  shows "locks_ok s'"
proof -
  have "holds_spin (pcs s t') \<longleftrightarrow> spin s' = Some (Thread t')" for t'
    using assms(1) sp sp' by (auto simp: locks_ok_def)
  moreover have "handler_holds (hpc s') \<longleftrightarrow> spin s' = Some Handler"
    using assms(1) sp sp' by (auto simp: locks_ok_def)
  ultimately show ?thesis using assms(1,2,3) by (simp add: locks_ok_def)
qed

lemma locks_irq:
  assumes "locks_ok s" and "handler_step s = Some s'"
  shows "locks_ok s'"
  using assms(2)
  by (cases "hpc s")
    (auto simp: handler_holds_def reg_write_def intro!: locks_handler [OF assms(1)] split: if_splits)

lemma locks_exec:
  assumes "locks_ok s" and "exec a s = Some s'"
  shows "locks_ok s'"
  using assms(2)
proof (cases a)
  case (Enter t op)
  with assms show ?thesis by (cases op) (auto intro!: locks_move split: if_splits)
next
  case (Run t)
  show ?thesis
  proof (cases "pcs s t")
    case (PSub ws q)
    with Run assms(2) locks_sub [OF assms(1) PSub] show ?thesis by simp
  next
    case (PDma a x)
    with Run assms(2) locks_dma [OF assms(1) PDma] show ?thesis by simp
  next
    case (PCtl c)
    with Run assms(2) locks_ctl [OF assms(1) PCtl] show ?thesis by simp
  qed (use Run assms(2) in simp_all)
next
  case Irq
  with assms locks_irq show ?thesis by simp
next
  case CmdDone
  with assms show ?thesis by (auto simp: locks_ok_def split: if_splits)
next
  case DmaDone
  with assms show ?thesis by (auto simp: locks_ok_def split: if_splits)
next
  case RstStep
  with assms show ?thesis by (auto simp: locks_ok_def split: reset_phase.splits)
qed (use assms(2) in \<open>auto intro!: locks_move [OF assms(1)] split: if_splits pc.splits sub_pc.splits\<close>)

text \<open>The device side: a thread that changes the window or the DMA registers is the only one that
  relies on them.\<close>

lemma device_move:
  assumes "device_ok s" and "pcs s0 = pcs s" and "rst s0 = rst s"
    and "length (window s0) = 16" and "device_holds p (window s0) (dma_regs s0) (reset_hit s0)"
    and other: "\<And>t'. t' \<noteq> t \<Longrightarrow>
      (window s0 = window s \<and> dma_regs s0 = dma_regs s \<and> reset_hit s0 = reset_hit s) \<or>
      \<not> holds_mutex (pcs s t')"
    and "rst s = Rst_on \<Longrightarrow> dma_regs s0 = dma_regs s \<and> reset_hit s0" and "ghosts_ok (bells s0) (dmas s0)"
  shows "device_ok (goto t p s0)"
proof -
  have "device_holds (pcs s t') (window s0) (dma_regs s0) (reset_hit s0)" if "t' \<noteq> t" for t'
  proof -
    have "device_holds (pcs s t') (window s) (dma_regs s) (reset_hit s)"
      using assms(1) by (simp add: device_ok_def)
    with other [OF that] show ?thesis
      by (elim disjE) (simp, use device_holds_indep in blast)
  qed
  with assms show ?thesis by (simp add: device_ok_def)
qed

lemma device_sub:
  assumes "locks_ok s" and "device_ok s" and "pcs s t = PSub ws q" and "sub_step t ws q s = Some s'"
  shows "device_ok s'"
proof -
  have h: "device_holds (PSub ws q) (window s) (dma_regs s) (reset_hit s)"
    using assms(2,3) by (metis device_ok_def)
  have ok: "length (window s) = 16" "ghosts_ok (bells s) (dmas s)" "rst s = Rst_on \<Longrightarrow> reset_hit s"
    using assms(2) by (simp_all add: device_ok_def)
  have sole: "\<not> holds_mutex (pcs s t')" if "q \<noteq> Q_lock" "t' \<noteq> t" for t'
    using sole_holder [OF assms(1), of t t'] that assms(3) by simp
  show ?thesis
    using assms(3,4) h ok sole
    by (cases q) (auto intro!: device_move [OF assms(2)]
      simp: take_Suc_conv_app_nth  reg_write_def split: if_splits)
qed

lemma device_dma:
  assumes "locks_ok s" and "device_ok s" and "pcs s t = PDma a x" and "dma_step t a x s = Some s'"
  shows "device_ok s'"
proof -
  have h: "device_holds (PDma a x) (window s) (dma_regs s) (reset_hit s)"
    using assms(2,3) by (metis device_ok_def)
  have ok: "length (window s) = 16" "ghosts_ok (bells s) (dmas s)"
    "rst s = Rst_on \<Longrightarrow> dma_regs s = (0, 0, 0) \<and> reset_hit s"
    using assms(2) by (simp_all add: device_ok_def)
  have sole: "\<not> holds_mutex (pcs s t')" if "x \<noteq> X_lock" "t' \<noteq> t" for t'
    using sole_holder [OF assms(1), of t t'] that assms(3) by simp
  have free: "\<not> holds_mutex (pcs s t')" if "mutex s = None" for t'
    using assms(1) that by (simp add: locks_ok_def)
  obtain e l n d where a: "a = (e, l, n, d)" by (cases a)
  obtain e' l' n' where r: "dma_regs s = (e', l', n')" by (cases "dma_regs s")
  show ?thesis
    using assms(3,4) h ok sole free unfolding a r
    by (cases x) (auto intro!: device_move [OF assms(2)]
      simp: r reg_write_def reg_is_def regs_are_def split: if_splits)
qed

lemma device_ctl:
  assumes "device_ok s" and "pcs s t = PCtl c" and "ctl_step t c s = Some s'"
  shows "device_ok s'"
proof -
  have "length (window s) = 16" "ghosts_ok (bells s) (dmas s)"
    "rst s = Rst_on \<Longrightarrow> dma_regs s = (0, 0, 0) \<and> reset_hit s"
    "\<And>t. device_holds (pcs s t) (window s) (dma_regs s) (reset_hit s)"
    using assms(1) by (simp_all add: device_ok_def)
  then show ?thesis
    using assms(2,3)
    by (cases c) (auto simp: device_ok_def reg_write_def)
qed

lemma device_holds_reset: "device_holds p w d h \<Longrightarrow> device_holds p w (0, 0, 0) True"
  by (cases p; cases d) (auto simp: reg_is_def regs_are_def split: dma_pc.splits)

lemma device_reset:
  assumes "device_ok s" and "reset_step s = Some s'"
  shows "device_ok s'"
proof -
  have "device_holds (pcs s t) (window s) (0, 0, 0) True" for t
    using assms(1) unfolding device_ok_def by (blast intro: device_holds_reset)
  then show ?thesis
    using assms by (cases "rst s") (auto simp: device_ok_def)
qed

lemma device_exec:
  assumes "locks_ok s" and "device_ok s" and "exec a s = Some s'"
  shows "device_ok s'"
proof -
  have ok: "length (window s) = 16" "ghosts_ok (bells s) (dmas s)" "rst s = Rst_on \<Longrightarrow> reset_hit s"
    using assms(2) by (simp_all add: device_ok_def)
  have len: "length ws = 16" if "pcs s t = PSub ws q" for t ws q
  proof -
    have "device_holds (pcs s t) (window s) (dma_regs s) (reset_hit s)"
      using assms(2) by (simp add: device_ok_def)
    with that show ?thesis by simp
  qed
  show ?thesis
  proof (cases a)
    case (Enter t op)
    with assms(3) ok show ?thesis
      by (cases op) (auto intro!: device_move [OF assms(2)] split: if_splits)
  next
    case (Run t)
    show ?thesis
    proof (cases "pcs s t")
      case (PSub ws q)
      with Run assms(3) device_sub [OF assms(1,2) PSub] show ?thesis by simp
    next
      case (PDma a x)
      with Run assms(3) device_dma [OF assms(1,2) PDma] show ?thesis by simp
    next
      case (PCtl c)
      with Run assms(3) device_ctl [OF assms(2) PCtl] show ?thesis by simp
    qed (use Run assms(3) in simp_all)
  next
    case Irq
    with assms(2,3) show ?thesis
      by (cases "hpc s") (auto simp: device_ok_def  reg_write_def split: if_splits)
  next
    case CmdDone
    with assms(2,3) show ?thesis by (auto simp: device_ok_def split: if_splits)
  next
    case DmaDone
    with assms(2,3) show ?thesis by (auto simp: device_ok_def split: if_splits)
  next
    case RstStep
    with assms(3) device_reset [OF assms(2)] show ?thesis by simp
  qed (use assms(3) ok len in
      \<open>auto intro!: device_move [OF assms(2)] split: if_splits pc.splits sub_pc.splits\<close>)
qed

text \<open>The interrupt is enabled only while a submitter is between its two gate writes.\<close>

lemma irq_move:
  assumes "irq_ok s" and "pcs s0 = pcs s" and "irq_en s0 \<Longrightarrow> irq_en s"
    and "rst s0 = Rst_on \<Longrightarrow> rst s = Rst_on"
    and "irq_window p = irq_window (pcs s t)"
  shows "irq_ok (goto t p s0)"
proof -
  have "irq_window (((pcs s)(t := p)) u) = irq_window (pcs s u)" for u using assms(5) by simp
  with assms show ?thesis by (auto simp: irq_ok_def)
qed

lemma irq_gate_move:
  assumes "locks_ok s" and "pcs s0 = pcs s" and "holds_mutex (pcs s t)"
    and "irq_en s0 \<Longrightarrow> irq_window p \<and> rst s0 \<noteq> Rst_on"
  shows "irq_ok (goto t p s0)"
  using assms sole_holder [OF assms(1,3)] irq_window_mutex by (auto simp: irq_ok_def)

lemma irq_sub:
  assumes "locks_ok s" and "irq_ok s" and "pcs s t = PSub ws q" and "sub_step t ws q s = Some s'"
  shows "irq_ok s'"
proof -
  have "rst s = Rst_on \<Longrightarrow> \<not> irq_en s" using assms(2) by (simp add: irq_ok_def)
  then show ?thesis
    using assms(3,4)
    by (cases q) (auto intro: irq_move [OF assms(2)] irq_gate_move [OF assms(1)]
      simp: reg_write_def split: if_splits)
qed

lemma irq_dma:
  assumes "irq_ok s" and "pcs s t = PDma a x" and "dma_step t a x s = Some s'"
  shows "irq_ok s'"
  using assms(2,3)
  by (cases a; cases x)
    (auto intro!: irq_move [OF assms(1)] simp: reg_write_def split: if_splits prod.splits)

lemma irq_ctl:
  assumes "irq_ok s" and "pcs s t = PCtl c" and "ctl_step t c s = Some s'"
  shows "irq_ok s'"
  using assms(2,3)
  by (cases c) (auto intro!: irq_move [OF assms(1)] simp: reg_write_def split: if_splits)

lemma irq_exec:
  assumes "locks_ok s" and "irq_ok s" and "exec a s = Some s'"
  shows "irq_ok s'"
proof (cases a)
  case (Enter t op)
  with assms show ?thesis by (cases op) (auto intro!: irq_move [OF assms(2)] split: if_splits)
next
  case (Run t)
  show ?thesis
  proof (cases "pcs s t")
    case (PSub ws q)
    with Run assms(3) irq_sub [OF assms(1,2) PSub] show ?thesis by simp
  next
    case (PDma a x)
    with Run assms(3) irq_dma [OF assms(2) PDma] show ?thesis by simp
  next
    case (PCtl c)
    with Run assms(3) irq_ctl [OF assms(2) PCtl] show ?thesis by simp
  qed (use Run assms(3) in simp_all)
next
  case Irq
  with assms(2,3) show ?thesis by (cases "hpc s") (auto simp: irq_ok_def reg_write_def split: if_splits)
next
  case CmdDone
  with assms(2,3) show ?thesis by (auto simp: irq_ok_def split: if_splits)
next
  case DmaDone
  with assms(2,3) show ?thesis by (auto simp: irq_ok_def split: if_splits)
next
  case RstStep
  with assms(2,3) show ?thesis by (auto simp: irq_ok_def split: reset_phase.splits)
qed (use assms(3) in \<open>auto intro!: irq_move [OF assms(2)] split: if_splits pc.splits sub_pc.splits\<close>)

lemma reachable_inv: "reachable s \<Longrightarrow> inv s"
proof (induction rule: reachable.induct)
  case reach_initial
  show ?case
    by (simp add: inv_def locks_ok_def device_ok_def irq_ok_def initial_def handler_holds_def)
next
  case (reach_step s a s')
  then show ?case using locks_exec device_exec irq_exec by (auto simp: inv_def)
qed


lemma reachable_run: "reachable s \<Longrightarrow> foldM exec as s = Some s' \<Longrightarrow> reachable s'"
proof (induction as arbitrary: s)
  case (Cons a as)
  then show ?case by (auto split: option.splits intro: reach_step)
qed simp

section \<open>Progress\<close>

lemma spin_holder_runs: "pcs s t = p \<Longrightarrow> holds_spin p \<Longrightarrow> \<exists>s'. exec (Run t) s = Some s'"
  by (cases p rule: holds_spin.cases) simp_all

lemma mutex_holder_runs:
  assumes "spin s = None" and "holds_mutex (pcs s t)"
  shows "\<exists>s'. exec (Run t) s = Some s' \<or> exec (Expire t) s = Some s'"
proof (cases "pcs s t")
  case (PSub ws q)
  with assms show ?thesis by (cases q) auto
next
  case (PDma a x)
  with assms show ?thesis by (cases a; cases x; cases "dma_regs s") auto
qed (use assms in simp_all)

lemma locker_runs:
  assumes "mutex s = None" and "\<not> holds_mutex (pcs s t)" and "\<not> resting (pcs s t)"
  shows "\<exists>s'. exec (Run t) s = Some s'"
proof (cases "pcs s t")
  case (PCtl c)
  then show ?thesis by (cases c) simp_all
qed (use assms in auto)

section \<open>Properties\<close>

text \<open>C31: Mutual exclusion.  In every reachable state of any number of threads and the interrupt
  handler, at most one thread is between its mutex lock and unlock, and at most one of the
  threads and the handler is inside a spinlock section.\<close>

theorem driver_mutual_exclusion:
  assumes "reachable s"
  shows "(holds_mutex (pcs s t) \<and> holds_mutex (pcs s u) \<longrightarrow> t = u) \<and>
    (holds_spin (pcs s t) \<and> holds_spin (pcs s u) \<longrightarrow> t = u) \<and>
    \<not> (holds_spin (pcs s t) \<and> handler_holds (hpc s))"
  using reachable_inv [OF assms] by (auto simp: inv_def locks_ok_def)

theorem driver_mutual_exclusion_witness:
  "\<exists>s. foldM exec (contended_run 21) initial = Some s \<and> holds_mutex (pcs s 0) \<and>
    holds_spin (pcs s 0) \<and> \<not> holds_mutex (pcs s 1) \<and> \<not> holds_spin (pcs s 1) \<and>
    \<not> handler_holds (hpc s)"
proof -
  have "map_option (\<lambda>s. holds_mutex (pcs s 0) \<and> holds_spin (pcs s 0))
      (foldM exec (contended_run 21) initial) = Some True" by code_simp
  then obtain s where s: "foldM exec (contended_run 21) initial = Some s" "holds_mutex (pcs s 0)"
    "holds_spin (pcs s 0)" by auto
  from driver_mutual_exclusion [OF reachable_run [OF reach_initial s(1)], of 0 1] s
  show ?thesis by auto
qed



text \<open>The interrupt gate.  In every reachable state the device's interrupt is enabled only while
  some submitter is between its enable and its disable write; in particular it is disabled
  whenever the command mutex is free.\<close>

theorem driver_irq_gate:
  assumes "reachable s"
  shows "(irq_en s \<longrightarrow> (\<exists>t. irq_window (pcs s t))) \<and> (mutex s = None \<longrightarrow> \<not> irq_en s)"
  using reachable_inv [OF assms] by (auto simp: inv_def irq_ok_def locks_ok_def dest: irq_window_mutex)

theorem driver_irq_gate_witness:
  "\<exists>s t. foldM exec (contended_run 23) initial = Some s \<and> irq_en s \<and> irq_window (pcs s t) \<and>
    mutex s \<noteq> None"
proof -
  have "map_option irq_en (foldM exec (contended_run 23) initial) = Some True"
    by code_simp
  then obtain s where s: "foldM exec (contended_run 23) initial = Some s" "irq_en s"
    by auto
  from driver_irq_gate [OF reachable_run [OF reach_initial s(1)]] s show ?thesis by auto
qed


text \<open>C9: No deadlock.  As long as a thread is inside a driver call, some thread or a handler already
  running can execute its next statement, or a waiting submitter's timeout can expire: the
  command mutex and the interrupt spinlock never block each other.\<close>

theorem driver_no_deadlock:
  assumes "reachable s" and "\<not> resting (pcs s t)"
  shows "\<exists>a s'. exec a s = Some s' \<and> (a = Irq \<and> hpc s \<noteq> H_idle \<or> (\<exists>u. a = Run u \<or> a = Expire u))"
proof -
  have l: "locks_ok s" using reachable_inv [OF assms(1)] by (simp add: inv_def)
  show ?thesis
  proof (cases "spin s")
    case None
    show ?thesis
    proof (cases "mutex s")
      case None
      then have "\<not> holds_mutex (pcs s t)" using l by (simp add: locks_ok_def)
      with locker_runs [OF None _ assms(2)] show ?thesis by blast
    next
      case (Some u)
      then have "holds_mutex (pcs s u)" using l by (simp add: locks_ok_def)
      with mutex_holder_runs [OF \<open>spin s = None\<close>] show ?thesis by blast
    qed
  next
    case (Some h)
    show ?thesis
    proof (cases h)
      case (Thread u)
      then have "holds_spin (pcs s u)" using l Some by (simp add: locks_ok_def)
      then obtain s' where "exec (Run u) s = Some s'" using spin_holder_runs [OF refl] by blast
      then show ?thesis by (intro exI [of _ "Run u"] exI [of _ s']) simp
    next
      case Handler
      then have "handler_holds (hpc s)" using l Some by (simp add: locks_ok_def)
      then have "hpc s \<noteq> H_idle \<and> (\<exists>s'. exec Irq s = Some s')"
        by (cases "hpc s") (auto simp: handler_holds_def)
      then show ?thesis by blast
    qed
  qed
qed

theorem driver_no_deadlock_witness:
  "\<exists>a s'. exec a (goto 0 (PSub (replicate 16 7) Q_lock) initial) = Some s' \<and>
    (a = Irq \<and> hpc (goto 0 (PSub (replicate 16 7) Q_lock) initial) \<noteq> H_idle \<or> (\<exists>u. a = Run u \<or> a = Expire u))"
proof (rule driver_no_deadlock)
  show "reachable (goto 0 (PSub (replicate 16 7) Q_lock) initial)"
    by (rule reach_step [OF reach_initial, of "Enter 0 (Submit (replicate 16 7))"])
      (simp add: initial_def)
  show "\<not> resting (pcs (goto 0 (PSub (replicate 16 7) Q_lock) initial) 0)" by simp
qed

text \<open>A late completion is credited to the wrong caller.  There is a run in which thread 0 times
  out, the device finishes thread 0's command afterwards, and thread 1's submission then
  returns 0 although the device has completed nothing since thread 1 rang the doorbell and
  thread 1's command is still in flight: the stale pending interrupt is not cleared before
  the completion is armed.\<close>

theorem late_completion_misattributed:
  "\<exists>s. foldM exec late_run initial = Some s \<and> reachable s \<and> pcs s 0 = Returned (- ETIMEDOUT) \<and>
    pcs s 1 = Returned 0 \<and> fst (hd (bells s)) = 1 \<and> since_bell s = 0 \<and> inflight s = 1"
proof -
  have "map_option (\<lambda>s. (pcs s 0, pcs s 1, fst (hd (bells s)), since_bell s, inflight s))
      (foldM exec late_run initial) = Some (Returned (- 110), Returned 0, 1, 0, 1)"
    by code_simp
  then obtain s where s: "foldM exec late_run initial = Some s" "pcs s 0 = Returned (- 110)"
    "pcs s 1 = Returned 0" "fst (hd (bells s)) = 1" "since_bell s = 0" "inflight s = 1"
    by auto
  with reachable_run [OF reach_initial s(1)] show ?thesis by (auto simp: ETIMEDOUT_def)
qed

end
