(* ===== verification/Npu_Reference.thy ===== *)
theory Npu_Reference
  imports Npu_Prelude "HOL-Library.Monad_Syntax" "HOL-Library.Signed_Division"
begin

text \<open>
  The bit-exact reference functions of the integration bench (\<open>tb/integration/npu_tb.h\<close>):
  GEMM, convolution, element-wise vector operations, pooling, softmax and layer normalisation on
  \<open>int8_t\<close> tensors, with the digit-by-digit square root and the two-table exponential they share
  with the hardware.  An \<open>int8_t\<close> is an 8-bit word read by \<^const>\<open>sint\<close>, an \<open>int\<close> an integer whose
  every result is checked against the range of \<open>int\<close>; overflow, an index outside a vector, a
  division by zero and a shift beyond the width are undefined behaviour, the value
  \<^term>\<open>None\<close>.  An \<open>int\<close> shifted right is shifted arithmetically.  The lemmas show on which
  inputs the functions are defined and that they compute the integer formulas of the operators.
\<close>

type_synonym i8 = "8 word"

section \<open>C++ operations on \<open>int\<close> and \<open>std::vector\<close>\<close>

definition c_int :: "int \<Rightarrow> int option" where
  "c_int x = (if - (2 ^ 31) \<le> x \<and> x < 2 ^ 31 then Some x else None)"

definition c_div :: "int \<Rightarrow> int \<Rightarrow> int option" where
  "c_div x y = (if y = 0 then None else c_int (x sdiv y))"

definition c_shr :: "int \<Rightarrow> int \<Rightarrow> int option" where
  "c_shr x s = (if 0 \<le> s \<and> s < 32 then Some (drop_bit (nat s) x) else None)"

definition vec_new :: "int \<Rightarrow> i8 list option" where
  "vec_new n = (if 0 \<le> n then Some (replicate (nat n) 0) else None)"

definition vec_at :: "'a list \<Rightarrow> int \<Rightarrow> 'a option" where
  "vec_at xs i = (if 0 \<le> i \<and> i < int (length xs) then Some (xs ! nat i) else None)"

definition vec_set :: "int \<Rightarrow> 'a \<Rightarrow> 'a list \<Rightarrow> 'a list option" where
  "vec_set i v xs = (if 0 \<le> i \<and> i < int (length xs) then Some (xs[nat i := v]) else None)"

text \<open>\<open>for (int i = 0; i < n; ++i) body\<close>.\<close>

definition for_int :: "int \<Rightarrow> (int \<Rightarrow> 's \<Rightarrow> 's option) \<Rightarrow> 's \<Rightarrow> 's option" where
  "for_int n f s = foldM (\<lambda>k. f (int k)) [0..<nat n] s"

section \<open>Activation and quantisation (in \<open>ref_gemm\<close>, \<open>ref_conv\<close> and \<open>ref_vec\<close>)\<close>

definition ACT_MODE_NONE :: u32 where [c_consts]: "ACT_MODE_NONE = 0"

definition ACT_MODE_RELU :: u32 where [c_consts]: "ACT_MODE_RELU = 1"

definition ACT_MODE_LEAKY_RELU :: u32 where [c_consts]: "ACT_MODE_LEAKY_RELU = 2"

definition LEAKY_SHIFT :: nat where [c_consts]: "LEAKY_SHIFT = 3"

definition ref_activate :: "u32 \<Rightarrow> int \<Rightarrow> int" where
  "ref_activate act_mode acc =
     (if act_mode = ACT_MODE_RELU then (if acc < 0 then 0 else acc)
      else if act_mode = ACT_MODE_LEAKY_RELU then
        (if acc < 0 then drop_bit LEAKY_SHIFT acc else acc)
      else acc)"

definition ref_saturate :: "int \<Rightarrow> i8" where
  "ref_saturate acc =
     (let acc = (if acc > 127 then 127 else acc);
          acc = (if acc < -128 then -128 else acc)
      in word_of_int acc)"

definition ref_quantize :: "int \<Rightarrow> int \<Rightarrow> i8 option" where
  "ref_quantize quant_shift acc = do { acc \<leftarrow> c_shr acc quant_shift; Some (ref_saturate acc) }"

definition ref_bias :: "i8 list \<Rightarrow> int \<Rightarrow> int \<Rightarrow> int option" where
  "ref_bias bias n acc =
     (if bias \<noteq> [] then do { v \<leftarrow> vec_at bias n; c_int (acc + sint v) } else Some acc)"

section \<open>GEMM, convolution, vector\<close>

text \<open>The inner loops over \<open>k\<close> and over the filter taps, which accumulate one output.\<close>

definition ref_gemm_dot :: "i8 list \<Rightarrow> i8 list \<Rightarrow> int \<Rightarrow> int \<Rightarrow> int \<Rightarrow> int \<Rightarrow> int option" where
  "ref_gemm_dot a b N K m n =
     for_int K (\<lambda>k acc. do {
       i \<leftarrow> c_int (m * K + k);
       j \<leftarrow> c_int (k * N + n);
       x \<leftarrow> vec_at a i;
       y \<leftarrow> vec_at b j;
       c_int (acc + sint x * sint y) }) 0"

text \<open>The body of the loops over the outputs.\<close>

definition ref_gemm_step ::
  "i8 list \<Rightarrow> i8 list \<Rightarrow> i8 list \<Rightarrow> int \<Rightarrow> int \<Rightarrow> int \<Rightarrow> u32 \<Rightarrow> int \<Rightarrow> int \<Rightarrow> i8 list \<Rightarrow> i8 list option" where
  "ref_gemm_step a b bias N K quant_shift act_mode m n out = do {
     acc \<leftarrow> ref_gemm_dot a b N K m n;
     acc \<leftarrow> ref_bias bias n acc;
     v \<leftarrow> ref_quantize quant_shift (ref_activate act_mode acc);
     i \<leftarrow> c_int (m * N + n);
     vec_set i v out }"

definition ref_gemm ::
  "i8 list \<Rightarrow> i8 list \<Rightarrow> i8 list \<Rightarrow> int \<Rightarrow> int \<Rightarrow> int \<Rightarrow> int \<Rightarrow> u32 \<Rightarrow> i8 list option" where
  "ref_gemm a b bias M N K quant_shift act_mode = do {
     size \<leftarrow> c_int (M * N);
     out \<leftarrow> vec_new size;
     for_int M (\<lambda>m. for_int N (ref_gemm_step a b bias N K quant_shift act_mode m)) out }"

text \<open>\<open>(H + 2 * pad - R) / stride + 1\<close>.\<close>

definition ref_out_dim :: "int \<Rightarrow> int \<Rightarrow> int \<Rightarrow> int \<Rightarrow> int option" where
  "ref_out_dim H pad R stride = do {
     p \<leftarrow> c_int (2 * pad);
     h \<leftarrow> c_int (H + p);
     h \<leftarrow> c_int (h - R);
     q \<leftarrow> c_div h stride;
     c_int (q + 1) }"

text \<open>\<open>ih = oh * stride_h + r - pad_h\<close>.\<close>

definition ref_tap :: "int \<Rightarrow> int \<Rightarrow> int \<Rightarrow> int \<Rightarrow> int option" where
  "ref_tap oh stride r pad = do {
     x \<leftarrow> c_int (oh * stride);
     y \<leftarrow> c_int (x + r);
     c_int (y - pad) }"

text \<open>\<open>(ih * W + iw) * C + c\<close>.\<close>

definition ref_index3 :: "int \<Rightarrow> int \<Rightarrow> int \<Rightarrow> int \<Rightarrow> int \<Rightarrow> int option" where
  "ref_index3 ih W iw C c = do {
     x \<leftarrow> c_int (ih * W);
     y \<leftarrow> c_int (x + iw);
     z \<leftarrow> c_int (y * C);
     c_int (z + c) }"

definition ref_conv_dot ::
  "i8 list \<Rightarrow> i8 list \<Rightarrow> int \<Rightarrow> int \<Rightarrow> int \<Rightarrow> int \<Rightarrow> int \<Rightarrow> int \<Rightarrow> int \<Rightarrow> int \<Rightarrow> int \<Rightarrow> int \<Rightarrow> int \<Rightarrow>
    int \<Rightarrow> int option" where
  "ref_conv_dot act wt H W C R S stride_h stride_w pad_h pad_w oh ow k =
     for_int R (\<lambda>r. for_int S (\<lambda>s. for_int C (\<lambda>c acc. do {
       ih \<leftarrow> ref_tap oh stride_h r pad_h;
       iw \<leftarrow> ref_tap ow stride_w s pad_w;
       a \<leftarrow> (if 0 \<le> ih \<and> ih < H \<and> 0 \<le> iw \<and> iw < W
             then do { i \<leftarrow> ref_index3 ih W iw C c; vec_at act i } else Some 0);
       q \<leftarrow> ref_index3 k R r S s;
       j \<leftarrow> c_int (q * C);
       j \<leftarrow> c_int (j + c);
       w \<leftarrow> vec_at wt j;
       c_int (acc + sint a * sint w) }))) 0"

definition ref_conv_step ::
  "i8 list \<Rightarrow> i8 list \<Rightarrow> i8 list \<Rightarrow> int \<Rightarrow> int \<Rightarrow> int \<Rightarrow> int \<Rightarrow> int \<Rightarrow> int \<Rightarrow> int \<Rightarrow> int \<Rightarrow> int \<Rightarrow> int \<Rightarrow> int \<Rightarrow>
    int \<Rightarrow> u32 \<Rightarrow> int \<Rightarrow> int \<Rightarrow> int \<Rightarrow> i8 list \<Rightarrow> i8 list option" where
  "ref_conv_step act wt bias H W C K R S stride_h stride_w pad_h pad_w OW quant_shift act_mode oh ow k out = do {
     acc \<leftarrow> ref_conv_dot act wt H W C R S stride_h stride_w pad_h pad_w oh ow k;
     acc \<leftarrow> ref_bias bias k acc;
     v \<leftarrow> ref_quantize quant_shift (ref_activate act_mode acc);
     i \<leftarrow> ref_index3 oh OW ow K k;
     vec_set i v out }"

definition ref_conv ::
  "i8 list \<Rightarrow> i8 list \<Rightarrow> i8 list \<Rightarrow> int \<Rightarrow> int \<Rightarrow> int \<Rightarrow> int \<Rightarrow> int \<Rightarrow> int \<Rightarrow> int \<Rightarrow> int \<Rightarrow> int \<Rightarrow> int \<Rightarrow>
    int \<Rightarrow> u32 \<Rightarrow> i8 list option" where
  "ref_conv act wt bias H W C K R S stride_h stride_w pad_h pad_w quant_shift act_mode = do {
     OH \<leftarrow> ref_out_dim H pad_h R stride_h;
     OW \<leftarrow> ref_out_dim W pad_w S stride_w;
     size \<leftarrow> c_int (OH * OW);
     size \<leftarrow> c_int (size * K);
     out \<leftarrow> vec_new size;
     for_int OH (\<lambda>oh. for_int OW (\<lambda>ow. for_int K
       (ref_conv_step act wt bias H W C K R S stride_h stride_w pad_h pad_w OW quant_shift act_mode oh ow)))
       out }"

definition ref_vec ::
  "i8 list \<Rightarrow> i8 list \<Rightarrow> int \<Rightarrow> u32 \<Rightarrow> int \<Rightarrow> u32 \<Rightarrow> i8 list option" where
  "ref_vec a b len vec_op quant_shift act_mode = do {
     out \<leftarrow> vec_new len;
     for_int len (\<lambda>i out. do {
       x \<leftarrow> vec_at a i;
       y \<leftarrow> vec_at b i;
       v \<leftarrow> (if vec_op = 0 then Some (ref_saturate (sint x + sint y))
             else ref_quantize quant_shift (ref_activate act_mode (sint x * sint y)));
       vec_set i v out }) out }"

section \<open>Pooling\<close>

definition ref_pool_max ::
  "i8 list \<Rightarrow> int \<Rightarrow> int \<Rightarrow> int \<Rightarrow> int \<Rightarrow> int \<Rightarrow> int \<Rightarrow> int \<Rightarrow> int \<Rightarrow> int \<Rightarrow> int \<Rightarrow> int \<Rightarrow> int \<Rightarrow> i8 option" where
  "ref_pool_max input H W C pool_r pool_s stride_h stride_w pad_h pad_w oh ow c =
     for_int pool_r (\<lambda>r. for_int pool_s (\<lambda>s max_val. do {
       ih \<leftarrow> ref_tap oh stride_h r pad_h;
       iw \<leftarrow> ref_tap ow stride_w s pad_w;
       (if 0 \<le> ih \<and> ih < H \<and> 0 \<le> iw \<and> iw < W then do {
          i \<leftarrow> ref_index3 ih W iw C c;
          v \<leftarrow> vec_at input i;
          Some (if sint v > sint max_val then v else max_val) }
        else Some max_val) })) (word_of_int (-128))"

definition ref_pool_avg ::
  "i8 list \<Rightarrow> int \<Rightarrow> int \<Rightarrow> int \<Rightarrow> int \<Rightarrow> int \<Rightarrow> int \<Rightarrow> int \<Rightarrow> int \<Rightarrow> int \<Rightarrow> int \<Rightarrow> int \<Rightarrow> int \<Rightarrow> int \<Rightarrow> i8 option"
  where
  "ref_pool_avg input H W C pool_r pool_s stride_h stride_w pad_h pad_w pool_area oh ow c = do {
     sum \<leftarrow> for_int pool_r (\<lambda>r. for_int pool_s (\<lambda>s sum. do {
       ih \<leftarrow> ref_tap oh stride_h r pad_h;
       iw \<leftarrow> ref_tap ow stride_w s pad_w;
       (if 0 \<le> ih \<and> ih < H \<and> 0 \<le> iw \<and> iw < W then do {
          i \<leftarrow> ref_index3 ih W iw C c;
          v \<leftarrow> vec_at input i;
          c_int (sum + sint v) }
        else Some sum) })) 0;
     let neg = (sum < 0);
     abs_sum \<leftarrow> (if neg then c_int (- sum) else Some sum);
     quot \<leftarrow> (if (word_of_int pool_area :: u32) = 0 then None
              else Some ((word_of_int abs_sum :: u32) div word_of_int pool_area));
     result \<leftarrow> (if neg then c_int (- sint quot) else Some (sint quot));
     Some (ref_saturate result) }"

definition ref_pool_step ::
  "i8 list \<Rightarrow> int \<Rightarrow> int \<Rightarrow> int \<Rightarrow> int \<Rightarrow> int \<Rightarrow> int \<Rightarrow> int \<Rightarrow> int \<Rightarrow> int \<Rightarrow> int \<Rightarrow> int \<Rightarrow> int \<Rightarrow> int \<Rightarrow> int \<Rightarrow>
    int \<Rightarrow> i8 list \<Rightarrow> i8 list option" where
  "ref_pool_step input H W C pool_r pool_s stride_h stride_w pad_h pad_w pool_mode OW pool_area oh ow c out = do {
     v \<leftarrow> (if pool_mode = 0
           then ref_pool_max input H W C pool_r pool_s stride_h stride_w pad_h pad_w oh ow c
           else ref_pool_avg input H W C pool_r pool_s stride_h stride_w pad_h pad_w pool_area oh ow c);
     i \<leftarrow> ref_index3 oh OW ow C c;
     vec_set i v out }"

definition ref_pool ::
  "i8 list \<Rightarrow> int \<Rightarrow> int \<Rightarrow> int \<Rightarrow> int \<Rightarrow> int \<Rightarrow> int \<Rightarrow> int \<Rightarrow> int \<Rightarrow> int \<Rightarrow> int \<Rightarrow> i8 list option" where
  "ref_pool input H W C pool_r pool_s stride_h stride_w pad_h pad_w pool_mode = do {
     OH \<leftarrow> ref_out_dim H pad_h pool_r stride_h;
     OW \<leftarrow> ref_out_dim W pad_w pool_s stride_w;
     size \<leftarrow> c_int (OH * OW);
     size \<leftarrow> c_int (size * C);
     out \<leftarrow> vec_new size;
     pool_area \<leftarrow> c_int (pool_r * pool_s);
     for_int OH (\<lambda>oh. for_int OW (\<lambda>ow. for_int C
       (ref_pool_step input H W C pool_r pool_s stride_h stride_w pad_h pad_w pool_mode OW pool_area oh ow)))
       out }"

section \<open>Softmax\<close>

definition exp_int :: "u16 list" where
  "exp_int = [65535, 24109, 8869, 3263, 1200, 442, 162, 60]"

definition exp_frac :: "u16 list" where
  "exp_frac =
     [65535, 63519, 61564, 59670, 57834, 56055, 54330, 52659,
      51039, 49468, 47946, 46471, 45042, 43656, 42313, 41011,
      39749, 38526, 37341, 36192, 35078, 33999, 32953, 31939,
      30957, 30004, 29081, 28186, 27319, 26479, 25664, 24874]"

definition softmax_exp_approx :: "u8 \<Rightarrow> u16" where
  "softmax_exp_approx diff =
     (let product = (ucast (exp_int ! unat (drop_bit 5 diff)) :: u32)
                    * ucast (exp_frac ! unat (diff AND 31))
      in ucast (drop_bit 16 product))"

text \<open>The third pass on element \<open>i\<close> of a row, and the three passes over row \<open>r\<close>.\<close>

definition softmax_element :: "i8 list \<Rightarrow> int \<Rightarrow> i8 \<Rightarrow> u32 \<Rightarrow> int \<Rightarrow> i8 list \<Rightarrow> i8 list option" where
  "softmax_element input base max_val exp_sum i out = do {
     j \<leftarrow> c_int (base + i);
     x \<leftarrow> vec_at input j;
     let exp_val = softmax_exp_approx (max_val - x);
     let numer = (ucast exp_val :: u32) * 127;
     quot \<leftarrow> (if exp_sum = 0 then None else Some (ucast (numer div exp_sum) :: u8));
     let quot = (if quot > 127 then 127 else quot);
     vec_set j quot out }"

definition softmax_row :: "i8 list \<Rightarrow> int \<Rightarrow> int \<Rightarrow> i8 list \<Rightarrow> i8 list option" where
  "softmax_row input row_len r out = do {
     base \<leftarrow> c_int (r * row_len);
     max_val \<leftarrow> for_int row_len (\<lambda>i max_val. do {
       j \<leftarrow> c_int (base + i);
       x \<leftarrow> vec_at input j;
       Some (if sint x > sint max_val then x else max_val) }) (word_of_int (-128));
     sum \<leftarrow> for_int row_len (\<lambda>i sum. do {
       j \<leftarrow> c_int (base + i);
       x \<leftarrow> vec_at input j;
       Some (sum + ucast (softmax_exp_approx (max_val - x))) }) (0 :: u32);
     for_int row_len (softmax_element input base max_val sum) out }"

definition ref_softmax :: "i8 list \<Rightarrow> int \<Rightarrow> int \<Rightarrow> i8 list option" where
  "ref_softmax input num_rows row_len = do {
     size \<leftarrow> c_int (num_rows * row_len);
     out \<leftarrow> vec_new size;
     for_int num_rows (softmax_row input row_len) out }"

section \<open>Square root and layer normalisation\<close>

definition isqrt_step :: "u32 \<Rightarrow> nat \<Rightarrow> u32 \<times> u16 \<Rightarrow> u32 \<times> u16" where
  "isqrt_step n i = (\<lambda>(rem, result).
     let rem = push_bit 2 rem OR (drop_bit (2 * i) n AND 3);
         trial = push_bit 2 (ucast result) OR 1
     in if trial \<le> rem then (rem - trial, push_bit 1 result OR 1)
        else (rem, push_bit 1 result))"

text \<open>The loop \<open>for (int i = 15; i >= 0; --i)\<close>.\<close>

definition isqrt_hw :: "u32 \<Rightarrow> u16" where
  "isqrt_hw n = snd (fold (isqrt_step n) (rev [0..<16]) (0, 0))"

definition lnorm_element :: "int \<Rightarrow> u16 \<Rightarrow> int \<Rightarrow> i8 option" where
  "lnorm_element norm_shift std_val diff = do {
     let neg = (diff < 0);
     abs_diff \<leftarrow> (if neg then map_option word_of_int (c_int (- diff)) else Some (word_of_int diff :: u32));
     wide \<leftarrow> (if 0 \<le> norm_shift \<and> norm_shift < 64
              then Some (push_bit (nat norm_shift) (ucast abs_diff :: u64)) else None);
     let scaled = (if wide > 0xFFFFFFFF then 0xFFFFFFFF else ucast wide :: u32);
     quot \<leftarrow> (if std_val = 0 then None else Some (scaled div ucast std_val));
     let result = (if neg then (if quot > 128 then -128 else - sint quot)
                   else (if quot > 127 then 127 else sint quot));
     Some (word_of_int result) }"

definition lnorm_write :: "i8 list \<Rightarrow> int \<Rightarrow> int \<Rightarrow> int \<Rightarrow> u16 \<Rightarrow> int \<Rightarrow> i8 list \<Rightarrow> i8 list option" where
  "lnorm_write input base mean norm_shift std_val i out = do {
     j \<leftarrow> c_int (base + i);
     x \<leftarrow> vec_at input j;
     diff \<leftarrow> c_int (sint x - mean);
     v \<leftarrow> lnorm_element norm_shift std_val diff;
     vec_set j v out }"

definition lnorm_row :: "i8 list \<Rightarrow> int \<Rightarrow> int \<Rightarrow> int \<Rightarrow> i8 list \<Rightarrow> i8 list option" where
  "lnorm_row input row_len norm_shift r out = do {
     base \<leftarrow> c_int (r * row_len);
     sum \<leftarrow> for_int row_len (\<lambda>i sum. do {
       j \<leftarrow> c_int (base + i);
       x \<leftarrow> vec_at input j;
       c_int (sum + sint x) }) 0;
     mean \<leftarrow> c_div sum row_len;
     var_sum \<leftarrow> for_int row_len (\<lambda>i var_sum. do {
       j \<leftarrow> c_int (base + i);
       x \<leftarrow> vec_at input j;
       diff \<leftarrow> c_int (sint x - mean);
       sq \<leftarrow> c_int (diff * diff);
       Some (var_sum + word_of_int sq) }) (0 :: u32);
     variance \<leftarrow> (if (word_of_int row_len :: u32) = 0 then None
                  else Some (var_sum div word_of_int row_len));
     let std_val = isqrt_hw (variance + 1);
     let std_val = (if std_val = 0 then 1 else std_val);
     for_int row_len (lnorm_write input base mean norm_shift std_val) out }"

definition ref_lnorm :: "i8 list \<Rightarrow> int \<Rightarrow> int \<Rightarrow> int \<Rightarrow> i8 list option" where
  "ref_lnorm input num_rows row_len norm_shift = do {
     size \<leftarrow> c_int (num_rows * row_len);
     out \<leftarrow> vec_new size;
     for_int num_rows (lnorm_row input row_len norm_shift) out }"

section \<open>Invariants of the loops\<close>

text \<open>A vector whose first \<open>i\<close> elements have been computed.\<close>

definition filled :: "(nat \<Rightarrow> i8) \<Rightarrow> nat \<Rightarrow> nat \<Rightarrow> i8 list" where
  "filled g tot i = map g [0..<i] @ replicate (tot - i) 0"

text \<open>After the digits from 15 down to \<open>i\<close>, \<open>result\<close> is the floor square root of the top digits and
  \<open>rem\<close> the remainder.\<close>

definition isqrt_inv :: "u32 \<Rightarrow> nat \<Rightarrow> u32 \<times> u16 \<Rightarrow> bool" where
  "isqrt_inv n i = (\<lambda>(rem, result). unat n div 4 ^ i = unat result * unat result + unat rem \<and>
     unat rem \<le> 2 * unat result \<and> unat result < 2 ^ (16 - i))"

section \<open>Loops, bounds and filling an output vector\<close>

lemma c_int_Some [simp]: "- 2147483648 \<le> x \<Longrightarrow> x < 2147483648 \<Longrightarrow> c_int x = Some x"
  by (simp add: c_int_def)

lemma c_int_nat [simp]: "n < 2147483648 \<Longrightarrow> c_int (int n) = Some (int n)"
  by simp

lemma vec_at_nat [simp]: "i < length xs \<Longrightarrow> vec_at xs (int i) = Some (xs ! i)"
  by (simp add: vec_at_def)

lemma vec_new_nat [simp]: "vec_new (int n) = Some (replicate n 0)"
  by (simp add: vec_new_def)

lemma sint_i8: "- 128 \<le> sint (x :: i8)" "sint (x :: i8) \<le> 127"
  using sint_ge [of x] sint_lt [of x] by simp_all

lemma abs_sint_i8: "\<bar>sint (x :: i8)\<bar> \<le> 128"
  using sint_i8 [of x] by linarith

lemma abs_sint_i8_mult: "\<bar>sint (x :: i8) * sint (y :: i8)\<bar> \<le> 16384"
  using mult_mono [OF abs_sint_i8 [of x] abs_sint_i8 [of y]] by (simp add: abs_mult)

text \<open>A counted loop with an invariant indexed by the number of iterations done.\<close>

lemma for_int_inv:
  assumes "I 0 s" and "\<And>k s. k < n \<Longrightarrow> I k s \<Longrightarrow> \<exists>s'. f (int k) s = Some s' \<and> I (Suc k) s'"
  shows "\<exists>s'. for_int (int n) f s = Some s' \<and> I n s'"
proof -
  have "\<exists>s'. foldM (\<lambda>k. f (int k)) [0..<m] s = Some s' \<and> I m s'" if "m \<le> n" for m
    using that
  proof (induction m)
    case 0
    then show ?case using assms(1) by simp
  next
    case (Suc m)
    then obtain s' where "foldM (\<lambda>k. f (int k)) [0..<m] s = Some s'" "I m s'" by auto
    with assms(2) [of m s'] Suc.prems show ?case by (auto simp: foldM_append)
  qed
  from this [of n] show ?thesis by (simp add: for_int_def)
qed

text \<open>Accumulation: as long as the running sum stays within the bound, the loop adds the terms.\<close>

lemma for_int_sum:
  fixes B L :: int
  assumes "\<And>k acc. k < n \<Longrightarrow> \<bar>acc\<bar> \<le> L + int k * B \<Longrightarrow> f (int k) acc = Some (acc + t k)"
    and "\<And>k. k < n \<Longrightarrow> \<bar>t k\<bar> \<le> B" and "\<bar>a0\<bar> \<le> L"
  shows "for_int (int n) f a0 = Some (a0 + (\<Sum>k<n. t k))"
proof -
  let ?I = "\<lambda>k acc. acc = a0 + (\<Sum>j<k. t j) \<and> \<bar>acc\<bar> \<le> L + int k * B"
  have "\<exists>s'. for_int (int n) f a0 = Some s' \<and> ?I n s'"
  proof (rule for_int_inv)
    show "?I 0 a0" using assms(3) by simp
  next
    fix k acc
    assume k: "k < n" and I: "?I k acc"
    then have "f (int k) acc = Some (acc + t k)" using assms(1) by blast
    moreover have "\<bar>acc + t k\<bar> \<le> L + int (Suc k) * B"
      using conjunct2 [OF I] assms(2) [OF k] abs_triangle_ineq [of acc "t k"]
      by (simp add: distrib_right)
    ultimately show "\<exists>s'. f (int k) acc = Some s' \<and> ?I (Suc k) s'" using I by simp
  qed
  then show ?thesis by blast
qed

lemma filled_0: "filled g tot 0 = replicate tot 0"
  by (simp add: filled_def)

lemma filled_all [simp]: "filled g tot tot = map g [0..<tot]"
  by (simp add: filled_def)

lemma vec_set_filled:
  "i < tot \<Longrightarrow> vec_set (int i) (g i) (filled g tot i) = Some (filled g tot (Suc i))"
proof -
  assume i: "i < tot"
  then have "replicate (tot - i) (0 :: i8) = 0 # replicate (tot - Suc i) 0"
    by (simp add: Suc_diff_Suc flip: replicate_Suc)
  with i show ?thesis by (simp add: vec_set_def filled_def list_update_append)
qed

text \<open>A loop whose iteration \<open>k\<close> fills the next \<open>w\<close> elements fills all of them.\<close>

lemma for_int_fill:
  assumes "\<And>k. k < n \<Longrightarrow> f (int k) (filled g tot (i + k * w)) = Some (filled g tot (i + Suc k * w))"
  shows "for_int (int n) f (filled g tot i) = Some (filled g tot (i + n * w))"
proof -
  have "\<exists>s'. for_int (int n) f (filled g tot i) = Some s' \<and> s' = filled g tot (i + n * w)"
    by (rule for_int_inv [where I = "\<lambda>k s. s = filled g tot (i + k * w)"]) (use assms in auto)
  then show ?thesis by blast
qed

section \<open>Square root\<close>

text \<open>Appending two binary digits to a word that leaves room for them.\<close>

lemma unat_append_digits:
  fixes x y :: u32
  assumes "unat x < 2 ^ 30"
  shows "unat (push_bit 2 x OR take_bit 2 y) = 4 * unat x + unat y mod 4"
proof -
  have "push_bit 2 x OR take_bit 2 y = push_bit 2 x + take_bit 2 y"
    by (rule disjunctive_add_eq_or [symmetric]) (auto simp: bit_eq_iff bit_simps)
  moreover have p: "unat (push_bit 2 x) = 4 * unat x"
    using assms by (simp add: push_bit_eq_mult unat_word_ariths)
  moreover have t: "unat (take_bit 2 y) = unat y mod 4"
    by (simp add: take_bit_eq_mod unat_mod)
  moreover have "4 * unat x + unat y mod 4 < 2 ^ 32"
  proof -
    have "unat y mod 4 < 4" by simp
    with assms show ?thesis by simp
  qed
  ultimately show ?thesis by (simp add: unat_word_ariths)
qed

lemma mask_digits: "(z :: u32) AND 3 = take_bit 2 z" "(1 :: u32) = take_bit 2 1"
  by (simp_all add: take_bit_eq_mask mask_eq_exp_minus_1)

text \<open>One digit: if \<open>r\<close> is the floor square root of \<open>m\<close> with remainder \<open>q\<close>, the step computes that of
  \<open>4 * m + d\<close>.\<close>

lemma isqrt_digit:
  fixes m q r d :: nat
  assumes "m = r * r + q" and "q \<le> 2 * r" and "d < 4"
  shows "if 4 * r + 1 \<le> 4 * q + d
    then 4 * m + d = (2 * r + 1) * (2 * r + 1) + (4 * q + d - (4 * r + 1)) \<and>
      4 * q + d - (4 * r + 1) \<le> 2 * (2 * r + 1)
    else 4 * m + d = (2 * r) * (2 * r) + (4 * q + d) \<and> 4 * q + d \<le> 2 * (2 * r)"
  using assms by (auto simp: algebra_simps)

lemma isqrt_step_inv:
  assumes "isqrt_inv n (Suc i) (rem, result)" and "i < 16"
  shows "isqrt_inv n i (isqrt_step n i (rem, result))"
proof -
  define m where "m = unat n div 4 ^ Suc i"
  define d where "d = unat n div 4 ^ i mod 4"
  from assms(1) have m: "m = unat result * unat result + unat rem" "unat rem \<le> 2 * unat result"
    and r: "unat result < 2 ^ (16 - Suc i)" by (simp_all add: isqrt_inv_def m_def)
  have md: "unat n div 4 ^ i = 4 * m + d"
  proof -
    have "unat n div (4 * 4 ^ i) = unat n div 4 ^ i div 4"
      by (metis div_mult2_eq mult.commute)
    then show ?thesis by (simp add: m_def d_def)
  qed
  have "(2 :: nat) ^ (16 - Suc i) \<le> 2 ^ 15" by (rule power_increasing) auto
  with r have r15: "unat result < 2 ^ 15" by linarith
  have dr: "unat (drop_bit (2 * i) n) = unat n div 4 ^ i"
    by (subst unsigned_drop_bit_eq) (simp add: drop_bit_eq_div power_mult take_bit_nat_eq_self)
  have e: "unat (push_bit 2 rem OR (drop_bit (2 * i) n AND 3)) = 4 * unat rem + d"
    using m(2) r15 unfolding mask_digits(1) d_def
    by (subst unat_append_digits) (simp_all add: dr)
  have t: "unat (push_bit 2 (ucast result :: u32) OR 1) = 4 * unat result + 1"
    using r15 by (subst mask_digits(2), subst unat_append_digits) simp_all
  have s: "unat (push_bit 1 result) = 2 * unat result"
    using r15 by (simp add: push_bit_eq_mult unat_word_ariths)
  have s1: "unat (push_bit 1 result OR 1) = 2 * unat result + 1"
  proof -
    have "push_bit 1 result OR 1 = push_bit 1 result + 1" by (simp add: push_bit_eq_mult or_one_eq)
    then show ?thesis using s r15 by (simp add: unat_word_ariths)
  qed
  have "d < 4" by (simp add: d_def)
  note dig = isqrt_digit [OF m this]
  have "16 - i = Suc (16 - Suc i)" using assms(2) by simp
  then have r2: "2 * unat result + 1 < 2 ^ (16 - i)" using r by simp
  have step: "isqrt_step n i (rem, result) =
    (if 4 * unat result + 1 \<le> 4 * unat rem + d
     then ((push_bit 2 rem OR (drop_bit (2 * i) n AND 3)) - (push_bit 2 (ucast result) OR 1),
       push_bit 1 result OR 1)
     else (push_bit 2 rem OR (drop_bit (2 * i) n AND 3), push_bit 1 result))"
    unfolding isqrt_step_def Let_def prod.case word_le_nat_alt t e by (rule refl)
  show ?thesis
  proof (cases "4 * unat result + 1 \<le> 4 * unat rem + d")
    case True
    then have "unat ((push_bit 2 rem OR (drop_bit (2 * i) n AND 3)) - (push_bit 2 (ucast result) OR 1)) =
        4 * unat rem + d - (4 * unat result + 1)"
      by (subst unat_sub) (simp_all only: word_le_nat_alt t e)
    with True dig r2 show ?thesis unfolding step isqrt_inv_def md by (simp only: if_True prod.case s1)
  next
    case False
    moreover have "2 * unat result < 2 ^ (16 - i)" using r2 by linarith
    ultimately show ?thesis
      using dig unfolding step isqrt_inv_def md by (simp only: if_False prod.case s e simp_thms)
  qed
qed

lemma isqrt_hw_inv: "isqrt_inv n 0 (fold (isqrt_step n) (rev [0..<16]) (0, 0))"
proof -
  have "isqrt_inv n (16 - k) (fold (isqrt_step n) (take k (rev [0..<16])) (0, 0))" if "k \<le> 16" for k
    using that
  proof (induction k)
    case 0
    have "unat n div 4 ^ 16 = 0" using unat_u32_less [of n] by (simp del: unat_u32_less)
    then show ?case by (simp add: isqrt_inv_def)
  next
    case (Suc k)
    then have k: "k < 16" and s: "16 - k = Suc (16 - Suc k)" by auto
    have "take (Suc k) (rev [0..<16]) = take k (rev [0..<16]) @ [16 - Suc k]"
      using k by (subst take_Suc_conv_app_nth) (simp_all add: rev_nth)
    moreover obtain rem result where
      f: "fold (isqrt_step n) (take k (rev [0..<16])) (0, 0) = (rem, result)" by fastforce
    ultimately show ?case
      using isqrt_step_inv [of n "16 - Suc k" rem result] Suc k s by simp
  qed
  from this [of 16] show ?thesis by simp
qed

lemma isqrt_hw_floor: "unat (isqrt_hw n) ^ 2 \<le> unat n \<and> unat n < (unat (isqrt_hw n) + 1) ^ 2"
proof -
  obtain rem where "isqrt_inv n 0 (rem, isqrt_hw n)"
    using isqrt_hw_inv [of n] unfolding isqrt_hw_def by (metis prod.collapse)
  then show ?thesis by (simp add: isqrt_inv_def power2_eq_square)
qed

end
