(* ===== verification/Npu_Kernels.thy ===== *)
theory Npu_Kernels
  imports Npu_Reference
begin

text \<open>
  What the bench's reference kernels compute: GEMM, convolution, the vector operations and
  pooling equal closed integer formulas on every input whose sizes fit \<open>int\<close>, and are defined
  there.  The formulas index the output by its position in row-major (NHWC) order; padding is
  the partial function \<open>padded\<close>.
\<close>

section \<open>The formulas\<close>

definition bias_term :: "i8 list \<Rightarrow> nat \<Rightarrow> int" where
  "bias_term bias n = (if bias = [] then 0 else sint (bias ! n))"

definition requantized :: "nat \<Rightarrow> u32 \<Rightarrow> int \<Rightarrow> i8" where
  "requantized q act_mode acc = ref_saturate (drop_bit q (ref_activate act_mode acc))"

definition gemm_acc :: "i8 list \<Rightarrow> i8 list \<Rightarrow> i8 list \<Rightarrow> nat \<Rightarrow> nat \<Rightarrow> nat \<Rightarrow> nat \<Rightarrow> int" where
  "gemm_acc a b bias N K m n =
     (\<Sum>k<K. sint (a ! (m * K + k)) * sint (b ! (k * N + n))) + bias_term bias n"

definition padded :: "i8 list \<Rightarrow> nat \<Rightarrow> nat \<Rightarrow> nat \<Rightarrow> nat \<Rightarrow> nat \<Rightarrow> nat \<Rightarrow> nat \<Rightarrow> nat \<Rightarrow> i8 option" where
  "padded act H W C ph pw y x c =
     (if ph \<le> y \<and> y < ph + H \<and> pw \<le> x \<and> x < pw + W
      then Some (act ! (((y - ph) * W + (x - pw)) * C + c)) else None)"

definition out_dim :: "nat \<Rightarrow> nat \<Rightarrow> nat \<Rightarrow> nat \<Rightarrow> nat" where
  "out_dim H pad R stride = (H + 2 * pad - R) div stride + 1"

definition conv_acc ::
  "i8 list \<Rightarrow> i8 list \<Rightarrow> i8 list \<Rightarrow> nat \<Rightarrow> nat \<Rightarrow> nat \<Rightarrow> nat \<Rightarrow> nat \<Rightarrow> nat \<Rightarrow> nat \<Rightarrow> nat \<Rightarrow> nat \<Rightarrow> nat \<Rightarrow> nat \<Rightarrow>
    nat \<Rightarrow> int" where
  "conv_acc act wt bias H W C R S sh sw ph pw oh ow k =
     (\<Sum>r<R. \<Sum>s<S. \<Sum>c<C.
        (case padded act H W C ph pw (oh * sh + r) (ow * sw + s) c of None \<Rightarrow> 0 | Some a \<Rightarrow> sint a)
        * sint (wt ! (((k * R + r) * S + s) * C + c))) + bias_term bias k"

definition pool_window ::
  "i8 list \<Rightarrow> nat \<Rightarrow> nat \<Rightarrow> nat \<Rightarrow> nat \<Rightarrow> nat \<Rightarrow> nat \<Rightarrow> nat \<Rightarrow> nat \<Rightarrow> nat \<Rightarrow> nat \<Rightarrow> nat \<Rightarrow> nat \<Rightarrow> i8 list" where
  "pool_window input H W C R S sh sw ph pw oh ow c =
     List.map_filter (\<lambda>(r, s). padded input H W C ph pw (oh * sh + r) (ow * sw + s) c)
       (List.product [0..<R] [0..<S])"

definition pool_value :: "int \<Rightarrow> nat \<Rightarrow> i8 list \<Rightarrow> int" where
  "pool_value pool_mode area window =
     (if pool_mode = 0 then Max (insert (-128) (sint ` set window))
      else sum_list (map sint window) sdiv int area)"

section \<open>GEMM\<close>

lemma ref_bias_eq:
  assumes "bias = [] \<or> n < length bias" and "\<bar>acc\<bar> < 2147483520"
  shows "ref_bias bias (int n) acc = Some (acc + bias_term bias n)"
  using assms sint_i8 [of "bias ! n"] by (auto simp: ref_bias_def bias_term_def)

lemma ref_quantize_eq: "q < 32 \<Longrightarrow> ref_quantize (int q) (ref_activate act acc) = Some (requantized q act acc)"
  by (simp add: ref_quantize_def c_shr_def requantized_def)

lemma index2_bounds: "m < M \<Longrightarrow> n < N \<Longrightarrow> M * N < 2 ^ 31 \<Longrightarrow>
    m * N + n < M * N \<and> c_int (int m * int N + int n) = Some (int (m * N + n))"
  using radix_less [of m M n N] by (auto simp: c_int_def simp flip: of_nat_mult of_nat_add)

lemma abs_sum_le:
  fixes t :: "nat \<Rightarrow> int"
  assumes "\<And>k. k < n \<Longrightarrow> \<bar>t k\<bar> \<le> B"
  shows "\<bar>\<Sum>k<n. t k\<bar> \<le> int n * B"
proof -
  have "\<bar>\<Sum>k<n. t k\<bar> \<le> (\<Sum>k<n. \<bar>t k\<bar>)" by (rule sum_abs)
  also have "\<dots> \<le> of_nat (card {..<n}) * B" using assms by (intro sum_bounded_above) auto
  finally show ?thesis by simp
qed

lemma gemm_dot:
  assumes "length a = M * K" and "length b = K * N" and "m < M" and "n < N"
    and "M * K < 2 ^ 31" and "K * N < 2 ^ 31" and "K \<le> 131070"
  shows "ref_gemm_dot a b (int N) (int K) (int m) (int n) =
    Some (\<Sum>k<K. sint (a ! (m * K + k)) * sint (b ! (k * N + n)))"
proof -
  let ?t = "\<lambda>k. sint (a ! (m * K + k)) * sint (b ! (k * N + n))"
  have "ref_gemm_dot a b (int N) (int K) (int m) (int n) = Some (0 + (\<Sum>k<K. ?t k))"
    unfolding ref_gemm_dot_def
  proof (rule for_int_sum [where L = 0 and B = 16384])
    fix k and acc :: int
    assume k: "k < K" and acc: "\<bar>acc\<bar> \<le> 0 + int k * 16384"
    note i = index2_bounds [OF assms(3) k assms(5)] and j = index2_bounds [OF k assms(4,6)]
    have "c_int (acc + ?t k) = Some (acc + ?t k)"
      using acc k assms(7) abs_sint_i8_mult [of "a ! (m * K + k)" "b ! (k * N + n)"]
      by (intro c_int_Some) linarith+
    with i j assms(1,2) show "do {
         i \<leftarrow> c_int (int m * int K + int k);
         j \<leftarrow> c_int (int k * int N + int n);
         x \<leftarrow> vec_at a i;
         y \<leftarrow> vec_at b j;
         c_int (acc + sint x * sint y) } = Some (acc + ?t k)"
      by (simp del: of_nat_add of_nat_mult)
  qed (use abs_sint_i8_mult in auto)
  then show ?thesis by simp
qed

lemma for_int_fill2:
  assumes "\<And>m n. m < M \<Longrightarrow> n < N \<Longrightarrow>
    f (int m) (int n) (filled g (M * N) (m * N + n)) = Some (filled g (M * N) (Suc (m * N + n)))"
  shows "for_int (int M) (\<lambda>m. for_int (int N) (f m)) (replicate (M * N) 0) = Some (map g [0..<M * N])"
proof -
  have "for_int (int N) (f (int m)) (filled g (M * N) (0 + m * N)) = Some (filled g (M * N) (0 + Suc m * N))"
    if "m < M" for m
    using for_int_fill [of N "f (int m)" g "M * N" "m * N" 1] assms [OF that] by (simp add: add.commute)
  then have "for_int (int M) (\<lambda>m. for_int (int N) (f m)) (filled g (M * N) 0) =
      Some (filled g (M * N) (0 + M * N))"
    by (rule for_int_fill)
  then show ?thesis by (simp add: filled_0)
qed

lemma gemm_step:
  assumes "length a = M * K" and "length b = K * N" and "bias = [] \<or> length bias = N"
    and "M * K < 2 ^ 31" and "K * N < 2 ^ 31" and "M * N < 2 ^ 31" and "K \<le> 131070" and "q < 32"
    and m: "m < M" and n: "n < N"
    and g: "g (m * N + n) = requantized q act (gemm_acc a b bias N K m n)"
  shows "ref_gemm_step a b bias (int N) (int K) (int q) act (int m) (int n) (filled g (M * N) (m * N + n)) =
    Some (filled g (M * N) (Suc (m * N + n)))"
proof -
  let ?s = "\<Sum>k<K. sint (a ! (m * K + k)) * sint (b ! (k * N + n))"
  have "\<bar>?s\<bar> \<le> int K * 16384" by (rule abs_sum_le) (rule abs_sint_i8_mult)
  then have bias: "ref_bias bias (int n) ?s = Some (gemm_acc a b bias N K m n)"
    using assms(3,7) n by (subst ref_bias_eq) (auto simp: gemm_acc_def)
  note i = index2_bounds [OF m n assms(6)]
  from vec_set_filled [OF conjunct1 [OF i], of g] show ?thesis
    unfolding ref_gemm_step_def gemm_dot [OF assms(1,2) m n assms(4,5,7)] bind.bind_lunit bias
      ref_quantize_eq [OF assms(8)] conjunct2 [OF i] g .
qed

section \<open>Convolution\<close>

lemma ref_out_dim_eq:
  assumes "R \<le> H + 2 * pad" and "0 < stride" and "H + 2 * pad < 2147483647"
  shows "ref_out_dim (int H) (int pad) (int R) (int stride) = Some (int (out_dim H pad R stride))"
proof -
  have d: "int H + 2 * int pad - int R = int (H + 2 * pad - R)" using assms(1) by simp
  have q: "(H + 2 * pad - R) div stride \<le> H + 2 * pad" by (meson diff_le_self div_le_dividend le_trans)
  have "int (H + 2 * pad - R) sdiv int stride = int ((H + 2 * pad - R) div stride)"
    using assms(2) by (cases "H + 2 * pad - R = 0") (simp_all add: signed_divide_int_def zdiv_int)
  then have "c_div (int (H + 2 * pad - R)) (int stride) = Some (int ((H + 2 * pad - R) div stride))"
    using assms(2,3) q by (simp add: c_div_def)
  moreover have "c_int (int ((H + 2 * pad - R) div stride) + 1) = Some (int (out_dim H pad R stride))"
    using q assms(3) c_int_nat [of "out_dim H pad R stride"] by (simp add: out_dim_def)
  moreover have "c_int (2 * int pad) = Some (2 * int pad)" using assms(3) by (intro c_int_Some) linarith+
  moreover have "c_int (int H + 2 * int pad) = Some (int H + 2 * int pad)"
    using assms(3) by (intro c_int_Some) linarith+
  moreover have "c_int (int H + 2 * int pad - int R) = Some (int (H + 2 * pad - R))"
    unfolding d using assms(3) by (intro c_int_nat) linarith
  ultimately show ?thesis by (simp only: ref_out_dim_def bind.bind_lunit)
qed

lemma tap_less:
  assumes "oh < out_dim H pad R stride" and "r < R" and "R \<le> H + 2 * pad"
  shows "oh * stride + r < H + 2 * pad"
proof -
  from assms(1) have "oh \<le> (H + 2 * pad - R) div stride" by (simp add: out_dim_def)
  then have "oh * stride \<le> (H + 2 * pad - R) div stride * stride" by (rule mult_le_mono1)
  also have "\<dots> \<le> H + 2 * pad - R" by simp
  finally show ?thesis using assms(2,3) by linarith
qed

lemma ref_tap_eq:
  assumes "oh * stride + r < H + 2 * pad" and "H + 2 * pad < 2147483647"
  shows "ref_tap (int oh) (int stride) (int r) (int pad) = Some (int (oh * stride + r) - int pad)"
proof -
  have "c_int (int oh * int stride) = Some (int (oh * stride))"
    "c_int (int (oh * stride) + int r) = Some (int (oh * stride + r))"
    "c_int (int (oh * stride + r) - int pad) = Some (int (oh * stride + r) - int pad)"
    using assms by (simp_all flip: of_nat_mult of_nat_add)
  then show ?thesis by (simp only: ref_tap_def bind.bind_lunit)
qed

lemma index3_less: "y < H \<Longrightarrow> x < W \<Longrightarrow> c < C \<Longrightarrow> (y * W + x) * C + c < H * W * C" for y x c :: nat
  by (intro radix_less)

lemma ref_index3_eq:
  assumes "y < H" and "x < W" and "c < C" and "H * W * C < 2147483648"
  shows "ref_index3 (int y) (int W) (int x) (int C) (int c) = Some (int ((y * W + x) * C + c))"
proof -
  have b: "(y * W + x) * C + c < 2147483648" using index3_less [OF assms(1-3)] assms(4) by linarith
  have z: "(y * W + x) * C < 2147483648" using b by (rule le_less_trans [OF le_add1])
  have "(y * W + x) * 1 \<le> (y * W + x) * C" using assms(3) by (intro mult_le_mono2) simp
  then have yx: "y * W + x < 2147483648" using z by (metis le_less_trans mult.right_neutral)
  then have "y * W < 2147483648" by (rule le_less_trans [OF le_add1])
  with b z yx have "c_int (int y * int W) = Some (int (y * W))"
    "c_int (int (y * W) + int x) = Some (int (y * W + x))"
    "c_int (int (y * W + x) * int C) = Some (int ((y * W + x) * C))"
    "c_int (int ((y * W + x) * C) + int c) = Some (int ((y * W + x) * C + c))"
    by (simp_all flip: of_nat_mult of_nat_add)
  then show ?thesis by (simp only: ref_index3_def bind.bind_lunit)
qed

text \<open>Reading the input at a tap: the element, or nothing outside the unpadded image.\<close>

lemma padded_read:
  fixes f :: "i8 \<Rightarrow> 'b option"
  assumes "length act = H * W * C" and "H * W * C < 2147483648" and "c < C"
  shows "(if 0 \<le> int y - int ph \<and> int y - int ph < int H \<and> 0 \<le> int x - int pw \<and> int x - int pw < int W
      then do { i \<leftarrow> ref_index3 (int y - int ph) (int W) (int x - int pw) (int C) (int c);
                v \<leftarrow> vec_at act i; f v }
      else e) =
    (case padded act H W C ph pw y x c of None \<Rightarrow> e | Some v \<Rightarrow> f v)"
proof (cases "ph \<le> y \<and> y < ph + H \<and> pw \<le> x \<and> x < pw + W")
  case True
  then have d: "int y - int ph = int (y - ph)" "int x - int pw = int (x - pw)" "y - ph < H" "x - pw < W"
    by auto
  note i = ref_index3_eq [OF d(3,4) assms(3,2)] index3_less [OF d(3,4) assms(3)]
  have "vec_at act (int (((y - ph) * W + (x - pw)) * C + c)) = Some (act ! (((y - ph) * W + (x - pw)) * C + c))"
    using i(2) assms(1) by (intro vec_at_nat) simp
  with i(1) True show ?thesis unfolding padded_def d(1,2)
    by (simp only: if_True option.case bind.bind_lunit of_nat_0_le_iff of_nat_less_iff d(3,4) simp_thms)
next
  case False
  then show ?thesis by (auto simp: padded_def)
qed

lemma for_int_sum3:
  fixes B :: int
  assumes f: "\<And>r s c acc. r < R \<Longrightarrow> s < S \<Longrightarrow> c < C \<Longrightarrow> \<bar>acc\<bar> \<le> int ((r * S + s) * C + c) * B \<Longrightarrow>
      f (int r) (int s) (int c) acc = Some (acc + t r s c)"
    and t: "\<And>r s c. r < R \<Longrightarrow> s < S \<Longrightarrow> c < C \<Longrightarrow> \<bar>t r s c\<bar> \<le> B"
  shows "for_int (int R) (\<lambda>r. for_int (int S) (\<lambda>s. for_int (int C) (f r s))) 0 =
    Some (\<Sum>r<R. \<Sum>s<S. \<Sum>c<C. t r s c)"
proof -
  have ts: "\<bar>\<Sum>c<C. t r s c\<bar> \<le> int C * B" if "r < R" "s < S" for r s
    using t [OF that] by (rule abs_sum_le)
  have tr: "\<bar>\<Sum>s<S. \<Sum>c<C. t r s c\<bar> \<le> int S * (int C * B)" if "r < R" for r
    using ts [OF that] by (rule abs_sum_le)
  have "for_int (int R) (\<lambda>r. for_int (int S) (\<lambda>s. for_int (int C) (f r s))) 0 =
      Some (0 + (\<Sum>r<R. \<Sum>s<S. \<Sum>c<C. t r s c))"
  proof (rule for_int_sum [where L = 0 and B = "int S * (int C * B)"])
    fix r acc
    assume r: "r < R" and acc: "\<bar>acc\<bar> \<le> 0 + int r * (int S * (int C * B))"
    show "for_int (int S) (\<lambda>s. for_int (int C) (f (int r) s)) acc = Some (acc + (\<Sum>s<S. \<Sum>c<C. t r s c))"
    proof (rule for_int_sum [where L = "int r * (int S * (int C * B))" and B = "int C * B"])
      fix s acc
      assume s: "s < S" and acc: "\<bar>acc\<bar> \<le> int r * (int S * (int C * B)) + int s * (int C * B)"
      show "for_int (int C) (f (int r) (int s)) acc = Some (acc + (\<Sum>c<C. t r s c))"
        by (rule for_int_sum [where L = "int r * (int S * (int C * B)) + int s * (int C * B)" and B = B])
          (use r s acc f t in \<open>auto simp: algebra_simps\<close>)
    qed (use r acc ts in auto)
  qed (use tr in auto)
  then show ?thesis by simp
qed

lemma acc_budget: "n < 131070 \<Longrightarrow> \<bar>acc\<bar> \<le> int n * 16384 \<Longrightarrow> \<bar>acc\<bar> \<le> 131069 * 16384"
  by linarith

lemma conv_dot:
  assumes "length act = H * W * C" and "length wt = K * R * S * C"
    and "H * W * C < 2 ^ 31" and "K * R * S * C < 2 ^ 31" and "R * S * C \<le> 131070"
    and "R \<le> H + 2 * ph" and "S \<le> W + 2 * pw"
    and "H + 2 * ph < 2 ^ 31 - 1" and "W + 2 * pw < 2 ^ 31 - 1"
    and "oh < out_dim H ph R sh" and "ow < out_dim W pw S sw" and "k < K"
  shows "ref_conv_dot act wt (int H) (int W) (int C) (int R) (int S) (int sh) (int sw) (int ph) (int pw)
      (int oh) (int ow) (int k) =
    Some (\<Sum>r<R. \<Sum>s<S. \<Sum>c<C.
        (case padded act H W C ph pw (oh * sh + r) (ow * sw + s) c of None \<Rightarrow> 0 | Some a \<Rightarrow> sint a)
        * sint (wt ! (((k * R + r) * S + s) * C + c)))"
  unfolding ref_conv_dot_def
proof (rule for_int_sum3 [where B = 16384])
  fix r s c and acc :: int
  assume rsc: "r < R" "s < S" "c < C" and acc: "\<bar>acc\<bar> \<le> int ((r * S + s) * C + c) * 16384"
  let ?p = "padded act H W C ph pw (oh * sh + r) (ow * sw + s) c"
  let ?a = "case ?p of None \<Rightarrow> 0 | Some a \<Rightarrow> sint a"
  let ?j = "((k * R + r) * S + s) * C + c"
  have ih: "ref_tap (int oh) (int sh) (int r) (int ph) = Some (int (oh * sh + r) - int ph)"
    by (rule ref_tap_eq [OF tap_less [OF assms(10) rsc(1) assms(6)]]) (use assms(8) in simp)
  have iw: "ref_tap (int ow) (int sw) (int s) (int pw) = Some (int (ow * sw + s) - int pw)"
    by (rule ref_tap_eq [OF tap_less [OF assms(11) rsc(2) assms(7)]]) (use assms(9) in simp)
  have jl: "?j < K * R * S * C" using index3_less [OF radix_less [OF assms(12) rsc(1)] rsc(2,3)] .
  have krs: "K * R * S < 2147483648"
    using assms(4) rsc(3) by (cases C) (auto intro: le_less_trans [OF le_add1])
  have q: "ref_index3 (int k) (int R) (int r) (int S) (int s) = Some (int ((k * R + r) * S + s))"
    by (rule ref_index3_eq [OF assms(12) rsc(1,2) krs])
  have j: "c_int (int ((k * R + r) * S + s) * int C) = Some (int (((k * R + r) * S + s) * C))"
    "c_int (int (((k * R + r) * S + s) * C) + int c) = Some (int ?j)"
    using jl assms(4) le_less_trans [OF le_add1 jl] by (simp_all flip: of_nat_mult of_nat_add)
  have w: "vec_at wt (int ?j) = Some (wt ! ?j)" using jl assms(2) by (intro vec_at_nat) simp
  have "(r * S + s) * C + c < R * S * C" by (rule index3_less [OF rsc])
  then have "\<bar>acc\<bar> \<le> 131069 * 16384" using acc assms(5) by (intro acc_budget) (rule less_le_trans)
  moreover have "\<bar>?a * sint (wt ! ?j)\<bar> \<le> 16384"
    using abs_sint_i8_mult by (cases ?p) simp_all
  ultimately have s: "c_int (acc + ?a * sint (wt ! ?j)) = Some (acc + ?a * sint (wt ! ?j))"
    by (intro c_int_Some) linarith+
  have "H * W * C < 2147483648" using assms(3) by simp
  note rd = padded_read [where f = Some and e = "Some 0", OF assms(1) this rsc(3), unfolded Option.bind_runit]
  show "do {
       ih \<leftarrow> ref_tap (int oh) (int sh) (int r) (int ph);
       iw \<leftarrow> ref_tap (int ow) (int sw) (int s) (int pw);
       a \<leftarrow> (if 0 \<le> ih \<and> ih < int H \<and> 0 \<le> iw \<and> iw < int W
             then do { i \<leftarrow> ref_index3 ih (int W) iw (int C) (int c); vec_at act i } else Some 0);
       q \<leftarrow> ref_index3 (int k) (int R) (int r) (int S) (int s);
       j \<leftarrow> c_int (q * int C);
       j \<leftarrow> c_int (j + int c);
       w \<leftarrow> vec_at wt j;
       c_int (acc + sint a * sint w) } = Some (acc + ?a * sint (wt ! ?j))"
    unfolding ih iw bind.bind_lunit rd q j w using s by (cases ?p) simp_all
qed (use abs_sint_i8_mult in \<open>auto split: option.split\<close>)


lemma for_int_fill3:
  assumes "\<And>x y z. x < X \<Longrightarrow> y < Y \<Longrightarrow> z < Z \<Longrightarrow>
    f (int x) (int y) (int z) (filled g (X * Y * Z) ((x * Y + y) * Z + z)) =
      Some (filled g (X * Y * Z) (Suc ((x * Y + y) * Z + z)))"
  shows "for_int (int X) (\<lambda>x. for_int (int Y) (\<lambda>y. for_int (int Z) (f x y))) (replicate (X * Y * Z) 0) =
    Some (map g [0..<X * Y * Z])"
proof -
  let ?F = "filled g (X * Y * Z)"
  have z: "for_int (int Z) (f (int x) (int y)) (?F (x * (Y * Z) + y * Z)) = Some (?F (x * (Y * Z) + Suc y * Z))"
    if "x < X" "y < Y" for x y
    using for_int_fill [of Z "f (int x) (int y)" g "X * Y * Z" "(x * Y + y) * Z" 1] assms [OF that]
    by (simp add: algebra_simps)
  have y: "for_int (int Y) (\<lambda>y. for_int (int Z) (f (int x) y)) (?F (0 + x * (Y * Z))) = Some (?F (0 + Suc x * (Y * Z)))"
    if "x < X" for x
    using for_int_fill [of Y "\<lambda>y. for_int (int Z) (f (int x) y)" g "X * Y * Z" "x * (Y * Z)" Z] z [OF that]
    by (simp add: algebra_simps)
  from for_int_fill [of X "\<lambda>x. for_int (int Y) (\<lambda>y. for_int (int Z) (f x y))", OF y]
  show ?thesis by (simp add: filled_0 mult.assoc)
qed

text \<open>The position in the output of row \<open>i\<close> of the flattened index.\<close>

lemma index3_decode:
  fixes x y z :: nat
  assumes "y < Y" and "z < Z"
  shows "((x * Y + y) * Z + z) div (Y * Z) = x" and "((x * Y + y) * Z + z) div Z mod Y = y"
    and "((x * Y + y) * Z + z) mod Z = z"
proof -
  have d: "((x * Y + y) * Z + z) div Z = x * Y + y" using assms(2) by simp
  show "((x * Y + y) * Z + z) div (Y * Z) = x"
    using assms(1) by (subst mult.commute [of Y]) (simp add: div_mult2_eq d)
  show "((x * Y + y) * Z + z) div Z mod Y = y" using d assms(1) by simp
  show "((x * Y + y) * Z + z) mod Z = z" using assms(2) by simp
qed

lemma conv_step:
  fixes act wt bias :: "i8 list" and H W C K R S sh sw ph pw :: nat
  defines "OH \<equiv> out_dim H ph R sh" and "OW \<equiv> out_dim W pw S sw"
  assumes "length act = H * W * C" and "length wt = K * R * S * C" and "bias = [] \<or> length bias = K"
    and "H * W * C < 2 ^ 31" and "K * R * S * C < 2 ^ 31" and "R * S * C \<le> 131070"
    and "R \<le> H + 2 * ph" and "S \<le> W + 2 * pw"
    and "H + 2 * ph < 2 ^ 31 - 1" and "W + 2 * pw < 2 ^ 31 - 1"
    and "OH * OW * K < 2 ^ 31" and "q < 32" and o: "oh < OH" "ow < OW" "k < K"
    and g: "g ((oh * OW + ow) * K + k) =
      requantized q mode (conv_acc act wt bias H W C R S sh sw ph pw oh ow k)"
  shows "ref_conv_step act wt bias (int H) (int W) (int C) (int K) (int R) (int S) (int sh) (int sw) (int ph)
      (int pw) (int OW) (int q) mode (int oh) (int ow) (int k)
      (filled g (OH * OW * K) ((oh * OW + ow) * K + k)) =
    Some (filled g (OH * OW * K) (Suc ((oh * OW + ow) * K + k)))"
proof -
  let ?t = "\<lambda>r s c. (case padded act H W C ph pw (oh * sh + r) (ow * sw + s) c of None \<Rightarrow> 0 | Some a \<Rightarrow> sint a)
      * sint (wt ! (((k * R + r) * S + s) * C + c))"
  note dot = conv_dot [OF assms(3,4,6-12) o(1,2) [unfolded OH_def OW_def] o(3)]
  have "\<bar>\<Sum>r<R. \<Sum>s<S. \<Sum>c<C. ?t r s c\<bar> \<le> int R * (int S * (int C * 16384))"
    by (intro abs_sum_le) (use abs_sint_i8_mult in \<open>auto split: option.split\<close>)
  also have "\<dots> = int (R * S * C) * 16384" by simp
  finally have "\<bar>\<Sum>r<R. \<Sum>s<S. \<Sum>c<C. ?t r s c\<bar> \<le> 131070 * 16384" using assms(8) by linarith
  then have bias: "ref_bias bias (int k) (\<Sum>r<R. \<Sum>s<S. \<Sum>c<C. ?t r s c) =
      Some (conv_acc act wt bias H W C R S sh sw ph pw oh ow k)"
    using assms(5) o(3) by (subst ref_bias_eq) (auto simp: conv_acc_def)
  have i: "ref_index3 (int oh) (int OW) (int ow) (int K) (int k) = Some (int ((oh * OW + ow) * K + k))"
    using assms(13) by (intro ref_index3_eq [OF o]) simp
  from vec_set_filled [OF index3_less [OF o], of g] show ?thesis
    unfolding ref_conv_step_def dot bind.bind_lunit bias ref_quantize_eq [OF assms(14)] i g .
qed

section \<open>Vector operations and pooling\<close>

lemma for_int2_foldM:
  "for_int (int R) (\<lambda>r. for_int (int S) (f r)) x =
    foldM (\<lambda>(r, s). f (int r) (int s)) (List.product [0..<R] [0..<S]) x"
proof -
  have "for_int (int S) (f (int k)) = foldM (\<lambda>(r, s). f (int r) (int s)) (map (Pair k) [0..<S])" for k
    by (rule ext) (simp add: for_int_def foldM_map)
  then show ?thesis by (simp add: for_int_def [of "int R"] product_concat_map foldM_concat foldM_map)
qed

lemma foldM_map_filter:
  "foldM (\<lambda>p x. case P p of None \<Rightarrow> Some x | Some v \<Rightarrow> Some (h v x)) ps x =
    Some (fold h (List.map_filter P ps) x)"
  by (induction ps arbitrary: x) (simp_all add: map_filter_simps split: option.split)

lemma length_map_filter_le: "length (List.map_filter P ps) \<le> length ps"
  by (simp add: map_filter_def)

lemma fold_max:
  "sint (fold (\<lambda>v m. if sint v > sint m then v else m) ws m) = Max (insert (sint m) (sint ` set ws))"
  for m :: i8
proof (induction ws arbitrary: m)
  case Nil
  show ?case by simp
next
  case (Cons v ws)
  have "Max (insert (sint m) (sint ` set (v # ws))) = max (sint m) (Max (insert (sint v) (sint ` set ws)))"
    by (simp add: Max_insert)
  also have "\<dots> = Max (insert (max (sint m) (sint v)) (sint ` set ws))"
    by (cases "ws = []") (simp_all add: Max_insert max.assoc)
  finally show ?case by (simp add: Cons max_def)
qed

lemma foldM_sum:
  assumes "\<bar>acc\<bar> + 128 * int (length ps) < 2147483648"
  shows "foldM (\<lambda>p acc. case P p of None \<Rightarrow> Some acc | Some v \<Rightarrow> c_int (acc + sint (v :: i8))) ps acc =
    Some (acc + sum_list (map sint (List.map_filter P ps)))"
  using assms
proof (induction ps arbitrary: acc)
  case Nil
  show ?case by (simp add: map_filter_simps)
next
  case (Cons p ps)
  show ?case
  proof (cases "P p")
    case None
    with Cons show ?thesis by (simp add: map_filter_simps)
  next
    case (Some v)
    have "\<bar>acc + sint v\<bar> + 128 * int (length ps) < 2147483648"
      using Cons.prems sint_i8 [of v] by auto
    with Cons.IH [OF this] Some show ?thesis by (simp add: map_filter_simps)
  qed
qed

lemma sum_sint_bounds:
  "- 128 * int (length ws) \<le> sum_list (map sint ws) \<and> sum_list (map sint ws) \<le> 127 * int (length ws)"
  for ws :: "i8 list"
proof (induction ws)
  case (Cons w ws)
  then show ?case using sint_i8 [of w] by simp
qed simp

text \<open>What a pooling loop sees of the input at one output position.\<close>

lemma pool_taps:
  fixes f :: "i8 \<Rightarrow> 's \<Rightarrow> 's option"
  assumes "length input = H * W * C" and "H * W * C < 2147483648" and "c < C"
    and "R \<le> H + 2 * ph" and "S \<le> W + 2 * pw"
    and "H + 2 * ph < 2147483647" and "W + 2 * pw < 2147483647"
    and "oh < out_dim H ph R sh" and "ow < out_dim W pw S sw"
  shows "for_int (int R) (\<lambda>r. for_int (int S) (\<lambda>s x. do {
       ih \<leftarrow> ref_tap (int oh) (int sh) r (int ph);
       iw \<leftarrow> ref_tap (int ow) (int sw) s (int pw);
       (if 0 \<le> ih \<and> ih < int H \<and> 0 \<le> iw \<and> iw < int W then do {
          i \<leftarrow> ref_index3 ih (int W) iw (int C) (int c);
          v \<leftarrow> vec_at input i;
          f v x }
        else Some x) })) x =
    foldM (\<lambda>p x. case (case p of (r, s) \<Rightarrow> padded input H W C ph pw (oh * sh + r) (ow * sw + s) c)
      of None \<Rightarrow> Some x | Some v \<Rightarrow> f v x) (List.product [0..<R] [0..<S]) x"
  unfolding for_int2_foldM
proof (rule foldM_cong [OF refl])
  fix p x
  assume "p \<in> set (List.product [0..<R] [0..<S])"
  then obtain r s where p: "p = (r, s)" "r < R" "s < S" by auto
  have ih: "ref_tap (int oh) (int sh) (int r) (int ph) = Some (int (oh * sh + r) - int ph)"
    by (rule ref_tap_eq [OF tap_less [OF assms(8) p(2) assms(4)] assms(6)])
  have iw: "ref_tap (int ow) (int sw) (int s) (int pw) = Some (int (ow * sw + s) - int pw)"
    by (rule ref_tap_eq [OF tap_less [OF assms(9) p(3) assms(5)] assms(7)])
  show "(case p of (r, s) \<Rightarrow> \<lambda>x. do {
       ih \<leftarrow> ref_tap (int oh) (int sh) (int r) (int ph);
       iw \<leftarrow> ref_tap (int ow) (int sw) (int s) (int pw);
       (if 0 \<le> ih \<and> ih < int H \<and> 0 \<le> iw \<and> iw < int W then do {
          i \<leftarrow> ref_index3 ih (int W) iw (int C) (int c);
          v \<leftarrow> vec_at input i;
          f v x }
        else Some x) }) x =
    (case (case p of (r, s) \<Rightarrow> padded input H W C ph pw (oh * sh + r) (ow * sw + s) c)
      of None \<Rightarrow> Some x | Some v \<Rightarrow> f v x)"
    unfolding p(1) prod.case ih iw bind.bind_lunit by (rule padded_read [OF assms(1-3)])
qed

lemma pool_max_eq:
  assumes "length input = H * W * C" and "H * W * C < 2147483648" and "c < C"
    and "R \<le> H + 2 * ph" and "S \<le> W + 2 * pw"
    and "H + 2 * ph < 2147483647" and "W + 2 * pw < 2147483647"
    and "oh < out_dim H ph R sh" and "ow < out_dim W pw S sw"
  shows "ref_pool_max input (int H) (int W) (int C) (int R) (int S) (int sh) (int sw) (int ph) (int pw)
      (int oh) (int ow) (int c) =
    Some (word_of_int (Max (insert (-128) (sint ` set (pool_window input H W C R S sh sw ph pw oh ow c)))))"
proof -
  let ?w = "pool_window input H W C R S sh sw ph pw oh ow c"
  let ?m = "fold (\<lambda>v m. if sint v > sint m then v else m) ?w (word_of_int (-128) :: i8)"
  have "ref_pool_max input (int H) (int W) (int C) (int R) (int S) (int sh) (int sw) (int ph) (int pw)
      (int oh) (int ow) (int c) = Some ?m"
    unfolding ref_pool_max_def pool_taps [OF assms] foldM_map_filter pool_window_def by (rule refl)
  moreover have "sint ?m = Max (insert (-128) (sint ` set ?w))" by (subst fold_max) simp
  from arg_cong [where f = "word_of_int :: int \<Rightarrow> i8", OF this]
  have "?m = word_of_int (Max (insert (-128) (sint ` set ?w)))" by (simp only: of_int_sint scast_id)
  ultimately show ?thesis by simp
qed

lemma length_pool_window: "length (pool_window input H W C R S sh sw ph pw oh ow c) \<le> R * S"
  using length_map_filter_le [of _ "List.product [0..<R] [0..<S]"] by (simp add: pool_window_def)

lemma saturate_small: "- 128 \<le> x \<Longrightarrow> x \<le> 127 \<Longrightarrow> ref_saturate x = word_of_int x"
  by (simp add: ref_saturate_def)

lemma sint_small:
  assumes "unat w < 2147483648"
  shows "sint (w :: u32) = int (unat w)"
proof -
  have "uint w < 2147483648" using assms by (metis of_nat_less_iff of_nat_numeral uint_nat)
  moreover have "- 2147483648 \<le> uint w" by (rule order_trans [of _ 0]) simp_all
  ultimately have "sint w = uint w"
    unfolding sint_uint by (intro signed_take_bit_int_eq_self) simp_all
  then show ?thesis by simp
qed

lemma unat_u32_of_int: "n < 4294967296 \<Longrightarrow> unat (word_of_int (int n) :: u32) = n"
  by (simp add: unsigned_of_nat take_bit_nat_eq_self)

text \<open>The sign is taken off before the unsigned division and restored after it.\<close>

lemma pool_avg_eq:
  assumes "length input = H * W * C" and "H * W * C < 2147483648" and "c < C"
    and "R \<le> H + 2 * ph" and "S \<le> W + 2 * pw"
    and "H + 2 * ph < 2147483647" and "W + 2 * pw < 2147483647"
    and "oh < out_dim H ph R sh" and "ow < out_dim W pw S sw"
    and "0 < R * S" and "128 * (R * S) < 2147483648"
  shows "ref_pool_avg input (int H) (int W) (int C) (int R) (int S) (int sh) (int sw) (int ph) (int pw)
      (int (R * S)) (int oh) (int ow) (int c) =
    Some (word_of_int (sum_list (map sint (pool_window input H W C R S sh sw ph pw oh ow c)) sdiv int (R * S)))"
proof -
  let ?w = "pool_window input H W C R S sh sw ph pw oh ow c"
  define t where "t = sum_list (map sint ?w)"
  define A where "A = R * S"
  define q where "q = nat \<bar>t\<bar> div A"
  have A: "0 < A" "128 * A < 2147483648" using assms(10,11) by (simp_all add: A_def)
  have lw: "int (length ?w) \<le> int A" using length_pool_window A_def by (simp only: of_nat_le_iff)
  have t: "- 128 * int A \<le> t" "t \<le> 127 * int A"
    using sum_sint_bounds [of ?w] lw unfolding t_def by linarith+
  have loop: "foldM (\<lambda>p x. case (case p of (r, s) \<Rightarrow> padded input H W C ph pw (oh * sh + r) (ow * sw + s) c)
      of None \<Rightarrow> Some x | Some v \<Rightarrow> c_int (x + sint v)) (List.product [0..<R] [0..<S]) 0 = Some t"
    using A(2) unfolding A_def
    by (subst foldM_sum) (simp_all add: t_def pool_window_def flip: of_nat_mult)
  have abs: "(if t < 0 then c_int (- t) else Some t) = Some (int (nat \<bar>t\<bar>))"
    using t A by (auto intro: c_int_Some)
  have na: "nat \<bar>t\<bar> < 4294967296" using t A by linarith
  have uA: "unat (word_of_int (int A) :: u32) = A" using A by (intro unat_u32_of_int) simp
  have quot: "unat ((word_of_int (int (nat \<bar>t\<bar>)) :: u32) div word_of_int (int A)) = q"
    by (simp only: unat_div q_def unat_u32_of_int [OF na] uA)
  have "nat \<bar>t\<bar> \<le> 128 * A" "t \<ge> 0 \<Longrightarrow> nat \<bar>t\<bar> \<le> 127 * A" using t by linarith+
  then have q: "q \<le> 128" "t \<ge> 0 \<Longrightarrow> q \<le> 127"
    using div_le_mono [of "nat \<bar>t\<bar>" "128 * A" A] div_le_mono [of "nat \<bar>t\<bar>" "127 * A" A] A(1)
    by (simp_all add: q_def)
  have sq: "sint ((word_of_int (int (nat \<bar>t\<bar>)) :: u32) div word_of_int (int A)) = int q"
    using q(1) quot by (subst sint_small) simp_all
  let ?d = "(word_of_int (int (nat \<bar>t\<bar>)) :: u32) div word_of_int (int A)"
  have sd: "t sdiv int A = (if t < 0 then - int q else int q)"
    using A(1) by (simp add: signed_divide_int_def q_def sgn_if zdiv_int)
  then have res: "(if t < 0 then c_int (- sint ?d) else Some (sint ?d)) = Some (t sdiv int A)"
    using q by (simp only: sq) auto
  have sat: "ref_saturate (t sdiv int A) = word_of_int (t sdiv int A)"
    using q sd by (intro saturate_small) auto
  have nz: "(word_of_int (int A) :: u32) \<noteq> 0" using A(1) uA by (metis less_numeral_extra(3) unat_0)
  show ?thesis
    unfolding ref_pool_avg_def pool_taps [OF assms(1-9)] loop bind.bind_lunit Let_def abs
      A_def [symmetric] t_def [symmetric]
    by (simp only: nz if_False bind.bind_lunit res sat)
qed

lemma pool_step:
  fixes input :: "i8 list" and H W C R S sh sw ph pw :: nat
  defines "OH \<equiv> out_dim H ph R sh" and "OW \<equiv> out_dim W pw S sw"
  assumes "length input = H * W * C" and "H * W * C < 2 ^ 31"
    and "R \<le> H + 2 * ph" and "S \<le> W + 2 * pw"
    and "H + 2 * ph < 2 ^ 31 - 1" and "W + 2 * pw < 2 ^ 31 - 1"
    and "OH * OW * C < 2 ^ 31" and "0 < R * S" and "R * S < 2 ^ 24" and o: "oh < OH" "ow < OW" "c < C"
    and g: "g ((oh * OW + ow) * C + c) =
      word_of_int (pool_value mode (R * S) (pool_window input H W C R S sh sw ph pw oh ow c))"
  shows "ref_pool_step input (int H) (int W) (int C) (int R) (int S) (int sh) (int sw) (int ph) (int pw) mode
      (int OW) (int (R * S)) (int oh) (int ow) (int c) (filled g (OH * OW * C) ((oh * OW + ow) * C + c)) =
    Some (filled g (OH * OW * C) (Suc ((oh * OW + ow) * C + c)))"
proof -
  have small: "H * W * C < 2147483648" "H + 2 * ph < 2147483647" "W + 2 * pw < 2147483647"
    "128 * (R * S) < 2147483648" using assms(4,7,8,11) by simp_all
  note o' = o(1,2) [unfolded OH_def OW_def]
  have v: "(if mode = 0
      then ref_pool_max input (int H) (int W) (int C) (int R) (int S) (int sh) (int sw) (int ph) (int pw)
        (int oh) (int ow) (int c)
      else ref_pool_avg input (int H) (int W) (int C) (int R) (int S) (int sh) (int sw) (int ph) (int pw)
        (int (R * S)) (int oh) (int ow) (int c)) =
      Some (word_of_int (pool_value mode (R * S) (pool_window input H W C R S sh sw ph pw oh ow c)))"
    unfolding pool_value_def
    using pool_max_eq [OF assms(3) small(1) o(3) assms(5,6) small(2,3) o']
      pool_avg_eq [OF assms(3) small(1) o(3) assms(5,6) small(2,3) o' assms(10) small(4)] by simp
  have i: "ref_index3 (int oh) (int OW) (int ow) (int C) (int c) = Some (int ((oh * OW + ow) * C + c))"
    using assms(9) by (intro ref_index3_eq [OF o]) simp
  from vec_set_filled [OF index3_less [OF o], of g] show ?thesis
    unfolding ref_pool_step_def v bind.bind_lunit i g .
qed

lemma ref_gemm_eq:
  assumes "length a = M * K" and "length b = K * N" and "bias = [] \<or> length bias = N"
    and "M * K < 2 ^ 31" and "K * N < 2 ^ 31" and "M * N < 2 ^ 31" and "K \<le> 131070" and "q < 32"
  shows "ref_gemm a b bias (int M) (int N) (int K) (int q) act =
    Some (map (\<lambda>i. requantized q act (gemm_acc a b bias N K (i div N) (i mod N))) [0..<M * N])"
proof -
  have size: "c_int (int M * int N) = Some (int (M * N))"
    using assms(6) c_int_nat [of "M * N"] by simp
  have "for_int (int M) (\<lambda>m. for_int (int N) (ref_gemm_step a b bias (int N) (int K) (int q) act m))
      (replicate (M * N) 0) =
    Some (map (\<lambda>i. requantized q act (gemm_acc a b bias N K (i div N) (i mod N))) [0..<M * N])"
    by (rule for_int_fill2, rule gemm_step [OF assms]) simp_all
  then show ?thesis by (simp add: ref_gemm_def size del: of_nat_mult)
qed

lemma ref_pool_eq:
  fixes input :: "i8 list" and H W C R S sh sw ph pw :: nat
  defines "OH \<equiv> out_dim H ph R sh" and "OW \<equiv> out_dim W pw S sw"
  assumes "length input = H * W * C" and "H * W * C < 2 ^ 31"
    and "R \<le> H + 2 * ph" and "S \<le> W + 2 * pw"
    and "H + 2 * ph < 2 ^ 31 - 1" and "W + 2 * pw < 2 ^ 31 - 1"
    and "OH * OW * C < 2 ^ 31" and "0 < R * S" and "R * S < 2 ^ 24"
    and "0 < sh" and "0 < sw" and "OH * OW < 2 ^ 31"
  shows "ref_pool input (int H) (int W) (int C) (int R) (int S) (int sh) (int sw) (int ph) (int pw) mode =
    Some (map (\<lambda>i. word_of_int (pool_value mode (R * S) (pool_window input H W C R S sh sw ph pw
      (i div (OW * C)) (i div C mod OW) (i mod C)))) [0..<OH * OW * C])"
proof -
  let ?g = "\<lambda>i. word_of_int (pool_value mode (R * S) (pool_window input H W C R S sh sw ph pw
      (i div (OW * C)) (i div C mod OW) (i mod C))) :: i8"
  have dims: "ref_out_dim (int H) (int ph) (int R) (int sh) = Some (int OH)"
    "ref_out_dim (int W) (int pw) (int S) (int sw) = Some (int OW)"
    unfolding OH_def OW_def using assms by (auto intro!: ref_out_dim_eq)
  have size: "c_int (int OH * int OW) = Some (int (OH * OW))"
    "c_int (int (OH * OW) * int C) = Some (int (OH * OW * C))"
    "c_int (int R * int S) = Some (int (R * S))"
    using assms(9,11,14) by (simp_all flip: of_nat_mult)
  have "for_int (int OH) (\<lambda>oh. for_int (int OW) (\<lambda>ow. for_int (int C)
      (ref_pool_step input (int H) (int W) (int C) (int R) (int S) (int sh) (int sw) (int ph) (int pw) mode
        (int OW) (int (R * S)) oh ow))) (replicate (OH * OW * C) 0) = Some (map ?g [0..<OH * OW * C])"
  proof (rule for_int_fill3)
    fix oh ow c
    assume o: "oh < OH" "ow < OW" "c < C"
    have "?g ((oh * OW + ow) * C + c) =
        word_of_int (pool_value mode (R * S) (pool_window input H W C R S sh sw ph pw oh ow c))"
      by (simp only: index3_decode [OF o(2,3)])
    from pool_step [OF assms(3-8) assms(9) [unfolded OH_def OW_def] assms(10,11) o [unfolded OH_def OW_def],
        folded OH_def OW_def, of ?g, OF this]
    show "ref_pool_step input (int H) (int W) (int C) (int R) (int S) (int sh) (int sw) (int ph) (int pw) mode
        (int OW) (int (R * S)) (int oh) (int ow) (int c) (filled ?g (OH * OW * C) ((oh * OW + ow) * C + c)) =
      Some (filled ?g (OH * OW * C) (Suc ((oh * OW + ow) * C + c)))" .
  qed
  then show ?thesis by (simp add: ref_pool_def dims size del: of_nat_mult)
qed

lemma ref_conv_eq:
  fixes act wt bias :: "i8 list" and H W C K R S sh sw ph pw :: nat
  defines "OH \<equiv> out_dim H ph R sh" and "OW \<equiv> out_dim W pw S sw"
  assumes "length act = H * W * C" and "length wt = K * R * S * C" and "bias = [] \<or> length bias = K"
    and "H * W * C < 2 ^ 31" and "K * R * S * C < 2 ^ 31" and "R * S * C \<le> 131070"
    and "R \<le> H + 2 * ph" and "S \<le> W + 2 * pw"
    and "H + 2 * ph < 2 ^ 31 - 1" and "W + 2 * pw < 2 ^ 31 - 1" and "0 < sh" and "0 < sw"
    and "OH * OW < 2 ^ 31" and "OH * OW * K < 2 ^ 31" and "q < 32"
  shows "ref_conv act wt bias (int H) (int W) (int C) (int K) (int R) (int S) (int sh) (int sw) (int ph)
      (int pw) (int q) mode =
    Some (map (\<lambda>i. requantized q mode (conv_acc act wt bias H W C R S sh sw ph pw (i div (OW * K))
      (i div K mod OW) (i mod K))) [0..<OH * OW * K])"
proof -
  let ?g = "\<lambda>i. requantized q mode (conv_acc act wt bias H W C R S sh sw ph pw (i div (OW * K))
      (i div K mod OW) (i mod K))"
  have dims: "ref_out_dim (int H) (int ph) (int R) (int sh) = Some (int OH)"
    "ref_out_dim (int W) (int pw) (int S) (int sw) = Some (int OW)"
    unfolding OH_def OW_def using assms by (auto intro!: ref_out_dim_eq)
  have size: "c_int (int OH * int OW) = Some (int (OH * OW))"
    "c_int (int (OH * OW) * int K) = Some (int (OH * OW * K))"
    using assms(15,16) by (simp_all flip: of_nat_mult)
  have "for_int (int OH) (\<lambda>oh. for_int (int OW) (\<lambda>ow. for_int (int K)
      (ref_conv_step act wt bias (int H) (int W) (int C) (int K) (int R) (int S) (int sh) (int sw) (int ph)
        (int pw) (int OW) (int q) mode oh ow))) (replicate (OH * OW * K) 0) = Some (map ?g [0..<OH * OW * K])"
  proof (rule for_int_fill3)
    fix oh ow k
    assume o: "oh < OH" "ow < OW" "k < K"
    have "?g ((oh * OW + ow) * K + k) = requantized q mode (conv_acc act wt bias H W C R S sh sw ph pw oh ow k)"
      by (simp only: index3_decode [OF o(2,3)])
    from conv_step [OF assms(3-12) assms(16,17) [unfolded OH_def OW_def] o [unfolded OH_def OW_def],
        folded OH_def OW_def, of ?g, OF this]
    show "ref_conv_step act wt bias (int H) (int W) (int C) (int K) (int R) (int S) (int sh) (int sw) (int ph)
        (int pw) (int OW) (int q) mode (int oh) (int ow) (int k)
        (filled ?g (OH * OW * K) ((oh * OW + ow) * K + k)) =
      Some (filled ?g (OH * OW * K) (Suc ((oh * OW + ow) * K + k)))" .
  qed
  then show ?thesis by (simp add: ref_conv_def dims size del: of_nat_mult)
qed

section \<open>Properties\<close>

text \<open>C7: The reference GEMM computes matrix multiplication.  For operands of matching sizes whose
  element counts fit \<open>int\<close>, an inner dimension of at most 131070 and a shift below 32,
  \<open>ref_gemm\<close> is defined (no overflow, no access outside a vector) and element (m, n) of its
  result is the exact integer dot product plus bias, activated, shifted and saturated.\<close>

theorem ref_gemm_correct:
  assumes "length a = M * K" and "length b = K * N" and "bias = [] \<or> length bias = N"
    and "M * K < 2 ^ 31" and "K * N < 2 ^ 31" and "M * N < 2 ^ 31" and "K \<le> 131070" and "q < 32"
  shows "ref_gemm a b bias (int M) (int N) (int K) (int q) act =
    Some (map (\<lambda>i. requantized q act (gemm_acc a b bias N K (i div N) (i mod N))) [0..<M * N])"
  by (rule ref_gemm_eq [OF assms])

theorem ref_gemm_correct_witness:
  "ref_gemm [1, 2, 3, 4, 5, 6] [1, 0, 0, 1, 2, 2] [10, 20] 2 2 3 1 ACT_MODE_RELU =
    Some (map (\<lambda>i. requantized 1 ACT_MODE_RELU
      (gemm_acc [1, 2, 3, 4, 5, 6] [1, 0, 0, 1, 2, 2] [10, 20] 2 3 (i div 2) (i mod 2))) [0..<2 * 2])"
  using ref_gemm_correct [of "[1, 2, 3, 4, 5, 6]" 2 3 "[1, 0, 0, 1, 2, 2]" 2 "[10, 20]" 1 ACT_MODE_RELU]
  by simp

text \<open>C8: The reference convolution computes strided, zero-padded convolution.  Under the size bounds
  stated, \<open>ref_conv\<close> is defined and element (oh, ow, k) of its NHWC result is the exact integer
  sum over the filter taps of padded input times weight, plus bias, activated, shifted and
  saturated.\<close>

theorem ref_conv_correct:
  fixes act wt bias :: "i8 list" and H W C K R S sh sw ph pw :: nat
  defines "OH \<equiv> out_dim H ph R sh" and "OW \<equiv> out_dim W pw S sw"
  assumes "length act = H * W * C" and "length wt = K * R * S * C" and "bias = [] \<or> length bias = K"
    and "H * W * C < 2 ^ 31" and "K * R * S * C < 2 ^ 31" and "R * S * C \<le> 131070"
    and "R \<le> H + 2 * ph" and "S \<le> W + 2 * pw"
    and "H + 2 * ph < 2 ^ 31 - 1" and "W + 2 * pw < 2 ^ 31 - 1" and "0 < sh" and "0 < sw"
    and "OH * OW < 2 ^ 31" and "OH * OW * K < 2 ^ 31" and "q < 32"
  shows "ref_conv act wt bias (int H) (int W) (int C) (int K) (int R) (int S) (int sh) (int sw) (int ph)
      (int pw) (int q) mode =
    Some (map (\<lambda>i. requantized q mode (conv_acc act wt bias H W C R S sh sw ph pw (i div (OW * K))
      (i div K mod OW) (i mod K))) [0..<OH * OW * K])"
  using assms(3-17) unfolding OH_def OW_def by (rule ref_conv_eq)

theorem ref_conv_correct_witness:
  "ref_conv [1, 2, 3, 4] [1, 1, 1, 1] [] 2 2 1 1 2 2 1 1 1 1 0 ACT_MODE_NONE =
    Some (map (\<lambda>i. requantized 0 ACT_MODE_NONE (conv_acc [1, 2, 3, 4] [1, 1, 1, 1] [] 2 2 1 2 2 1 1 1 1
      (i div 3) (i mod 3) 0)) [0..<9])"
  using ref_conv_correct [of "[1, 2, 3, 4]" 2 2 1 "[1, 1, 1, 1]" 1 2 2 "[]" 1 1 1 1 0 ACT_MODE_NONE]
  by (simp add: out_dim_def)

text \<open>C25: The reference pooling.  Under the size bounds stated, \<open>ref_pool\<close> is defined; a MAX output is the
  maximum of -128 and the window's elements inside the image, an AVG output is their sum divided by
  the full window area, rounded toward zero, and the final clamp never changes it.\<close>

theorem ref_pool_correct:
  fixes input :: "i8 list" and H W C R S sh sw ph pw :: nat
  defines "OH \<equiv> out_dim H ph R sh" and "OW \<equiv> out_dim W pw S sw"
  assumes "length input = H * W * C" and "H * W * C < 2 ^ 31"
    and "R \<le> H + 2 * ph" and "S \<le> W + 2 * pw"
    and "H + 2 * ph < 2 ^ 31 - 1" and "W + 2 * pw < 2 ^ 31 - 1"
    and "OH * OW * C < 2 ^ 31" and "0 < R * S" and "R * S < 2 ^ 24"
    and "0 < sh" and "0 < sw" and "OH * OW < 2 ^ 31"
  shows "ref_pool input (int H) (int W) (int C) (int R) (int S) (int sh) (int sw) (int ph) (int pw) mode =
    Some (map (\<lambda>i. word_of_int (pool_value mode (R * S) (pool_window input H W C R S sh sw ph pw
      (i div (OW * C)) (i div C mod OW) (i mod C)))) [0..<OH * OW * C])"
  using assms(3-14) unfolding OH_def OW_def by (rule ref_pool_eq)

theorem ref_pool_correct_witness:
  "ref_pool [1, 2, 3, 4] 2 2 1 2 2 1 1 0 0 1 =
    Some (map (\<lambda>i. word_of_int (pool_value 1 4 (pool_window [1, 2, 3, 4] 2 2 1 2 2 1 1 0 0 i 0 0))) [0..<1])"
  using ref_pool_correct [of "[1, 2, 3, 4]" 2 2 1 2 0 2 0 1 1 1] by (simp add: out_dim_def)

text \<open>The reference vector operations.  For operands of at least the requested length, \<open>ref_vec\<close> with
  operation 0 is the saturating sum of the elements and with any other value their product,
  activated, shifted and saturated.\<close>

theorem ref_vec_correct:
  assumes "n \<le> length a" and "n \<le> length b" and "op = 0 \<or> q < 32"
  shows "ref_vec a b (int n) op (int q) mode = Some (map (\<lambda>i.
    if op = 0 then ref_saturate (sint (a ! i) + sint (b ! i))
    else requantized q mode (sint (a ! i) * sint (b ! i))) [0..<n])"
proof -
  let ?g = "\<lambda>i. if op = 0 then ref_saturate (sint (a ! i) + sint (b ! i))
    else requantized q mode (sint (a ! i) * sint (b ! i))"
  have "for_int (int n) (\<lambda>i out. do {
       x \<leftarrow> vec_at a i;
       y \<leftarrow> vec_at b i;
       v \<leftarrow> (if op = 0 then Some (ref_saturate (sint x + sint y))
             else ref_quantize (int q) (ref_activate mode (sint x * sint y)));
       vec_set i v out }) (filled ?g n 0) = Some (filled ?g n (0 + n * 1))"
  proof (rule for_int_fill)
    fix k
    assume k: "k < n"
    then have "vec_at a (int k) = Some (a ! k)" "vec_at b (int k) = Some (b ! k)" using assms by simp_all
    with vec_set_filled [OF k, of ?g] assms(3) show "do {
       x \<leftarrow> vec_at a (int k);
       y \<leftarrow> vec_at b (int k);
       v \<leftarrow> (if op = 0 then Some (ref_saturate (sint x + sint y))
             else ref_quantize (int q) (ref_activate mode (sint x * sint y)));
       vec_set (int k) v (filled ?g n (0 + k * 1)) } = Some (filled ?g n (0 + Suc k * 1))"
      by (cases "op = 0") (simp_all add: ref_quantize_eq)
  qed
  then show ?thesis by (simp add: ref_vec_def filled_0)
qed

theorem ref_vec_correct_witness:
  "ref_vec [100, 3] [100, 4] 2 1 2 ACT_MODE_NONE = Some (map (\<lambda>i.
    if (1 :: u32) = 0 then ref_saturate (sint ([100, 3] ! i :: i8) + sint ([100, 4] ! i :: i8))
    else requantized 2 ACT_MODE_NONE (sint ([100, 3] ! i :: i8) * sint ([100, 4] ! i :: i8))) [0..<2])"
  using ref_vec_correct [of 2 "[100, 3]" "[100, 4]" 1 2 ACT_MODE_NONE] by simp

end
