(* ===== verification/Npu_Normalize.thy ===== *)
theory Npu_Normalize
  imports Npu_Kernels
begin

text \<open>
  The row-wise reference kernels of the bench: softmax with the two-table exponential, and
  layer normalisation with the digit-by-digit square root.  Both are defined for rows of up to
  65535 elements; a softmax row is a distribution scaled to 127 that preserves the order of its
  inputs, and layer normalisation computes the truncated integer formula.
\<close>

section \<open>The formulas\<close>

definition exp_value :: "nat \<Rightarrow> nat" where
  "exp_value d = map unat exp_int ! (d div 32) * map unat exp_frac ! (d mod 32) div 65536"

definition row_of :: "i8 list \<Rightarrow> nat \<Rightarrow> nat \<Rightarrow> i8 list" where
  "row_of input N r = map (\<lambda>i. input ! (r * N + i)) [0..<N]"

definition row_max :: "i8 list \<Rightarrow> i8" where
  "row_max xs = fold (\<lambda>v m. if sint m < sint v then v else m) xs (word_of_int (-128))"

definition softmax_exp :: "i8 list \<Rightarrow> i8 \<Rightarrow> nat" where
  "softmax_exp xs x = unat (softmax_exp_approx (row_max xs - x))"

definition softmax_value :: "i8 list \<Rightarrow> i8 \<Rightarrow> nat" where
  "softmax_value xs x = softmax_exp xs x * 127 div sum_list (map (softmax_exp xs) xs)"

definition row_mean :: "i8 list \<Rightarrow> int" where
  "row_mean xs = sum_list (map sint xs) sdiv int (length xs)"

definition row_variance :: "i8 list \<Rightarrow> nat" where
  "row_variance xs = nat (\<Sum>x\<leftarrow>xs. (sint x - row_mean xs)\<^sup>2) div length xs"

definition lnorm_value :: "nat \<Rightarrow> i8 list \<Rightarrow> i8 \<Rightarrow> int" where
  "lnorm_value shift xs x =
     max (-128) (min 127 (((sint x - row_mean xs) * 2 ^ shift) sdiv
       int (GREATEST s. s * s \<le> row_variance xs + 1)))"

section \<open>The exponential\<close>

text \<open>The two tables: decreasing, and a step of the integer part outweighs the whole fraction.\<close>

lemma exp_tables:
  "length exp_int = 8" "length exp_frac = 32"
  "sorted_wrt (\<ge>) (map unat exp_frac)"
  "sorted_wrt (\<lambda>a b. b * 65535 \<le> a * 24874) (map unat exp_int)"
  "\<forall>f \<in> set (map unat exp_frac). 24874 \<le> f \<and> f \<le> 65535"
  "\<forall>a \<in> set (map unat exp_int). 60 \<le> a"
  by (simp_all add: exp_int_def exp_frac_def)

lemma exp_value_antimono:
  assumes "d \<le> e" and "e < 256"
  shows "exp_value e \<le> exp_value d"
proof -
  let ?I = "map unat exp_int" and ?F = "map unat exp_frac"
  have i: "d div 32 < 8" "e div 32 < 8" "d mod 32 < 32" "e mod 32 < 32" using assms by auto
  have f: "24874 \<le> ?F ! (d mod 32)" "?F ! (e mod 32) \<le> 65535"
    using exp_tables(2,5) i nth_mem [of "d mod 32" ?F] nth_mem [of "e mod 32" ?F] by auto
  have "?I ! (e div 32) * ?F ! (e mod 32) \<le> ?I ! (d div 32) * ?F ! (d mod 32)"
  proof (cases "d div 32 = e div 32")
    case True
    then have "d mod 32 \<le> e mod 32" using assms(1) div_mult_mod_eq [of d 32] div_mult_mod_eq [of e 32] by linarith
    then have "?F ! (e mod 32) \<le> ?F ! (d mod 32)"
      using sorted_wrt_nth_less [OF exp_tables(3), of "d mod 32" "e mod 32"] exp_tables(2) i
      by (cases "d mod 32 = e mod 32") auto
    with True show ?thesis by (simp only: mult_le_mono2)
  next
    case False
    then have "d div 32 < e div 32" using assms(1) div_le_mono by fastforce
    then have "?I ! (e div 32) * 65535 \<le> ?I ! (d div 32) * 24874"
      using sorted_wrt_nth_less [OF exp_tables(4), of "d div 32" "e div 32"] exp_tables(1) i by simp
    with f show ?thesis by (meson le_trans mult_le_mono2)
  qed
  then show ?thesis unfolding exp_value_def by (rule div_le_mono)
qed

lemma exp_value_positive: "d < 256 \<Longrightarrow> 0 < exp_value d"
proof -
  assume d: "d < 256"
  have "60 \<le> map unat exp_int ! (d div 32)" "24874 \<le> map unat exp_frac ! (d mod 32)"
    using d exp_tables(1,2,5,6) nth_mem [of "d div 32" "map unat exp_int"]
      nth_mem [of "d mod 32" "map unat exp_frac"] by auto
  then have "60 * 24874 \<le> map unat exp_int ! (d div 32) * map unat exp_frac ! (d mod 32)"
    by (rule mult_le_mono)
  from div_le_mono [OF this, of 65536] show ?thesis by (simp add: exp_value_def)
qed

lemma unat_u32_drop_16: "unat (drop_bit 16 (x :: u32)) = unat x div 65536"
  by (subst unsigned_drop_bit_eq) (simp add: drop_bit_eq_div take_bit_nat_eq_self)

lemma exp_approx_value: "unat (softmax_exp_approx d) = exp_value (unat d)"
proof -
  have l: "length exp_int = 8" "length exp_frac = 32" by (simp_all add: exp_int_def exp_frac_def)
  have d: "unat (drop_bit 5 d) = unat d div 32"
    by (subst unsigned_drop_bit_eq) (simp add: drop_bit_eq_div take_bit_nat_eq_self)
  have m: "unat (d AND 31) = unat d mod 32"
    using take_bit_eq_mask [of 5 d] unat_mod [of d 32] by (simp add: mask_eq_exp_minus_1 take_bit_eq_mod)
  define p where "p = unat (exp_int ! (unat d div 32)) * unat (exp_frac ! (unat d mod 32))"
  have "p \<le> 65535 * 65535" unfolding p_def by (intro mult_le_mono unat_u16_le)
  then have u: "unat ((ucast (exp_int ! unat (drop_bit 5 d)) :: u32) * ucast (exp_frac ! unat (d AND 31))) = p"
    unfolding d m by (simp add: unat_word_ariths p_def)
  have "unat (softmax_exp_approx d) = take_bit 16 (p div 65536)"
    unfolding softmax_exp_approx_def Let_def unsigned_ucast_eq unat_u32_drop_16 u by simp
  with \<open>p \<le> 65535 * 65535\<close> have "unat (softmax_exp_approx d) = p div 65536"
    by (simp add: take_bit_nat_eq_self)
  moreover have "unat d div 32 < 8" using unat_u8_less [of d] by (simp del: unat_u8_less)
  ultimately show ?thesis using l by (simp add: exp_value_def p_def nth_map)
qed

section \<open>Softmax\<close>

text \<open>A loop over the elements of one row of the input.\<close>

lemma length_row_of [simp]: "length (row_of input N r) = N"
  by (simp add: row_of_def)

lemma row_element:
  assumes "length input = M * N" and "M * N < 2147483648" and "r < M" and "i < N"
  shows "c_int (int (r * N) + int i) = Some (int (r * N + i))"
    and "vec_at input (int (r * N + i)) = Some (row_of input N r ! i)"
proof -
  have b: "r * N + i < M * N" by (rule radix_less [OF assms(3,4)])
  then show "c_int (int (r * N) + int i) = Some (int (r * N + i))"
    using assms(2) c_int_nat [of "r * N + i"] by simp
  from b show "vec_at input (int (r * N + i)) = Some (row_of input N r ! i)"
    using assms(1,4) by (subst vec_at_nat) (simp_all add: row_of_def)
qed

lemma row_loop:
  fixes f :: "i8 \<Rightarrow> 's \<Rightarrow> 's option"
  assumes "length input = M * N" and "M * N < 2147483648" and "r < M"
  shows "for_int (int N) (\<lambda>i x. do { j \<leftarrow> c_int (int (r * N) + i); v \<leftarrow> vec_at input j; f v x }) x =
    foldM f (row_of input N r) x"
proof -
  have "foldM f (row_of input N r) x = foldM (\<lambda>i. f (row_of input N r ! i)) [0..<N] x"
    unfolding foldM_map [symmetric] by (simp add: map_nth [of "row_of input N r", simplified])
  also have "\<dots> = foldM (\<lambda>i x. do { j \<leftarrow> c_int (int (r * N) + int i); v \<leftarrow> vec_at input j; f v x }) [0..<N] x"
    by (rule foldM_cong [OF refl]) (use row_element [OF assms] in \<open>simp del: of_nat_add of_nat_mult\<close>)
  finally show ?thesis by (simp add: for_int_def)
qed

lemma unat_fold_sum:
  fixes f :: "i8 \<Rightarrow> u16" and a :: u32
  assumes "unat a + 65535 * length xs < 4294967296"
  shows "unat (fold (\<lambda>x s. s + ucast (f x)) xs a) = unat a + sum_list (map (\<lambda>x. unat (f x)) xs)"
  using assms
proof (induction xs arbitrary: a)
  case Nil
  show ?case by simp
next
  case (Cons x xs)
  have "unat (a + ucast (f x)) = unat a + unat (f x)"
    using Cons.prems unat_u16_le [of "f x"] by (simp add: unat_word_ariths)
  with Cons unat_u16_le [of "f x"] show ?case by simp
qed

lemma softmax_exp_bounds: "0 < softmax_exp xs x" "softmax_exp xs x \<le> 65535"
  unfolding softmax_exp_def
  by (simp only: exp_approx_value exp_value_positive [OF unat_u8_less]) (rule unat_u16_le)

lemma softmax_exp_le_sum: "x \<in> set xs \<Longrightarrow> softmax_exp xs x \<le> sum_list (map (softmax_exp xs) xs)"
  by (rule member_le_sum_list) simp_all

lemma softmax_value_le: "x \<in> set xs \<Longrightarrow> softmax_value xs x \<le> 127"
proof -
  assume "x \<in> set xs"
  note le = softmax_exp_le_sum [OF this]
  then have "softmax_exp xs x * 127 \<le> sum_list (map (softmax_exp xs) xs) * 127" by simp
  from div_le_mono [OF this, of "sum_list (map (softmax_exp xs) xs)"] le softmax_exp_bounds(1) [of xs x]
  show ?thesis by (simp add: softmax_value_def)
qed

text \<open>The last pass on one element.\<close>

lemma softmax_quotient:
  fixes T :: u32
  assumes "x \<in> set xs" and "unat T = sum_list (map (softmax_exp xs) xs)"
  shows "T \<noteq> 0"
    and "(ucast ((ucast (softmax_exp_approx (row_max xs - x)) :: u32) * 127 div T) :: u8) =
      word_of_nat (softmax_value xs x)"
    and "\<not> 127 < (word_of_nat (softmax_value xs x) :: u8)"
proof -
  show "T \<noteq> 0"
    using softmax_exp_le_sum [OF assms(1)] softmax_exp_bounds(1) [of xs x] assms(2)
    by (metis le_zero_eq less_not_refl unat_0)
  let ?e = "softmax_exp_approx (row_max xs - x)"
  have "unat ((ucast ?e :: u32) * 127) = unat ?e * 127"
    using unat_u16_le [of ?e] by (simp add: unat_word_ariths)
  then have "unat ((ucast ?e :: u32) * 127 div T) = softmax_value xs x"
    unfolding unat_div assms(2) by (simp add: softmax_value_def softmax_exp_def)
  then show "(ucast ((ucast ?e :: u32) * 127 div T) :: u8) = word_of_nat (softmax_value xs x)"
    by (metis of_nat_unat)
  show "\<not> 127 < (word_of_nat (softmax_value xs x) :: u8)"
    using softmax_value_le [OF assms(1)] 
    by (simp add: word_less_nat_alt unsigned_of_nat take_bit_nat_eq_self)
qed

lemma row_base: "r < M \<Longrightarrow> M * N < 2147483648 \<Longrightarrow> c_int (int r * int N) = Some (int (r * N))"
  using c_int_nat [of "r * N"] le_less_trans [OF mult_le_mono1 [of r M N]] by simp

lemma softmax_element_step:
  fixes T :: u32
  assumes "length input = M * N" and "M * N < 2147483648" and r: "r < M" and i: "i < N"
  defines "xs \<equiv> row_of input N r"
  assumes T: "unat T = sum_list (map (softmax_exp xs) xs)"
    and g: "g (r * N + i) = word_of_nat (softmax_value xs (xs ! i))"
  shows "softmax_element input (int (r * N)) (row_max xs) T (int i) (filled g (M * N) (r * N + i)) =
    Some (filled g (M * N) (Suc (r * N + i)))"
proof -
  have x: "xs ! i \<in> set xs" using i by (simp add: xs_def)
  note q = softmax_quotient [OF x T]
  from vec_set_filled [OF radix_less [OF r i], of g] show ?thesis
    unfolding softmax_element_def row_element [OF assms(1,2) r i, folded xs_def] bind.bind_lunit
      Let_def q(2) g
    using q(1,3) by simp
qed

lemma softmax_row_eq:
  assumes "length input = M * N" and "M * N < 2147483648" and "N \<le> 65535" and r: "r < M"
    and g: "\<And>i. i < N \<Longrightarrow> g (r * N + i) = word_of_nat (softmax_value (row_of input N r) (row_of input N r ! i))"
  shows "softmax_row input (int N) (int r) (filled g (M * N) (0 + r * N)) =
    Some (filled g (M * N) (0 + Suc r * N))"
proof -
  define xs where "xs = row_of input N r"
  define T where "T = fold (\<lambda>x s. s + ucast (softmax_exp_approx (row_max xs - x))) xs (0 :: u32)"
  have T: "unat T = sum_list (map (softmax_exp xs) xs)"
    unfolding T_def using assms(3) by (subst unat_fold_sum) (simp_all add: xs_def softmax_exp_def [abs_def])
  have "for_int (int N) (softmax_element input (int (r * N)) (row_max xs) T) (filled g (M * N) (r * N)) =
      Some (filled g (M * N) (r * N + N * 1))"
    by (rule for_int_fill)
      (use softmax_element_step [OF assms(1,2) r, folded xs_def, OF _ T] g [folded xs_def] in simp)
  then show ?thesis
    unfolding softmax_row_def row_base [OF r assms(2)] bind.bind_lunit row_loop [OF assms(1,2) r]
      foldM_Some row_max_def [symmetric] xs_def [symmetric] T_def [symmetric]
    by (simp add: add.commute)
qed

lemma softmax_correct:
  assumes "length input = M * N" and "M * N < 2147483648" and "N \<le> 65535"
  shows "ref_softmax input (int M) (int N) =
    Some (map (\<lambda>i. word_of_nat (softmax_value (row_of input N (i div N)) (input ! i))) [0..<M * N])"
proof -
  have size: "c_int (int M * int N) = Some (int (M * N))" using assms(2) c_int_nat [of "M * N"] by simp
  let ?g = "\<lambda>i. word_of_nat (softmax_value (row_of input N (i div N)) (input ! i)) :: i8"
  have "for_int (int M) (softmax_row input (int N)) (filled ?g (M * N) 0) =
      Some (filled ?g (M * N) (0 + M * N))"
    by (rule for_int_fill, rule softmax_row_eq [OF assms]) (simp_all add: row_of_def)
  then show ?thesis by (simp add: ref_softmax_def size filled_0 del: of_nat_mult)
qed

lemma sum_div_le: "(\<Sum>x\<leftarrow>xs. f x div T) * T \<le> (\<Sum>x\<leftarrow>xs. f x)" for f :: "'a \<Rightarrow> nat"
  by (induction xs) (simp_all add: add_mult_distrib add_le_mono)

lemma softmax_row_sum: "sum_list (map (softmax_value xs) xs) \<le> 127"
proof (cases "xs = []")
  case False
  let ?T = "sum_list (map (softmax_exp xs) xs)"
  from False have T: "0 < ?T"
    using softmax_exp_le_sum [of "hd xs" xs] softmax_exp_bounds(1) [of xs "hd xs"] by force
  have "sum_list (map (softmax_value xs) xs) * ?T \<le> (\<Sum>x\<leftarrow>xs. softmax_exp xs x * 127)"
    using sum_div_le [of "\<lambda>x. softmax_exp xs x * 127" ?T xs] by (simp add: softmax_value_def [abs_def])
  also have "\<dots> = 127 * ?T" by (simp add: sum_list_mult_const mult.commute)
  finally show ?thesis using T by simp
qed simp

lemma sint_row_max: "x \<in> set xs \<Longrightarrow> sint x \<le> sint (row_max xs)"
  unfolding row_max_def by (subst fold_max) (simp add: Max_ge_iff)

lemma unat_row_diff:
  assumes "x \<in> set xs"
  shows "int (unat (row_max xs - x)) = sint (row_max xs) - sint x"
proof -
  let ?d = "sint (row_max xs) - sint x"
  have d: "0 \<le> ?d" "?d < 256"
    using sint_row_max [OF assms] sint_i8 [of x] sint_i8 [of "row_max xs"] by linarith+
  have "row_max xs - x = word_of_int ?d" by simp
  then have "uint (row_max xs - x) = take_bit 8 ?d" by (simp only: unsigned_of_int) simp
  with d show ?thesis by (simp add: take_bit_int_eq_self)
qed

lemma softmax_value_mono:
  assumes "x \<in> set xs" and "y \<in> set xs" and "sint x \<le> sint y"
  shows "softmax_value xs x \<le> softmax_value xs y"
proof -
  have "unat (row_max xs - y) \<le> unat (row_max xs - x)"
    using unat_row_diff [OF assms(1)] unat_row_diff [OF assms(2)] assms(3) by linarith
  then have "softmax_exp xs x \<le> softmax_exp xs y"
    unfolding softmax_exp_def exp_approx_value by (rule exp_value_antimono) (rule unat_u8_less)
  then show ?thesis unfolding softmax_value_def by (intro div_le_mono mult_le_mono1)
qed

lemma isqrt_hw_greatest: "n < 4294967296 \<Longrightarrow> unat (isqrt_hw (word_of_nat n)) = (GREATEST s. s * s \<le> n)"
proof -
  assume n: "n < 4294967296"
  let ?r = "unat (isqrt_hw (word_of_nat n))"
  have r: "?r * ?r \<le> n" "n < (?r + 1) * (?r + 1)"
    using isqrt_hw_floor [of "word_of_nat n"] n
    by (simp_all add: unsigned_of_nat take_bit_nat_eq_self power2_eq_square)
  have "y \<le> ?r" if "y * y \<le> n" for y
  proof (rule ccontr)
    assume "\<not> y \<le> ?r"
    then have "(?r + 1) * (?r + 1) \<le> y * y" by (intro mult_le_mono) simp_all
    with that r(2) show False by linarith
  qed
  with r(1) show ?thesis by (intro Greatest_equality [symmetric]) auto
qed

lemma sint_i8_of_nat: "n \<le> 127 \<Longrightarrow> sint (word_of_nat n :: i8) = int n"
  by (simp add: sint_uint unsigned_of_nat take_bit_nat_eq_self signed_take_bit_int_eq_self)

lemma all_less_2: "(\<forall>i<2. P i) \<longleftrightarrow> P 0 \<and> P (1 :: nat)"
  by (auto simp: less_2_cases_iff)

section \<open>Layer normalisation\<close>

lemma sdiv_pos: "0 < n \<Longrightarrow> t sdiv n = (if t < 0 then - (- t div n) else t div n)" for t n :: int
  by (auto simp: signed_divide_int_def sgn_if)

lemma sdiv_bounds:
  fixes t n :: int
  assumes "0 < n" and "- a * n \<le> t" and "t \<le> b * n" and "0 \<le> a" and "0 \<le> b"
  shows "- a \<le> t sdiv n" and "t sdiv n \<le> b"
proof -
  have "- t div n \<le> a * n div n" "t div n \<le> b * n div n"
    using assms(1-3) by (intro zdiv_mono1; simp)+
  moreover have "t < 0 \<Longrightarrow> 0 \<le> - t div n" "\<not> t < 0 \<Longrightarrow> 0 \<le> t div n"
    using assms(1) by (simp_all add: pos_imp_zdiv_nonneg_iff)
  ultimately show "- a \<le> t sdiv n" "t sdiv n \<le> b"
    using assms unfolding sdiv_pos [OF assms(1)] by auto
qed

lemma row_mean_bounds: "xs \<noteq> [] \<Longrightarrow> - 128 \<le> row_mean xs \<and> row_mean xs \<le> 127"
  unfolding row_mean_def using sum_sint_bounds [of xs]
  by (intro conjI sdiv_bounds [where a = 128 and b = 127]) auto

lemma row_diff_bounds: "xs \<noteq> [] \<Longrightarrow> \<bar>sint x - row_mean xs\<bar> \<le> 255" for x :: i8
  using row_mean_bounds [of xs] sint_i8 [of x] by auto

lemma unat_fold_squares:
  fixes a :: u32
  assumes "unat a + 65025 * length ys < 4294967296" and "\<And>x. x \<in> set ys \<Longrightarrow> \<bar>sint x - m\<bar> \<le> 255"
  shows "foldM (\<lambda>x s. do {
      diff \<leftarrow> c_int (sint (x :: i8) - m); sq \<leftarrow> c_int (diff * diff); Some (s + word_of_int sq) }) ys a =
    Some (a + word_of_nat (nat (\<Sum>x\<leftarrow>ys. (sint x - m)\<^sup>2)))
    \<and> unat a + nat (\<Sum>x\<leftarrow>ys. (sint x - m)\<^sup>2) < 4294967296 \<and>
      nat (\<Sum>x\<leftarrow>ys. (sint x - m)\<^sup>2) \<le> 65025 * length ys"
  using assms
proof (induction ys arbitrary: a)
  case Nil
  then show ?case by simp
next
  case (Cons x ys)
  let ?d = "sint x - m" and ?s = "\<Sum>x\<leftarrow>ys. (sint x - m)\<^sup>2"
  have d: "\<bar>?d\<bar> \<le> 255" using Cons.prems(2) by simp
  then have "\<bar>?d\<bar> * \<bar>?d\<bar> \<le> 255 * 255" by (intro mult_mono) simp_all
  then have sq: "0 \<le> ?d * ?d" "?d * ?d \<le> 65025" by (simp_all add: abs_mult_self_eq)
  have c: "c_int ?d = Some ?d" "c_int (?d * ?d) = Some (?d * ?d)" 
    by (intro c_int_Some; use d sq in linarith)+
  define k where "k = nat (?d * ?d)"
  have k: "?d * ?d = int k" "k \<le> 65025" using sq by (simp_all add: k_def)
  have s: "0 \<le> ?s" by (rule sum_list_nonneg) auto
  have u: "unat (a + word_of_nat k) = unat a + k"
    using Cons.prems(1) k(2) by (simp add: unat_word_ariths unsigned_of_nat take_bit_nat_eq_self)
  have n: "nat (\<Sum>x\<leftarrow>x # ys. (sint x - m)\<^sup>2) = k + nat ?s"
    using s k(1) by (simp add: power2_eq_square nat_add_distrib)
  have "unat (a + word_of_nat k) + 65025 * length ys < 4294967296" using Cons.prems(1) k(2) u by simp
  from Cons.IH [OF this] Cons.prems(2) u k show ?case
    unfolding n by (simp add: c k(1) add.assoc)
qed

text \<open>The scaled distance, saturated at 32 bits before the division: the clamp hides the saturation.\<close>

lemma scaled_quotient:
  fixes d :: int and s shift :: nat
  assumes "\<bar>d\<bar> \<le> 255" and "shift \<le> 31" and "0 < s" and "s \<le> 255"
  defines "w \<equiv> nat \<bar>d\<bar> * 2 ^ shift"
  defines "Q \<equiv> min w 4294967295 div s"
  shows "w < 1099511627776"
    and "(if d < 0 then (if 128 < Q then - 128 else - int Q) else (if 127 < Q then 127 else int Q)) =
      max (-128) (min 127 ((d * 2 ^ shift) sdiv int s))"
proof -
  have n: "nat \<bar>d\<bar> \<le> 255" "\<bar>d\<bar> = int (nat \<bar>d\<bar>)" using assms(1) by simp_all
  have "(2 :: nat) ^ shift \<le> 2 ^ 31" using assms(2) by (intro power_increasing) simp_all
  with n(1) have "w \<le> 255 * 2 ^ 31" unfolding w_def by (rule mult_le_mono)
  then show "w < 1099511627776" by simp
  have "0 < int s" using assms(3) by simp
  have "d = (if d < 0 then - int (nat \<bar>d\<bar>) else int (nat \<bar>d\<bar>))" by simp
  from arg_cong [where f = "\<lambda>d. d * 2 ^ shift", OF this]
  have "d * 2 ^ shift = (if d < 0 then - int w else int w)" by (simp add: w_def split: if_splits)
  then have v: "(d * 2 ^ shift) sdiv int s = (if d < 0 then - int (w div s) else int (w div s))"
    unfolding sdiv_pos [OF \<open>0 < int s\<close>] zdiv_int by (cases "w = 0") auto
  have "Q = w div s \<or> 128 < Q \<and> 128 < w div s"
  proof (cases "w \<le> 4294967295")
    case False
    have "129 * s \<le> 129 * 255" using assms(4) by (intro mult_le_mono2)
    then have "129 * s \<le> 4294967295" by linarith
    then have "129 * s div s \<le> 4294967295 div s" "4294967295 div s \<le> w div s" using False by (intro div_le_mono; simp)+
    then show ?thesis using False assms(3) by (simp add: Q_def)
  qed (simp add: Q_def)
  then show "(if d < 0 then (if 128 < Q then - 128 else - int Q) else (if 127 < Q then 127 else int Q)) =
      max (-128) (min 127 ((d * 2 ^ shift) sdiv int s))"
    unfolding v by (elim disjE) auto
qed

lemma lnorm_element_eq:
  assumes "\<bar>d\<bar> \<le> 255" and "shift \<le> 31" and "std \<noteq> 0" and "unat std \<le> 255"
  shows "lnorm_element (int shift) std d =
    Some (word_of_int (max (-128) (min 127 ((d * 2 ^ shift) sdiv int (unat std)))))"
proof -
  define n where "n = nat \<bar>d\<bar>"
  define w where "w = n * 2 ^ shift"
  have n: "n \<le> 255" "\<bar>d\<bar> = int n" using assms(1) by (simp_all add: n_def)
  have S: "0 < unat std" using assms(3) unat_gt_0 by blast
  note sq = scaled_quotient [OF assms(1,2) S assms(4), folded n_def, folded w_def]
  have abs: "(if d < 0 then map_option word_of_int (c_int (- d)) else Some (word_of_int d :: u32)) =
      Some (word_of_nat n)"
  proof (cases "d < 0")
    case True
    then have "- d = int n" using n(2) by simp
    then have "c_int (- d) = Some (int n)" using n(1) by (simp only:) (rule c_int_nat, simp)
    with True show ?thesis by simp
  next
    case False
    then have "d = int n" using n(2) by simp
    with False show ?thesis by simp
  qed
  have un: "unat (word_of_nat n :: u32) = n" using n(1) by (simp add: unsigned_of_nat take_bit_nat_eq_self)
  have n64: "take_bit 64 n = n" using n(1) by (simp add: take_bit_nat_eq_self)
  let ?wide = "push_bit shift (ucast (word_of_nat n :: u32) :: u64)"
  have uw: "unat ?wide = w"
    using sq(1) un n64 unfolding w_def
    by (subst unsigned_push_bit_eq) (simp add: unsigned_ucast_eq push_bit_eq_mult take_bit_nat_eq_self)
  have gt: "0xFFFFFFFF < ?wide \<longleftrightarrow> 4294967295 < w" by (simp add: word_less_nat_alt uw)
  define sc where "sc = (if 0xFFFFFFFF < ?wide then 0xFFFFFFFF else ucast ?wide :: u32)"
  have sc: "unat sc = min w 4294967295"
    unfolding sc_def gt by (simp add: unsigned_ucast_eq uw take_bit_nat_eq_self)
  let ?quot = "sc div ucast std"
  have q: "unat ?quot = min w 4294967295 div unat std" by (simp add: unat_div sc)
  have r: "(if d < 0 then (if 128 < ?quot then -128 else - sint ?quot)
      else (if 127 < ?quot then 127 else sint ?quot)) =
      max (-128) (min 127 ((d * 2 ^ shift) sdiv int (unat std)))"
    unfolding sq(2) [symmetric] word_less_nat_alt q using sint_small [of ?quot] by (auto simp: q)
  have "(0 \<le> int shift \<and> int shift < 64) = True" using assms(2) by simp
  then show ?thesis
    unfolding lnorm_element_def Let_def abs bind.bind_lunit
    by (simp only: if_True nat_int bind.bind_lunit sc_def [symmetric] if_False assms(3) r)
qed

lemma map_filter_Some [simp]: "List.map_filter Some xs = xs"
  by (induction xs) (simp_all add: map_filter_simps)

lemma row_sum_loop:
  fixes xs :: "i8 list"
  assumes "length xs \<le> 65535"
  shows "foldM (\<lambda>x s. c_int (s + sint x)) xs 0 = Some (sum_list (map sint xs))"
  using foldM_sum [of 0 xs Some] assms by simp

text \<open>The sum of squares of a row, its variance and its standard deviation as the code computes them.\<close>

lemma squares_bounds:
  assumes "xs \<noteq> []" and "length xs \<le> 65535"
  shows "nat (\<Sum>x\<leftarrow>take k xs. (sint x - row_mean xs)\<^sup>2) < 4294967296" and "row_variance xs \<le> 65025"
proof -
  have "nat (\<Sum>x\<leftarrow>take n xs. (sint x - row_mean xs)\<^sup>2) \<le> 65025 * length (take n xs) \<and>
      nat (\<Sum>x\<leftarrow>take n xs. (sint x - row_mean xs)\<^sup>2) < 4294967296" for n
    using unat_fold_squares [of 0 "take n xs" "row_mean xs"] row_diff_bounds [OF assms(1)] assms(2) by simp
  from this [of k] this [of "length xs"] show "nat (\<Sum>x\<leftarrow>take k xs. (sint x - row_mean xs)\<^sup>2) < 4294967296"
    "row_variance xs \<le> 65025"
    using assms(1) div_le_mono [of _ "65025 * length xs" "length xs"] by (simp_all add: row_variance_def)
qed

lemma std_bounds:
  assumes "n \<le> 65025"
  defines "s \<equiv> isqrt_hw (word_of_nat (n + 1))"
  shows "unat s = (GREATEST s. s * s \<le> n + 1)" and "s \<noteq> 0" and "unat s \<le> 255"
proof -
  show "unat s = (GREATEST s. s * s \<le> n + 1)" unfolding s_def using assms(1) by (intro isqrt_hw_greatest) simp
  have u: "unat (word_of_nat (n + 1) :: u32) = n + 1"
    using assms(1) by (simp add: unsigned_of_nat take_bit_nat_eq_self del: of_nat_add of_nat_Suc)
  note f = isqrt_hw_floor [of "word_of_nat (n + 1)", unfolded u, folded s_def]
  have "\<not> n + 1 < (0 + 1) ^ 2" by simp
  with f show "s \<noteq> 0" by (metis unat_0)
  have "unat s * unat s \<le> 65026" using f assms(1) by (simp add: power2_eq_square)
  moreover have "256 * 256 \<le> unat s * unat s" if "256 \<le> unat s" using that by (intro mult_le_mono)
  ultimately show "unat s \<le> 255" by linarith
qed

lemma row_std:
  assumes "xs \<noteq> []" and "length xs \<le> 65535"
  defines "V \<equiv> word_of_nat (nat (\<Sum>x\<leftarrow>xs. (sint x - row_mean xs)\<^sup>2)) :: u32"
  shows "(word_of_int (int (length xs)) :: u32) \<noteq> 0"
    and "unat (isqrt_hw (V div word_of_int (int (length xs)) + 1)) = (GREATEST s. s * s \<le> row_variance xs + 1)"
    and "isqrt_hw (V div word_of_int (int (length xs)) + 1) \<noteq> 0"
    and "unat (isqrt_hw (V div word_of_int (int (length xs)) + 1)) \<le> 255"
proof -
  let ?N = "word_of_int (int (length xs)) :: u32"
  have uN: "unat ?N = length xs" using assms(2) by (intro unat_u32_of_int) simp
  then show "?N \<noteq> 0" using assms(1) by (metis length_0_conv unat_0)
  note b = squares_bounds [OF assms(1,2)]
  have "unat V = nat (\<Sum>x\<leftarrow>xs. (sint x - row_mean xs)\<^sup>2)"
    using b(1) [of "length xs"] by (simp add: V_def unsigned_of_nat take_bit_nat_eq_self)
  then have "unat (V div ?N) = row_variance xs" by (simp only: unat_div uN row_variance_def)
  then have e: "V div ?N + 1 = word_of_nat (row_variance xs + 1)"
    by (metis of_nat_1 of_nat_add of_nat_unat ucast_id unsigned_word_eqI)
  show "unat (isqrt_hw (V div ?N + 1)) = (GREATEST s. s * s \<le> row_variance xs + 1)" "isqrt_hw (V div ?N + 1) \<noteq> 0"
    "unat (isqrt_hw (V div ?N + 1)) \<le> 255" unfolding e by (rule std_bounds [OF b(2)])+
qed

lemma lnorm_write_step:
  assumes "length input = M * N" and "M * N < 2147483648" and r: "r < M" and i: "i < N" and "shift \<le> 31"
  defines "xs \<equiv> row_of input N r"
  assumes std: "unat std = (GREATEST s. s * s \<le> row_variance xs + 1)" "std \<noteq> 0" "unat std \<le> 255"
    and g: "g (r * N + i) = word_of_int (lnorm_value shift xs (xs ! i))"
  shows "lnorm_write input (int (r * N)) (row_mean xs) (int shift) std (int i)
      (filled g (M * N) (r * N + i)) = Some (filled g (M * N) (Suc (r * N + i)))"
proof -
  have "xs \<noteq> []" using i by (auto simp: xs_def dest: arg_cong [where f = length])
  note d = row_diff_bounds [OF this, of "xs ! i"]
  then have c: "c_int (sint (xs ! i) - row_mean xs) = Some (sint (xs ! i) - row_mean xs)"
    by (intro c_int_Some) linarith+
  have v: "lnorm_element (int shift) std (sint (xs ! i) - row_mean xs) =
      Some (word_of_int (lnorm_value shift xs (xs ! i)))"
    unfolding lnorm_value_def lnorm_element_eq [OF d assms(5) std(2,3)] std(1) ..
  from vec_set_filled [OF radix_less [OF r i], of g] show ?thesis
    unfolding lnorm_write_def row_element [OF assms(1,2) r i, folded xs_def] bind.bind_lunit c v g .
qed

lemma lnorm_row_eq:
  assumes "length input = M * N" and "M * N < 2147483648" and "0 < N" and "N \<le> 65535" and "shift \<le> 31"
    and r: "r < M"
    and g: "\<And>i. i < N \<Longrightarrow> g (r * N + i) = word_of_int (lnorm_value shift (row_of input N r) (row_of input N r ! i))"
  shows "lnorm_row input (int N) (int shift) (int r) (filled g (M * N) (0 + r * N)) =
    Some (filled g (M * N) (0 + Suc r * N))"
proof -
  define xs where "xs = row_of input N r"
  define V where "V = (word_of_nat (nat (\<Sum>x\<leftarrow>xs. (sint x - row_mean xs)\<^sup>2)) :: u32)"
  define std where "std = isqrt_hw (V div word_of_int (int N) + 1)"
  have len: "length xs = N" by (simp add: xs_def)
  have ne: "xs \<noteq> []" using assms(3) len by auto
  note st = row_std [OF ne, unfolded len, OF assms(4), folded V_def std_def]
  have sum: "foldM (\<lambda>x s. c_int (s + sint x)) xs 0 = Some (sum_list (map sint xs))"
    using assms(4) len by (intro row_sum_loop) simp
  have mean: "c_div (sum_list (map sint xs)) (int N) = Some (row_mean xs)"
    using row_mean_bounds [OF ne] assms(3) by (simp add: c_div_def row_mean_def len)
  have var: "foldM (\<lambda>x s. do {
       diff \<leftarrow> c_int (sint x - row_mean xs); sq \<leftarrow> c_int (diff * diff); Some (s + word_of_int sq) }) xs 0 = Some V"
    using unat_fold_squares [of 0 xs "row_mean xs"] row_diff_bounds [OF ne] assms(4) len by (simp add: V_def)
  have fill: "for_int (int N) (lnorm_write input (int (r * N)) (row_mean xs) (int shift) std)
      (filled g (M * N) (r * N)) = Some (filled g (M * N) (r * N + N * 1))"
    by (rule for_int_fill)
      (use lnorm_write_step [OF assms(1,2) r _ assms(5), folded xs_def, OF _ st(2-4)] g [folded xs_def] in simp)
  have idx: "0 + r * N = r * N" "0 + Suc r * N = r * N + N * 1" by simp_all
  show ?thesis
    unfolding lnorm_row_def row_base [OF r assms(2)] bind.bind_lunit row_loop [OF assms(1,2) r]
      xs_def [symmetric] sum mean var idx
    by (simp only: st(1,3) if_False bind.bind_lunit Let_def std_def [symmetric] fill)
qed

lemma ref_lnorm_eq:
  assumes "length input = M * N" and "M * N < 2147483648" and "0 < N" and "N \<le> 65535" and "shift \<le> 31"
  shows "ref_lnorm input (int M) (int N) (int shift) =
    Some (map (\<lambda>i. word_of_int (lnorm_value shift (row_of input N (i div N)) (input ! i))) [0..<M * N])"
proof -
  have size: "c_int (int M * int N) = Some (int (M * N))" using assms(2) c_int_nat [of "M * N"] by simp
  let ?g = "\<lambda>i. word_of_int (lnorm_value shift (row_of input N (i div N)) (input ! i)) :: i8"
  have "for_int (int M) (lnorm_row input (int N) (int shift)) (filled ?g (M * N) 0) =
      Some (filled ?g (M * N) (0 + M * N))"
    by (rule for_int_fill, rule lnorm_row_eq [OF assms]) (simp_all add: row_of_def)
  then show ?thesis by (simp add: ref_lnorm_def size filled_0 del: of_nat_mult)
qed

section \<open>Properties\<close>

text \<open>C24: Softmax rows are distributions.  For every input of at most 65535 elements per row whose size
  fits \<open>int\<close>, \<open>ref_softmax\<close> is defined (in particular it never divides by zero), and in every row
  the outputs are non-negative, sum to at most 127, and are ordered as the inputs are.\<close>

theorem ref_softmax_distribution:
  assumes "length input = M * N" and "M * N < 2147483648" and "N \<le> 65535"
  shows "\<exists>out. ref_softmax input (int M) (int N) = Some out \<and> length out = M * N \<and>
    (\<forall>r<M. (\<forall>i<N. 0 \<le> sint (out ! (r * N + i))) \<and> (\<Sum>i<N. sint (out ! (r * N + i))) \<le> 127 \<and>
      (\<forall>i<N. \<forall>j<N. sint (input ! (r * N + i)) \<le> sint (input ! (r * N + j)) \<longrightarrow>
        sint (out ! (r * N + i)) \<le> sint (out ! (r * N + j))))"
proof -
  let ?out = "map (\<lambda>i. word_of_nat (softmax_value (row_of input N (i div N)) (input ! i)) :: i8) [0..<M * N]"
  let ?v = "\<lambda>r i. softmax_value (row_of input N r) (row_of input N r ! i)"
  have out: "sint (?out ! (r * N + i)) = int (?v r i)" if "r < M" "i < N" for r i
  proof -
    have "row_of input N r ! i \<in> set (row_of input N r)" using that by simp
    from softmax_value_le [OF this] have "sint (word_of_nat (?v r i) :: i8) = int (?v r i)"
      by (rule sint_i8_of_nat)
    moreover have "?out ! (r * N + i) = word_of_nat (?v r i)"
      using that radix_less [of r M i N] by (simp add: row_of_def)
    ultimately show ?thesis by simp
  qed
  have "(\<Sum>i<N. sint (?out ! (r * N + i))) \<le> 127" if r: "r < M" for r
  proof -
    have "(\<Sum>i<N. sint (?out ! (r * N + i))) = (\<Sum>i<N. int (?v r i))" using out [OF r] by simp
    also have "\<dots> = int (sum_list (map (softmax_value (row_of input N r)) (row_of input N r)))"
      by (simp add: sum_list_sum_nth atLeast0LessThan)
    also have "\<dots> \<le> 127" using softmax_row_sum [of "row_of input N r"] by linarith
    finally show ?thesis .
  qed
  moreover have "sint (?out ! (r * N + i)) \<le> sint (?out ! (r * N + j))"
    if "r < M" "i < N" "j < N" "sint (input ! (r * N + i)) \<le> sint (input ! (r * N + j))" for r i j
    unfolding out [OF that(1,2)] out [OF that(1,3)] of_nat_le_iff
    by (rule softmax_value_mono) (use that in \<open>simp_all add: row_of_def\<close>)
  ultimately show ?thesis
    using softmax_correct [OF assms] out by (intro exI [of _ ?out]) auto
qed

theorem ref_softmax_distribution_witness:
  "\<exists>out. ref_softmax [1, 2, 3, 250] 2 2 = Some out \<and> length out = 4 \<and> sint (out ! 0) \<le> sint (out ! 1)"
  using ref_softmax_distribution [of "[1, 2, 3, 250]" 2 2] by (auto dest: spec [of _ 0] simp: all_less_2)

text \<open>C23: Layer normalisation.  For rows of 1 to 65535 elements, fewer than 2^31 elements in
  all, and every shift the 5-bit field of a command can hold, \<open>ref_lnorm\<close> is
  defined and every output is the element's distance from the truncated mean, scaled by the
  shift, divided toward zero by the integer square root of the variance plus one, and clamped to
  [-128, 127]; the divisor is never zero.\<close>

theorem ref_lnorm_correct:
  assumes "length input = M * N" and "M * N < 2147483648" and "0 < N" and "N \<le> 65535" and "shift \<le> 31"
  shows "ref_lnorm input (int M) (int N) (int shift) =
    Some (map (\<lambda>i. word_of_int (lnorm_value shift (row_of input N (i div N)) (input ! i))) [0..<M * N])"
  using assms by (rule ref_lnorm_eq)

theorem ref_lnorm_correct_witness:
  "ref_lnorm [1, 2, 3, 250] 2 2 4 =
    Some (map (\<lambda>i. word_of_int (lnorm_value 4 (row_of [1, 2, 3, 250] 2 (i div 2)) ([1, 2, 3, 250] ! i))) [0..<2 * 2])"
  using ref_lnorm_correct [of "[1, 2, 3, 250]" 2 2 4] by simp

text \<open>The hardware's digit-by-digit square root is exact: for every 32-bit input it returns the
  largest integer whose square does not exceed the input.\<close>

theorem isqrt_hw_exact:
  "unat (isqrt_hw n) * unat (isqrt_hw n) \<le> unat n \<and> unat n < Suc (unat (isqrt_hw n)) * Suc (unat (isqrt_hw n))"
  using isqrt_hw_floor [of n] by (simp add: power2_eq_square)

end
