(* ===== verification/Npu_Bench.thy ===== *)
theory Npu_Bench
  imports Npu_Mmio Npu_Normalize
begin

text \<open>
  The integration bench (\<open>tb/integration/npu_tb.h\<close>): its own descriptor structs and their
  serialisation, register accesses, submission, waiting, buffer transfers, the external memory
  model and the end-to-end test runners, which compare what the device leaves in a buffer with
  the reference functions of \<open>Npu_Reference\<close>.  The device under test is a \<open>dut\<close> record: a bus
  whose accesses complete when \<open>mmio_ready\<close> is seen, and a clock without access.  Console
  output and waveform dumping are left out.
\<close>

section \<open>Descriptors\<close>

record ConvDesc =
  cd_opcode :: u32
  cd_act_in_addr :: u32
  cd_act_out_addr :: u32
  cd_weight_addr :: u32
  cd_bias_addr :: u32
  cd_in_h :: u32
  cd_in_w :: u32
  cd_in_c :: u32
  cd_out_k :: u32
  cd_filt_r :: u32
  cd_filt_s :: u32
  cd_stride_h :: u32
  cd_stride_w :: u32
  cd_pad_h :: u32
  cd_pad_w :: u32
  cd_out_h :: u32
  cd_out_w :: u32
  cd_quant_shift :: u32
  cd_act_mode :: u32

text \<open>\<open>if (oh == 0 && stride != 0) oh = ((in + 2 * pad - filt) / stride) + 1\<close>, in \<open>uint32_t\<close>.\<close>

definition tb_out_dim :: "u32 \<Rightarrow> u32 \<Rightarrow> u32 \<Rightarrow> u32 \<Rightarrow> u32 \<Rightarrow> u32" where
  "tb_out_dim in_dim pad filt stride out =
     (if out = 0 \<and> stride \<noteq> 0 then (in_dim + 2 * pad - filt) div stride + 1 else out)"

definition ConvDesc_to_words :: "ConvDesc \<Rightarrow> u32 list \<Rightarrow> u32 list" where
  "ConvDesc_to_words d out =
     (let oh = tb_out_dim (cd_in_h d) (cd_pad_h d) (cd_filt_r d) (cd_stride_h d) (cd_out_h d);
          ow = tb_out_dim (cd_in_w d) (cd_pad_w d) (cd_filt_s d) (cd_stride_w d) (cd_out_w d)
      in out[0 := cd_opcode d,
             1 := cd_act_in_addr d,
             2 := cd_act_out_addr d,
             3 := cd_weight_addr d,
             4 := cd_bias_addr d,
             5 := cd_in_h d,
             6 := cd_in_w d,
             7 := cd_in_c d,
             8 := cd_out_k d,
             9 := cd_filt_r d,
             10 := cd_filt_s d,
             11 := cd_stride_h d,
             12 := cd_stride_w d,
             13 := (cd_pad_h d AND 0xFFFF) OR push_bit 16 (oh AND 0xFFFF),
             14 := (cd_pad_w d AND 0xFFFF) OR push_bit 16 (ow AND 0xFFFF),
             15 := (cd_quant_shift d AND 0x1F) OR push_bit 5 (cd_act_mode d AND 0x3)])"

record GemmDesc =
  gd_opcode :: u32
  gd_a_addr :: u32
  gd_c_addr :: u32
  gd_b_addr :: u32
  gd_bias_addr :: u32
  gd_m_dim :: u32
  gd_n_dim :: u32
  gd_k_dim :: u32
  gd_quant_shift :: u32
  gd_act_mode :: u32

text \<open>The default member initialisers.\<close>

definition GemmDesc_init :: GemmDesc where
  "GemmDesc_init = \<lparr>gd_opcode = 2, gd_a_addr = 0, gd_c_addr = 0, gd_b_addr = 0, gd_bias_addr = 0,
     gd_m_dim = 0, gd_n_dim = 0, gd_k_dim = 0, gd_quant_shift = 0, gd_act_mode = 0\<rparr>"

definition GemmDesc_to_words :: "GemmDesc \<Rightarrow> u32 list" where
  "GemmDesc_to_words d =
     (replicate 16 0)[0 := gd_opcode d,
        1 := gd_a_addr d,
        2 := gd_c_addr d,
        3 := gd_b_addr d,
        4 := gd_bias_addr d,
        5 := gd_m_dim d,
        6 := gd_n_dim d,
        7 := gd_k_dim d,
        15 := (gd_quant_shift d AND 0x1F) OR push_bit 5 (gd_act_mode d AND 0x3)]"

record SoftmaxDesc =
  sd_opcode :: u32
  sd_in_addr :: u32
  sd_out_addr :: u32
  sd_num_rows :: u32
  sd_row_len :: u32

definition SoftmaxDesc_init :: SoftmaxDesc where
  "SoftmaxDesc_init = \<lparr>sd_opcode = 3, sd_in_addr = 0, sd_out_addr = 0, sd_num_rows = 0, sd_row_len = 0\<rparr>"

definition SoftmaxDesc_to_words :: "SoftmaxDesc \<Rightarrow> u32 list" where
  "SoftmaxDesc_to_words d =
     (replicate 16 0)[0 := sd_opcode d, 1 := sd_in_addr d, 2 := sd_out_addr d, 5 := sd_num_rows d,
        6 := sd_row_len d]"

record VecDesc =
  vd_opcode :: u32
  vd_a_addr :: u32
  vd_out_addr :: u32
  vd_b_addr :: u32
  vd_length :: u32
  vd_vec_op :: u32
  vd_quant_shift :: u32
  vd_act_mode :: u32

definition VecDesc_init :: VecDesc where
  "VecDesc_init = \<lparr>vd_opcode = 4, vd_a_addr = 0, vd_out_addr = 0, vd_b_addr = 0, vd_length = 0,
     vd_vec_op = 0, vd_quant_shift = 0, vd_act_mode = 0\<rparr>"

definition VecDesc_to_words :: "VecDesc \<Rightarrow> u32 list" where
  "VecDesc_to_words d =
     (replicate 16 0)[0 := vd_opcode d,
        1 := vd_a_addr d,
        2 := vd_out_addr d,
        3 := vd_b_addr d,
        5 := vd_length d,
        6 := vd_vec_op d,
        15 := (vd_quant_shift d AND 0x1F) OR push_bit 5 (vd_act_mode d AND 0x3)]"

record LnormDesc =
  ld_opcode :: u32
  ld_in_addr :: u32
  ld_out_addr :: u32
  ld_num_rows :: u32
  ld_row_len :: u32
  ld_norm_shift :: u32

definition LnormDesc_init :: LnormDesc where
  "LnormDesc_init = \<lparr>ld_opcode = 5, ld_in_addr = 0, ld_out_addr = 0, ld_num_rows = 0, ld_row_len = 0,
     ld_norm_shift = 0\<rparr>"

definition LnormDesc_to_words :: "LnormDesc \<Rightarrow> u32 list" where
  "LnormDesc_to_words d =
     (replicate 16 0)[0 := ld_opcode d, 1 := ld_in_addr d, 2 := ld_out_addr d, 5 := ld_num_rows d,
        6 := ld_row_len d, 15 := ld_norm_shift d AND 0x1F]"

record PoolDesc =
  pd_opcode :: u32
  pd_in_addr :: u32
  pd_out_addr :: u32
  pd_in_h :: u32
  pd_in_w :: u32
  pd_in_c :: u32
  pd_pool_r :: u32
  pd_pool_s :: u32
  pd_stride_h :: u32
  pd_stride_w :: u32
  pd_pad_h :: u32
  pd_pad_w :: u32
  pd_out_h :: u32
  pd_out_w :: u32
  pd_pool_mode :: u32

definition PoolDesc_init :: PoolDesc where
  "PoolDesc_init = \<lparr>pd_opcode = 6, pd_in_addr = 0, pd_out_addr = 0, pd_in_h = 0, pd_in_w = 0, pd_in_c = 0,
     pd_pool_r = 0, pd_pool_s = 0, pd_stride_h = 0, pd_stride_w = 0, pd_pad_h = 0, pd_pad_w = 0,
     pd_out_h = 0, pd_out_w = 0, pd_pool_mode = 0\<rparr>"

definition PoolDesc_to_words :: "PoolDesc \<Rightarrow> u32 list" where
  "PoolDesc_to_words d =
     (let oh = tb_out_dim (pd_in_h d) (pd_pad_h d) (pd_pool_r d) (pd_stride_h d) (pd_out_h d);
          ow = tb_out_dim (pd_in_w d) (pd_pad_w d) (pd_pool_s d) (pd_stride_w d) (pd_out_w d)
      in (replicate 16 0)[0 := pd_opcode d,
             1 := pd_in_addr d,
             2 := pd_out_addr d,
             5 := pd_in_h d,
             6 := pd_in_w d,
             7 := pd_in_c d,
             9 := pd_pool_r d,
             10 := pd_pool_s d,
             11 := pd_stride_h d,
             12 := pd_stride_w d,
             13 := (pd_pad_h d AND 0xFFFF) OR push_bit 16 (oh AND 0xFFFF),
             14 := (pd_pad_w d AND 0xFFFF) OR push_bit 16 (ow AND 0xFFFF),
             15 := pd_pool_mode d AND 0x1])"

section \<open>Register accesses and submission\<close>

text \<open>The device under test is seen through its accesses; the loop \<open>do { tick(); } while (!mmio_ready)\<close> of
  \<open>mmio_write\<close> and \<open>mmio_read\<close> belongs to them (\<open>dev_access\<close> of \<open>Npu_Device\<close>).\<close>

record 's dut =
  dut_bus :: "'s bus"
  tick :: "'s \<Rightarrow> 's"

definition tb_mmio_write :: "'s dut \<Rightarrow> u32 \<Rightarrow> u32 \<Rightarrow> 's \<Rightarrow> 's" where
  "tb_mmio_write tb addr data = bus_write (dut_bus tb) (ucast addr) data"

definition tb_mmio_read :: "'s dut \<Rightarrow> u32 \<Rightarrow> 's \<Rightarrow> u32 \<times> 's" where
  "tb_mmio_read tb addr = bus_read (dut_bus tb) (ucast addr)"

definition tb_run_clocks :: "'s dut \<Rightarrow> nat \<Rightarrow> 's \<Rightarrow> 's" where
  "tb_run_clocks tb n = tick tb ^^ n"

definition tb_enable :: "'s dut \<Rightarrow> 's \<Rightarrow> 's" where
  "tb_enable tb = tb_mmio_write tb LGNPU_REG_CTRL (push_bit 1 1)"

definition soft_reset_pulse :: "'s dut \<Rightarrow> 's \<Rightarrow> 's" where
  "soft_reset_pulse tb s =
     tb_mmio_write tb LGNPU_REG_CTRL (push_bit 1 1)
       (tb_run_clocks tb 5 (tb_mmio_write tb LGNPU_REG_CTRL (push_bit 0 1) s))"

definition read_status :: "'s dut \<Rightarrow> 's \<Rightarrow> u32 \<times> 's" where
  "read_status tb = tb_mmio_read tb LGNPU_REG_STATUS"

definition is_idle :: "'s dut \<Rightarrow> 's \<Rightarrow> bool \<times> 's" where
  "is_idle tb s = (let (v, s) = read_status tb s in (drop_bit 0 v AND 1 \<noteq> 0, s))"

definition is_busy :: "'s dut \<Rightarrow> 's \<Rightarrow> bool \<times> 's" where
  "is_busy tb s = (let (v, s) = read_status tb s in (drop_bit 1 v AND 1 \<noteq> 0, s))"

definition is_queue_full :: "'s dut \<Rightarrow> 's \<Rightarrow> bool \<times> 's" where
  "is_queue_full tb s = (let (v, s) = read_status tb s in (drop_bit 2 v AND 1 \<noteq> 0, s))"

definition wait_idle :: "'s dut \<Rightarrow> nat \<Rightarrow> 's \<Rightarrow> (bool \<times> 's) option" where
  "wait_idle tb max_polls = poll_n max_polls (\<lambda>s. Some (is_idle tb s))"

text \<open>The sixteen queue writes, the doorbell and 2000 free-running clocks of every
  \<open>submit_*\<close> function.\<close>

definition submit_words :: "'s dut \<Rightarrow> u32 list \<Rightarrow> 's \<Rightarrow> 's" where
  "submit_words tb ws s =
     tb_run_clocks tb 2000
       (tb_mmio_write tb LGNPU_REG_DOORBELL 1
          (fold (\<lambda>i. tb_mmio_write tb (LGNPU_CMD_QUEUE_BASE + word_of_nat i * 4) (ws ! i)) [0..<16] s))"

definition submit_conv :: "'s dut \<Rightarrow> ConvDesc \<Rightarrow> u32 list \<Rightarrow> 's \<Rightarrow> 's" where
  "submit_conv tb desc uninit = submit_words tb (ConvDesc_to_words desc uninit)"

definition submit_gemm :: "'s dut \<Rightarrow> GemmDesc \<Rightarrow> 's \<Rightarrow> 's" where
  "submit_gemm tb desc = submit_words tb (GemmDesc_to_words desc)"

definition submit_softmax :: "'s dut \<Rightarrow> SoftmaxDesc \<Rightarrow> 's \<Rightarrow> 's" where
  "submit_softmax tb desc = submit_words tb (SoftmaxDesc_to_words desc)"

definition submit_vec :: "'s dut \<Rightarrow> VecDesc \<Rightarrow> 's \<Rightarrow> 's" where
  "submit_vec tb desc = submit_words tb (VecDesc_to_words desc)"

definition submit_lnorm :: "'s dut \<Rightarrow> LnormDesc \<Rightarrow> 's \<Rightarrow> 's" where
  "submit_lnorm tb desc = submit_words tb (LnormDesc_to_words desc)"

definition submit_pool :: "'s dut \<Rightarrow> PoolDesc \<Rightarrow> 's \<Rightarrow> 's" where
  "submit_pool tb desc = submit_words tb (PoolDesc_to_words desc)"

definition tb_dma_transfer :: "'s dut \<Rightarrow> u32 \<Rightarrow> u32 \<Rightarrow> u32 \<Rightarrow> u32 \<Rightarrow> nat \<Rightarrow> 's \<Rightarrow> (bool \<times> 's) option" where
  "tb_dma_transfer tb ext_addr loc_addr len dir max_polls s =
     (let s = tb_mmio_write tb LGNPU_REG_DMA_EXT_ADDR ext_addr s;
          s = tb_mmio_write tb LGNPU_REG_DMA_LOC_ADDR loc_addr s;
          s = tb_mmio_write tb LGNPU_REG_DMA_LEN len s;
          s = tb_mmio_write tb LGNPU_REG_DMA_CTRL (push_bit 0 1 OR push_bit 1 (dir AND 1)) s;
          s = tb_run_clocks tb 4 s
      in wait_idle tb max_polls s)"

section \<open>Buffers and external memory\<close>

definition load_bytes :: "'s dut \<Rightarrow> u32 \<Rightarrow> i8 list \<Rightarrow> 's \<Rightarrow> 's" where
  "load_bytes tb mmio_base data =
     fold (\<lambda>i. tb_mmio_write tb (mmio_base + word_of_nat i) (ucast (data ! i))) [0..<length data]"

definition read_bytes :: "'s dut \<Rightarrow> u32 \<Rightarrow> nat \<Rightarrow> 's \<Rightarrow> i8 list \<times> 's" where
  "read_bytes tb mmio_base count s =
     fold (\<lambda>i (out, s). let (raw, s) = tb_mmio_read tb (mmio_base + word_of_nat i) s
                        in (out[i := ucast (raw AND 0xFF)], s))
       [0..<count] (replicate count 0, s)"

record ext_mem =
  ext_memory :: "u32 \<Rightarrow> u32 option"
  ext_rd_pending :: bool
  ext_rd_addr_pending :: u32

record ext_req =
  ext_mem_req :: bool
  ext_mem_wr :: bool
  ext_mem_addr :: u32
  ext_mem_wdata :: u32

record ext_rsp =
  ext_mem_gnt :: bool
  ext_mem_rvalid :: bool
  ext_mem_rdata :: u32

definition ext_lookup :: "u32 \<Rightarrow> ext_mem \<Rightarrow> u32" where
  "ext_lookup a m = (case ext_memory m a of Some v \<Rightarrow> v | None \<Rightarrow> 0)"

definition update_ext_mem :: "ext_req \<Rightarrow> ext_mem \<Rightarrow> ext_rsp \<times> ext_mem" where
  "update_ext_mem req m =
     (let (rvalid, rdata, m) =
            (if ext_rd_pending m
             then (True, ext_lookup (ext_rd_addr_pending m) m, m\<lparr>ext_rd_pending := False\<rparr>)
             else (False, 0, m));
          m = (if ext_mem_req req then
                 (if ext_mem_wr req
                  then m\<lparr>ext_memory := (ext_memory m)(ext_mem_addr req \<mapsto> ext_mem_wdata req)\<rparr>
                  else m\<lparr>ext_rd_pending := True, ext_rd_addr_pending := ext_mem_addr req\<rparr>)
               else m)
      in (\<lparr>ext_mem_gnt = ext_mem_req req, ext_mem_rvalid = rvalid, ext_mem_rdata = rdata\<rparr>, m))"

definition ext_store :: "u32 \<Rightarrow> u32 \<Rightarrow> ext_mem \<Rightarrow> ext_mem" where
  "ext_store addr data m = m\<lparr>ext_memory := (ext_memory m)(addr \<mapsto> data)\<rparr>"

definition ext_load :: "u32 \<Rightarrow> ext_mem \<Rightarrow> u32" where
  "ext_load addr m = (case ext_memory m addr of Some v \<Rightarrow> v | None \<Rightarrow> 0)"

definition ext_load_bytes :: "u32 \<Rightarrow> i8 list \<Rightarrow> ext_mem \<Rightarrow> ext_mem" where
  "ext_load_bytes addr data =
     fold (\<lambda>i m. m\<lparr>ext_memory := (ext_memory m)(addr + word_of_nat i \<mapsto> ucast (data ! i))\<rparr>)
       [0..<length data]"

definition ext_read_bytes :: "u32 \<Rightarrow> nat \<Rightarrow> ext_mem \<Rightarrow> i8 list" where
  "ext_read_bytes addr count m =
     fold (\<lambda>i out. let raw = (case ext_memory m (addr + word_of_nat i) of Some v \<Rightarrow> v | None \<Rightarrow> 0)
                   in out[i := ucast (raw AND 0xFF)])
       [0..<count] (replicate count 0)"

section \<open>End-to-end test runners\<close>

text \<open>The tail of every runner: wait for idle with the default of 200000 polls, read back and
  compare; false on timeout or on any mismatch.\<close>

definition compare_bytes :: "i8 list \<Rightarrow> i8 list \<Rightarrow> bool" where
  "compare_bytes got expected =
     fold (\<lambda>i pass. if got ! i \<noteq> expected ! i then False else pass) [0..<length expected] True"

definition check_output :: "'s dut \<Rightarrow> u32 \<Rightarrow> i8 list \<Rightarrow> 's \<Rightarrow> (bool \<times> 's) option" where
  "check_output tb mmio_base expected s = do {
     (idle, s) \<leftarrow> wait_idle tb 200000 s;
     (if \<not> idle then Some (False, s)
      else let (got, s) = read_bytes tb mmio_base (length expected) s
           in Some (compare_bytes got expected, s)) }"

text \<open>\<open>for (i = 0; i < n; ++i) mmio_write(base + i, 0)\<close>.\<close>

definition zero_bytes :: "'s dut \<Rightarrow> u32 \<Rightarrow> nat \<Rightarrow> 's \<Rightarrow> 's" where
  "zero_bytes tb addr n = fold (\<lambda>i. tb_mmio_write tb (addr + word_of_nat i) 0) [0..<n]"

text \<open>What each runner does before it waits: load the operands, build the descriptor, submit.\<close>

definition conv_test_submit ::
  "'s dut \<Rightarrow> i8 list \<Rightarrow> i8 list \<Rightarrow> i8 list \<Rightarrow> int \<Rightarrow> int \<Rightarrow> int \<Rightarrow> int \<Rightarrow> int \<Rightarrow> int \<Rightarrow> int \<Rightarrow> int \<Rightarrow> int \<Rightarrow> int \<Rightarrow>
    int \<Rightarrow> u32 \<Rightarrow> u32 \<Rightarrow> u32 \<Rightarrow> u32 \<Rightarrow> u32 \<Rightarrow> u32 list \<Rightarrow> 's \<Rightarrow> 's" where
  "conv_test_submit tb act wt bias H W C K R S sh sw ph pw qshift act_mode act_in_addr wt_addr bias_addr
     act_out_addr uninit s =
     (let s = load_bytes tb (LGNPU_WEIGHT_BUF_BASE + wt_addr) wt s;
          (bias_addr, s) =
            (if bias \<noteq> [] then (bias_addr, load_bytes tb (LGNPU_WEIGHT_BUF_BASE + bias_addr) bias s)
             else (let b = wt_addr + word_of_nat (length wt)
                   in (b, zero_bytes tb (LGNPU_WEIGHT_BUF_BASE + b) (nat K) s)));
          s = load_bytes tb (LGNPU_ACT_BUF_BASE + act_in_addr) act s;
          desc = \<lparr>cd_opcode = 1, cd_act_in_addr = act_in_addr, cd_act_out_addr = act_out_addr,
            cd_weight_addr = wt_addr, cd_bias_addr = bias_addr, cd_in_h = word_of_int H,
            cd_in_w = word_of_int W, cd_in_c = word_of_int C, cd_out_k = word_of_int K,
            cd_filt_r = word_of_int R, cd_filt_s = word_of_int S, cd_stride_h = word_of_int sh,
            cd_stride_w = word_of_int sw, cd_pad_h = word_of_int ph, cd_pad_w = word_of_int pw,
            cd_out_h = 0, cd_out_w = 0, cd_quant_shift = word_of_int qshift, cd_act_mode = act_mode\<rparr>
      in submit_conv tb desc uninit s)"

definition gemm_test_submit ::
  "'s dut \<Rightarrow> i8 list \<Rightarrow> i8 list \<Rightarrow> i8 list \<Rightarrow> int \<Rightarrow> int \<Rightarrow> int \<Rightarrow> int \<Rightarrow> u32 \<Rightarrow> u32 \<Rightarrow> u32 \<Rightarrow> u32 \<Rightarrow>
    's \<Rightarrow> 's" where
  "gemm_test_submit tb a b bias M N K qshift act_mode a_addr b_addr c_addr s =
     (let s = load_bytes tb (LGNPU_WEIGHT_BUF_BASE + b_addr) b s;
          bias_addr = b_addr + word_of_nat (length b);
          s = (if bias \<noteq> [] then load_bytes tb (LGNPU_WEIGHT_BUF_BASE + bias_addr) bias s
               else zero_bytes tb (LGNPU_WEIGHT_BUF_BASE + bias_addr) (nat N) s);
          s = load_bytes tb (LGNPU_ACT_BUF_BASE + a_addr) a s;
          desc = GemmDesc_init\<lparr>gd_a_addr := a_addr, gd_c_addr := c_addr, gd_b_addr := b_addr,
            gd_bias_addr := bias_addr, gd_m_dim := word_of_int M, gd_n_dim := word_of_int N,
            gd_k_dim := word_of_int K, gd_quant_shift := word_of_int qshift, gd_act_mode := act_mode\<rparr>
      in submit_gemm tb desc s)"

definition softmax_test_submit ::
  "'s dut \<Rightarrow> i8 list \<Rightarrow> int \<Rightarrow> int \<Rightarrow> u32 \<Rightarrow> u32 \<Rightarrow> 's \<Rightarrow> 's" where
  "softmax_test_submit tb input num_rows row_len in_addr out_addr s =
     (let s = load_bytes tb (LGNPU_ACT_BUF_BASE + in_addr) input s;
          desc = SoftmaxDesc_init\<lparr>sd_in_addr := in_addr, sd_out_addr := out_addr,
            sd_num_rows := word_of_int num_rows, sd_row_len := word_of_int row_len\<rparr>
      in submit_softmax tb desc s)"

definition vec_test_submit ::
  "'s dut \<Rightarrow> i8 list \<Rightarrow> i8 list \<Rightarrow> int \<Rightarrow> u32 \<Rightarrow> int \<Rightarrow> u32 \<Rightarrow> u32 \<Rightarrow> u32 \<Rightarrow> u32 \<Rightarrow> 's \<Rightarrow> 's" where
  "vec_test_submit tb a b len vec_op qshift act_mode a_addr b_addr out_addr s =
     (let s = load_bytes tb (LGNPU_ACT_BUF_BASE + a_addr) a s;
          s = load_bytes tb (LGNPU_WEIGHT_BUF_BASE + b_addr) b s;
          desc = VecDesc_init\<lparr>vd_a_addr := a_addr, vd_out_addr := out_addr, vd_b_addr := b_addr,
            vd_length := word_of_int len, vd_vec_op := vec_op, vd_quant_shift := word_of_int qshift,
            vd_act_mode := act_mode\<rparr>
      in submit_vec tb desc s)"

definition lnorm_test_submit ::
  "'s dut \<Rightarrow> i8 list \<Rightarrow> int \<Rightarrow> int \<Rightarrow> int \<Rightarrow> u32 \<Rightarrow> u32 \<Rightarrow> 's \<Rightarrow> 's" where
  "lnorm_test_submit tb input num_rows row_len norm_shift in_addr out_addr s =
     (let s = load_bytes tb (LGNPU_ACT_BUF_BASE + in_addr) input s;
          desc = LnormDesc_init\<lparr>ld_in_addr := in_addr, ld_out_addr := out_addr,
            ld_num_rows := word_of_int num_rows, ld_row_len := word_of_int row_len,
            ld_norm_shift := word_of_int norm_shift\<rparr>
      in submit_lnorm tb desc s)"

definition pool_test_submit ::
  "'s dut \<Rightarrow> i8 list \<Rightarrow> int \<Rightarrow> int \<Rightarrow> int \<Rightarrow> int \<Rightarrow> int \<Rightarrow> int \<Rightarrow> int \<Rightarrow> int \<Rightarrow> int \<Rightarrow> int \<Rightarrow> u32 \<Rightarrow> u32 \<Rightarrow>
    's \<Rightarrow> 's" where
  "pool_test_submit tb input H W C pool_r pool_s sh sw ph pw pool_mode in_addr out_addr s =
     (let s = load_bytes tb (LGNPU_ACT_BUF_BASE + in_addr) input s;
          desc = PoolDesc_init\<lparr>pd_in_addr := in_addr, pd_out_addr := out_addr, pd_in_h := word_of_int H,
            pd_in_w := word_of_int W, pd_in_c := word_of_int C, pd_pool_r := word_of_int pool_r,
            pd_pool_s := word_of_int pool_s, pd_stride_h := word_of_int sh, pd_stride_w := word_of_int sw,
            pd_pad_h := word_of_int ph, pd_pad_w := word_of_int pw, pd_pool_mode := word_of_int pool_mode\<rparr>
      in submit_pool tb desc s)"

definition run_conv_test ::
  "'s dut \<Rightarrow> i8 list \<Rightarrow> i8 list \<Rightarrow> i8 list \<Rightarrow> int \<Rightarrow> int \<Rightarrow> int \<Rightarrow> int \<Rightarrow> int \<Rightarrow> int \<Rightarrow> int \<Rightarrow> int \<Rightarrow> int \<Rightarrow> int \<Rightarrow>
    int \<Rightarrow> u32 \<Rightarrow> u32 \<Rightarrow> u32 \<Rightarrow> u32 \<Rightarrow> u32 \<Rightarrow> u32 list \<Rightarrow> 's \<Rightarrow> (bool \<times> 's) option" where
  "run_conv_test tb act wt bias H W C K R S sh sw ph pw qshift act_mode act_in_addr wt_addr bias_addr
     act_out_addr uninit s = do {
     expected \<leftarrow> ref_conv act wt bias H W C K R S sh sw ph pw qshift act_mode;
     check_output tb (LGNPU_ACT_BUF_BASE + act_out_addr) expected
       (conv_test_submit tb act wt bias H W C K R S sh sw ph pw qshift act_mode act_in_addr wt_addr
          bias_addr act_out_addr uninit s) }"

text \<open>The \<open>bias_addr\<close> argument of \<open>run_gemm_test\<close> is overwritten before it is read.\<close>

definition run_gemm_test ::
  "'s dut \<Rightarrow> i8 list \<Rightarrow> i8 list \<Rightarrow> i8 list \<Rightarrow> int \<Rightarrow> int \<Rightarrow> int \<Rightarrow> int \<Rightarrow> u32 \<Rightarrow> u32 \<Rightarrow> u32 \<Rightarrow> u32 \<Rightarrow> u32 \<Rightarrow>
    's \<Rightarrow> (bool \<times> 's) option" where
  "run_gemm_test tb a b bias M N K qshift act_mode a_addr b_addr bias_addr c_addr s = do {
     expected \<leftarrow> ref_gemm a b bias M N K qshift act_mode;
     check_output tb (LGNPU_ACT_BUF_BASE + c_addr) expected
       (gemm_test_submit tb a b bias M N K qshift act_mode a_addr b_addr c_addr s) }"

definition run_softmax_test ::
  "'s dut \<Rightarrow> i8 list \<Rightarrow> int \<Rightarrow> int \<Rightarrow> u32 \<Rightarrow> u32 \<Rightarrow> 's \<Rightarrow> (bool \<times> 's) option" where
  "run_softmax_test tb input num_rows row_len in_addr out_addr s = do {
     expected \<leftarrow> ref_softmax input num_rows row_len;
     check_output tb (LGNPU_ACT_BUF_BASE + out_addr) expected
       (softmax_test_submit tb input num_rows row_len in_addr out_addr s) }"

definition run_vec_test ::
  "'s dut \<Rightarrow> i8 list \<Rightarrow> i8 list \<Rightarrow> int \<Rightarrow> u32 \<Rightarrow> int \<Rightarrow> u32 \<Rightarrow> u32 \<Rightarrow> u32 \<Rightarrow> u32 \<Rightarrow> 's \<Rightarrow> (bool \<times> 's) option"
  where
  "run_vec_test tb a b len vec_op qshift act_mode a_addr b_addr out_addr s = do {
     expected \<leftarrow> ref_vec a b len vec_op qshift act_mode;
     check_output tb (LGNPU_ACT_BUF_BASE + out_addr) expected
       (vec_test_submit tb a b len vec_op qshift act_mode a_addr b_addr out_addr s) }"

definition run_lnorm_test ::
  "'s dut \<Rightarrow> i8 list \<Rightarrow> int \<Rightarrow> int \<Rightarrow> int \<Rightarrow> u32 \<Rightarrow> u32 \<Rightarrow> 's \<Rightarrow> (bool \<times> 's) option" where
  "run_lnorm_test tb input num_rows row_len norm_shift in_addr out_addr s = do {
     expected \<leftarrow> ref_lnorm input num_rows row_len norm_shift;
     check_output tb (LGNPU_ACT_BUF_BASE + out_addr) expected
       (lnorm_test_submit tb input num_rows row_len norm_shift in_addr out_addr s) }"

definition run_pool_test ::
  "'s dut \<Rightarrow> i8 list \<Rightarrow> int \<Rightarrow> int \<Rightarrow> int \<Rightarrow> int \<Rightarrow> int \<Rightarrow> int \<Rightarrow> int \<Rightarrow> int \<Rightarrow> int \<Rightarrow> int \<Rightarrow> u32 \<Rightarrow> u32 \<Rightarrow>
    's \<Rightarrow> (bool \<times> 's) option" where
  "run_pool_test tb input H W C pool_r pool_s sh sw ph pw pool_mode in_addr out_addr s = do {
     expected \<leftarrow> ref_pool input H W C pool_r pool_s sh sw ph pw pool_mode;
     check_output tb (LGNPU_ACT_BUF_BASE + out_addr) expected
       (pool_test_submit tb input H W C pool_r pool_s sh sw ph pw pool_mode in_addr out_addr s) }"

text \<open>The DMA runners also load and inspect the external memory the bench keeps beside the device.\<close>

record 's ext_dut =
  dut_of :: "'s dut"
  ext_get :: "'s \<Rightarrow> ext_mem"
  ext_set :: "ext_mem \<Rightarrow> 's \<Rightarrow> 's"

definition run_dma_read_test :: "'s ext_dut \<Rightarrow> i8 list \<Rightarrow> u32 \<Rightarrow> u32 \<Rightarrow> 's \<Rightarrow> (bool \<times> 's) option" where
  "run_dma_read_test tb data ext_addr loc_mmio_addr s = do {
     let count = length data;
     let s = ext_set tb (ext_load_bytes ext_addr data (ext_get tb s)) s;
     (idle, s) \<leftarrow> tb_dma_transfer (dut_of tb) ext_addr loc_mmio_addr (word_of_nat count) 0 200000 s;
     (if \<not> idle then Some (False, s)
      else let s = tb_mmio_write (dut_of tb) LGNPU_REG_IRQ_CLEAR 1 s;
               (got, s) = read_bytes (dut_of tb) loc_mmio_addr count s
           in Some (compare_bytes got data, s)) }"

definition run_dma_write_test :: "'s ext_dut \<Rightarrow> i8 list \<Rightarrow> u32 \<Rightarrow> u32 \<Rightarrow> 's \<Rightarrow> (bool \<times> 's) option" where
  "run_dma_write_test tb data loc_mmio_addr ext_addr s = do {
     let count = length data;
     let s = load_bytes (dut_of tb) loc_mmio_addr data s;
     (idle, s) \<leftarrow> tb_dma_transfer (dut_of tb) ext_addr loc_mmio_addr (word_of_nat count) 1 200000 s;
     (if \<not> idle then Some (False, s)
      else let s = tb_mmio_write (dut_of tb) LGNPU_REG_IRQ_CLEAR 1 s;
               got = ext_read_bytes ext_addr count (ext_get tb s)
           in Some (compare_bytes got data, s)) }"

text \<open>What a verdict should be: idle is seen within 200000 polls, and a check holds of the state the
  first idle poll leaves; for the six operations, that the bytes then read from the output are
  the expected ones.\<close>

definition idle_then :: "'s dut \<Rightarrow> ('s \<Rightarrow> bool) \<Rightarrow> 's \<Rightarrow> bool" where
  "idle_then tb P s =
     ((\<exists>k<200000. bit (bus_value (dut_bus tb) (ucast LGNPU_REG_STATUS) k s) 0) \<and>
      P (bus_reads (dut_bus tb) (ucast LGNPU_REG_STATUS)
           (Suc (LEAST k. bit (bus_value (dut_bus tb) (ucast LGNPU_REG_STATUS) k s) 0)) s))"

definition device_agrees :: "'s dut \<Rightarrow> u32 \<Rightarrow> i8 list \<Rightarrow> 's \<Rightarrow> bool" where
  "device_agrees tb mmio_base expected =
     idle_then tb (\<lambda>s. fst (read_bytes tb mmio_base (length expected) s) = expected)"

text \<open>The state after the register writes and the four clocks of a DMA request.\<close>

definition dma_requested :: "'s dut \<Rightarrow> u32 \<Rightarrow> u32 \<Rightarrow> u32 \<Rightarrow> u32 \<Rightarrow> 's \<Rightarrow> 's" where
  "dma_requested tb ext_addr loc_addr len dir s =
     tb_run_clocks tb 4 (fold (\<lambda>(a, v). tb_mmio_write tb a v)
       [(LGNPU_REG_DMA_EXT_ADDR, ext_addr), (LGNPU_REG_DMA_LOC_ADDR, loc_addr), (LGNPU_REG_DMA_LEN, len),
        (LGNPU_REG_DMA_CTRL, if odd dir then 3 else 1)] s)"

text \<open>The counters of a test suite.\<close>

record test_result =
  tests_total :: nat
  tests_passed :: nat
  tests_failed :: nat

definition record_test :: "bool \<Rightarrow> test_result \<Rightarrow> test_result" where
  "record_test pass t =
     (let t = t\<lparr>tests_total := tests_total t + 1\<rparr>
      in if pass then t\<lparr>tests_passed := tests_passed t + 1\<rparr> else t\<lparr>tests_failed := tests_failed t + 1\<rparr>)"

definition exit_code :: "test_result \<Rightarrow> int" where
  "exit_code t = (if tests_failed t > 0 then 1 else 0)"

section \<open>Runtime parameters as bench descriptors\<close>

definition conv_desc_of :: "npu_conv_params \<Rightarrow> ConvDesc" where
  "conv_desc_of p = \<lparr>cd_opcode = 1, cd_act_in_addr = ucast (conv_act_in_addr p),
     cd_act_out_addr = ucast (conv_act_out_addr p), cd_weight_addr = ucast (conv_weight_addr p),
     cd_bias_addr = ucast (conv_bias_addr p), cd_in_h = ucast (conv_in_h p), cd_in_w = ucast (conv_in_w p),
     cd_in_c = ucast (conv_in_c p), cd_out_k = ucast (conv_out_k p), cd_filt_r = ucast (conv_filt_r p),
     cd_filt_s = ucast (conv_filt_s p), cd_stride_h = ucast (conv_stride_h p),
     cd_stride_w = ucast (conv_stride_w p), cd_pad_h = ucast (conv_pad_h p), cd_pad_w = ucast (conv_pad_w p),
     cd_out_h = ucast (conv_out_h p), cd_out_w = ucast (conv_out_w p),
     cd_quant_shift = ucast (conv_quant_shift p), cd_act_mode = ucast (conv_act_mode p)\<rparr>"

definition gemm_desc_of :: "npu_gemm_params \<Rightarrow> GemmDesc" where
  "gemm_desc_of p = GemmDesc_init\<lparr>gd_a_addr := ucast (gemm_a_addr p), gd_c_addr := ucast (gemm_c_addr p),
     gd_b_addr := ucast (gemm_b_addr p), gd_bias_addr := ucast (gemm_bias_addr p),
     gd_m_dim := ucast (gemm_M p), gd_n_dim := ucast (gemm_N p), gd_k_dim := ucast (gemm_K p),
     gd_quant_shift := ucast (gemm_quant_shift p), gd_act_mode := ucast (gemm_act_mode p)\<rparr>"

definition softmax_desc_of :: "npu_softmax_params \<Rightarrow> SoftmaxDesc" where
  "softmax_desc_of p = SoftmaxDesc_init\<lparr>sd_in_addr := ucast (softmax_in_addr p),
     sd_out_addr := ucast (softmax_out_addr p), sd_num_rows := ucast (softmax_num_rows p),
     sd_row_len := ucast (softmax_row_len p)\<rparr>"

definition vec_desc_of :: "npu_vec_params \<Rightarrow> VecDesc" where
  "vec_desc_of p = VecDesc_init\<lparr>vd_a_addr := ucast (vec_a_addr p), vd_out_addr := ucast (vec_out_addr p),
     vd_b_addr := ucast (vec_b_addr p), vd_length := ucast (vec_length p), vd_vec_op := ucast (vec_vec_op p),
     vd_quant_shift := ucast (vec_quant_shift p), vd_act_mode := ucast (vec_act_mode p)\<rparr>"

definition lnorm_desc_of :: "npu_lnorm_params \<Rightarrow> LnormDesc" where
  "lnorm_desc_of p = LnormDesc_init\<lparr>ld_in_addr := ucast (lnorm_in_addr p),
     ld_out_addr := ucast (lnorm_out_addr p), ld_num_rows := ucast (lnorm_num_rows p),
     ld_row_len := ucast (lnorm_row_len p), ld_norm_shift := ucast (lnorm_norm_shift p)\<rparr>"

definition pool_desc_of :: "npu_pool_params \<Rightarrow> PoolDesc" where
  "pool_desc_of p = PoolDesc_init\<lparr>pd_in_addr := ucast (pool_in_addr p), pd_out_addr := ucast (pool_out_addr p),
     pd_in_h := ucast (pool_in_h p), pd_in_w := ucast (pool_in_w p), pd_in_c := ucast (pool_in_c p),
     pd_pool_r := ucast (pool_pool_r p), pd_pool_s := ucast (pool_pool_s p),
     pd_stride_h := ucast (pool_stride_h p), pd_stride_w := ucast (pool_stride_w p),
     pd_pad_h := ucast (pool_pad_h p), pd_pad_w := ucast (pool_pad_w p), pd_out_h := ucast (pool_out_h p),
     pd_out_w := ucast (pool_out_w p), pd_pool_mode := ucast (pool_pool_mode p)\<rparr>"

text \<open>The words a builder leaves.\<close>

definition built_words :: "int \<times> npu_cmd_desc option \<Rightarrow> u32 list" where
  "built_words r = (case snd r of Some d \<Rightarrow> words d | None \<Rightarrow> [])"

section \<open>Serialisation\<close>

lemma mask16: "(x :: u32) AND 0xFFFF = ucast (ucast x :: u16)"
proof -
  have m: "(0xFFFF :: u32) = mask 16" by (simp add: mask_eq_exp_minus_1)
  show ?thesis unfolding m by (rule bit_word_eqI) (auto simp: bit_simps)
qed

lemma tb_out_dim_derive:
  "ucast (tb_out_dim (ucast a) (ucast b) (ucast c) (ucast st) (ucast out)) = derive_out_dim a b c st out"
  for a b c st out :: u16
proof -
  have z: "(ucast x :: u32) = 0 \<longleftrightarrow> x = 0" for x :: u16
    by (metis ucast_u16_u32 unsigned_0)
  show ?thesis by (simp add: tb_out_dim_def derive_out_dim_def z)
qed

lemmas desc_of_simps = ConvDesc_to_words_def GemmDesc_to_words_def SoftmaxDesc_to_words_def
  VecDesc_to_words_def LnormDesc_to_words_def PoolDesc_to_words_def conv_desc_of_def gemm_desc_of_def
  softmax_desc_of_def vec_desc_of_def lnorm_desc_of_def pool_desc_of_def GemmDesc_init_def
  SoftmaxDesc_init_def VecDesc_init_def LnormDesc_init_def PoolDesc_init_def replicate_16 build_simps

lemma conv_words_eq:
  assumes "length uninit = 16"
  shows "built_words (npu_cmd_build_conv (Some d) (Some p)) = ConvDesc_to_words (conv_desc_of p) uninit"
proof -
  obtain x0 x1 x2 x3 x4 x5 x6 x7 x8 x9 x10 x11 x12 x13 x14 x15
    where u: "uninit = [x0, x1, x2, x3, x4, x5, x6, x7, x8, x9, x10, x11, x12, x13, x14, x15]"
    using assms by (auto simp: length_Suc_conv eval_nat_numeral)
  show ?thesis
    by (simp add: u built_words_def npu_cmd_build_conv_def desc_of_simps mask16 tb_out_dim_derive)
qed

lemma pool_words_eq:
  "built_words (npu_cmd_build_pool (Some d) (Some p)) = PoolDesc_to_words (pool_desc_of p)"
  by (simp add: built_words_def npu_cmd_build_pool_def desc_of_simps mask16 tb_out_dim_derive)

lemma other_words_eq:
  "built_words (npu_cmd_build_gemm (Some d) (Some g)) = GemmDesc_to_words (gemm_desc_of g)"
  "built_words (npu_cmd_build_softmax (Some d) (Some s)) = SoftmaxDesc_to_words (softmax_desc_of s)"
  "built_words (npu_cmd_build_vec (Some d) (Some v)) = VecDesc_to_words (vec_desc_of v)"
  "built_words (npu_cmd_build_lnorm (Some d) (Some l)) = LnormDesc_to_words (lnorm_desc_of l)"
  by (simp_all add: built_words_def npu_cmd_build_gemm_def npu_cmd_build_softmax_def npu_cmd_build_vec_def
      npu_cmd_build_lnorm_def desc_of_simps)

section \<open>Reading back and comparing\<close>

text \<open>Filling a vector index by index, as the loops of \<open>read_bytes\<close> and \<open>ext_read_bytes\<close> do.\<close>

lemma fold_update:
  "k \<le> n \<Longrightarrow> fold (\<lambda>i out. out[i := f i]) [0..<k] (replicate n z) = map f [0..<k] @ replicate (n - k) z"
proof (induction k)
  case (Suc k)
  then have "replicate (n - k) z = z # replicate (n - Suc k) z"
    by (simp add: Suc_diff_Suc flip: replicate_Suc)
  with Suc show ?case by (simp add: list_update_append)
qed simp

lemma compare_bytes_iff:
  assumes "length got = length expected"
  shows "compare_bytes got expected \<longleftrightarrow> got = expected"
proof -
  have "fold (\<lambda>i pass. if got ! i \<noteq> expected ! i then False else pass) xs b \<longleftrightarrow>
      b \<and> (\<forall>i \<in> set xs. got ! i = expected ! i)" for xs b
    by (induction xs arbitrary: b) auto
  then show ?thesis by (auto simp: compare_bytes_def list_eq_iff_nth_eq [of got] assms)
qed

lemma read_bytes_loop:
  "k \<le> n \<Longrightarrow> length (fst (fold (\<lambda>i (out, s). let (raw, s) = tb_mmio_read tb (a + word_of_nat i) s
      in (out[i := ucast (raw AND 0xFF) :: i8], s)) [0..<k] (replicate n 0, s))) = n"
  by (induction k) (auto simp: split_def Let_def)

lemma length_read_bytes: "length (fst (read_bytes tb a n s)) = n"
  unfolding read_bytes_def by (rule read_bytes_loop [OF le_refl])

lemma wait_idle_eq:
  "wait_idle tb n s = Some (if \<exists>k<n. bit (bus_value (dut_bus tb) (ucast LGNPU_REG_STATUS) k s) 0
     then (True, bus_reads (dut_bus tb) (ucast LGNPU_REG_STATUS)
       (Suc (LEAST k. bit (bus_value (dut_bus tb) (ucast LGNPU_REG_STATUS) k s) 0)) s)
     else (False, bus_reads (dut_bus tb) (ucast LGNPU_REG_STATUS) n s))"
proof -
  have "(\<lambda>s. Some (is_idle tb s)) = (\<lambda>s. Some (bit (fst (bus_read (dut_bus tb) (ucast LGNPU_REG_STATUS) s)) 0,
      snd (bus_read (dut_bus tb) (ucast LGNPU_REG_STATUS) s)))"
    by (rule ext) (simp add: is_idle_def read_status_def tb_mmio_read_def split_def Let_def and_bit_test)
  then show ?thesis
    unfolding wait_idle_def by (simp only: poll_n_register [where P = "\<lambda>v. bit v 0"])
qed

text \<open>The verdict of a runner after its submission or its request.\<close>

lemma wait_then_verdict:
  "map_option fst (do { (idle, s) \<leftarrow> wait_idle tb 200000 s; if \<not> idle then Some (False, s) else Some (f s) }) =
    Some (idle_then tb (\<lambda>s. fst (f s)) s)"
proof (cases "\<exists>k<200000. bit (bus_value (dut_bus tb) (ucast LGNPU_REG_STATUS) k s) 0")
  case True
  then show ?thesis
    by (simp only: idle_then_def wait_idle_eq if_True bind.bind_lunit prod.case not_True_eq_False if_False
        option.map simp_thms)
next
  case False
  then show ?thesis
    by (simp only: idle_then_def wait_idle_eq if_False bind.bind_lunit prod.case not_False_eq_True if_True
        option.map fst_conv simp_thms)
qed

lemma check_output_verdict:
  "map_option fst (check_output tb a expected s) = Some (device_agrees tb a expected s)"
proof -
  have c: "compare_bytes (fst (read_bytes tb a (length expected) s)) expected \<longleftrightarrow>
      fst (read_bytes tb a (length expected) s) = expected" for s
    by (simp add: compare_bytes_iff length_read_bytes)
  have "check_output tb a expected s = do { (idle, s) \<leftarrow> wait_idle tb 200000 s;
      if \<not> idle then Some (False, s) else Some (compare_bytes (fst (read_bytes tb a (length expected) s)) expected,
        snd (read_bytes tb a (length expected) s)) }"
    by (simp add: check_output_def split_def Let_def cong: if_cong)
  then show ?thesis by (simp only: wait_then_verdict device_agrees_def fst_conv c)
qed

lemma dma_transfer_request:
  "tb_dma_transfer tb ea la n dir polls s = wait_idle tb polls (dma_requested tb ea la n dir s)"
proof -
  have "(1 :: u32) OR push_bit 1 (dir AND 1) = (if odd dir then 3 else 1)"
    by (simp add: and_one_eq mod_2_eq_odd)
  then show ?thesis by (simp add: tb_dma_transfer_def dma_requested_def Let_def)
qed

lemma length_ext_read_bytes: "length (ext_read_bytes a n m) = n"
  by (simp add: ext_read_bytes_def fold_update)

lemma dma_read_verdict:
  "map_option fst (run_dma_read_test tb data ea la s) =
    Some (idle_then (dut_of tb) (\<lambda>s. fst (read_bytes (dut_of tb) la (length data)
        (tb_mmio_write (dut_of tb) LGNPU_REG_IRQ_CLEAR 1 s)) = data)
      (dma_requested (dut_of tb) ea la (word_of_nat (length data)) 0
        (ext_set tb (ext_load_bytes ea data (ext_get tb s)) s)))"
proof -
  let ?rd = "\<lambda>s. read_bytes (dut_of tb) la (length data) (tb_mmio_write (dut_of tb) LGNPU_REG_IRQ_CLEAR 1 s)"
  have c: "compare_bytes (fst (?rd s)) data \<longleftrightarrow> fst (?rd s) = data" for s
    by (simp add: compare_bytes_iff length_read_bytes)
  have "run_dma_read_test tb data ea la s = do {
      (idle, s) \<leftarrow> wait_idle (dut_of tb) 200000 (dma_requested (dut_of tb) ea la (word_of_nat (length data)) 0
        (ext_set tb (ext_load_bytes ea data (ext_get tb s)) s));
      if \<not> idle then Some (False, s) else Some (compare_bytes (fst (?rd s)) data, snd (?rd s)) }"
    by (simp add: run_dma_read_test_def dma_transfer_request split_def Let_def cong: if_cong)
  then show ?thesis by (simp only: wait_then_verdict fst_conv c)
qed

lemma dma_write_verdict:
  "map_option fst (run_dma_write_test tb data la ea s) =
    Some (idle_then (dut_of tb) (\<lambda>s. ext_read_bytes ea (length data)
        (ext_get tb (tb_mmio_write (dut_of tb) LGNPU_REG_IRQ_CLEAR 1 s)) = data)
      (dma_requested (dut_of tb) ea la (word_of_nat (length data)) 1 (load_bytes (dut_of tb) la data s)))"
proof -
  let ?rd = "\<lambda>s. ext_read_bytes ea (length data) (ext_get tb (tb_mmio_write (dut_of tb) LGNPU_REG_IRQ_CLEAR 1 s))"
  have c: "compare_bytes (?rd s) data \<longleftrightarrow> ?rd s = data" for s
    by (simp add: compare_bytes_iff length_ext_read_bytes)
  have "run_dma_write_test tb data la ea s = do {
      (idle, s) \<leftarrow> wait_idle (dut_of tb) 200000 (dma_requested (dut_of tb) ea la (word_of_nat (length data)) 1
        (load_bytes (dut_of tb) la data s));
      if \<not> idle then Some (False, s)
      else Some (compare_bytes (?rd s) data, tb_mmio_write (dut_of tb) LGNPU_REG_IRQ_CLEAR 1 s) }"
    by (simp add: run_dma_write_test_def dma_transfer_request split_def Let_def cong: if_cong)
  then show ?thesis by (simp only: wait_then_verdict fst_conv c)
qed

lemma runner_verdict:
  "map_option fst (do { e \<leftarrow> r; check_output tb a e s }) = map_option (\<lambda>e. device_agrees tb a e s) r"
  by (cases r) (simp_all add: check_output_verdict)

section \<open>External memory\<close>

lemma ext_load_bytes_lookup:
  assumes "length data \<le> 2 ^ 32"
  shows "k \<le> length data \<Longrightarrow> i < k \<Longrightarrow>
    ext_memory (fold (\<lambda>i m. m\<lparr>ext_memory := (ext_memory m)(a + word_of_nat i \<mapsto> ucast (data ! i))\<rparr>) [0..<k] m)
      (a + word_of_nat i) = Some (ucast (data ! i))"
proof (induction k)
  case (Suc k)
  have inj: "(word_of_nat i :: u32) = word_of_nat k \<longleftrightarrow> i = k" if "i \<le> k"
    using that Suc.prems(1) assms by (simp add: word_of_nat_eq_iff take_bit_nat_eq_self)
  from Suc show ?case by (cases "i = k") (auto simp: inj)
qed simp

lemma ext_bytes_roundtrip:
  assumes "length data \<le> 2 ^ 32"
  shows "ext_read_bytes a (length data) (ext_load_bytes a data m) = data"
proof -
  have b: "(ucast ((ucast (x :: i8) :: u32) AND 255) :: i8) = x" for x
  proof -
    have m: "(255 :: u32) = mask 8" by (simp add: mask_eq_exp_minus_1)
    show ?thesis unfolding m by (rule bit_word_eqI) (simp add: bit_simps)
  qed
  let ?raw = "\<lambda>i. case ext_memory (ext_load_bytes a data m) (a + word_of_nat i) of Some v \<Rightarrow> v | None \<Rightarrow> 0"
  have "ext_read_bytes a (length data) (ext_load_bytes a data m) =
      map (\<lambda>i. ucast (?raw i AND 255)) [0..<length data]"
    by (simp add: ext_read_bytes_def fold_update)
  also have "\<dots> = map (\<lambda>i. data ! i) [0..<length data]"
  proof (rule map_cong [OF refl])
    fix i
    assume "i \<in> set [0..<length data]"
    then show "ucast (?raw i AND 255) = data ! i"
      using ext_load_bytes_lookup [OF assms le_refl, of i a m] by (simp add: ext_load_bytes_def b)
  qed
  finally show ?thesis by (simp add: map_nth)
qed

section \<open>Properties\<close>

text \<open>The bench and the runtime serialise the same commands.  For every parameter block of each of
  the six operations, the sixteen words the bench's \<open>to_words\<close> produces from the zero-extended
  fields are the words \<open>npu_cmd_build_*\<close> writes, whatever the descriptor or the word array held
  before and whether the output dimensions are given or derived.\<close>

theorem bench_words_match_runtime:
  assumes "length uninit = 16"
  shows "built_words (npu_cmd_build_conv (Some d) (Some c)) = ConvDesc_to_words (conv_desc_of c) uninit \<and>
    built_words (npu_cmd_build_gemm (Some d) (Some g)) = GemmDesc_to_words (gemm_desc_of g) \<and>
    built_words (npu_cmd_build_softmax (Some d) (Some s)) = SoftmaxDesc_to_words (softmax_desc_of s) \<and>
    built_words (npu_cmd_build_vec (Some d) (Some v)) = VecDesc_to_words (vec_desc_of v) \<and>
    built_words (npu_cmd_build_lnorm (Some d) (Some l)) = LnormDesc_to_words (lnorm_desc_of l) \<and>
    built_words (npu_cmd_build_pool (Some d) (Some p)) = PoolDesc_to_words (pool_desc_of p)"
  using conv_words_eq [OF assms] pool_words_eq other_words_eq by blast

theorem bench_words_match_runtime_witness:
  "\<forall>d c g. built_words (npu_cmd_build_conv (Some d) (Some c)) =
      ConvDesc_to_words (conv_desc_of c) (replicate 16 0xDEADBEEF) \<and>
    built_words (npu_cmd_build_gemm (Some d) (Some g)) = GemmDesc_to_words (gemm_desc_of g)"
  using bench_words_match_runtime [of "replicate 16 0xDEADBEEF"] by simp

text \<open>Verdicts of the end-to-end tests, for a device under test given by its accesses.  Each of the six
  runners passes exactly when its reference function is defined and, after its operands are
  loaded and its command submitted, the device reports idle within 200000 polls and every byte
  then read from the output buffer is the reference result's; the two DMA runners pass exactly when, after
  the request, idle is seen within 200000 polls and the bytes read back after the interrupt is
  cleared, through the bus or from the external memory, are the data.  An access here always has a
  result; the loop on \<open>mmio_ready\<close> is in the accesses of the composed device (\<open>dev_dut\<close> of
  \<open>Npu_Device\<close>), whose states say whether an access hung.\<close>

lemma runner_verdicts:
  "map_option fst (run_conv_test tb act wt bias H W C K R S sh sw ph pw q mode ai wa ba ao un s) =
    map_option (\<lambda>e. device_agrees tb (LGNPU_ACT_BUF_BASE + ao) e
        (conv_test_submit tb act wt bias H W C K R S sh sw ph pw q mode ai wa ba ao un s))
      (ref_conv act wt bias H W C K R S sh sw ph pw q mode) \<and>
   map_option fst (run_gemm_test tb a b bias M N L q mode aa ba' bb ca s) =
    map_option (\<lambda>e. device_agrees tb (LGNPU_ACT_BUF_BASE + ca) e
        (gemm_test_submit tb a b bias M N L q mode aa ba' ca s)) (ref_gemm a b bias M N L q mode) \<and>
   map_option fst (run_softmax_test tb x rows len ia oa s) =
    map_option (\<lambda>e. device_agrees tb (LGNPU_ACT_BUF_BASE + oa) e
        (softmax_test_submit tb x rows len ia oa s)) (ref_softmax x rows len) \<and>
   map_option fst (run_vec_test tb a b len op q mode aa ba' oa s) =
    map_option (\<lambda>e. device_agrees tb (LGNPU_ACT_BUF_BASE + oa) e
        (vec_test_submit tb a b len op q mode aa ba' oa s)) (ref_vec a b len op q mode) \<and>
   map_option fst (run_lnorm_test tb x rows len shift ia oa s) =
    map_option (\<lambda>e. device_agrees tb (LGNPU_ACT_BUF_BASE + oa) e
        (lnorm_test_submit tb x rows len shift ia oa s)) (ref_lnorm x rows len shift) \<and>
   map_option fst (run_pool_test tb x H W C R S sh sw ph pw pm ia oa s) =
    map_option (\<lambda>e. device_agrees tb (LGNPU_ACT_BUF_BASE + oa) e
        (pool_test_submit tb x H W C R S sh sw ph pw pm ia oa s)) (ref_pool x H W C R S sh sw ph pw pm) \<and>
   map_option fst (run_dma_read_test etb data ea la t) =
    Some (idle_then (dut_of etb) (\<lambda>s. fst (read_bytes (dut_of etb) la (length data)
        (tb_mmio_write (dut_of etb) LGNPU_REG_IRQ_CLEAR 1 s)) = data)
      (dma_requested (dut_of etb) ea la (word_of_nat (length data)) 0
        (ext_set etb (ext_load_bytes ea data (ext_get etb t)) t))) \<and>
   map_option fst (run_dma_write_test etb data la ea t) =
    Some (idle_then (dut_of etb) (\<lambda>s. ext_read_bytes ea (length data)
        (ext_get etb (tb_mmio_write (dut_of etb) LGNPU_REG_IRQ_CLEAR 1 s)) = data)
      (dma_requested (dut_of etb) ea la (word_of_nat (length data)) 1 (load_bytes (dut_of etb) la data t)))"
  unfolding run_conv_test_def run_gemm_test_def run_softmax_test_def run_vec_test_def run_lnorm_test_def
    run_pool_test_def runner_verdict dma_read_verdict dma_write_verdict
  by blast

text \<open>The external memory of the bench.  Bytes loaded at an address are read back unchanged (up to
  the whole address space), and on the memory port a granted write is visible to a read
  requested in the next cycle, whose data is valid in the cycle after that.\<close>

theorem ext_memory_roundtrip:
  assumes "length data \<le> 2 ^ 32"
  shows "ext_read_bytes addr (length data) (ext_load_bytes addr data m) = data \<and>
    (let (r1, m1) = update_ext_mem \<lparr>ext_mem_req = True, ext_mem_wr = True, ext_mem_addr = p, ext_mem_wdata = v\<rparr> m;
         (r2, m2) = update_ext_mem \<lparr>ext_mem_req = True, ext_mem_wr = False, ext_mem_addr = p, ext_mem_wdata = w\<rparr> m1;
         (r3, m3) = update_ext_mem req m2
     in ext_mem_gnt r1 \<and> ext_mem_gnt r2 \<and> ext_mem_rvalid r3 \<and> ext_mem_rdata r3 = v)"
  using ext_bytes_roundtrip [OF assms] by (simp add: update_ext_mem_def ext_lookup_def Let_def)

theorem ext_memory_roundtrip_witness:
  "ext_read_bytes 0xFFFFFFFF (length [1, 2, 200 :: i8])
      (ext_load_bytes 0xFFFFFFFF [1, 2, 200] \<lparr>ext_memory = Map.empty, ext_rd_pending = False, ext_rd_addr_pending = 0\<rparr>) =
    [1, 2, 200]"
  by (rule conjunct1 [OF ext_memory_roundtrip]) simp

end
