(* ===== verification/Npu_Bench_Device.thy ===== *)
theory Npu_Bench_Device
  imports Npu_Bench Npu_Shell
begin

text \<open>
  The integration bench on the device model: the bench's submission is the runtime's, so what
  the integration tests exercise is the path the host library takes, and its soft reset pulse
  waits long enough for the reset controller.
\<close>

definition shell_dut :: "soc dut" where
  "shell_dut = \<lparr>dut_bus = soc_bus 0, tick = soc_cycle no_access\<rparr>"

text \<open>The host library's way: submit what a builder left, through a device opened at address 0.\<close>

definition host_submit :: "'s dut \<Rightarrow> int \<times> npu_cmd_desc option \<Rightarrow> 's \<Rightarrow> 's option" where
  "host_submit tb built s =
     map_option snd (npu_submit (dut_bus tb) (Some \<lparr>base = Some 0\<rparr>) (snd built) s)"

section \<open>Lemmas\<close>

lemma shell_dut_write:
  "tb_mmio_write shell_dut a v = soc_cycle \<lparr>mmio_addr = ucast a, mmio_wdata = v, mmio_wr = True, mmio_valid = True\<rparr>"
proof -
  have "(ucast (ucast a :: u64) :: 20 word) = ucast a"
    by (rule bit_word_eqI) (auto simp: bit_simps dest: bit_imp_le_length)
  then show ?thesis by (simp add: tb_mmio_write_def shell_dut_def soc_bus_def)
qed

lemma shell_dut_clocks: "tb_run_clocks shell_dut n = run_clocks n"
  by (simp add: tb_run_clocks_def shell_dut_def run_clocks_def)

text \<open>The sixteen queue writes of the bench, on any device.\<close>

lemma submit_words_writes:
  assumes "length ws = 16"
  shows "submit_words tb ws s = tb_run_clocks tb 2000 (bus_writes (dut_bus tb)
    (window_writes 0 ws @ [(reg_addr 0 LGNPU_REG_DOORBELL, 1)]) s)"
proof -
  have a: "(ucast (LGNPU_CMD_QUEUE_BASE + word_of_nat i * 4) :: u64) =
      reg_addr 0 LGNPU_CMD_QUEUE_BASE + 4 * word_of_nat i" if "i < 16" for i
  proof -
    have "i \<in> set [0..<16]" using that by simp
    then show ?thesis by (auto simp: upt_rec reg_addr_def LGNPU_CMD_QUEUE_BASE_def)
  qed
  have "fold (\<lambda>i. tb_mmio_write tb (LGNPU_CMD_QUEUE_BASE + word_of_nat i * 4) (ws ! i)) [0..<16] s =
      bus_writes (dut_bus tb) (window_writes 0 ws) s"
    unfolding bus_writes_def window_writes_def assms fold_map
    by (rule fold_cong) (simp_all add: tb_mmio_write_def a)
  then show ?thesis by (simp add: submit_words_def tb_mmio_write_def reg_addr_def)
qed

lemma host_submit_words:
  assumes "\<exists>desc. built = (0, Some desc)" and "built_words built = ws" and "length ws = 16"
  shows "map_option (tb_run_clocks tb 2000) (host_submit tb built s) = Some (submit_words tb ws s)"
proof -
  obtain desc where b1: "built = (0, Some desc)" using assms(1) by blast
  have b2: "words desc = ws" using assms(2) unfolding b1 built_words_def by simp
  have "npu_submit (dut_bus tb) (Some \<lparr>base = Some 0\<rparr>) (Some desc) s = Some (0, bus_writes (dut_bus tb)
      (window_writes 0 (words desc) @ [(reg_addr 0 LGNPU_REG_DOORBELL, 1)]) s)"
    by (rule submit_writes) (simp_all add: b2 assms(3))
  then show ?thesis
    unfolding host_submit_def b1 b2 snd_conv submit_words_writes [OF assms(3)] by (simp only: option.map snd_conv)
qed

lemma length_to_words:
  "length (ConvDesc_to_words c uninit) = length uninit" "length (GemmDesc_to_words g) = 16"
  "length (SoftmaxDesc_to_words x) = 16" "length (VecDesc_to_words v) = 16"
  "length (LnormDesc_to_words l) = 16" "length (PoolDesc_to_words p) = 16"
  by (simp_all add: ConvDesc_to_words_def GemmDesc_to_words_def SoftmaxDesc_to_words_def
      VecDesc_to_words_def LnormDesc_to_words_def PoolDesc_to_words_def Let_def)

lemma pipe_idle_enable:
  fixes v :: u32
  assumes "pipe_idle p" and "\<not> shell_rung p" and "\<not> bit v 0"
  defines "p' \<equiv> soc_cycle \<lparr>mmio_addr = ucast LGNPU_REG_CTRL, mmio_wdata = v, mmio_wr = True,
    mmio_valid = True\<rparr> p"
  shows "pipe_idle p' \<and> \<not> shell_rung p' \<and> ctrl_reg (sh_regs (sh p')) = v"
proof -
  from assms(1) have l: "shell_live p" by (simp add: pipe_idle_def)
  note c = ctrl_write_cycle [OF l, of v, folded p'_def]
  with assms(3) have l': "shell_live p'" by (simp add: shell_live_def)
  have "queue_room p'" unfolding p'_def using assms(1) l by (intro room_kept) (simp_all add: pipe_idle_def)
  then have "pipe_idle p'"
    using assms(1,2) l' unfolding p'_def
    by (simp add: pipe_idle_def shell_rung_def live_parts [OF l] cmd_fetch_step_def cmd_decode_step_def
        desc_word_valid_def desc_done_def)
  moreover have "\<not> shell_rung p'"
    by (simp add: shell_rung_def p'_def live_regs [OF l] reg_block_step_def reg_block_write_def reg_decode Let_def)
  ultimately show ?thesis using c by simp
qed

lemma pipe_idle_clock:
  assumes "pipe_idle p" and "\<not> shell_rung p"
  shows "pipe_idle (soc_cycle no_access p) \<and> \<not> shell_rung (soc_cycle no_access p)"
proof -
  from assms(1) have l: "shell_live p" by (simp add: pipe_idle_def)
  have "pipe_idle (soc_cycle no_access p)" using assms by (intro pipe_idle_access) simp_all
  moreover have "\<not> shell_rung (soc_cycle no_access p)" by (simp add: shell_rung_def idle_regs [OF l])
  ultimately show ?thesis ..
qed

section \<open>Properties\<close>

text \<open>C30: The bench drives the device as the host library does.  On any device, each of the six
  \<open>submit_*\<close> functions of the bench, given the zero-extended fields of a parameter block, leaves
  the device in the state that building the descriptor, \<open>npu_submit\<close> through a handle mapped at
  address 0 and 2000 clocks leave it in.\<close>

theorem bench_submits_like_runtime:
  assumes "length uninit = 16"
  shows "map_option (tb_run_clocks tb 2000) (host_submit tb (npu_cmd_build_conv (Some d) (Some c)) s) =
      Some (submit_conv tb (conv_desc_of c) uninit s) \<and>
    map_option (tb_run_clocks tb 2000) (host_submit tb (npu_cmd_build_gemm (Some d) (Some g)) s) =
      Some (submit_gemm tb (gemm_desc_of g) s) \<and>
    map_option (tb_run_clocks tb 2000) (host_submit tb (npu_cmd_build_softmax (Some d) (Some x)) s) =
      Some (submit_softmax tb (softmax_desc_of x) s) \<and>
    map_option (tb_run_clocks tb 2000) (host_submit tb (npu_cmd_build_vec (Some d) (Some v)) s) =
      Some (submit_vec tb (vec_desc_of v) s) \<and>
    map_option (tb_run_clocks tb 2000) (host_submit tb (npu_cmd_build_lnorm (Some d) (Some l)) s) =
      Some (submit_lnorm tb (lnorm_desc_of l) s) \<and>
    map_option (tb_run_clocks tb 2000) (host_submit tb (npu_cmd_build_pool (Some d) (Some p)) s) =
      Some (submit_pool tb (pool_desc_of p) s)"
  unfolding submit_conv_def submit_gemm_def submit_softmax_def submit_vec_def submit_lnorm_def submit_pool_def
  by (intro conjI host_submit_words build_total conv_words_eq [OF assms] other_words_eq pool_words_eq)
    (simp_all add: length_to_words assms)

theorem bench_submits_like_runtime_witness:
  "\<forall>d c. map_option (tb_run_clocks shell_dut 2000)
      (host_submit shell_dut (npu_cmd_build_conv (Some d) (Some c)) reset_soc) =
    Some (submit_conv shell_dut (conv_desc_of c) (replicate 16 7) reset_soc)"
  by (intro allI) (rule conjunct1 [OF bench_submits_like_runtime], simp)

text \<open>The bench's soft reset works.  From any state of a live device, \<open>soft_reset_pulse\<close> (five clocks
  between the reset write and the enable write) ends with the device live and enabled, fetch and
  decode at rest and the doorbell clear, so the next submission is accepted.\<close>

theorem bench_soft_reset_enables:
  assumes "shell_live p"
  shows "pipe_idle (soft_reset_pulse shell_dut p) \<and> \<not> shell_rung (soft_reset_pulse shell_dut p) \<and>
    ctrl_reg (sh_regs (sh (soft_reset_pulse shell_dut p))) = LGNPU_CTRL_ENABLE"
proof -
  let ?p1 = "soc_cycle \<lparr>mmio_addr = ucast LGNPU_REG_CTRL, mmio_wdata = 1, mmio_wr = True, mmio_valid = True\<rparr> p"
  have "run_clocks 5 ?p1 = soc_cycle no_access (run_clocks 4 ?p1)"
    using run_clocks_last [of 4 ?p1] by simp
  with reset_sequence [OF assms] pipe_idle_clock [of "run_clocks 4 ?p1"]
  have "pipe_idle (run_clocks 5 ?p1)" "\<not> shell_rung (run_clocks 5 ?p1)" by simp_all
  from pipe_idle_enable [OF this, of 2] show ?thesis
    by (simp add: soft_reset_pulse_def shell_dut_clocks shell_dut_write LGNPU_CTRL_ENABLE_def)
qed

theorem bench_soft_reset_enables_witness:
  "pipe_idle (soft_reset_pulse shell_dut reset_soc) \<and> \<not> shell_rung (soft_reset_pulse shell_dut reset_soc) \<and>
    ctrl_reg (sh_regs (sh (soft_reset_pulse shell_dut reset_soc))) = LGNPU_CTRL_ENABLE"
  by (rule bench_soft_reset_enables [OF reset_soc_idle(3)])

end
