(* ===== verification/Npu_Issue.thy ===== *)
theory Npu_Issue
  imports Npu_Shell
begin

text \<open>
  From the command queue to the dispatcher: the clocks in which \<open>npu_scheduler.sv\<close> takes a command
  from the queue and offers it, and what STATUS shows meanwhile.  A clock in which the host only
  reads moves the control path exactly as a clock without access.
\<close>

section \<open>Definitions\<close>

text \<open>No command is queued and none is held by the scheduler.\<close>

definition drained :: "soc \<Rightarrow> bool" where
  "drained p = (fifo_inv (sh_queue (sh p)) \<and> contents (sh_queue (sh p)) = [] \<and> s_state (sh_sched (sh p)) = S_IDLE)"

definition resting :: "soc \<Rightarrow> bool" where
  "resting p = (pipe_idle p \<and> \<not> shell_rung p \<and> drained p)"

text \<open>The scheduler offers the command \<open>c\<close> to the dispatcher and nothing else is in the control path.\<close>

definition issuing :: "conv_cmd_t \<Rightarrow> soc \<Rightarrow> bool" where
  "issuing c p = (pipe_idle p \<and> \<not> shell_rung p \<and> contents (sh_queue (sh p)) = [] \<and>
     s_state (sh_sched (sh p)) = S_ISSUE \<and> sched_cmd (sh_sched (sh p)) = c)"

text \<open>A shell with the record of the last access kind forgotten: the only thing a read changes.\<close>

definition unread :: "shell \<Rightarrow> shell" where
  "unread s = s\<lparr>sh_regs := (sh_regs s)\<lparr>is_buf_r := False\<rparr>\<rparr>"

section \<open>Reads move the control path like idle clocks\<close>

lemma unread_cycle:
  assumes "\<not> (mmio_valid m \<and> mmio_wr m)"
  shows "unread (shell_cycle m e s) = unread (shell_cycle no_access e (unread s))"
  using assms
  by (auto simp: unread_def shell_cycle_def shell_step_def shell_reset_def reg_block_step_def reg_block_reset_def
      cmd_mem_next_def Let_def)

lemma unread_run:
  assumes "unread (sh p) = unread (sh q)" and "env p = env q"
    and "\<And>p. snd (bus_read (soc_bus mmio) a p) = soc_cycle (m a) p" and "\<not> mmio_wr (m a)"
  shows "unread (sh (bus_reads (soc_bus mmio) a k p)) = unread (sh (run_clocks k q)) \<and>
    env (bus_reads (soc_bus mmio) a k p) = env (run_clocks k q)"
  using assms(1,2)
proof (induction k arbitrary: p q)
  case (Suc k)
  have "unread (sh (soc_cycle (m a) p)) = unread (sh (soc_cycle no_access q))"
    using Suc.prems unread_cycle [of "m a" "env p 0" "sh p"] unread_cycle [of no_access "env q 0" "sh q"] assms(4)
    by (simp add: soc_cycle_def)
  moreover have "env (soc_cycle (m a) p) = env (soc_cycle no_access q)"
    using Suc.prems by (simp add: soc_cycle_def)
  ultimately show ?case using Suc.IH by (simp add: assms(3) run_clocks_Suc)
qed (simp add: run_clocks_def)

lemma status_reads:
  "unread (sh (bus_reads (soc_bus mmio) a k p)) = unread (sh (run_clocks k p))"
  "env (bus_reads (soc_bus mmio) a k p) = env (run_clocks k p)"
  using unread_run [of p p mmio a "\<lambda>a. \<lparr>mmio_addr = ucast (a - mmio), mmio_wdata = 0, mmio_wr = False, mmio_valid = True\<rparr>" k]
  by (simp_all add: soc_bus_def Let_def)

lemma unread_sel [simp]:
  "sh_fetch (unread s) = sh_fetch s" "sh_decode (unread s) = sh_decode s" "sh_queue (unread s) = sh_queue s"
  "sh_sched (unread s) = sh_sched s" "sh_reset (unread s) = sh_reset s"
  "ctrl_reg (sh_regs (unread s)) = ctrl_reg (sh_regs s)"
  by (simp_all add: unread_def)

lemma unread_eqD:
  assumes "unread s = unread t"
  shows "sh_fetch s = sh_fetch t" "sh_decode s = sh_decode t" "sh_queue s = sh_queue t" "sh_sched s = sh_sched t"
    "sh_reset s = sh_reset t" "ctrl_reg (sh_regs s) = ctrl_reg (sh_regs t)"
  using assms by (metis unread_sel)+

section \<open>Through the scheduler\<close>

lemma drained_kept:
  assumes "shell_live p" and "drained p" and "d_state (sh_decode (sh p)) \<noteq> D_VALID"
  shows "drained (soc_cycle m p)"
proof -
  let ?q = "sh_queue (sh p)"
  have q: "sh_queue (sh (soc_cycle m p)) = fifo_step None (queue_ready (sh_sched (sh p))) ?q"
    using assms(3) by (simp add: live_parts(3) [OF assms(1)] cmd_valid_def)
  have "fifo_empty ?q" using assms(2) by (metis drained_def fifo_empty_iff length_contents list.size(3))
  then have "s_state (sh_sched (sh (soc_cycle m p))) = S_IDLE"
    using assms(2) by (simp add: live_cycle [OF assms(1)] shell_step_def scheduler_step_def drained_def Let_def)
  with assms(2) fifo_step_count [of ?q None "queue_ready (sh_sched (sh p))"] q show ?thesis
    by (simp add: drained_def queue_step_def)
qed

lemma fetch_mid:
  assumes "fetching w k p"
  shows "f_state (sh_fetch (sh (soc_cycle no_access p))) = F_WAIT" "d_state (sh_decode (sh (soc_cycle no_access p))) = D_IDLE"
    "shell_live (soc_cycle no_access p)"
  using assms
  by (simp_all add: fetching_def live_parts cmd_fetch_step_def cmd_decode_step_def desc_word_valid_def desc_done_def
      live_idle)

text \<open>The clocks after the doorbell: fetch or decode is busy from the first to the 34th, and the decoder offers
  the command in the 34th only.\<close>

lemma ingest_phase:
  assumes "pipe_idle p" and "shell_rung p" and "t < 33"
  shows "(if even t then fetching (shell_window p) (t div 2) (run_clocks (Suc t) p)
    else f_state (sh_fetch (sh (run_clocks (Suc t) p))) = F_WAIT \<and>
      d_state (sh_decode (sh (run_clocks (Suc t) p))) = D_IDLE \<and> shell_live (run_clocks (Suc t) p)) \<or> t = 32"
proof -
  let ?q = "soc_cycle no_access p"
  have f: "fetching (shell_window p) k (run_clocks (2 * k) ?q)" if "k \<le> 15" for k
    by (rule fetch_words [OF doorbell_starts [OF assms(1,2)] that])
  show ?thesis
  proof (cases "even t")
    case True
    then obtain k where t: "t = 2 * k" by (elim evenE)
    then show ?thesis using f [of k] assms(3) by (cases "k = 16") (simp_all add: run_clocks_Suc)
  next
    case False
    then obtain k where t: "t = Suc (2 * k)" by (elim oddE) simp
    with assms(3) have k: "k \<le> 15" by simp
    have "run_clocks (Suc t) p = soc_cycle no_access (run_clocks (2 * k) ?q)"
      unfolding t run_clocks_Suc [of "Suc (2 * k)"] by (rule run_clocks_last)
    then show ?thesis using fetch_mid [OF f [OF k]] False by simp
  qed
qed

lemma rung_check: "pipe_idle p \<Longrightarrow> shell_rung p \<Longrightarrow> decoding D_CHECK (shell_window p) (run_clocks 33 p)"
  using fetch_all [OF doorbell_starts, of p] run_clocks_Suc [of 32 p] by simp

lemma rung_valid: "pipe_idle p \<Longrightarrow> shell_rung p \<Longrightarrow> decoding D_VALID (shell_window p) (run_clocks 34 p)"
  using check_cycle [OF rung_check, of p] run_clocks_last [of 33 p] by simp

lemma ingesting:
  assumes "pipe_idle p" and "shell_rung p" and "0 < t" and "t \<le> 34"
  shows "f_state (sh_fetch (sh (run_clocks t p))) \<noteq> F_IDLE \<or> d_state (sh_decode (sh (run_clocks t p))) \<noteq> D_IDLE"
    and "t < 34 \<Longrightarrow> d_state (sh_decode (sh (run_clocks t p))) \<noteq> D_VALID"
    and "shell_live (run_clocks t p)"
proof -
  obtain u where u: "t = Suc u" using assms(3) by (cases t) auto
  consider "u < 32" | "t = 33" | "t = 34" using assms(4) u by linarith
  then have *: "(f_state (sh_fetch (sh (run_clocks t p))) \<noteq> F_IDLE \<or> d_state (sh_decode (sh (run_clocks t p))) \<noteq> D_IDLE) \<and>
      (t < 34 \<longrightarrow> d_state (sh_decode (sh (run_clocks t p))) \<noteq> D_VALID) \<and> shell_live (run_clocks t p)"
  proof cases
    case 1
    then show ?thesis using ingest_phase [OF assms(1,2), of u] by (auto simp: u fetching_def split: if_splits)
  qed (use rung_check [OF assms(1,2)] rung_valid [OF assms(1,2)] in \<open>auto simp: decoding_def\<close>)
  then show "f_state (sh_fetch (sh (run_clocks t p))) \<noteq> F_IDLE \<or> d_state (sh_decode (sh (run_clocks t p))) \<noteq> D_IDLE"
    "t < 34 \<Longrightarrow> d_state (sh_decode (sh (run_clocks t p))) \<noteq> D_VALID" "shell_live (run_clocks t p)"
    by blast+
qed

lemma rung_drained:
  assumes "pipe_idle p" and "shell_rung p" and "drained p" and "t \<le> 34"
  shows "drained (run_clocks t p)"
  using assms(4)
proof (induction t)
  case 0
  show ?case using assms(3) by (simp add: run_clocks_def)
next
  case (Suc t)
  have "shell_live (run_clocks t p) \<and> d_state (sh_decode (sh (run_clocks t p))) \<noteq> D_VALID"
  proof (cases t)
    case 0
    then show ?thesis using assms(1) by (simp add: pipe_idle_def run_clocks_def)
  next
    case (Suc u)
    then show ?thesis using ingesting [OF assms(1,2), of t] Suc.prems by simp
  qed
  then show ?case using Suc by (simp add: run_clocks_last drained_kept)
qed

text \<open>The 35th clock queues the command and the 36th moves it to the scheduler.\<close>

lemma queued_cycle:
  assumes "decoding D_VALID w p" and "drained p" and "\<not> decode_err w"
  defines "q \<equiv> soc_cycle no_access p"
  shows "contents (sh_queue (sh q)) = [decode_fields w] \<and> fifo_inv (sh_queue (sh q)) \<and>
    s_state (sh_sched (sh q)) = S_IDLE \<and> pipe_idle q \<and> \<not> shell_rung q"
proof -
  from assms(1) have l: "shell_live p" by (simp add: decoding_def)
  let ?q = "sh_queue (sh p)"
  have e: "fifo_empty ?q" "\<not> fifo_full ?q" "fifo_inv ?q" "queue_ready (sh_sched (sh p))" "fifo_count ?q = 0"
    using assms(2) length_contents [of ?q]
    by (auto simp: drained_def fifo_empty_iff fifo_full_iff queue_ready_def simp del: length_contents)
  have sq: "sh_queue (sh q) = fifo_step (Some (decode_fields w)) True ?q"
    using assms(1,3) e by (simp add: q_def live_parts(3) [OF l] decoding_def cmd_valid_def)
  have c: "contents (sh_queue (sh q)) = [decode_fields w]" "fifo_inv (sh_queue (sh q))"
    using fifo_step_count [OF e(3), of "Some (decode_fields w)" True] assms(2) sq e(5)
    by (simp_all add: queue_step_def drained_def)
  have n: "fifo_count (sh_queue (sh q)) = 1" using c(1) by (metis One_nat_def length_Cons length_contents list.size(3))
  have s: "s_state (sh_sched (sh q)) = S_IDLE"
    using assms(2) e by (simp add: q_def live_cycle [OF l] shell_step_def scheduler_step_def drained_def Let_def)
  have "pipe_idle q"
    using assms(1) l e(2) c(2) n live_idle [OF l]
    by (simp add: pipe_idle_def queue_room_def q_def live_parts [OF l] decoding_def shell_rung_def cmd_fetch_step_def
        cmd_decode_step_def desc_word_valid_def desc_done_def)
  moreover have "\<not> shell_rung q" by (simp add: q_def shell_rung_def idle_regs [OF l])
  ultimately show ?thesis using c s by simp
qed

lemma issue_cycle:
  assumes "contents (sh_queue (sh p)) = [c]" and "fifo_inv (sh_queue (sh p))" and "s_state (sh_sched (sh p)) = S_IDLE"
    and "pipe_idle p" and "\<not> shell_rung p"
  shows "issuing c (soc_cycle no_access p)"
proof -
  from assms(4) have l: "shell_live p" by (simp add: pipe_idle_def)
  let ?q = "sh_queue (sh p)"
  have e: "\<not> fifo_empty ?q" using assms(1) length_contents [of ?q] by (auto simp: fifo_empty_iff simp del: length_contents)
  have rd: "fifo_rd_data ?q = c" using assms(1) by (auto simp: contents_def fifo_rd_data_def upt_rec split: if_splits)
  have q: "sh_queue (sh (soc_cycle no_access p)) = fifo_step None True ?q"
    using assms(3,4) by (simp add: live_parts(3) [OF l] cmd_valid_def queue_ready_def pipe_idle_def)
  have "pipe_idle (soc_cycle no_access p)" by (rule pipe_idle_access [OF assms(4,5)]) simp
  moreover have "\<not> shell_rung (soc_cycle no_access p)" by (simp add: shell_rung_def idle_regs [OF l])
  ultimately show ?thesis
    using fifo_step_count [OF assms(2), of None True] assms(1,3) e rd q
    by (simp add: issuing_def queue_step_def live_cycle [OF l] shell_step_def scheduler_step_def Let_def)
qed

lemma rung_to_issue:
  assumes "pipe_idle p" and "shell_rung p" and "drained p" and "\<not> decode_err (shell_window p)"
  shows "issuing (decode_fields (shell_window p)) (run_clocks 36 p)"
    and "contents (sh_queue (sh (run_clocks 35 p))) = [decode_fields (shell_window p)]"
    and "shell_live (run_clocks 35 p)" and "s_state (sh_sched (sh (run_clocks 35 p))) = S_IDLE"
proof -
  have q: "run_clocks 35 p = soc_cycle no_access (run_clocks 34 p)" "run_clocks 36 p = soc_cycle no_access (run_clocks 35 p)"
    using run_clocks_last [of 34 p] run_clocks_last [of 35 p] by simp_all
  note c = queued_cycle [OF rung_valid [OF assms(1,2)] rung_drained [OF assms(1-3), of 34] assms(4), folded q(1)]
  then show "contents (sh_queue (sh (run_clocks 35 p))) = [decode_fields (shell_window p)]"
    "shell_live (run_clocks 35 p)" "s_state (sh_sched (sh (run_clocks 35 p))) = S_IDLE"
    by (simp_all add: pipe_idle_def)
  show "issuing (decode_fields (shell_window p)) (run_clocks 36 p)"
    unfolding q(2) using c by (intro issue_cycle) simp_all
qed

section \<open>Polling for idle\<close>

lemma resting_filled:
  assumes "resting p" and "length ws \<le> 16"
  shows "resting (bus_writes (soc_bus mmio) (window_writes mmio ws) p)"
  using assms(2)
proof (induction ws rule: rev_induct)
  case Nil
  then show ?case using assms(1) by (simp add: window_writes_def)
next
  case (snoc w ws)
  let ?p = "bus_writes (soc_bus mmio) (window_writes mmio ws) p"
  from snoc have r: "resting ?p" by simp
  then have "drained (bus_writes (soc_bus mmio) (window_writes mmio (ws @ [w])) p)"
    by (auto simp: window_writes_snoc soc_bus_def resting_def pipe_idle_def intro!: drained_kept)
  with window_fill_idle [of p "ws @ [w]" mmio] assms(1) snoc.prems show ?case by (simp add: resting_def)
qed

lemma submitted_resting:
  fixes mmio :: u64
  assumes "resting p" and "length ws = 16"
  defines "p' \<equiv> bus_writes (soc_bus mmio) (window_writes mmio ws @ [(reg_addr mmio LGNPU_REG_DOORBELL, 1)]) p"
  shows "pipe_idle p'" "shell_rung p'" "shell_window p' = ws" "drained p'"
proof -
  show "pipe_idle p'" "shell_rung p'" "shell_window p' = ws"
    using submitted_rung [of p ws mmio] assms by (simp_all add: resting_def p'_def)
  show "drained p'"
    using resting_filled [OF assms(1), of ws mmio] assms(2)
    by (auto simp: p'_def soc_bus_def resting_def pipe_idle_def intro!: drained_kept)
qed

lemma bus_writes_env: "env (bus_writes (soc_bus mmio) ws p) = (\<lambda>t. env p (length ws + t))"
  by (induction ws arbitrary: p) (auto simp: soc_bus_def soc_cycle_def)

lemma run_clocks_env: "env (run_clocks k p) = (\<lambda>t. env p (k + t))"
  by (induction k) (simp_all add: run_clocks_last soc_cycle_def, simp add: run_clocks_def)

lemma status_poll_value:
  assumes "shell_live (run_clocks k p)"
  shows "bus_value (soc_bus mmio) (reg_addr mmio LGNPU_REG_STATUS) k p =
    status_word (env p (Suc k)) (sh (run_clocks (Suc k) p))"
proof -
  let ?r = "bus_reads (soc_bus mmio) (reg_addr mmio LGNPU_REG_STATUS) k p"
  let ?m = "\<lparr>mmio_addr = ucast LGNPU_REG_STATUS, mmio_wdata = 0, mmio_wr = False, mmio_valid = True\<rparr>"
  note u = status_reads [of mmio "reg_addr mmio LGNPU_REG_STATUS" k p]
  have l: "shell_live ?r" using assms unread_eqD [OF u(1)] by (simp add: shell_live_def)
  have "unread (sh (soc_cycle ?m ?r)) = unread (sh (run_clocks (Suc k) p))"
    using unread_cycle [of ?m "env ?r 0" "sh ?r"] unread_cycle [of no_access "env ?r 0" "sh (run_clocks k p)"] u
    by (simp add: soc_cycle_def run_clocks_last)
  from unread_eqD [OF this] show ?thesis
    by (simp add: bus_value_def status_read [OF l] status_word_def core_idle_def)
      (simp add: soc_cycle_def u(2) run_clocks_env)
qed

text \<open>What the polls after a doorbell show while the backends and the DMA engines are quiet: busy in the first 35
  reads, idle in the next.\<close>

lemma rung_polls:
  fixes mmio :: u64
  assumes "pipe_idle p" and "shell_rung p" and "drained p" and "\<not> decode_err (shell_window p)"
    and "\<And>t. t \<le> 36 \<Longrightarrow> \<not> backend_busy (env p t) \<and> \<not> dma_busy (env p t)"
  defines "v \<equiv> \<lambda>k. bus_value (soc_bus mmio) (reg_addr mmio LGNPU_REG_STATUS) k p"
  shows "k < 35 \<Longrightarrow> \<not> bit (v k) 0" and "bit (v 35) 0 \<and> \<not> bit (v 35) 1"
    and "(LEAST k. bit (v k) 0 \<and> \<not> bit (v k) 1) = 35"
proof -
  have live: "shell_live (run_clocks k p)" if "k \<le> 34" for k
    using that ingesting(3) [OF assms(1,2), of k] assms(1) by (cases k) (simp_all add: run_clocks_def pipe_idle_def)
  note i = rung_to_issue [OF assms(1-4)]
  show busy: "\<not> bit (v k) 0" if "k < 35" for k
  proof (cases "k < 34")
    case True
    then have "\<not> core_idle (env p (Suc k)) (sh (run_clocks (Suc k) p))"
      using ingesting(1) [OF assms(1,2), of "Suc k"] by (auto simp: core_idle_def)
    then show ?thesis using True live [of k] by (simp add: v_def status_poll_value status_bits)
  next
    case False
    with that have k: "k = 34" by simp
    have "\<not> fifo_empty (sh_queue (sh (run_clocks 35 p)))"
      using i(2) length_contents [of "sh_queue (sh (run_clocks 35 p))"]
      by (auto simp: fifo_empty_iff simp del: length_contents)
    then show ?thesis using live [of 34] by (simp add: v_def k status_poll_value status_bits core_idle_def)
  qed
  have "core_idle (env p 36) (sh (run_clocks 36 p))"
    using i(1) assms(5) [of 36] length_contents [of "sh_queue (sh (run_clocks 36 p))"]
    by (simp add: core_idle_def issuing_def pipe_idle_def fifo_empty_iff del: length_contents)
  then show idle: "bit (v 35) 0 \<and> \<not> bit (v 35) 1"
    using i(3) assms(5) [of 36] by (simp add: v_def status_poll_value status_bits [unfolded One_nat_def])
  show "(LEAST k. bit (v k) 0 \<and> \<not> bit (v k) 1) = 35"
    using idle busy by (intro Least_equality) (auto simp: not_less [symmetric])
qed

lemma reset_soc_resting: "resting reset_soc"
  using reset_soc_idle
  by (simp add: resting_def drained_def) (simp add: reset_soc_def fifo_inv_def fifo_count_def contents_def)

section \<open>Properties\<close>

text \<open>C21: Polling for idle can end before the command has started.  The scheduler takes the command from the
  queue one clock before a backend can accept it, and STATUS does not see the scheduler: on a
  resting device, \<open>npu_submit\<close> followed by \<open>npu_poll_idle\<close> returns success at the 36th read, with the
  command still held by the scheduler and offered to the dispatcher for the first time.  Every
  earlier read shows the device as not idle.\<close>

theorem poll_idle_returns_early:
  assumes "resting p" and "base d = Some mmio" and "length (words desc) = LGNPU_CMD_WORDS"
    and "\<not> decode_err (words desc)" and "36 \<le> unat timeout"
    and "\<forall>t \<le> 53. \<not> backend_busy (env p t) \<and> \<not> dma_busy (env p t)"
  shows "\<exists>p1 p2. npu_submit (soc_bus mmio) (Some d) (Some desc) p = Some (0, p1) \<and>
    npu_poll_idle (soc_bus mmio) (Some d) timeout p1 = Some (0, p2) \<and>
    p2 = bus_reads (soc_bus mmio) (reg_addr mmio LGNPU_REG_STATUS) 36 p1 \<and>
    s_state (sh_sched (sh p2)) = S_ISSUE \<and> sched_cmd (sh_sched (sh p2)) = decode_fields (words desc)"
proof -
  have n: "length (words desc) = 16" using assms(3) by simp
  define p1 where "p1 = bus_writes (soc_bus mmio)
    (window_writes mmio (words desc) @ [(reg_addr mmio LGNPU_REG_DOORBELL, 1)]) p"
  note s = submitted_resting [OF assms(1) n, of mmio, folded p1_def]
  have env: "env p1 = (\<lambda>t. env p (17 + t))"
    unfolding p1_def bus_writes_env by (simp add: window_writes_def n)
  have quiet: "\<not> backend_busy (env p1 t) \<and> \<not> dma_busy (env p1 t)" if "t \<le> 36" for t
    using assms(6) that by (simp add: env)
  have ok: "\<not> decode_err (shell_window p1)" unfolding s(3) by (rule assms(4))
  note i = rung_to_issue [OF s(1,2,4) ok, unfolded s(3)]
  let ?v = "\<lambda>k. bus_value (soc_bus mmio) (reg_addr mmio LGNPU_REG_STATUS) k p1"
  have v: "bit (?v 35) 0 \<and> \<not> bit (?v 35) 1" "(LEAST k. bit (?v k) 0 \<and> \<not> bit (?v k) 1) = 35"
    using rung_polls(2,3) [OF s(1,2,4) ok quiet, where mmio = mmio] by simp_all
  have a: "mmio + 4 = reg_addr mmio LGNPU_REG_STATUS" by (simp add: reg_addr_def LGNPU_REG_STATUS_def)
  have d: "d = \<lparr>base = Some mmio\<rparr>" using assms(2) by (cases d) simp
  define p2 where "p2 = bus_reads (soc_bus mmio) (reg_addr mmio LGNPU_REG_STATUS) 36 p1"
  have "npu_poll_idle (soc_bus mmio) (Some d) timeout p1 = Some (0, p2)"
    unfolding d npu_poll_idle_spec a v(2) p2_def using v(1) assms(5) by auto
  moreover have "sh_sched (sh p2) = sh_sched (sh (run_clocks 36 p1))"
    unfolding p2_def by (rule unread_eqD(4) [OF status_reads(1)])
  ultimately show ?thesis
    using i(1) submit_writes [OF assms(2,3), of "soc_bus mmio" p] by (auto simp: p1_def issuing_def p2_def)
qed

theorem poll_idle_returns_early_witness:
  "\<exists>p1 p2. npu_submit (soc_bus 0) (Some \<lparr>base = Some 0\<rparr>) (Some \<lparr>words = 4 # replicate 15 1\<rparr>) reset_soc = Some (0, p1) \<and>
    npu_poll_idle (soc_bus 0) (Some \<lparr>base = Some 0\<rparr>) 100000 p1 = Some (0, p2) \<and>
    p2 = bus_reads (soc_bus 0) (reg_addr 0 LGNPU_REG_STATUS) 36 p1 \<and>
    s_state (sh_sched (sh p2)) = S_ISSUE \<and>
    sched_cmd (sh_sched (sh p2)) = decode_fields (words \<lparr>words = 4 # replicate 15 1\<rparr>)"
  by (rule poll_idle_returns_early [OF reset_soc_resting])
    (simp_all add: decode_err_def rtl_sem reset_soc_def quiet_env_def)

end
