(* ===== verification/Npu_Buffers.thy ===== *)
theory Npu_Buffers
  imports Npu_Regs
begin

text \<open>
  The device's local memory (\<open>rtl/memory\<close>): the weight, activation and partial-sum SRAM banks, and
  \<open>npu_buffer_router.sv\<close>, which decodes the host address, lets the backends read and write, and
  merges weight and bias reads on one port.  A step is a clock edge; requests are inputs, grants are
  combinational and read data is valid one clock later.
\<close>

section \<open>SRAM macros (\<open>mem_macro_1rw1r_wrap.sv\<close>, \<open>mem_macro_wrap.sv\<close>)\<close>

record ('a, 'd) sram =
  mem :: "'a \<Rightarrow> 'd"
  a_rdata :: 'd
  b_rdata :: 'd

definition mem_macro_1rw1r ::
  "'a \<Rightarrow> 'd \<Rightarrow> bool \<Rightarrow> bool \<Rightarrow> 'a \<Rightarrow> bool \<Rightarrow> ('a, 'd) sram \<Rightarrow> ('a, 'd) sram" where
  "mem_macro_1rw1r a_addr a_wdata a_we a_en b_addr b_en s =
     \<lparr>mem = (if a_en \<and> a_we then (mem s)(a_addr := a_wdata) else mem s),
      a_rdata = (if a_en \<and> \<not> a_we then mem s a_addr else a_rdata s),
      b_rdata = (if b_en then mem s b_addr else b_rdata s)\<rparr>"

record ('a, 'd) sram1 =
  mem1 :: "'a \<Rightarrow> 'd"
  rdata1 :: 'd

definition mem_macro :: "'a \<Rightarrow> 'd \<Rightarrow> bool \<Rightarrow> bool \<Rightarrow> ('a, 'd) sram1 \<Rightarrow> ('a, 'd) sram1" where
  "mem_macro addr wdata we en s =
     \<lparr>mem1 = (if en \<and> we then (mem1 s)(addr := wdata) else mem1 s),
      rdata1 = (if en \<and> \<not> we then mem1 s addr else rdata1 s)\<rparr>"

section \<open>Banks\<close>

text \<open>Port requests of the host (or the DMA engine in its place) and of the backends.\<close>

record host_port =
  host_addr :: "20 word"
  host_wdata :: u32
  host_wr :: bool
  host_req :: bool

record be_ports =
  be_wt_addr :: u16
  be_wt_req :: bool
  be_act_rd_addr :: u16
  be_act_rd_req :: bool
  be_act_wr_addr :: u16
  be_act_wr_data :: u8
  be_act_wr_req :: bool
  be_bias_addr :: u16
  be_bias_req :: bool

record weight_buffer =
  wt_sram :: "(12 word, u8) sram"
  wt_host_rd_r :: bool
  wt_be_rd_r :: bool

definition weight_buffer_step ::
  "12 word \<Rightarrow> u8 \<Rightarrow> bool \<Rightarrow> bool \<Rightarrow> 12 word \<Rightarrow> bool \<Rightarrow> weight_buffer \<Rightarrow> weight_buffer" where
  "weight_buffer_step haddr hwdata hwe hreq baddr breq b =
     \<lparr>wt_sram = mem_macro_1rw1r haddr hwdata hwe hreq baddr breq (wt_sram b),
      wt_host_rd_r = (hreq \<and> \<not> hwe),
      wt_be_rd_r = breq\<rparr>"

record act_buffer =
  act_sram :: "(13 word, u8) sram"
  act_host_rd_accept_r :: bool
  act_be_rd_accept_r :: bool

definition act_buffer_step ::
  "13 word \<Rightarrow> u8 \<Rightarrow> bool \<Rightarrow> bool \<Rightarrow> 13 word \<Rightarrow> bool \<Rightarrow> 13 word \<Rightarrow> u8 \<Rightarrow> bool \<Rightarrow> act_buffer \<Rightarrow> act_buffer" where
  "act_buffer_step haddr hwdata hwe hreq rd_addr rd_req wr_addr wr_data wr_req b =
     (let a_addr = (if wr_req then wr_addr else haddr);
          a_wdata = (if wr_req then wr_data else hwdata);
          a_we = (if wr_req then True else hreq \<and> hwe \<and> \<not> wr_req);
          a_en = (wr_req \<or> hreq)
      in \<lparr>act_sram = mem_macro_1rw1r a_addr a_wdata a_we a_en rd_addr rd_req (act_sram b),
          act_host_rd_accept_r = (hreq \<and> \<not> hwe \<and> \<not> wr_req),
          act_be_rd_accept_r = rd_req\<rparr>)"

record psum_buffer =
  psum_sram :: "(12 word, u32) sram1"
  psum_rvalid :: bool

definition psum_buffer_step :: "12 word \<Rightarrow> u32 \<Rightarrow> bool \<Rightarrow> bool \<Rightarrow> psum_buffer \<Rightarrow> psum_buffer" where
  "psum_buffer_step addr wdata we req b =
     \<lparr>psum_sram = mem_macro addr wdata we req (psum_sram b), psum_rvalid = (req \<and> \<not> we)\<rparr>"

section \<open>Router (\<open>npu_buffer_router.sv\<close>)\<close>

definition host_sel_wt :: "20 word \<Rightarrow> bool" where
  "host_sel_wt a = (0x10000 \<le> a \<and> a < 0x20000)"

definition host_sel_act :: "20 word \<Rightarrow> bool" where
  "host_sel_act a = (0x20000 \<le> a \<and> a < 0x30000)"

definition host_sel_psum :: "20 word \<Rightarrow> bool" where
  "host_sel_psum a = (0x30000 \<le> a)"

record buffers =
  wt_buf :: weight_buffer
  act_buf :: act_buffer
  psum_buf :: psum_buffer
  bias_pending_r :: bool
  bias_addr_pending_r :: "12 word"
  bias_was_sel :: bool

definition wt_issue_bias :: "be_ports \<Rightarrow> buffers \<Rightarrow> bool" where
  "wt_issue_bias p b = (bias_pending_r b \<or> be_bias_req p \<and> \<not> be_wt_req p)"

definition wt_be_addr :: "be_ports \<Rightarrow> buffers \<Rightarrow> 12 word" where
  "wt_be_addr p b =
     (if wt_issue_bias p b
      then (if bias_pending_r b then bias_addr_pending_r b else ucast (be_bias_addr p))
      else ucast (be_wt_addr p))"

definition wt_be_req :: "be_ports \<Rightarrow> buffers \<Rightarrow> bool" where
  "wt_be_req p b = (be_wt_req p \<or> wt_issue_bias p b)"

definition router_step :: "host_port \<Rightarrow> be_ports \<Rightarrow> buffers \<Rightarrow> buffers" where
  "router_step h p b =
     (let breq = wt_be_req p b; bgnt = breq; sel = wt_issue_bias p b;
          collide = (be_bias_req p \<and> be_wt_req p \<and> \<not> bias_pending_r b)
      in \<lparr>wt_buf = weight_buffer_step (ucast (host_addr h)) (ucast (host_wdata h)) (host_wr h)
             (host_req h \<and> host_sel_wt (host_addr h)) (wt_be_addr p b) breq (wt_buf b),
          act_buf = act_buffer_step (ucast (host_addr h)) (ucast (host_wdata h)) (host_wr h)
             (host_req h \<and> host_sel_act (host_addr h)) (ucast (be_act_rd_addr p)) (be_act_rd_req p)
             (ucast (be_act_wr_addr p)) (be_act_wr_data p) (be_act_wr_req p) (act_buf b),
          psum_buf = psum_buffer_step (ucast (host_addr h)) (host_wdata h) (host_wr h)
             (host_req h \<and> host_sel_psum (host_addr h)) (psum_buf b),
          bias_pending_r = (if breq \<and> bgnt \<and> sel then False
                            else if collide then True else bias_pending_r b),
          bias_addr_pending_r = (if collide then ucast (be_bias_addr p) else bias_addr_pending_r b),
          bias_was_sel = (if breq \<and> bgnt then sel else bias_was_sel b)\<rparr>)"

definition host_gnt :: "host_port \<Rightarrow> be_ports \<Rightarrow> bool" where
  "host_gnt h p =
     (host_sel_wt (host_addr h) \<and> (host_req h \<and> host_sel_wt (host_addr h)) \<or>
      host_sel_act (host_addr h) \<and> ((host_req h \<and> host_sel_act (host_addr h)) \<and> \<not> be_act_wr_req p) \<or>
      host_sel_psum (host_addr h) \<and> (host_req h \<and> host_sel_psum (host_addr h)))"

definition host_rvalid :: "buffers \<Rightarrow> bool" where
  "host_rvalid b = (wt_host_rd_r (wt_buf b) \<or> act_host_rd_accept_r (act_buf b) \<or> psum_rvalid (psum_buf b))"

definition host_rdata :: "buffers \<Rightarrow> u32" where
  "host_rdata b =
     (if wt_host_rd_r (wt_buf b) then ucast (a_rdata (wt_sram (wt_buf b)))
      else if act_host_rd_accept_r (act_buf b) then ucast (a_rdata (act_sram (act_buf b)))
      else if psum_rvalid (psum_buf b) then rdata1 (psum_sram (psum_buf b)) else 0)"

definition be_wt_rvalid :: "buffers \<Rightarrow> bool" where
  "be_wt_rvalid b = (wt_be_rd_r (wt_buf b) \<and> \<not> bias_was_sel b)"

definition be_bias_rvalid :: "buffers \<Rightarrow> bool" where
  "be_bias_rvalid b = (wt_be_rd_r (wt_buf b) \<and> bias_was_sel b)"

definition be_wt_rdata :: "buffers \<Rightarrow> u8" where
  "be_wt_rdata b = b_rdata (wt_sram (wt_buf b))"

definition be_act_rdata :: "buffers \<Rightarrow> u8" where
  "be_act_rdata b = b_rdata (act_sram (act_buf b))"

text \<open>The backends' grants: the weight port goes to the bias reader while \<open>wt_issue_bias\<close> holds.\<close>

definition be_wt_gnt :: "be_ports \<Rightarrow> buffers \<Rightarrow> bool" where
  "be_wt_gnt p b = (wt_be_req p b \<and> \<not> wt_issue_bias p b)"

definition be_bias_gnt :: "be_ports \<Rightarrow> buffers \<Rightarrow> bool" where
  "be_bias_gnt p b = (wt_be_req p b \<and> wt_issue_bias p b)"

section \<open>What the memory holds\<close>

record local_mem =
  lm_wt :: "12 word \<Rightarrow> u8"
  lm_act :: "13 word \<Rightarrow> u8"
  lm_psum :: "12 word \<Rightarrow> u32"

definition local_of :: "buffers \<Rightarrow> local_mem" where
  "local_of b = \<lparr>lm_wt = mem (wt_sram (wt_buf b)), lm_act = mem (act_sram (act_buf b)),
     lm_psum = mem1 (psum_sram (psum_buf b))\<rparr>"

definition local_load :: "20 word \<Rightarrow> local_mem \<Rightarrow> u32" where
  "local_load a m =
     (if host_sel_wt a then ucast (lm_wt m (ucast a))
      else if host_sel_act a then ucast (lm_act m (ucast a))
      else if host_sel_psum a then lm_psum m (ucast a) else 0)"

definition local_store :: "20 word \<Rightarrow> u32 \<Rightarrow> local_mem \<Rightarrow> local_mem" where
  "local_store a v m =
     (if host_sel_wt a then m\<lparr>lm_wt := (lm_wt m)(ucast a := ucast v)\<rparr>
      else if host_sel_act a then m\<lparr>lm_act := (lm_act m)(ucast a := ucast v)\<rparr>
      else if host_sel_psum a then m\<lparr>lm_psum := (lm_psum m)(ucast a := v)\<rparr> else m)"

text \<open>A backend write into the activation memory.\<close>

definition be_store :: "be_ports \<Rightarrow> local_mem \<Rightarrow> local_mem" where
  "be_store p m =
     (if be_act_wr_req p then m\<lparr>lm_act := (lm_act m)(ucast (be_act_wr_addr p) := be_act_wr_data p)\<rparr> else m)"

text \<open>An address some bank answers, and two addresses that name the same cell.\<close>

definition in_window :: "20 word \<Rightarrow> bool" where
  "in_window a = (host_sel_wt a \<or> host_sel_act a \<or> host_sel_psum a)"

definition same_cell :: "20 word \<Rightarrow> 20 word \<Rightarrow> bool" where
  "same_cell a b =
     (host_sel_wt a \<and> host_sel_wt b \<and> (ucast a :: 12 word) = ucast b \<or>
      host_sel_act a \<and> host_sel_act b \<and> (ucast a :: 13 word) = ucast b \<or>
      host_sel_psum a \<and> host_sel_psum b \<and> (ucast a :: 12 word) = ucast b)"

text \<open>The banks after reset, as simulation initialises them, and an access of the host.\<close>

definition reset_buffers :: buffers where
  "reset_buffers =
     \<lparr>wt_buf = \<lparr>wt_sram = \<lparr>mem = (\<lambda>_. 0), a_rdata = 0, b_rdata = 0\<rparr>, wt_host_rd_r = False, wt_be_rd_r = False\<rparr>,
      act_buf = \<lparr>act_sram = \<lparr>mem = (\<lambda>_. 0), a_rdata = 0, b_rdata = 0\<rparr>, act_host_rd_accept_r = False,
        act_be_rd_accept_r = False\<rparr>,
      psum_buf = \<lparr>psum_sram = \<lparr>mem1 = (\<lambda>_. 0), rdata1 = 0\<rparr>, psum_rvalid = False\<rparr>,
      bias_pending_r = False, bias_addr_pending_r = 0, bias_was_sel = False\<rparr>"

definition host_access :: "20 word \<Rightarrow> u32 \<Rightarrow> bool \<Rightarrow> host_port" where
  "host_access a v wr = \<lparr>host_addr = a, host_wdata = v, host_wr = wr, host_req = True\<rparr>"

definition be_reads :: "u16 \<Rightarrow> u16 \<Rightarrow> be_ports" where
  "be_reads wt bias = \<lparr>be_wt_addr = wt, be_wt_req = True, be_act_rd_addr = 0, be_act_rd_req = False, be_act_wr_addr = 0,
     be_act_wr_data = 0, be_act_wr_req = False, be_bias_addr = bias, be_bias_req = True\<rparr>"

section \<open>Lemmas\<close>

lemma sel_disjoint:
  "host_sel_wt a \<Longrightarrow> \<not> host_sel_act a \<and> \<not> host_sel_psum a"
  "host_sel_act a \<Longrightarrow> \<not> host_sel_psum a \<and> \<not> host_sel_wt a"
  by (auto simp: host_sel_wt_def host_sel_act_def host_sel_psum_def word_le_nat_alt word_less_nat_alt)

lemma in_window_iff: "in_window a \<longleftrightarrow> 0x10000 \<le> a"
  by (auto simp: in_window_def host_sel_wt_def host_sel_act_def host_sel_psum_def word_le_nat_alt
      word_less_nat_alt)

lemmas router_simps = router_step_def weight_buffer_step_def act_buffer_step_def psum_buffer_step_def
  mem_macro_1rw1r_def mem_macro_def local_of_def Let_def

lemma host_gnt_iff:
  "host_gnt h p \<longleftrightarrow> host_req h \<and> in_window (host_addr h) \<and> (host_sel_act (host_addr h) \<longrightarrow> \<not> be_act_wr_req p)"
  using sel_disjoint [of "host_addr h"] by (auto simp: host_gnt_def in_window_def)

text \<open>One clock of the router on the memory contents: the backend's write, and the host's when it is
  granted.\<close>

lemma local_of_step:
  "local_of (router_step h p b) =
    (if host_gnt h p \<and> host_wr h then local_store (host_addr h) (host_wdata h) else id) (be_store p (local_of b))"
proof -
  consider (wt) "host_sel_wt (host_addr h)" | (act) "host_sel_act (host_addr h)"
    | (psum) "host_sel_psum (host_addr h)" "\<not> host_sel_wt (host_addr h)" "\<not> host_sel_act (host_addr h)"
    | (none) "\<not> in_window (host_addr h)"
    by (auto simp: in_window_def)
  then show ?thesis
    by cases (use sel_disjoint [of "host_addr h"] in
      \<open>cases "host_req h"; cases "host_wr h"; cases "be_act_wr_req p";
       simp add: router_simps local_store_def be_store_def in_window_def host_gnt_iff\<close>)+
qed

text \<open>A granted read is valid in the next clock, with the contents before the clock.\<close>

lemma host_read_step:
  assumes "host_gnt h p" and "\<not> host_wr h"
  shows "host_rvalid (router_step h p b)" and "host_rdata (router_step h p b) = local_load (host_addr h) (local_of b)"
  using assms sel_disjoint [of "host_addr h"]
  by (auto simp: host_gnt_iff in_window_def host_rvalid_def host_rdata_def router_simps local_load_def)

lemma local_load_store:
  "local_load a (local_store c v m) =
    (if same_cell a c then (if host_sel_psum a then v else ucast (ucast v :: u8)) else local_load a m)"
  using sel_disjoint [of a] sel_disjoint [of c]
  by (auto simp: local_load_def local_store_def same_cell_def)

text \<open>A clock writes the cell an address names: through a granted host write or through a backend
  write.  A run of clocks.\<close>

definition touches :: "20 word \<Rightarrow> host_port \<Rightarrow> be_ports \<Rightarrow> bool" where
  "touches a h p =
     (host_gnt h p \<and> host_wr h \<and> same_cell a (host_addr h) \<or>
      be_act_wr_req p \<and> host_sel_act a \<and> (ucast a :: 13 word) = ucast (be_act_wr_addr p))"

definition router_run :: "(host_port \<times> be_ports) list \<Rightarrow> buffers \<Rightarrow> buffers" where
  "router_run ins b = fold (\<lambda>(h, p). router_step h p) ins b"

lemma local_load_be_store:
  "\<not> (be_act_wr_req p \<and> host_sel_act a \<and> (ucast a :: 13 word) = ucast (be_act_wr_addr p)) \<Longrightarrow>
     local_load a (be_store p m) = local_load a m"
  by (auto simp: be_store_def local_load_def)

lemma local_load_untouched:
  assumes "\<not> touches a h p"
  shows "local_load a (local_of (router_step h p b)) = local_load a (local_of b)"
proof -
  have "local_load a (be_store p (local_of b)) = local_load a (local_of b)"
    using assms by (intro local_load_be_store) (simp add: touches_def)
  with assms show ?thesis by (auto simp: local_of_step local_load_store touches_def)
qed

lemma local_load_run:
  "\<forall>(h, p) \<in> set ins. \<not> touches a h p \<Longrightarrow>
     local_load a (local_of (router_run ins b)) = local_load a (local_of b)"
  by (induction ins arbitrary: b) (auto simp: router_run_def local_load_untouched)

lemma local_load_written:
  assumes "host_gnt w p" and "host_wr w" and "same_cell a (host_addr w)"
  shows "local_load a (local_of (router_step w p b)) =
    (if host_sel_psum a then host_wdata w else ucast (ucast (host_wdata w) :: u8))"
  using assms by (simp add: local_of_step local_load_store)

text \<open>The weight port: which request is served, and with what.\<close>

lemma weight_read_step:
  assumes "be_wt_gnt p b"
  shows "be_wt_rvalid (router_step h p b)" and "\<not> be_bias_rvalid (router_step h p b)"
    and "be_wt_rdata (router_step h p b) = lm_wt (local_of b) (ucast (be_wt_addr p))"
  using assms
  by (simp_all add: router_simps be_wt_gnt_def be_wt_rvalid_def be_bias_rvalid_def be_wt_rdata_def wt_be_addr_def)

lemma bias_port_step:
  assumes "be_bias_gnt p b"
  shows "be_bias_rvalid (router_step h p b)" and "\<not> be_wt_rvalid (router_step h p b)"
    and "\<not> bias_pending_r (router_step h p b)"
    and "be_wt_rdata (router_step h p b) = lm_wt (local_of b)
      (if bias_pending_r b then bias_addr_pending_r b else ucast (be_bias_addr p))"
  using assms
  by (simp_all add: router_simps be_bias_gnt_def be_wt_rvalid_def be_bias_rvalid_def be_wt_rdata_def wt_be_addr_def)

section \<open>Properties\<close>



end
