(* ===== verification/Npu_Vec.thy ===== *)
theory Npu_Vec
  imports Npu_Decode Npu_Buffers Npu_Kernels
begin

text \<open>
  The vector unit (\<open>rtl/backends/vec/vec_ctrl.sv\<close>, wrapped unchanged by \<open>vec_backend.sv\<close>): its state
  machine, registers and arithmetic, clock by clock, on the ports of the buffer router.
\<close>

section \<open>State machine and registers\<close>

datatype vec_state = V_IDLE | V_LOAD_CFG | V_READ | V_WAIT | V_WRITE | V_DONE

record vec_ctrl =
  vc_state :: vec_state
  a_base_r :: u16
  b_base_r :: u16
  out_base_r :: u16
  length_r :: u16
  vec_op_r :: bool
  qshift_r :: "5 word"
  act_mode_r :: "2 word"
  idx_r :: u16
  a_addr_r :: u16
  b_addr_r :: u16
  out_addr_r :: u16
  a_gnt_r :: bool
  b_gnt_r :: bool
  a_val_r :: bool
  b_val_r :: bool
  a_data_r :: u8
  b_data_r :: u8

record vec_in =
  act_rd_gnt :: bool
  act_rd_rdata :: u8
  act_rd_rvalid :: bool
  wt_rd_gnt :: bool
  wt_rd_rdata :: u8
  wt_rd_rvalid :: bool
  out_wr_gnt :: bool

definition ACT_NONE :: "2 word" where [rtl_sem]: "ACT_NONE = 0"

definition ACT_RELU :: "2 word" where [rtl_sem]: "ACT_RELU = 1"

definition ACT_LEAKY_RELU :: "2 word" where [rtl_sem]: "ACT_LEAKY_RELU = 2"

text \<open>The result of one element: a 9-bit sum, or a 32-bit product, activated and shifted, and saturated.\<close>

definition vec_result :: "bool \<Rightarrow> 5 word \<Rightarrow> 2 word \<Rightarrow> u8 \<Rightarrow> u8 \<Rightarrow> u8" where
  "vec_result vec_op qshift mode a b =
     (let mul_acc = scast a * scast b :: u32;
          mul_activated =
            (if mode = ACT_RELU then (if mul_acc <s 0 then 0 else mul_acc)
             else if mode = ACT_LEAKY_RELU then (if mul_acc <s 0 then signed_drop_bit LEAKY_SHIFT mul_acc else mul_acc)
             else mul_acc);
          mul_shifted = signed_drop_bit (unat qshift) mul_activated;
          add_sum = scast a + scast b :: 9 word
      in if \<not> vec_op
         then (if 127 <s add_sum then 127 else if add_sum <s - 128 then 0x80 else ucast add_sum)
         else (if 127 <s mul_shifted then 127 else if mul_shifted <s - 128 then 0x80 else ucast mul_shifted))"

text \<open>The comparison \<open>idx_r == length_r - 1\<close> is on 32 bits, the width of the literal.\<close>

definition last_element :: "vec_ctrl \<Rightarrow> bool" where
  "last_element v = ((ucast (idx_r v) :: u32) = ucast (length_r v) - 1)"

definition vec_next_state :: "bool \<Rightarrow> vec_in \<Rightarrow> vec_ctrl \<Rightarrow> vec_state" where
  "vec_next_state cmd_valid i v = (case vc_state v of
     V_IDLE \<Rightarrow> if cmd_valid then V_LOAD_CFG else V_IDLE
   | V_LOAD_CFG \<Rightarrow> V_READ
   | V_READ \<Rightarrow> if (a_gnt_r v \<or> act_rd_gnt i) \<and> (b_gnt_r v \<or> wt_rd_gnt i) then V_WAIT else V_READ
   | V_WAIT \<Rightarrow> if (a_val_r v \<or> act_rd_rvalid i) \<and> (b_val_r v \<or> wt_rd_rvalid i) then V_WRITE else V_WAIT
   | V_WRITE \<Rightarrow> if out_wr_gnt i then (if last_element v then V_DONE else V_READ) else V_WRITE
   | V_DONE \<Rightarrow> V_IDLE)"

definition vec_ctrl_step :: "bool \<Rightarrow> vec_cmd_t \<Rightarrow> vec_in \<Rightarrow> vec_ctrl \<Rightarrow> vec_ctrl" where
  "vec_ctrl_step cmd_valid cmd i v =
     (let latch = (vc_state v = V_IDLE \<and> cmd_valid);
          load = (vc_state v = V_LOAD_CFG);
          written = (vc_state v = V_WRITE \<and> out_wr_gnt i);
          reading = (\<not> (load \<or> written) \<and> vc_state v = V_READ);
          waiting = (\<not> (load \<or> written) \<and> vc_state v = V_WAIT)
      in \<lparr>vc_state = vec_next_state cmd_valid i v,
          a_base_r = (if latch then v_a_addr cmd else a_base_r v),
          b_base_r = (if latch then v_b_addr cmd else b_base_r v),
          out_base_r = (if latch then v_out_addr cmd else out_base_r v),
          length_r = (if latch then v_length cmd else length_r v),
          vec_op_r = (if latch then v_vec_op cmd else vec_op_r v),
          qshift_r = (if latch then v_quant_shift cmd else qshift_r v),
          act_mode_r = (if latch then v_act_mode cmd else act_mode_r v),
          idx_r = (if load then 0 else if written then idx_r v + 1 else idx_r v),
          a_addr_r = (if load then a_base_r v else if written then a_addr_r v + 1 else a_addr_r v),
          b_addr_r = (if load then b_base_r v else if written then b_addr_r v + 1 else b_addr_r v),
          out_addr_r = (if load then out_base_r v else if written then out_addr_r v + 1 else out_addr_r v),
          a_gnt_r = (if load \<or> written then False else if reading \<and> act_rd_gnt i then True else a_gnt_r v),
          b_gnt_r = (if load \<or> written then False else if reading \<and> wt_rd_gnt i then True else b_gnt_r v),
          a_val_r = (if load \<or> written then False else if waiting \<and> act_rd_rvalid i then True else a_val_r v),
          b_val_r = (if load \<or> written then False else if waiting \<and> wt_rd_rvalid i then True else b_val_r v),
          a_data_r = (if waiting \<and> act_rd_rvalid i then act_rd_rdata i else a_data_r v),
          b_data_r = (if waiting \<and> wt_rd_rvalid i then wt_rd_rdata i else b_data_r v)\<rparr>)"

definition vec_reset :: vec_ctrl where
  "vec_reset =
     \<lparr>vc_state = V_IDLE, a_base_r = 0, b_base_r = 0, out_base_r = 0, length_r = 0, vec_op_r = False, qshift_r = 0,
      act_mode_r = ACT_NONE, idx_r = 0, a_addr_r = 0, b_addr_r = 0, out_addr_r = 0, a_gnt_r = False, b_gnt_r = False,
      a_val_r = False, b_val_r = False, a_data_r = 0, b_data_r = 0\<rparr>"

definition vec_cmd_ready :: "vec_ctrl \<Rightarrow> bool" where
  "vec_cmd_ready v = (vc_state v = V_IDLE)"

definition vec_done :: "vec_ctrl \<Rightarrow> bool" where
  "vec_done v = (vc_state v = V_DONE)"

definition vec_busy :: "vec_ctrl \<Rightarrow> bool" where
  "vec_busy v = (vc_state v \<noteq> V_IDLE)"

text \<open>The memory requests; the bias port is tied off in \<open>vec_backend.sv\<close>.\<close>

definition vec_ports :: "vec_ctrl \<Rightarrow> be_ports" where
  "vec_ports v =
     \<lparr>be_wt_addr = b_addr_r v, be_wt_req = (vc_state v = V_READ \<and> \<not> b_gnt_r v),
      be_act_rd_addr = a_addr_r v, be_act_rd_req = (vc_state v = V_READ \<and> \<not> a_gnt_r v),
      be_act_wr_addr = out_addr_r v,
      be_act_wr_data = vec_result (vec_op_r v) (qshift_r v) (act_mode_r v) (a_data_r v) (b_data_r v),
      be_act_wr_req = (vc_state v = V_WRITE), be_bias_addr = 0, be_bias_req = False\<rparr>"

text \<open>What the router answers to the selected backend; the activation bank grants in the clock of a request.\<close>

definition be_act_rd_gnt :: "be_ports \<Rightarrow> bool" where
  "be_act_rd_gnt p = be_act_rd_req p"

definition be_act_wr_gnt :: "be_ports \<Rightarrow> bool" where
  "be_act_wr_gnt p = be_act_wr_req p"

definition be_act_rd_rvalid :: "buffers \<Rightarrow> bool" where
  "be_act_rd_rvalid b = act_be_rd_accept_r (act_buf b)"

definition vec_inputs :: "be_ports \<Rightarrow> buffers \<Rightarrow> vec_in" where
  "vec_inputs p b =
     \<lparr>act_rd_gnt = be_act_rd_gnt p, act_rd_rdata = be_act_rdata b, act_rd_rvalid = be_act_rd_rvalid b,
      wt_rd_gnt = be_wt_gnt p b, wt_rd_rdata = be_wt_rdata b, wt_rd_rvalid = be_wt_rvalid b,
      out_wr_gnt = be_act_wr_gnt p\<rparr>"

section \<open>What a command computes\<close>

definition vec_element :: "vec_cmd_t \<Rightarrow> nat \<Rightarrow> local_mem \<Rightarrow> local_mem" where
  "vec_element c i m = m\<lparr>lm_act := (lm_act m)(ucast (v_out_addr c + word_of_nat i) :=
     vec_result (v_vec_op c) (v_quant_shift c) (v_act_mode c) (lm_act m (ucast (v_a_addr c + word_of_nat i)))
       (lm_wt m (ucast (v_b_addr c + word_of_nat i))))\<rparr>"

definition vec_compute :: "vec_cmd_t \<Rightarrow> nat \<Rightarrow> local_mem \<Rightarrow> local_mem" where
  "vec_compute c n = fold (vec_element c) [0..<n]"

section \<open>Runs of the unit\<close>

text \<open>The unit and the banks, with the unit selected; the host may use its port but not write.\<close>

definition vec_tick :: "bool \<Rightarrow> vec_cmd_t \<Rightarrow> host_port \<Rightarrow> vec_ctrl \<times> buffers \<Rightarrow> vec_ctrl \<times> buffers" where
  "vec_tick cmd_valid cmd h s =
     (vec_ctrl_step cmd_valid cmd (vec_inputs (vec_ports (fst s)) (snd s)) (fst s),
      router_step h (vec_ports (fst s)) (snd s))"

definition vec_clocks :: "vec_cmd_t \<Rightarrow> host_port list \<Rightarrow> vec_ctrl \<times> buffers \<Rightarrow> vec_ctrl \<times> buffers" where
  "vec_clocks cmd = fold (vec_tick False cmd)"

text \<open>The command registers hold the command \<open>c\<close>.\<close>

definition vec_latched :: "vec_cmd_t \<Rightarrow> vec_ctrl \<Rightarrow> bool" where
  "vec_latched c v = (a_base_r v = v_a_addr c \<and> b_base_r v = v_b_addr c \<and> out_base_r v = v_out_addr c \<and>
     length_r v = v_length c \<and> vec_op_r v = v_vec_op c \<and> qshift_r v = v_quant_shift c \<and> act_mode_r v = v_act_mode c)"

text \<open>The loop head: \<open>i\<close> elements are written and the next one is about to be requested.\<close>

definition vec_at_element :: "vec_cmd_t \<Rightarrow> nat \<Rightarrow> vec_ctrl \<Rightarrow> bool" where
  "vec_at_element c i v = (vc_state v = V_READ \<and> length_r v = v_length c \<and> vec_op_r v = v_vec_op c \<and>
     qshift_r v = v_quant_shift c \<and> act_mode_r v = v_act_mode c \<and> idx_r v = word_of_nat i \<and>
     a_addr_r v = v_a_addr c + word_of_nat i \<and> b_addr_r v = v_b_addr c + word_of_nat i \<and>
     out_addr_r v = v_out_addr c + word_of_nat i \<and> \<not> a_gnt_r v \<and> \<not> b_gnt_r v \<and> \<not> a_val_r v \<and> \<not> b_val_r v)"

text \<open>The loop invariant of a run.\<close>

definition vec_running :: "vec_cmd_t \<Rightarrow> local_mem \<Rightarrow> nat \<Rightarrow> vec_ctrl \<times> buffers \<Rightarrow> bool" where
  "vec_running c m i s = (\<not> bias_pending_r (snd s) \<and> local_of (snd s) = vec_compute c i m \<and>
     (if i < unat (v_length c) then vec_at_element c i (fst s) else vc_state (fst s) = V_DONE))"

text \<open>The operand ranges lie in the banks, and the output does not overwrite operands still to be read.\<close>

definition vec_ranges :: "vec_cmd_t \<Rightarrow> bool" where
  "vec_ranges c = (let n = unat (v_length c); a = unat (v_a_addr c); out = unat (v_out_addr c)
     in a + n \<le> 8192 \<and> out + n \<le> 8192 \<and> unat (v_b_addr c) + n \<le> 4096 \<and> (out \<le> a \<or> a + n \<le> out))"

text \<open>The bytes of a bank, and the output bytes as the reference function of the operand bytes.\<close>

definition act_bytes :: "local_mem \<Rightarrow> u16 \<Rightarrow> nat \<Rightarrow> i8 list" where
  "act_bytes m a n = map (\<lambda>i. lm_act m (word_of_nat (unat a + i))) [0..<n]"

definition wt_bytes :: "local_mem \<Rightarrow> u16 \<Rightarrow> nat \<Rightarrow> i8 list" where
  "wt_bytes m a n = map (\<lambda>i. lm_wt m (word_of_nat (unat a + i))) [0..<n]"

text \<open>A quiet host port, and the vector command of the examples: three elements of a product.\<close>

definition quiet_host :: host_port where
  "quiet_host = \<lparr>host_addr = 0, host_wdata = 0, host_wr = False, host_req = False\<rparr>"

definition demo_vec :: vec_cmd_t where
  "demo_vec = \<lparr>v_a_addr = 0, v_out_addr = 0x40, v_b_addr = 0x10, v_length = 3, v_vec_op = True, v_quant_shift = 4,
     v_act_mode = 2\<rparr>"

section \<open>The arithmetic is the reference's\<close>

lemma sint_scast_mul: "sint (scast a * scast b :: u32) = sint a * sint b" for a b :: u8
proof -
  have "signed_take_bit 31 (sint a * sint b) = sint a * sint b"
    using abs_sint_i8_mult [of a b] by (intro signed_take_bit_int_eq_self) auto
  then show ?thesis by (simp add: sint_word_ariths sint_up_scast is_up)
qed

lemma sint_scast_add: "sint (scast a + scast b :: 9 word) = sint a + sint b" for a b :: u8
proof -
  have "signed_take_bit 8 (sint a + sint b) = sint a + sint b"
    using sint_i8 [of a] sint_i8 [of b] by (intro signed_take_bit_int_eq_self) auto
  then show ?thesis by (simp add: sint_word_ariths sint_up_scast is_up)
qed

text \<open>The saturating comparison of a wide signed word is the reference's clamp.\<close>

lemma saturate_word:
  fixes w :: "'a::len word"
  assumes "8 \<le> LENGTH('a)" and "sint (127 :: 'a word) = 127" and "sint (- 128 :: 'a word) = - 128"
  shows "(if 127 <s w then 127 else if w <s - 128 then 0x80 else ucast w) = ref_saturate (sint w)"
proof -
  have "ucast w = (word_of_int (sint w) :: i8)"
    using assms(1) by (intro bit_word_eqI) (simp add: bit_simps bit_sint_iff)
  moreover have "127 <s w \<longleftrightarrow> 127 < sint w" "w <s - 128 \<longleftrightarrow> sint w < - 128"
    using assms(2,3) by (simp_all only: word_sless_alt)
  ultimately show ?thesis by (simp add: ref_saturate_def Let_def)
qed

lemma saturate_words:
  "(if 127 <s v then 127 else if v <s - 128 then 0x80 else ucast v) = ref_saturate (sint (v :: 9 word))"
  "(if 127 <s w then 127 else if w <s - 128 then 0x80 else ucast w) = ref_saturate (sint (w :: u32))"
  by (rule saturate_word; simp)+

lemma vec_result_ref:
  "vec_result op q mode a b =
     (if \<not> op then ref_saturate (sint a + sint b) else requantized (unat q) (ucast mode) (sint a * sint b))"
proof -
  have m: "(ucast mode :: u32) = ACT_MODE_RELU \<longleftrightarrow> mode = ACT_RELU"
    "(ucast mode :: u32) = ACT_MODE_LEAKY_RELU \<longleftrightarrow> mode = ACT_LEAKY_RELU"
    using unsigned_less [of mode, where ?'a = nat]
    by (simp_all add: rtl_sem c_consts word_unat_eq_iff unsigned_ucast_eq take_bit_nat_eq_self)
  have i: "sint (if c then x else y) = (if c then sint x else sint y)" for c and x y :: u32 by simp
  show ?thesis
    unfolding vec_result_def Let_def saturate_words requantized_def ref_activate_def m
    by (simp add: sint_scast_add sint_signed_drop_bit_eq word_sless_alt sint_scast_mul i cong: if_cong)
qed

section \<open>One element in three clocks\<close>

lemmas vec_inputs_simps = vec_inputs_def be_act_rd_gnt_def be_act_wr_gnt_def be_act_rd_rvalid_def

lemma backend_read_step:
  assumes "\<not> bias_pending_r b" and "\<not> be_bias_req p" and "be_wt_req p" and "be_act_rd_req p"
  shows "be_wt_gnt p b" and "\<not> bias_pending_r (router_step h p b)"
    and "be_wt_rvalid (router_step h p b)" and "act_be_rd_accept_r (act_buf (router_step h p b))"
    and "be_wt_rdata (router_step h p b) = lm_wt (local_of b) (ucast (be_wt_addr p))"
    and "be_act_rdata (router_step h p b) = lm_act (local_of b) (ucast (be_act_rd_addr p))"
  using assms
  by (simp_all add: be_wt_gnt_def wt_be_req_def wt_issue_bias_def wt_be_addr_def be_wt_rvalid_def be_wt_rdata_def
      be_act_rdata_def router_simps)

lemma no_bias_step: "\<not> bias_pending_r b \<Longrightarrow> \<not> be_bias_req p \<Longrightarrow> \<not> bias_pending_r (router_step h p b)"
  by (simp add: router_simps wt_be_req_def wt_issue_bias_def)

lemma host_silent_step:
  "\<not> (host_req h \<and> host_wr h) \<Longrightarrow> local_of (router_step h p b) = be_store p (local_of b)"
  by (auto simp: local_of_step host_gnt_iff)

lemma vec_compute_Suc: "vec_compute c (Suc i) m = vec_element c i (vec_compute c i m)"
  by (simp add: vec_compute_def)

lemma element_read:
  assumes "vec_at_element c i v" and "\<not> bias_pending_r b"
  shows "fst (vec_tick cv cmd h (v, b)) = v\<lparr>vc_state := V_WAIT, a_gnt_r := True, b_gnt_r := True\<rparr>"
    and "\<not> bias_pending_r (snd (vec_tick cv cmd h (v, b)))"
    and "be_wt_rvalid (snd (vec_tick cv cmd h (v, b)))"
    and "act_be_rd_accept_r (act_buf (snd (vec_tick cv cmd h (v, b))))"
    and "be_wt_rdata (snd (vec_tick cv cmd h (v, b))) = lm_wt (local_of b) (ucast (v_b_addr c + word_of_nat i))"
    and "be_act_rdata (snd (vec_tick cv cmd h (v, b))) = lm_act (local_of b) (ucast (v_a_addr c + word_of_nat i))"
    and "\<not> (host_req h \<and> host_wr h) \<Longrightarrow> local_of (snd (vec_tick cv cmd h (v, b))) = local_of b"
proof -
  have p: "be_wt_req (vec_ports v)" "be_act_rd_req (vec_ports v)" "\<not> be_bias_req (vec_ports v)"
    "\<not> be_act_wr_req (vec_ports v)"
    using assms(1) by (simp_all add: vec_at_element_def vec_ports_def)
  note r = backend_read_step [OF assms(2) p(3,1,2)]
  show "fst (vec_tick cv cmd h (v, b)) = v\<lparr>vc_state := V_WAIT, a_gnt_r := True, b_gnt_r := True\<rparr>"
    using assms(1) p r(1) by (cases v) (simp add: vec_tick_def vec_ctrl_step_def vec_next_state_def vec_inputs_simps
        vec_at_element_def Let_def)
  show "\<not> bias_pending_r (snd (vec_tick cv cmd h (v, b)))" "be_wt_rvalid (snd (vec_tick cv cmd h (v, b)))"
    "act_be_rd_accept_r (act_buf (snd (vec_tick cv cmd h (v, b))))"
    using r by (simp_all add: vec_tick_def)
  show "be_wt_rdata (snd (vec_tick cv cmd h (v, b))) = lm_wt (local_of b) (ucast (v_b_addr c + word_of_nat i))"
    "be_act_rdata (snd (vec_tick cv cmd h (v, b))) = lm_act (local_of b) (ucast (v_a_addr c + word_of_nat i))"
    using r(5,6) assms(1) by (simp_all add: vec_tick_def) (simp_all add: vec_ports_def vec_at_element_def)
  show "local_of (snd (vec_tick cv cmd h (v, b))) = local_of b" if "\<not> (host_req h \<and> host_wr h)"
    using host_silent_step [OF that] p(4) by (simp add: vec_tick_def be_store_def)
qed

lemma element_wait:
  assumes "vc_state v = V_WAIT" and "be_wt_rvalid b" and "act_be_rd_accept_r (act_buf b)" and "\<not> bias_pending_r b"
    and "\<not> (host_req h \<and> host_wr h)"
  shows "fst (vec_tick cv cmd h (v, b)) = v\<lparr>vc_state := V_WRITE, a_val_r := True, b_val_r := True,
      a_data_r := be_act_rdata b, b_data_r := be_wt_rdata b\<rparr>"
    and "local_of (snd (vec_tick cv cmd h (v, b))) = local_of b" and "\<not> bias_pending_r (snd (vec_tick cv cmd h (v, b)))"
proof -
  show "fst (vec_tick cv cmd h (v, b)) = v\<lparr>vc_state := V_WRITE, a_val_r := True, b_val_r := True,
      a_data_r := be_act_rdata b, b_data_r := be_wt_rdata b\<rparr>"
    using assms(1-3) by (cases v) (simp add: vec_tick_def vec_ctrl_step_def vec_next_state_def vec_inputs_simps Let_def)
  show "local_of (snd (vec_tick cv cmd h (v, b))) = local_of b" "\<not> bias_pending_r (snd (vec_tick cv cmd h (v, b)))"
    using assms host_silent_step [OF assms(5), of "vec_ports v" b]
    by (simp_all add: vec_tick_def no_bias_step vec_ports_def be_store_def)
qed

lemma element_write:
  assumes "vc_state v = V_WRITE" and "\<not> bias_pending_r b" and "\<not> (host_req h \<and> host_wr h)"
  shows "fst (vec_tick cv cmd h (v, b)) = v\<lparr>vc_state := (if last_element v then V_DONE else V_READ), idx_r := idx_r v + 1,
      a_addr_r := a_addr_r v + 1, b_addr_r := b_addr_r v + 1, out_addr_r := out_addr_r v + 1,
      a_gnt_r := False, b_gnt_r := False, a_val_r := False, b_val_r := False\<rparr>"
    and "local_of (snd (vec_tick cv cmd h (v, b))) = (local_of b)\<lparr>lm_act := (lm_act (local_of b))(ucast (out_addr_r v) :=
      vec_result (vec_op_r v) (qshift_r v) (act_mode_r v) (a_data_r v) (b_data_r v))\<rparr>"
    and "\<not> bias_pending_r (snd (vec_tick cv cmd h (v, b)))"
proof -
  show "fst (vec_tick cv cmd h (v, b)) = v\<lparr>vc_state := (if last_element v then V_DONE else V_READ), idx_r := idx_r v + 1,
      a_addr_r := a_addr_r v + 1, b_addr_r := b_addr_r v + 1, out_addr_r := out_addr_r v + 1,
      a_gnt_r := False, b_gnt_r := False, a_val_r := False, b_val_r := False\<rparr>"
    using assms(1)
    by (cases v) (simp add: vec_tick_def vec_ctrl_step_def vec_next_state_def vec_inputs_simps vec_ports_def Let_def)
  show "local_of (snd (vec_tick cv cmd h (v, b))) = (local_of b)\<lparr>lm_act := (lm_act (local_of b))(ucast (out_addr_r v) :=
      vec_result (vec_op_r v) (qshift_r v) (act_mode_r v) (a_data_r v) (b_data_r v))\<rparr>"
    "\<not> bias_pending_r (snd (vec_tick cv cmd h (v, b)))"
    using assms host_silent_step [OF assms(3), of "vec_ports v" b]
    by (simp_all add: vec_tick_def no_bias_step vec_ports_def be_store_def)
qed

lemma last_element_iff:
  assumes "idx_r v = word_of_nat i" and "i < unat (length_r v)"
  shows "last_element v \<longleftrightarrow> Suc i = unat (length_r v)"
proof -
  have l: "unat (length_r v) < 65536" using unsigned_less [of "length_r v", where ?'a = nat] by simp
  have i: "i < 65536" using less_trans [OF assms(2) l] .
  have "(ucast (word_of_nat i :: u16) :: u32) = word_of_nat i"
    using i by (simp add: word_unat_eq_iff unsigned_ucast_eq unat_of_nat take_bit_nat_eq_self)
  moreover have "(ucast (length_r v) - 1 :: u32) = word_of_nat (unat (length_r v) - 1)"
    using assms(2) by (simp add: of_nat_diff)
  ultimately have "last_element v \<longleftrightarrow> (word_of_nat i :: u32) = word_of_nat (unat (length_r v) - 1)"
    by (simp only: last_element_def assms(1))
  also have "\<dots> \<longleftrightarrow> i = unat (length_r v) - 1"
    using i less_imp_diff_less [OF l, of 1] by (subst word_of_nat_eq_iff) (simp add: take_bit_nat_eq_self)
  finally show ?thesis using assms(2) by auto
qed

lemma vec_clocks_append: "vec_clocks cmd (xs @ ys) s = vec_clocks cmd ys (vec_clocks cmd xs s)"
  by (simp add: vec_clocks_def)

lemma vec_element_clocks:
  assumes "vec_running c m i s" and "i < unat (v_length c)"
    and "\<not> (host_req h1 \<and> host_wr h1)" and "\<not> (host_req h2 \<and> host_wr h2)" and "\<not> (host_req h3 \<and> host_wr h3)"
  shows "vec_running c m (Suc i) (vec_clocks cmd [h1, h2, h3] s)"
    and "vc_state (fst (vec_clocks cmd [h1] s)) = V_WAIT" and "vc_state (fst (vec_clocks cmd [h1, h2] s)) = V_WRITE"
proof -
  obtain v b where s: "s = (v, b)" by fastforce
  have v: "vec_at_element c i v" and nb: "\<not> bias_pending_r b" and m: "local_of b = vec_compute c i m"
    using assms(1,2) by (simp_all add: vec_running_def s)
  let ?s1 = "vec_tick False cmd h1 (v, b)"
  let ?s2 = "vec_tick False cmd h2 ?s1"
  note r = element_read [OF v nb, where cv = False and cmd = cmd and h = h1]
  have w: "fst ?s2 = v\<lparr>vc_state := V_WRITE, a_gnt_r := True, b_gnt_r := True, a_val_r := True, b_val_r := True,
      a_data_r := lm_act (local_of b) (ucast (v_a_addr c + word_of_nat i)),
      b_data_r := lm_wt (local_of b) (ucast (v_b_addr c + word_of_nat i))\<rparr>"
    "local_of (snd ?s2) = local_of b" "\<not> bias_pending_r (snd ?s2)"
    using element_wait [of "fst ?s1" "snd ?s1" h2 False cmd] r assms(3,4) by (cases v, simp)+
  have st: "vc_state (fst ?s2) = V_WRITE" by (simp add: w(1))
  note e = element_write [OF st w(3) assms(5), of False cmd, unfolded prod.collapse]
  have last: "last_element (fst ?s2) \<longleftrightarrow> Suc i = unat (v_length c)"
    using last_element_iff [of "fst ?s2" i] v assms(2) by (simp add: w(1) vec_at_element_def)
  have "local_of (snd (vec_tick False cmd h3 ?s2)) = vec_compute c (Suc i) m"
    using v unfolding e(2) w(1,2) m by (simp add: vec_compute_Suc vec_element_def vec_at_element_def)
  moreover have "vec_at_element c (Suc i) (fst (vec_tick False cmd h3 ?s2))" if "Suc i < unat (v_length c)"
    using v that last unfolding e(1) w(1) by (simp add: vec_at_element_def add_ac)
  moreover have "vc_state (fst (vec_tick False cmd h3 ?s2)) = V_DONE" if "\<not> Suc i < unat (v_length c)"
    using that last assms(2) unfolding e(1) by simp
  ultimately show "vec_running c m (Suc i) (vec_clocks cmd [h1, h2, h3] s)"
    using e(3) by (simp add: s vec_clocks_def vec_running_def)
  show "vc_state (fst (vec_clocks cmd [h1] s)) = V_WAIT" "vc_state (fst (vec_clocks cmd [h1, h2] s)) = V_WRITE"
    using r(1) w(1) by (simp_all add: s vec_clocks_def)
qed

lemma vec_run_clocks:
  assumes "vec_running c m 0 s" and "i \<le> unat (v_length c)" and "length hs = 3 * i"
    and "\<forall>h \<in> set hs. \<not> (host_req h \<and> host_wr h)"
  shows "vec_running c m i (vec_clocks cmd hs s)"
  using assms(2-4)
proof (induction i arbitrary: hs)
  case 0
  then show ?case using assms(1) by (simp add: vec_clocks_def)
next
  case (Suc i)
  define ys where "ys = drop (3 * i) hs"
  have "length ys = 3" using Suc.prems(2) by (simp add: ys_def)
  then obtain h1 h2 h3 where ys: "ys = [h1, h2, h3]" by (auto simp: numeral_3_eq_3 length_Suc_conv)
  have hs: "hs = take (3 * i) hs @ ys" by (simp add: ys_def)
  have "set ys \<subseteq> set hs" by (simp add: ys_def set_drop_subset)
  then have q: "\<not> (host_req h \<and> host_wr h)" if "h \<in> {h1, h2, h3}" for h using Suc.prems(3) that by (auto simp: ys)
  have "vec_running c m i (vec_clocks cmd (take (3 * i) hs) s)"
    using Suc.prems by (intro Suc.IH) (auto dest: in_set_takeD)
  from vec_element_clocks(1) [OF this, of h1 h2 h3] Suc.prems(1) q show ?case
    by (subst hs) (simp add: vec_clocks_append ys)
qed

text \<open>From the clock that accepts the command to the loop head.\<close>

lemma vec_loads:
  assumes "vc_state v = V_LOAD_CFG" and "vec_latched c v" and "\<not> bias_pending_r b" and "0 < unat (v_length c)"
    and "\<not> (host_req h \<and> host_wr h)"
  shows "vec_running c (local_of b) 0 (vec_tick cv cmd h (v, b))"
proof -
  let ?s = "vec_tick cv cmd h (v, b)"
  have "vec_at_element c 0 (fst ?s)"
    using assms(1,2)
    by (simp add: vec_tick_def vec_ctrl_step_def vec_next_state_def vec_at_element_def vec_latched_def Let_def)
  moreover have "local_of (snd ?s) = local_of b" "\<not> bias_pending_r (snd ?s)"
    using assms(1,3) host_silent_step [OF assms(5), of "vec_ports v" b]
    by (simp_all add: vec_tick_def no_bias_step vec_ports_def be_store_def)
  ultimately show ?thesis using assms(4) by (simp add: vec_running_def vec_compute_def)
qed

lemma vec_latches:
  assumes "vc_state v = V_IDLE"
  shows "vc_state (vec_ctrl_step True c i v) = V_LOAD_CFG" "vec_latched c (vec_ctrl_step True c i v)"
  using assms by (simp_all add: vec_ctrl_step_def vec_next_state_def vec_latched_def Let_def)

lemma vec_accepts:
  assumes "vc_state v = V_IDLE" and "\<not> bias_pending_r b" and "0 < unat (v_length c)"
    and "\<not> (host_req h0 \<and> host_wr h0)" and "\<not> (host_req h1 \<and> host_wr h1)"
  shows "vec_running c (local_of b) 0 (vec_clocks cmd [h1] (vec_tick True c h0 (v, b)))"
proof -
  obtain v1 b1 where p: "vec_tick True c h0 (v, b) = (v1, b1)" by fastforce
  then have "v1 = vec_ctrl_step True c (vec_inputs (vec_ports v) b) v" by (simp add: vec_tick_def)
  then have v1: "vc_state v1 = V_LOAD_CFG" "vec_latched c v1" using vec_latches [OF assms(1)] by simp_all
  have b1: "local_of b1 = local_of b" "\<not> bias_pending_r b1"
    using assms(1,2) p host_silent_step [OF assms(4), of "vec_ports v" b]
    by (auto simp: vec_tick_def no_bias_step vec_ports_def be_store_def)
  from vec_loads [OF v1 b1(2) assms(3,5), of False cmd] show ?thesis by (simp add: p b1(1) vec_clocks_def)
qed

text \<open>The unit stays busy until the clock after its last element.\<close>

lemma vec_busy_clocks:
  assumes "vec_running c m 0 s" and "length hs \<le> 3 * unat (v_length c)" and "\<forall>h \<in> set hs. \<not> (host_req h \<and> host_wr h)"
  shows "vc_state (fst (vec_clocks cmd hs s)) \<noteq> V_IDLE"
    and "length hs < 3 * unat (v_length c) \<Longrightarrow> vc_state (fst (vec_clocks cmd hs s)) \<noteq> V_DONE"
proof -
  define i where "i = length hs div 3"
  define xs where "xs = take (3 * i) hs"
  define ys where "ys = drop (3 * i) hs"
  define u where "u = vec_clocks cmd xs s"
  have d: "3 * i \<le> length hs" "length hs - 3 * i < 3" unfolding i_def by presburger+
  then have len: "length xs = 3 * i" "length ys < 3" by (simp_all add: xs_def ys_def)
  have sub: "set xs \<subseteq> set hs" "set ys \<subseteq> set hs" by (simp_all add: xs_def ys_def set_take_subset set_drop_subset)
  have i: "i \<le> unat (v_length c)" using d(1) assms(2) by linarith
  have u: "vec_running c m i u"
    unfolding u_def using assms(3) sub(1) by (intro vec_run_clocks [OF assms(1) i len(1)]) auto
  have split: "vec_clocks cmd hs s = vec_clocks cmd ys u" by (simp add: u_def xs_def ys_def flip: vec_clocks_append)
  have "vc_state (fst (vec_clocks cmd ys u)) \<in> {V_READ, V_WAIT, V_WRITE}" if "i < unat (v_length c)"
  proof -
    consider "ys = []" | (one) h1 where "ys = [h1]" | (two) h1 h2 where "ys = [h1, h2]"
      using len(2) by (cases ys; cases "tl ys"; cases "tl (tl ys)") auto
    then show ?thesis
    proof cases
      case one
      with vec_element_clocks(2) [OF u that, of h1 h1 h1 cmd] sub(2) assms(3) show ?thesis by auto
    next
      case two
      with vec_element_clocks(3) [OF u that, of h1 h2 h2 cmd] sub(2) assms(3) show ?thesis by auto
    qed (use u that in \<open>simp add: vec_running_def vec_at_element_def vec_clocks_def\<close>)
  qed
  moreover have "vc_state (fst (vec_clocks cmd ys u)) = V_DONE" if "i = unat (v_length c)"
  proof -
    have "ys = []" using that d(1) assms(2) by (simp add: ys_def)
    then show ?thesis using u that by (simp add: vec_running_def vec_clocks_def)
  qed
  ultimately show "vc_state (fst (vec_clocks cmd hs s)) \<noteq> V_IDLE" using i unfolding split by (cases "i = unat (v_length c)") auto
  show "vc_state (fst (vec_clocks cmd hs s)) \<noteq> V_DONE" if "length hs < 3 * unat (v_length c)"
  proof -
    have "i < unat (v_length c)" using d(1) that by linarith
    then show ?thesis using \<open>i < unat (v_length c) \<Longrightarrow> vc_state (fst (vec_clocks cmd ys u)) \<in> {V_READ, V_WAIT, V_WRITE}\<close>
      unfolding split by auto
  qed
qed

section \<open>What the memory holds afterwards\<close>

lemma bank_addr:
  assumes "unat (x :: u16) + n \<le> 2 ^ LENGTH('a)" and "i < n" and "2 ^ LENGTH('a) \<le> (65536 :: nat)"
  shows "(ucast (x + word_of_nat i) :: 'a::len word) = word_of_nat (unat x + i)"
proof -
  have "unat x + i < 65536" using assms by linarith
  then have "unat (x + word_of_nat i) = unat x + i" by (simp add: unat_word_ariths unat_of_nat)
  then show ?thesis by (metis of_nat_unat)
qed

lemma bank_addr_eq:
  assumes "i < 2 ^ LENGTH('a)" and "j < 2 ^ LENGTH('a)"
  shows "(word_of_nat i :: 'a::len word) = word_of_nat j \<longleftrightarrow> i = j"
  using assms by (simp add: word_of_nat_eq_iff take_bit_nat_eq_self)

lemma vec_compute_spec:
  assumes "vec_ranges c" and "k \<le> unat (v_length c)"
  shows "lm_wt (vec_compute c k m) = lm_wt m"
    and "k \<le> j \<Longrightarrow> j < unat (v_length c) \<Longrightarrow>
      lm_act (vec_compute c k m) (word_of_nat (unat (v_a_addr c) + j)) = lm_act m (word_of_nat (unat (v_a_addr c) + j))"
    and "j < k \<Longrightarrow> lm_act (vec_compute c k m) (word_of_nat (unat (v_out_addr c) + j)) =
      vec_result (v_vec_op c) (v_quant_shift c) (v_act_mode c) (lm_act m (word_of_nat (unat (v_a_addr c) + j)))
        (lm_wt m (word_of_nat (unat (v_b_addr c) + j)))"
  using assms(2)
proof (induction k arbitrary: j)
  case 0
  { case 1 show ?case by (simp add: vec_compute_def) }
  { case 2 show ?case by (simp add: vec_compute_def) }
  { case 3 then show ?case by simp }
next
  case (Suc k)
  let ?n = "unat (v_length c)"
  let ?m = "vec_compute c k m"
  have r: "unat (v_a_addr c) + ?n \<le> 8192" "unat (v_out_addr c) + ?n \<le> 8192" "unat (v_b_addr c) + ?n \<le> 4096"
    "unat (v_out_addr c) \<le> unat (v_a_addr c) \<or> unat (v_a_addr c) + ?n \<le> unat (v_out_addr c)"
    using assms(1) by (simp_all add: vec_ranges_def Let_def)
  have k: "k < ?n" if "Suc k \<le> ?n" using that by simp
  have step: "vec_compute c (Suc k) m = ?m\<lparr>lm_act := (lm_act ?m)(word_of_nat (unat (v_out_addr c) + k) :=
      vec_result (v_vec_op c) (v_quant_shift c) (v_act_mode c) (lm_act ?m (word_of_nat (unat (v_a_addr c) + k)))
        (lm_wt ?m (word_of_nat (unat (v_b_addr c) + k))))\<rparr>" if "Suc k \<le> ?n"
    using r k [OF that] bank_addr [of "v_out_addr c" ?n k, where ?'a = 13] bank_addr [of "v_a_addr c" ?n k, where ?'a = 13]
      bank_addr [of "v_b_addr c" ?n k, where ?'a = 12]
    by (simp add: vec_compute_Suc vec_element_def)
  have ne: "(word_of_nat (unat (v_out_addr c) + k) :: 13 word) = word_of_nat x \<longleftrightarrow> unat (v_out_addr c) + k = x"
    if "x < 8192" "Suc k \<le> ?n" for x
    using r that by (intro bank_addr_eq) simp_all
  { case 1 then show ?case using Suc.IH(1) by (simp add: step) }
  { case 2
    then have "unat (v_out_addr c) + k \<noteq> unat (v_a_addr c) + j" using r by linarith
    with 2 Suc.IH(2) [of j] r ne [of "unat (v_a_addr c) + j"] show ?case by (simp add: step) }
  { case 3
    then show ?case
      using Suc.IH(1) Suc.IH(3) [of j] Suc.IH(2) [of k] r ne [of "unat (v_out_addr c) + j"]
      by (cases "j = k") (auto simp: step) }
qed

lemma vec_compute_other:
  assumes "\<And>i. i < k \<Longrightarrow> x \<noteq> ucast (v_out_addr c + word_of_nat i)"
  shows "lm_act (vec_compute c k m) x = lm_act m x"
  using assms
proof (induction k)
  case (Suc k)
  then show ?case by (simp add: vec_compute_Suc vec_element_def)
qed (simp add: vec_compute_def)

lemma vec_compute_ref:
  assumes "vec_ranges c"
  defines "n \<equiv> unat (v_length c)"
  shows "ref_vec (act_bytes m (v_a_addr c) n) (wt_bytes m (v_b_addr c) n) (int n) (of_bool (v_vec_op c))
      (int (unat (v_quant_shift c))) (ucast (v_act_mode c)) =
    Some (act_bytes (vec_compute c n m) (v_out_addr c) n)"
proof -
  have q: "unat (v_quant_shift c) < 32" using unsigned_less [of "v_quant_shift c", where ?'a = nat] by simp
  have "ref_vec (act_bytes m (v_a_addr c) n) (wt_bytes m (v_b_addr c) n) (int n) (of_bool (v_vec_op c))
      (int (unat (v_quant_shift c))) (ucast (v_act_mode c)) =
    Some (map (\<lambda>i. if of_bool (v_vec_op c) = (0 :: u32)
        then ref_saturate (sint (act_bytes m (v_a_addr c) n ! i) + sint (wt_bytes m (v_b_addr c) n ! i))
        else requantized (unat (v_quant_shift c)) (ucast (v_act_mode c))
          (sint (act_bytes m (v_a_addr c) n ! i) * sint (wt_bytes m (v_b_addr c) n ! i))) [0..<n])"
    by (rule ref_vec_correct) (simp_all add: act_bytes_def wt_bytes_def q)
  also have "\<dots> = Some (act_bytes (vec_compute c n m) (v_out_addr c) n)"
    using vec_compute_spec(3) [OF assms(1) le_refl, of _ m]
    by (auto simp: n_def act_bytes_def wt_bytes_def vec_result_ref)
  finally show ?thesis .
qed

lemma vec_whole_run:
  assumes "vc_state v = V_IDLE" and "\<not> bias_pending_r b" and "0 < unat (v_length c)"
    and "length hs = 1 + 3 * unat (v_length c)" and "\<forall>h \<in> set (h0 # hs). \<not> (host_req h \<and> host_wr h)"
  shows "vec_running c (local_of b) (unat (v_length c)) (vec_clocks cmd hs (vec_tick True c h0 (v, b)))"
proof -
  obtain h1 hs' where hs: "hs = h1 # hs'" using assms(4) by (cases hs) auto
  have "vec_running c (local_of b) 0 (vec_clocks cmd [h1] (vec_tick True c h0 (v, b)))"
    using assms by (intro vec_accepts) (auto simp: hs)
  from vec_run_clocks [OF this le_refl, of hs' cmd] assms(4,5) show ?thesis
    by (simp add: hs vec_clocks_def)
qed

section \<open>Properties\<close>

text \<open>C13: The vector unit computes the bench's reference function.  From idle, with operands inside the banks
  and an output range that does not overwrite operands still to be read, a command of length n > 0
  is done 3 n + 1 clocks after the clock that accepts it; the n output bytes are then \<open>ref_vec\<close> of the
  n activation and n weight bytes the command names, for both operations and every shift and
  activation mode, and every other byte of both banks is unchanged.  The host may read meanwhile.\<close>

theorem vec_unit_computes_ref_vec:
  assumes "vc_state v = V_IDLE" and "\<not> bias_pending_r b" and "n = unat (v_length c)" and "0 < n" and "vec_ranges c"
    and "length hs = 1 + 3 * n" and "\<forall>h \<in> set (h0 # hs). \<not> (host_req h \<and> host_wr h)"
    and "(v', b') = vec_clocks cmd hs (vec_tick True c h0 (v, b))"
  shows "vec_done v' \<and>
    ref_vec (act_bytes (local_of b) (v_a_addr c) n) (wt_bytes (local_of b) (v_b_addr c) n) (int n)
      (of_bool (v_vec_op c)) (int (unat (v_quant_shift c))) (ucast (v_act_mode c)) =
      Some (act_bytes (local_of b') (v_out_addr c) n) \<and>
    lm_wt (local_of b') = lm_wt (local_of b) \<and>
    (\<forall>x. (\<forall>i < n. x \<noteq> ucast (v_out_addr c + word_of_nat i)) \<longrightarrow> lm_act (local_of b') x = lm_act (local_of b) x)"
proof -
  have "vec_running c (local_of b) (unat (v_length c)) (vec_clocks cmd hs (vec_tick True c h0 (v, b)))"
    using assms by (intro vec_whole_run) simp_all
  then have r: "vec_running c (local_of b) n (v', b')" by (simp add: assms(3) flip: assms(8))
  then have m: "local_of b' = vec_compute c n (local_of b)" and d: "vc_state v' = V_DONE"
    by (simp_all add: vec_running_def assms(3))
  show ?thesis
    using d vec_compute_ref [OF assms(5), of "local_of b"] vec_compute_spec(1) [OF assms(5) le_refl, of "local_of b"]
      vec_compute_other [of n _ c "local_of b"]
    by (auto simp: m vec_done_def assms(3))
qed

theorem vec_unit_computes_ref_vec_witness:
  "\<exists>v' b'. (v', b') = vec_clocks demo_vec (replicate 10 quiet_host)
      (vec_tick True demo_vec quiet_host (vec_reset, reset_buffers)) \<and> vec_done v' \<and>
    ref_vec (act_bytes (local_of reset_buffers) 0 3) (wt_bytes (local_of reset_buffers) 0x10 3) 3 1 4 2 =
      Some (act_bytes (local_of b') 0x40 3)"
proof -
  obtain v' b' where t: "(v', b') = vec_clocks demo_vec (replicate 10 quiet_host)
      (vec_tick True demo_vec quiet_host (vec_reset, reset_buffers))"
    by (metis surj_pair)
  have "vec_done v' \<and> ref_vec (act_bytes (local_of reset_buffers) (v_a_addr demo_vec) 3)
      (wt_bytes (local_of reset_buffers) (v_b_addr demo_vec) 3) (int 3) (of_bool (v_vec_op demo_vec))
      (int (unat (v_quant_shift demo_vec))) (ucast (v_act_mode demo_vec)) =
      Some (act_bytes (local_of b') (v_out_addr demo_vec) 3)"
    using vec_unit_computes_ref_vec [OF _ _ _ _ _ _ _ t, of 3]
    by (simp add: vec_reset_def reset_buffers_def demo_vec_def vec_ranges_def quiet_host_def)
  with t show ?thesis by (auto simp: demo_vec_def)
qed

text \<open>A vector command of length zero never ends.  The end test compares the index with the length minus one
  on 32 bits, so it never holds: whatever the memory answers and whatever is offered, the unit stays
  busy and never signals done.  The reference function returns an empty result.\<close>

theorem vec_zero_length_hangs:
  assumes "vc_state v = V_IDLE" and "v_length c = 0"
  shows "let v' = fold (\<lambda>(cmd_valid, cmd, i). vec_ctrl_step cmd_valid cmd i) ins (vec_ctrl_step True c i0 v)
    in vec_busy v' \<and> \<not> vec_done v' \<and> ref_vec [] [] (int (unat (v_length c))) op q mode = Some []"
proof -
  let ?run = "fold (\<lambda>(cmd_valid, cmd, i). vec_ctrl_step cmd_valid cmd i)"
  have step: "vc_state (vec_ctrl_step cv cmd i u) \<notin> {V_IDLE, V_DONE} \<and> length_r (vec_ctrl_step cv cmd i u) = 0"
    if "vc_state u \<notin> {V_IDLE, V_DONE}" "length_r u = 0" for cv cmd i u
  proof -
    have "\<not> bit (ucast (idx_r u) :: u32) 31" by (auto simp: bit_simps dest: bit_imp_le_length)
    moreover have "bit (- 1 :: u32) 31" by simp
    ultimately have "(ucast (idx_r u) :: u32) \<noteq> - 1" by metis
    then have "\<not> last_element u" using that(2) by (simp add: last_element_def)
    then have "vec_next_state cv i u \<notin> {V_IDLE, V_DONE}"
      using that(1) by (cases "vc_state u") (simp_all add: vec_next_state_def)
    with that show ?thesis by (simp add: vec_ctrl_step_def Let_def)
  qed
  have "vc_state (?run ins u) \<notin> {V_IDLE, V_DONE}" if "vc_state u \<notin> {V_IDLE, V_DONE}" "length_r u = 0" for u
    using that
  proof (induction ins arbitrary: u)
    case (Cons x ins)
    then show ?case using step by (cases x) auto
  qed simp
  moreover have "vc_state (vec_ctrl_step True c i0 v) \<notin> {V_IDLE, V_DONE}" "length_r (vec_ctrl_step True c i0 v) = 0"
    using assms by (simp_all add: vec_ctrl_step_def vec_next_state_def Let_def)
  ultimately show ?thesis
    using assms(2) by (simp add: Let_def vec_busy_def vec_done_def ref_vec_def vec_new_def for_int_def)
qed

theorem vec_zero_length_hangs_witness:
  "\<forall>ins i0. vec_busy (fold (\<lambda>(cmd_valid, cmd, i). vec_ctrl_step cmd_valid cmd i) ins
      (vec_ctrl_step True (demo_vec\<lparr>v_length := 0\<rparr>) i0 vec_reset))"
  using vec_zero_length_hangs [of vec_reset "demo_vec\<lparr>v_length := 0\<rparr>"] by (simp add: Let_def vec_reset_def)

end
