(* ===== verification/Npu_Dma.thy ===== *)
theory Npu_Dma
  imports Npu_Buffers Npu_Bench
begin

text \<open>
  The DMA engines (\<open>npu_dma_reader.sv\<close>, \<open>npu_dma_writer.sv\<close>), their frontend
  (\<open>npu_dma_frontend.sv\<close>) and the shell's multiplexer onto the buffer port, clock by clock, between
  the local memory of \<open>Npu_Buffers\<close> and the external memory of the bench.
\<close>

section \<open>Read engine: external memory to local memory\<close>

datatype rd_state = R_IDLE | R_EXT_RD | R_EXT_WAIT | R_LOC_WR | R_DONE

datatype wr_state = W_IDLE | W_LOC_RD | W_LOC_WAIT | W_EXT_WR | W_DONE

record 'st engine =
  eng_state :: 'st
  ext_addr_r :: u32
  loc_addr_r :: "20 word"
  len_r :: u16
  cnt_r :: u16
  data_r :: u32

text \<open>The configuration the register block holds, and the start pulse.\<close>

record dma_cfg =
  cfg_ext_addr :: u32
  cfg_loc_addr :: "20 word"
  cfg_len :: u16
  cfg_dir :: bool

definition dma_reader_step :: "bool \<Rightarrow> dma_cfg \<Rightarrow> ext_rsp \<Rightarrow> bool \<Rightarrow> rd_state engine \<Rightarrow> rd_state engine" where
  "dma_reader_step start cfg rsp buf_gnt e = (case eng_state e of
     R_IDLE \<Rightarrow> (if start then e\<lparr>eng_state := R_EXT_RD, ext_addr_r := cfg_ext_addr cfg,
        loc_addr_r := cfg_loc_addr cfg, len_r := cfg_len cfg, cnt_r := 0\<rparr> else e)
   | R_EXT_RD \<Rightarrow> (if ext_mem_gnt rsp then e\<lparr>eng_state := R_EXT_WAIT\<rparr> else e)
   | R_EXT_WAIT \<Rightarrow> (if ext_mem_rvalid rsp then e\<lparr>eng_state := R_LOC_WR, data_r := ext_mem_rdata rsp\<rparr> else e)
   | R_LOC_WR \<Rightarrow> (if buf_gnt then e\<lparr>eng_state := (if len_r e \<le> cnt_r e + 1 then R_DONE else R_EXT_RD),
        cnt_r := cnt_r e + 1, ext_addr_r := ext_addr_r e + 1, loc_addr_r := loc_addr_r e + 1\<rparr> else e)
   | R_DONE \<Rightarrow> e\<lparr>eng_state := R_IDLE\<rparr>)"

definition reader_busy :: "rd_state engine \<Rightarrow> bool" where
  "reader_busy e = (eng_state e \<in> {R_EXT_RD, R_EXT_WAIT, R_LOC_WR})"

definition reader_done :: "rd_state engine \<Rightarrow> bool" where
  "reader_done e = (eng_state e = R_DONE)"

text \<open>The comparison \<open>cnt_r + 16'd1 >= len_r\<close> is on sixteen bits.\<close>

section \<open>Write engine: local memory to external memory\<close>

definition dma_writer_step ::
  "bool \<Rightarrow> dma_cfg \<Rightarrow> ext_rsp \<Rightarrow> bool \<Rightarrow> bool \<Rightarrow> u32 \<Rightarrow> wr_state engine \<Rightarrow> wr_state engine" where
  "dma_writer_step start cfg rsp buf_gnt buf_rvalid buf_rdata e = (case eng_state e of
     W_IDLE \<Rightarrow> (if start then e\<lparr>eng_state := W_LOC_RD, ext_addr_r := cfg_ext_addr cfg,
        loc_addr_r := cfg_loc_addr cfg, len_r := cfg_len cfg, cnt_r := 0\<rparr> else e)
   | W_LOC_RD \<Rightarrow> (if buf_gnt then e\<lparr>eng_state := W_LOC_WAIT\<rparr> else e)
   | W_LOC_WAIT \<Rightarrow> (if buf_rvalid then e\<lparr>eng_state := W_EXT_WR, data_r := buf_rdata\<rparr> else e)
   | W_EXT_WR \<Rightarrow> (if ext_mem_gnt rsp then e\<lparr>eng_state := (if len_r e \<le> cnt_r e + 1 then W_DONE else W_LOC_RD),
        cnt_r := cnt_r e + 1, ext_addr_r := ext_addr_r e + 1, loc_addr_r := loc_addr_r e + 1\<rparr> else e)
   | W_DONE \<Rightarrow> e\<lparr>eng_state := W_IDLE\<rparr>)"

definition writer_busy :: "wr_state engine \<Rightarrow> bool" where
  "writer_busy e = (eng_state e \<in> {W_LOC_RD, W_LOC_WAIT, W_EXT_WR})"

definition writer_done :: "wr_state engine \<Rightarrow> bool" where
  "writer_done e = (eng_state e = W_DONE)"

section \<open>Frontend and buffer multiplexer\<close>

record frontend =
  reader :: "rd_state engine"
  writer :: "wr_state engine"

definition dma_busy :: "frontend \<Rightarrow> bool" where
  "dma_busy f = (reader_busy (reader f) \<or> writer_busy (writer f))"

definition dma_done :: "frontend \<Rightarrow> bool" where
  "dma_done f = (reader_done (reader f) \<or> writer_done (writer f))"

text \<open>The external memory port: an engine drives its address, data and request only in the state that
  uses them.\<close>

definition dma_ext_port :: "frontend \<Rightarrow> ext_req" where
  "dma_ext_port f =
     (let r = reader f; w = writer f;
          rd_req = (eng_state r = R_EXT_RD); rd_addr = (if rd_req then ext_addr_r r else 0);
          wr_req = (eng_state w = W_EXT_WR); wr_addr = (if wr_req then ext_addr_r w else 0);
          wr_data = (if wr_req then data_r w else 0)
      in \<lparr>ext_mem_req = (if reader_busy r then rd_req else wr_req),
          ext_mem_wr = (if writer_busy w then wr_req else False),
          ext_mem_addr = (if reader_busy r then rd_addr else wr_addr),
          ext_mem_wdata = (if writer_busy w then wr_data else 0)\<rparr>)"

definition dma_buf_port :: "frontend \<Rightarrow> host_port" where
  "dma_buf_port f =
     (let r = reader f; w = writer f;
          rd_wr = (eng_state r = R_LOC_WR); rd_addr = (if rd_wr then loc_addr_r r else 0);
          wr_rd = (eng_state w = W_LOC_RD); wr_addr = (if wr_rd then loc_addr_r w else 0)
      in \<lparr>host_addr = (if reader_busy r then rd_addr else wr_addr),
          host_wdata = (if rd_wr then data_r r else 0),
          host_wr = rd_wr,
          host_req = (rd_wr \<or> wr_rd)\<rparr>)"

definition dma_frontend_step ::
  "bool \<Rightarrow> dma_cfg \<Rightarrow> ext_rsp \<Rightarrow> bool \<Rightarrow> bool \<Rightarrow> u32 \<Rightarrow> frontend \<Rightarrow> frontend" where
  "dma_frontend_step start cfg rsp buf_gnt buf_rvalid buf_rdata f =
     \<lparr>reader = dma_reader_step (start \<and> \<not> cfg_dir cfg) cfg rsp buf_gnt (reader f),
      writer = dma_writer_step (start \<and> cfg_dir cfg) cfg rsp buf_gnt buf_rvalid buf_rdata (writer f)\<rparr>"

text \<open>The DMA subsystem with both memories.  The shell gives the buffer port to the DMA while it is
  busy and to the host otherwise; the bench answers the external port before the clock edge.\<close>

record dma_sys =
  ds_dma :: frontend
  ds_bufs :: buffers
  ds_ext :: ext_mem

definition shell_buf_port :: "host_port \<Rightarrow> frontend \<Rightarrow> host_port" where
  "shell_buf_port h f = (if dma_busy f then dma_buf_port f else h)"

definition dma_tick :: "bool \<Rightarrow> dma_cfg \<Rightarrow> host_port \<Rightarrow> be_ports \<Rightarrow> dma_sys \<Rightarrow> dma_sys" where
  "dma_tick start cfg h p s =
     (let (rsp, ext') = update_ext_mem (dma_ext_port (ds_dma s)) (ds_ext s);
          port = shell_buf_port h (ds_dma s)
      in \<lparr>ds_dma = dma_frontend_step start cfg rsp (host_gnt port p) (host_rvalid (ds_bufs s))
            (host_rdata (ds_bufs s)) (ds_dma s),
          ds_bufs = router_step port p (ds_bufs s),
          ds_ext = ext'\<rparr>)"

section \<open>What a transfer does\<close>

text \<open>The bytes a transfer moves, in order, and the number of them: a length of zero moves one.\<close>

definition xfer_len :: "u16 \<Rightarrow> nat" where
  "xfer_len n = max 1 (unat n)"

definition copy_in :: "u32 \<Rightarrow> 20 word \<Rightarrow> ext_mem \<Rightarrow> nat \<Rightarrow> local_mem \<Rightarrow> local_mem" where
  "copy_in ea la x n = fold (\<lambda>i. local_store (la + word_of_nat i) (ext_load (ea + word_of_nat i) x)) [0..<n]"

definition copy_out :: "u32 \<Rightarrow> 20 word \<Rightarrow> local_mem \<Rightarrow> nat \<Rightarrow> ext_mem \<Rightarrow> ext_mem" where
  "copy_out ea la m n = fold (\<lambda>i. ext_store (ea + word_of_nat i) (local_load (la + word_of_nat i) m)) [0..<n]"

text \<open>The DMA is at rest when both engines are idle and no external read is outstanding.\<close>

definition dma_rest :: "dma_sys \<Rightarrow> bool" where
  "dma_rest s = (eng_state (reader (ds_dma s)) = R_IDLE \<and> eng_state (writer (ds_dma s)) = W_IDLE \<and>
     \<not> ext_rd_pending (ds_ext s))"

text \<open>A request and the clocks that follow, in each of which the host and the backends may request
  whatever they like.\<close>

definition dma_clocks :: "dma_cfg \<Rightarrow> (host_port \<times> be_ports) list \<Rightarrow> dma_sys \<Rightarrow> dma_sys" where
  "dma_clocks cfg = fold (\<lambda>(h, p). dma_tick False cfg h p)"

definition dma_request :: "dma_cfg \<Rightarrow> host_port \<times> be_ports \<Rightarrow> (host_port \<times> be_ports) list \<Rightarrow> dma_sys \<Rightarrow> dma_sys"
  where
  "dma_request cfg first ins s = dma_clocks cfg ins (dma_tick True cfg (fst first) (snd first) s)"

text \<open>A state in which one engine is at a given point and the other is idle, with the memories and the
  outstanding external read or local read data.\<close>

definition ext_at :: "u32 option \<Rightarrow> ext_mem \<Rightarrow> dma_sys \<Rightarrow> bool" where
  "ext_at pend x s = (ext_memory (ds_ext s) = ext_memory x \<and>
     (case pend of None \<Rightarrow> \<not> ext_rd_pending (ds_ext s)
      | Some a \<Rightarrow> ext_rd_pending (ds_ext s) \<and> ext_rd_addr_pending (ds_ext s) = a))"

definition rd_at :: "rd_state engine \<Rightarrow> u32 option \<Rightarrow> ext_mem \<Rightarrow> local_mem \<Rightarrow> dma_sys \<Rightarrow> bool" where
  "rd_at e pend x m s = (reader (ds_dma s) = e \<and> eng_state (writer (ds_dma s)) = W_IDLE \<and> ext_at pend x s \<and>
     local_of (ds_bufs s) = m)"

definition wr_at :: "wr_state engine \<Rightarrow> u32 option \<Rightarrow> ext_mem \<Rightarrow> local_mem \<Rightarrow> dma_sys \<Rightarrow> bool" where
  "wr_at e rd x m s = (writer (ds_dma s) = e \<and> eng_state (reader (ds_dma s)) = R_IDLE \<and> ext_at None x s \<and>
     local_of (ds_bufs s) = m \<and>
     (case rd of None \<Rightarrow> True | Some v \<Rightarrow> host_rvalid (ds_bufs s) \<and> host_rdata (ds_bufs s) = v))"

text \<open>The loop invariants: \<open>i\<close> bytes have been moved and the next one is about to be requested.\<close>

definition engine_at :: "'st \<Rightarrow> 'st \<Rightarrow> dma_cfg \<Rightarrow> nat \<Rightarrow> 'st engine \<Rightarrow> bool" where
  "engine_at next_st done_st cfg i e =
     (eng_state e = (if i < xfer_len (cfg_len cfg) then next_st else done_st) \<and>
      ext_addr_r e = cfg_ext_addr cfg + word_of_nat i \<and> loc_addr_r e = cfg_loc_addr cfg + word_of_nat i \<and>
      len_r e = cfg_len cfg \<and> cnt_r e = word_of_nat i)"

definition reading :: "dma_cfg \<Rightarrow> ext_mem \<Rightarrow> local_mem \<Rightarrow> nat \<Rightarrow> dma_sys \<Rightarrow> bool" where
  "reading cfg x m i s = (engine_at R_EXT_RD R_DONE cfg i (reader (ds_dma s)) \<and>
     rd_at (reader (ds_dma s)) None x (copy_in (cfg_ext_addr cfg) (cfg_loc_addr cfg) x i m) s)"

definition writing :: "dma_cfg \<Rightarrow> ext_mem \<Rightarrow> local_mem \<Rightarrow> nat \<Rightarrow> dma_sys \<Rightarrow> bool" where
  "writing cfg x m i s = (engine_at W_LOC_RD W_DONE cfg i (writer (ds_dma s)) \<and>
     wr_at (writer (ds_dma s)) None (copy_out (cfg_ext_addr cfg) (cfg_loc_addr cfg) m i x) m s)"

text \<open>Both engines have nothing more to do: idle, or in the clock of the done pulse.\<close>

definition settled :: "dma_sys \<Rightarrow> bool" where
  "settled s = (eng_state (reader (ds_dma s)) \<in> {R_IDLE, R_DONE} \<and> eng_state (writer (ds_dma s)) \<in> {W_IDLE, W_DONE} \<and>
     \<not> ext_rd_pending (ds_ext s))"

text \<open>A request with nothing else going on, run until the engine is idle again.\<close>

definition quiet :: "host_port \<times> be_ports" where
  "quiet = (\<lparr>host_addr = 0, host_wdata = 0, host_wr = False, host_req = False\<rparr>,
     \<lparr>be_wt_addr = 0, be_wt_req = False, be_act_rd_addr = 0, be_act_rd_req = False, be_act_wr_addr = 0,
      be_act_wr_data = 0, be_act_wr_req = False, be_bias_addr = 0, be_bias_req = False\<rparr>)"

definition dma_run :: "dma_cfg \<Rightarrow> dma_sys \<Rightarrow> dma_sys" where
  "dma_run cfg s = dma_request cfg quiet (replicate (3 * xfer_len (cfg_len cfg) + 1) quiet) s"

text \<open>The subsystem after reset, with an external memory.\<close>

definition engine_reset :: "'st \<Rightarrow> 'st engine" where
  "engine_reset idle = \<lparr>eng_state = idle, ext_addr_r = 0, loc_addr_r = 0, len_r = 0, cnt_r = 0, data_r = 0\<rparr>"

definition reset_dma_sys :: "ext_mem \<Rightarrow> dma_sys" where
  "reset_dma_sys x = \<lparr>ds_dma = \<lparr>reader = engine_reset R_IDLE, writer = engine_reset W_IDLE\<rparr>,
     ds_bufs = reset_buffers, ds_ext = x\<lparr>ext_rd_pending := False\<rparr>\<rparr>"

section \<open>Lemmas\<close>

lemmas dma_simps = dma_tick_def dma_frontend_step_def dma_reader_step_def dma_writer_step_def
  dma_ext_port_def dma_buf_port_def shell_buf_port_def dma_busy_def reader_busy_def writer_busy_def
  update_ext_mem_def Let_def

lemma dma_clocks_append: "dma_clocks cfg (xs @ ys) s = dma_clocks cfg ys (dma_clocks cfg xs s)"
  by (simp add: dma_clocks_def)

text \<open>One clock of each state of the read engine, while the write engine is idle.\<close>

lemma reader_ext_rd:
  assumes "rd_at e None x m s" and "eng_state e = R_EXT_RD" and "\<not> be_act_wr_req p"
  shows "rd_at (e\<lparr>eng_state := R_EXT_WAIT\<rparr>) (Some (ext_addr_r e)) x m (dma_tick False cfg h p s)"
  using assms by (auto simp: rd_at_def ext_at_def dma_simps local_of_step be_store_def)

lemma reader_ext_wait:
  assumes "rd_at e (Some a) x m s" and "eng_state e = R_EXT_WAIT" and "\<not> be_act_wr_req p"
  shows "rd_at (e\<lparr>eng_state := R_LOC_WR, data_r := ext_load a x\<rparr>) None x m (dma_tick False cfg h p s)"
  using assms by (auto simp: rd_at_def ext_at_def dma_simps local_of_step be_store_def ext_lookup_def ext_load_def)

lemma reader_loc_wr:
  assumes "rd_at e None x m s" and "eng_state e = R_LOC_WR" and "\<not> be_act_wr_req p" and "in_window (loc_addr_r e)"
  shows "rd_at (e\<lparr>eng_state := (if len_r e \<le> cnt_r e + 1 then R_DONE else R_EXT_RD), cnt_r := cnt_r e + 1,
      ext_addr_r := ext_addr_r e + 1, loc_addr_r := loc_addr_r e + 1\<rparr>) None x
    (local_store (loc_addr_r e) (data_r e) m) (dma_tick False cfg h p s)"
  using assms by (auto simp: rd_at_def ext_at_def dma_simps local_of_step be_store_def host_gnt_iff)

lemma count_done: "i < xfer_len n \<Longrightarrow> n \<le> word_of_nat i + 1 \<longleftrightarrow> \<not> Suc i < xfer_len n"
proof -
  assume i: "i < xfer_len n"
  then have "Suc i < 2 ^ 16" using unat_u16_le [of n] by (auto simp: xfer_len_def max_def split: if_splits)
  then have "unat (word_of_nat (Suc i) :: u16) = Suc i" by (simp only: unat_of_nat) simp
  then have "unat (word_of_nat i + 1 :: u16) = Suc i" by (simp add: add.commute)
  with i show ?thesis by (auto simp: word_le_nat_alt xfer_len_def)
qed

lemma copy_in_Suc: "copy_in ea la x (Suc i) m =
    local_store (la + word_of_nat i) (ext_load (ea + word_of_nat i) x) (copy_in ea la x i m)"
  by (simp add: copy_in_def)

text \<open>Three clocks move one byte in.\<close>

lemma reading_step:
  assumes r: "reading cfg x m i s" and i: "i < xfer_len (cfg_len cfg)"
    and w: "in_window (cfg_loc_addr cfg + word_of_nat i)"
    and q: "\<not> be_act_wr_req p1" "\<not> be_act_wr_req p2" "\<not> be_act_wr_req p3"
  shows "reading cfg x m (Suc i) (dma_clocks cfg [(h1, p1), (h2, p2), (h3, p3)] s)"
proof -
  define e where "e = reader (ds_dma s)"
  have e: "eng_state e = R_EXT_RD" "ext_addr_r e = cfg_ext_addr cfg + word_of_nat i"
    "loc_addr_r e = cfg_loc_addr cfg + word_of_nat i" "len_r e = cfg_len cfg" "cnt_r e = word_of_nat i"
    using r i by (auto simp: reading_def engine_at_def e_def)
  have "rd_at e None x (copy_in (cfg_ext_addr cfg) (cfg_loc_addr cfg) x i m) s"
    using r by (simp add: reading_def e_def)
  note t1 = reader_ext_rd [OF this e(1) q(1), of cfg h1]
  note t2 = reader_ext_wait [OF t1 _ q(2), of cfg h2, simplified]
  note t3 = reader_loc_wr [OF t2 _ q(3), of cfg h3, simplified]
  show ?thesis
    using t3 w by (simp add: dma_clocks_def e reading_def engine_at_def rd_at_def copy_in_Suc count_done [OF i] add.assoc)
qed

text \<open>The same for the write engine.\<close>

lemma writer_loc_rd:
  assumes "wr_at e None x m s" and "eng_state e = W_LOC_RD" and "\<not> be_act_wr_req p" and "in_window (loc_addr_r e)"
  shows "wr_at (e\<lparr>eng_state := W_LOC_WAIT\<rparr>) (Some (local_load (loc_addr_r e) m)) x m (dma_tick False cfg h p s)"
proof -
  have "dma_busy (ds_dma s)" using assms by (simp add: wr_at_def dma_busy_def writer_busy_def)
  moreover have "dma_buf_port (ds_dma s) = \<lparr>host_addr = loc_addr_r e, host_wdata = 0, host_wr = False, host_req = True\<rparr>"
    using assms by (auto simp: wr_at_def dma_buf_port_def Let_def reader_busy_def)
  ultimately have b: "ds_bufs (dma_tick False cfg h p s) =
      router_step \<lparr>host_addr = loc_addr_r e, host_wdata = 0, host_wr = False, host_req = True\<rparr> p (ds_bufs s)"
    by (simp add: dma_tick_def shell_buf_port_def Let_def split_def)
  have g: "host_gnt \<lparr>host_addr = loc_addr_r e, host_wdata = 0, host_wr = False, host_req = True\<rparr> p"
    using assms by (simp add: host_gnt_iff)
  have "writer (ds_dma (dma_tick False cfg h p s)) = e\<lparr>eng_state := W_LOC_WAIT\<rparr>"
    "eng_state (reader (ds_dma (dma_tick False cfg h p s))) = R_IDLE" "ext_at None x (dma_tick False cfg h p s)"
    using assms by (auto simp: wr_at_def ext_at_def dma_simps host_gnt_iff)
  then show ?thesis
    using assms host_read_step [OF g] by (simp add: wr_at_def b local_of_step be_store_def)
qed

lemma writer_loc_wait:
  assumes "wr_at e (Some v) x m s" and "eng_state e = W_LOC_WAIT" and "\<not> be_act_wr_req p"
  shows "wr_at (e\<lparr>eng_state := W_EXT_WR, data_r := v\<rparr>) None x m (dma_tick False cfg h p s)"
  using assms by (auto simp: wr_at_def ext_at_def dma_simps local_of_step be_store_def)

lemma writer_ext_wr:
  assumes "wr_at e None x m s" and "eng_state e = W_EXT_WR" and "\<not> be_act_wr_req p"
  shows "wr_at (e\<lparr>eng_state := (if len_r e \<le> cnt_r e + 1 then W_DONE else W_LOC_RD), cnt_r := cnt_r e + 1,
      ext_addr_r := ext_addr_r e + 1, loc_addr_r := loc_addr_r e + 1\<rparr>) None (ext_store (ext_addr_r e) (data_r e) x) m
    (dma_tick False cfg h p s)"
  using assms by (auto simp: wr_at_def ext_at_def dma_simps local_of_step be_store_def ext_store_def)

lemma copy_out_Suc: "copy_out ea la m (Suc i) x =
    ext_store (ea + word_of_nat i) (local_load (la + word_of_nat i) m) (copy_out ea la m i x)"
  by (simp add: copy_out_def)

lemma writing_step:
  assumes r: "writing cfg x m i s" and i: "i < xfer_len (cfg_len cfg)"
    and w: "in_window (cfg_loc_addr cfg + word_of_nat i)"
    and q: "\<not> be_act_wr_req p1" "\<not> be_act_wr_req p2" "\<not> be_act_wr_req p3"
  shows "writing cfg x m (Suc i) (dma_clocks cfg [(h1, p1), (h2, p2), (h3, p3)] s)"
proof -
  define e where "e = writer (ds_dma s)"
  have e: "eng_state e = W_LOC_RD" "ext_addr_r e = cfg_ext_addr cfg + word_of_nat i"
    "loc_addr_r e = cfg_loc_addr cfg + word_of_nat i" "len_r e = cfg_len cfg" "cnt_r e = word_of_nat i"
    using r i by (auto simp: writing_def engine_at_def e_def)
  have "wr_at e None (copy_out (cfg_ext_addr cfg) (cfg_loc_addr cfg) m i x) m s"
    using r by (simp add: writing_def e_def)
  note t1 = writer_loc_rd [OF this e(1) q(1) w [folded e(3)], of cfg h1]
  note t2 = writer_loc_wait [OF t1 _ q(2), of cfg h2, simplified]
  note t3 = writer_ext_wr [OF t2 _ q(3), of cfg h3, simplified]
  show ?thesis
    using t3 by (simp add: dma_clocks_def e writing_def engine_at_def wr_at_def copy_out_Suc count_done [OF i] add.assoc)
qed

text \<open>A whole transfer: three clocks a byte.\<close>

lemma triples:
  assumes "length ins = 3 * Suc n"
  obtains a b c rest where "ins = [a, b, c] @ rest" "length rest = 3 * n"
  using assms by (cases ins; cases "tl ins"; cases "tl (tl ins)") auto

lemma transfer_loop:
  assumes step: "\<And>i s h1 p1 h2 p2 h3 p3. J i s \<Longrightarrow> i < n \<Longrightarrow> \<not> be_act_wr_req p1 \<Longrightarrow> \<not> be_act_wr_req p2 \<Longrightarrow>
      \<not> be_act_wr_req p3 \<Longrightarrow> J (Suc i) (dma_clocks cfg [(h1, p1), (h2, p2), (h3, p3)] s)"
  shows "J i s \<Longrightarrow> i + k = n \<Longrightarrow> length ins = 3 * k \<Longrightarrow> (\<forall>(h, p) \<in> set ins. \<not> be_act_wr_req p) \<Longrightarrow>
    J n (dma_clocks cfg ins s)"
proof (induction k arbitrary: i s ins)
  case 0
  then show ?case by (simp add: dma_clocks_def)
next
  case (Suc k)
  obtain a b c rest where ins: "ins = [a, b, c] @ rest" "length rest = 3 * k"
    using Suc.prems(3) by (rule triples)
  have "J (Suc i) (dma_clocks cfg [a, b, c] s)"
    using step [of i s "snd a" "snd b" "snd c" "fst a" "fst b" "fst c"] Suc.prems by (auto simp: ins(1) split_def)
  from Suc.IH [OF this _ ins(2)] Suc.prems show ?case unfolding ins(1) dma_clocks_append by simp
qed

lemma start_reading:
  assumes "dma_rest s" and "\<not> cfg_dir cfg" and "\<not> (host_req h \<and> host_wr h)" and "\<not> be_act_wr_req p"
  shows "reading cfg (ds_ext s) (local_of (ds_bufs s)) 0 (dma_tick True cfg h p s)"
  using assms
  by (auto simp: dma_rest_def reading_def rd_at_def ext_at_def engine_at_def xfer_len_def copy_in_def dma_simps
      local_of_step be_store_def host_gnt_iff)

lemma start_writing:
  assumes "dma_rest s" and "cfg_dir cfg" and "\<not> (host_req h \<and> host_wr h)" and "\<not> be_act_wr_req p"
  shows "writing cfg (ds_ext s) (local_of (ds_bufs s)) 0 (dma_tick True cfg h p s)"
  using assms
  by (auto simp: dma_rest_def writing_def wr_at_def ext_at_def engine_at_def xfer_len_def copy_out_def dma_simps
      local_of_step be_store_def host_gnt_iff)

lemma window_range:
  assumes "0x10000 \<le> unat a" and "unat a + n \<le> 2 ^ 20" and "i < n"
  shows "in_window (a + word_of_nat i)"
proof -
  have "unat (a + word_of_nat i) = unat a + i"
    using assms by (simp add: unat_word_ariths unat_of_nat)
  then show ?thesis using assms(1) by (simp add: in_window_iff word_le_nat_alt)
qed

lemma read_transfer:
  assumes "dma_rest s" and "\<not> cfg_dir cfg" and "\<not> (host_req (fst first) \<and> host_wr (fst first))"
    and "\<forall>(h, p) \<in> set (first # ins). \<not> be_act_wr_req p" and n: "n \<le> xfer_len (cfg_len cfg)"
    and "length ins = 3 * n" and "0x10000 \<le> unat (cfg_loc_addr cfg)" and "unat (cfg_loc_addr cfg) + n \<le> 2 ^ 20"
  shows "reading cfg (ds_ext s) (local_of (ds_bufs s)) n (dma_request cfg first ins s)"
proof -
  let ?J = "reading cfg (ds_ext s) (local_of (ds_bufs s))"
  have base: "?J 0 (dma_tick True cfg (fst first) (snd first) s)"
    using assms by (intro start_reading) auto
  have step: "?J (Suc i) (dma_clocks cfg [(h1, p1), (h2, p2), (h3, p3)] s)"
    if "?J i s" "i < n" "\<not> be_act_wr_req p1" "\<not> be_act_wr_req p2" "\<not> be_act_wr_req p3" for i s h1 p1 h2 p2 h3 p3
    using that n by (intro reading_step window_range [OF assms(7,8)]) simp_all
  show ?thesis
    unfolding dma_request_def
    by (rule transfer_loop [where J = ?J and k = n, OF step base]) (use assms(4,6) in simp_all)
qed

lemma write_transfer:
  assumes "dma_rest s" and "cfg_dir cfg" and "\<not> (host_req (fst first) \<and> host_wr (fst first))"
    and "\<forall>(h, p) \<in> set (first # ins). \<not> be_act_wr_req p" and n: "n \<le> xfer_len (cfg_len cfg)"
    and "length ins = 3 * n" and "0x10000 \<le> unat (cfg_loc_addr cfg)" and "unat (cfg_loc_addr cfg) + n \<le> 2 ^ 20"
  shows "writing cfg (ds_ext s) (local_of (ds_bufs s)) n (dma_request cfg first ins s)"
proof -
  let ?J = "writing cfg (ds_ext s) (local_of (ds_bufs s))"
  have base: "?J 0 (dma_tick True cfg (fst first) (snd first) s)"
    using assms by (intro start_writing) auto
  have step: "?J (Suc i) (dma_clocks cfg [(h1, p1), (h2, p2), (h3, p3)] s)"
    if "?J i s" "i < n" "\<not> be_act_wr_req p1" "\<not> be_act_wr_req p2" "\<not> be_act_wr_req p3" for i s h1 p1 h2 p2 h3 p3
    using that n by (intro writing_step window_range [OF assms(7,8)]) simp_all
  show ?thesis
    unfolding dma_request_def
    by (rule transfer_loop [where J = ?J and k = n, OF step base]) (use assms(4,6) in simp_all)
qed

text \<open>The clock after the done pulse.\<close>

lemma reading_ends:
  assumes "reading cfg x m n s" and "n = xfer_len (cfg_len cfg)"
  shows "dma_done (ds_dma s)" "\<not> dma_busy (ds_dma s)" "dma_rest (dma_tick False cfg h p s)"
  using assms
  by (auto simp: reading_def engine_at_def rd_at_def ext_at_def dma_done_def reader_done_def dma_rest_def dma_simps)

lemma writing_ends:
  assumes "writing cfg x m n s" and "n = xfer_len (cfg_len cfg)"
  shows "dma_done (ds_dma s)" "\<not> dma_busy (ds_dma s)" "dma_rest (dma_tick False cfg h p s)"
  using assms
  by (auto simp: writing_def engine_at_def wr_at_def ext_at_def dma_done_def writer_done_def dma_rest_def dma_simps)

text \<open>Until its last byte is moved the transfer keeps the DMA busy.\<close>

lemma reading_busy:
  assumes "reading cfg x m i s" and "i < xfer_len (cfg_len cfg)" and "length ins < 3" and "\<forall>(h, p) \<in> set ins. \<not> be_act_wr_req p"
  shows "dma_busy (ds_dma (dma_clocks cfg ins s))"
proof -
  have e: "rd_at (reader (ds_dma s)) None x (copy_in (cfg_ext_addr cfg) (cfg_loc_addr cfg) x i m) s"
    "eng_state (reader (ds_dma s)) = R_EXT_RD"
    using assms(1,2) by (simp_all add: reading_def engine_at_def)
  consider "ins = []" | (one) h1 p1 where "ins = [(h1, p1)]" | (two) h1 p1 h2 p2 where "ins = [(h1, p1), (h2, p2)]"
    using assms(3) by (cases ins; cases "tl ins"; cases "tl (tl ins)") auto
  then show ?thesis
  proof cases
    case one
    with reader_ext_rd [OF e, of p1 cfg h1] assms(4) show ?thesis
      by (simp add: dma_clocks_def rd_at_def dma_busy_def reader_busy_def)
  next
    case two
    with assms(4) have q: "\<not> be_act_wr_req p1" "\<not> be_act_wr_req p2" by auto
    from reader_ext_wait [OF reader_ext_rd [OF e q(1), of cfg h1] _ q(2), of cfg h2] show ?thesis
      by (simp add: two dma_clocks_def rd_at_def dma_busy_def reader_busy_def)
  qed (use e in \<open>simp add: dma_clocks_def dma_busy_def reader_busy_def\<close>)
qed

lemma writing_busy:
  assumes "writing cfg x m i s" and "i < xfer_len (cfg_len cfg)" and "length ins < 3" and "\<forall>(h, p) \<in> set ins. \<not> be_act_wr_req p"
    and "in_window (cfg_loc_addr cfg + word_of_nat i)"
  shows "dma_busy (ds_dma (dma_clocks cfg ins s))"
proof -
  have e: "wr_at (writer (ds_dma s)) None (copy_out (cfg_ext_addr cfg) (cfg_loc_addr cfg) m i x) m s"
    "eng_state (writer (ds_dma s)) = W_LOC_RD" "loc_addr_r (writer (ds_dma s)) = cfg_loc_addr cfg + word_of_nat i"
    using assms(1,2) by (simp_all add: writing_def engine_at_def)
  have w: "in_window (loc_addr_r (writer (ds_dma s)))" using assms(5) by (simp add: e(3))
  consider "ins = []" | (one) h1 p1 where "ins = [(h1, p1)]" | (two) h1 p1 h2 p2 where "ins = [(h1, p1), (h2, p2)]"
    using assms(3) by (cases ins; cases "tl ins"; cases "tl (tl ins)") auto
  then show ?thesis
  proof cases
    case one
    with writer_loc_rd [OF e(1,2) _ w, of p1 cfg h1] assms(4) show ?thesis
      by (simp add: dma_clocks_def wr_at_def dma_busy_def writer_busy_def)
  next
    case two
    with assms(4) have q: "\<not> be_act_wr_req p1" "\<not> be_act_wr_req p2" by auto
    from writer_loc_wait [OF writer_loc_rd [OF e(1,2) q(1) w, of cfg h1] _ q(2), of cfg h2] show ?thesis
      by (simp add: two dma_clocks_def wr_at_def dma_busy_def writer_busy_def)
  qed (use e in \<open>simp add: dma_clocks_def dma_busy_def writer_busy_def\<close>)
qed

lemma transfer_busy:
  assumes "dma_rest s" and "\<not> (host_req (fst first) \<and> host_wr (fst first))"
    and "\<forall>(h, p) \<in> set (first # ins). \<not> be_act_wr_req p" and "length ins < 3 * xfer_len (cfg_len cfg)"
    and "0x10000 \<le> unat (cfg_loc_addr cfg)" and "unat (cfg_loc_addr cfg) + xfer_len (cfg_len cfg) \<le> 2 ^ 20"
  shows "dma_busy (ds_dma (dma_request cfg first ins s))"
proof -
  define i where "i = length ins div 3"
  define xs where "xs = take (3 * i) ins"
  define ys where "ys = drop (3 * i) ins"
  have n: "i < xfer_len (cfg_len cfg)" using assms(4) by (simp add: i_def less_mult_imp_div_less mult.commute)
  have "3 * i \<le> length ins" "length ins - 3 * i < 3" unfolding i_def by presburger+
  then have len: "length xs = 3 * i" "length ys < 3" by (simp_all add: xs_def ys_def)
  have "set xs \<subseteq> set ins" "set ys \<subseteq> set ins" by (simp_all add: xs_def ys_def set_take_subset set_drop_subset)
  then have q: "\<forall>(h, p) \<in> set (first # xs). \<not> be_act_wr_req p" "\<forall>(h, p) \<in> set ys. \<not> be_act_wr_req p"
    using assms(3) by auto
  have split: "dma_request cfg first ins s = dma_clocks cfg ys (dma_request cfg first xs s)"
    by (simp add: dma_request_def xs_def ys_def flip: dma_clocks_append)
  have w: "unat (cfg_loc_addr cfg) + i \<le> 2 ^ 20" using assms(6) n by simp
  show ?thesis
  proof (cases "cfg_dir cfg")
    case True
    from write_transfer [OF assms(1) True assms(2) q(1) less_imp_le [OF n] len(1) assms(5) w]
    show ?thesis unfolding split
      by (rule writing_busy [OF _ n len(2) q(2) window_range [OF assms(5,6) n]])
  next
    case False
    from read_transfer [OF assms(1) False assms(2) q(1) less_imp_le [OF n] len(1) assms(5) w]
    show ?thesis unfolding split by (rule reading_busy [OF _ n len(2) q(2)])
  qed
qed

text \<open>Up to 4096 consecutive addresses name different cells, so a transfer in can be read back.\<close>

lemma unat_offset:
  assumes "unat a + n \<le> 2 ^ 20" and "i < n"
  shows "unat (a + word_of_nat i :: 20 word) = unat a + i"
  using assms by (simp add: unat_word_ariths unat_of_nat)

lemma same_cell_offset:
  assumes "0x10000 \<le> unat a" and "unat a + n \<le> 2 ^ 20" and "n \<le> 4096" and "i < n" "j < n"
  shows "same_cell (a + word_of_nat i) (a + word_of_nat j) \<longleftrightarrow> i = j"
proof
  assume "i = j"
  then show "same_cell (a + word_of_nat i) (a + word_of_nat j)"
    using window_range [OF assms(1,2,4)] by (auto simp: same_cell_def in_window_def)
next
  assume c: "same_cell (a + word_of_nat i) (a + word_of_nat j)"
  have "(ucast (ucast v :: 13 word) :: 12 word) = ucast v" for v :: "20 word"
    by (rule bit_word_eqI) (auto simp: bit_simps)
  with c have "(ucast (a + word_of_nat i) :: 12 word) = ucast (a + word_of_nat j)"
    unfolding same_cell_def by metis
  then have "unat (ucast (a + word_of_nat i) :: 12 word) = unat (ucast (a + word_of_nat j) :: 12 word)" by simp
  then have e: "(unat a + i) mod 4096 = (unat a + j) mod 4096"
    using unat_offset [OF assms(2,4)] unat_offset [OF assms(2,5)]
    by (simp add: unsigned_ucast_eq take_bit_eq_mod)
  have inj: "u = v" if "(b + v) mod 4096 = (b + u) mod 4096" "v < 4096" "u \<le> v" for b u v :: nat
  proof -
    have "4096 dvd v - u" using that mod_eq_dvd_iff_nat [of "b + u" "b + v" 4096] by simp
    with that show ?thesis by (cases "v - u = 0") (auto dest!: dvd_imp_le)
  qed
  show "i = j" using inj [OF e [symmetric]] inj [OF e] assms(3-5) by linarith
qed

lemma copy_in_load:
  assumes "0x10000 \<le> unat a" and "unat a + n \<le> 2 ^ 20" and "n \<le> 4096"
  shows "k \<le> n \<Longrightarrow> i < k \<Longrightarrow>
    (ucast (local_load (a + word_of_nat i) (copy_in ea a x k m)) :: u8) = ucast (ext_load (ea + word_of_nat i) x)"
proof (induction k)
  case (Suc k)
  have "(ucast (ucast (ucast v :: u8) :: u32) :: u8) = ucast v" for v :: u32
    by (rule bit_word_eqI) (auto simp: bit_simps)
  with Suc same_cell_offset [OF assms, of i k] show ?case
    by (cases "i = k") (auto simp: copy_in_Suc local_load_store)
qed simp

lemma copy_out_load:
  assumes "n \<le> 2 ^ 32"
  shows "k \<le> n \<Longrightarrow> i < k \<Longrightarrow>
    ext_load (ea + word_of_nat i) (copy_out ea la m k x) = local_load (la + word_of_nat i) m"
proof (induction k)
  case (Suc k)
  have inj: "(word_of_nat i :: u32) = word_of_nat k \<longleftrightarrow> i = k" if "i \<le> k"
    using that Suc.prems(1) assms by (simp add: word_of_nat_eq_iff take_bit_nat_eq_self)
  from Suc show ?case by (cases "i = k") (auto simp: inj copy_out_Suc ext_store_def ext_load_def)
qed simp

lemma ext_read_bytes_map: "ext_read_bytes a n m = map (\<lambda>i. ucast (ext_load (a + word_of_nat i) m)) [0..<n]"
proof -
  have "(ucast (v AND 0xFF) :: u8) = ucast v" for v :: u32
  proof -
    have m: "(0xFF :: u32) = mask 8" by (simp add: mask_eq_exp_minus_1)
    show ?thesis unfolding m by (rule bit_word_eqI) (auto simp: bit_simps)
  qed
  then show ?thesis by (simp add: ext_read_bytes_def fold_update ext_load_def)
qed

lemma ext_read_bytes_cong: "ext_memory x = ext_memory y \<Longrightarrow> ext_read_bytes a n x = ext_read_bytes a n y"
  by (simp add: ext_read_bytes_def)

text \<open>A request for a local address no bank answers.\<close>

lemma stuck_reader:
  assumes "reader_busy (reader (ds_dma s))" and "\<not> in_window (loc_addr_r (reader (ds_dma s)))"
    and "eng_state (writer (ds_dma s)) = W_IDLE"
  shows "reader_busy (reader (ds_dma (dma_tick False cfg h p s))) \<and>
    \<not> in_window (loc_addr_r (reader (ds_dma (dma_tick False cfg h p s)))) \<and>
    eng_state (writer (ds_dma (dma_tick False cfg h p s))) = W_IDLE"
proof (cases "eng_state (reader (ds_dma s))")
  case R_LOC_WR
  then have "\<not> host_gnt (shell_buf_port h (ds_dma s)) p"
    using assms by (simp add: shell_buf_port_def dma_busy_def dma_buf_port_def Let_def host_gnt_iff)
  with R_LOC_WR assms show ?thesis
    by (simp add: dma_tick_def dma_frontend_step_def dma_reader_step_def dma_writer_step_def Let_def split_def)
qed (use assms in \<open>simp_all add: reader_busy_def dma_tick_def dma_frontend_step_def dma_reader_step_def
  dma_writer_step_def Let_def split_def\<close>)

lemma stuck_writer:
  assumes "eng_state (writer (ds_dma s)) = W_LOC_RD" and "\<not> in_window (loc_addr_r (writer (ds_dma s)))"
    and "eng_state (reader (ds_dma s)) = R_IDLE"
  shows "eng_state (writer (ds_dma (dma_tick False cfg h p s))) = W_LOC_RD \<and>
    \<not> in_window (loc_addr_r (writer (ds_dma (dma_tick False cfg h p s)))) \<and>
    eng_state (reader (ds_dma (dma_tick False cfg h p s))) = R_IDLE"
proof -
  have "\<not> host_gnt (shell_buf_port h (ds_dma s)) p"
    using assms
    by (simp add: shell_buf_port_def dma_busy_def writer_busy_def reader_busy_def dma_buf_port_def Let_def host_gnt_iff)
  with assms show ?thesis
    by (simp add: dma_tick_def dma_frontend_step_def dma_reader_step_def dma_writer_step_def Let_def split_def)
qed

text \<open>A quiet run of a whole transfer, and the clock in which the engine returns to idle.\<close>

lemma quiet_simps [simp]: "\<not> host_req (fst quiet)" "\<not> be_act_wr_req (snd quiet)"
  by (simp_all add: quiet_def)

lemma dma_run_last:
  "dma_run cfg s = dma_tick False cfg (fst quiet) (snd quiet)
    (dma_request cfg quiet (replicate (3 * xfer_len (cfg_len cfg)) quiet) s)"
proof -
  have "replicate (3 * xfer_len (cfg_len cfg) + 1) quiet = replicate (3 * xfer_len (cfg_len cfg)) quiet @ [quiet]"
    by (simp add: replicate_append_same flip: replicate_Suc)
  then show ?thesis by (simp add: dma_run_def dma_request_def dma_clocks_def split_def)
qed

lemma idle_tick_keeps:
  assumes "\<not> dma_busy (ds_dma s)" and "\<not> ext_rd_pending (ds_ext s)" and "\<not> host_req h" and "\<not> be_act_wr_req p"
  shows "local_of (ds_bufs (dma_tick False cfg h p s)) = local_of (ds_bufs s)"
    and "ext_memory (ds_ext (dma_tick False cfg h p s)) = ext_memory (ds_ext s)"
  using assms by (auto simp: dma_simps local_of_step be_store_def host_gnt_iff)

lemma dma_run_reads:
  assumes "dma_rest s" and "\<not> cfg_dir cfg" and "0x10000 \<le> unat (cfg_loc_addr cfg)"
    and "unat (cfg_loc_addr cfg) + xfer_len (cfg_len cfg) \<le> 2 ^ 20"
  shows "dma_rest (dma_run cfg s)" and "ext_memory (ds_ext (dma_run cfg s)) = ext_memory (ds_ext s)"
    and "local_of (ds_bufs (dma_run cfg s)) =
      copy_in (cfg_ext_addr cfg) (cfg_loc_addr cfg) (ds_ext s) (xfer_len (cfg_len cfg)) (local_of (ds_bufs s))"
proof -
  let ?s = "dma_request cfg quiet (replicate (3 * xfer_len (cfg_len cfg)) quiet) s"
  have r: "reading cfg (ds_ext s) (local_of (ds_bufs s)) (xfer_len (cfg_len cfg)) ?s"
    using assms by (intro read_transfer [where n = "xfer_len (cfg_len cfg)"]) (auto simp: split_def)
  show "dma_rest (dma_run cfg s)" unfolding dma_run_last by (rule reading_ends [OF r refl])
  have "\<not> ext_rd_pending (ds_ext ?s)" "ext_memory (ds_ext ?s) = ext_memory (ds_ext s)"
    "local_of (ds_bufs ?s) =
      copy_in (cfg_ext_addr cfg) (cfg_loc_addr cfg) (ds_ext s) (xfer_len (cfg_len cfg)) (local_of (ds_bufs s))"
    using r by (auto simp: reading_def rd_at_def ext_at_def)
  then show "ext_memory (ds_ext (dma_run cfg s)) = ext_memory (ds_ext s)"
    "local_of (ds_bufs (dma_run cfg s)) =
      copy_in (cfg_ext_addr cfg) (cfg_loc_addr cfg) (ds_ext s) (xfer_len (cfg_len cfg)) (local_of (ds_bufs s))"
    unfolding dma_run_last using idle_tick_keeps [of ?s "fst quiet" "snd quiet" cfg] reading_ends(2) [OF r refl]
    by simp_all
qed

lemma dma_run_writes:
  assumes "dma_rest s" and "cfg_dir cfg" and "0x10000 \<le> unat (cfg_loc_addr cfg)"
    and "unat (cfg_loc_addr cfg) + xfer_len (cfg_len cfg) \<le> 2 ^ 20"
  shows "dma_rest (dma_run cfg s)" and "local_of (ds_bufs (dma_run cfg s)) = local_of (ds_bufs s)"
    and "ext_memory (ds_ext (dma_run cfg s)) = ext_memory
      (copy_out (cfg_ext_addr cfg) (cfg_loc_addr cfg) (local_of (ds_bufs s)) (xfer_len (cfg_len cfg)) (ds_ext s))"
proof -
  let ?s = "dma_request cfg quiet (replicate (3 * xfer_len (cfg_len cfg)) quiet) s"
  have w: "writing cfg (ds_ext s) (local_of (ds_bufs s)) (xfer_len (cfg_len cfg)) ?s"
    using assms by (intro write_transfer [where n = "xfer_len (cfg_len cfg)"]) (auto simp: split_def)
  show "dma_rest (dma_run cfg s)" unfolding dma_run_last by (rule writing_ends [OF w refl])
  have "\<not> ext_rd_pending (ds_ext ?s)" "local_of (ds_bufs ?s) = local_of (ds_bufs s)"
    "ext_memory (ds_ext ?s) = ext_memory
      (copy_out (cfg_ext_addr cfg) (cfg_loc_addr cfg) (local_of (ds_bufs s)) (xfer_len (cfg_len cfg)) (ds_ext s))"
    using w by (auto simp: writing_def wr_at_def ext_at_def)
  then show "local_of (ds_bufs (dma_run cfg s)) = local_of (ds_bufs s)"
    "ext_memory (ds_ext (dma_run cfg s)) = ext_memory
      (copy_out (cfg_ext_addr cfg) (cfg_loc_addr cfg) (local_of (ds_bufs s)) (xfer_len (cfg_len cfg)) (ds_ext s))"
    unfolding dma_run_last using idle_tick_keeps [of ?s "fst quiet" "snd quiet" cfg] writing_ends(2) [OF w refl]
    by simp_all
qed

text \<open>After its last byte a transfer leaves everything as it is, however many clocks pass.\<close>

lemma settled_tick:
  assumes "settled s" and "\<not> host_req h" and "\<not> be_act_wr_req p"
  shows "dma_rest (dma_tick False cfg h p s)" "local_of (ds_bufs (dma_tick False cfg h p s)) = local_of (ds_bufs s)"
    "ext_memory (ds_ext (dma_tick False cfg h p s)) = ext_memory (ds_ext s)"
  using assms by (auto simp: settled_def dma_rest_def dma_simps local_of_step be_store_def host_gnt_iff)

lemma rest_settled: "dma_rest s \<Longrightarrow> settled s"
  by (simp add: dma_rest_def settled_def)

lemma settled_idle: "settled s \<Longrightarrow> \<not> dma_busy (ds_dma s) \<and> \<not> ext_rd_pending (ds_ext s)"
  by (auto simp: settled_def dma_busy_def reader_busy_def writer_busy_def)

lemma settled_clocks:
  assumes "settled s" and "\<forall>(h, p) \<in> set ins. \<not> host_req h \<and> \<not> be_act_wr_req p"
  shows "settled (dma_clocks cfg ins s) \<and> local_of (ds_bufs (dma_clocks cfg ins s)) = local_of (ds_bufs s) \<and>
    ext_memory (ds_ext (dma_clocks cfg ins s)) = ext_memory (ds_ext s)"
  using assms
proof (induction ins arbitrary: s)
  case (Cons x ins)
  obtain h p where x: "x = (h, p)" by fastforce
  have q: "\<not> host_req h" "\<not> be_act_wr_req p" using Cons.prems(2) by (auto simp: x)
  note t = settled_tick [OF Cons.prems(1) q, of cfg]
  from Cons.IH [OF rest_settled [OF t(1)]] Cons.prems(2) t(2,3) show ?case by (simp add: x dma_clocks_def)
qed (simp add: dma_clocks_def)

lemma transfer_after:
  assumes "dma_rest s" and "\<forall>(h, p) \<in> set (first # ins). \<not> host_req h \<and> \<not> be_act_wr_req p"
    and n: "n = xfer_len (cfg_len cfg)" and "3 * n \<le> length ins" and "0x10000 \<le> unat (cfg_loc_addr cfg)"
    and "unat (cfg_loc_addr cfg) + n \<le> 2 ^ 20"
  defines "t \<equiv> dma_request cfg first ins s"
  shows "settled t"
    and "if cfg_dir cfg
      then local_of (ds_bufs t) = local_of (ds_bufs s) \<and> ext_memory (ds_ext t) = ext_memory
        (copy_out (cfg_ext_addr cfg) (cfg_loc_addr cfg) (local_of (ds_bufs s)) n (ds_ext s))
      else ext_memory (ds_ext t) = ext_memory (ds_ext s) \<and> local_of (ds_bufs t) =
        copy_in (cfg_ext_addr cfg) (cfg_loc_addr cfg) (ds_ext s) n (local_of (ds_bufs s))"
proof -
  define xs where "xs = take (3 * n) ins"
  define ys where "ys = drop (3 * n) ins"
  define u where "u = dma_request cfg first xs s"
  have len: "length xs = 3 * n" using assms(4) by (simp add: xs_def)
  have sub: "set xs \<subseteq> set ins" "set ys \<subseteq> set ins" by (simp_all add: xs_def ys_def set_take_subset set_drop_subset)
  have q: "\<forall>(h, p) \<in> set (first # xs). \<not> be_act_wr_req p" "\<not> (host_req (fst first) \<and> host_wr (fst first))"
    "\<forall>(h, p) \<in> set ys. \<not> host_req h \<and> \<not> be_act_wr_req p"
    using assms(2) sub by (auto simp: split_def)
  have t: "t = dma_clocks cfg ys u"
    by (simp add: t_def u_def dma_request_def xs_def ys_def flip: dma_clocks_append)
  have u: "settled u \<and> (if cfg_dir cfg
      then local_of (ds_bufs u) = local_of (ds_bufs s) \<and> ext_memory (ds_ext u) = ext_memory
        (copy_out (cfg_ext_addr cfg) (cfg_loc_addr cfg) (local_of (ds_bufs s)) n (ds_ext s))
      else ext_memory (ds_ext u) = ext_memory (ds_ext s) \<and> local_of (ds_bufs u) =
        copy_in (cfg_ext_addr cfg) (cfg_loc_addr cfg) (ds_ext s) n (local_of (ds_bufs s)))"
  proof (cases "cfg_dir cfg")
    case True
    from write_transfer [OF assms(1) True q(2,1) eq_refl [OF n] len assms(5,6), folded u_def] True n show ?thesis
      by (auto simp: writing_def wr_at_def ext_at_def engine_at_def settled_def)
  next
    case False
    from read_transfer [OF assms(1) False q(2,1) eq_refl [OF n] len assms(5,6), folded u_def] False n show ?thesis
      by (auto simp: reading_def rd_at_def ext_at_def engine_at_def settled_def)
  qed
  note c = settled_clocks [OF conjunct1 [OF u] q(3), of cfg, folded t]
  show "settled t" using c by simp
  show "if cfg_dir cfg
      then local_of (ds_bufs t) = local_of (ds_bufs s) \<and> ext_memory (ds_ext t) = ext_memory
        (copy_out (cfg_ext_addr cfg) (cfg_loc_addr cfg) (local_of (ds_bufs s)) n (ds_ext s))
      else ext_memory (ds_ext t) = ext_memory (ds_ext s) \<and> local_of (ds_bufs t) =
        copy_in (cfg_ext_addr cfg) (cfg_loc_addr cfg) (ds_ext s) n (local_of (ds_bufs s))"
    using c u by (simp split: if_splits)
qed

text \<open>The configuration only matters in the clock of a start.\<close>

lemma dma_tick_cfg: "dma_tick False cfg = dma_tick False cfg'"
  by (intro ext) (auto simp: dma_tick_def dma_frontend_step_def dma_reader_step_def dma_writer_step_def Let_def split_def
      split: rd_state.split wr_state.split)

lemma reset_rest [simp]: "dma_rest (reset_dma_sys x)"
  by (simp add: dma_rest_def reset_dma_sys_def engine_reset_def)

lemma reset_memories [simp]:
  "ds_bufs (reset_dma_sys x) = reset_buffers" "ext_memory (ds_ext (reset_dma_sys x)) = ext_memory x"
  by (simp_all add: reset_dma_sys_def)

section \<open>Properties\<close>

text \<open>C22: A DMA request does exactly the transfer it names.  From rest, with the local range inside the
  buffer windows and no backend writing activations, the request followed by three clocks per byte
  ends with the done pulse and the engine free, and the clock after that is at rest again.  The host
  does not write in the clock of the request; apart from that it may request
  anything (the engine has the buffer port), and so may the backends' reads.  A transfer in has stored the external words one
  by one in the local memory and left the external memory alone; a transfer out has stored the local
  values in the external memory and left the local memory alone.  The count is the 16-bit length,
  except that a length of zero moves one element.\<close>

theorem dma_transfer_correct:
  assumes "dma_rest s" and "\<not> (host_req (fst first) \<and> host_wr (fst first))"
    and "\<forall>(h, p) \<in> set (first # ins). \<not> be_act_wr_req p" and n: "n = xfer_len (cfg_len cfg)"
    and "length ins = 3 * n" and "0x10000 \<le> unat (cfg_loc_addr cfg)" and "unat (cfg_loc_addr cfg) + n \<le> 2 ^ 20"
  shows "let t = dma_request cfg first ins s
    in dma_done (ds_dma t) \<and> \<not> dma_busy (ds_dma t) \<and> dma_rest (dma_tick False cfg h p t) \<and>
       (if cfg_dir cfg
        then local_of (ds_bufs t) = local_of (ds_bufs s) \<and> ext_memory (ds_ext t) = ext_memory
          (copy_out (cfg_ext_addr cfg) (cfg_loc_addr cfg) (local_of (ds_bufs s)) n (ds_ext s))
        else ext_memory (ds_ext t) = ext_memory (ds_ext s) \<and> local_of (ds_bufs t) =
          copy_in (cfg_ext_addr cfg) (cfg_loc_addr cfg) (ds_ext s) n (local_of (ds_bufs s)))"
proof (cases "cfg_dir cfg")
  case True
  note w = write_transfer [OF assms(1) True assms(2,3) eq_refl [OF n] assms(5-7)]
  from w have "wr_at (writer (ds_dma (dma_request cfg first ins s))) None
      (copy_out (cfg_ext_addr cfg) (cfg_loc_addr cfg) (local_of (ds_bufs s)) n (ds_ext s)) (local_of (ds_bufs s))
      (dma_request cfg first ins s)"
    by (simp add: writing_def)
  with True writing_ends [OF w n] show ?thesis by (simp add: Let_def wr_at_def ext_at_def)
next
  case False
  note r = read_transfer [OF assms(1) False assms(2,3) eq_refl [OF n] assms(5-7)]
  from r have "rd_at (reader (ds_dma (dma_request cfg first ins s))) None (ds_ext s)
      (copy_in (cfg_ext_addr cfg) (cfg_loc_addr cfg) (ds_ext s) n (local_of (ds_bufs s)))
      (dma_request cfg first ins s)"
    by (simp add: reading_def)
  with False reading_ends [OF r n] show ?thesis by (simp add: Let_def rd_at_def ext_at_def)
qed

theorem dma_transfer_correct_witness:
  "\<forall>x. let s = reset_dma_sys x;
        t = dma_request \<lparr>cfg_ext_addr = 0x80000000, cfg_loc_addr = 0x10000, cfg_len = 2, cfg_dir = False\<rparr> quiet
          (replicate 6 quiet) s
    in dma_done (ds_dma t) \<and>
       local_of (ds_bufs t) = local_store 0x10001 (ext_load 0x80000001 x)
         (local_store 0x10000 (ext_load 0x80000000 x) (local_of reset_buffers))"
proof
  fix x
  show "let s = reset_dma_sys x;
        t = dma_request \<lparr>cfg_ext_addr = 0x80000000, cfg_loc_addr = 0x10000, cfg_len = 2, cfg_dir = False\<rparr> quiet
          (replicate 6 quiet) s
    in dma_done (ds_dma t) \<and>
       local_of (ds_bufs t) = local_store 0x10001 (ext_load 0x80000001 x)
         (local_store 0x10000 (ext_load 0x80000000 x) (local_of reset_buffers))"
    using dma_transfer_correct [OF reset_rest, of quiet "replicate 6 quiet" 2
        "\<lparr>cfg_ext_addr = 0x80000000, cfg_loc_addr = 0x10000, cfg_len = 2, cfg_dir = False\<rparr>"]
    by (simp add: split_def xfer_len_def Let_def copy_in_def upt_rec ext_load_def)
qed

text \<open>Bytes survive the trip through the device.  Up to 4096 bytes read by DMA from one external
  address into a buffer window and written back by a second request to another external address
  are, read back with the bench's helper, the bytes that were at the first address.\<close>

theorem dma_roundtrip:
  assumes "dma_rest s" and "1 \<le> unat n" and "unat n \<le> 4096" and "0x10000 \<le> unat la" and "unat la + unat n \<le> 2 ^ 20"
    and "t = dma_run \<lparr>cfg_ext_addr = ea, cfg_loc_addr = la, cfg_len = n, cfg_dir = False\<rparr> s"
    and "u = dma_run \<lparr>cfg_ext_addr = eb, cfg_loc_addr = la, cfg_len = n, cfg_dir = True\<rparr> t"
  shows "ext_read_bytes eb (unat n) (ds_ext u) = ext_read_bytes ea (unat n) (ds_ext s)"
proof -
  have x: "xfer_len n = unat n" using assms(2) by (simp add: xfer_len_def)
  have t: "dma_rest t" "local_of (ds_bufs t) = copy_in ea la (ds_ext s) (unat n) (local_of (ds_bufs s))"
    using dma_run_reads [OF assms(1), of "\<lparr>cfg_ext_addr = ea, cfg_loc_addr = la, cfg_len = n, cfg_dir = False\<rparr>"]
      assms(4-6) by (simp_all add: x)
  have u: "ext_memory (ds_ext u) = ext_memory (copy_out eb la (local_of (ds_bufs t)) (unat n) (ds_ext t))"
    using dma_run_writes [OF t(1), of "\<lparr>cfg_ext_addr = eb, cfg_loc_addr = la, cfg_len = n, cfg_dir = True\<rparr>"]
      assms(4,5,7) by (simp add: x)
  have "(ucast (ext_load (eb + word_of_nat i) (copy_out eb la (local_of (ds_bufs t)) (unat n) (ds_ext t))) :: u8) =
      ucast (ext_load (ea + word_of_nat i) (ds_ext s))" if "i < unat n" for i
    using copy_out_load [of "unat n" "unat n" i eb la "local_of (ds_bufs t)" "ds_ext t"] assms(3) that
      copy_in_load [OF assms(4,5,3) le_refl that, of ea "ds_ext s" "local_of (ds_bufs s)"]
    by (simp add: t(2))
  then have "ext_read_bytes eb (unat n) (copy_out eb la (local_of (ds_bufs t)) (unat n) (ds_ext t)) =
      ext_read_bytes ea (unat n) (ds_ext s)"
    by (simp add: ext_read_bytes_map)
  then show ?thesis by (simp add: ext_read_bytes_cong [OF u])
qed

theorem dma_roundtrip_witness:
  "\<forall>x. ext_read_bytes 0x2000 5 (ds_ext (dma_run \<lparr>cfg_ext_addr = 0x2000, cfg_loc_addr = 0x20010, cfg_len = 5, cfg_dir = True\<rparr>
      (dma_run \<lparr>cfg_ext_addr = 0x1000, cfg_loc_addr = 0x20010, cfg_len = 5, cfg_dir = False\<rparr> (reset_dma_sys x)))) =
    ext_read_bytes 0x1000 5 x"
  using dma_roundtrip [OF reset_rest, of 5 "0x20010", OF _ _ _ _ refl refl, of "0x2000" "0x1000"]
  by (simp add: ext_read_bytes_def)

end
