(* ===== verification/Npu_Device.thy ===== *)
theory Npu_Device
  imports Npu_Issue Npu_Vec Npu_Dma
begin

text \<open>
  The whole device as \<open>npu_shell.sv\<close> and \<open>npu_core.sv\<close> wire it: the control path of \<open>Npu_Shell\<close>, the DMA
  frontend, the buffer router, the vector unit with the core's port multiplexer, and the performance
  counters, with the external memory of the bench on the DMA port.  The five other backends are
  inputs: an \<open>others\<close> record per clock holds what they drive.  The bench's accesses are modelled with
  their loop on \<open>mmio_ready\<close>.
\<close>

section \<open>State\<close>

text \<open>What the backends other than the vector unit drive in a clock: the ready signal of the one the offered
  command is routed to, the joint done and busy signals, and the ports of the selected one.\<close>

record others =
  oth_ready :: bool
  oth_done :: bool
  oth_busy :: bool
  oth_ports :: be_ports

record perf =
  cnt_cycles :: u32
  cnt_active :: u32
  cnt_stall :: u32

record device =
  dev_shell :: shell
  be_sel_r :: "3 word"
  dev_vec :: vec_ctrl
  dev_dma :: frontend
  dev_bufs :: buffers
  dev_perf :: perf
  dev_ext :: ext_mem
  dev_others :: "nat \<Rightarrow> others"

section \<open>Core (\<open>npu_core.sv\<close>)\<close>

definition be_code :: "4 word \<Rightarrow> 3 word" where
  "be_code opc =
     (if opc = OP_GEMM then 1 else if opc = OP_SOFTMAX then 2 else if opc = OP_VEC then 3
      else if opc = OP_LNORM then 4 else if opc = OP_POOL then 5 else 0)"

definition core_ports :: "device \<Rightarrow> be_ports" where
  "core_ports d = (if be_sel_r d = 3 then vec_ports (dev_vec d) else oth_ports (dev_others d 0))"

text \<open>The vector unit sees the router's answers only while it is selected.\<close>

definition core_vec_in :: "device \<Rightarrow> vec_in" where
  "core_vec_in d =
     (if be_sel_r d = 3 then vec_inputs (core_ports d) (dev_bufs d)
      else \<lparr>act_rd_gnt = False, act_rd_rdata = 0, act_rd_rvalid = False, wt_rd_gnt = False, wt_rd_rdata = 0,
            wt_rd_rvalid = False, out_wr_gnt = False\<rparr>)"

definition dispatch_valid :: "device \<Rightarrow> bool" where
  "dispatch_valid d = (s_state (sh_sched (dev_shell d)) = S_ISSUE)"

definition dispatch_cmd :: "device \<Rightarrow> conv_cmd_t" where
  "dispatch_cmd d = sched_cmd (sh_sched (dev_shell d))"

definition vec_cmd_valid :: "device \<Rightarrow> bool" where
  "vec_cmd_valid d = (opcode (dispatch_cmd d) = OP_VEC \<and> dispatch_valid d)"

definition core_ready :: "device \<Rightarrow> bool" where
  "core_ready d = (if opcode (dispatch_cmd d) = OP_VEC then vec_cmd_ready (dev_vec d) else oth_ready (dev_others d 0))"

definition core_done :: "device \<Rightarrow> bool" where
  "core_done d = (vec_done (dev_vec d) \<or> oth_done (dev_others d 0))"

definition core_busy :: "device \<Rightarrow> bool" where
  "core_busy d = (vec_busy (dev_vec d) \<or> oth_busy (dev_others d 0))"

definition core_stall :: "device \<Rightarrow> bool" where
  "core_stall d = (core_busy d \<and> be_act_rd_req (core_ports d) \<and> \<not> be_act_rd_gnt (core_ports d))"

definition core_active :: "device \<Rightarrow> bool" where
  "core_active d = (core_busy d \<and> \<not> core_stall d)"

section \<open>Performance counters (\<open>npu_perf_counters.sv\<close>, \<open>counter.sv\<close>)\<close>

definition counter_step :: "bool \<Rightarrow> bool \<Rightarrow> u32 \<Rightarrow> u32" where
  "counter_step clr en count = (if clr then 0 else if en then count + 1 else count)"

definition perf_step :: "bool \<Rightarrow> bool \<Rightarrow> bool \<Rightarrow> perf \<Rightarrow> perf" where
  "perf_step active stall clear c =
     \<lparr>cnt_cycles = counter_step clear True (cnt_cycles c),
      cnt_active = counter_step clear active (cnt_active c),
      cnt_stall = counter_step clear stall (cnt_stall c)\<rparr>"

section \<open>One clock of the device (\<open>npu_shell.sv\<close>)\<close>

text \<open>What the rest of the device drives into the control path.\<close>

definition dev_env :: "device \<Rightarrow> env_in" where
  "dev_env d =
     \<lparr>dispatch_ready = core_ready d, backend_done = core_done d, backend_busy = core_busy d,
      dma_busy = Npu_Dma.dma_busy (dev_dma d), dma_done = Npu_Dma.dma_done (dev_dma d),
      env_perf_cycles = cnt_cycles (dev_perf d), env_perf_active = cnt_active (dev_perf d),
      env_perf_stall = cnt_stall (dev_perf d), buf_rdata = host_rdata (dev_bufs d)\<rparr>"

definition reg_buf_port :: "mmio_in \<Rightarrow> host_port" where
  "reg_buf_port m = \<lparr>host_addr = mmio_addr m, host_wdata = mmio_wdata m, host_wr = mmio_wr m,
     host_req = (mmio_valid m \<and> is_buf (mmio_addr m))\<rparr>"

definition dev_buf_port :: "mmio_in \<Rightarrow> device \<Rightarrow> host_port" where
  "dev_buf_port m d = shell_buf_port (reg_buf_port m) (dev_dma d)"

definition dev_cfg :: "device \<Rightarrow> dma_cfg" where
  "dev_cfg d = (let r = sh_regs (dev_shell d) in
     \<lparr>cfg_ext_addr = dma_ext_addr_r r, cfg_loc_addr = dma_loc_addr_r r, cfg_len = dma_len_r r, cfg_dir = dma_dir_r r\<rparr>)"

text \<open>Reset clears the flags of the banks and the router but not the memory cells and their output registers.\<close>

definition clear_buffers :: "buffers \<Rightarrow> buffers" where
  "clear_buffers b = b\<lparr>wt_buf := (wt_buf b)\<lparr>wt_host_rd_r := False, wt_be_rd_r := False\<rparr>,
     act_buf := (act_buf b)\<lparr>act_host_rd_accept_r := False, act_be_rd_accept_r := False\<rparr>,
     psum_buf := (psum_buf b)\<lparr>psum_rvalid := False\<rparr>,
     bias_pending_r := False, bias_addr_pending_r := 0, bias_was_sel := False\<rparr>"

definition dev_resets :: "device \<Rightarrow> bool" where
  "dev_resets d = (soft_reset_sync2 (sh_reset (dev_shell d)) \<or> soft_reset_sync1 (sh_reset (dev_shell d)))"

definition dev_tick :: "mmio_in \<Rightarrow> device \<Rightarrow> device" where
  "dev_tick m d =
     (let (rsp, ext') = update_ext_mem (dma_ext_port (dev_dma d)) (dev_ext d);
          port = dev_buf_port m d;
          gnt = host_gnt port (core_ports d);
          bufs = router_step port (core_ports d) (dev_bufs d);
          regs = sh_regs (dev_shell d);
          rst = dev_resets d
      in \<lparr>dev_shell = shell_cycle m (dev_env d) (dev_shell d),
          be_sel_r = (if rst then 0 else if dispatch_valid d \<and> core_ready d then be_code (opcode (dispatch_cmd d))
                      else be_sel_r d),
          dev_vec = (if rst then vec_reset
                     else vec_ctrl_step (vec_cmd_valid d) (conv_to_vec_cmd (dispatch_cmd d)) (core_vec_in d) (dev_vec d)),
          dev_dma = (if rst then \<lparr>reader = engine_reset R_IDLE, writer = engine_reset W_IDLE\<rparr>
                     else dma_frontend_step (dma_start_r regs) (dev_cfg d) rsp gnt (host_rvalid (dev_bufs d))
                       (host_rdata (dev_bufs d)) (dev_dma d)),
          dev_bufs = (if rst then clear_buffers bufs else bufs),
          dev_perf = (if rst then \<lparr>cnt_cycles = 0, cnt_active = 0, cnt_stall = 0\<rparr>
                      else perf_step (core_active d) (core_stall d) (bit (ctrl_reg regs) 0) (dev_perf d)),
          dev_ext = ext',
          dev_others = (\<lambda>t. dev_others d (Suc t))\<rparr>)"

definition mmio_ready :: "mmio_in \<Rightarrow> device \<Rightarrow> bool" where
  "mmio_ready m d =
     (if is_buf (mmio_addr m)
      then (if mmio_wr m then host_gnt (dev_buf_port m d) (core_ports d) else host_rvalid (dev_bufs d))
      else True)"

section \<open>The bench on the device\<close>

text \<open>\<open>do tick(); while (!mmio_ready)\<close>, with the request held.\<close>

partial_function (option) dev_access :: "mmio_in \<Rightarrow> device \<Rightarrow> device option" where
  "dev_access m d = (if mmio_ready m (dev_tick m d) then Some (dev_tick m d) else dev_access m (dev_tick m d))"

text \<open>The simulation as the bench sees it; \<open>None\<close> once an access never completes.\<close>

definition dev_dut :: "device option dut" where
  "dev_dut =
     \<lparr>dut_bus =
        \<lparr>bus_read = (\<lambda>a s.
           let m = \<lparr>mmio_addr = ucast a, mmio_wdata = 0, mmio_wr = False, mmio_valid = True\<rparr>;
               s' = Option.bind s (dev_access m)
           in (case s' of None \<Rightarrow> 0 | Some d \<Rightarrow> mmio_rdata (ucast a) (dev_env d) (dev_shell d), s')),
         bus_write = (\<lambda>a v s. Option.bind s
           (dev_access \<lparr>mmio_addr = ucast a, mmio_wdata = v, mmio_wr = True, mmio_valid = True\<rparr>))\<rparr>,
      tick = map_option (dev_tick no_access)\<rparr>"

definition dev_tb :: "device option ext_dut" where
  "dev_tb =
     \<lparr>dut_of = dev_dut,
      ext_get = (\<lambda>s. case s of Some d \<Rightarrow> dev_ext d | None \<Rightarrow> \<lparr>ext_memory = Map.empty, ext_rd_pending = False, ext_rd_addr_pending = 0\<rparr>),
      ext_set = (\<lambda>x. map_option (\<lambda>d. d\<lparr>dev_ext := x\<rparr>))\<rparr>"

section \<open>Views of the device\<close>

definition soc_of :: "device \<Rightarrow> soc" where
  "soc_of d = \<lparr>sh = dev_shell d, env = (\<lambda>t. dev_env d)\<rparr>"

definition dma_view :: "device \<Rightarrow> dma_sys" where
  "dma_view d = \<lparr>ds_dma = dev_dma d, ds_bufs = dev_bufs d, ds_ext = dev_ext d\<rparr>"

abbreviation dev_mem :: "device \<Rightarrow> local_mem" where
  "dev_mem d \<equiv> local_of (dev_bufs d)"

text \<open>The other backends are idle from now on.\<close>

definition others_quiet :: "device \<Rightarrow> bool" where
  "others_quiet d = (\<forall>t. \<not> oth_done (dev_others d t) \<and> \<not> oth_busy (dev_others d t) \<and>
     \<not> be_act_wr_req (oth_ports (dev_others d t)) \<and> \<not> be_bias_req (oth_ports (dev_others d t)))"

text \<open>The data path at rest: the DMA engines and the vector unit idle, nothing outstanding.\<close>

definition data_rest :: "device \<Rightarrow> bool" where
  "data_rest d = (dma_rest (dma_view d) \<and> vc_state (dev_vec d) = V_IDLE \<and> \<not> bias_pending_r (dev_bufs d) \<and> others_quiet d)"

definition dev_rest :: "device \<Rightarrow> bool" where
  "dev_rest d = (resting (soc_of d) \<and> \<not> dma_start_r (sh_regs (dev_shell d)) \<and> data_rest d)"

definition core_rest :: "device \<Rightarrow> bool" where
  "core_rest d = (vc_state (dev_vec d) = V_IDLE \<and> \<not> bias_pending_r (dev_bufs d) \<and> others_quiet d)"

text \<open>An access that starts nothing: no write to CTRL, the doorbell or DMA_CTRL.\<close>

definition starts :: "mmio_in \<Rightarrow> bool" where
  "starts m = (mmio_valid m \<and> mmio_wr m \<and>
     mmio_addr m \<in> {ucast LGNPU_REG_CTRL, ucast LGNPU_REG_DOORBELL, ucast LGNPU_REG_DMA_CTRL})"

text \<open>A clock in which the host does nothing but read registers.\<close>

definition calm :: "mmio_in \<Rightarrow> bool" where
  "calm m = (\<not> (mmio_valid m \<and> (mmio_wr m \<or> is_buf (mmio_addr m))))"

text \<open>The bench's accesses of a clock, and the device after a number of STATUS reads.\<close>

definition wr_in :: "u32 \<Rightarrow> u32 \<Rightarrow> mmio_in" where
  "wr_in a v = \<lparr>mmio_addr = ucast a, mmio_wdata = v, mmio_wr = True, mmio_valid = True\<rparr>"

definition rd_in :: "u32 \<Rightarrow> mmio_in" where
  "rd_in a = \<lparr>mmio_addr = ucast a, mmio_wdata = 0, mmio_wr = False, mmio_valid = True\<rparr>"

abbreviation polls :: "nat \<Rightarrow> device \<Rightarrow> device" where
  "polls k \<equiv> dev_tick (rd_in LGNPU_REG_STATUS) ^^ k"

text \<open>The device after reset, with an empty external memory and idle backends.\<close>

definition reset_device :: device where
  "reset_device =
     \<lparr>dev_shell = sh reset_soc, be_sel_r = 0, dev_vec = vec_reset,
      dev_dma = \<lparr>reader = engine_reset R_IDLE, writer = engine_reset W_IDLE\<rparr>, dev_bufs = reset_buffers,
      dev_perf = \<lparr>cnt_cycles = 0, cnt_active = 0, cnt_stall = 0\<rparr>,
      dev_ext = \<lparr>ext_memory = Map.empty, ext_rd_pending = False, ext_rd_addr_pending = 0\<rparr>,
      dev_others = (\<lambda>t. \<lparr>oth_ready = True, oth_done = False, oth_busy = False, oth_ports = snd quiet\<rparr>)\<rparr>"

section \<open>Lemmas on the views\<close>

lemma soc_view: "sh (soc_cycle m (soc_of d)) = dev_shell (dev_tick m d)"
  by (simp add: soc_of_def soc_cycle_def dev_tick_def Let_def split_def)

lemma soc_of_sel [simp]: "sh (soc_of d) = dev_shell d" "env (soc_of d) t = dev_env d"
  by (simp_all add: soc_of_def)

lemma dma_view_sel [simp]: "ds_dma (dma_view d) = dev_dma d" "ds_bufs (dma_view d) = dev_bufs d" "ds_ext (dma_view d) = dev_ext d"
  by (simp_all add: dma_view_def)

lemma live_no_reset: "shell_live (soc_of d) \<Longrightarrow> \<not> dev_resets d"
  by (simp add: shell_live_def dev_resets_def)

lemma dma_view_tick:
  assumes "\<not> dev_resets d"
  shows "dma_view (dev_tick m d) =
    dma_tick (dma_start_r (sh_regs (dev_shell d))) (dev_cfg d) (reg_buf_port m) (core_ports d) (dma_view d)"
  using assms by (simp add: dma_view_def dev_tick_def dma_tick_def dev_buf_port_def Let_def split_def)

lemma vec_step_view:
  assumes "\<not> dev_resets d"
  shows "dev_vec (dev_tick m d) =
    vec_ctrl_step (vec_cmd_valid d) (conv_to_vec_cmd (dispatch_cmd d)) (core_vec_in d) (dev_vec d)"
  using assms by (simp add: dev_tick_def Let_def split_def)

lemma bufs_view: "\<not> dev_resets d \<Longrightarrow> dev_bufs (dev_tick m d) = router_step (dev_buf_port m d) (core_ports d) (dev_bufs d)"
  by (simp add: dev_tick_def Let_def split_def)

lemma others_view [simp]: "dev_others (dev_tick m d) = (\<lambda>t. dev_others d (Suc t))"
  by (simp add: dev_tick_def Let_def split_def)

lemma others_quiet_tick [simp]: "others_quiet d \<Longrightarrow> others_quiet (dev_tick m d)"
  by (simp add: others_quiet_def)

section \<open>The data path at rest\<close>

lemma is_buf_window: "is_buf a \<longleftrightarrow> in_window a"
  by (simp add: is_buf_def in_window_iff LGNPU_WEIGHT_BUF_BASE_def)

lemma rest_ports:
  assumes "data_rest d"
  shows "\<not> be_act_wr_req (core_ports d)" "\<not> be_bias_req (core_ports d)" "\<not> Npu_Dma.dma_busy (dev_dma d)"
    "\<not> Npu_Dma.dma_done (dev_dma d)" "\<not> core_busy d" "\<not> core_done d"
  using assms
  by (auto simp: data_rest_def others_quiet_def core_ports_def vec_ports_def dma_rest_def dma_view_def Npu_Dma.dma_busy_def
      Npu_Dma.dma_done_def reader_busy_def writer_busy_def reader_done_def writer_done_def core_busy_def core_done_def
      vec_busy_def vec_done_def)

lemma data_tick:
  assumes "data_rest d" and "\<not> dev_resets d" and "\<not> dma_start_r (sh_regs (dev_shell d))" and "\<not> vec_cmd_valid d"
  shows "data_rest (dev_tick m d)"
    and "dev_mem (dev_tick m d) = (if mmio_valid m \<and> mmio_wr m \<and> is_buf (mmio_addr m)
      then local_store (mmio_addr m) (mmio_wdata m) else id) (dev_mem d)"
    and "ext_memory (dev_ext (dev_tick m d)) = ext_memory (dev_ext d)"
    and "mmio_valid m \<Longrightarrow> \<not> mmio_wr m \<Longrightarrow> is_buf (mmio_addr m) \<Longrightarrow> host_rvalid (dev_bufs (dev_tick m d)) \<and>
      host_rdata (dev_bufs (dev_tick m d)) = local_load (mmio_addr m) (dev_mem d)"
proof -
  note q = rest_ports [OF assms(1)]
  have port: "dev_buf_port m d = reg_buf_port m" using q(3) by (simp add: dev_buf_port_def shell_buf_port_def)
  have gnt: "host_gnt (reg_buf_port m) (core_ports d) \<longleftrightarrow> mmio_valid m \<and> is_buf (mmio_addr m)"
    using q(1) by (auto simp: host_gnt_iff reg_buf_port_def is_buf_window)
  note b = bufs_view [OF assms(2), of m, unfolded port]
  show "dev_mem (dev_tick m d) = (if mmio_valid m \<and> mmio_wr m \<and> is_buf (mmio_addr m)
      then local_store (mmio_addr m) (mmio_wdata m) else id) (dev_mem d)"
    using q(1) by (auto simp: b local_of_step gnt be_store_def) (simp_all add: reg_buf_port_def)
  show "host_rvalid (dev_bufs (dev_tick m d)) \<and>
      host_rdata (dev_bufs (dev_tick m d)) = local_load (mmio_addr m) (dev_mem d)"
    if "mmio_valid m" "\<not> mmio_wr m" "is_buf (mmio_addr m)"
    using host_read_step [of "reg_buf_port m" "core_ports d" "dev_bufs d"] gnt that
    by (simp add: b) (simp add: reg_buf_port_def)
  have i: "eng_state (reader (dev_dma d)) = R_IDLE" "eng_state (writer (dev_dma d)) = W_IDLE" "\<not> ext_rd_pending (dev_ext d)"
    using assms(1) by (simp_all add: data_rest_def dma_rest_def dma_view_def)
  have x: "dma_rest (dma_view (dev_tick m d))" "ext_memory (dev_ext (dev_tick m d)) = ext_memory (dev_ext d)"
    using i assms(2,3)
    by (auto simp: dma_rest_def dma_view_def dev_tick_def dma_frontend_step_def dma_reader_step_def dma_writer_step_def
        dma_ext_port_def reader_busy_def writer_busy_def update_ext_mem_def Let_def)
  then show "ext_memory (dev_ext (dev_tick m d)) = ext_memory (dev_ext d)" by simp
  have "vc_state (dev_vec (dev_tick m d)) = V_IDLE"
    using assms(1,4) by (simp add: vec_step_view [OF assms(2)] data_rest_def vec_ctrl_step_def vec_next_state_def Let_def)
  moreover have "\<not> bias_pending_r (dev_bufs (dev_tick m d))"
    using assms(1) q(2) by (simp add: b no_bias_step data_rest_def)
  ultimately show "data_rest (dev_tick m d)" using x(1) assms(1) by (simp add: data_rest_def)
qed

section \<open>The device at rest\<close>

text \<open>Predicates on the control path look at the shell only.\<close>

lemma sh_cong:
  assumes "sh p = sh q"
  shows "shell_live p = shell_live q" "shell_rung p = shell_rung q" "queue_room p = queue_room q"
    "pipe_idle p = pipe_idle q" "drained p = drained q" "resting p = resting q" "issuing c p = issuing c q"
    "shell_window p = shell_window q"
  using assms
  by (simp_all add: shell_live_def shell_rung_def queue_room_def pipe_idle_def drained_def resting_def issuing_def
      shell_window_def)

lemmas view_cong = sh_cong [OF trans [OF soc_of_sel(1) soc_view [symmetric]]]

lemma resting_access:
  assumes "resting p"
    and "mmio_valid m \<and> mmio_wr m \<Longrightarrow> mmio_addr m \<notin> {ucast LGNPU_REG_CTRL, ucast LGNPU_REG_DOORBELL}"
  shows "resting (soc_cycle m p)"
proof -
  from assms(1) have l: "shell_live p" "pipe_idle p" "\<not> shell_rung p" "drained p" "d_state (sh_decode (sh p)) \<noteq> D_VALID"
    by (simp_all add: resting_def pipe_idle_def)
  have "pipe_idle (soc_cycle m p)" using l assms(2) by (intro pipe_idle_access) auto
  moreover have "drained (soc_cycle m p)" using l by (intro drained_kept)
  moreover have "\<not> shell_rung (soc_cycle m p)"
    using assms(2) by (auto simp: shell_rung_def live_regs [OF l(1)] reg_block_step_def reg_block_write_def Let_def)
  ultimately show ?thesis by (simp add: resting_def)
qed

lemma resting_no_issue: "resting (soc_of d) \<Longrightarrow> \<not> vec_cmd_valid d \<and> \<not> dispatch_valid d"
  by (simp add: resting_def drained_def vec_cmd_valid_def dispatch_valid_def)

lemma no_start_kept:
  assumes "shell_live (soc_of d)" and "\<not> starts m"
  shows "\<not> dma_start_r (sh_regs (dev_shell (dev_tick m d)))"
  using assms(2)
  by (auto simp: soc_view [symmetric] live_regs [OF assms(1)] reg_block_step_def reg_block_write_def Let_def starts_def)

lemma rest_tick:
  assumes "dev_rest d" and "\<not> starts m"
  shows "dev_rest (dev_tick m d)"
    and "dev_mem (dev_tick m d) = (if mmio_valid m \<and> mmio_wr m \<and> is_buf (mmio_addr m)
      then local_store (mmio_addr m) (mmio_wdata m) else id) (dev_mem d)"
    and "ext_memory (dev_ext (dev_tick m d)) = ext_memory (dev_ext d)"
    and "mmio_valid m \<Longrightarrow> mmio_ready m (dev_tick m d)"
    and "mmio_valid m \<Longrightarrow> \<not> mmio_wr m \<Longrightarrow> is_buf (mmio_addr m) \<Longrightarrow>
      mmio_rdata (mmio_addr m) (dev_env (dev_tick m d)) (dev_shell (dev_tick m d)) = local_load (mmio_addr m) (dev_mem d)"
proof -
  have r: "resting (soc_of d)" "\<not> dma_start_r (sh_regs (dev_shell d))" "data_rest d"
    using assms(1) by (simp_all add: dev_rest_def)
  then have l: "shell_live (soc_of d)" by (simp add: resting_def pipe_idle_def)
  note t = data_tick [OF r(3) live_no_reset [OF l] r(2) conjunct1 [OF resting_no_issue [OF r(1)]], of m]
  have "resting (soc_of (dev_tick m d))" unfolding view_cong
    by (rule resting_access [OF r(1)]) (use assms(2) in \<open>auto simp: starts_def\<close>)
  then show rest: "dev_rest (dev_tick m d)" using t(1) no_start_kept [OF l assms(2)] by (simp add: dev_rest_def)
  show "dev_mem (dev_tick m d) = (if mmio_valid m \<and> mmio_wr m \<and> is_buf (mmio_addr m)
      then local_store (mmio_addr m) (mmio_wdata m) else id) (dev_mem d)"
    "ext_memory (dev_ext (dev_tick m d)) = ext_memory (dev_ext d)"
    by (rule t(2,3))+
  have p: "dev_buf_port m (dev_tick m d) = reg_buf_port m"
    using rest_ports(3) [OF t(1)] by (simp add: dev_buf_port_def shell_buf_port_def)
  show "mmio_ready m (dev_tick m d)" if "mmio_valid m"
    using that t(4) rest_ports(1) [OF t(1)]
    by (auto simp: mmio_ready_def p host_gnt_iff) (simp_all add: reg_buf_port_def is_buf_window)
  show "mmio_rdata (mmio_addr m) (dev_env (dev_tick m d)) (dev_shell (dev_tick m d)) = local_load (mmio_addr m) (dev_mem d)"
    if "mmio_valid m" "\<not> mmio_wr m" "is_buf (mmio_addr m)"
  proof -
    have "is_buf_r (sh_regs (dev_shell (dev_tick m d)))"
      using that by (simp add: soc_view [symmetric] live_regs [OF l] reg_block_step_def Let_def)
    with t(4) that show ?thesis by (simp add: mmio_rdata_def dev_env_def Let_def)
  qed
qed

section \<open>Accesses of the bench\<close>

lemma access_sel [simp]:
  "mmio_addr (wr_in a v) = ucast a" "mmio_wdata (wr_in a v) = v" "mmio_wr (wr_in a v)" "mmio_valid (wr_in a v)"
  "mmio_addr (rd_in a) = ucast a" "\<not> mmio_wr (rd_in a)" "mmio_valid (rd_in a)"
  by (simp_all add: wr_in_def rd_in_def)

lemma access_ready: "mmio_ready m (dev_tick m d) \<Longrightarrow> dev_access m d = Some (dev_tick m d)"
  by (subst dev_access.simps) simp

lemma bus_addr_20: "(ucast (ucast (a :: u32) :: u64) :: 20 word) = ucast a"
  by (rule bit_word_eqI) (auto simp: bit_simps dest: bit_imp_le_length)

lemma dev_write:
  "mmio_ready (wr_in a v) (dev_tick (wr_in a v) d) \<Longrightarrow> tb_mmio_write dev_dut a v (Some d) = Some (dev_tick (wr_in a v) d)"
  using access_ready [of "wr_in a v" d] by (simp add: tb_mmio_write_def dev_dut_def bus_addr_20 wr_in_def)

lemma dev_read:
  "mmio_ready (rd_in a) (dev_tick (rd_in a) d) \<Longrightarrow> tb_mmio_read dev_dut a (Some d) =
    (mmio_rdata (ucast a) (dev_env (dev_tick (rd_in a) d)) (dev_shell (dev_tick (rd_in a) d)), Some (dev_tick (rd_in a) d))"
  using access_ready [of "rd_in a" d] by (simp add: tb_mmio_read_def dev_dut_def bus_addr_20 rd_in_def)

lemma reg_ready: "\<not> is_buf (mmio_addr m) \<Longrightarrow> mmio_ready m d"
  by (simp add: mmio_ready_def)

lemma dev_clocks: "tb_run_clocks dev_dut n (Some d) = Some ((dev_tick no_access ^^ n) d)"
  by (induction n) (simp_all add: tb_run_clocks_def dev_dut_def)

text \<open>A byte address in the buffer windows, and a run of them.\<close>

lemma window_addr:
  assumes "0x10000 \<le> unat a" and "unat a + n \<le> 2 ^ 20" and "i < n"
  shows "(ucast (a + word_of_nat i :: u32) :: 20 word) = ucast a + word_of_nat i"
    and "is_buf (ucast (a + word_of_nat i :: u32) :: 20 word)"
    and "\<not> starts (wr_in (a + word_of_nat i) v)" "\<not> starts (rd_in (a + word_of_nat i))"
proof -
  have u: "unat (a + word_of_nat i) = unat a + i" using assms by (simp add: unat_word_ariths unat_of_nat)
  have l: "unat a + i < 2 ^ 20" using assms(2,3) by simp
  have a: "unat (ucast a :: 20 word) = unat a" using l by (simp add: unsigned_ucast_eq take_bit_nat_eq_self)
  have "unat (ucast (a + word_of_nat i) :: 20 word) = unat a + i"
    using l by (simp only: unsigned_ucast_eq u) (simp add: take_bit_nat_eq_self)
  moreover have "unat ((ucast a :: 20 word) + word_of_nat i) = unat a + i"
    using l by (simp add: unat_word_ariths unat_of_nat a)
  ultimately show e: "(ucast (a + word_of_nat i :: u32) :: 20 word) = ucast a + word_of_nat i"
    by (simp only: word_unat_eq_iff)
  show b: "is_buf (ucast (a + word_of_nat i :: u32) :: 20 word)"
    using window_range [of "ucast a :: 20 word" n i] assms by (simp only: e is_buf_window a)
  then show "\<not> starts (wr_in (a + word_of_nat i) v)" "\<not> starts (rd_in (a + word_of_nat i))"
    by (auto simp: starts_def is_buf_def c_consts)
qed

lemma load_bytes_rest:
  assumes "dev_rest d" and "0x10000 \<le> unat a" and "unat a + length data \<le> 2 ^ 20"
  shows "\<exists>d'. load_bytes dev_dut a data (Some d) = Some d' \<and> dev_rest d' \<and>
    ext_memory (dev_ext d') = ext_memory (dev_ext d) \<and>
    dev_mem d' = fold (\<lambda>i. local_store (ucast a + word_of_nat i) (ucast (data ! i))) [0..<length data] (dev_mem d)"
proof -
  have "\<exists>d'. fold (\<lambda>i. tb_mmio_write dev_dut (a + word_of_nat i) (ucast (data ! i))) [0..<k] (Some d) = Some d' \<and>
    dev_rest d' \<and> ext_memory (dev_ext d') = ext_memory (dev_ext d) \<and>
    dev_mem d' = fold (\<lambda>i. local_store (ucast a + word_of_nat i) (ucast (data ! i))) [0..<k] (dev_mem d)"
    if "k \<le> length data" for k
    using that
  proof (induction k)
    case (Suc k)
    then obtain d' where d': "fold (\<lambda>i. tb_mmio_write dev_dut (a + word_of_nat i) (ucast (data ! i))) [0..<k] (Some d) = Some d'"
      "dev_rest d'" "ext_memory (dev_ext d') = ext_memory (dev_ext d)"
      "dev_mem d' = fold (\<lambda>i. local_store (ucast a + word_of_nat i) (ucast (data ! i))) [0..<k] (dev_mem d)"
      by auto
    note w = window_addr [OF assms(2,3), of k]
    note t = rest_tick [OF d'(2) w(3), of "ucast (data ! k)"]
    from Suc.prems d' w t dev_write [of "a + word_of_nat k" "ucast (data ! k)" d'] show ?case by simp
  qed (use assms(1) in simp)
  from this [OF le_refl] show ?thesis by (simp add: load_bytes_def)
qed

lemma read_bytes_rest:
  assumes "dev_rest d" and "0x10000 \<le> unat a" and "unat a + n \<le> 2 ^ 20"
  shows "\<exists>d'. read_bytes dev_dut a n (Some d) =
      (map (\<lambda>i. ucast (local_load (ucast a + word_of_nat i) (dev_mem d) AND 0xFF)) [0..<n], Some d') \<and> dev_rest d'"
proof -
  let ?f = "\<lambda>i (out, s). let (raw, s) = tb_mmio_read dev_dut (a + word_of_nat i) s in (out[i := ucast (raw AND 0xFF) :: i8], s)"
  let ?v = "\<lambda>i. ucast (local_load (ucast a + word_of_nat i) (dev_mem d) AND 0xFF) :: i8"
  have "\<exists>d'. fold ?f [0..<k] (out, Some d) = (fold (\<lambda>i out. out[i := ?v i]) [0..<k] out, Some d') \<and> dev_rest d' \<and>
      dev_mem d' = dev_mem d" if "k \<le> n" for k out
    using that
  proof (induction k)
    case (Suc k)
    then obtain d' where d': "fold ?f [0..<k] (out, Some d) = (fold (\<lambda>i out. out[i := ?v i]) [0..<k] out, Some d')"
      "dev_rest d'" "dev_mem d' = dev_mem d"
      by auto
    note w = window_addr [OF assms(2,3), of k]
    note t = rest_tick [OF d'(2) w(4)]
    from Suc.prems d' w t dev_read [of "a + word_of_nat k" d'] show ?case by simp
  qed (use assms(1) in simp)
  from this [OF le_refl, of "replicate n 0"] show ?thesis
    unfolding read_bytes_def by (auto simp: fold_update)
qed

section \<open>Waiting for idle\<close>

lemma calm_accesses [simp]: "calm no_access" "calm (rd_in LGNPU_REG_STATUS)"
  by (simp_all add: calm_def is_buf_def c_consts)

lemma calm_starts: "calm m \<Longrightarrow> \<not> starts m"
  by (auto simp: calm_def starts_def)

lemma polls_fold: "polls k d = fold dev_tick (replicate k (rd_in LGNPU_REG_STATUS)) d"
  by (induction k arbitrary: d) (simp_all add: funpow_swap1)

lemma status_access:
  assumes "shell_live (soc_of d)"
  shows "bus_read (dut_bus dev_dut) (ucast LGNPU_REG_STATUS) (Some d) =
    (status_word (dev_env (polls 1 d)) (dev_shell (polls 1 d)), Some (polls 1 d))"
proof -
  let ?m = "rd_in LGNPU_REG_STATUS"
  have r: "mmio_ready ?m (dev_tick ?m d)" by (rule reg_ready) (simp add: is_buf_def c_consts)
  have "\<not> is_buf_r (sh_regs (dev_shell (dev_tick ?m d)))"
    by (simp add: soc_view [symmetric] live_regs [OF assms] reg_block_step_def Let_def is_buf_def c_consts)
  then have "mmio_rdata (ucast LGNPU_REG_STATUS) (dev_env (dev_tick ?m d)) (dev_shell (dev_tick ?m d)) =
      status_word (dev_env (dev_tick ?m d)) (dev_shell (dev_tick ?m d))"
    by (simp add: mmio_rdata_def Let_def) (simp add: c_consts)
  with dev_read [OF r] show ?thesis by (simp add: tb_mmio_read_def)
qed

lemma status_accesses:
  assumes "\<And>j. j \<le> k \<Longrightarrow> shell_live (soc_of (polls j d))"
  shows "bus_reads (dut_bus dev_dut) (ucast LGNPU_REG_STATUS) k (Some d) = Some (polls k d)"
    and "bus_value (dut_bus dev_dut) (ucast LGNPU_REG_STATUS) k (Some d) =
      status_word (dev_env (polls (Suc k) d)) (dev_shell (polls (Suc k) d))"
proof -
  show r: "bus_reads (dut_bus dev_dut) (ucast LGNPU_REG_STATUS) k (Some d) = Some (polls k d)"
    using assms
  proof (induction k arbitrary: d)
    case (Suc k)
    have "shell_live (soc_of d)" using Suc.prems [of 0] by simp
    moreover have "shell_live (soc_of (polls j (polls 1 d)))" if "j \<le> k" for j
      using Suc.prems [of "Suc j"] that by (simp add: funpow_swap1)
    ultimately show ?case using Suc.IH [of "polls 1 d"] by (simp add: status_access funpow_swap1)
  qed simp
  show "bus_value (dut_bus dev_dut) (ucast LGNPU_REG_STATUS) k (Some d) =
      status_word (dev_env (polls (Suc k) d)) (dev_shell (polls (Suc k) d))"
    using assms [of k] by (simp add: bus_value_def r status_access)
qed

lemma dev_wait_idle:
  assumes "\<And>j. shell_live (soc_of (polls j d))" and "K < 200000" and "core_idle (dev_env (polls (Suc K) d)) (dev_shell (polls (Suc K) d))"
  obtains k where "wait_idle dev_dut 200000 (Some d) = Some (True, Some (polls (Suc k) d))" and "k \<le> K"
    and "core_idle (dev_env (polls (Suc k) d)) (dev_shell (polls (Suc k) d))"
proof -
  let ?v = "\<lambda>k. bus_value (dut_bus dev_dut) (ucast LGNPU_REG_STATUS) k (Some d)"
  have v: "bit (?v k) 0 \<longleftrightarrow> core_idle (dev_env (polls (Suc k) d)) (dev_shell (polls (Suc k) d))" for k
    using assms(1) by (simp only: status_accesses(2) status_bits(1))
  define k where "k = (LEAST k. bit (?v k) 0)"
  have K: "bit (?v K) 0" using assms(3) by (simp only: v)
  have "bit (?v k) 0" "k \<le> K" unfolding k_def using K by (rule LeastI, rule Least_le) 
  moreover have "\<exists>k<200000. bit (?v k) 0" using K assms(2) by blast
  then have "wait_idle dev_dut 200000 (Some d) = Some (True, Some (polls (Suc k) d))"
    unfolding wait_idle_eq k_def [symmetric] using status_accesses(1) [of "Suc k" d] assms(1) by simp
  ultimately show thesis using that v by blast
qed

section \<open>A DMA transfer on the device\<close>

lemma data_rest_iff: "data_rest d \<longleftrightarrow> dma_rest (dma_view d) \<and> core_rest d"
  by (auto simp: data_rest_def core_rest_def)

lemma core_rest_ports:
  "core_rest d \<Longrightarrow> \<not> be_act_wr_req (core_ports d) \<and> \<not> be_bias_req (core_ports d) \<and> \<not> core_busy d"
  by (simp add: core_rest_def others_quiet_def core_ports_def vec_ports_def core_busy_def vec_busy_def)

lemma core_rest_tick:
  assumes "core_rest d" and "\<not> dev_resets d" and "\<not> vec_cmd_valid d"
  shows "core_rest (dev_tick m d)"
  using assms core_rest_ports [OF assms(1)]
  by (simp add: core_rest_def vec_step_view bufs_view no_bias_step vec_ctrl_step_def vec_next_state_def Let_def)

lemma calm_port: "calm m \<Longrightarrow> \<not> host_req (reg_buf_port m)"
  by (auto simp: calm_def reg_buf_port_def)

lemma dma_timeline:
  assumes "resting (soc_of d)" and "data_rest d" and "dma_start_r (sh_regs (dev_shell d))" and "calm m"
    and "\<forall>m \<in> set ms. calm m"
  shows "resting (soc_of (fold dev_tick (m # ms) d)) \<and> core_rest (fold dev_tick (m # ms) d) \<and>
    \<not> dma_start_r (sh_regs (dev_shell (fold dev_tick (m # ms) d))) \<and>
    (\<exists>first ins. length ins = length ms \<and> (\<forall>(h, p) \<in> set (first # ins). \<not> host_req h \<and> \<not> be_act_wr_req p) \<and>
       dma_view (fold dev_tick (m # ms) d) = dma_request (dev_cfg d) first ins (dma_view d))"
  using assms(5)
proof (induction ms rule: rev_induct)
  case Nil
  have l: "shell_live (soc_of d)" using assms(1) by (simp add: resting_def pipe_idle_def)
  have r: "\<not> dev_resets d" "\<not> vec_cmd_valid d" "core_rest d"
    using live_no_reset [OF l] resting_no_issue [OF assms(1)] assms(2) by (simp_all add: data_rest_iff)
  have "resting (soc_of (dev_tick m d))"
    unfolding view_cong using assms(1,4) by (intro resting_access) (auto simp: calm_def)
  moreover have "dma_view (dev_tick m d) = dma_request (dev_cfg d) (reg_buf_port m, core_ports d) [] (dma_view d)"
    using assms(3) by (simp add: dma_view_tick [OF r(1)] dma_request_def dma_clocks_def)
  ultimately show ?case
    using core_rest_tick [OF r(3,1,2)] no_start_kept [OF l calm_starts [OF assms(4)]] calm_port [OF assms(4)]
      core_rest_ports [OF r(3)]
    by (intro conjI exI [of _ "(reg_buf_port m, core_ports d)"] exI [of _ "[]"]) simp_all
next
  case (snoc a ms)
  define t where "t = fold dev_tick (m # ms) d"
  from snoc obtain first ins where IH: "resting (soc_of t)" "core_rest t" "\<not> dma_start_r (sh_regs (dev_shell t))"
    "length ins = length ms" "\<forall>(h, p) \<in> set (first # ins). \<not> host_req h \<and> \<not> be_act_wr_req p"
    "dma_view t = dma_request (dev_cfg d) first ins (dma_view d)" and a: "calm a"
    by (auto simp: t_def)
  have l: "shell_live (soc_of t)" using IH(1) by (simp add: resting_def pipe_idle_def)
  have r: "\<not> dev_resets t" "\<not> vec_cmd_valid t" using live_no_reset [OF l] resting_no_issue [OF IH(1)] by simp_all
  have "resting (soc_of (dev_tick a t))"
    unfolding view_cong using IH(1) a by (intro resting_access) (auto simp: calm_def)
  moreover have "dma_view (dev_tick a t) = dma_request (dev_cfg d) first (ins @ [(reg_buf_port a, core_ports t)]) (dma_view d)"
    using IH(3) dma_tick_cfg [of "dev_cfg t" "dev_cfg d"]
    by (simp add: dma_view_tick [OF r(1)] IH(6) dma_request_def dma_clocks_def)
  moreover have "\<forall>(h, p) \<in> set (first # (ins @ [(reg_buf_port a, core_ports t)])). \<not> host_req h \<and> \<not> be_act_wr_req p"
    using IH(5) calm_port [OF a] core_rest_ports [OF IH(2)] by auto
  moreover have "length (ins @ [(reg_buf_port a, core_ports t)]) = length (ms @ [a])" using IH(4) by simp
  moreover have "fold dev_tick (m # (ms @ [a])) d = dev_tick a t" by (simp add: t_def)
  ultimately show ?case
    using core_rest_tick [OF IH(2) r] no_start_kept [OF l calm_starts [OF a]] by metis
qed

lemma cfg_writes:
  assumes "shell_live (soc_of d)"
  shows "dev_cfg (dev_tick (wr_in LGNPU_REG_DMA_EXT_ADDR v) d) = (dev_cfg d)\<lparr>cfg_ext_addr := v\<rparr>"
    "dev_cfg (dev_tick (wr_in LGNPU_REG_DMA_LOC_ADDR v) d) = (dev_cfg d)\<lparr>cfg_loc_addr := ucast v\<rparr>"
    "dev_cfg (dev_tick (wr_in LGNPU_REG_DMA_LEN v) d) = (dev_cfg d)\<lparr>cfg_len := ucast v\<rparr>"
    "dev_cfg (dev_tick (wr_in LGNPU_REG_DMA_CTRL v) d) = (dev_cfg d)\<lparr>cfg_dir := bit v 1\<rparr>"
    "dma_start_r (sh_regs (dev_shell (dev_tick (wr_in LGNPU_REG_DMA_CTRL v) d))) \<longleftrightarrow> bit v 0"
  by (simp_all add: dev_cfg_def soc_view [symmetric] live_regs [OF assms] reg_block_step_def reg_decode reg_block_write_def Let_def)
    (simp_all add: c_consts)

lemma reg_write:
  assumes "\<not> is_buf (ucast a :: 20 word)"
  shows "tb_mmio_write dev_dut a v (Some d) = Some (dev_tick (wr_in a v) d)"
  using assms by (intro dev_write reg_ready) simp

text \<open>A register write that starts nothing, on the resting device.\<close>

lemma rest_reg_write:
  assumes "dev_rest d" and "\<not> starts (wr_in a v)" and "\<not> is_buf (ucast a :: 20 word)"
  shows "dev_rest (dev_tick (wr_in a v) d)" "dev_mem (dev_tick (wr_in a v) d) = dev_mem d"
    "ext_memory (dev_ext (dev_tick (wr_in a v) d)) = ext_memory (dev_ext d)"
  using rest_tick [OF assms(1,2)] assms(3) by simp_all

lemma rest_live: "dev_rest d \<Longrightarrow> shell_live (soc_of d)"
  by (simp add: dev_rest_def resting_def pipe_idle_def)

lemma dma_started:
  assumes "dev_rest d"
  obtains d' where "dma_requested dev_dut ea la len dir (Some d) = Some ((dev_tick no_access ^^ 4) d')"
    and "resting (soc_of d')" and "data_rest d'" and "dma_start_r (sh_regs (dev_shell d'))"
    and "dev_cfg d' = \<lparr>cfg_ext_addr = ea, cfg_loc_addr = ucast la, cfg_len = ucast len, cfg_dir = odd dir\<rparr>"
    and "dev_mem d' = dev_mem d" and "ext_memory (dev_ext d') = ext_memory (dev_ext d)"
proof -
  define d1 where "d1 = dev_tick (wr_in LGNPU_REG_DMA_EXT_ADDR ea) d"
  define d2 where "d2 = dev_tick (wr_in LGNPU_REG_DMA_LOC_ADDR la) d1"
  define d3 where "d3 = dev_tick (wr_in LGNPU_REG_DMA_LEN len) d2"
  let ?v = "if odd dir then 3 else 1 :: u32"
  define d4 where "d4 = dev_tick (wr_in LGNPU_REG_DMA_CTRL ?v) d3"
  have b: "\<not> is_buf (ucast LGNPU_REG_DMA_EXT_ADDR)" "\<not> is_buf (ucast LGNPU_REG_DMA_LOC_ADDR)"
    "\<not> is_buf (ucast LGNPU_REG_DMA_LEN)" "\<not> is_buf (ucast LGNPU_REG_DMA_CTRL)"
    by (simp_all add: is_buf_def c_consts)
  have st: "\<not> starts (wr_in LGNPU_REG_DMA_EXT_ADDR ea)" "\<not> starts (wr_in LGNPU_REG_DMA_LOC_ADDR la)"
    "\<not> starts (wr_in LGNPU_REG_DMA_LEN len)"
    by (simp_all add: starts_def c_consts)
  note r1 = rest_reg_write [OF assms st(1) b(1), folded d1_def]
  note r2 = rest_reg_write [OF r1(1) st(2) b(2), folded d2_def]
  note r3 = rest_reg_write [OF r2(1) st(3) b(3), folded d3_def]
  have q: "data_rest d3" "\<not> dev_resets d3" "\<not> dma_start_r (sh_regs (dev_shell d3))" "\<not> vec_cmd_valid d3" "resting (soc_of d3)"
    using r3(1) live_no_reset [OF rest_live [OF r3(1)]] resting_no_issue [of d3] by (simp_all add: dev_rest_def)
  note t = data_tick [OF q(1-4), of "wr_in LGNPU_REG_DMA_CTRL ?v", folded d4_def]
  have "resting (soc_of d4)"
    unfolding d4_def view_cong using q(5) by (intro resting_access) (simp_all add: c_consts)
  moreover have "dma_requested dev_dut ea la len dir (Some d) = Some ((dev_tick no_access ^^ 4) d4)"
    by (simp add: dma_requested_def reg_write b dev_clocks d1_def d2_def d3_def d4_def)
  moreover have "dev_cfg d4 = \<lparr>cfg_ext_addr = ea, cfg_loc_addr = ucast la, cfg_len = ucast len, cfg_dir = odd dir\<rparr>"
    using rest_live [OF assms] rest_live [OF r1(1)] rest_live [OF r2(1)] rest_live [OF r3(1)]
    by (simp add: d4_def d3_def d2_def d1_def cfg_writes)
  moreover have "dma_start_r (sh_regs (dev_shell d4))"
    by (simp add: d4_def cfg_writes(5) [OF rest_live [OF r3(1)]])
  ultimately show thesis using t(1-3) b(4) r1 r2 r3 by (intro that [of d4]) simp_all
qed

lemma resting_idle:
  assumes "resting (soc_of d)" and "core_rest d"
  shows "core_idle (dev_env d) (dev_shell d) \<longleftrightarrow> \<not> Npu_Dma.dma_busy (dev_dma d)"
proof -
  have "fifo_empty (sh_queue (dev_shell d))"
    using assms(1) length_contents [of "sh_queue (dev_shell d)"]
    by (simp add: resting_def drained_def fifo_empty_iff del: length_contents)
  with assms core_rest_ports [OF assms(2)] show ?thesis
    by (simp add: core_idle_def resting_def pipe_idle_def dev_env_def)
qed

lemma copy_cong:
  assumes "ext_memory x = ext_memory y"
  shows "copy_in ea la x n m = copy_in ea la y n m" "ext_memory (copy_out ea la m n x) = ext_memory (copy_out ea la m n y)"
proof -
  show "copy_in ea la x n m = copy_in ea la y n m"
    using assms by (simp add: copy_in_def ext_load_def)
  show "ext_memory (copy_out ea la m n x) = ext_memory (copy_out ea la m n y)"
    using assms by (induction n) (simp_all add: copy_out_Suc ext_store_def, simp_all add: copy_out_def)
qed

text \<open>The device after its request and any number of polls.\<close>

lemma polled_transfer:
  assumes "resting (soc_of d)" and "data_rest d" and "dma_start_r (sh_regs (dev_shell d))"
    and "cfg = dev_cfg d" and n: "n = xfer_len (cfg_len cfg)" and "0x10000 \<le> unat (cfg_loc_addr cfg)"
    and "unat (cfg_loc_addr cfg) + n \<le> 2 ^ 20"
  defines "t \<equiv> \<lambda>j. polls j ((dev_tick no_access ^^ 4) d)"
  shows "resting (soc_of (t j))" "core_rest (t j)" "\<not> dma_start_r (sh_regs (dev_shell (t j)))"
    and "3 + j < 3 * n \<Longrightarrow> Npu_Dma.dma_busy (dev_dma (t j))"
    and "3 * n \<le> 3 + j \<Longrightarrow> settled (dma_view (t j)) \<and> (if cfg_dir cfg
      then dev_mem (t j) = dev_mem d \<and> ext_memory (dev_ext (t j)) = ext_memory
        (copy_out (cfg_ext_addr cfg) (cfg_loc_addr cfg) (dev_mem d) n (dev_ext d))
      else ext_memory (dev_ext (t j)) = ext_memory (dev_ext d) \<and> dev_mem (t j) =
        copy_in (cfg_ext_addr cfg) (cfg_loc_addr cfg) (dev_ext d) n (dev_mem d))"
proof -
  let ?ms = "replicate 3 no_access @ replicate j (rd_in LGNPU_REG_STATUS)"
  have e: "fold dev_tick (no_access # ?ms) d = t j"
    unfolding t_def polls_fold [of j] by (simp add: eval_nat_numeral del: funpow.simps) (simp add: eval_nat_numeral)
  have c: "\<forall>m \<in> set ?ms. calm m" by (auto simp: set_replicate_conv_if)
  note tl0 = dma_timeline [OF assms(1-3) calm_accesses(1) c, unfolded e, folded assms(4)]
  then obtain first ins where tl: "resting (soc_of (t j))" "core_rest (t j)" "\<not> dma_start_r (sh_regs (dev_shell (t j)))"
    "length ins = length ?ms" "\<forall>(h, p) \<in> set (first # ins). \<not> host_req h \<and> \<not> be_act_wr_req p"
    "dma_view (t j) = dma_request cfg first ins (dma_view d)"
    by blast
  have len: "length ins = 3 + j" unfolding tl(4) by simp
  show "resting (soc_of (t j))" "core_rest (t j)" "\<not> dma_start_r (sh_regs (dev_shell (t j)))" using tl by simp_all
  have r: "dma_rest (dma_view d)" using assms(2) by (simp add: data_rest_def)
  have q: "\<not> (host_req (fst first) \<and> host_wr (fst first))" "\<forall>(h, p) \<in> set (first # ins). \<not> be_act_wr_req p"
    using tl(5) by (auto simp: split_def)
  show "Npu_Dma.dma_busy (dev_dma (t j))" if "3 + j < 3 * n"
    using transfer_busy [OF r q, of cfg] that assms(6,7) len unfolding n tl(6) [symmetric] by (simp add: dma_view_def)
  show "settled (dma_view (t j)) \<and> (if cfg_dir cfg
      then dev_mem (t j) = dev_mem d \<and> ext_memory (dev_ext (t j)) = ext_memory
        (copy_out (cfg_ext_addr cfg) (cfg_loc_addr cfg) (dev_mem d) n (dev_ext d))
      else ext_memory (dev_ext (t j)) = ext_memory (dev_ext d) \<and> dev_mem (t j) =
        copy_in (cfg_ext_addr cfg) (cfg_loc_addr cfg) (dev_ext d) n (dev_mem d))" if "3 * n \<le> 3 + j"
    using transfer_after [OF r tl(5) n _ assms(6,7)] that len unfolding tl(6) [symmetric]
    by (cases "cfg_dir cfg") simp_all
qed

text \<open>The clock that clears the interrupt brings the device back to rest.\<close>

lemma irq_clear_rest:
  assumes "resting (soc_of d)" and "core_rest d" and "\<not> dma_start_r (sh_regs (dev_shell d))" and "settled (dma_view d)"
  defines "d' \<equiv> dev_tick (wr_in LGNPU_REG_IRQ_CLEAR 1) d"
  shows "tb_mmio_write dev_dut LGNPU_REG_IRQ_CLEAR 1 (Some d) = Some d'" "dev_rest d'" "dev_mem d' = dev_mem d"
    "ext_memory (dev_ext d') = ext_memory (dev_ext d)"
proof -
  have b: "\<not> is_buf (ucast LGNPU_REG_IRQ_CLEAR)" "\<not> starts (wr_in LGNPU_REG_IRQ_CLEAR 1)"
    by (simp_all add: is_buf_def starts_def c_consts)
  show "tb_mmio_write dev_dut LGNPU_REG_IRQ_CLEAR 1 (Some d) = Some d'" by (simp add: reg_write b d'_def)
  have l: "shell_live (soc_of d)" using assms(1) by (simp add: resting_def pipe_idle_def)
  have r: "\<not> dev_resets d" "\<not> vec_cmd_valid d" using live_no_reset [OF l] resting_no_issue [OF assms(1)] by simp_all
  have h: "\<not> host_req (reg_buf_port (wr_in LGNPU_REG_IRQ_CLEAR 1))" using b by (simp add: reg_buf_port_def)
  note t = settled_tick [OF assms(4) h, of "core_ports d" "dev_cfg d", OF conjunct1 [OF core_rest_ports [OF assms(2)]]]
  have v: "dma_view d' = dma_tick False (dev_cfg d) (reg_buf_port (wr_in LGNPU_REG_IRQ_CLEAR 1)) (core_ports d) (dma_view d)"
    using assms(3) by (simp add: d'_def dma_view_tick [OF r(1)])
  have "resting (soc_of d')" unfolding d'_def view_cong using assms(1) by (intro resting_access) (simp_all add: c_consts)
  then show "dev_rest d'"
    using t(1) core_rest_tick [OF assms(2) r] no_start_kept [OF l b(2)]
    by (simp add: dev_rest_def data_rest_iff v) (simp add: d'_def)
  show "dev_mem d' = dev_mem d" "ext_memory (dev_ext d') = ext_memory (dev_ext d)"
    using t(2,3) unfolding v [symmetric] by (simp_all add: dma_view_def)
qed

lemma dev_dma_transfer:
  assumes "dev_rest d" and n: "n = xfer_len (ucast len)" and "0x10000 \<le> unat la" and "unat la + n \<le> 2 ^ 20"
  obtains t t' where "tb_dma_transfer dev_dut ea la len dir 200000 (Some d) = Some (True, Some t)"
    and "tb_mmio_write dev_dut LGNPU_REG_IRQ_CLEAR 1 (Some t) = Some t'" and "dev_rest t'"
    and "if odd dir
      then dev_mem t' = dev_mem d \<and> ext_memory (dev_ext t') = ext_memory (copy_out ea (ucast la) (dev_mem d) n (dev_ext d))
      else ext_memory (dev_ext t') = ext_memory (dev_ext d) \<and> dev_mem t' = copy_in ea (ucast la) (dev_ext d) n (dev_mem d)"
proof -
  obtain d' where d': "dma_requested dev_dut ea la len dir (Some d) = Some ((dev_tick no_access ^^ 4) d')"
    "resting (soc_of d')" "data_rest d'" "dma_start_r (sh_regs (dev_shell d'))"
    "dev_cfg d' = \<lparr>cfg_ext_addr = ea, cfg_loc_addr = ucast la, cfg_len = ucast len, cfg_dir = odd dir\<rparr>"
    "dev_mem d' = dev_mem d" "ext_memory (dev_ext d') = ext_memory (dev_ext d)"
    using dma_started [OF assms(1)] by blast
  have pos: "0 < n" "n \<le> 65535" using n unat_u16_le [of "ucast len"] by (auto simp: xfer_len_def max_def)
  have a: "unat (ucast la :: 20 word) = unat la"
    using assms(4) pos by (simp add: unsigned_ucast_eq take_bit_nat_eq_self)
  define s where "s = (dev_tick no_access ^^ 4) d'"
  define cfg where "cfg = dev_cfg d'"
  have c: "cfg_ext_addr cfg = ea" "cfg_loc_addr cfg = ucast la" "cfg_dir cfg = odd dir" "n = xfer_len (cfg_len cfg)"
    by (simp_all add: cfg_def d'(5) n)
  have w: "0x10000 \<le> unat (cfg_loc_addr cfg)" "unat (cfg_loc_addr cfg) + n \<le> 2 ^ 20"
    using assms(3,4) by (simp_all only: c a)
  note p = polled_transfer [OF d'(2-4) cfg_def c(4) w, folded s_def]
  have live: "shell_live (soc_of (polls j s))" for j using p(1) [of j] by (simp add: resting_def pipe_idle_def)
  have idle: "core_idle (dev_env (polls j s)) (dev_shell (polls j s)) \<longleftrightarrow> 3 * n \<le> 3 + j" for j
    using resting_idle [OF p(1,2), of j] p(4,5) [of j] settled_idle [of "dma_view (polls j s)"]
    by (auto simp: dma_view_def not_le [symmetric])
  have "core_idle (dev_env (polls (Suc (3 * n)) s)) (dev_shell (polls (Suc (3 * n)) s))" unfolding idle by simp
  from dev_wait_idle [OF live _ this] pos obtain k
    where k: "wait_idle dev_dut 200000 (Some s) = Some (True, Some (polls (Suc k) s))"
      "core_idle (dev_env (polls (Suc k) s)) (dev_shell (polls (Suc k) s))"
    by auto
  define t where "t = polls (Suc k) s"
  have le: "3 * n \<le> 3 + Suc k" using k(2) by (simp only: idle)
  have f: "settled (dma_view t)" "if odd dir
      then dev_mem t = dev_mem d \<and> ext_memory (dev_ext t) = ext_memory (copy_out ea (ucast la) (dev_mem d) n (dev_ext d))
      else ext_memory (dev_ext t) = ext_memory (dev_ext d) \<and> dev_mem t = copy_in ea (ucast la) (dev_ext d) n (dev_mem d)"
    using p(5) [OF le] unfolding t_def [symmetric] c(1-3) d'(6,7) copy_cong [OF d'(7)] by simp_all
  note i = irq_clear_rest [OF p(1-3) [of "Suc k"], folded t_def, OF f(1)]
  show thesis
    using that [OF _ i(1,2)] k(1) f(2) unfolding dma_transfer_request d'(1) s_def [symmetric] t_def [symmetric] i(3,4) by simp
qed

section \<open>The bench's DMA tests\<close>

lemma ext_load_loaded:
  assumes "length data \<le> 2 ^ 32" and "i < length data"
  shows "ext_load (a + word_of_nat i) (ext_load_bytes a data m) = ucast (data ! i)"
  using ext_load_bytes_lookup [OF assms(1) le_refl assms(2), of a m] by (simp add: ext_load_def ext_load_bytes_def)

lemma ext_load_bytes_pending: "ext_rd_pending (ext_load_bytes a data m) = ext_rd_pending m"
proof -
  have "ext_rd_pending (fold (\<lambda>i m. m\<lparr>ext_memory := (ext_memory m)(a + word_of_nat i \<mapsto> ucast (data ! i))\<rparr>) xs m) = ext_rd_pending m" for xs
    by (induction xs arbitrary: m) simp_all
  then show ?thesis by (simp add: ext_load_bytes_def)
qed

lemma rest_ext_set:
  assumes "dev_rest d"
  shows "dev_rest (d\<lparr>dev_ext := ext_load_bytes a data (dev_ext d)\<rparr>)"
proof -
  let ?d = "d\<lparr>dev_ext := ext_load_bytes a data (dev_ext d)\<rparr>"
  have "resting (soc_of ?d) = resting (soc_of d)" by (rule sh_cong) simp
  then show ?thesis
    using assms by (simp add: dev_rest_def data_rest_def dma_rest_def others_quiet_def ext_load_bytes_pending)
qed

lemma stored_is_copied:
  assumes "length data \<le> 2 ^ 32"
  shows "fold (\<lambda>i. local_store (la + word_of_nat i) (ucast (data ! i))) [0..<length data] m =
    copy_in ea la (ext_load_bytes ea data x) (length data) m"
  unfolding copy_in_def using assms by (intro fold_cong) (simp_all add: ext_load_loaded)

lemma low_byte: "(ucast (v AND 0xFF) :: u8) = ucast v" for v :: u32
proof -
  have m: "(0xFF :: u32) = mask 8" by (simp add: mask_eq_exp_minus_1)
  show ?thesis unfolding m by (rule bit_word_eqI) (auto simp: bit_simps)
qed

lemma byte_back: "(ucast (ucast x :: u32) :: u8) = x" for x :: i8
  by (rule bit_word_eqI) (auto simp: bit_simps)

text \<open>Bytes copied into a window are read back.\<close>

lemma copied_bytes:
  assumes "0x10000 \<le> unat la" and "unat la + length data \<le> 2 ^ 20" and "length data \<le> 4096"
  shows "map (\<lambda>i. ucast (local_load (la + word_of_nat i) (copy_in ea la (ext_load_bytes ea data x) (length data) m)))
    [0..<length data] = data"
proof -
  have "map (\<lambda>i. ucast (local_load (la + word_of_nat i) (copy_in ea la (ext_load_bytes ea data x) (length data) m)))
      [0..<length data] = map (\<lambda>i. data ! i) [0..<length data]"
    using assms copy_in_load [OF assms le_refl, of _ ea "ext_load_bytes ea data x" m]
    by (intro map_cong refl) (simp add: ext_load_loaded byte_back)
  then show ?thesis by (simp add: map_nth)
qed

lemma bench_len:
  assumes "1 \<le> n" and "n \<le> 4096"
  shows "xfer_len (ucast (word_of_nat n :: u32)) = n"
  using assms by (simp add: xfer_len_def unsigned_ucast_eq unat_of_nat take_bit_nat_eq_self take_bit_eq_mod)

lemma addr_20:
  assumes "0x10000 \<le> unat la" and "unat la + n \<le> 2 ^ 20" and "1 \<le> n"
  shows "unat (ucast (la :: u32) :: 20 word) = unat la"
  using assms by (simp add: unsigned_ucast_eq take_bit_nat_eq_self)

lemma dma_read_test_passes:
  assumes "dev_rest d" and "1 \<le> length data" and "length data \<le> 4096" and "0x10000 \<le> unat la"
    and "unat la + length data \<le> 2 ^ 20"
  shows "\<exists>d'. run_dma_read_test dev_tb data ea la (Some d) = Some (True, Some d') \<and> dev_rest d'"
proof -
  define n where "n = length data"
  define d0 where "d0 = d\<lparr>dev_ext := ext_load_bytes ea data (dev_ext d)\<rparr>"
  have r0: "dev_rest d0" unfolding d0_def using assms(1) by (rule rest_ext_set)
  have n: "n = xfer_len (ucast (word_of_nat n :: u32))" using assms(2,3) by (simp add: n_def bench_len)
  have w: "unat la + n \<le> 2 ^ 20" using assms(5) by (simp add: n_def)
  obtain t t' where t: "tb_dma_transfer dev_dut ea la (word_of_nat n) 0 200000 (Some d0) = Some (True, Some t)"
    "tb_mmio_write dev_dut LGNPU_REG_IRQ_CLEAR 1 (Some t) = Some t'" "dev_rest t'"
    "dev_mem t' = copy_in ea (ucast la) (dev_ext d0) n (dev_mem d0)"
    using dev_dma_transfer [OF r0 n assms(4) w, where ea = ea and dir = 0] by (metis even_zero)
  obtain d' where d': "read_bytes dev_dut la n (Some t') =
      (map (\<lambda>i. ucast (local_load (ucast la + word_of_nat i) (dev_mem t') AND 0xFF)) [0..<n], Some d')" "dev_rest d'"
    using read_bytes_rest [OF t(3) assms(4), of n] assms(5) by (auto simp: n_def)
  have "map (\<lambda>i. ucast (local_load (ucast la + word_of_nat i) (dev_mem t') AND 0xFF)) [0..<n] = data"
    using copied_bytes [of "ucast la" data ea "dev_ext d" "dev_mem d"] addr_20 [OF assms(4,5,2)] assms(3-5)
    by (simp add: t(4) low_byte n_def d0_def)
  with d' have "read_bytes dev_dut la n (Some t') = (data, Some d')" by simp
  then have "run_dma_read_test dev_tb data ea la (Some d) = Some (True, Some d')"
    using t(1,2) unfolding run_dma_read_test_def
    by (simp add: dev_tb_def compare_bytes_iff flip: n_def d0_def)
  with d'(2) show ?thesis by blast
qed

lemma dma_write_test_passes:
  assumes "dev_rest d" and "1 \<le> length data" and "length data \<le> 4096" and "0x10000 \<le> unat la"
    and "unat la + length data \<le> 2 ^ 20"
  shows "\<exists>d'. run_dma_write_test dev_tb data la ea (Some d) = Some (True, Some d') \<and> dev_rest d'"
proof -
  define n where "n = length data"
  obtain d1 where d1: "load_bytes dev_dut la data (Some d) = Some d1" "dev_rest d1"
    "dev_mem d1 = copy_in ea (ucast la) (ext_load_bytes ea data (dev_ext d)) n (dev_mem d)"
    using load_bytes_rest [OF assms(1,4,5)] stored_is_copied [of data "ucast la" "dev_mem d" ea "dev_ext d"] assms(3)
    by (auto simp: n_def)
  have n: "n = xfer_len (ucast (word_of_nat n :: u32))" using assms(2,3) by (simp add: n_def bench_len)
  have w: "unat la + n \<le> 2 ^ 20" using assms(5) by (simp add: n_def)
  obtain t t' where t: "tb_dma_transfer dev_dut ea la (word_of_nat n) 1 200000 (Some d1) = Some (True, Some t)"
    "tb_mmio_write dev_dut LGNPU_REG_IRQ_CLEAR 1 (Some t) = Some t'" "dev_rest t'"
    "ext_memory (dev_ext t') = ext_memory (copy_out ea (ucast la) (dev_mem d1) n (dev_ext d1))"
    using dev_dma_transfer [OF d1(2) n assms(4) w, where ea = ea and dir = 1] by (metis odd_one)
  have "ext_read_bytes ea n (dev_ext t') = map (\<lambda>i. ucast (local_load (ucast la + word_of_nat i) (dev_mem d1))) [0..<n]"
    using copy_out_load [of n n _ ea "ucast la" "dev_mem d1" "dev_ext d1"] assms(3)
    unfolding ext_read_bytes_cong [OF t(4)] unfolding ext_read_bytes_map by (intro map_cong refl) (simp add: n_def)
  also have "\<dots> = data"
    using copied_bytes [of "ucast la" data ea "dev_ext d" "dev_mem d"] addr_20 [OF assms(4,5,2)] assms(3-5)
    by (simp add: d1(3) n_def)
  finally have "run_dma_write_test dev_tb data la ea (Some d) = Some (True, Some t')"
    using d1(1) t(1,2) unfolding run_dma_write_test_def
    by (simp add: dev_tb_def compare_bytes_iff flip: n_def)
  with t(3) show ?thesis by blast
qed

lemma reset_device_rest: "dev_rest reset_device"
proof -
  have "resting (soc_of reset_device) = resting reset_soc" by (rule sh_cong) (simp add: reset_device_def)
  moreover have "\<not> dma_start_r (sh_regs (dev_shell reset_device))"
    by (simp add: reset_device_def reset_soc_def reg_block_reset_def)
  moreover have "data_rest reset_device"
    by (simp add: data_rest_def dma_rest_def others_quiet_def)
      (simp add: reset_device_def engine_reset_def vec_reset_def reset_buffers_def quiet_def)
  ultimately show ?thesis using reset_soc_resting by (simp add: dev_rest_def)
qed

section \<open>Properties\<close>

text \<open>C11: The bench's DMA tests pass on the device.  From rest, with the other backends idle and the data in the
  buffer windows (one to 4096 bytes, any external address, wrapping included), \<open>run_dma_read_test\<close>
  and \<open>run_dma_write_test\<close> both end with success and the device at rest: the register writes, the
  start pulse, the transfer clock by clock against the external memory, the polls of STATUS through
  the register block, the interrupt clear and every buffer access of the bench, none of which
  hangs.\<close>

theorem dma_tests_pass:
  assumes "dev_rest d" and "1 \<le> length data" and "length data \<le> 4096" and "0x10000 \<le> unat la"
    and "unat la + length data \<le> 2 ^ 20"
  shows "(\<exists>d'. run_dma_read_test dev_tb data ea la (Some d) = Some (True, Some d') \<and> dev_rest d') \<and>
    (\<exists>d'. run_dma_write_test dev_tb data la ea (Some d) = Some (True, Some d') \<and> dev_rest d')"
  using dma_read_test_passes [OF assms] dma_write_test_passes [OF assms] by blast

theorem dma_tests_pass_witness:
  "(\<exists>d'. run_dma_read_test dev_tb [1, 2, 255] 0xFFFFFFFE 0x10000 (Some reset_device) = Some (True, Some d') \<and> dev_rest d') \<and>
   (\<exists>d'. run_dma_write_test dev_tb [1, 2, 255] 0x10000 0xFFFFFFFE (Some reset_device) = Some (True, Some d') \<and> dev_rest d')"
  by (rule dma_tests_pass [OF reset_device_rest]) simp_all

text \<open>The stall counter never counts.  A backend stall is an activation read that is requested and not
  granted, but the bank grants every read in the clock of its request: from any state, whatever the
  host and the backends do, PERF_STALL keeps its value or is cleared.\<close>

theorem perf_stall_never_counts:
  "cnt_stall (dev_perf (fold dev_tick ms d)) \<in> {cnt_stall (dev_perf d), 0}"
proof (induction ms arbitrary: d)
  case (Cons m ms)
  have "cnt_stall (dev_perf (dev_tick m d)) \<in> {cnt_stall (dev_perf d), 0}"
    by (auto simp: dev_tick_def perf_step_def counter_step_def core_stall_def be_act_rd_gnt_def Let_def split_def)
  with Cons.IH [of "dev_tick m d"] show ?case by auto
qed simp

section \<open>A DMA request outside the buffer windows\<close>

text \<open>A write that asks for a soft reset or for another transfer.\<close>

definition resets_or_starts :: "mmio_in \<Rightarrow> bool" where
  "resets_or_starts m = (mmio_valid m \<and> mmio_wr m \<and>
     (mmio_addr m = ucast LGNPU_REG_CTRL \<or> mmio_addr m = ucast LGNPU_REG_DMA_CTRL) \<and> bit (mmio_wdata m) 0)"

text \<open>The engine holds an address no bank answers, and waits; no buffer access is outstanding.\<close>

definition dma_stuck :: "device \<Rightarrow> bool" where
  "dma_stuck d = (shell_live (soc_of d) \<and> \<not> dma_start_r (sh_regs (dev_shell d)) \<and>
     (reader_busy (reader (dev_dma d)) \<and> \<not> in_window (loc_addr_r (reader (dev_dma d))) \<and>
        eng_state (writer (dev_dma d)) = W_IDLE \<or>
      eng_state (writer (dev_dma d)) = W_LOC_RD \<and> \<not> in_window (loc_addr_r (writer (dev_dma d))) \<and>
        eng_state (reader (dev_dma d)) = R_IDLE))"

lemma stuck_busy: "dma_stuck d \<Longrightarrow> Npu_Dma.dma_busy (dev_dma d)"
  by (auto simp: dma_stuck_def Npu_Dma.dma_busy_def writer_busy_def)

lemma zero_not_window: "\<not> in_window 0"
  by (simp add: in_window_iff)

lemma stuck_port: "dma_stuck d \<Longrightarrow> \<not> in_window (host_addr (dev_buf_port m d))"
  using zero_not_window
  by (auto simp: dma_stuck_def dev_buf_port_def shell_buf_port_def Npu_Dma.dma_busy_def writer_busy_def
      reader_busy_def dma_buf_port_def Let_def)

lemma unanswered_rvalid:
  "\<not> in_window (host_addr h) \<Longrightarrow> \<not> host_rvalid (router_step h p b)"
  by (simp add: host_rvalid_def router_simps in_window_def)

lemma device_live_kept:
  assumes "shell_live (soc_of d)" and "\<not> resets_or_starts m"
  shows "shell_live (soc_of (dev_tick m d))" and "\<not> dma_start_r (sh_regs (dev_shell (dev_tick m d)))"
  using assms
  by (auto simp: shell_live_def dev_tick_def shell_cycle_def reset_ctrl_step_def shell_step_def reg_block_step_def
      reg_block_write_def resets_or_starts_def Let_def split_def c_consts)

lemma stuck_tick:
  assumes "dma_stuck d" and "\<not> resets_or_starts m"
  shows "dma_stuck (dev_tick m d)" and "\<not> host_rvalid (dev_bufs (dev_tick m d))"
proof -
  have l: "shell_live (soc_of d)" "\<not> dma_start_r (sh_regs (dev_shell d))" using assms(1) by (simp_all add: dma_stuck_def)
  note v = arg_cong [OF dma_view_tick [OF live_no_reset [OF l(1)], of m], of ds_dma, unfolded dma_view_sel]
  show "dma_stuck (dev_tick m d)"
    using assms device_live_kept [OF l(1) assms(2)]
      stuck_reader [of "dma_view d" "dev_cfg d" "reg_buf_port m" "core_ports d"]
      stuck_writer [of "dma_view d" "dev_cfg d" "reg_buf_port m" "core_ports d"]
    by (auto simp: dma_stuck_def v)
  show "\<not> host_rvalid (dev_bufs (dev_tick m d))"
    using unanswered_rvalid [OF stuck_port [OF assms(1)]] by (simp add: bufs_view live_no_reset [OF l(1)])
qed

lemma stuck_run: "dma_stuck d \<Longrightarrow> \<forall>m \<in> set ms. \<not> resets_or_starts m \<Longrightarrow> dma_stuck (fold dev_tick ms d)"
  by (induction ms arbitrary: d) (auto intro: stuck_tick)

text \<open>An access to a buffer window is never answered: the bench's loop on \<open>mmio_ready\<close> does not end.\<close>

lemma stuck_access:
  assumes "dma_stuck d" and "is_buf (mmio_addr m)" and "\<not> resets_or_starts m"
  shows "dev_access m d = None"
proof -
  have False if "dev_access m d = Some d'" for d'
  proof -
    have "is_buf (mmio_addr m) \<and> \<not> resets_or_starts m \<and> dma_stuck d \<longrightarrow> False"
    proof (rule dev_access.raw_induct [where P = "\<lambda>m d d'. is_buf (mmio_addr m) \<and> \<not> resets_or_starts m \<and>
        dma_stuck d \<longrightarrow> False", OF _ that])
      fix f m d d'
      assume IH: "\<And>m d d'. f m d = Some d' \<Longrightarrow> is_buf (mmio_addr m) \<and> \<not> resets_or_starts m \<and> dma_stuck d \<longrightarrow> False"
        and r: "(if mmio_ready m (dev_tick m d) then Some (dev_tick m d) else f m (dev_tick m d)) = Some d'"
      show "is_buf (mmio_addr m) \<and> \<not> resets_or_starts m \<and> dma_stuck d \<longrightarrow> False"
      proof
        assume "is_buf (mmio_addr m) \<and> \<not> resets_or_starts m \<and> dma_stuck d"
        then have s: "is_buf (mmio_addr m)" "\<not> resets_or_starts m" "dma_stuck d" by blast+
        have "\<not> mmio_ready m (dev_tick m d)"
          using s(1) stuck_tick [OF s(3,2)] stuck_port [OF stuck_tick(1) [OF s(3,2)], of m]
          by (simp add: mmio_ready_def host_gnt_iff)
        with r have "f m (dev_tick m d) = Some d'" by simp
        from IH [OF this] s stuck_tick(1) [OF s(3,2)] show False by blast
      qed
    qed
    with assms show False by blast
  qed
  then show ?thesis by (cases "dev_access m d") auto
qed

lemma buffer_access_plain: "is_buf (mmio_addr m) \<Longrightarrow> \<not> resets_or_starts m"
  by (auto simp: is_buf_def resets_or_starts_def c_consts)

text \<open>What the host reads.\<close>

lemma dma_status_access:
  assumes "shell_live (soc_of d)"
  shows "bus_read (dut_bus dev_dut) (ucast LGNPU_REG_DMA_STATUS) (Some d) =
    (of_bool (Npu_Dma.dma_busy (dev_dma (dev_tick (rd_in LGNPU_REG_DMA_STATUS) d))),
     Some (dev_tick (rd_in LGNPU_REG_DMA_STATUS) d))"
proof -
  let ?m = "rd_in LGNPU_REG_DMA_STATUS"
  have r: "mmio_ready ?m (dev_tick ?m d)" by (rule reg_ready) (simp add: is_buf_def c_consts)
  have "\<not> is_buf_r (sh_regs (dev_shell (dev_tick ?m d)))"
    by (simp add: soc_view [symmetric] live_regs [OF assms] reg_block_step_def Let_def is_buf_def c_consts)
  then have "mmio_rdata (ucast LGNPU_REG_DMA_STATUS) (dev_env (dev_tick ?m d)) (dev_shell (dev_tick ?m d)) =
      of_bool (Npu_Dma.dma_busy (dev_dma (dev_tick ?m d)))"
    by (simp add: mmio_rdata_def Let_def dev_env_def) (simp add: c_consts)
  with dev_read [OF r] show ?thesis by (simp add: tb_mmio_read_def)
qed

lemma stuck_reads:
  assumes "dma_stuck d"
  shows "bus_read (dut_bus dev_dut) (ucast LGNPU_REG_DMA_STATUS) (Some d) =
      (1, Some (dev_tick (rd_in LGNPU_REG_DMA_STATUS) d))"
    and "\<not> bit (fst (bus_read (dut_bus dev_dut) (ucast LGNPU_REG_STATUS) (Some d))) 0"
    and "bit (fst (bus_read (dut_bus dev_dut) (ucast LGNPU_REG_STATUS) (Some d))) 1"
proof -
  have l: "shell_live (soc_of d)" using assms by (simp add: dma_stuck_def)
  have "dma_stuck (dev_tick (rd_in r) d)" for r
    by (rule stuck_tick [OF assms]) (simp add: resets_or_starts_def)
  note b = this [THEN stuck_busy]
  show "bus_read (dut_bus dev_dut) (ucast LGNPU_REG_DMA_STATUS) (Some d) =
      (1, Some (dev_tick (rd_in LGNPU_REG_DMA_STATUS) d))"
    using b by (simp add: dma_status_access [OF l])
  show "\<not> bit (fst (bus_read (dut_bus dev_dut) (ucast LGNPU_REG_STATUS) (Some d))) 0"
    "bit (fst (bus_read (dut_bus dev_dut) (ucast LGNPU_REG_STATUS) (Some d))) 1"
    using b [of LGNPU_REG_STATUS]
    by (simp_all add: status_access [OF l] status_word_def core_idle_def dev_env_def bit_simps)
qed

lemma request_sticks:
  assumes "shell_live (soc_of d)" and "dma_rest (dma_view d)" and "dma_start_r (sh_regs (dev_shell d))"
    and "unat (dma_loc_addr_r (sh_regs (dev_shell d))) < 0x10000" and "\<not> resets_or_starts m"
  shows "dma_stuck (dev_tick m d)"
proof -
  have w: "\<not> in_window (dma_loc_addr_r (sh_regs (dev_shell d)))"
    using assms(4) by (simp add: in_window_iff word_le_nat_alt)
  note v = arg_cong [OF dma_view_tick [OF live_no_reset [OF assms(1)], of m], of ds_dma, unfolded dma_view_sel]
  show ?thesis
    using device_live_kept [OF assms(1,5)] assms(2,3) w
    by (auto simp: dma_stuck_def v dma_tick_def dma_rest_def dma_frontend_step_def dma_reader_step_def
        dma_writer_step_def reader_busy_def dev_cfg_def Let_def split_def)
qed

text \<open>An access that hangs ends the bench's run: nothing it does later gives a state again.\<close>

definition returns :: "('v \<times> 's option) option \<Rightarrow> 'v \<Rightarrow> bool" where
  "returns r v = (\<exists>d. r = Some (v, Some d))"

lemma hung_accesses [simp]:
  "tb_mmio_write dev_dut a v None = None" "snd (tb_mmio_read dev_dut a None) = None"
  "tb_run_clocks dev_dut n None = None" "snd (is_idle dev_dut None) = None"
proof -
  show "tb_run_clocks dev_dut n None = None"
    by (induction n) (simp_all add: tb_run_clocks_def dev_dut_def)
qed (simp_all add: tb_mmio_write_def tb_mmio_read_def is_idle_def read_status_def dev_dut_def Let_def split_def)

lemma hung_writes [simp]: "fold (\<lambda>i. tb_mmio_write dev_dut (a i) (v i)) xs None = None"
  by (induction xs) simp_all

lemma hung_load [simp]: "load_bytes dev_dut a data None = None"
  by (simp add: load_bytes_def)

lemma hung_submit [simp]: "submit_words dev_dut ws None = None"
  by (simp add: submit_words_def)

lemma hung_wait: "wait_idle dev_dut n None = Some (v, s) \<Longrightarrow> s = None"
  unfolding wait_idle_def
proof (induction n)
  case (Suc n)
  then show ?case
    using hung_accesses(4) by (cases "is_idle dev_dut None") (auto split: if_splits)
qed simp

lemma hung_read: "snd (read_bytes dev_dut a n None) = None"
proof -
  have "snd (fold (\<lambda>i (out, s). let (raw, s) = tb_mmio_read dev_dut (a + word_of_nat i) s
      in (out[i := ucast (raw AND 0xFF)], s)) xs (out, None)) = None" for xs :: "nat list" and out :: "i8 list"
  proof (induction xs arbitrary: out)
    case (Cons i xs)
    then show ?case
      using hung_accesses(2) [of "a + word_of_nat i"]
      by (cases "tb_mmio_read dev_dut (a + word_of_nat i) None") (simp add: Let_def)
  qed simp
  then show ?thesis by (simp add: read_bytes_def)
qed

lemma hung_check: "\<not> returns (check_output dev_dut a e None) v"
proof
  assume "returns (check_output dev_dut a e None) v"
  then obtain d where d: "check_output dev_dut a e None = Some (v, Some d)" by (auto simp: returns_def)
  then obtain i s where w: "wait_idle dev_dut 200000 None = Some (i, s)"
    by (auto simp: check_output_def bind_eq_Some_conv)
  from hung_wait [OF w] d w hung_read [of a "length e"] show False
    by (cases "read_bytes dev_dut a (length e) None") (auto simp: check_output_def split: if_splits)
qed

lemma stuck_vec_test:
  assumes "dma_stuck d" and "is_buf (ucast (LGNPU_ACT_BUF_BASE + a_addr))" and "x \<noteq> []"
  shows "\<not> returns (run_vec_test dev_dut x y len op q mode a_addr b_addr out_addr (Some d)) v"
proof -
  have "tb_mmio_write dev_dut (LGNPU_ACT_BUF_BASE + a_addr) w (Some d) = None" for w
    using stuck_access [OF assms(1) _ buffer_access_plain, of "wr_in (LGNPU_ACT_BUF_BASE + a_addr) w"] assms(2)
    by (simp add: tb_mmio_write_def dev_dut_def wr_in_def bus_addr_20)
  then have "load_bytes dev_dut (LGNPU_ACT_BUF_BASE + a_addr) x (Some d) = None"
    using assms(3) by (cases "length x") (simp_all add: load_bytes_def upt_conv_Cons del: upt_Suc)
  then show ?thesis
    using hung_check by (cases "ref_vec x y len op q mode")
      (simp_all add: run_vec_test_def vec_test_submit_def submit_vec_def Let_def, simp add: returns_def)
qed

text \<open>C35: A DMA request whose local address lies below the buffer windows hangs the device.  From the
  clock of the start pulse, with the engines at rest, and for every sequence of bus cycles in which
  the host writes neither the soft-reset bit of CTRL nor the start bit of DMA_CTRL: the DMA is
  busy in every later clock, DMA_STATUS reads 1, STATUS reads busy and not idle, and an access
  to a buffer window is never answered, so the bench's wait for \<open>mmio_ready\<close> does not end.  No bank
  answers the address, and neither the register block nor the driver rejects the request.\<close>

theorem dma_unmapped_hangs:
  assumes "shell_live (soc_of d)" and "dma_rest (dma_view d)" and "dma_start_r (sh_regs (dev_shell d))"
    and "unat (dma_loc_addr_r (sh_regs (dev_shell d))) < 0x10000"
    and "\<forall>m \<in> set (m0 # ms). \<not> resets_or_starts m"
  shows "let d' = fold dev_tick (m0 # ms) d;
        (dma_status, _) = bus_read (dut_bus dev_dut) (ucast LGNPU_REG_DMA_STATUS) (Some d');
        (status, _) = bus_read (dut_bus dev_dut) (ucast LGNPU_REG_STATUS) (Some d')
    in Npu_Dma.dma_busy (dev_dma d') \<and> dma_status = 1 \<and> \<not> bit status 0 \<and> bit status 1 \<and>
       (is_buf (mmio_addr m) \<longrightarrow> dev_access m d' = None)"
proof -
  have "dma_stuck (dev_tick m0 d)" by (rule request_sticks) (use assms in simp_all)
  then have s: "dma_stuck (fold dev_tick (m0 # ms) d)" using stuck_run [of "dev_tick m0 d" ms] assms(5) by simp
  show ?thesis
    using stuck_busy [OF s] stuck_reads [OF s] stuck_access [OF s _ buffer_access_plain, of m]
    by (simp add: Let_def split_def)
qed

theorem dma_unmapped_hangs_witness:
  "let d = dev_tick (wr_in LGNPU_REG_DMA_CTRL 1) reset_device
   in dev_access (rd_in 0x10000) (dev_tick no_access d) = None"
proof -
  let ?d = "dev_tick (wr_in LGNPU_REG_DMA_CTRL 1) reset_device"
  have "shell_live (soc_of ?d) \<and> dma_rest (dma_view ?d) \<and> dma_start_r (sh_regs (dev_shell ?d)) \<and>
      dma_loc_addr_r (sh_regs (dev_shell ?d)) = 0"
    by code_simp
  moreover have "\<forall>m \<in> set (no_access # []). \<not> resets_or_starts m" by code_simp
  ultimately show ?thesis
    using dma_unmapped_hangs [of ?d no_access "[]" "rd_in 0x10000"] by (simp add: Let_def split_def is_buf_def rd_in_def c_consts)
qed

text \<open>C38: Verdicts of the end-to-end tests on the composed device, whose accesses loop on \<open>mmio_ready\<close>.
  When one of the six operation runners returns a verdict, that is, when every access it made was
  answered, its reference function is defined and the verdict is a pass exactly when, after the
  operands are loaded and the command submitted, idle is seen within 200000 polls and every byte
  then read from the output buffer is the reference result's.  When one of the two DMA runners
  returns, it passes exactly when, after the request, idle is seen within 200000 polls and the
  bytes read back after the interrupt is cleared, through the bus or from the external memory, are
  the data.  With the DMA stuck on an address no bank answers, the vector runner never returns.\<close>

theorem bench_verdicts:
  "(returns (run_conv_test dev_dut act wt bias H W C K R S sv sw ph pw q mode ai wa ba ao un (Some d)) v \<longrightarrow>
     (\<exists>e. ref_conv act wt bias H W C K R S sv sw ph pw q mode = Some e \<and>
       v = device_agrees dev_dut (LGNPU_ACT_BUF_BASE + ao) e
         (conv_test_submit dev_dut act wt bias H W C K R S sv sw ph pw q mode ai wa ba ao un (Some d)))) \<and>
   (returns (run_gemm_test dev_dut a b bias M N L q mode aa ba' bb ca (Some d)) v \<longrightarrow>
     (\<exists>e. ref_gemm a b bias M N L q mode = Some e \<and>
       v = device_agrees dev_dut (LGNPU_ACT_BUF_BASE + ca) e
         (gemm_test_submit dev_dut a b bias M N L q mode aa ba' ca (Some d)))) \<and>
   (returns (run_softmax_test dev_dut x rows len ia oa (Some d)) v \<longrightarrow>
     (\<exists>e. ref_softmax x rows len = Some e \<and>
       v = device_agrees dev_dut (LGNPU_ACT_BUF_BASE + oa) e
         (softmax_test_submit dev_dut x rows len ia oa (Some d)))) \<and>
   (returns (run_vec_test dev_dut a b vlen op q mode aa ba' oa (Some d)) v \<longrightarrow>
     (\<exists>e. ref_vec a b vlen op q mode = Some e \<and>
       v = device_agrees dev_dut (LGNPU_ACT_BUF_BASE + oa) e
         (vec_test_submit dev_dut a b vlen op q mode aa ba' oa (Some d)))) \<and>
   (returns (run_lnorm_test dev_dut x rows len shift ia oa (Some d)) v \<longrightarrow>
     (\<exists>e. ref_lnorm x rows len shift = Some e \<and>
       v = device_agrees dev_dut (LGNPU_ACT_BUF_BASE + oa) e
         (lnorm_test_submit dev_dut x rows len shift ia oa (Some d)))) \<and>
   (returns (run_pool_test dev_dut x H W C R S sv sw ph pw pm ia oa (Some d)) v \<longrightarrow>
     (\<exists>e. ref_pool x H W C R S sv sw ph pw pm = Some e \<and>
       v = device_agrees dev_dut (LGNPU_ACT_BUF_BASE + oa) e
         (pool_test_submit dev_dut x H W C R S sv sw ph pw pm ia oa (Some d)))) \<and>
   (returns (run_dma_read_test dev_tb data ea la (Some d)) v \<longrightarrow>
     v = idle_then dev_dut (\<lambda>s. fst (read_bytes dev_dut la (length data)
         (tb_mmio_write dev_dut LGNPU_REG_IRQ_CLEAR 1 s)) = data)
       (dma_requested dev_dut ea la (word_of_nat (length data)) 0
         (Some (d\<lparr>dev_ext := ext_load_bytes ea data (dev_ext d)\<rparr>)))) \<and>
   (returns (run_dma_write_test dev_tb data la ea (Some d)) v \<longrightarrow>
     v = idle_then dev_dut (\<lambda>s. ext_read_bytes ea (length data)
         (ext_get dev_tb (tb_mmio_write dev_dut LGNPU_REG_IRQ_CLEAR 1 s)) = data)
       (dma_requested dev_dut ea la (word_of_nat (length data)) 1 (load_bytes dev_dut la data (Some d)))) \<and>
   (dma_stuck d \<and> a \<noteq> [] \<and> is_buf (ucast (LGNPU_ACT_BUF_BASE + aa)) \<longrightarrow>
     \<not> returns (run_vec_test dev_dut a b vlen op q mode aa ba' oa (Some d)) v)"
proof -
  have r: "\<exists>e. f = Some e \<and> v = Q e"
    if "map_option fst t = map_option Q f" "returns t v" for t :: "(bool \<times> device option) option" and f Q
    using that by (cases f) (auto simp: returns_def)
  have tb: "dut_of dev_tb = dev_dut" "ext_get dev_tb (Some d) = dev_ext d"
    "ext_set dev_tb y (Some d) = Some (d\<lparr>dev_ext := y\<rparr>)" for y
    by (simp_all add: dev_tb_def)
  note runs = runner_verdicts [where tb = dev_dut and s = "Some d" and etb = dev_tb and t = "Some d", unfolded tb]
  note runs2 = runs [THEN conjunct2] and runs3 = runs [THEN conjunct2, THEN conjunct2]
  note runs4 = runs3 [THEN conjunct2] and runs5 = runs3 [THEN conjunct2, THEN conjunct2]
  note runs6 = runs5 [THEN conjunct2] and runs7 = runs5 [THEN conjunct2, THEN conjunct2]
  have dma: "v = Q" if "map_option fst t = Some Q" "returns t v" for t :: "(bool \<times> device option) option" and Q
    using that by (auto simp: returns_def)
  show ?thesis
    by (intro conjI impI)
      (erule r [OF runs [THEN conjunct1]] r [OF runs2 [THEN conjunct1]] r [OF runs3 [THEN conjunct1]]
         r [OF runs4 [THEN conjunct1]] r [OF runs5 [THEN conjunct1]] r [OF runs6 [THEN conjunct1]]
         dma [OF runs7 [THEN conjunct1]] dma [OF runs7 [THEN conjunct2]] |
       elim conjE, rule stuck_vec_test, assumption, assumption, assumption)+
qed

theorem bench_verdicts_witness:
  "idle_then dev_dut (\<lambda>s. fst (read_bytes dev_dut 0x10000 3 (tb_mmio_write dev_dut LGNPU_REG_IRQ_CLEAR 1 s)) =
      [1, 2, 255])
    (dma_requested dev_dut 7 0x10000 3 0
      (Some (reset_device\<lparr>dev_ext := ext_load_bytes 7 [1, 2, 255] (dev_ext reset_device)\<rparr>)))"
proof -
  have "\<exists>d'. run_dma_read_test dev_tb [1, 2, 255] 7 0x10000 (Some reset_device) = Some (True, Some d') \<and> dev_rest d'"
    by (rule dma_read_test_passes [OF reset_device_rest]) simp_all
  then have "returns (run_dma_read_test dev_tb [1, 2, 255] 7 0x10000 (Some reset_device)) True"
    by (auto simp: returns_def)
  with bench_verdicts [where data = "[1, 2, 255]" and ea = 7 and la = "0x10000" and d = reset_device and v = True]
  show ?thesis by (simp add: numeral_3_eq_3)
qed

end
