(* ===== verification/Npu_Device_Vec.thy ===== *)
theory Npu_Device_Vec
  imports Npu_Device
begin

text \<open>
  A vector command on the whole device: submitted by the bench, fetched, decoded, queued, scheduled,
  executed by the vector unit on the buffers, reported by STATUS and read back.
\<close>

section \<open>Definitions\<close>

text \<open>The vector unit holds the command \<open>c\<close> and everything else is at rest.\<close>

definition dev_working :: "conv_cmd_t \<Rightarrow> device \<Rightarrow> bool" where
  "dev_working c d = (pipe_idle (soc_of d) \<and> \<not> shell_rung (soc_of d) \<and> contents (sh_queue (dev_shell d)) = [] \<and>
     s_state (sh_sched (dev_shell d)) = S_WAIT \<and> sched_cmd (sh_sched (dev_shell d)) = c \<and> be_sel_r d = 3 \<and>
     \<not> dma_start_r (sh_regs (dev_shell d)) \<and> dma_rest (dma_view d) \<and> others_quiet d \<and> \<not> bias_pending_r (dev_bufs d))"

text \<open>The unit and the banks as \<open>Npu_Vec\<close> sees them.\<close>

definition vec_view :: "device \<Rightarrow> vec_ctrl \<times> buffers" where
  "vec_view d = (dev_vec d, dev_bufs d)"

text \<open>The shell of a device that only clocks, with the environment the device gives it.\<close>

definition soc_run :: "device \<Rightarrow> soc" where
  "soc_run d = \<lparr>sh = dev_shell d, env = (\<lambda>t. dev_env ((dev_tick no_access ^^ t) d))\<rparr>"

section \<open>From the doorbell to the scheduler\<close>

lemma soc_run_clocks:
  "sh (run_clocks k (soc_run d)) = dev_shell ((dev_tick no_access ^^ k) d)"
  "env (run_clocks k (soc_run d)) = (\<lambda>t. dev_env ((dev_tick no_access ^^ (k + t)) d))"
proof (induction k)
  case 0
  { case 1 show ?case by (simp add: run_clocks_def soc_run_def) }
  { case 2 show ?case by (simp add: run_clocks_def soc_run_def) }
next
  case (Suc k)
  { case 1 show ?case using Suc.IH
      by (simp add: run_clocks_last soc_cycle_def dev_tick_def Let_def split_def) }
  { case 2 show ?case using Suc.IH(2) by (simp add: run_clocks_last soc_cycle_def) }
qed

lemma soc_run_cong:
  "pipe_idle (soc_run d) = pipe_idle (soc_of d)" "shell_rung (soc_run d) = shell_rung (soc_of d)"
  "drained (soc_run d) = drained (soc_of d)" "shell_window (soc_run d) = shell_window (soc_of d)"
  by (rule sh_cong; simp add: soc_run_def)+

lemma dev_issue:
  assumes "pipe_idle (soc_of d)" and "shell_rung (soc_of d)" and "drained (soc_of d)" and "data_rest d"
    and "\<not> dma_start_r (sh_regs (dev_shell d))" and "\<not> decode_err (shell_window (soc_of d))"
  defines "t \<equiv> \<lambda>k. (dev_tick no_access ^^ k) d"
  shows "issuing (decode_fields (shell_window (soc_of d))) (soc_of (t 36))" and "data_rest (t 36)"
    and "dev_mem (t 36) = dev_mem d" and "\<not> dma_start_r (sh_regs (dev_shell (t 36)))"
proof -
  let ?p = "soc_run d"
  have p: "pipe_idle ?p" "shell_rung ?p" "drained ?p" "\<not> decode_err (shell_window ?p)"
    using assms(1-3,6) by (simp_all add: soc_run_cong)
  note i = rung_to_issue [OF p]
  have "issuing (decode_fields (shell_window ?p)) (soc_of (t 36)) = issuing (decode_fields (shell_window ?p)) (run_clocks 36 ?p)"
    by (rule sh_cong) (simp add: t_def soc_run_clocks)
  with i(1) show "issuing (decode_fields (shell_window (soc_of d))) (soc_of (t 36))" by (simp add: soc_run_cong)
  have live: "shell_live (soc_of (t k)) \<and> s_state (sh_sched (dev_shell (t k))) = S_IDLE" if "k \<le> 35" for k
  proof -
    have "shell_live (run_clocks k ?p) \<and> s_state (sh_sched (sh (run_clocks k ?p))) = S_IDLE"
    proof (cases "k = 35")
      case True
      then show ?thesis using i(3,4) by simp
    next
      case False
      then have "k \<le> 34" using that by simp
      moreover have "shell_live (run_clocks k ?p)" if "k \<le> 34"
        using that ingesting(3) [OF p(1,2), of k] p(1) by (cases k) (simp_all add: run_clocks_def pipe_idle_def)
      ultimately show ?thesis using rung_drained [OF p(1-3), of k] by (simp add: drained_def)
    qed
    moreover have "shell_live (run_clocks k ?p) = shell_live (soc_of (t k))"
      by (rule sh_cong) (simp add: t_def soc_run_clocks)
    ultimately show ?thesis by (simp add: soc_run_clocks t_def)
  qed
  have "data_rest (t k) \<and> dev_mem (t k) = dev_mem d \<and> \<not> dma_start_r (sh_regs (dev_shell (t k)))" if "k \<le> 36" for k
    using that
  proof (induction k)
    case (Suc k)
    then have IH: "data_rest (t k)" "dev_mem (t k) = dev_mem d" "\<not> dma_start_r (sh_regs (dev_shell (t k)))"
      and k: "shell_live (soc_of (t k))" "\<not> vec_cmd_valid (t k)"
      using live [of k] by (simp_all add: vec_cmd_valid_def dispatch_valid_def)
    note s = data_tick [OF IH(1) live_no_reset [OF k(1)] IH(3) k(2), of no_access]
    from s(1,2) IH(2) no_start_kept [OF k(1) calm_starts [OF calm_accesses(1)]] show ?case by (simp add: t_def)
  qed (use assms(4,5) in \<open>simp add: t_def\<close>)
  from this [of 36] show "data_rest (t 36)" "dev_mem (t 36) = dev_mem d" "\<not> dma_start_r (sh_regs (dev_shell (t 36)))"
    by simp_all
qed

section \<open>From the scheduler to the unit\<close>

lemma dma_rest_kept:
  assumes "dma_rest (dma_view d)" and "\<not> dev_resets d" and "\<not> dma_start_r (sh_regs (dev_shell d))"
  shows "dma_rest (dma_view (dev_tick m d))"
  using assms
  by (auto simp: dma_rest_def dma_view_def dev_tick_def dma_frontend_step_def dma_reader_step_def dma_writer_step_def
      dma_ext_port_def reader_busy_def writer_busy_def update_ext_mem_def Let_def)

text \<open>While the scheduler holds a command, a clock without a write leaves the rest of the control path alone.\<close>

lemma held_cycle:
  assumes "pipe_idle (soc_of d)" and "\<not> shell_rung (soc_of d)" and "contents (sh_queue (dev_shell d)) = []"
    and "s_state (sh_sched (dev_shell d)) \<noteq> S_IDLE" and "calm m"
  shows "pipe_idle (soc_of (dev_tick m d))" "\<not> shell_rung (soc_of (dev_tick m d))"
    "contents (sh_queue (dev_shell (dev_tick m d))) = []" "\<not> dma_start_r (sh_regs (dev_shell (dev_tick m d)))"
    "sched_cmd (sh_sched (dev_shell (dev_tick m d))) = sched_cmd (sh_sched (dev_shell d))"
    "shell_live (soc_of d)" "\<not> dev_resets d"
proof -
  from assms(1) show l: "shell_live (soc_of d)" by (simp add: pipe_idle_def)
  then show "\<not> dev_resets d" by (rule live_no_reset)
  show "pipe_idle (soc_of (dev_tick m d))" "\<not> shell_rung (soc_of (dev_tick m d))"
    using pipe_idle_access [OF assms(1,2), of m] assms(5)
    unfolding view_cong by (auto simp: calm_def shell_rung_def live_regs [OF l] reg_block_step_def Let_def)
  have "sh_queue (dev_shell (dev_tick m d)) = fifo_step None False (sh_queue (dev_shell d))"
    using assms(1,4) by (simp add: soc_view [symmetric] live_parts(3) [OF l] cmd_valid_def queue_ready_def pipe_idle_def)
  then show "contents (sh_queue (dev_shell (dev_tick m d))) = []"
    using assms(1,3) fifo_step_count [of "sh_queue (dev_shell d)" None False]
    by (simp add: pipe_idle_def queue_room_def queue_step_def)
  show "\<not> dma_start_r (sh_regs (dev_shell (dev_tick m d)))" using no_start_kept [OF l calm_starts [OF assms(5)]] .
  show "sched_cmd (sh_sched (dev_shell (dev_tick m d))) = sched_cmd (sh_sched (dev_shell d))"
    using assms(4) by (simp add: soc_view [symmetric] live_cycle [OF l] shell_step_def scheduler_step_def Let_def)
qed

lemma dispatch_cycle:
  assumes "issuing c (soc_of d)" and "data_rest d" and "\<not> dma_start_r (sh_regs (dev_shell d))" and "opcode c = OP_VEC"
    and "calm m"
  shows "dev_working c (dev_tick m d)" and "vc_state (dev_vec (dev_tick m d)) = V_LOAD_CFG"
    and "vec_latched (conv_to_vec_cmd c) (dev_vec (dev_tick m d))" and "dev_mem (dev_tick m d) = dev_mem d"
proof -
  let ?t = "dev_tick m d"
  have i: "pipe_idle (soc_of d)" "\<not> shell_rung (soc_of d)" "contents (sh_queue (dev_shell d)) = []"
    "s_state (sh_sched (dev_shell d)) = S_ISSUE" "s_state (sh_sched (dev_shell d)) \<noteq> S_IDLE"
    "sched_cmd (sh_sched (dev_shell d)) = c"
    using assms(1) by (simp_all add: issuing_def)
  note h = held_cycle [OF i(1-3,5) assms(5)]
  have idle: "vc_state (dev_vec d) = V_IDLE" using assms(2) by (simp add: data_rest_def)
  have v: "vec_cmd_valid d" "core_ready d" "dispatch_valid d" "dispatch_cmd d = c"
    using i(4,6) assms(4) idle by (simp_all add: vec_cmd_valid_def dispatch_valid_def dispatch_cmd_def core_ready_def vec_cmd_ready_def)
  have "dev_vec ?t = vec_ctrl_step True (conv_to_vec_cmd c) (core_vec_in d) (dev_vec d)"
    using v by (simp add: vec_step_view [OF h(7)])
  with vec_latches [OF idle] show "vc_state (dev_vec ?t) = V_LOAD_CFG" "vec_latched (conv_to_vec_cmd c) (dev_vec ?t)"
    by simp_all
  note q = rest_ports [OF assms(2)]
  have b: "dev_bufs ?t = router_step (reg_buf_port m) (core_ports d) (dev_bufs d)"
    using q(3) by (simp add: bufs_view [OF h(7)] dev_buf_port_def shell_buf_port_def)
  show "dev_mem ?t = dev_mem d"
    using host_silent_step [of "reg_buf_port m" "core_ports d" "dev_bufs d"] calm_port [OF assms(5)] q(1)
    by (simp add: b be_store_def)
  have "s_state (sh_sched (dev_shell ?t)) = S_WAIT"
    using i(4) v(2) by (simp add: soc_view [symmetric] live_cycle [OF h(6)] shell_step_def scheduler_step_def Let_def dev_env_def)
  moreover have "be_sel_r ?t = 3"
    using v assms(4) h(7) by (simp add: dev_tick_def Let_def split_def be_code_def rtl_sem)
  moreover have "\<not> bias_pending_r (dev_bufs ?t)"
    using assms(2) q(2) by (simp add: b no_bias_step data_rest_def)
  ultimately show "dev_working c ?t"
    using h(1-5) i(6) dma_rest_kept [of d m] assms(2,3) h(7) by (simp add: dev_working_def data_rest_def)
qed

section \<open>The unit at work\<close>

lemma working_parts:
  assumes "dev_working c d" and "calm m"
  shows "dev_vec (dev_tick m d) = fst (vec_tick False (conv_to_vec_cmd c) (reg_buf_port m) (vec_view d))"
    and "dev_bufs (dev_tick m d) = snd (vec_tick False (conv_to_vec_cmd c) (reg_buf_port m) (vec_view d))"
    and "\<not> bias_pending_r (dev_bufs (dev_tick m d))" and "dma_rest (dma_view (dev_tick m d))"
    and "be_sel_r (dev_tick m d) = 3"
    and "s_state (sh_sched (dev_shell (dev_tick m d))) = (if vec_done (dev_vec d) then S_IDLE else S_WAIT)"
proof -
  note w = assms(1) [unfolded dev_working_def]
  have "s_state (sh_sched (dev_shell d)) \<noteq> S_IDLE" using w by simp
  note h = held_cycle [OF _ _ _ this assms(2)]
  have l: "shell_live (soc_of d)" "\<not> dev_resets d" using h(6,7) w by simp_all
  have p: "core_ports d = vec_ports (dev_vec d)" "\<not> vec_cmd_valid d" "\<not> dispatch_valid d" "dispatch_cmd d = c"
    using w by (simp_all add: core_ports_def vec_cmd_valid_def dispatch_valid_def dispatch_cmd_def)
  have "\<not> Npu_Dma.dma_busy (dev_dma d)"
    using w by (simp add: dma_rest_def Npu_Dma.dma_busy_def reader_busy_def writer_busy_def)
  then have port: "dev_buf_port m d = reg_buf_port m" by (simp add: dev_buf_port_def shell_buf_port_def)
  show "dev_vec (dev_tick m d) = fst (vec_tick False (conv_to_vec_cmd c) (reg_buf_port m) (vec_view d))"
    using w p by (simp add: vec_step_view [OF l(2)] vec_tick_def vec_view_def core_vec_in_def)
  show b: "dev_bufs (dev_tick m d) = snd (vec_tick False (conv_to_vec_cmd c) (reg_buf_port m) (vec_view d))"
    using p by (simp add: bufs_view [OF l(2)] port vec_tick_def vec_view_def)
  show "\<not> bias_pending_r (dev_bufs (dev_tick m d))"
    using w by (simp add: b vec_tick_def vec_view_def no_bias_step vec_ports_def)
  show "dma_rest (dma_view (dev_tick m d))" using dma_rest_kept [OF _ l(2)] w by blast
  show "be_sel_r (dev_tick m d) = 3" using w p l(2) by (simp add: dev_tick_def Let_def split_def)
  have "core_done d = vec_done (dev_vec d)" using w by (simp add: core_done_def others_quiet_def)
  then show "s_state (sh_sched (dev_shell (dev_tick m d))) = (if vec_done (dev_vec d) then S_IDLE else S_WAIT)"
    using w by (simp add: soc_view [symmetric] live_cycle [OF l(1)] shell_step_def scheduler_step_def Let_def dev_env_def)
qed

lemma working_tick:
  assumes "dev_working c d" and "calm m" and "\<not> vec_done (dev_vec d)"
  shows "dev_working c (dev_tick m d)"
    and "vec_view (dev_tick m d) = vec_tick False (conv_to_vec_cmd c) (reg_buf_port m) (vec_view d)"
proof -
  note w = assms(1) [unfolded dev_working_def]
  have "s_state (sh_sched (dev_shell d)) \<noteq> S_IDLE" using w by simp
  note h = held_cycle [OF _ _ _ this assms(2)]
  show "dev_working c (dev_tick m d)"
    using w h working_parts(3-6) [OF assms(1,2)] assms(3) by (simp add: dev_working_def)
  show "vec_view (dev_tick m d) = vec_tick False (conv_to_vec_cmd c) (reg_buf_port m) (vec_view d)"
    using working_parts(1,2) [OF assms(1,2)] by (simp add: vec_view_def)
qed

lemma done_tick:
  assumes "dev_working c d" and "calm m" and "vec_done (dev_vec d)"
  shows "dev_rest (dev_tick m d)" and "dev_mem (dev_tick m d) = dev_mem d"
proof -
  note w = assms(1) [unfolded dev_working_def]
  have "s_state (sh_sched (dev_shell d)) \<noteq> S_IDLE" using w by simp
  note h = held_cycle [OF _ _ _ this assms(2)]
  note p = working_parts [OF assms(1,2)]
  have "vc_state (dev_vec (dev_tick m d)) = V_IDLE"
    using assms(3) by (simp add: p(1) vec_tick_def vec_view_def vec_done_def vec_ctrl_step_def vec_next_state_def Let_def)
  moreover have "fifo_inv (sh_queue (dev_shell (dev_tick m d)))"
    using h(1) w by (simp add: pipe_idle_def queue_room_def)
  ultimately show "dev_rest (dev_tick m d)"
    using w h(1-4) p(3,4,6) assms(3)
    by (simp add: dev_rest_def resting_def drained_def data_rest_def)
  show "dev_mem (dev_tick m d) = dev_mem d"
    using host_silent_step [of "reg_buf_port m" "vec_ports (dev_vec d)" "dev_bufs d"] calm_port [OF assms(2)] assms(3)
    by (simp add: p(2) vec_tick_def vec_view_def be_store_def vec_ports_def vec_done_def)
qed

lemma working_busy:
  assumes "dev_working c d" and "vc_state (dev_vec d) \<noteq> V_IDLE"
  shows "\<not> core_idle (dev_env d) (dev_shell d)"
  using assms by (simp add: core_idle_def dev_env_def core_busy_def vec_busy_def)

lemma calm_silent: "\<forall>m \<in> set ms. calm m \<Longrightarrow> \<forall>h \<in> set (map reg_buf_port ms). \<not> (host_req h \<and> host_wr h)"
  using calm_port by auto

text \<open>The unit from the clock after it accepts a command.\<close>

lemma vec_load_clocks:
  assumes "vc_state v = V_LOAD_CFG" and "vec_latched c v" and "\<not> bias_pending_r b" and "n = unat (v_length c)" and "0 < n"
    and "\<forall>h \<in> set hs. \<not> (host_req h \<and> host_wr h)" and "length hs \<le> Suc (3 * n)"
  shows "vc_state (fst (vec_clocks cmd hs (v, b))) \<noteq> V_IDLE"
    and "length hs \<noteq> Suc (3 * n) \<Longrightarrow> vc_state (fst (vec_clocks cmd hs (v, b))) \<noteq> V_DONE"
    and "length hs = Suc (3 * n) \<Longrightarrow> vec_running c (local_of b) n (vec_clocks cmd hs (v, b))"
proof -
  have *: "vc_state (fst (vec_clocks cmd hs (v, b))) \<noteq> V_IDLE \<and>
    (length hs \<noteq> Suc (3 * n) \<longrightarrow> vc_state (fst (vec_clocks cmd hs (v, b))) \<noteq> V_DONE) \<and>
    (length hs = Suc (3 * n) \<longrightarrow> vec_running c (local_of b) n (vec_clocks cmd hs (v, b)))"
  proof (cases hs)
    case Nil
    then show ?thesis using assms(1) by (simp add: vec_clocks_def)
  next
    case (Cons h hs')
    define s where "s = vec_tick False cmd h (v, b)"
    have r: "vec_running c (local_of b) 0 s"
      unfolding s_def using assms Cons by (intro vec_loads) auto
    have q: "\<forall>h \<in> set hs'. \<not> (host_req h \<and> host_wr h)" "length hs' \<le> 3 * unat (v_length c)"
      using assms Cons by auto
    have e: "vec_clocks cmd hs (v, b) = vec_clocks cmd hs' s" by (simp add: vec_clocks_def s_def Cons)
    show ?thesis
      using vec_busy_clocks [OF r q(2,1), of cmd] vec_run_clocks [OF r le_refl _ q(1), of cmd] q(2) assms(4)
      unfolding e by (auto simp: Cons)
  qed
  then show "vc_state (fst (vec_clocks cmd hs (v, b))) \<noteq> V_IDLE"
    "length hs \<noteq> Suc (3 * n) \<Longrightarrow> vc_state (fst (vec_clocks cmd hs (v, b))) \<noteq> V_DONE"
    "length hs = Suc (3 * n) \<Longrightarrow> vec_running c (local_of b) n (vec_clocks cmd hs (v, b))"
    by blast+
qed

lemma working_run:
  assumes "dev_working c d" and "vc_state (dev_vec d) = V_LOAD_CFG" and "vec_latched (conv_to_vec_cmd c) (dev_vec d)"
    and "n = unat (v_length (conv_to_vec_cmd c))" and "0 < n" and "\<forall>m \<in> set ms. calm m" and "length ms \<le> Suc (3 * n)"
  shows "dev_working c (fold dev_tick ms d)"
    and "vec_view (fold dev_tick ms d) = vec_clocks (conv_to_vec_cmd c) (map reg_buf_port ms) (vec_view d)"
proof -
  have "dev_working c (fold dev_tick ms d) \<and>
    vec_view (fold dev_tick ms d) = vec_clocks (conv_to_vec_cmd c) (map reg_buf_port ms) (vec_view d)"
    using assms(6,7)
  proof (induction ms rule: rev_induct)
    case Nil
    then show ?case using assms(1) by (simp add: vec_clocks_def)
  next
    case (snoc m ms)
    let ?t = "fold dev_tick ms d"
    have IH: "dev_working c ?t" "vec_view ?t = vec_clocks (conv_to_vec_cmd c) (map reg_buf_port ms) (vec_view d)"
      using snoc by simp_all
    have nb: "\<not> bias_pending_r (dev_bufs d)" using assms(1) by (simp add: dev_working_def)
    have "vc_state (fst (vec_view ?t)) \<noteq> V_DONE"
      using vec_load_clocks(2) [OF assms(2,3) nb assms(4,5), of "map reg_buf_port ms" "conv_to_vec_cmd c"] snoc.prems
        calm_silent [of ms]
      unfolding IH(2) by (simp add: vec_view_def)
    then have "\<not> vec_done (dev_vec ?t)" by (simp add: vec_view_def vec_done_def)
    from working_tick [OF IH(1) _ this, of m] snoc.prems IH(2) show ?case by (simp add: vec_clocks_def)
  qed
  then show "dev_working c (fold dev_tick ms d)"
    "vec_view (fold dev_tick ms d) = vec_clocks (conv_to_vec_cmd c) (map reg_buf_port ms) (vec_view d)"
    by blast+
qed

lemma rest_calm:
  assumes "dev_rest d" and "\<forall>m \<in> set ms. calm m"
  shows "dev_rest (fold dev_tick ms d) \<and> dev_mem (fold dev_tick ms d) = dev_mem d"
  using assms
proof (induction ms arbitrary: d)
  case (Cons m ms)
  have m: "calm m" using Cons.prems(2) by simp
  note t = rest_tick [OF Cons.prems(1) calm_starts [OF m]]
  have "dev_mem (dev_tick m d) = dev_mem d" unfolding t(2) using m by (auto simp: calm_def)
  with Cons.IH [OF t(1)] Cons.prems(2) show ?case by simp
qed simp

lemma rest_idle: "dev_rest d \<Longrightarrow> core_idle (dev_env d) (dev_shell d)"
  using resting_idle [of d] rest_ports(3) [of d] by (simp add: dev_rest_def data_rest_iff)

text \<open>The clocks after the one that accepts a command of length \<open>n\<close>: busy for \<open>3 n + 1\<close> of them, then at rest with
  the result in memory.\<close>

lemma working_timeline:
  assumes "dev_working c d" and "vc_state (dev_vec d) = V_LOAD_CFG" and "vec_latched (conv_to_vec_cmd c) (dev_vec d)"
    and "n = unat (v_length (conv_to_vec_cmd c))" and "0 < n" and "\<forall>m \<in> set ms. calm m"
  shows "length ms \<le> Suc (3 * n) \<Longrightarrow> shell_live (soc_of (fold dev_tick ms d)) \<and>
      \<not> core_idle (dev_env (fold dev_tick ms d)) (dev_shell (fold dev_tick ms d))"
    and "Suc (3 * n) < length ms \<Longrightarrow> dev_rest (fold dev_tick ms d) \<and>
      dev_mem (fold dev_tick ms d) = vec_compute (conv_to_vec_cmd c) n (dev_mem d)"
proof -
  let ?c = "conv_to_vec_cmd c"
  have nb: "\<not> bias_pending_r (dev_bufs d)" using assms(1) by (simp add: dev_working_def)
  note v = vec_load_clocks [OF assms(2,3) nb assms(4,5), of "map reg_buf_port xs" ?c for xs]
  show "shell_live (soc_of (fold dev_tick ms d)) \<and> \<not> core_idle (dev_env (fold dev_tick ms d)) (dev_shell (fold dev_tick ms d))"
    if "length ms \<le> Suc (3 * n)"
  proof -
    note w = working_run [OF assms that]
    have "vc_state (fst (vec_view (fold dev_tick ms d))) \<noteq> V_IDLE"
      unfolding w(2) using v(1) [of ms] calm_silent [OF assms(6)] that by (simp add: vec_view_def)
    with working_busy [OF w(1)] w(1) show ?thesis by (simp add: vec_view_def dev_working_def pipe_idle_def)
  qed
  show "dev_rest (fold dev_tick ms d) \<and> dev_mem (fold dev_tick ms d) = vec_compute ?c n (dev_mem d)" if "Suc (3 * n) < length ms"
  proof -
    define xs where "xs = take (Suc (3 * n)) ms"
    have ms: "ms = xs @ ms ! Suc (3 * n) # drop (Suc (Suc (3 * n))) ms"
      unfolding xs_def by (rule id_take_nth_drop [OF that])
    have q: "\<forall>m \<in> set xs. calm m" "calm (ms ! Suc (3 * n))" "\<forall>m \<in> set (drop (Suc (Suc (3 * n))) ms). calm m"
      using assms(6) that by (auto simp: xs_def dest: in_set_takeD in_set_dropD)
    have l: "length xs = Suc (3 * n)" using that by (simp add: xs_def)
    define t where "t = fold dev_tick xs d"
    note w = working_run [OF assms(1-5) q(1), unfolded l, OF le_refl, folded t_def]
    have r: "vec_running ?c (dev_mem d) n (vec_view t)"
      unfolding w(2) using v(3) [of xs] calm_silent [OF q(1)] l by (simp add: vec_view_def)
    then have "vec_done (dev_vec t)" "dev_mem t = vec_compute ?c n (dev_mem d)"
      using assms(4) by (simp_all add: vec_running_def vec_view_def vec_done_def)
    with done_tick [OF w(1) q(2)] rest_calm [OF _ q(3), of "dev_tick (ms ! Suc (3 * n)) t"] show ?thesis
      by (subst (1 2) ms) (simp add: t_def)
  qed
qed

section \<open>Submission by the bench\<close>

lemma queue_word:
  assumes "i < 16"
  defines "a \<equiv> LGNPU_CMD_QUEUE_BASE + word_of_nat i * 4"
  shows "(ucast a :: 20 word) = ucast LGNPU_CMD_QUEUE_BASE + 4 * word_of_nat i" "\<not> is_buf (ucast a :: 20 word)"
    "\<not> starts (wr_in a v)"
proof -
  have "i \<in> set [0..<16]" using assms(1) by simp
  then show "(ucast a :: 20 word) = ucast LGNPU_CMD_QUEUE_BASE + 4 * word_of_nat i" "\<not> is_buf (ucast a :: 20 word)"
    "\<not> starts (wr_in a v)"
    by (auto simp: a_def upt_rec is_buf_def starts_def c_consts)
qed

lemma queue_word_write:
  assumes "i < 16"
  shows "shell_window (soc_of (dev_tick (wr_in (LGNPU_CMD_QUEUE_BASE + word_of_nat i * 4) v) d)) = (shell_window (soc_of d))[i := v]"
  unfolding view_cong using assms
  by (intro nth_equalityI)
    (auto simp: queue_word(1) cmd_mem_cycle cmd_mem_next_def window_decode nth_list_update word4_of_nat_inj)

lemma window_filled_rest:
  assumes "dev_rest d" and "k \<le> 16"
  shows "\<exists>d'. fold (\<lambda>i. tb_mmio_write dev_dut (LGNPU_CMD_QUEUE_BASE + word_of_nat i * 4) (ws ! i)) [0..<k] (Some d) = Some d' \<and>
    dev_rest d' \<and> dev_mem d' = dev_mem d \<and> (\<forall>i < k. shell_window (soc_of d') ! i = ws ! i)"
  using assms(2)
proof (induction k)
  case (Suc k)
  then obtain d' where d': "fold (\<lambda>i. tb_mmio_write dev_dut (LGNPU_CMD_QUEUE_BASE + word_of_nat i * 4) (ws ! i)) [0..<k] (Some d) = Some d'"
    "dev_rest d'" "dev_mem d' = dev_mem d" "\<forall>i < k. shell_window (soc_of d') ! i = ws ! i"
    by auto
  have k: "k < 16" using Suc.prems by simp
  note q = queue_word [OF k]
  from d' reg_write [OF q(2), of "ws ! k" d'] rest_reg_write [OF d'(2) q(3,2), of "ws ! k"] queue_word_write [OF k, of "ws ! k" d'] k
  show ?case by (auto simp: less_Suc_eq nth_list_update simp del: window_nth)
qed (use assms(1) in simp)

lemma submit_rung:
  assumes "dev_rest d" and "length ws = 16"
  obtains d' where "submit_words dev_dut ws (Some d) = Some ((dev_tick no_access ^^ 2000) d')"
    and "pipe_idle (soc_of d')" and "shell_rung (soc_of d')" and "drained (soc_of d')" and "data_rest d'"
    and "\<not> dma_start_r (sh_regs (dev_shell d'))" and "shell_window (soc_of d') = ws" and "dev_mem d' = dev_mem d"
proof -
  obtain f where f: "fold (\<lambda>i. tb_mmio_write dev_dut (LGNPU_CMD_QUEUE_BASE + word_of_nat i * 4) (ws ! i)) [0..<16] (Some d) = Some f"
    "dev_rest f" "dev_mem f = dev_mem d" "\<forall>i < 16. shell_window (soc_of f) ! i = ws ! i"
    using window_filled_rest [OF assms(1) le_refl] by blast
  have r: "pipe_idle (soc_of f)" "\<not> shell_rung (soc_of f)" "drained (soc_of f)" "d_state (sh_decode (dev_shell f)) \<noteq> D_VALID"
    using f(2) by (simp_all add: dev_rest_def resting_def pipe_idle_def)
  note l = rest_live [OF f(2)]
  let ?m = "wr_in LGNPU_REG_DOORBELL 1"
  define d' where "d' = dev_tick ?m f"
  have b: "\<not> is_buf (ucast LGNPU_REG_DOORBELL)" by (simp add: is_buf_def c_consts)
  have f2: "data_rest f" "\<not> dma_start_r (sh_regs (dev_shell f))" "\<not> vec_cmd_valid f"
    using f(2) resting_no_issue [of f] by (simp_all add: dev_rest_def)
  note t = data_tick [OF f2(1) live_no_reset [OF l] f2(2,3), of ?m, folded d'_def]
  have w: "shell_window (soc_of d') = ws"
  proof -
    have "shell_window (soc_of d') = shell_window (soc_of f)"
      unfolding d'_def view_cong by (simp add: shell_window_def cmd_mem_cycle cmd_mem_next_def reg_decode)
    then show ?thesis using f(4) assms(2) by (intro nth_equalityI) (simp_all del: window_nth)
  qed
  have i: "pipe_idle (soc_of d')"
    unfolding d'_def view_cong using r by (intro pipe_idle_access) (simp_all add: c_consts)
  have g: "shell_rung (soc_of d')" "\<not> dma_start_r (sh_regs (dev_shell d'))"
    by (simp_all add: d'_def shell_rung_def soc_view [symmetric] live_regs [OF l] reg_block_step_def reg_decode
        reg_block_write_def Let_def) (simp_all add: c_consts)
  have dr: "drained (soc_of d')" unfolding d'_def view_cong using l r by (intro drained_kept) simp_all
  have "submit_words dev_dut ws (Some d) = Some ((dev_tick no_access ^^ 2000) d')"
    unfolding submit_words_def f(1) reg_write [OF b] d'_def dev_clocks ..
  from that [OF this i g(1) dr t(1) g(2) w] t(2) f(3) b show thesis by simp
qed

text \<open>The device when the bench begins to poll, 2000 clocks after the doorbell, and after any number of polls.\<close>

lemma vec_submitted:
  assumes "dev_rest d" and "length ws = 16" and "\<not> decode_err ws" and "opcode (decode_fields ws) = OP_VEC"
    and "c = conv_to_vec_cmd (decode_fields ws)" and "n = unat (v_length c)" and "0 < n"
  obtains s where "submit_words dev_dut ws (Some d) = Some s"
    and "\<And>j. 1962 + j \<le> 3 * n \<Longrightarrow> shell_live (soc_of (polls j s)) \<and> \<not> core_idle (dev_env (polls j s)) (dev_shell (polls j s))"
    and "\<And>j. 3 * n < 1962 + j \<Longrightarrow> dev_rest (polls j s) \<and> dev_mem (polls j s) = vec_compute c n (dev_mem d)"
proof -
  obtain d' where d': "submit_words dev_dut ws (Some d) = Some ((dev_tick no_access ^^ 2000) d')"
    "pipe_idle (soc_of d')" "shell_rung (soc_of d')" "drained (soc_of d')" "data_rest d'"
    "\<not> dma_start_r (sh_regs (dev_shell d'))" "shell_window (soc_of d') = ws" "dev_mem d' = dev_mem d"
    using submit_rung [OF assms(1,2)] by blast
  define s where "s = (dev_tick no_access ^^ 2000) d'"
  define t where "t = (dev_tick no_access ^^ 36) d'"
  note i = dev_issue [OF d'(2-6), unfolded d'(7), OF assms(3), folded t_def]
  define u where "u = dev_tick no_access t"
  note w = dispatch_cycle [OF i(1,2,4) assms(4) calm_accesses(1), folded u_def]
  let ?ms = "\<lambda>j. replicate 1963 no_access @ replicate j (rd_in LGNPU_REG_STATUS)"
  have run: "fold dev_tick (replicate k m) x = (dev_tick m ^^ k) x" for k m x
    by (induction k arbitrary: x) (simp_all add: funpow_swap1)
  have "s = (dev_tick no_access ^^ (1963 + Suc 36)) d'" by (simp add: s_def)
  then have "s = (dev_tick no_access ^^ 1963) u" unfolding funpow_add u_def t_def by (simp only: o_apply funpow.simps)
  then have e: "polls j s = fold dev_tick (?ms j) u" for j by (simp only: fold_append o_apply run)
  have c: "\<forall>m \<in> set (?ms j). calm m" for j by (auto simp: set_replicate_conv_if)
  note tl = working_timeline [OF w(1-3) assms(6) [unfolded assms(5)] assms(7) c, folded e]
  show thesis
  proof (rule that)
    show "submit_words dev_dut ws (Some d) = Some s" using d'(1) by (simp only: s_def)
    show "shell_live (soc_of (polls j s)) \<and> \<not> core_idle (dev_env (polls j s)) (dev_shell (polls j s))"
      if "1962 + j \<le> 3 * n" for j
      using tl(1) [of j] that by simp
    show "dev_rest (polls j s) \<and> dev_mem (polls j s) = vec_compute c n (dev_mem d)" if "3 * n < 1962 + j" for j
      using tl(2) [of j] that w(4) i(3) d'(8) by (simp add: assms(5))
  qed
qed

section \<open>Operands and results in the windows\<close>

lemma window_cell:
  assumes "unat a + n \<le> 8192" and "i < n" and "w \<le> 0x20000"
  shows "(ucast (word_of_nat w + a :: u32) :: 20 word) + word_of_nat i = word_of_nat (w + (unat a + i))"
proof -
  have "unat (word_of_nat w + a :: u32) = w + unat a"
    using assms by (simp add: unat_word_ariths unat_of_nat)
  then have "(ucast (word_of_nat w + a :: u32) :: 20 word) = word_of_nat (w + unat a)" by (metis of_nat_unat)
  then show ?thesis by (simp add: add.assoc)
qed

lemma act_cell:
  assumes "k < 8192"
  shows "host_sel_act (word_of_nat (0x20000 + k))" and "(ucast (word_of_nat (0x20000 + k) :: 20 word) :: 13 word) = word_of_nat k"
proof -
  have u: "unat (word_of_nat (0x20000 + k) :: 20 word) = 0x20000 + k"
    unfolding unat_of_nat using assms by simp
  show "host_sel_act (word_of_nat (0x20000 + k))"
    unfolding host_sel_act_def word_le_nat_alt word_less_nat_alt u using assms by simp
  have "unat (ucast (word_of_nat (0x20000 + k) :: 20 word) :: 13 word) = (0x20000 + k) mod 8192"
    unfolding unsigned_ucast_eq u by (simp add: take_bit_eq_mod)
  also have "\<dots> = k" using assms mod_mult_self2 [of k 8192 16] by (simp add: add.commute)
  finally show "(ucast (word_of_nat (0x20000 + k) :: 20 word) :: 13 word) = word_of_nat k" by (rule unat_eqD)
qed

lemma wt_cell:
  assumes "k < 4096"
  shows "host_sel_wt (word_of_nat (0x10000 + k))" and "(ucast (word_of_nat (0x10000 + k) :: 20 word) :: 12 word) = word_of_nat k"
proof -
  have u: "unat (word_of_nat (0x10000 + k) :: 20 word) = 0x10000 + k"
    unfolding unat_of_nat using assms by simp
  show "host_sel_wt (word_of_nat (0x10000 + k))"
    unfolding host_sel_wt_def word_le_nat_alt word_less_nat_alt u using assms by simp
  have "unat (ucast (word_of_nat (0x10000 + k) :: 20 word) :: 12 word) = (0x10000 + k) mod 4096"
    unfolding unsigned_ucast_eq u by (simp add: take_bit_eq_mod)
  also have "\<dots> = k" using assms mod_mult_self2 [of k 4096 16] by (simp add: add.commute)
  finally show "(ucast (word_of_nat (0x10000 + k) :: 20 word) :: 12 word) = word_of_nat k" by (rule unat_eqD)
qed

text \<open>A fold of stores into consecutive cells of one bank: the bytes are there, the other banks are unchanged.\<close>

lemma filled_bank:
  assumes "\<And>i x. i < length data \<Longrightarrow> st i x = upd (\<lambda>f. f(word_of_nat (a + i) := data ! i)) x"
    and "\<And>g x. bank (upd g x) = g (bank x)" and "\<And>g x. rest (upd g x) = rest x" and "a + length data \<le> 2 ^ LENGTH('b)"
  shows "rest (fold st [0..<length data] m) = rest m"
    and "map (\<lambda>i. bank (fold st [0..<length data] m) (word_of_nat (a + i) :: 'b::len word)) [0..<length data] = data"
proof -
  have "rest (fold st [0..<k] m) = rest m \<and> (\<forall>i < k. bank (fold st [0..<k] m) (word_of_nat (a + i) :: 'b word) = data ! i)"
    if "k \<le> length data" for k
    using that
  proof (induction k)
    case (Suc k)
    have "(word_of_nat (a + i) :: 'b word) = word_of_nat (a + k) \<longleftrightarrow> i = k" if "i < Suc k" for i
      using assms(4) Suc.prems that by (subst bank_addr_eq) simp_all
    with Suc show ?case by (auto simp: assms(1-3) less_Suc_eq)
  qed simp
  from this [OF le_refl] show "rest (fold st [0..<length data] m) = rest m"
    "map (\<lambda>i. bank (fold st [0..<length data] m) (word_of_nat (a + i) :: 'b word)) [0..<length data] = data"
    by (auto intro: nth_equalityI)
qed

lemma low_addr: "unat (a :: u32) + n \<le> 8192 \<Longrightarrow> unat (ucast a :: u16) = unat a"
  by (simp add: unsigned_ucast_eq take_bit_nat_eq_self)

lemma act_window:
  assumes "unat a + n \<le> 8192" and "i < n"
  shows "local_store (ucast (LGNPU_ACT_BUF_BASE + a) + word_of_nat i) v m =
      m\<lparr>lm_act := (lm_act m)(word_of_nat (unat a + i) := ucast v)\<rparr>"
    and "local_load (ucast (LGNPU_ACT_BUF_BASE + a) + word_of_nat i) m = ucast (lm_act m (word_of_nat (unat a + i)))"
proof -
  have k: "unat a + i < 8192" using assms by simp
  have e: "(ucast (LGNPU_ACT_BUF_BASE + a) :: 20 word) + word_of_nat i = word_of_nat (0x20000 + (unat a + i))"
    using window_cell [OF assms, of "0x20000"] by (simp add: c_consts)
  note c = act_cell [OF k]
  note n = sel_disjoint(2) [OF c(1)]
  show "local_store (ucast (LGNPU_ACT_BUF_BASE + a) + word_of_nat i) v m =
      m\<lparr>lm_act := (lm_act m)(word_of_nat (unat a + i) := ucast v)\<rparr>"
    unfolding e local_store_def c(2) using c(1) n by (simp only: if_True if_False not_False_eq_True)
  show "local_load (ucast (LGNPU_ACT_BUF_BASE + a) + word_of_nat i) m = ucast (lm_act m (word_of_nat (unat a + i)))"
    unfolding e local_load_def c(2) using c(1) n by (simp only: if_True if_False not_False_eq_True)
qed

lemma wt_window:
  assumes "unat a + n \<le> 4096" and "i < n"
  shows "local_store (ucast (LGNPU_WEIGHT_BUF_BASE + a) + word_of_nat i) v m =
      m\<lparr>lm_wt := (lm_wt m)(word_of_nat (unat a + i) := ucast v)\<rparr>"
proof -
  have k: "unat a + i < 4096" using assms by simp
  have e: "(ucast (LGNPU_WEIGHT_BUF_BASE + a) :: 20 word) + word_of_nat i = word_of_nat (0x10000 + (unat a + i))"
    using window_cell [of a n i "0x10000"] assms by (simp add: c_consts)
  note c = wt_cell [OF k]
  show ?thesis unfolding e local_store_def c(2) using c(1) by (simp only: if_True)
qed

lemma loaded_operands:
  fixes m :: local_mem
  assumes "unat a + length xs \<le> 8192" and "unat b + length ys \<le> 4096"
  defines "m1 \<equiv> fold (\<lambda>i. local_store (ucast (LGNPU_ACT_BUF_BASE + a) + word_of_nat i) (ucast (xs ! i))) [0..<length xs] m"
  defines "m2 \<equiv> fold (\<lambda>i. local_store (ucast (LGNPU_WEIGHT_BUF_BASE + b) + word_of_nat i) (ucast (ys ! i))) [0..<length ys] m1"
  shows "act_bytes m2 (ucast a) (length xs) = xs" and "wt_bytes m2 (ucast b) (length ys) = ys"
proof -
  have b8: "unat b + length ys \<le> 8192" using assms(2) by simp
  have st: "local_store (ucast (LGNPU_ACT_BUF_BASE + a) + word_of_nat i) (ucast (xs ! i)) x =
      lm_act_update (\<lambda>f. f(word_of_nat (unat a + i) := xs ! i)) x" if "i < length xs" for i x
    using act_window(1) [OF assms(1) that] by (simp add: byte_back)
  have st2: "local_store (ucast (LGNPU_WEIGHT_BUF_BASE + b) + word_of_nat i) (ucast (ys ! i)) x =
      lm_wt_update (\<lambda>f. f(word_of_nat (unat b + i) := ys ! i)) x" if "i < length ys" for i x
    using wt_window [OF assms(2) that] by (simp add: byte_back)
  note f1 = filled_bank [where upd = lm_act_update and bank = lm_act and rest = lm_wt, of xs _ "unat a" m, OF st, folded m1_def]
  note f2 = filled_bank [where upd = lm_wt_update and bank = lm_wt and rest = lm_act, of ys _ "unat b" m1, OF st2, folded m2_def]
  show "act_bytes m2 (ucast a) (length xs) = xs"
    using f1(2) f2(1) assms(1,2) by (simp add: act_bytes_def low_addr [OF assms(1)])
  show "wt_bytes m2 (ucast b) (length ys) = ys"
    using f2(2) assms(2) by (simp add: wt_bytes_def low_addr [OF b8])
qed

section \<open>The bench's vector test\<close>

text \<open>The command the decoder makes of the bench's descriptor.\<close>

lemma bench_vec_decoded:
  fixes d :: VecDesc
  assumes "vd_opcode d = 4"
  defines "ws \<equiv> VecDesc_to_words d"
  shows "\<not> decode_err ws" "opcode (decode_fields ws) = OP_VEC"
    "conv_to_vec_cmd (decode_fields ws) = \<lparr>v_a_addr = ucast (vd_a_addr d), v_out_addr = ucast (vd_out_addr d),
      v_b_addr = ucast (vd_b_addr d), v_length = ucast (vd_length d), v_vec_op = bit (vd_vec_op d) 0,
      v_quant_shift = ucast (vd_quant_shift d), v_act_mode = ucast (vd_act_mode d)\<rparr>"
proof -
  have ws: "ws = [4, vd_a_addr d, vd_out_addr d, vd_b_addr d, 0, vd_length d, vd_vec_op d, 0, 0, 0, 0, 0, 0, 0, 0,
      (vd_quant_shift d AND 0x1F) OR push_bit 5 (vd_act_mode d AND 0x3)]"
    using assms(1) by (simp add: ws_def VecDesc_to_words_def eval_nat_numeral)
  have q: "(ucast ((vd_quant_shift d AND 0x1F) OR push_bit 5 (vd_act_mode d AND 0x3)) :: 5 word) = ucast (vd_quant_shift d)"
    "(ucast (drop_bit 5 ((vd_quant_shift d AND 0x1F) OR push_bit 5 (vd_act_mode d AND 0x3))) :: 2 word) = ucast (vd_act_mode d)"
    unfolding u32_masks by (rule bit_word_eqI; auto simp: bit_simps)+
  have o: "bit (ucast (vd_vec_op d) :: u16) 0 = bit (vd_vec_op d) 0" by (simp add: bit_simps)
  show "\<not> decode_err ws" "opcode (decode_fields ws) = OP_VEC"
    "conv_to_vec_cmd (decode_fields ws) = \<lparr>v_a_addr = ucast (vd_a_addr d), v_out_addr = ucast (vd_out_addr d),
      v_b_addr = ucast (vd_b_addr d), v_length = ucast (vd_length d), v_vec_op = bit (vd_vec_op d) 0,
      v_quant_shift = ucast (vd_quant_shift d), v_act_mode = ucast (vd_act_mode d)\<rparr>"
    unfolding ws by (simp_all add: decode_simps q o del: drop_bit_or push_bit_and bit_0)
qed

text \<open>The arguments of the test survive the narrowing to the command's fields.\<close>

lemma vec_fields:
  assumes "n \<le> 4096" and "q < 32" and "op \<in> {0, 1}" and "mode < 4"
  shows "unat (ucast (word_of_int (int n) :: u32) :: u16) = n"
    and "unat (ucast (word_of_int (int q) :: u32) :: 5 word) = q"
    and "of_bool (bit (op :: u32) 0) = op" and "ucast (ucast (mode :: u32) :: 2 word) = mode"
proof -
  show "unat (ucast (word_of_int (int n) :: u32) :: u16) = n" "unat (ucast (word_of_int (int q) :: u32) :: 5 word) = q"
    using assms(1,2) by (simp_all add: unsigned_ucast_eq unat_of_nat take_bit_nat_eq_self take_bit_eq_mod)
  show "of_bool (bit op 0) = op" using assms(3) by auto
  have "unat mode < 4" using assms(4) by (simp add: word_less_nat_alt)
  then show "ucast (ucast mode :: 2 word) = mode"
    by (simp add: word_unat_eq_iff unsigned_ucast_eq unsigned_take_bit_eq take_bit_nat_eq_self)
qed

lemma act_bytes_read:
  assumes "unat a + n \<le> 8192"
  shows "map (\<lambda>i. ucast (local_load (ucast (LGNPU_ACT_BUF_BASE + a) + word_of_nat i) m AND 0xFF)) [0..<n] = act_bytes m (ucast a) n"
  using act_window(2) [OF assms, of _ m] by (simp add: act_bytes_def low_byte byte_back low_addr [OF assms])

lemma act_base_range:
  assumes "unat a + n \<le> 8192"
  shows "0x10000 \<le> unat (LGNPU_ACT_BUF_BASE + a)" "unat (LGNPU_ACT_BUF_BASE + a) + n \<le> 2 ^ 20"
  using assms by (simp_all add: c_consts unat_word_ariths)

lemma wt_base_range:
  assumes "unat b + n \<le> 4096"
  shows "0x10000 \<le> unat (LGNPU_WEIGHT_BUF_BASE + b)" "unat (LGNPU_WEIGHT_BUF_BASE + b) + n \<le> 2 ^ 20"
  using assms by (simp_all add: c_consts unat_word_ariths)

text \<open>From the submitted command to the verdict.\<close>

lemma vec_checked:
  assumes "dev_rest d" and "length ws = 16" and "\<not> decode_err ws" and "opcode (decode_fields ws) = OP_VEC"
    and "c = conv_to_vec_cmd (decode_fields ws)" and "n = unat (v_length c)" and "0 < n" and "n \<le> 8192"
    and "unat out + n \<le> 8192" and "expected = act_bytes (vec_compute c n (dev_mem d)) (ucast out) n"
  shows "\<exists>d'. check_output dev_dut (LGNPU_ACT_BUF_BASE + out) expected (submit_words dev_dut ws (Some d)) = Some (True, Some d') \<and>
    dev_rest d'"
proof -
  obtain s where s: "submit_words dev_dut ws (Some d) = Some s"
    "\<And>j. 1962 + j \<le> 3 * n \<Longrightarrow> shell_live (soc_of (polls j s)) \<and> \<not> core_idle (dev_env (polls j s)) (dev_shell (polls j s))"
    "\<And>j. 3 * n < 1962 + j \<Longrightarrow> dev_rest (polls j s) \<and> dev_mem (polls j s) = vec_compute c n (dev_mem d)"
    using vec_submitted [OF assms(1-7)] by blast
  have live: "shell_live (soc_of (polls j s))" for j
    using s(2,3) [of j] rest_live [of "polls j s"] by (cases "1962 + j \<le> 3 * n") auto
  have K: "core_idle (dev_env (polls (Suc (3 * n)) s)) (dev_shell (polls (Suc (3 * n)) s))"
    using s(3) [of "Suc (3 * n)"] rest_idle by simp
  have "3 * n < 200000" using assms(8) by simp
  from dev_wait_idle [OF live this K] obtain k
    where k: "wait_idle dev_dut 200000 (Some s) = Some (True, Some (polls (Suc k) s))"
      "core_idle (dev_env (polls (Suc k) s)) (dev_shell (polls (Suc k) s))"
    by blast
  define t where "t = polls (Suc k) s"
  have "\<not> 1962 + Suc k \<le> 3 * n" using s(2) [of "Suc k"] k(2) by blast
  with s(3) [of "Suc k"] have t: "dev_rest t" "dev_mem t = vec_compute c n (dev_mem d)" by (simp_all add: t_def not_le)
  obtain d' where d': "read_bytes dev_dut (LGNPU_ACT_BUF_BASE + out) n (Some t) = (expected, Some d')" "dev_rest d'"
    using read_bytes_rest [OF t(1) act_base_range [OF assms(9)]] by (auto simp: act_bytes_read [OF assms(9)] t(2) assms(10))
  have "length expected = n" by (simp add: assms(10) act_bytes_def)
  with k(1) [folded t_def] d' show ?thesis by (simp add: check_output_def s(1) compare_bytes_iff)
qed

section \<open>Properties\<close>

text \<open>C12: The bench's vector test passes on the device.  From rest, with the other backends idle, operands in
  range and an output that does not overwrite operands still to be read, \<open>run_vec_test\<close> ends with
  success and the device at rest: the bytes written through the windows, the sixteen queue words and
  the doorbell, fetch, decode, queue, scheduler and dispatch, the element loop of the vector unit on
  the banks, the polls of STATUS and the bytes read back, which are those of \<open>ref_vec\<close>.  No access hangs.\<close>

theorem vec_test_passes:
  assumes "dev_rest d" and "length a = n" and "length b = n" and "1 \<le> n" and "unat a_addr + n \<le> 8192"
    and "unat out_addr + n \<le> 8192" and "unat b_addr + n \<le> 4096"
    and "unat out_addr \<le> unat a_addr \<or> unat a_addr + n \<le> unat out_addr" and "op \<in> {0, 1}" and "q < 32" and "mode < 4"
  shows "\<exists>d'. run_vec_test dev_dut a b (int n) op (int q) mode a_addr b_addr out_addr (Some d) = Some (True, Some d') \<and>
    dev_rest d'"
proof -
  define desc where "desc = VecDesc_init\<lparr>vd_a_addr := a_addr, vd_out_addr := out_addr, vd_b_addr := b_addr,
    vd_length := word_of_int (int n), vd_vec_op := op, vd_quant_shift := word_of_int (int q), vd_act_mode := mode\<rparr>"
  define ws where "ws = VecDesc_to_words desc"
  define c where "c = conv_to_vec_cmd (decode_fields ws)"
  have "vd_opcode desc = 4" by (simp add: desc_def VecDesc_init_def)
  note w = bench_vec_decoded [OF this, folded ws_def]
  have len: "length ws = 16" by (simp add: ws_def VecDesc_to_words_def)
  have n: "n \<le> 4096" "unat b_addr + n \<le> 8192" using assms(7) by simp_all
  note f = vec_fields [OF n(1) assms(10,9,11)]
  have c: "v_a_addr c = ucast a_addr" "v_b_addr c = ucast b_addr" "v_out_addr c = ucast out_addr" "unat (v_length c) = n"
    "of_bool (v_vec_op c) = op" "unat (v_quant_shift c) = q" "ucast (v_act_mode c) = mode"
    using f by (simp_all add: c_def w(3) desc_def)
  note u = low_addr [OF assms(5)] low_addr [OF assms(6)] low_addr [OF n(2)]
  have r: "vec_ranges c" using assms(5-8) by (simp add: vec_ranges_def Let_def c u)
  obtain d1 where d1: "load_bytes dev_dut (LGNPU_ACT_BUF_BASE + a_addr) a (Some d) = Some d1" "dev_rest d1"
    "dev_mem d1 = fold (\<lambda>i. local_store (ucast (LGNPU_ACT_BUF_BASE + a_addr) + word_of_nat i) (ucast (a ! i))) [0..<length a] (dev_mem d)"
    using load_bytes_rest [OF assms(1), of "LGNPU_ACT_BUF_BASE + a_addr" a] act_base_range [OF assms(5)] assms(2) by auto
  obtain d2 where d2: "load_bytes dev_dut (LGNPU_WEIGHT_BUF_BASE + b_addr) b (Some d1) = Some d2" "dev_rest d2"
    "dev_mem d2 = fold (\<lambda>i. local_store (ucast (LGNPU_WEIGHT_BUF_BASE + b_addr) + word_of_nat i) (ucast (b ! i))) [0..<length b] (dev_mem d1)"
    using load_bytes_rest [OF d1(2), of "LGNPU_WEIGHT_BUF_BASE + b_addr" b] wt_base_range [OF assms(7)] assms(3) by auto
  have o: "act_bytes (dev_mem d2) (ucast a_addr) n = a" "wt_bytes (dev_mem d2) (ucast b_addr) n = b"
    using loaded_operands [of a_addr a b_addr b "dev_mem d"] assms(2,3,5,7) by (simp_all add: d2(3) d1(3))
  define e where "e = act_bytes (vec_compute c n (dev_mem d2)) (ucast out_addr) n"
  have "ref_vec a b (int n) op (int q) mode = Some e"
    using vec_compute_ref [OF r, of "dev_mem d2"] by (simp add: c o e_def)
  moreover have "vec_test_submit dev_dut a b (int n) op (int q) mode a_addr b_addr out_addr (Some d) = submit_words dev_dut ws (Some d2)"
    by (simp add: vec_test_submit_def d1(1) d2(1) submit_vec_def ws_def desc_def)
  moreover have "\<exists>d'. check_output dev_dut (LGNPU_ACT_BUF_BASE + out_addr) e (submit_words dev_dut ws (Some d2)) = Some (True, Some d') \<and>
      dev_rest d'"
    using vec_checked [OF d2(2) len w(1,2) c_def c(4) [symmetric] _ _ assms(6) e_def] assms(4) n(1) by simp
  ultimately show ?thesis by (simp add: run_vec_test_def)
qed

theorem vec_test_passes_witness:
  "\<exists>d'. run_vec_test dev_dut [100, 3, 255] [100, 4, 7] 3 1 4 2 0x10 0x20 0x100 (Some reset_device) = Some (True, Some d') \<and> dev_rest d'"
  using vec_test_passes [OF reset_device_rest, of "[100, 3, 255]" 3 "[100, 4, 7]" "0x10" "0x100" "0x20" 1 4 2] by simp

end
