(* ===== verification/Npu_Datapath.thy ===== *)
theory Npu_Datapath
  imports Npu_Vec
begin

text \<open>
  The datapath blocks that the GEMM and convolution backends share: the pipeline register and the
  skid buffer of \<open>rtl/common\<close>, the post-processing stages of \<open>rtl/ops\<close>, and the loader, processing
  element, accumulator and writer of \<open>rtl/backends/conv\<close>.  A step is a clock edge; outputs are
  functions of the state, ready signals are combinational.
\<close>

section \<open>Pipeline register (\<open>pipeline_reg.sv\<close>)\<close>

record 'd pipe_reg =
  pr_data :: 'd
  pr_valid :: bool

definition pipe_in_ready :: "bool \<Rightarrow> 'd pipe_reg \<Rightarrow> bool" where
  "pipe_in_ready out_ready r = (\<not> pr_valid r \<or> out_ready)"

definition pipeline_reg_step :: "'d \<Rightarrow> bool \<Rightarrow> bool \<Rightarrow> 'd pipe_reg \<Rightarrow> 'd pipe_reg" where
  "pipeline_reg_step in_data in_valid out_ready r =
     (let transfer_in = (in_valid \<and> pipe_in_ready out_ready r);
          transfer_out = (pr_valid r \<and> out_ready)
      in if transfer_in then \<lparr>pr_data = in_data, pr_valid = True\<rparr>
         else if transfer_out then r\<lparr>pr_valid := False\<rparr> else r)"

section \<open>Skid buffer (\<open>skid_buffer.sv\<close>)\<close>

record skid =
  out_data_r :: u16
  skid_data_r :: u16
  out_valid_r :: bool
  skid_valid_r :: bool

definition skid_in_ready :: "skid \<Rightarrow> bool" where
  "skid_in_ready s = (\<not> skid_valid_r s)"

definition skid_buffer_step :: "u16 \<Rightarrow> bool \<Rightarrow> bool \<Rightarrow> skid \<Rightarrow> skid" where
  "skid_buffer_step in_data in_valid out_ready s =
     (let pop_out = (out_valid_r s \<and> out_ready);
          push_in = (in_valid \<and> skid_in_ready s);
          refill_from_skid = ((pop_out \<or> \<not> out_valid_r s) \<and> skid_valid_r s);
          bypass_to_out = ((pop_out \<or> \<not> out_valid_r s) \<and> \<not> skid_valid_r s \<and> push_in);
          spill_to_skid = (out_valid_r s \<and> \<not> out_ready \<and> push_in)
      in \<lparr>out_data_r = (if refill_from_skid then skid_data_r s else if bypass_to_out then in_data else out_data_r s),
          skid_data_r = (if spill_to_skid then in_data else skid_data_r s),
          out_valid_r = (if refill_from_skid \<or> bypass_to_out then True else if pop_out then False else out_valid_r s),
          skid_valid_r = (if spill_to_skid then True else if refill_from_skid then False else skid_valid_r s)\<rparr>)"

section \<open>Post-processing (\<open>postproc.sv\<close> and its stages)\<close>

definition biased :: "u8 \<Rightarrow> u32 \<Rightarrow> u32" where
  "biased bias_val in_data = in_data + scast bias_val"

definition activated :: "2 word \<Rightarrow> u32 \<Rightarrow> u32" where
  "activated mode in_data =
     (if mode = ACT_NONE then in_data
      else if mode = ACT_LEAKY_RELU then (if in_data <s 0 then signed_drop_bit LEAKY_SHIFT in_data else in_data)
      else (if in_data <s 0 then 0 else in_data))"

definition quantized :: "5 word \<Rightarrow> u32 \<Rightarrow> u8" where
  "quantized qshift in_data =
     (let shifted = signed_drop_bit (unat qshift) in_data
      in if 127 <s shifted then 127 else if shifted <s - 128 then 0x80 else ucast shifted)"

record postproc =
  pp_bias :: "u32 pipe_reg"
  pp_relu :: "u32 pipe_reg"
  pp_quant :: "u8 pipe_reg"

definition pp_relu_ready :: "bool \<Rightarrow> postproc \<Rightarrow> bool" where
  "pp_relu_ready out_ready p = pipe_in_ready out_ready (pp_quant p)"

definition pp_bias_ready :: "bool \<Rightarrow> postproc \<Rightarrow> bool" where
  "pp_bias_ready out_ready p = pipe_in_ready (pp_relu_ready out_ready p) (pp_relu p)"

definition pp_in_ready :: "bool \<Rightarrow> postproc \<Rightarrow> bool" where
  "pp_in_ready out_ready p = pipe_in_ready (pp_bias_ready out_ready p) (pp_bias p)"

definition postproc_step :: "u8 \<Rightarrow> 5 word \<Rightarrow> 2 word \<Rightarrow> u32 \<Rightarrow> bool \<Rightarrow> bool \<Rightarrow> postproc \<Rightarrow> postproc" where
  "postproc_step bias_val qshift mode in_data in_valid out_ready p =
     \<lparr>pp_bias = pipeline_reg_step (biased bias_val in_data) in_valid (pp_bias_ready out_ready p) (pp_bias p),
      pp_relu = pipeline_reg_step (activated mode (pr_data (pp_bias p))) (pr_valid (pp_bias p))
        (pp_relu_ready out_ready p) (pp_relu p),
      pp_quant = pipeline_reg_step (quantized qshift (pr_data (pp_relu p))) (pr_valid (pp_relu p)) out_ready (pp_quant p)\<rparr>"

section \<open>Loader (\<open>conv_loader.sv\<close>)\<close>

datatype loader_state = LD_IDLE | LD_REQ | LD_WAIT | LD_DONE

record conv_loader =
  ld_state :: loader_state
  act_latched :: bool
  wt_latched :: bool
  act_r :: u8
  wt_r :: u8
  is_zero_pad_r :: bool
  act_addr_r :: u16
  wt_addr_r :: u16

definition load_ready :: "conv_loader \<Rightarrow> bool" where
  "load_ready l = (ld_state l = LD_IDLE)"

definition pair_valid :: "conv_loader \<Rightarrow> bool" where
  "pair_valid l = (ld_state l = LD_DONE)"

definition act_mem_req :: "conv_loader \<Rightarrow> bool" where
  "act_mem_req l = (ld_state l = LD_REQ \<and> \<not> is_zero_pad_r l \<and> \<not> act_latched l)"

definition wt_mem_req :: "conv_loader \<Rightarrow> bool" where
  "wt_mem_req l = (ld_state l = LD_REQ \<and> \<not> is_zero_pad_r l \<and> \<not> wt_latched l)"

definition loader_next :: "bool \<Rightarrow> 'z vec_in_scheme \<Rightarrow> bool \<Rightarrow> conv_loader \<Rightarrow> loader_state" where
  "loader_next load_valid i pair_ready l = (case ld_state l of
     LD_IDLE \<Rightarrow> if load_valid then LD_REQ else LD_IDLE
   | LD_REQ \<Rightarrow> if is_zero_pad_r l then LD_DONE
       else if (act_latched l \<or> act_rd_gnt i) \<and> (wt_latched l \<or> wt_rd_gnt i) then LD_WAIT else LD_REQ
   | LD_WAIT \<Rightarrow> if act_latched l \<and> wt_latched l then LD_DONE else LD_WAIT
   | LD_DONE \<Rightarrow> if pair_ready then LD_IDLE else LD_DONE)"

definition conv_loader_step :: "u16 \<Rightarrow> u16 \<Rightarrow> bool \<Rightarrow> bool \<Rightarrow> 'z vec_in_scheme \<Rightarrow> bool \<Rightarrow> conv_loader \<Rightarrow> conv_loader" where
  "conv_loader_step act_addr wt_addr zero_pad load_valid i pair_ready l =
     (let accept = (ld_state l = LD_IDLE \<and> load_valid);
          fetching = (ld_state l = LD_REQ \<or> ld_state l = LD_WAIT);
          act_arrives = (fetching \<and> act_rd_rvalid i \<and> \<not> act_latched l);
          wt_arrives = (fetching \<and> wt_rd_rvalid i \<and> \<not> wt_latched l)
      in \<lparr>ld_state = loader_next load_valid i pair_ready l,
          act_latched = (if accept then zero_pad else if act_arrives then True else act_latched l),
          wt_latched = (if accept then zero_pad else if wt_arrives then True else wt_latched l),
          act_r = (if accept \<and> zero_pad then 0 else if act_arrives then act_rd_rdata i else act_r l),
          wt_r = (if accept \<and> zero_pad then 0 else if wt_arrives then wt_rd_rdata i else wt_r l),
          is_zero_pad_r = (if accept then zero_pad else is_zero_pad_r l),
          act_addr_r = (if accept then act_addr else act_addr_r l),
          wt_addr_r = (if accept then wt_addr else wt_addr_r l)\<rparr>)"

section \<open>Processing element and accumulator (\<open>conv_pe.sv\<close>, \<open>conv_array.sv\<close>, \<open>conv_accum.sv\<close>)\<close>

record conv_pe =
  result_r :: u32
  valid_r :: bool

definition pe_ready :: "bool \<Rightarrow> conv_pe \<Rightarrow> bool" where
  "pe_ready ready_in p = (\<not> valid_r p \<or> ready_in)"

text \<open>The product is 16 bits wide and sign-extended into the accumulation.\<close>

definition pe_product :: "u8 \<Rightarrow> u8 \<Rightarrow> u32" where
  "pe_product a w = scast (scast a * scast w :: 16 word)"

definition conv_pe_step :: "u8 \<Rightarrow> u8 \<Rightarrow> u32 \<Rightarrow> bool \<Rightarrow> bool \<Rightarrow> conv_pe \<Rightarrow> conv_pe" where
  "conv_pe_step act_in wt_in acc_in valid_in ready_in p =
     (if valid_in \<and> pe_ready ready_in p then \<lparr>result_r = acc_in + pe_product act_in wt_in, valid_r = True\<rparr>
      else if valid_r p \<and> ready_in then p\<lparr>valid_r := False\<rparr> else p)"

definition acc_feedback :: "bool \<Rightarrow> u32 \<Rightarrow> u32" where
  "acc_feedback clr acc_r = (if clr then 0 else acc_r)"

definition conv_accum_step :: "bool \<Rightarrow> bool \<Rightarrow> u32 \<Rightarrow> u32 \<Rightarrow> u32" where
  "conv_accum_step clr acc_en mac_result acc_r = (if clr then 0 else if acc_en then mac_result else acc_r)"

section \<open>Writer (\<open>conv_writer.sv\<close>)\<close>

datatype writer_state = WR_IDLE | WR_WRITE | WR_ACK

record conv_writer =
  wr_state :: writer_state
  wr_addr_r :: u16
  wr_data_r :: u8

definition writer_in_ready :: "conv_writer \<Rightarrow> bool" where
  "writer_in_ready w = (wr_state w = WR_IDLE)"

definition conv_writer_step :: "u16 \<Rightarrow> bool \<Rightarrow> u8 \<Rightarrow> bool \<Rightarrow> bool \<Rightarrow> conv_writer \<Rightarrow> conv_writer" where
  "conv_writer_step out_addr addr_valid in_data in_valid mem_gnt w =
     (let accept = (wr_state w = WR_IDLE \<and> in_valid \<and> addr_valid)
      in \<lparr>wr_state = (case wr_state w of
            WR_IDLE \<Rightarrow> if in_valid \<and> addr_valid then WR_WRITE else WR_IDLE
          | WR_WRITE \<Rightarrow> if mem_gnt then WR_ACK else WR_WRITE
          | WR_ACK \<Rightarrow> WR_IDLE),
          wr_addr_r = (if accept then out_addr else wr_addr_r w),
          wr_data_r = (if accept then in_data else wr_data_r w)\<rparr>)"

section \<open>Values after reset\<close>

definition pipe_reset :: "'d::zero pipe_reg" where
  "pipe_reset = \<lparr>pr_data = 0, pr_valid = False\<rparr>"

definition skid_reset :: skid where
  "skid_reset = \<lparr>out_data_r = 0, skid_data_r = 0, out_valid_r = False, skid_valid_r = False\<rparr>"

definition postproc_reset :: postproc where
  "postproc_reset = \<lparr>pp_bias = pipe_reset, pp_relu = pipe_reset, pp_quant = pipe_reset\<rparr>"

definition loader_reset :: conv_loader where
  "loader_reset = \<lparr>ld_state = LD_IDLE, act_latched = False, wt_latched = False, act_r = 0, wt_r = 0,
     is_zero_pad_r = False, act_addr_r = 0, wt_addr_r = 0\<rparr>"

definition pe_reset :: conv_pe where
  "pe_reset = \<lparr>result_r = 0, valid_r = False\<rparr>"

definition writer_reset :: conv_writer where
  "writer_reset = \<lparr>wr_state = WR_IDLE, wr_addr_r = 0, wr_data_r = 0\<rparr>"

section \<open>The arithmetic\<close>

lemma pe_product_sint: "sint (pe_product a w) = sint a * sint w"
proof -
  have "signed_take_bit 15 (sint a * sint w) = sint a * sint w"
    using abs_sint_i8_mult [of a w] by (intro signed_take_bit_int_eq_self) auto
  then have "sint (scast a * scast w :: 16 word) = sint a * sint w"
    by (simp add: sint_word_ariths sint_up_scast is_up)
  then show ?thesis by (simp add: pe_product_def sint_up_scast is_up)
qed

text \<open>The three stages compute the reference's requantisation, for the modes the reference knows.\<close>

lemma act_mode_codes:
  "(ucast mode :: u32) = ACT_MODE_RELU \<longleftrightarrow> mode = ACT_RELU" "(ucast mode :: u32) = ACT_MODE_LEAKY_RELU \<longleftrightarrow> mode = ACT_LEAKY_RELU"
  for mode :: "2 word"
  using unsigned_less [of mode, where ?'a = nat]
  by (simp_all add: rtl_sem c_consts word_unat_eq_iff unsigned_ucast_eq take_bit_nat_eq_self)

lemma act_mode_cases: "mode = ACT_NONE \<or> mode = ACT_RELU \<or> mode = ACT_LEAKY_RELU \<or> mode = 3" for mode :: "2 word"
proof -
  have "unat mode < 4" using unsigned_less [of mode, where ?'a = nat] by simp
  then have "unat mode = 0 \<or> unat mode = 1 \<or> unat mode = 2 \<or> unat mode = 3" by linarith
  then show ?thesis by (auto dest!: unat_eqD simp: rtl_sem)
qed

lemma sint_activated:
  assumes "mode \<noteq> 3"
  shows "sint (activated mode acc) = ref_activate (ucast mode) (sint acc)"
proof -
  have n: "ACT_RELU \<noteq> ACT_NONE" "ACT_LEAKY_RELU \<noteq> ACT_NONE" "ACT_RELU \<noteq> ACT_LEAKY_RELU" by (simp_all add: rtl_sem)
  have z: "acc <s 0 \<longleftrightarrow> sint acc < 0" by (simp add: word_sless_alt)
  consider "mode = ACT_NONE" | "mode = ACT_RELU" | "mode = ACT_LEAKY_RELU" using act_mode_cases [of mode] assms by blast
  then show ?thesis
    unfolding activated_def ref_activate_def act_mode_codes z
    using n by cases (simp_all add: sint_signed_drop_bit_eq)
qed

lemma postproc_ref:
  assumes "mode \<noteq> 3"
  shows "quantized q (activated mode acc) = requantized (unat q) (ucast mode) (sint acc)"
  unfolding quantized_def Let_def saturate_words requantized_def
  by (simp add: sint_signed_drop_bit_eq sint_activated [OF assms])

end
