(* ===== verification/Npu_Composite.thy ===== *)
theory Npu_Composite
  imports Npu_Vec Npu_Normalize
begin

text \<open>
  What the three composites of \<open>rtl/composites\<close> share: they use only the two ports of the activation
  bank, with the weight and bias ports tied off.  The locale \<open>composite\<close> states what the wrappers and
  the core rely on and carries a run over the activation bank alone to a run over all the banks; the
  section on division is the serial restoring divider that each of them has.
\<close>

section \<open>Ports\<close>

record act_in =
  ai_rd_gnt :: bool
  ai_rdata :: u8
  ai_rvalid :: bool
  ai_wr_gnt :: bool

record act_out =
  ao_rd_addr :: u16
  ao_rd_req :: bool
  ao_wr_addr :: u16
  ao_wr_data :: u8
  ao_wr_req :: bool

definition composite_ports :: "act_out \<Rightarrow> be_ports" where
  "composite_ports p =
     \<lparr>be_wt_addr = 0, be_wt_req = False, be_act_rd_addr = ao_rd_addr p, be_act_rd_req = ao_rd_req p,
      be_act_wr_addr = ao_wr_addr p, be_act_wr_data = ao_wr_data p, be_act_wr_req = ao_wr_req p,
      be_bias_addr = 0, be_bias_req = False\<rparr>"

definition act_inputs :: "be_ports \<Rightarrow> buffers \<Rightarrow> act_in" where
  "act_inputs p b = \<lparr>ai_rd_gnt = be_act_rd_gnt p, ai_rdata = be_act_rdata b, ai_rvalid = be_act_rd_rvalid b,
     ai_wr_gnt = be_act_wr_gnt p\<rparr>"

section \<open>The activation bank alone\<close>

record act_bank =
  ab_mem :: "13 word \<Rightarrow> u8"
  ab_rdata :: u8
  ab_rvalid :: bool

definition bank_of :: "buffers \<Rightarrow> act_bank" where
  "bank_of b = \<lparr>ab_mem = lm_act (local_of b), ab_rdata = be_act_rdata b, ab_rvalid = be_act_rd_rvalid b\<rparr>"

definition bank_in :: "act_out \<Rightarrow> act_bank \<Rightarrow> act_in" where
  "bank_in p m = \<lparr>ai_rd_gnt = ao_rd_req p, ai_rdata = ab_rdata m, ai_rvalid = ab_rvalid m, ai_wr_gnt = ao_wr_req p\<rparr>"

definition bank_step :: "act_out \<Rightarrow> act_bank \<Rightarrow> act_bank" where
  "bank_step p m =
     \<lparr>ab_mem = (if ao_wr_req p then (ab_mem m)(ucast (ao_wr_addr p) := ao_wr_data p) else ab_mem m),
      ab_rdata = (if ao_rd_req p then ab_mem m (ucast (ao_rd_addr p)) else ab_rdata m),
      ab_rvalid = ao_rd_req p\<rparr>"

text \<open>One clock of a unit with the banks, and with the activation bank alone.\<close>

definition unit_tick ::
  "(bool \<Rightarrow> 'c \<Rightarrow> act_in \<Rightarrow> 's \<Rightarrow> 's) \<Rightarrow> ('s \<Rightarrow> act_out) \<Rightarrow> bool \<Rightarrow> 'c \<Rightarrow> host_port \<Rightarrow> 's \<times> buffers \<Rightarrow> 's \<times> buffers" where
  "unit_tick step out cmd_valid cmd h s =
     (let p = composite_ports (out (fst s))
      in (step cmd_valid cmd (act_inputs p (snd s)) (fst s), router_step h p (snd s)))"

definition bank_tick ::
  "(bool \<Rightarrow> 'c \<Rightarrow> act_in \<Rightarrow> 's \<Rightarrow> 's) \<Rightarrow> ('s \<Rightarrow> act_out) \<Rightarrow> bool \<Rightarrow> 'c \<Rightarrow> 's \<times> act_bank \<Rightarrow> 's \<times> act_bank" where
  "bank_tick step out cmd_valid cmd s =
     (step cmd_valid cmd (bank_in (out (fst s)) (snd s)) (fst s), bank_step (out (fst s)) (snd s))"

section \<open>Phases of a run\<close>

text \<open>\<open>n\<close> steps of \<open>T\<close>, through states that satisfy \<open>P\<close>, to a state that satisfies \<open>Q\<close>.\<close>

definition leads :: "('a \<Rightarrow> 'a) \<Rightarrow> ('a \<Rightarrow> bool) \<Rightarrow> nat \<Rightarrow> 'a \<Rightarrow> ('a \<Rightarrow> bool) \<Rightarrow> bool" where
  "leads T P n s Q = ((\<forall>k<n. P ((T ^^ k) s)) \<and> Q ((T ^^ n) s))"

lemma leads_0: "Q s \<Longrightarrow> leads T P 0 s Q"
  by (simp add: leads_def)

lemma leads_1: "P s \<Longrightarrow> Q (T s) \<Longrightarrow> leads T P 1 s Q"
  by (simp add: leads_def)

lemma leads_trans:
  assumes "leads T P n s Q" and "\<And>t. Q t \<Longrightarrow> leads T P m t R"
  shows "leads T P (n + m) s R"
proof -
  let ?t = "(T ^^ n) s"
  have t: "leads T P m ?t R" using assms by (simp add: leads_def)
  have "P ((T ^^ k) s)" if "k < n + m" for k
  proof (cases "k < n")
    case False
    then have "(T ^^ k) s = (T ^^ (k - n)) ?t" by (simp flip: comp_apply [of "T ^^ _"] funpow_add)
    with t that False show ?thesis by (simp add: leads_def)
  qed (use assms(1) in \<open>simp add: leads_def\<close>)
  moreover have "(T ^^ (n + m)) s = (T ^^ m) ?t" by (subst add.commute) (simp add: funpow_add)
  ultimately show ?thesis using t by (simp add: leads_def)
qed

lemma leads_step: "P s \<Longrightarrow> leads T P n (T s) Q \<Longrightarrow> leads T P (Suc n) s Q"
  using leads_trans [of T P 1 s "\<lambda>t. t = T s" n Q] by (simp add: leads_def)

lemma leads_mono: "leads T P n s Q \<Longrightarrow> (\<And>t. Q t \<Longrightarrow> R t) \<Longrightarrow> leads T P n s R"
  by (simp add: leads_def)

text \<open>A loop whose \<open>i\<close>-th round takes \<open>f i\<close> steps.\<close>

lemma leads_loop:
  assumes "Q 0 s" and "\<And>i t. i < k \<Longrightarrow> Q i t \<Longrightarrow> leads T P (f i) t (Q (Suc i))"
  shows "leads T P (\<Sum>i<k. f i) s (Q k)"
  using assms(2)
proof (induction k)
  case 0
  then show ?case using assms(1) by (simp add: leads_0)
next
  case (Suc k)
  then have "leads T P (\<Sum>i<k. f i) s (Q k)" by simp
  from leads_trans [OF this Suc.prems(1) [OF lessI]] show ?case by simp
qed

section \<open>From the activation bank to all banks\<close>

lemma bank_of_step:
  assumes "\<not> (host_req h \<and> host_wr h)"
  shows "bank_of (router_step h (composite_ports p) b) = bank_step p (bank_of b)"
proof -
  have "lm_act (local_of (router_step h (composite_ports p) b)) =
      (if ao_wr_req p then (lm_act (local_of b))(ucast (ao_wr_addr p) := ao_wr_data p) else lm_act (local_of b))"
    unfolding host_silent_step [OF assms] by (simp add: be_store_def composite_ports_def)
  then show ?thesis
    by (simp add: bank_of_def bank_step_def be_act_rdata_def be_act_rd_rvalid_def router_step_def act_buffer_step_def
        mem_macro_1rw1r_def composite_ports_def local_of_def Let_def)
qed

lemma other_banks_step:
  assumes "\<not> (host_req h \<and> host_wr h)"
  shows "lm_wt (local_of (router_step h (composite_ports p) b)) = lm_wt (local_of b)"
    and "\<not> bias_pending_r b \<Longrightarrow> \<not> bias_pending_r (router_step h (composite_ports p) b)"
  unfolding host_silent_step [OF assms] by (simp_all add: be_store_def composite_ports_def no_bias_step)

lemma act_inputs_bank: "act_inputs (composite_ports p) b = bank_in p (bank_of b)"
  by (simp add: act_inputs_def bank_in_def bank_of_def composite_ports_def be_act_rd_gnt_def be_act_wr_gnt_def)

locale composite =
  fixes step :: "bool \<Rightarrow> 'c \<Rightarrow> act_in \<Rightarrow> 's \<Rightarrow> 's" and out :: "'s \<Rightarrow> act_out"
    and idle :: "'s \<Rightarrow> bool" and finished :: "'s \<Rightarrow> bool"
  assumes idle_silent: "idle v \<Longrightarrow> \<not> ao_rd_req (out v) \<and> \<not> ao_wr_req (out v)"
    and idle_waits: "idle v \<Longrightarrow> idle (step False c i v)"
    and accepts: "idle v \<Longrightarrow> \<not> idle (step True c i v) \<and> \<not> finished (step True c i v)"
    and finished_silent: "finished v \<Longrightarrow> \<not> idle v \<and> \<not> ao_rd_req (out v) \<and> \<not> ao_wr_req (out v)"
    and finished_idles: "finished v \<Longrightarrow> idle (step cv c i v)"
    and valid_ignored: "\<not> idle v \<Longrightarrow> step cv c i v = step False c i v"
begin

lemma tick_bank:
  assumes "\<not> (host_req h \<and> host_wr h)"
  shows "fst (unit_tick step out cv c h s) = fst (bank_tick step out cv c (fst s, bank_of (snd s)))"
    and "bank_of (snd (unit_tick step out cv c h s)) = snd (bank_tick step out cv c (fst s, bank_of (snd s)))"
    and "lm_wt (local_of (snd (unit_tick step out cv c h s))) = lm_wt (local_of (snd s))"
    and "\<not> bias_pending_r (snd s) \<Longrightarrow> \<not> bias_pending_r (snd (unit_tick step out cv c h s))"
  using assms
  by (simp_all add: unit_tick_def bank_tick_def act_inputs_bank bank_of_step other_banks_step Let_def)

text \<open>A run with the banks, while the offered command \<open>cmd\<close> makes no difference, is the run with the
  activation bank.\<close>

lemma clocks_bank:
  fixes cmd :: 'c
  assumes "leads (bank_tick step out False c) (\<lambda>t. \<not> idle (fst t)) (length hs) (fst s, bank_of (snd s)) Q"
    and "\<forall>h \<in> set hs. \<not> (host_req h \<and> host_wr h)" and "\<not> bias_pending_r (snd s)"
    and ign: "\<forall>v i. \<not> idle v \<longrightarrow> step cv cmd i v = step False c i v"
  shows "(fst (fold (unit_tick step out cv cmd) hs s), bank_of (snd (fold (unit_tick step out cv cmd) hs s))) = (bank_tick step out False c ^^ length hs) (fst s, bank_of (snd s))"
    and "lm_wt (local_of (snd (fold (unit_tick step out cv cmd) hs s))) = lm_wt (local_of (snd s))"
    and "\<not> bias_pending_r (snd (fold (unit_tick step out cv cmd) hs s))"
  using assms(1-3)
proof (induction hs arbitrary: s)
  case Nil
  { case 1 then show ?case by simp }
  { case 2 then show ?case by simp }
  { case 3 then show ?case by simp }
next
  case (Cons h hs)
  let ?T = "bank_tick step out False c"
  have l: "leads ?T (\<lambda>t. \<not> idle (fst t)) (length hs) (?T (fst s, bank_of (snd s))) Q \<and> \<not> idle (fst s)"
    if lead: "leads ?T (\<lambda>t. \<not> idle (fst t)) (length (h # hs)) (fst s, bank_of (snd s)) Q" for s :: "'s \<times> buffers"
  proof -
    have "\<not> idle (fst ((?T ^^ Suc k) (fst s, bank_of (snd s))))" if "k < length hs" for k
      using lead that by (auto simp only: leads_def length_Cons Suc_less_eq)
    moreover have "\<not> idle (fst ((?T ^^ 0) (fst s, bank_of (snd s))))"
      using lead by (auto simp only: leads_def length_Cons zero_less_Suc)
    ultimately show ?thesis using lead by (simp add: leads_def funpow_swap1)
  qed
  have t: "(fst (unit_tick step out cv cmd h s), bank_of (snd (unit_tick step out cv cmd h s))) = ?T (fst s, bank_of (snd s))"
    if "\<not> idle (fst s)" "\<not> (host_req h \<and> host_wr h)" for s
    using tick_bank(1,2) [OF that(2), of cv cmd s] ign that(1) by (simp add: prod_eq_iff bank_tick_def)
  let ?u = "unit_tick step out cv cmd h"
  have ih: "leads ?T (\<lambda>t. \<not> idle (fst t)) (length hs) (fst (?u s), bank_of (snd (?u s))) Q" "\<not> bias_pending_r (snd (?u s))"
    "(?T ^^ length (h # hs)) (fst s, bank_of (snd s)) = (?T ^^ length hs) (fst (?u s), bank_of (snd (?u s)))"
    if "leads ?T (\<lambda>t. \<not> idle (fst t)) (length (h # hs)) (fst s, bank_of (snd s)) Q"
      "\<forall>x \<in> set (h # hs). \<not> (host_req x \<and> host_wr x)" "\<not> bias_pending_r (snd s)" for s
  proof -
    have q: "\<not> (host_req h \<and> host_wr h)" using that(2) by simp
    note t' = t [OF conjunct2 [OF l [OF that(1)]] q]
    show "leads ?T (\<lambda>t. \<not> idle (fst t)) (length hs) (fst (?u s), bank_of (snd (?u s))) Q"
      unfolding t' by (rule conjunct1 [OF l [OF that(1)]])
    show "\<not> bias_pending_r (snd (?u s))" by (rule tick_bank(4) [OF q that(3)])
    show "(?T ^^ length (h # hs)) (fst s, bank_of (snd s)) = (?T ^^ length hs) (fst (?u s), bank_of (snd (?u s)))"
      unfolding t' by (simp add: funpow_swap1)
  qed
  { case 1 then show ?case using Cons.IH(1) [OF ih(1) [OF 1] _ ih(2) [OF 1]] by (simp only: ih(3) [OF 1] fold_simps) simp }
  { case 2 then show ?case using Cons.IH(2) [OF ih(1) [OF 2] _ ih(2) [OF 2]] tick_bank(3) [of h cv cmd s] by simp }
  { case 3 then show ?case using Cons.IH(3) [OF ih(1) [OF 3] _ ih(2) [OF 3]] by simp }
qed

text \<open>A command from idle: what its run on the activation bank computes, the banks hold \<open>n\<close> clocks later.\<close>

lemma command_clocks:
  assumes "idle v" and "\<not> bias_pending_r b" and "length hs = n" and "\<forall>h \<in> set (h0 # hs). \<not> (host_req h \<and> host_wr h)"
    and "leads (bank_tick step out False c) (\<lambda>t. \<not> idle (fst t) \<and> \<not> finished (fst t)) n
      (bank_tick step out True c (v, bank_of b)) (\<lambda>t. finished (fst t) \<and> ab_mem (snd t) = f)"
    and "(v', b') = fold (unit_tick step out cv cmd) hs (unit_tick step out True c h0 (v, b))"
    and ign: "\<forall>v i. \<not> idle v \<longrightarrow> step cv cmd i v = step False c i v"
  shows "finished v'" and "lm_act (local_of b') = f" and "lm_wt (local_of b') = lm_wt (local_of b)"
    and "\<not> bias_pending_r b'"
proof -
  define s where "s = unit_tick step out True c h0 (v, b)"
  have q: "\<not> (host_req h0 \<and> host_wr h0)" using assms(4) by simp
  note t = tick_bank [OF q, where s = "(v, b)" and cv = True and c = c, folded s_def, unfolded fst_conv snd_conv]
  have "leads (bank_tick step out False c) (\<lambda>t. \<not> idle (fst t)) (length hs) (fst s, bank_of (snd s))
      (\<lambda>t. finished (fst t) \<and> ab_mem (snd t) = f)"
    using assms(3,5) by (simp add: leads_def t(1,2))
  note r = clocks_bank [OF this _ _ ign, folded assms(6) [folded s_def]]
  have "finished (fst (v', bank_of b')) \<and> ab_mem (snd (v', bank_of b')) = f"
    using r(1) assms(2-5) t by (simp add: leads_def)
  then show "finished v'" "lm_act (local_of b') = f" by (simp_all add: bank_of_def)
  show "lm_wt (local_of b') = lm_wt (local_of b)" "\<not> bias_pending_r b'"
    using r(2,3) assms(2,4) t(3,4) by simp_all
qed

text \<open>The command is held at the port until the unit is done, as the scheduler does.\<close>

lemma held_ignored: "\<forall>v i. \<not> idle v \<longrightarrow> step cv c i v = step False c i v"
  using valid_ignored by blast

lemmas held_command_on_banks = command_clocks [OF _ _ _ _ _ _ held_ignored]

end

text \<open>A unit that has latched its command does not look at the port again.\<close>

locale latched = composite +
  assumes cmd_ignored: "\<not> idle v \<Longrightarrow> step cv c i v = step cv c' i v"
begin

lemma port_ignored: "\<forall>v i. \<not> idle v \<longrightarrow> step cv cmd i v = step False c i v"
  using valid_ignored cmd_ignored by metis

lemmas command_on_banks = command_clocks [OF _ _ _ _ _ _ port_ignored]

end

section \<open>Results written in order\<close>

definition act_written :: "u16 \<Rightarrow> (nat \<Rightarrow> u8) \<Rightarrow> nat \<Rightarrow> (13 word \<Rightarrow> u8) \<Rightarrow> 13 word \<Rightarrow> u8" where
  "act_written base g n m = fold (\<lambda>i f. f(ucast (base + word_of_nat i) := g i)) [0..<n] m"

lemma act_written_0 [simp]: "act_written base g 0 m = m"
  by (simp add: act_written_def)

lemma act_written_Suc:
  "act_written base g (Suc n) m = (act_written base g n m)(ucast (base + word_of_nat n) := g n)"
  by (simp add: act_written_def)

lemma act_written_other:
  "(\<And>i. i < n \<Longrightarrow> x \<noteq> ucast (base + word_of_nat i)) \<Longrightarrow> act_written base g n m x = m x"
  by (induction n) (simp_all add: act_written_Suc)

lemma act_cell_eq:
  assumes "unat base + n \<le> 8192" and "i < n" and "j < n"
  shows "(ucast (base + word_of_nat i :: u16) :: 13 word) = ucast (base + word_of_nat j) \<longleftrightarrow> i = j"
proof -
  have "(word_of_nat (unat base + i) :: 13 word) = word_of_nat (unat base + j) \<longleftrightarrow> unat base + i = unat base + j"
    using assms by (intro bank_addr_eq) simp_all
  then show ?thesis using assms by (simp add: bank_addr)
qed

lemma act_written_at:
  assumes "unat base + k \<le> 8192" and "n \<le> k" and "i < n"
  shows "act_written base g n m (ucast (base + word_of_nat i)) = g i"
  using assms(2,3)
proof (induction n)
  case (Suc n)
  then show ?case using act_cell_eq [OF assms(1), of i n] by (cases "i = n") (simp_all add: act_written_Suc)
qed simp

text \<open>Two ranges of the bank that do not meet.\<close>

lemma act_cells_apart:
  assumes "unat (a :: u16) + n \<le> 8192" and "unat (b :: u16) + k \<le> 8192" and "i < n" and "j < k" and "unat a + i \<noteq> unat b + j"
  shows "(ucast (a + word_of_nat i :: u16) :: 13 word) \<noteq> ucast (b + word_of_nat j)"
proof -
  have "(word_of_nat (unat a + i) :: 13 word) = word_of_nat (unat b + j) \<longleftrightarrow> unat a + i = unat b + j"
    using assms(1-4) by (intro bank_addr_eq) simp_all
  moreover have "(ucast (a + word_of_nat i) :: 13 word) = word_of_nat (unat a + i)"
    "(ucast (b + word_of_nat j) :: 13 word) = word_of_nat (unat b + j)"
    using bank_addr [of a n i, where ?'a = 13] bank_addr [of b k j, where ?'a = 13] assms(1-4) by simp_all
  ultimately show ?thesis using assms(5) by (simp only: not_False_eq_True)
qed

text \<open>Results are written in order, behind or apart from the elements still to be read.\<close>

lemma act_written_ahead:
  assumes "unat (a :: u16) + n \<le> 8192" and "unat b + n \<le> 8192" and "unat b \<le> unat a \<or> unat a + n \<le> unat b"
    and "e < n" and "k \<le> e"
  shows "act_written b g k m (ucast (a + word_of_nat e)) = m (ucast (a + word_of_nat e))"
proof (rule act_written_other)
  fix j
  assume "j < k"
  then have "unat a + e \<noteq> unat b + j" "j < n" using assms(3-5) by linarith+
  then show "(ucast (a + word_of_nat e) :: 13 word) \<noteq> ucast (b + word_of_nat j)"
    using assms(1,2,4) by (intro act_cells_apart [where n = n and k = n])
qed

lemma act_bytes_written:
  assumes "unat base + n \<le> 8192" and "lm_act m' = act_written base g n m"
  shows "act_bytes m' base n = map g [0..<n]"
proof -
  have "lm_act m' (word_of_nat (unat base + i)) = g i" if "i < n" for i
  proof -
    have "(word_of_nat (unat base + i) :: 13 word) = ucast (base + word_of_nat i)"
      using assms(1) that by (subst bank_addr) simp_all
    then show ?thesis using act_written_at [OF assms(1) le_refl that] by (simp only: assms(2))
  qed
  then show ?thesis by (simp add: act_bytes_def)
qed

text \<open>The rows of an input, as the composites read them and as the reference functions do.\<close>

lemma act_bytes_rows:
  assumes "unat (base :: u16) + M * N \<le> 8192" and "e < M * N"
  shows "row_of (act_bytes m base (M * N)) N (e div N) =
      map (\<lambda>i. lm_act m (ucast (base + word_of_nat (e div N * N + i)))) [0..<N]"
    and "act_bytes m base (M * N) ! e = map (\<lambda>i. lm_act m (ucast (base + word_of_nat (e div N * N + i)))) [0..<N] ! (e mod N)"
proof -
  have x: "act_bytes m base (M * N) ! k = lm_act m (ucast (base + word_of_nat k))" if "k < M * N" for k
  proof -
    have "(ucast (base + word_of_nat k) :: 13 word) = word_of_nat (unat base + k)"
      using assms(1) that by (intro bank_addr) simp_all
    then show ?thesis using that by (simp add: act_bytes_def)
  qed
  have r: "e div N < M" using assms(2) by (rule less_mult_imp_div_less)
  show "row_of (act_bytes m base (M * N)) N (e div N) =
      map (\<lambda>i. lm_act m (ucast (base + word_of_nat (e div N * N + i)))) [0..<N]"
    unfolding row_of_def by (rule map_cong [OF refl]) (rule x, rule radix_less [OF r], simp)
  have "0 < N" using assms(2) by (auto intro: gr0I)
  then show "act_bytes m base (M * N) ! e = map (\<lambda>i. lm_act m (ucast (base + word_of_nat (e div N * N + i)))) [0..<N] ! (e mod N)"
    unfolding x [OF assms(2)] by (simp only: nth_map_upt mod_less_divisor diff_zero add_0 div_mult_mod_eq)
qed

section \<open>The serial restoring divider\<close>

text \<open>The magnitude of a number, and its sign, in 32 bits.\<close>

lemma sint_of_int32: "- 2147483648 \<le> z \<Longrightarrow> z < 2147483648 \<Longrightarrow> sint (word_of_int z :: u32) = z"
proof -
  assume "- 2147483648 \<le> z" and "z < 2147483648"
  then have "signed_take_bit 31 z = z" by (intro signed_take_bit_int_eq_self) simp_all
  then show ?thesis by (simp add: sint_sbintrunc')
qed

lemma magnitude_word:
  fixes x :: int
  assumes "\<bar>x\<bar> < 2147483648"
  defines "w \<equiv> word_of_int x :: u32"
  shows "bit w 31 \<longleftrightarrow> x < 0" and "unat (if bit w 31 then - w else w) = nat \<bar>x\<bar>"
proof -
  have s: "sint w = x" unfolding w_def using assms(1) by (intro sint_of_int32) simp_all
  have "bit w 31 \<longleftrightarrow> sint w < 0" by (simp add: bit_last_iff [where ?'a = 32, simplified])
  then show b: "bit w 31 \<longleftrightarrow> x < 0" by (simp add: s)
  have m: "- w = word_of_int (- x)" by (simp add: w_def)
  have u: "unat (word_of_int z :: u32) = nat z" if "0 \<le> z" "z < 4294967296" for z
    using that by (simp add: unsigned_of_int take_bit_int_eq_self)
  show "unat (if bit w 31 then - w else w) = nat \<bar>x\<bar>"
  proof (cases "x < 0")
    case True
    then have "unat (- w) = nat (- x)" unfolding m using assms(1) by (intro u) simp_all
    then show ?thesis using True unfolding b by simp
  next
    case False
    then have "unat w = nat x" unfolding w_def using assms(1) by (intro u) simp_all
    then show ?thesis using False unfolding b by simp
  qed
qed

text \<open>The quotient and the remainder of the leading bits, one bit at a time.\<close>

lemma restoring_round:
  fixes n d w j :: nat
  assumes "0 < d" and "j < w"
  defines "t \<equiv> 2 * (n div 2 ^ (w - j) mod d) + n div 2 ^ (w - Suc j) mod 2"
  shows "n div 2 ^ (w - Suc j) mod d = (if d \<le> t then t - d else t)"
    and "n div 2 ^ (w - Suc j) div d = 2 * (n div 2 ^ (w - j) div d) + of_bool (d \<le> t)"
proof -
  define x where "x = n div 2 ^ (w - j)"
  define b where "b = n div 2 ^ (w - Suc j) mod 2"
  have "w - j = Suc (w - Suc j)" using assms(2) by simp
  then have "x = n div (2 ^ (w - Suc j) * 2)" by (simp add: x_def mult.commute)
  then have "x = n div 2 ^ (w - Suc j) div 2" by (simp only: div_mult2_eq)
  then have y: "n div 2 ^ (w - Suc j) = 2 * x + b" by (simp add: b_def)
  have t: "t = 2 * (x mod d) + b" by (simp add: t_def x_def b_def)
  have "2 * x + b = 2 * (d * (x div d) + x mod d) + b" by (simp only: mult_div_mod_eq)
  also have "\<dots> = d * (2 * (x div d)) + t" unfolding t by (simp only: distrib_left add.assoc mult.left_commute)
  finally have z: "2 * x + b = d * (2 * (x div d)) + t" .
  have lt: "t < 2 * d" using mod_less_divisor [OF assms(1), of x] unfolding t b_def by linarith
  have "(2 * x + b) mod d = t mod d" unfolding z by (rule mod_mult_self4)
  then have "(2 * x + b) mod d = (if d \<le> t then t - d else t)"
    using lt by (simp add: le_mod_geq)
  moreover have "(2 * x + b) div d = 2 * (x div d) + t div d" unfolding z using assms(1) by (simp only: div_mult_self4)
  then have "(2 * x + b) div d = 2 * (x div d) + of_bool (d \<le> t)"
    using lt assms(1) by (simp add: le_div_geq)
  ultimately show "n div 2 ^ (w - Suc j) mod d = (if d \<le> t then t - d else t)"
    "n div 2 ^ (w - Suc j) div d = 2 * (n div 2 ^ (w - j) div d) + of_bool (d \<le> t)"
    by (simp_all add: y x_def)
qed

text \<open>The register that holds the rest of the numerator above the quotient bits found so far: its top bit is
  the next bit of the numerator, and shifting in a quotient bit drops it.\<close>

lemma restoring_register:
  fixes n d w j b :: nat
  assumes "0 < d" and "j < w" and "n < 2 ^ w" and "b \<le> 1"
  defines "q \<equiv> n div 2 ^ (w - j) div d"
  defines "Q \<equiv> n mod 2 ^ (w - j) * 2 ^ j + q"
  shows "Q div 2 ^ (w - 1) = n div 2 ^ (w - Suc j) mod 2" and "Q < 2 ^ w"
    and "(2 * Q + b) mod 2 ^ w = n mod 2 ^ (w - Suc j) * 2 ^ Suc j + (2 * q + b)"
proof -
  define r where "r = w - Suc j"
  define x where "x = n div 2 ^ r mod 2"
  define R where "R = n mod 2 ^ r * 2 ^ j + q"
  have r: "w - j = Suc r" "w = Suc (r + j)" using assms(2) by (simp_all add: r_def)
  have "n < 2 ^ j * 2 ^ Suc r" using assms(3) by (simp add: r(2) power_add mult.commute)
  then have "n div 2 ^ Suc r < 2 ^ j" by (rule less_mult_imp_div_less)
  then have q: "q < 2 ^ j" unfolding q_def r(1) by (meson div_le_dividend le_less_trans)
  have "n mod 2 ^ r < 2 ^ r" by simp
  then have "n mod 2 ^ r + 1 \<le> 2 ^ r" by (simp only: Suc_eq_plus1 [symmetric] Suc_le_eq)
  then have "(n mod 2 ^ r + 1) * 2 ^ j \<le> 2 ^ r * 2 ^ j" by (rule mult_le_mono1)
  then have R: "R < 2 ^ (r + j)" using q by (simp add: R_def power_add)
  have "n mod (2 ^ r * 2) = 2 ^ r * x + n mod 2 ^ r" unfolding x_def by (rule mod_mult2_eq)
  then have m: "n mod 2 ^ Suc r = 2 ^ r * x + n mod 2 ^ r" by (simp add: mult.commute)
  have Q: "Q = 2 ^ (r + j) * x + R" unfolding Q_def R_def r(1) m by (simp add: power_add distrib_right)
  have x: "x < 2" by (simp add: x_def)
  show "Q div 2 ^ (w - 1) = n div 2 ^ (w - Suc j) mod 2"
    using R unfolding Q r_def [symmetric] x_def [symmetric] by (simp add: r(2))
  have "Q < 2 ^ (r + j) * (x + 1)" using R unfolding Q by simp
  also have "\<dots> \<le> 2 ^ (r + j) * 2" using x by (intro mult_le_mono2) simp
  finally show "Q < 2 ^ w" by (simp add: r(2))
  have lt: "2 * R + b < 2 ^ w" using R assms(4) by (simp add: r(2))
  have "2 * Q + b = 2 ^ w * x + (2 * R + b)" unfolding Q by (simp add: r(2))
  then have "(2 * Q + b) mod 2 ^ w = (2 * R + b) mod 2 ^ w" by (simp only: mod_mult_self4)
  also have "\<dots> = 2 * R + b" using lt by (rule mod_less)
  finally show "(2 * Q + b) mod 2 ^ w = n mod 2 ^ (w - Suc j) * 2 ^ Suc j + (2 * q + b)"
    by (simp add: R_def r_def)
qed

text \<open>Both registers on 32 bits: one round keeps their relation to the numerator \<open>n\<close>.\<close>

lemma restoring_round32:
  fixes rem quot denom :: u32
  assumes "unat denom = d" and "0 < d" and "d < 2 ^ 31" and "j < 32" and "n < 2 ^ 32"
    and "unat rem = n div 2 ^ (32 - j) mod d"
    and "unat quot = n mod 2 ^ (32 - j) * 2 ^ j + n div 2 ^ (32 - j) div d"
  defines "trial \<equiv> 2 * rem + of_bool (bit quot 31)"
  shows "unat (if denom \<le> trial then trial - denom else trial) = n div 2 ^ (32 - Suc j) mod d"
    and "unat (2 * quot + of_bool (denom \<le> trial)) =
      n mod 2 ^ (32 - Suc j) * 2 ^ Suc j + n div 2 ^ (32 - Suc j) div d"
proof -
  define r where "r = n div 2 ^ (32 - j) mod d"
  define q where "q = n div 2 ^ (32 - j) div d"
  define b where "b = n div 2 ^ (32 - Suc j) mod 2"
  have v: "unat rem = r" "unat quot = n mod 2 ^ (32 - j) * 2 ^ j + q" using assms(6,7) by (simp_all add: r_def q_def)
  note rr = restoring_round [OF assms(2,4), of n, folded r_def q_def b_def]
  note reg = restoring_register [OF assms(2,4,5), folded q_def b_def]
  have "bit quot 31 \<longleftrightarrow> bit (unat quot) 31" by (simp add: bit_unsigned_iff)
  then have "bit quot 31 \<longleftrightarrow> odd (unat quot div 2 ^ 31)" by (simp only: bit_iff_odd)
  then have top: "bit quot 31 \<longleftrightarrow> b = 1"
    using reg(1) [of 0] unfolding v(2) by (simp add: odd_iff_mod_2_eq_one b_def)
  have r: "r < d" using assms(2) by (simp add: r_def)
  have b: "b \<le> 1" by (simp add: b_def)
  have ub: "unat (of_bool (bit quot 31) :: u32) = b" unfolding top using b by (cases "b = 1") simp_all
  have t: "unat trial = 2 * r + b"
    using r assms(3) b unfolding trial_def by (simp add: unat_word_ariths v(1) ub)
  have le: "denom \<le> trial \<longleftrightarrow> d \<le> 2 * r + b" by (simp add: word_le_nat_alt t assms(1))
  show "unat (if denom \<le> trial then trial - denom else trial) = n div 2 ^ (32 - Suc j) mod d"
    unfolding rr(1) by (simp add: le t unat_sub assms(1))
  have "unat (2 * quot + of_bool (denom \<le> trial)) = (2 * unat quot + of_bool (d \<le> 2 * r + b)) mod 2 ^ 32"
    unfolding le by (simp add: unat_word_ariths mod_simps)
  also have "\<dots> = n mod 2 ^ (32 - Suc j) * 2 ^ Suc j + (2 * q + of_bool (d \<le> 2 * r + b))"
    unfolding v(2) by (rule reg(3)) simp
  finally show "unat (2 * quot + of_bool (denom \<le> trial)) =
      n mod 2 ^ (32 - Suc j) * 2 ^ Suc j + n div 2 ^ (32 - Suc j) div d"
    unfolding rr(2) .
qed

end
