(* ===== verification/Npu_Engine.thy ===== *)
theory Npu_Engine
  imports Npu_Datapath Npu_Composite
begin

text \<open>
  The multiply-accumulate engine that the GEMM and the convolution backend share: from the address of
  a pair of operands to the byte written back.  \<open>gemm_backend.sv\<close> and \<open>conv_backend.sv\<close> connect the blocks
  of \<open>Npu_Datapath\<close> in the same way behind their sequencers; the engine is that common part, clock by
  clock on the ports of the buffer router.  The locale \<open>sequencer\<close> states what the engine expects of the
  sequencer and address generator in front of it, and proves once that it then writes every result.
\<close>

section \<open>State\<close>

text \<open>What accompanies an iteration through the pipeline: whether it is the last or the first of its dot
  product, and for the last one the address of the output and of the bias.\<close>

record iter_meta =
  md_last_inner :: bool
  md_acc_clr :: bool
  md_wr_addr :: u16
  md_bias_addr :: u16

text \<open>An iteration as the address generator hands it to the loader.\<close>

record load_request =
  lr_act_addr :: u16
  lr_wt_addr :: u16
  lr_zero_pad :: bool
  lr_meta :: iter_meta

record datapath =
  dp_loader :: conv_loader
  dp_pe :: conv_pe
  dp_acc :: u32
  dp_postproc :: postproc
  dp_wr_addr_q :: skid
  dp_writer :: conv_writer
  dp_load_r :: iter_meta
  last_inner_d :: bool
  wr_addr_d :: u16
  pp_trigger_r :: bool
  bias_val :: u8

record backend_in = vec_in +
  bias_rd_rdata :: u8
  bias_rd_rvalid :: bool

section \<open>One clock\<close>

definition pp_out_ready :: "datapath \<Rightarrow> bool" where
  "pp_out_ready g = writer_in_ready (dp_writer g)"

definition pp_out_valid :: "datapath \<Rightarrow> bool" where
  "pp_out_valid g = pr_valid (pp_quant (dp_postproc g))"

definition pe_ready_out :: "datapath \<Rightarrow> bool" where
  "pe_ready_out g =
     (if last_inner_d g then pp_in_ready (pp_out_ready g) (dp_postproc g) \<and> skid_in_ready (dp_wr_addr_q g) else True)"

definition pe_accept :: "datapath \<Rightarrow> bool" where
  "pe_accept g = (pair_valid (dp_loader g) \<and> pe_ready (pe_ready_out g) (dp_pe g))"

definition pp_trigger :: "datapath \<Rightarrow> bool" where
  "pp_trigger g = (last_inner_d g \<and> valid_r (dp_pe g) \<and> pe_ready_out g)"

definition pipe_empty :: "datapath \<Rightarrow> bool" where
  "pipe_empty g = (\<not> pp_trigger_r g \<and> \<not> pp_out_valid g \<and> \<not> out_valid_r (dp_wr_addr_q g) \<and> pp_out_ready g)"

text \<open>\<open>load_valid\<close> and the request \<open>r\<close> come from the address generator, the shift and the activation mode
  from the command register.\<close>

definition datapath_step :: "bool \<Rightarrow> load_request \<Rightarrow> 5 word \<Rightarrow> 2 word \<Rightarrow> backend_in \<Rightarrow> datapath \<Rightarrow> datapath" where
  "datapath_step load_valid r qshift mode i g =
     (let ld = dp_loader g;
          pe = dp_pe g;
          load_accept = (load_valid \<and> load_ready ld);
          clr = (md_acc_clr (dp_load_r g) \<and> pe_accept g);
          acc_en = (valid_r pe \<and> pe_ready_out g)
      in \<lparr>dp_loader = conv_loader_step (lr_act_addr r) (lr_wt_addr r) (lr_zero_pad r) load_valid i
            (pe_ready (pe_ready_out g) pe) ld,
          dp_pe = conv_pe_step (act_r ld) (wt_r ld) (acc_feedback clr (dp_acc g)) (pair_valid ld) (pe_ready_out g) pe,
          dp_acc = conv_accum_step clr acc_en (result_r pe) (dp_acc g),
          dp_postproc = postproc_step (bias_val g) qshift mode (dp_acc g) (pp_trigger_r g) (pp_out_ready g) (dp_postproc g),
          dp_wr_addr_q = skid_buffer_step (wr_addr_d g) (pp_trigger g) (pp_out_valid g \<and> pp_out_ready g) (dp_wr_addr_q g),
          dp_writer = conv_writer_step (out_data_r (dp_wr_addr_q g)) (out_valid_r (dp_wr_addr_q g))
            (pr_data (pp_quant (dp_postproc g))) (pp_out_valid g) (out_wr_gnt i) (dp_writer g),
          dp_load_r = (if load_accept then lr_meta r else dp_load_r g),
          last_inner_d = (if pe_accept g then md_last_inner (dp_load_r g) else last_inner_d g),
          wr_addr_d = (if pe_accept g then md_wr_addr (dp_load_r g) else wr_addr_d g),
          pp_trigger_r = pp_trigger g,
          bias_val = (if bias_rd_rvalid i then bias_rd_rdata i else bias_val g)\<rparr>)"

definition datapath_ports :: "datapath \<Rightarrow> be_ports" where
  "datapath_ports g =
     \<lparr>be_wt_addr = wt_addr_r (dp_loader g), be_wt_req = wt_mem_req (dp_loader g),
      be_act_rd_addr = act_addr_r (dp_loader g), be_act_rd_req = act_mem_req (dp_loader g),
      be_act_wr_addr = wr_addr_r (dp_writer g), be_act_wr_data = wr_data_r (dp_writer g),
      be_act_wr_req = (wr_state (dp_writer g) = WR_WRITE),
      be_bias_addr = md_bias_addr (dp_load_r g), be_bias_req = (md_last_inner (dp_load_r g) \<and> pe_accept g)\<rparr>"

text \<open>The router's answers to the selected backend; the bias data comes from the weight bank.\<close>

definition backend_inputs :: "be_ports \<Rightarrow> buffers \<Rightarrow> backend_in" where
  "backend_inputs p b = vec_in.extend (vec_inputs p b) \<lparr>bias_rd_rdata = be_wt_rdata b, bias_rd_rvalid = be_bias_rvalid b\<rparr>"

definition iter_meta_reset :: iter_meta where
  "iter_meta_reset = \<lparr>md_last_inner = False, md_acc_clr = False, md_wr_addr = 0, md_bias_addr = 0\<rparr>"

definition datapath_reset :: datapath where
  "datapath_reset =
     \<lparr>dp_loader = loader_reset, dp_pe = pe_reset, dp_acc = 0, dp_postproc = postproc_reset, dp_wr_addr_q = skid_reset,
      dp_writer = writer_reset, dp_load_r = iter_meta_reset, last_inner_d = False, wr_addr_d = 0, pp_trigger_r = False,
      bias_val = 0\<rparr>"

text \<open>The engine and the banks together.\<close>

definition datapath_tick ::
  "bool \<Rightarrow> load_request \<Rightarrow> 5 word \<Rightarrow> 2 word \<Rightarrow> host_port \<Rightarrow> datapath \<times> buffers \<Rightarrow> datapath \<times> buffers" where
  "datapath_tick load_valid r qshift mode h s =
     (datapath_step load_valid r qshift mode (backend_inputs (datapath_ports (fst s)) (snd s)) (fst s),
      router_step h (datapath_ports (fst s)) (snd s))"

section \<open>What the iterations compute\<close>

abbreviation is_first :: "load_request \<Rightarrow> bool" where "is_first x \<equiv> md_acc_clr (lr_meta x)"

abbreviation is_final :: "load_request \<Rightarrow> bool" where "is_final x \<equiv> md_last_inner (lr_meta x)"

abbreviation out_addr :: "load_request \<Rightarrow> u16" where "out_addr x \<equiv> md_wr_addr (lr_meta x)"

definition operand_act :: "local_mem \<Rightarrow> load_request \<Rightarrow> u8" where
  "operand_act m x = (if lr_zero_pad x then 0 else lm_act m (ucast (lr_act_addr x)))"

definition operand_wt :: "local_mem \<Rightarrow> load_request \<Rightarrow> u8" where
  "operand_wt m x = (if lr_zero_pad x then 0 else lm_wt m (ucast (lr_wt_addr x)))"

definition accumulated :: "local_mem \<Rightarrow> load_request \<Rightarrow> u32 \<Rightarrow> u32" where
  "accumulated m x a = (if is_first x then 0 else a) + pe_product (operand_act m x) (operand_wt m x)"

primrec acc_after :: "local_mem \<Rightarrow> (nat \<Rightarrow> load_request) \<Rightarrow> nat \<Rightarrow> u32" where
  "acc_after m it 0 = 0"
| "acc_after m it (Suc j) = accumulated m (it j) (acc_after m it j)"

definition sum_of :: "local_mem \<Rightarrow> (nat \<Rightarrow> load_request) \<Rightarrow> nat \<Rightarrow> u32" where
  "sum_of m it j = biased (lm_wt m (ucast (md_bias_addr (lr_meta (it j))))) (acc_after m it (Suc j))"

text \<open>The memory when the results of the first iterations have been written.\<close>

primrec written :: "(u32 \<Rightarrow> u8) \<Rightarrow> local_mem \<Rightarrow> (nat \<Rightarrow> load_request) \<Rightarrow> nat \<Rightarrow> local_mem" where
  "written f m it 0 = m"
| "written f m it (Suc j) =
     (if is_final (it j)
      then (written f m it j)\<lparr>lm_act := (lm_act (written f m it j))(ucast (out_addr (it j)) := f (sum_of m it j))\<rparr>
      else written f m it j)"

text \<open>No operand is overwritten by an earlier result.\<close>

definition reads_safe :: "(nat \<Rightarrow> load_request) \<Rightarrow> nat \<Rightarrow> bool" where
  "reads_safe it n = (\<forall>j<n. \<forall>i<j. is_final (it i) \<longrightarrow> \<not> lr_zero_pad (it j) \<longrightarrow>
     (ucast (out_addr (it i)) :: 13 word) \<noteq> ucast (lr_act_addr (it j)))"

lemma written_wt [simp]: "lm_wt (written f m it k) = lm_wt m"
  by (induction k) simp_all

lemma written_other:
  assumes "\<And>i. i < k \<Longrightarrow> is_final (it i) \<Longrightarrow> (ucast (out_addr (it i)) :: 13 word) \<noteq> x"
  shows "lm_act (written f m it k) x = lm_act m x"
  using assms by (induction k) (auto simp: less_Suc_eq)

lemma written_read:
  assumes "reads_safe it n" and "j < n" and "k \<le> j" and "\<not> lr_zero_pad (it j)"
  shows "lm_act (written f m it k) (ucast (lr_act_addr (it j))) = lm_act m (ucast (lr_act_addr (it j)))"
  using assms unfolding reads_safe_def by (intro written_other) (meson order_less_le_trans)

section \<open>Dot products\<close>

text \<open>Iterations in groups of \<open>L\<close>: the first of a group clears the accumulator, the last one delivers the result to
  the next address.\<close>

definition dots :: "(nat \<Rightarrow> load_request) \<Rightarrow> nat \<Rightarrow> u16 \<Rightarrow> bool" where
  "dots it L base = (0 < L \<and> (\<forall>j. is_first (it j) = (j mod L = 0) \<and> is_final (it j) = (Suc (j mod L) = L) \<and>
     (is_final (it j) \<longrightarrow> out_addr (it j) = base + word_of_nat (j div L))))"

definition dot_sum :: "local_mem \<Rightarrow> (nat \<Rightarrow> load_request) \<Rightarrow> nat \<Rightarrow> nat \<Rightarrow> u32" where
  "dot_sum m it L e = biased (lm_wt m (ucast (md_bias_addr (lr_meta (it (e * L + (L - 1)))))))
     (\<Sum>i<L. pe_product (operand_act m (it (e * L + i))) (operand_wt m (it (e * L + i))))"

lemma acc_dots:
  assumes "dots it L base" and "k < L"
  shows "acc_after m it (e * L + Suc k) = (\<Sum>i<Suc k. pe_product (operand_act m (it (e * L + i))) (operand_wt m (it (e * L + i))))"
  using assms(2)
proof (induction k)
  case 0
  then show ?case using assms(1) by (simp add: dots_def accumulated_def)
next
  case (Suc k)
  have "\<not> is_first (it (e * L + Suc k))" using assms(1) Suc.prems by (simp add: dots_def)
  then show ?case using Suc by (simp add: accumulated_def)
qed

lemma group_index: "k < (L :: nat) \<Longrightarrow> (e * L + k) div L = e" "k < L \<Longrightarrow> (e * L + k) mod L = k"
  by simp_all

lemma index2_less: "m < M \<Longrightarrow> n < N \<Longrightarrow> m * N + n < M * (N :: nat)"
  using mult_le_mono1 [of "Suc m" M N] by simp

lemma sum_dots:
  assumes "dots it L base"
  shows "sum_of m it (e * L + (L - 1)) = dot_sum m it L e"
proof -
  have L: "L - 1 < L" "Suc (L - 1) = L" using assms by (simp_all add: dots_def)
  show ?thesis
    using acc_dots [OF assms L(1), of m e] unfolding L(2) sum_of_def dot_sum_def add_Suc_right [symmetric] by (simp only:)
qed

lemma written_part:
  assumes "dots it L base" and "i < L"
  shows "written f m it (e * L + i) = written f m it (e * L)"
  using assms(2)
proof (induction i)
  case (Suc i)
  then have "\<not> is_final (it (e * L + i))" using assms(1) by (simp add: dots_def)
  then show ?case using Suc by simp
qed simp

lemma written_dots:
  assumes "dots it L base"
  shows "lm_act (written f m it (e * L)) = act_written base (f \<circ> dot_sum m it L) e (lm_act m)"
proof (induction e)
  case (Suc e)
  have L: "L - 1 < L" "Suc (L - 1) = L" using assms by (simp_all add: dots_def)
  have i: "Suc e * L = Suc (e * L + (L - 1))" using L(2) by simp
  note d = group_index(2,1) [OF L(1), of e]
  have fin: "is_final (it (e * L + (L - 1)))" using assms L(2) d(1) by (simp add: dots_def)
  then have "out_addr (it (e * L + (L - 1))) = base + word_of_nat e" using assms d(2) by (simp add: dots_def)
  then show ?case
    using fin unfolding i written.simps written_part [OF assms L(1)] sum_dots [OF assms] by (simp add: Suc.IH act_written_Suc)
qed simp

text \<open>The accumulator does not wrap over as many products as a bank has bytes.\<close>

lemma pe_product_int: "pe_product a w = word_of_int (sint a * sint w)"
proof -
  have "word_of_int (sint (pe_product a w)) = pe_product a w" by simp
  then show ?thesis by (simp only: pe_product_sint)
qed

lemma sint_dot_sum:
  assumes "L \<le> 8192"
  shows "sint (dot_sum m it L e) = (\<Sum>i<L. sint (operand_act m (it (e * L + i))) * sint (operand_wt m (it (e * L + i)))) +
    sint (lm_wt m (ucast (md_bias_addr (lr_meta (it (e * L + (L - 1)))))))"
proof -
  let ?S = "\<Sum>i<L. sint (operand_act m (it (e * L + i))) * sint (operand_wt m (it (e * L + i)))"
  let ?b = "lm_wt m (ucast (md_bias_addr (lr_meta (it (e * L + (L - 1))))))"
  have "(scast x :: u32) = word_of_int (sint x)" for x :: u8
    using of_int_sint [of "scast x :: u32"] by (simp add: sint_up_scast is_up)
  then have w: "dot_sum m it L e = word_of_int (?S + sint ?b)"
    by (simp only: dot_sum_def pe_product_int biased_def of_int_sum of_int_add)
  have "\<bar>?S\<bar> \<le> int L * 16384" by (rule abs_sum_le) (rule abs_sint_i8_mult)
  also have "\<dots> \<le> 8192 * 16384" using assms by linarith
  finally have "\<bar>?S\<bar> \<le> 134217728" by simp
  then have "signed_take_bit 31 (?S + sint ?b) = ?S + sint ?b"
    using sint_i8 [of ?b] by (intro signed_take_bit_int_eq_self) auto
  then show ?thesis unfolding w sint_sbintrunc' by simp
qed

section \<open>Results in flight\<close>

text \<open>A token is a result on its way: its address and the value it has reached.\<close>

type_synonym 'v token = "(u16 \<times> 'v) option"

primrec tag :: "'v token \<Rightarrow> u16 list" where
  "tag None = []"
| "tag (Some t) = [fst t]"

definition stepped :: "('v \<Rightarrow> 'w) \<Rightarrow> 'v token \<Rightarrow> 'w token" where
  "stepped f t = map_option (\<lambda>(w, v). (w, f v)) t"

lemma stepped_simps [simp]:
  "stepped f None = None" "stepped f (Some (w, v)) = Some (w, f v)" "tag (stepped f t) = tag t"
  "stepped f t = None \<longleftrightarrow> t = None" "stepped f (stepped g t) = stepped (f \<circ> g) t"
  by (cases t; auto simp: stepped_def)+

definition held :: "'v token \<Rightarrow> 'v pipe_reg \<Rightarrow> bool" where
  "held t r = (case t of None \<Rightarrow> \<not> pr_valid r | Some (w, v) \<Rightarrow> pr_valid r \<and> pr_data r = v)"

text \<open>The address queue holds a list of at most two.\<close>

definition queued :: "u16 list \<Rightarrow> skid \<Rightarrow> bool" where
  "queued ws s = (case ws of
     [] \<Rightarrow> \<not> out_valid_r s \<and> \<not> skid_valid_r s
   | [a] \<Rightarrow> out_valid_r s \<and> out_data_r s = a \<and> \<not> skid_valid_r s
   | [a, b] \<Rightarrow> out_valid_r s \<and> out_data_r s = a \<and> skid_valid_r s \<and> skid_data_r s = b
   | _ \<Rightarrow> False)"

text \<open>Tokens at the six places: waiting for the bias, biased, activated, quantised, being written, and whether
  the writer is still acknowledging.\<close>

definition flight :: "u32 token \<Rightarrow> u32 token \<Rightarrow> u32 token \<Rightarrow> u8 token \<Rightarrow> u8 token \<Rightarrow> bool \<Rightarrow> datapath \<Rightarrow> bool" where
  "flight t0 t1 t2 t3 t4 t5 g = (pp_trigger_r g = (t0 \<noteq> None) \<and> (\<forall>w v. t0 = Some (w, v) \<longrightarrow> biased (bias_val g) (dp_acc g) = v) \<and>
     held t1 (pp_bias (dp_postproc g)) \<and> held t2 (pp_relu (dp_postproc g)) \<and> held t3 (pp_quant (dp_postproc g)) \<and>
     queued (tag t3 @ tag t2 @ tag t1 @ tag t0) (dp_wr_addr_q g) \<and>
     (case t4 of None \<Rightarrow> wr_state (dp_writer g) = (if t5 then WR_ACK else WR_IDLE)
      | Some (w, r) \<Rightarrow> wr_state (dp_writer g) = WR_WRITE \<and> wr_addr_r (dp_writer g) = w \<and> wr_data_r (dp_writer g) = r))"

lemma held_step:
  assumes "held t r" and "t \<noteq> None \<Longrightarrow> ready" and "u = (if v then Some (w, d) else None)"
  shows "held u (pipeline_reg_step d v ready r)"
  using assms by (auto simp: held_def pipeline_reg_step_def pipe_in_ready_def Let_def split: option.splits)

lemma held_pass:
  assumes "held s r0" and "held t r" and "t \<noteq> None \<longrightarrow> ready"
  shows "held (stepped f s) (pipeline_reg_step (f (pr_data r0)) (pr_valid r0) ready r)"
  using assms by (auto simp: held_def pipeline_reg_step_def pipe_in_ready_def Let_def split: option.splits)

lemma skid_step:
  assumes "queued ws s" and "push \<Longrightarrow> length ws \<le> 1" and "pop \<Longrightarrow> ws \<noteq> []"
  shows "queued ((if pop then tl ws else ws) @ (if push then [w] else [])) (skid_buffer_step w push pop s)"
  using assms
  by (auto simp: queued_def skid_buffer_step_def skid_in_ready_def Let_def split: list.splits)

lemma queued_ready: "queued ws s \<Longrightarrow> skid_in_ready s \<longleftrightarrow> length ws \<le> 1"
  by (auto simp: queued_def skid_in_ready_def split: list.splits)

lemma queued_out:
  "queued ws s \<Longrightarrow> out_valid_r s \<longleftrightarrow> ws \<noteq> []" "queued (w # ws) s \<Longrightarrow> out_data_r s = w"
  by (auto simp: queued_def split: list.splits)

lemma held_valid: "held t r \<Longrightarrow> pr_valid r \<longleftrightarrow> t \<noteq> None" "held (Some (w, v)) r \<Longrightarrow> pr_data r = v"
  by (auto simp: held_def split: option.splits)

text \<open>If the writer is free for a quantised result, nothing waits: the processing element may hand over its result,
  and every token moves on by one place.\<close>

lemma flight_ready:
  assumes "flight t0 t1 t2 t3 t4 t5 g" and "t3 \<noteq> None \<Longrightarrow> t4 = None \<and> \<not> t5"
  shows "pp_out_valid g \<longrightarrow> pp_out_ready g" and "pp_in_ready (pp_out_ready g) (dp_postproc g)"
    and "pp_bias_ready (pp_out_ready g) (dp_postproc g)" and "pp_relu_ready (pp_out_ready g) (dp_postproc g)"
    and "pp_out_valid g \<longleftrightarrow> t3 \<noteq> None"
    and "pe_ready_out g \<longleftrightarrow> last_inner_d g \<longrightarrow> length (tag t3 @ tag t2 @ tag t1 @ tag t0) \<le> 1"
proof -
  have q: "queued (tag t3 @ tag t2 @ tag t1 @ tag t0) (dp_wr_addr_q g)" using assms(1) by (simp add: flight_def)
  show v: "pp_out_valid g \<longleftrightarrow> t3 \<noteq> None" using assms(1) by (simp add: flight_def pp_out_valid_def held_valid(1) del: not_None_eq)
  show o: "pp_out_valid g \<longrightarrow> pp_out_ready g"
    unfolding v using assms by (auto simp: flight_def pp_out_ready_def writer_in_ready_def)
  then show r: "pp_relu_ready (pp_out_ready g) (dp_postproc g)" by (simp add: pp_relu_ready_def pipe_in_ready_def pp_out_valid_def)
  then show b: "pp_bias_ready (pp_out_ready g) (dp_postproc g)" by (simp add: pp_bias_ready_def pipe_in_ready_def)
  then show i: "pp_in_ready (pp_out_ready g) (dp_postproc g)" by (simp add: pp_in_ready_def pipe_in_ready_def)
  show "pe_ready_out g \<longleftrightarrow> last_inner_d g \<longrightarrow> length (tag t3 @ tag t2 @ tag t1 @ tag t0) \<le> 1"
    using i queued_ready [OF q] by (simp add: pe_ready_out_def)
qed

lemma datapath_step_sel:
  "dp_postproc (datapath_step lv r q a i g) = postproc_step (bias_val g) q a (dp_acc g) (pp_trigger_r g) (pp_out_ready g) (dp_postproc g)"
  "dp_wr_addr_q (datapath_step lv r q a i g) = skid_buffer_step (wr_addr_d g) (pp_trigger g) (pp_out_valid g \<and> pp_out_ready g) (dp_wr_addr_q g)"
  "dp_writer (datapath_step lv r q a i g) = conv_writer_step (out_data_r (dp_wr_addr_q g)) (out_valid_r (dp_wr_addr_q g))
      (pr_data (pp_quant (dp_postproc g))) (pp_out_valid g) (out_wr_gnt i) (dp_writer g)"
  "pp_trigger_r (datapath_step lv r q a i g) = pp_trigger g"
  "bias_val (datapath_step lv r q a i g) = (if bias_rd_rvalid i then bias_rd_rdata i else bias_val g)"
  by (simp_all add: datapath_step_def Let_def)

lemma flight_step:
  assumes "flight t0 t1 t2 t3 t4 t5 g" and "t3 \<noteq> None \<Longrightarrow> t4 = None \<and> \<not> t5" and "t4 \<noteq> None \<Longrightarrow> out_wr_gnt i"
    and "last_inner_d g \<and> valid_r (dp_pe g) \<Longrightarrow> length (tag t3 @ tag t2 @ tag t1 @ tag t0) \<le> 1"
    and g'_def: "g' = datapath_step lv r q a i g"
  shows "flight (if last_inner_d g \<and> valid_r (dp_pe g) then Some (wr_addr_d g, biased (bias_val g') (dp_acc g')) else None)
    t0 (stepped (activated a) t1) (stepped (quantized q) t2) t3 (t4 \<noteq> None) g'"
proof -
  note r = flight_ready [OF assms(1,2)]
  have f: "pp_trigger_r g = (t0 \<noteq> None)" "\<And>w v. t0 = Some (w, v) \<Longrightarrow> biased (bias_val g) (dp_acc g) = v"
    "held t1 (pp_bias (dp_postproc g))" "held t2 (pp_relu (dp_postproc g))" "held t3 (pp_quant (dp_postproc g))"
    "queued (tag t3 @ tag t2 @ tag t1 @ tag t0) (dp_wr_addr_q g)"
    using assms(1) by (simp_all add: flight_def)
  have t: "pp_trigger g \<longleftrightarrow> last_inner_d g \<and> valid_r (dp_pe g)" using r(6) assms(4) by (auto simp: pp_trigger_def)
  have "held t0 (pp_bias (dp_postproc g'))"
    unfolding g'_def datapath_step_sel postproc_step_def
    using f(1,2) r(3) by (cases t0) (auto simp del: not_None_eq intro!: held_step [OF f(3)])
  moreover have "held (stepped (activated a) t1) (pp_relu (dp_postproc g'))"
    unfolding g'_def datapath_step_sel postproc_step_def
    unfolding postproc.simps by (rule held_pass [OF f(3,4)]) (use r(4) in simp)
  moreover have "held (stepped (quantized q) t2) (pp_quant (dp_postproc g'))"
    unfolding g'_def datapath_step_sel postproc_step_def
    unfolding postproc.simps by (rule held_pass [OF f(4,5)]) (use r(1,5) in simp)
  moreover have "queued (tag t2 @ tag t1 @ tag t0 @ (if pp_trigger g then [wr_addr_d g] else [])) (dp_wr_addr_q g')"
    using skid_step [OF f(6), of "pp_trigger g" "pp_out_valid g \<and> pp_out_ready g" "wr_addr_d g"] r(1,5) t assms(4)
    by (cases t3) (auto simp: g'_def datapath_step_sel)
  moreover have "case t3 of None \<Rightarrow> wr_state (dp_writer g') = (if t4 \<noteq> None then WR_ACK else WR_IDLE)
      | Some (w, r) \<Rightarrow> wr_state (dp_writer g') = WR_WRITE \<and> wr_addr_r (dp_writer g') = w \<and> wr_data_r (dp_writer g') = r"
  proof (cases t3)
    case None
    then show ?thesis
      using assms(1,3) r(5) by (cases t4) (auto simp: g'_def datapath_step_sel conv_writer_step_def flight_def Let_def)
  next
    case (Some x)
    then have "wr_state (dp_writer g) = WR_IDLE" using assms(1,2) by (simp add: flight_def)
    then show ?thesis
      using Some f(5,6) r(5) queued_out(1) [of "fst x # tag t2 @ tag t1 @ tag t0" "dp_wr_addr_q g"] queued_out(2) [of "fst x" "tag t2 @ tag t1 @ tag t0" "dp_wr_addr_q g"]
      by (cases x) (auto simp: g'_def datapath_step_sel conv_writer_step_def held_def Let_def)
  qed
  moreover have "pp_trigger_r g' = pp_trigger g" by (simp add: g'_def datapath_step_sel)
  ultimately show ?thesis unfolding flight_def t [symmetric] by (cases "pp_trigger g") (simp_all del: not_None_eq)
qed

text \<open>The pipeline reports empty exactly when there is no token.\<close>

lemma flight_empty:
  assumes "flight t0 t1 t2 t3 t4 t5 g"
  shows "pipe_empty g \<longleftrightarrow> t0 = None \<and> t1 = None \<and> t2 = None \<and> t3 = None \<and> t4 = None \<and> \<not> t5"
proof -
  have "tag t = [] \<longleftrightarrow> t = None" for t :: "'a token" by (cases t) simp_all
  with assms show ?thesis
    by (auto simp: flight_def pipe_empty_def pp_out_valid_def pp_out_ready_def writer_in_ready_def held_valid(1) queued_out(1)
        simp del: not_None_eq split: option.splits if_splits)
qed

section \<open>Stages of an iteration\<close>

definition matches :: "load_request \<Rightarrow> iter_meta \<Rightarrow> bool" where
  "matches x md = (md_last_inner md = is_final x \<and> md_acc_clr md = is_first x \<and>
     (is_final x \<longrightarrow> md_wr_addr md = out_addr x \<and> md_bias_addr md = md_bias_addr (lr_meta x)))"

text \<open>The request \<open>r\<close> at the loader's input stands for the iteration \<open>x\<close>.\<close>

definition presents :: "load_request \<Rightarrow> load_request \<Rightarrow> bool" where
  "presents x r = (lr_zero_pad r = lr_zero_pad x \<and> matches x (lr_meta r) \<and>
     (\<not> lr_zero_pad x \<longrightarrow> lr_act_addr r = lr_act_addr x \<and> lr_wt_addr r = lr_wt_addr x))"

datatype stage = S_REQ | S_WAIT | S_DATA | S_READY | S_FULL | S_OVER

text \<open>Padding skips the fetch.\<close>

primrec next_stage :: "load_request \<Rightarrow> stage \<Rightarrow> stage" where
  "next_stage x S_REQ = (if lr_zero_pad x then S_READY else S_WAIT)"
| "next_stage x S_WAIT = S_DATA"
| "next_stage x S_DATA = S_READY"
| "next_stage x S_READY = S_FULL"
| "next_stage x S_FULL = S_OVER"
| "next_stage x S_OVER = S_OVER"

definition loading :: "load_request \<Rightarrow> u32 \<Rightarrow> datapath \<Rightarrow> bool" where
  "loading x a g = (matches x (dp_load_r g) \<and> \<not> valid_r (dp_pe g) \<and> (is_first x \<or> dp_acc g = a))"

definition holding :: "local_mem \<Rightarrow> load_request \<Rightarrow> datapath \<Rightarrow> bool" where
  "holding m x g = (act_r (dp_loader g) = operand_act m x \<and> wt_r (dp_loader g) = operand_wt m x)"

text \<open>The loader, the processing element and the accumulator work on iteration \<open>x\<close>, \<open>a\<close> being the accumulator before it.\<close>

primrec at_stage :: "local_mem \<Rightarrow> load_request \<Rightarrow> u32 \<Rightarrow> datapath \<Rightarrow> stage \<Rightarrow> bool" where
  "at_stage m x a g S_REQ = (ld_state (dp_loader g) = LD_REQ \<and> act_latched (dp_loader g) = lr_zero_pad x \<and>
     wt_latched (dp_loader g) = lr_zero_pad x \<and> is_zero_pad_r (dp_loader g) = lr_zero_pad x \<and>
     (if lr_zero_pad x then act_r (dp_loader g) = 0 \<and> wt_r (dp_loader g) = 0
      else act_addr_r (dp_loader g) = lr_act_addr x \<and> wt_addr_r (dp_loader g) = lr_wt_addr x) \<and> loading x a g)"
| "at_stage m x a g S_WAIT = (ld_state (dp_loader g) = LD_WAIT \<and> \<not> act_latched (dp_loader g) \<and> \<not> wt_latched (dp_loader g) \<and>
     loading x a g)"
| "at_stage m x a g S_DATA = (ld_state (dp_loader g) = LD_WAIT \<and> act_latched (dp_loader g) \<and> wt_latched (dp_loader g) \<and>
     holding m x g \<and> loading x a g)"
| "at_stage m x a g S_READY = (ld_state (dp_loader g) = LD_DONE \<and> holding m x g \<and> loading x a g)"
| "at_stage m x a g S_FULL = (ld_state (dp_loader g) = LD_IDLE \<and> valid_r (dp_pe g) \<and> result_r (dp_pe g) = accumulated m x a \<and>
     last_inner_d g = is_final x \<and> (is_final x \<longrightarrow> wr_addr_d g = out_addr x))"
| "at_stage m x a g S_OVER = (ld_state (dp_loader g) = LD_IDLE \<and> \<not> valid_r (dp_pe g) \<and> dp_acc g = accumulated m x a)"

text \<open>The banks meanwhile: the operands one clock after they are requested, the bias one clock after that of the
  pair is accepted.\<close>

primrec bank_at :: "local_mem \<Rightarrow> load_request \<Rightarrow> buffers \<Rightarrow> stage \<Rightarrow> bool" where
  "bank_at m x b S_REQ = (\<not> be_wt_rvalid b \<and> \<not> act_be_rd_accept_r (act_buf b))"
| "bank_at m x b S_WAIT = (be_wt_rvalid b \<and> act_be_rd_accept_r (act_buf b) \<and>
     be_act_rdata b = lm_act m (ucast (lr_act_addr x)) \<and> be_wt_rdata b = lm_wt m (ucast (lr_wt_addr x)))"
| "bank_at m x b S_DATA = True"
| "bank_at m x b S_READY = True"
| "bank_at m x b S_FULL = (is_final x \<longrightarrow>
     be_bias_rvalid b \<and> be_wt_rdata b = lm_wt m (ucast (md_bias_addr (lr_meta x))))"
| "bank_at m x b S_OVER = True"

text \<open>Nothing in the loader and the processing element.\<close>

definition at_rest :: "datapath \<Rightarrow> bool" where
  "at_rest g = (ld_state (dp_loader g) = LD_IDLE \<and> \<not> valid_r (dp_pe g))"

lemma backend_inputs_sel [simp]:
  "act_rd_gnt (backend_inputs p b) = be_act_rd_req p" "act_rd_rdata (backend_inputs p b) = be_act_rdata b"
  "act_rd_rvalid (backend_inputs p b) = act_be_rd_accept_r (act_buf b)" "wt_rd_gnt (backend_inputs p b) = be_wt_gnt p b"
  "wt_rd_rdata (backend_inputs p b) = be_wt_rdata b" "wt_rd_rvalid (backend_inputs p b) = be_wt_rvalid b"
  "out_wr_gnt (backend_inputs p b) = be_act_wr_req p" "bias_rd_rdata (backend_inputs p b) = be_wt_rdata b"
  "bias_rd_rvalid (backend_inputs p b) = be_bias_rvalid b"
  by (simp_all add: backend_inputs_def vec_inputs_simps vec_in.extend_def)

lemma ports_sel [simp]:
  "be_wt_addr (datapath_ports g) = wt_addr_r (dp_loader g)" "be_wt_req (datapath_ports g) = wt_mem_req (dp_loader g)"
  "be_act_rd_addr (datapath_ports g) = act_addr_r (dp_loader g)" "be_act_rd_req (datapath_ports g) = act_mem_req (dp_loader g)"
  "be_act_wr_addr (datapath_ports g) = wr_addr_r (dp_writer g)" "be_act_wr_data (datapath_ports g) = wr_data_r (dp_writer g)"
  "be_act_wr_req (datapath_ports g) = (wr_state (dp_writer g) = WR_WRITE)"
  "be_bias_addr (datapath_ports g) = md_bias_addr (dp_load_r g)"
  "be_bias_req (datapath_ports g) = (md_last_inner (dp_load_r g) \<and> pe_accept g)"
  by (simp_all add: datapath_ports_def)

lemma no_accept: "ld_state (dp_loader g) \<noteq> LD_DONE \<Longrightarrow> \<not> pe_accept g"
  by (simp add: pe_accept_def pair_valid_def)

lemmas engine_simps = datapath_step_def conv_loader_step_def loader_next_def load_ready_def pair_valid_def
  conv_pe_step_def conv_accum_step_def pe_ready_def acc_feedback_def Let_def

lemma stage_req:
  assumes "at_stage m x a g S_REQ" and "bank_at m x b S_REQ" and "\<not> bias_pending_r b"
    and "\<not> lr_zero_pad x \<Longrightarrow> lm_act (local_of b) (ucast (lr_act_addr x)) = lm_act m (ucast (lr_act_addr x))"
    and "lm_wt (local_of b) = lm_wt m"
  shows "at_stage m x a (datapath_step lv r q mode (backend_inputs (datapath_ports g) b) g) (next_stage x S_REQ)"
    and "bank_at m x (router_step h (datapath_ports g) b) (next_stage x S_REQ)"
proof -
  have na: "\<not> pe_accept g" by (rule no_accept) (use assms(1) in simp)
  have rq: "\<not> lr_zero_pad x \<Longrightarrow> \<not> be_bias_req (datapath_ports g)" "\<not> lr_zero_pad x \<Longrightarrow> be_wt_req (datapath_ports g)"
    "\<not> lr_zero_pad x \<Longrightarrow> be_act_rd_req (datapath_ports g)"
    using assms(1) na by (simp_all add: wt_mem_req_def act_mem_req_def)
  note rd = backend_read_step [OF assms(3) rq]
  show "at_stage m x a (datapath_step lv r q mode (backend_inputs (datapath_ports g) b) g) (next_stage x S_REQ)"
    using assms(1,2) na rd(1) rq by (auto simp: engine_simps loading_def holding_def operand_act_def operand_wt_def)
  show "bank_at m x (router_step h (datapath_ports g) b) (next_stage x S_REQ)"
    using assms(1,4,5) rd(3-6) by simp
qed

lemma stage_wait:
  assumes "at_stage m x a g S_WAIT" and "bank_at m x b S_WAIT" and "\<not> lr_zero_pad x"
  shows "at_stage m x a (datapath_step lv r q mode (backend_inputs p b) g) S_DATA"
  using assms no_accept [of g] by (simp add: engine_simps loading_def holding_def operand_act_def operand_wt_def)

lemma stage_data:
  assumes "at_stage m x a g S_DATA"
  shows "at_stage m x a (datapath_step lv r q mode i g) S_READY"
  using assms no_accept [of g] by (simp add: engine_simps loading_def holding_def)

lemma ready_accepts: "at_stage m x a g S_READY \<Longrightarrow> pe_accept g"
  by (simp add: loading_def pe_accept_def pair_valid_def pe_ready_def)

lemma stage_ready:
  assumes "at_stage m x a g S_READY"
  shows "at_stage m x a (datapath_step lv r q mode i g) S_FULL"
  using assms ready_accepts [OF assms] by (auto simp: engine_simps loading_def holding_def matches_def accumulated_def)

lemma stage_full:
  assumes "at_stage m x a g S_FULL" and "pe_ready_out g"
  shows "dp_acc (datapath_step lv r q mode i g) = accumulated m x a" and "\<not> valid_r (dp_pe (datapath_step lv r q mode i g))"
    and "\<not> lv \<Longrightarrow> at_stage m x a (datapath_step lv r q mode i g) S_OVER"
  using assms no_accept [of g] by (simp_all add: engine_simps)

lemma stage_over:
  assumes "at_stage m x a g S_OVER"
  shows "dp_acc (datapath_step lv r q mode i g) = accumulated m x a" and "\<not> valid_r (dp_pe (datapath_step lv r q mode i g))"
    and "\<not> lv \<Longrightarrow> at_stage m x a (datapath_step lv r q mode i g) S_OVER"
  using assms no_accept [of g] by (simp_all add: engine_simps)

lemma rest_step:
  assumes "at_rest g"
  shows "\<not> valid_r (dp_pe (datapath_step lv r q mode i g))" and "\<not> lv \<Longrightarrow> at_rest (datapath_step lv r q mode i g)"
  using assms by (simp_all add: at_rest_def engine_simps)

text \<open>The next request is taken while the loader is idle.\<close>

lemma stage_load:
  assumes "ld_state (dp_loader g) = LD_IDLE" and "lv" and "presents x r"
    and "\<not> valid_r (dp_pe (datapath_step lv r q mode i g))" and "is_first x \<or> dp_acc (datapath_step lv r q mode i g) = a"
  shows "at_stage m x a (datapath_step lv r q mode i g) S_REQ"
  using assms by (auto simp: loading_def presents_def engine_simps)

section \<open>The banks under the engine\<close>

lemma quiet_ports_step:
  assumes "\<not> bias_pending_r b" and "\<not> be_wt_req p" and "\<not> be_act_rd_req p" and "\<not> be_bias_req p"
  shows "\<not> be_wt_rvalid (router_step h p b)" "\<not> be_bias_rvalid (router_step h p b)"
    "\<not> act_be_rd_accept_r (act_buf (router_step h p b))"
  using assms by (simp_all add: be_wt_rvalid_def be_bias_rvalid_def wt_be_req_def wt_issue_bias_def router_simps)

lemma bias_read_step:
  assumes "\<not> bias_pending_r b" and "\<not> be_wt_req p" and "be_bias_req p"
  shows "be_bias_rvalid (router_step h p b)" "\<not> bias_pending_r (router_step h p b)"
    "be_wt_rdata (router_step h p b) = lm_wt (local_of b) (ucast (be_bias_addr p))"
  using assms
  by (simp_all add: be_bias_rvalid_def be_wt_rdata_def wt_be_req_def wt_issue_bias_def wt_be_addr_def router_simps)

lemma no_pending_step:
  assumes "\<not> bias_pending_r b" and "\<not> (be_wt_req p \<and> be_bias_req p)"
  shows "\<not> bias_pending_r (router_step h p b)"
  using assms by (auto simp: router_simps wt_be_req_def wt_issue_bias_def)

lemma no_collision: "\<not> (wt_mem_req (dp_loader g) \<and> pe_accept g)"
  by (auto simp: wt_mem_req_def pe_accept_def pair_valid_def)

lemma datapath_tick_sel [simp]:
  "fst (datapath_tick lv r q mode h s) = datapath_step lv r q mode (backend_inputs (datapath_ports (fst s)) (snd s)) (fst s)"
  "snd (datapath_tick lv r q mode h s) = router_step h (datapath_ports (fst s)) (snd s)"
  by (simp_all add: datapath_tick_def)

abbreviation silent :: "host_port \<Rightarrow> bool" where
  "silent h \<equiv> \<not> (host_req h \<and> host_wr h)"

definition stored :: "u8 token \<Rightarrow> local_mem \<Rightarrow> local_mem" where
  "stored t m = (case t of None \<Rightarrow> m | Some (w, r) \<Rightarrow> m\<lparr>lm_act := (lm_act m)(ucast w := r)\<rparr>)"

lemma stored_simps [simp]:
  "stored None m = m" "stored (Some (w, r)) m = m\<lparr>lm_act := (lm_act m)(ucast w := r)\<rparr>" "lm_wt (stored t m) = lm_wt m"
  by (auto simp: stored_def split: option.split)

text \<open>Any clock on the memory.\<close>

lemma mem_clock:
  assumes "flight t0 t1 t2 t3 t4 t5 (fst s)" and "\<not> bias_pending_r (snd s)" and "silent h"
  shows "\<not> bias_pending_r (snd (datapath_tick lv r q mode h s))"
    and "local_of (snd (datapath_tick lv r q mode h s)) = stored t4 (local_of (snd s))"
  using no_collision [of "fst s"] assms
  by (auto simp: no_pending_step host_silent_step be_store_def flight_def split: option.splits if_splits)

lemma gnt_flight: "flight t0 t1 t2 t3 t4 t5 g \<Longrightarrow> t4 \<noteq> None \<Longrightarrow> out_wr_gnt (backend_inputs (datapath_ports g) b)"
  by (auto simp: flight_def)

section \<open>One clock of an iteration\<close>

definition final_token :: "local_mem \<Rightarrow> load_request \<Rightarrow> u32 \<Rightarrow> u32 token" where
  "final_token m x a = (if is_final x then Some (out_addr x, biased (lm_wt m (ucast (md_bias_addr (lr_meta x)))) (accumulated m x a)) else None)"

text \<open>The result that leaves the processing element joins the ones in flight.\<close>

lemma flight_full:
  assumes "flight t0 t1 t2 t3 t4 t5 (fst s)" and "t3 \<noteq> None \<Longrightarrow> t4 = None \<and> \<not> t5"
    and "at_stage m x a (fst s) S_FULL" and "bank_at m x (snd s) S_FULL"
    and "length (tag t3 @ tag t2 @ tag t1 @ tag t0) \<le> 1"
  shows "flight (final_token m x a) t0 (stepped (activated mode) t1) (stepped (quantized q) t2) t3 (t4 \<noteq> None)
      (fst (datapath_tick lv r q mode h s))"
    and "pe_ready_out (fst s)"
proof -
  show p: "pe_ready_out (fst s)" using flight_ready(6) [OF assms(1,2)] assms(5) by simp
  let ?g = "fst (datapath_tick lv r q mode h s)"
  have acc: "dp_acc ?g = accumulated m x a" unfolding datapath_tick_sel by (rule stage_full(1) [OF assms(3) p])
  have bias: "is_final x \<Longrightarrow> bias_val ?g = lm_wt m (ucast (md_bias_addr (lr_meta x)))"
    using assms(4) by (simp add: datapath_step_sel)
  have t: "(if last_inner_d (fst s) \<and> valid_r (dp_pe (fst s)) then Some (wr_addr_d (fst s), biased (bias_val ?g) (dp_acc ?g)) else None) =
      final_token m x a"
    unfolding acc using assms(3) bias by (cases "is_final x") (simp_all add: final_token_def)
  show "flight (final_token m x a) t0 (stepped (activated mode) t1) (stepped (quantized q) t2) t3 (t4 \<noteq> None) ?g"
    using flight_step [OF assms(1,2) gnt_flight [OF assms(1)] assms(5) datapath_tick_sel(1) [of lv r q mode h s]] unfolding t .
qed

lemma flight_empty_pe:
  assumes "flight t0 t1 t2 t3 t4 t5 (fst s)" and "t3 \<noteq> None \<Longrightarrow> t4 = None \<and> \<not> t5" and "\<not> valid_r (dp_pe (fst s))"
  shows "flight None t0 (stepped (activated mode) t1) (stepped (quantized q) t2) t3 (t4 \<noteq> None) (fst (datapath_tick lv r q mode h s))"
  using flight_step [OF assms(1,2) gnt_flight [OF assms(1)] _ datapath_tick_sel(1)] assms(3) by simp

lemma stage_empty: "at_stage m x a g st \<Longrightarrow> valid_r (dp_pe g) \<longleftrightarrow> st = S_FULL"
  by (cases st) (simp_all add: loading_def)

lemma stage_idle: "at_stage m x a g st \<Longrightarrow> ld_state (dp_loader g) = LD_IDLE \<longleftrightarrow> st = S_FULL \<or> st = S_OVER"
  by (cases st) simp_all

lemma flight_clock:
  assumes "flight t0 t1 t2 t3 t4 t5 (fst s)" and "t3 \<noteq> None \<Longrightarrow> t4 = None \<and> \<not> t5"
    and "at_stage m x a (fst s) st" and "bank_at m x (snd s) st"
    and "st = S_FULL \<Longrightarrow> length (tag t3 @ tag t2 @ tag t1 @ tag t0) \<le> 1"
  shows "flight (if st = S_FULL then final_token m x a else None) t0 (stepped (activated mode) t1) (stepped (quantized q) t2) t3 (t4 \<noteq> None)
      (fst (datapath_tick lv r q mode h s))"
proof (cases "st = S_FULL")
  case True
  then show ?thesis using flight_full(1) [OF assms(1,2)] assms(3-5) by simp
next
  case False
  then show ?thesis using flight_empty_pe [OF assms(1,2)] stage_empty [OF assms(3)] by simp
qed

lemma stage_clock:
  assumes "flight t0 t1 t2 t3 t4 t5 (fst s)" and "t3 \<noteq> None \<Longrightarrow> t4 = None \<and> \<not> t5" and "\<not> bias_pending_r (snd s)"
    and "at_stage m x a (fst s) st" and "bank_at m x (snd s) st"
    and "st = S_FULL \<Longrightarrow> length (tag t3 @ tag t2 @ tag t1 @ tag t0) \<le> 1"
    and "st = S_FULL \<or> st = S_OVER \<Longrightarrow> \<not> lv" and "st = S_WAIT \<Longrightarrow> \<not> lr_zero_pad x"
    and "st = S_REQ \<Longrightarrow> \<not> lr_zero_pad x \<Longrightarrow>
      lm_act (local_of (snd s)) (ucast (lr_act_addr x)) = lm_act m (ucast (lr_act_addr x))"
    and "lm_wt (local_of (snd s)) = lm_wt m"
  shows "at_stage m x a (fst (datapath_tick lv r q mode h s)) (next_stage x st)"
    and "bank_at m x (snd (datapath_tick lv r q mode h s)) (next_stage x st)"
proof -
  have ready: "bank_at m x (router_step h (datapath_ports (fst s)) (snd s)) S_FULL" if "st = S_READY"
    using assms(4,10) that ready_accepts [of m x a "fst s"] bias_read_step [of "snd s" "datapath_ports (fst s)" h, OF assms(3)]
    by (auto simp: loading_def matches_def wt_mem_req_def)
  show "at_stage m x a (fst (datapath_tick lv r q mode h s)) (next_stage x st)"
    unfolding datapath_tick_sel
  proof (cases st)
    case S_REQ
    with assms show "at_stage m x a (datapath_step lv r q mode (backend_inputs (datapath_ports (fst s)) (snd s)) (fst s)) (next_stage x st)"
      using stage_req(1) [of m x a "fst s" "snd s"] by simp
  next
    case S_WAIT
    with assms show "at_stage m x a (datapath_step lv r q mode (backend_inputs (datapath_ports (fst s)) (snd s)) (fst s)) (next_stage x st)"
      using stage_wait [of m x a "fst s" "snd s"] by simp
  next
    case S_DATA
    with assms show "at_stage m x a (datapath_step lv r q mode (backend_inputs (datapath_ports (fst s)) (snd s)) (fst s)) (next_stage x st)"
      using stage_data [of m x a "fst s"] by simp
  next
    case S_READY
    with assms show "at_stage m x a (datapath_step lv r q mode (backend_inputs (datapath_ports (fst s)) (snd s)) (fst s)) (next_stage x st)"
      using stage_ready [of m x a "fst s"] by simp
  next
    case S_FULL
    with assms show "at_stage m x a (datapath_step lv r q mode (backend_inputs (datapath_ports (fst s)) (snd s)) (fst s)) (next_stage x st)"
      using stage_full(3) [of m x a "fst s"] flight_ready(6) [OF assms(1,2)] by simp
  next
    case S_OVER
    with assms show "at_stage m x a (datapath_step lv r q mode (backend_inputs (datapath_ports (fst s)) (snd s)) (fst s)) (next_stage x st)"
      using stage_over(3) [of m x a "fst s"] by simp
  qed
  show "bank_at m x (snd (datapath_tick lv r q mode h s)) (next_stage x st)"
  proof (cases st)
    case S_REQ
    with assms show ?thesis using stage_req(2) [of m x a "fst s" "snd s" h] by simp
  qed (use ready in simp_all)
qed

text \<open>The clock in which the next request is taken; \<open>e\<close> says what was in the engine before.\<close>

lemma load_clock:
  assumes "ld_state (dp_loader (fst s)) = LD_IDLE" and "\<not> bias_pending_r (snd s)" and "presents x r"
    and "\<not> valid_r (dp_pe (fst (datapath_tick True r q mode h s)))"
    and "is_first x \<or> dp_acc (fst (datapath_tick True r q mode h s)) = a"
  shows "at_stage m x a (fst (datapath_tick True r q mode h s)) S_REQ"
    and "bank_at m x (snd (datapath_tick True r q mode h s)) S_REQ"
proof -
  show "at_stage m x a (fst (datapath_tick True r q mode h s)) S_REQ"
    using assms stage_load [of "fst s" True x r] by simp
  show "bank_at m x (snd (datapath_tick True r q mode h s)) S_REQ"
    using quiet_ports_step [OF assms(2), of "datapath_ports (fst s)" h] assms(1) no_accept [of "fst s"]
    by (simp add: wt_mem_req_def act_mem_req_def)
qed

section \<open>All iterations\<close>

text \<open>An iteration takes five clocks, numbered from 0, in which the loader fetches its pair; a result leaves the
  processing element in clock 2 if the last pair was padding and in clock 4 otherwise, so two results can be in
  flight.\<close>

primrec stage_at :: "load_request \<Rightarrow> nat \<Rightarrow> stage" where
  "stage_at x 0 = S_REQ"
| "stage_at x (Suc p) = next_stage x (stage_at x p)"

primrec prev :: "(nat \<Rightarrow> 'v token) \<Rightarrow> nat \<Rightarrow> 'v token" where
  "prev f 0 = None"
| "prev f (Suc j) = f j"

definition out_token :: "local_mem \<Rightarrow> (nat \<Rightarrow> load_request) \<Rightarrow> nat \<Rightarrow> bool \<Rightarrow> nat \<Rightarrow> u32 token" where
  "out_token m it n z j = (if j < n \<and> is_final (it j) \<and> lr_zero_pad (it j) = z then Some (out_addr (it j), sum_of m it j) else None)"

abbreviation requantize :: "5 word \<Rightarrow> 2 word \<Rightarrow> u32 \<Rightarrow> u8" where
  "requantize q mode \<equiv> quantized q \<circ> activated mode"

definition flight_at :: "5 word \<Rightarrow> 2 word \<Rightarrow> local_mem \<Rightarrow> (nat \<Rightarrow> load_request) \<Rightarrow> nat \<Rightarrow> nat \<Rightarrow> nat \<Rightarrow> datapath \<Rightarrow> bool" where
  "flight_at q mode m it n p j g =
     (let N = prev (out_token m it n False); P = prev (out_token m it n True)
      in if p = 0 then flight (N j) None (stepped (activated mode) (P j)) None None (prev N j \<noteq> None) g
         else if p = 1 then flight None (N j) None (stepped (requantize q mode) (P j)) None False g
         else if p = 2 then flight None None (stepped (activated mode) (N j)) None (stepped (requantize q mode) (P j)) False g
         else if p = 3 then flight (P (Suc j)) None None (stepped (requantize q mode) (N j)) None (P j \<noteq> None) g
         else flight None (P (Suc j)) None None (stepped (requantize q mode) (N j)) False g)"

text \<open>How many iterations have their results in memory.\<close>

definition stored_at :: "(nat \<Rightarrow> load_request) \<Rightarrow> nat \<Rightarrow> nat \<Rightarrow> nat" where
  "stored_at it p j = (if 3 \<le> p \<and> 0 < j \<and> lr_zero_pad (it (j - 1)) then j else j - 1)"

definition datapath_at :: "5 word \<Rightarrow> 2 word \<Rightarrow> local_mem \<Rightarrow> (nat \<Rightarrow> load_request) \<Rightarrow> nat \<Rightarrow> nat \<Rightarrow> nat \<Rightarrow> datapath \<times> buffers \<Rightarrow> bool" where
  "datapath_at q mode m it n p j s =
     ((if j < n then at_stage m (it j) (acc_after m it j) (fst s) (stage_at (it j) p) \<and> bank_at m (it j) (snd s) (stage_at (it j) p)
       else at_rest (fst s)) \<and>
      flight_at q mode m it n p j (fst s) \<and> \<not> bias_pending_r (snd s) \<and>
      local_of (snd s) = written (requantize q mode) m it (stored_at it p j))"

lemma stage_at_le4:
  "p \<le> 4 \<Longrightarrow> stage_at x p = (if lr_zero_pad x then [S_REQ, S_READY, S_FULL, S_OVER, S_OVER] ! p
    else [S_REQ, S_WAIT, S_DATA, S_READY, S_FULL] ! p)"
  by (auto simp: le_Suc_eq eval_nat_numeral)

lemma prev_tokens: "prev (out_token m it n True) j = None \<or> prev (out_token m it n False) j = None"
  by (cases j) (simp_all add: out_token_def)

lemma token_tag: "length (tag t) \<le> 1"
  by (cases t) simp_all

lemma final_token_out: "j < n \<Longrightarrow> final_token m (it j) (acc_after m it j) = (if is_final (it j) then Some (out_addr (it j), sum_of m it j) else None)"
  by (simp add: final_token_def sum_of_def)

text \<open>The flight of the next clock, whatever the loader does.\<close>

lemma flight_at_next:
  assumes "flight_at q mode m it n p j (fst s)" and "p \<le> 4"
    and "j < n \<Longrightarrow> at_stage m (it j) (acc_after m it j) (fst s) (stage_at (it j) p) \<and> bank_at m (it j) (snd s) (stage_at (it j) p)"
    and "n \<le> j \<Longrightarrow> \<not> valid_r (dp_pe (fst s))"
  shows "if p = 4 then flight_at q mode m it n 0 (Suc j) (fst (datapath_tick lv r q mode h s))
    else flight_at q mode m it n (Suc p) j (fst (datapath_tick lv r q mode h s))"
proof -
  let ?s = "fst (datapath_tick lv r q mode h s)"
  let ?N = "prev (out_token m it n False) j" and ?P = "prev (out_token m it n True) j"
  let ?new = "if p = 2 then out_token m it n True j else if p = 4 then out_token m it n False j else None"
  have step: "flight ?new t0 (stepped (activated mode) t1) (stepped (quantized q) t2) t3 (t4 \<noteq> None) ?s"
    if f: "flight t0 t1 t2 t3 t4 t5 (fst s)" "t3 \<noteq> None \<Longrightarrow> t4 = None \<and> \<not> t5"
      and l: "p = 2 \<or> p = 4 \<Longrightarrow> length (tag t3 @ tag t2 @ tag t1 @ tag t0) \<le> 1" for t0 t1 t2 t3 t4 t5
  proof (cases "j < n")
    case True
    have F: "stage_at (it j) p = S_FULL \<longleftrightarrow> (if lr_zero_pad (it j) then p = 2 else p = 4)"
      using assms(2) by (auto simp: stage_at_le4 le_Suc_eq eval_nat_numeral)
    have n: "(if stage_at (it j) p = S_FULL then final_token m (it j) (acc_after m it j) else None) = ?new"
      unfolding F final_token_out [OF True] using True by (auto simp: out_token_def)
    have st: "at_stage m (it j) (acc_after m it j) (fst s) (stage_at (it j) p)" "bank_at m (it j) (snd s) (stage_at (it j) p)"
      using assms(3) True by simp_all
    have le: "stage_at (it j) p = S_FULL \<Longrightarrow> length (tag t3 @ tag t2 @ tag t1 @ tag t0) \<le> 1"
      unfolding F by (rule l) (auto split: if_splits)
    show ?thesis using flight_clock [OF f st le, of mode q lv r h] unfolding n .
  next
    case False
    then have "?new = None" by (simp add: out_token_def)
    then show ?thesis using flight_empty_pe [OF f, of mode q lv r h] assms(4) False by simp
  qed
  consider "p = 0" | "p = 1" | "p = 2" | "p = 3" | "p = 4" using assms(2) by linarith
  then show ?thesis
  proof cases
    case 1
    with assms(1) step [of ?N None "stepped (activated mode) ?P" None None "prev (prev (out_token m it n False)) j \<noteq> None"]
    show ?thesis by (simp add: flight_at_def Let_def)
  next
    case 2
    with assms(1) step [of None ?N None "stepped (requantize q mode) ?P" None False]
    show ?thesis by (simp add: flight_at_def Let_def)
  next
    case 3
    with assms(1) step [of None None "stepped (activated mode) ?N" None "stepped (requantize q mode) ?P" False] token_tag [of ?N]
    show ?thesis by (simp add: flight_at_def Let_def)
  next
    case 4
    with assms(1) step [of "out_token m it n True j" None None "stepped (requantize q mode) ?N" None "?P \<noteq> None"] prev_tokens [of m it n j]
    show ?thesis by (auto simp: flight_at_def Let_def)
  next
    case 5
    with assms(1) step [of None "out_token m it n True j" None None "stepped (requantize q mode) ?N" False] token_tag [of "out_token m it n True j"]
    show ?thesis by (simp add: flight_at_def Let_def)
  qed
qed

text \<open>The place from which the writer takes its byte, and the memory of the next clock.\<close>

definition writing_at :: "5 word \<Rightarrow> 2 word \<Rightarrow> local_mem \<Rightarrow> (nat \<Rightarrow> load_request) \<Rightarrow> nat \<Rightarrow> nat \<Rightarrow> nat \<Rightarrow> u8 token" where
  "writing_at q mode m it n p j = (if p = 2 then stepped (requantize q mode) (prev (out_token m it n True) j)
     else if p = 4 then stepped (requantize q mode) (prev (out_token m it n False) j) else None)"

lemma flight_at_mem:
  assumes "flight_at q mode m it n p j (fst s)" and "p \<le> 4" and "\<not> bias_pending_r (snd s)" and "silent h"
  shows "\<not> bias_pending_r (snd (datapath_tick lv r q' mode' h s))"
    and "local_of (snd (datapath_tick lv r q' mode' h s)) = stored (writing_at q mode m it n p j) (local_of (snd s))"
proof -
  consider "p = 0" | "p = 1" | "p = 2" | "p = 3" | "p = 4" using assms(2) by linarith
  then have "\<not> bias_pending_r (snd (datapath_tick lv r q' mode' h s)) \<and>
      local_of (snd (datapath_tick lv r q' mode' h s)) = stored (writing_at q mode m it n p j) (local_of (snd s))"
    using assms(1) mem_clock [OF _ assms(3,4), of _ _ _ _ _ _ lv r q' mode']
    by cases (auto simp: flight_at_def writing_at_def Let_def simp del: datapath_tick_sel)
  then show "\<not> bias_pending_r (snd (datapath_tick lv r q' mode' h s))"
    "local_of (snd (datapath_tick lv r q' mode' h s)) = stored (writing_at q mode m it n p j) (local_of (snd s))"
    by blast+
qed

lemma stored_next:
  assumes "j \<le> n" and "p \<le> 4"
  shows "stored (writing_at q mode m it n p j) (written (requantize q mode) m it (stored_at it p j)) =
    (if p = 4 then written (requantize q mode) m it (stored_at it 0 (Suc j))
     else written (requantize q mode) m it (stored_at it (Suc p) j))"
proof (cases j)
  case 0
  then show ?thesis by (simp add: writing_at_def stored_at_def)
next
  case (Suc i)
  moreover have "p = 0 \<or> p = 1 \<or> p = 2 \<or> p = 3 \<or> p = 4" using assms(2) by linarith
  ultimately show ?thesis using assms(1) by (auto simp: writing_at_def stored_at_def out_token_def)
qed

text \<open>What the sequencer must do: hand over the next iteration in the last clock of each, and nothing else while the
  loader is idle.\<close>

definition load_ok :: "(nat \<Rightarrow> load_request) \<Rightarrow> nat \<Rightarrow> nat \<Rightarrow> nat \<Rightarrow> bool \<Rightarrow> load_request \<Rightarrow> datapath \<Rightarrow> bool" where
  "load_ok it n p j lv r g = (if p = 4 \<and> Suc j < n then lv \<and> presents (it (Suc j)) r
     else \<not> (lv \<and> ld_state (dp_loader g) = LD_IDLE))"

lemma stage_last: "stage_at x 4 = (if lr_zero_pad x then S_OVER else S_FULL)"
  using stage_at_le4 [of 4 x] by simp

lemma stage_first: "p \<le> 4 \<Longrightarrow> stage_at x p = S_REQ \<longleftrightarrow> p = 0"
  by (auto simp: stage_at_le4 le_Suc_eq eval_nat_numeral)

lemma stage_fetches: "p \<le> 4 \<Longrightarrow> stage_at x p = S_WAIT \<Longrightarrow> \<not> lr_zero_pad x"
  by (auto simp: stage_at_le4 le_Suc_eq eval_nat_numeral split: if_splits)

lemma engine_next:
  assumes "datapath_at q mode m it n p j s" and "p \<le> 4" and "reads_safe it n" and "j \<le> n" and "silent h"
    and "load_ok it n p j lv r (fst s)"
  shows "if p = 4 then datapath_at q mode m it n 0 (Suc j) (datapath_tick lv r q mode h s)
    else datapath_at q mode m it n (Suc p) j (datapath_tick lv r q mode h s)"
proof -
  let ?s = "datapath_tick lv r q mode h s"
  have e: "j < n \<Longrightarrow> at_stage m (it j) (acc_after m it j) (fst s) (stage_at (it j) p)"
    "j < n \<Longrightarrow> bank_at m (it j) (snd s) (stage_at (it j) p)" "n \<le> j \<Longrightarrow> at_rest (fst s)"
    and fl: "flight_at q mode m it n p j (fst s)" and nb: "\<not> bias_pending_r (snd s)"
    and mem: "local_of (snd s) = written (requantize q mode) m it (stored_at it p j)"
    using assms(1) by (simp_all add: datapath_at_def)
  note mm = flight_at_mem [OF fl assms(2) nb assms(5), of lv r q mode]
  have f: "if p = 4 then flight_at q mode m it n 0 (Suc j) (fst ?s) else flight_at q mode m it n (Suc p) j (fst ?s)"
    by (rule flight_at_next [OF fl assms(2)]) (use e in \<open>simp_all add: at_rest_def\<close>)
  have fc: "\<exists>t0 t1 t2 t3 t4 t5. flight t0 t1 t2 t3 t4 t5 (fst s) \<and> (t3 \<noteq> None \<longrightarrow> t4 = None \<and> \<not> t5) \<and>
      (p = 2 \<or> p = 4 \<longrightarrow> length (tag t3 @ tag t2 @ tag t1 @ tag t0) \<le> 1)"
  proof -
    consider "p = 0" | "p = 1" | "p = 2" | "p = 3" | "p = 4" using assms(2) by linarith
    then show ?thesis
      using fl prev_tokens [of m it n j] token_tag [of "prev (out_token m it n False) j"]
        token_tag [of "out_token m it n True j"]
      by cases (simp_all add: flight_at_def Let_def del: not_None_eq; fastforce)+
  qed
  then obtain t0 t1 t2 t3 t4 t5 where t: "flight t0 t1 t2 t3 t4 t5 (fst s)" "t3 \<noteq> None \<Longrightarrow> t4 = None \<and> \<not> t5"
    "p = 2 \<or> p = 4 \<Longrightarrow> length (tag t3 @ tag t2 @ tag t1 @ tag t0) \<le> 1" by blast
  have full: "stage_at (it j) p = S_FULL \<Longrightarrow> p = 2 \<or> p = 4"
    using assms(2) by (auto simp: stage_at_le4 le_Suc_eq eval_nat_numeral split: if_splits)
  have stage: "at_stage m (it j) (acc_after m it j) (fst ?s) (next_stage (it j) (stage_at (it j) p)) \<and>
      bank_at m (it j) (snd ?s) (next_stage (it j) (stage_at (it j) p))"
    if j: "j < n" and l: "\<not> (lv \<and> ld_state (dp_loader (fst s)) = LD_IDLE)"
  proof -
    have rd: "lm_act (local_of (snd s)) (ucast (lr_act_addr (it j))) = lm_act m (ucast (lr_act_addr (it j)))"
      if "\<not> lr_zero_pad (it j)"
      unfolding mem by (rule written_read [OF assms(3) j _ that]) (simp add: stored_at_def)
    have no: "stage_at (it j) p = S_FULL \<or> stage_at (it j) p = S_OVER \<Longrightarrow> \<not> lv"
      using l stage_idle [OF e(1) [OF j]] by blast
    have wt: "lm_wt (local_of (snd s)) = lm_wt m" by (simp add: mem)
    show ?thesis
      by (intro conjI; rule stage_clock [OF t(1,2) nb e(1) [OF j] e(2) [OF j] t(3) [OF full] no stage_fetches [OF assms(2)] rd wt])
  qed
  show ?thesis
  proof (cases "p = 4")
    case False
    have l: "\<not> (lv \<and> ld_state (dp_loader (fst s)) = LD_IDLE)" using assms(6) False by (simp add: load_ok_def)
    then have "n \<le> j \<Longrightarrow> at_rest (fst ?s)" using rest_step(2) e(3) by (simp add: at_rest_def)
    then show ?thesis
      using False f mm stage [OF _ l] stored_next [OF assms(4,2), of q mode m it] mem by (auto simp: datapath_at_def)
  next
    case p: True
    have st: "j < n \<Longrightarrow> ld_state (dp_loader (fst s)) = LD_IDLE"
      using stage_idle [OF e(1)] by (simp add: p stage_last)
    have nx: "if Suc j < n then at_stage m (it (Suc j)) (acc_after m it (Suc j)) (fst ?s) S_REQ \<and> bank_at m (it (Suc j)) (snd ?s) S_REQ
        else at_rest (fst ?s)"
    proof (cases "Suc j < n")
      case True
      then have l: "lv" "presents (it (Suc j)) r" using assms(6) by (simp_all add: load_ok_def p)
      have j: "j < n" using True by simp
      have a: "\<not> valid_r (dp_pe (fst ?s))" "dp_acc (fst ?s) = acc_after m it (Suc j)"
        using e(1) [OF j] stage_full(1,2) [of m "it j" "acc_after m it j" "fst s"] stage_over(1,2) [of m "it j" "acc_after m it j" "fst s"]
          flight_ready(6) [OF t(1,2)] t(3)
        by (auto simp: p stage_last split: if_splits)
      from load_clock [OF st [OF j] nb l(2), of q mode h "acc_after m it (Suc j)"] a l(1) True show ?thesis by simp
    next
      case False
      then have l: "\<not> (lv \<and> ld_state (dp_loader (fst s)) = LD_IDLE)" using assms(6) by (simp add: load_ok_def)
      show ?thesis
      proof (cases "j < n")
        case True
        with stage [OF True l] False show ?thesis by (simp add: p stage_last at_rest_def split: if_splits)
      next
        case False
        then show ?thesis using rest_step(2) e(3) l by (simp add: at_rest_def)
      qed
    qed
    show ?thesis
      using p f mm nx stored_next [OF assms(4,2), of q mode m it] mem by (simp add: datapath_at_def split: if_splits)
  qed
qed

section \<open>Before the first and after the last iteration\<close>

definition engine_idle :: "local_mem \<Rightarrow> datapath \<times> buffers \<Rightarrow> bool" where
  "engine_idle m s = (at_rest (fst s) \<and> flight None None None None None False (fst s) \<and> \<not> bias_pending_r (snd s) \<and>
     local_of (snd s) = m)"

lemma idle_clock:
  assumes "engine_idle m s" and "silent h" and "\<not> lv"
  shows "engine_idle m (datapath_tick lv r q mode h s)"
proof -
  have i: "at_rest (fst s)" "flight None None None None None False (fst s)" "\<not> bias_pending_r (snd s)" "local_of (snd s) = m"
    using assms(1) by (simp_all add: engine_idle_def)
  have "flight None None None None None False (fst (datapath_tick lv r q mode h s))"
    using flight_empty_pe [OF i(2), of mode q lv r h] i(1) by (simp add: at_rest_def)
  then show ?thesis using i mem_clock [OF i(2,3) assms(2)] rest_step(2) assms(3) by (simp add: engine_idle_def)
qed

lemma engine_start:
  assumes "engine_idle m s" and "silent h" and "presents (it 0) r" and "is_first (it 0)" and "0 < n"
  shows "datapath_at q mode m it n 0 0 (datapath_tick True r q' mode' h s)"
proof -
  have i: "at_rest (fst s)" "flight None None None None None False (fst s)" "\<not> bias_pending_r (snd s)" "local_of (snd s) = m"
    using assms(1) by (simp_all add: engine_idle_def)
  have "flight None None None None None False (fst (datapath_tick True r q' mode' h s))"
    using flight_empty_pe [OF i(2), of mode' q' True r h] i(1) by (simp add: at_rest_def)
  moreover have "ld_state (dp_loader (fst s)) = LD_IDLE" using i(1) by (simp add: at_rest_def)
  note load_clock [OF this i(3) assms(3), of q' mode' h 0] rest_step(1) [OF i(1)]
  ultimately show ?thesis
    using mem_clock [OF i(2,3) assms(2), of True r q' mode'] i(4) assms(4,5) by (simp add: datapath_at_def flight_at_def stored_at_def)
qed

text \<open>Two clocks after the last result has been taken from the pipeline, the writer has acknowledged it.\<close>

lemma engine_finish:
  assumes "datapath_at q mode m it n 0 (Suc n) s" and "silent h" and "\<not> lv"
  shows "engine_idle (written (requantize q mode) m it n) (datapath_tick lv r q' mode' h s)"
proof -
  have e: "at_rest (fst s)" "flight_at q mode m it n 0 (Suc n) (fst s)" "\<not> bias_pending_r (snd s)"
    "local_of (snd s) = written (requantize q mode) m it n"
    using assms(1) by (simp_all add: datapath_at_def stored_at_def)
  have t: "out_token m it n z n = None" for z by (simp add: out_token_def)
  have f: "flight None None None None None (prev (out_token m it n False) n \<noteq> None) (fst s)"
    using e(2) by (simp add: flight_at_def t Let_def del: not_None_eq)
  have "flight None None None None None False (fst (datapath_tick lv r q' mode' h s))"
    using flight_empty_pe [OF f, of mode' q' lv r h] e(1) by (simp add: at_rest_def)
  then show ?thesis using e mem_clock [OF f e(3) assms(2)] rest_step(2) assms(3) by (simp add: engine_idle_def)
qed

section \<open>The sequencer in front of the engine\<close>

text \<open>A backend is a state with a datapath in it; \<open>seq p j\<close> says that its sequencer is in clock \<open>p\<close> of iteration \<open>j\<close>.
  It may rely on when the loader is idle.\<close>

definition loader_in_step :: "(nat \<Rightarrow> load_request) \<Rightarrow> nat \<Rightarrow> nat \<Rightarrow> nat \<Rightarrow> datapath \<Rightarrow> bool" where
  "loader_in_step it n p j d = (j < n \<longrightarrow> (p = 4 \<longrightarrow> ld_state (dp_loader d) = LD_IDLE) \<and>
     (p < 4 \<and> \<not> lr_zero_pad (it j) \<longrightarrow> ld_state (dp_loader d) \<noteq> LD_IDLE))"

locale sequencer =
  fixes data :: "'g \<Rightarrow> datapath" and tick :: "host_port \<Rightarrow> 'g \<times> buffers \<Rightarrow> 'g \<times> buffers"
    and seq :: "nat \<Rightarrow> nat \<Rightarrow> 'g \<Rightarrow> bool"
    and it :: "nat \<Rightarrow> load_request" and n :: nat and q :: "5 word" and mode :: "2 word"
  assumes seq_reads: "seq p j g \<Longrightarrow> reads_safe it n"
    and seq_loads: "seq p j g \<Longrightarrow> p \<le> 4 \<Longrightarrow> j \<le> n \<Longrightarrow> loader_in_step it n p j (data g) \<Longrightarrow>
      \<exists>lv r. load_ok it n p j lv r (data g) \<and>
        (data (fst (tick h (g, b))), snd (tick h (g, b))) = datapath_tick lv r q mode h (data g, b)"
    and seq_next: "seq p j g \<Longrightarrow> p \<le> 4 \<Longrightarrow> j \<le> n \<Longrightarrow> loader_in_step it n p j (data g) \<Longrightarrow>
      if p = 4 then seq 0 (Suc j) (fst (tick h (g, b))) else seq (Suc p) j (fst (tick h (g, b)))"
begin

definition at :: "local_mem \<Rightarrow> nat \<Rightarrow> nat \<Rightarrow> 'g \<times> buffers \<Rightarrow> bool" where
  "at m p j s = (seq p j (fst s) \<and> datapath_at q mode m it n p j (data (fst s), snd s))"

lemma at_clock:
  assumes "at m p j s" and "p \<le> 4" and "j \<le> n" and "silent h"
  shows "if p = 4 then at m 0 (Suc j) (tick h s) else at m (Suc p) j (tick h s)"
proof -
  obtain g b where s: "s = (g, b)" by fastforce
  have a: "seq p j g" "datapath_at q mode m it n p j (data g, b)" using assms(1) by (simp_all add: at_def s)
  have st: "j < n \<Longrightarrow> ld_state (dp_loader (data g)) = LD_IDLE \<longleftrightarrow> stage_at (it j) p = S_FULL \<or> stage_at (it j) p = S_OVER"
    using a(2) stage_idle [of m "it j" "acc_after m it j" "data g"] by (simp add: datapath_at_def)
  have i: "loader_in_step it n p j (data g)"
    using st assms(2) by (auto simp: loader_in_step_def stage_last stage_at_le4 less_Suc_eq eval_nat_numeral)
  obtain lv r where l: "load_ok it n p j lv r (data g)"
    "(data (fst (tick h (g, b))), snd (tick h (g, b))) = datapath_tick lv r q mode h (data g, b)"
    using seq_loads [OF a(1) assms(2,3) i] by blast
  have e: "if p = 4 then datapath_at q mode m it n 0 (Suc j) (data (fst (tick h (g, b))), snd (tick h (g, b)))
      else datapath_at q mode m it n (Suc p) j (data (fst (tick h (g, b))), snd (tick h (g, b)))"
    unfolding l(2) using engine_next [OF a(2) assms(2) seq_reads [OF a(1)] assms(3,4), of lv r] l(1) by simp
  have "if p = 4 then seq 0 (Suc j) (fst (tick h (g, b))) else seq (Suc p) j (fst (tick h (g, b)))"
    by (rule seq_next [OF a(1) assms(2,3) i])
  with e show ?thesis by (simp add: at_def s split: if_splits)
qed

text \<open>Clock \<open>p\<close> of iteration \<open>j\<close> is reached after 5 j + p clocks.\<close>

lemma at_run:
  assumes "at m 0 0 s" and "length hs = 5 * j + p" and "p \<le> 4" and "j \<le> n" and "\<forall>h \<in> set hs. silent h"
  shows "at m p j (fold tick hs s)"
  using assms(2-5)
proof (induction hs arbitrary: j p rule: rev_induct)
  case Nil
  then show ?case using assms(1) by simp
next
  case (snoc h hs)
  have h: "silent h" "\<forall>h \<in> set hs. silent h" using snoc.prems(4) by simp_all
  show ?case
  proof (cases p)
    case 0
    then obtain i where j: "j = Suc i" using snoc.prems(1) by (cases j) simp_all
    have "at m 4 i (fold tick hs s)" using snoc.prems(1,3) h(2) j 0 by (intro snoc.IH) simp_all
    from at_clock [OF this _ _ h(1)] snoc.prems(3) j 0 show ?thesis by simp
  next
    case (Suc k)
    have "at m k j (fold tick hs s)" using snoc.prems(1-3) h(2) Suc by (intro snoc.IH) simp_all
    from at_clock [OF this _ snoc.prems(3) h(1)] snoc.prems(2) Suc show ?thesis by simp
  qed
qed

lemma at_end:
  assumes "at m 0 0 s" and "length hs = 5 * n + 5" and "\<forall>h \<in> set hs. silent h"
  shows "at m 0 (Suc n) (fold tick hs s)"
proof -
  obtain h ks where hs: "hs = ks @ [h]" using assms(2) by (cases hs rule: rev_cases) simp_all
  have "at m 4 n (fold tick ks s)" using assms(2,3) hs by (intro at_run [OF assms(1)]) simp_all
  from at_clock [OF this, of h] assms(3) hs show ?thesis by simp
qed

end

section \<open>From the command to the last result\<close>

lemma take_drop_at:
  assumes "length hs = a + b"
  obtains xs ys where "hs = xs @ ys" and "length xs = a" and "length ys = b"
  using assms that [of "take a hs" "drop a hs"] by simp

text \<open>\<open>started k\<close> says that the sequencer is \<open>k\<close> clocks past the one that accepted a command; in clock \<open>lead\<close> it
  hands over the first iteration.  After the last one it stays silent.\<close>

locale command_run = sequencer +
  fixes lead :: nat and started :: "nat \<Rightarrow> 'a \<Rightarrow> bool"
  assumes started_quiet: "started k g \<Longrightarrow> k < lead \<Longrightarrow> started (Suc k) (fst (tick h (g, b))) \<and>
      (\<exists>r q' mode'. (data (fst (tick h (g, b))), snd (tick h (g, b))) = datapath_tick False r q' mode' h (data g, b))"
    and started_first: "started lead g \<Longrightarrow> ld_state (dp_loader (data g)) = LD_IDLE \<Longrightarrow> seq 0 0 (fst (tick h (g, b))) \<and>
      0 < n \<and> is_first (it 0) \<and> (\<exists>r q' mode'. presents (it 0) r \<and>
        (data (fst (tick h (g, b))), snd (tick h (g, b))) = datapath_tick True r q' mode' h (data g, b))"
    and seq_rest: "seq 0 (Suc n) g \<Longrightarrow>
      \<exists>r q' mode'. (data (fst (tick h (g, b))), snd (tick h (g, b))) = datapath_tick False r q' mode' h (data g, b)"
begin

lemma run_started:
  assumes "started 0 (fst s)" and "engine_idle m (data (fst s), snd s)" and "length hs \<le> lead" and "\<forall>h \<in> set hs. silent h"
  shows "started (length hs) (fst (fold tick hs s)) \<and> engine_idle m (data (fst (fold tick hs s)), snd (fold tick hs s))"
  using assms(3,4)
proof (induction hs rule: rev_induct)
  case Nil
  then show ?case using assms(1,2) by simp
next
  case (snoc h hs)
  obtain g b where gb: "fold tick hs s = (g, b)" by fastforce
  have i: "started (length hs) g" "engine_idle m (data g, b)" "length hs < lead" "silent h"
    using snoc gb by simp_all
  from started_quiet [OF i(1,3), of h b] idle_clock [OF i(2,4), of False] show ?case by (auto simp: gb)
qed

lemma run_first:
  assumes "started 0 (fst s)" and "engine_idle m (data (fst s), snd s)" and "length hs = Suc lead" and "\<forall>h \<in> set hs. silent h"
  shows "at m 0 0 (fold tick hs s)"
proof -
  obtain h ks where hs: "hs = ks @ [h]" "length ks = lead" using assms(3) by (cases hs rule: rev_cases) simp_all
  obtain g b where gb: "fold tick ks s = (g, b)" by fastforce
  have i: "started lead g" "engine_idle m (data g, b)" "silent h"
    using run_started [OF assms(1,2), of ks] assms(4) hs gb by simp_all
  then have "ld_state (dp_loader (data g)) = LD_IDLE" by (simp add: engine_idle_def at_rest_def)
  from started_first [OF i(1) this, of h b] engine_start [OF i(2,3), of it] show ?thesis by (auto simp: hs(1) gb at_def)
qed

text \<open>Where the backend is after a number of clocks since it accepted the command.\<close>

lemma run_reaches:
  assumes "started 0 (fst s)" and "engine_idle m (data (fst s), snd s)" and "\<forall>h \<in> set hs. silent h"
  shows "length hs = Suc lead + (5 * j + p) \<Longrightarrow> p \<le> 4 \<Longrightarrow> j \<le> n \<Longrightarrow> at m p j (fold tick hs s)"
    and "length hs = Suc lead + (5 * n + 5) \<Longrightarrow> at m 0 (Suc n) (fold tick hs s)"
proof -
  have first: "at m 0 0 (fold tick xs s)" if "length xs = Suc lead" "set xs \<subseteq> set hs" for xs
    using that assms by (intro run_first) auto
  show "at m p j (fold tick hs s)" if l: "length hs = Suc lead + (5 * j + p)" and pj: "p \<le> 4" "j \<le> n"
  proof -
    obtain xs ys where h: "hs = xs @ ys" "length xs = Suc lead" "length ys = 5 * j + p" using l by (rule take_drop_at)
    from at_run [OF first [OF h(2)] h(3) pj] assms(3) h(1) show ?thesis by simp
  qed
  show "at m 0 (Suc n) (fold tick hs s)" if l: "length hs = Suc lead + (5 * n + 5)"
  proof -
    obtain xs ys where h: "hs = xs @ ys" "length xs = Suc lead" "length ys = 5 * n + 5" using l by (rule take_drop_at)
    from at_end [OF first [OF h(2)] h(3)] assms(3) h(1) show ?thesis by simp
  qed
qed

lemma run_idle:
  assumes "started 0 (fst s)" and "engine_idle m (data (fst s), snd s)" and "\<forall>h \<in> set hs. silent h" and "silent h"
    and "length hs = Suc lead + (5 * n + 5)"
  shows "seq 0 (Suc n) (fst (fold tick hs s))"
    and "engine_idle (written (requantize q mode) m it n) (data (fst (tick h (fold tick hs s))), snd (tick h (fold tick hs s)))"
proof -
  obtain g b where gb: "fold tick hs s = (g, b)" by fastforce
  have a: "at m 0 (Suc n) (g, b)" using run_reaches(2) [OF assms(1-3,5)] by (simp add: gb)
  then show "seq 0 (Suc n) (fst (fold tick hs s))" by (simp add: at_def gb)
  from a have "seq 0 (Suc n) g" "datapath_at q mode m it n 0 (Suc n) (data g, b)" by (simp_all add: at_def)
  with seq_rest [of g h b] engine_finish [OF _ assms(4), where lv = False]
  show "engine_idle (written (requantize q mode) m it n) (data (fst (tick h (fold tick hs s))), snd (tick h (fold tick hs s)))"
    by (auto simp: gb)
qed

end

end
