(* ===== verification/Npu_Gemm.thy ===== *)
theory Npu_Gemm
  imports Npu_Engine
begin

text \<open>
  The GEMM backend (\<open>rtl/backends/gemm\<close>): sequencer and address generator in front of the engine of
  \<open>Npu_Engine\<close>, clock by clock on the ports of the buffer router.  The sequencer is an instance of the
  locale \<open>sequencer\<close>; what is particular to GEMM is the walk over the indices, the addresses, and when
  the backend says that it is finished.
\<close>

section \<open>Sequencer (\<open>gemm_ctrl.sv\<close>)\<close>

datatype gemm_state = G_IDLE | G_LOAD_CFG | G_COMPUTE | G_DRAIN | G_DONE

record gemm_ctrl =
  gc_state :: gemm_state
  gc_cmd :: gemm_cmd_t
  m_r :: u16
  n_r :: u16
  k_r :: u16

text \<open>Comparisons with a dimension minus one are on 32 bits, the width of the literal.\<close>

definition last_k :: "gemm_ctrl \<Rightarrow> bool" where
  "last_k g = ((ucast (k_r g) :: u32) = ucast (g_k_dim (gc_cmd g)) - 1)"

definition last_n :: "gemm_ctrl \<Rightarrow> bool" where
  "last_n g = ((ucast (n_r g) :: u32) = ucast (g_n_dim (gc_cmd g)) - 1)"

definition outer_last :: "gemm_ctrl \<Rightarrow> bool" where
  "outer_last g = ((ucast (m_r g) :: u32) = ucast (g_m_dim (gc_cmd g)) - 1 \<and> last_n g)"

definition gemm_ctrl_step :: "bool \<Rightarrow> gemm_cmd_t \<Rightarrow> bool \<Rightarrow> gemm_ctrl \<Rightarrow> gemm_ctrl" where
  "gemm_ctrl_step cmd_valid cmd iter_ready g =
     (let advance = (gc_state g = G_COMPUTE \<and> iter_ready);
          load = (gc_state g = G_LOAD_CFG)
      in \<lparr>gc_state = (case gc_state g of
            G_IDLE \<Rightarrow> if cmd_valid then G_LOAD_CFG else G_IDLE
          | G_LOAD_CFG \<Rightarrow> G_COMPUTE
          | G_COMPUTE \<Rightarrow> if advance \<and> last_k g \<and> outer_last g then G_DRAIN else G_COMPUTE
          | G_DRAIN \<Rightarrow> if iter_ready then G_DONE else G_DRAIN
          | G_DONE \<Rightarrow> G_IDLE),
          gc_cmd = (if gc_state g = G_IDLE \<and> cmd_valid then cmd else gc_cmd g),
          m_r = (if load then 0
                 else if advance \<and> last_k g \<and> last_n g \<and> (ucast (m_r g) :: u32) < ucast (g_m_dim (gc_cmd g)) - 1 then m_r g + 1
                 else m_r g),
          n_r = (if load then 0 else if advance \<and> last_k g then (if \<not> last_n g then n_r g + 1 else 0) else n_r g),
          k_r = (if load then 0 else if advance then (if \<not> last_k g then k_r g + 1 else 0) else k_r g)\<rparr>)"

section \<open>Address generator (\<open>gemm_addr_gen.sv\<close>)\<close>

datatype addr_gen_state = AG_IDLE | AG_STAGE1 | AG_OUT

record gemm_addr_gen =
  ag_state :: addr_gen_state
  a_mul_s1 :: u32
  b_mul_s1 :: u32
  a_base_s1 :: u16
  b_base_s1 :: u16
  k_s1 :: u16
  n_s1 :: u16
  ag_a_addr :: u16
  ag_b_addr :: u16

definition gemm_addr_gen_step :: "bool \<Rightarrow> bool \<Rightarrow> gemm_ctrl \<Rightarrow> gemm_addr_gen \<Rightarrow> gemm_addr_gen" where
  "gemm_addr_gen_step in_valid out_ready g a =
     (let accept = (ag_state a = AG_IDLE \<and> in_valid);
          stage1 = (ag_state a = AG_STAGE1);
          c = gc_cmd g
      in \<lparr>ag_state = (case ag_state a of
            AG_IDLE \<Rightarrow> if in_valid then AG_STAGE1 else AG_IDLE
          | AG_STAGE1 \<Rightarrow> AG_OUT
          | AG_OUT \<Rightarrow> if out_ready then AG_IDLE else AG_OUT),
          a_mul_s1 = (if accept then ucast (m_r g) * ucast (g_k_dim c) else a_mul_s1 a),
          b_mul_s1 = (if accept then ucast (k_r g) * ucast (g_n_dim c) else b_mul_s1 a),
          a_base_s1 = (if accept then g_a_addr c else a_base_s1 a),
          b_base_s1 = (if accept then g_b_addr c else b_base_s1 a),
          k_s1 = (if accept then k_r g else k_s1 a),
          n_s1 = (if accept then n_r g else n_s1 a),
          ag_a_addr = (if stage1 then a_base_s1 a + ucast (a_mul_s1 a + ucast (k_s1 a)) else ag_a_addr a),
          ag_b_addr = (if stage1 then b_base_s1 a + ucast (b_mul_s1 a + ucast (n_s1 a)) else ag_b_addr a)\<rparr>)"

section \<open>Backend (\<open>gemm_backend.sv\<close>)\<close>

record gemm_backend =
  gb_ctrl :: gemm_ctrl
  gb_addr_gen :: gemm_addr_gen
  gb_iter_r :: iter_meta
  gb_data :: datapath
  ctrl_finished :: bool

definition iter_valid :: "gemm_backend \<Rightarrow> bool" where
  "iter_valid g = (gc_state (gb_ctrl g) = G_COMPUTE)"

definition addr_gen_ready :: "gemm_backend \<Rightarrow> bool" where
  "addr_gen_ready g = (ag_state (gb_addr_gen g) = AG_IDLE)"

definition addr_gen_valid :: "gemm_backend \<Rightarrow> bool" where
  "addr_gen_valid g = (ag_state (gb_addr_gen g) = AG_OUT)"

definition iter_accept :: "gemm_backend \<Rightarrow> bool" where
  "iter_accept g = (iter_valid g \<and> addr_gen_ready g)"

definition gemm_cmd_ready :: "gemm_backend \<Rightarrow> bool" where
  "gemm_cmd_ready g = (gc_state (gb_ctrl g) = G_IDLE)"

definition gemm_done :: "gemm_backend \<Rightarrow> bool" where
  "gemm_done g = ((gc_state (gb_ctrl g) = G_DONE \<or> ctrl_finished g) \<and> pipe_empty (gb_data g))"

definition gemm_busy :: "gemm_backend \<Rightarrow> bool" where
  "gemm_busy g = (gc_state (gb_ctrl g) \<noteq> G_IDLE \<or> \<not> pipe_empty (gb_data g) \<or> ctrl_finished g)"

definition iter_meta_of :: "gemm_ctrl \<Rightarrow> iter_meta \<Rightarrow> iter_meta" where
  "iter_meta_of g i =
     (let c = gc_cmd g
      in \<lparr>md_last_inner = last_k g, md_acc_clr = (gc_state g = G_COMPUTE \<and> k_r g = 0),
          md_wr_addr = (if last_k g then g_c_addr c + (m_r g * g_n_dim c + n_r g) else md_wr_addr i),
          md_bias_addr = (if last_k g then g_bias_addr c + n_r g else md_bias_addr i)\<rparr>)"

text \<open>GEMM has no padding: the loader's \<open>zero_pad\<close> is tied to 0.\<close>

definition gemm_request :: "gemm_backend \<Rightarrow> load_request" where
  "gemm_request g = \<lparr>lr_act_addr = ag_a_addr (gb_addr_gen g), lr_wt_addr = ag_b_addr (gb_addr_gen g), lr_zero_pad = False,
     lr_meta = gb_iter_r g\<rparr>"

definition gemm_backend_step :: "bool \<Rightarrow> gemm_cmd_t \<Rightarrow> backend_in \<Rightarrow> gemm_backend \<Rightarrow> gemm_backend" where
  "gemm_backend_step cmd_valid cmd i g =
     (let c = gc_cmd (gb_ctrl g)
      in \<lparr>gb_ctrl = gemm_ctrl_step cmd_valid cmd (addr_gen_ready g) (gb_ctrl g),
          gb_addr_gen = gemm_addr_gen_step (iter_valid g) (load_ready (dp_loader (gb_data g))) (gb_ctrl g) (gb_addr_gen g),
          gb_iter_r = (if iter_accept g then iter_meta_of (gb_ctrl g) (gb_iter_r g) else gb_iter_r g),
          gb_data = datapath_step (addr_gen_valid g) (gemm_request g) (g_quant_shift c) (g_act_mode c) i (gb_data g),
          ctrl_finished = (if gemm_done g then False else if gc_state (gb_ctrl g) = G_DONE then True else ctrl_finished g)\<rparr>)"

definition gemm_cmd_zero :: gemm_cmd_t where
  "gemm_cmd_zero = \<lparr>g_a_addr = 0, g_c_addr = 0, g_b_addr = 0, g_bias_addr = 0, g_m_dim = 0, g_n_dim = 0, g_k_dim = 0,
     g_quant_shift = 0, g_act_mode = 0\<rparr>"

definition gemm_reset :: gemm_backend where
  "gemm_reset =
     \<lparr>gb_ctrl = \<lparr>gc_state = G_IDLE, gc_cmd = gemm_cmd_zero, m_r = 0, n_r = 0, k_r = 0\<rparr>,
      gb_addr_gen = \<lparr>ag_state = AG_IDLE, a_mul_s1 = 0, b_mul_s1 = 0, a_base_s1 = 0, b_base_s1 = 0, k_s1 = 0, n_s1 = 0,
        ag_a_addr = 0, ag_b_addr = 0\<rparr>,
      gb_iter_r = iter_meta_reset, gb_data = datapath_reset, ctrl_finished = False\<rparr>"

section \<open>What a command computes\<close>

abbreviation dim_M :: "gemm_cmd_t \<Rightarrow> nat" where "dim_M c \<equiv> unat (g_m_dim c)"

abbreviation dim_N :: "gemm_cmd_t \<Rightarrow> nat" where "dim_N c \<equiv> unat (g_n_dim c)"

abbreviation dim_K :: "gemm_cmd_t \<Rightarrow> nat" where "dim_K c \<equiv> unat (g_k_dim c)"

definition gemm_iters :: "gemm_cmd_t \<Rightarrow> nat" where
  "gemm_iters c = dim_M c * dim_N c * dim_K c"

text \<open>Iteration \<open>j\<close> multiplies for output \<open>j div K\<close> at inner index \<open>j mod K\<close>.\<close>

definition a_at :: "gemm_cmd_t \<Rightarrow> nat \<Rightarrow> nat \<Rightarrow> u16" where
  "a_at c e k = g_a_addr c + word_of_nat (e div dim_N c * dim_K c + k)"

definition b_at :: "gemm_cmd_t \<Rightarrow> nat \<Rightarrow> nat \<Rightarrow> u16" where
  "b_at c e k = g_b_addr c + word_of_nat (k * dim_N c + e mod dim_N c)"

definition c_at :: "gemm_cmd_t \<Rightarrow> nat \<Rightarrow> u16" where
  "c_at c e = g_c_addr c + word_of_nat e"

definition bias_at :: "gemm_cmd_t \<Rightarrow> nat \<Rightarrow> u16" where
  "bias_at c e = g_bias_addr c + word_of_nat (e mod dim_N c)"

definition gemm_iter :: "gemm_cmd_t \<Rightarrow> nat \<Rightarrow> load_request" where
  "gemm_iter c j = \<lparr>lr_act_addr = a_at c (j div dim_K c) (j mod dim_K c), lr_wt_addr = b_at c (j div dim_K c) (j mod dim_K c),
     lr_zero_pad = False,
     lr_meta = \<lparr>md_last_inner = (Suc (j mod dim_K c) = dim_K c), md_acc_clr = (j mod dim_K c = 0),
       md_wr_addr = c_at c (j div dim_K c), md_bias_addr = bias_at c (j div dim_K c)\<rparr>\<rparr>"

text \<open>The accumulated product of an output with its bias, and the output itself.\<close>

definition gemm_biased :: "gemm_cmd_t \<Rightarrow> local_mem \<Rightarrow> nat \<Rightarrow> u32" where
  "gemm_biased c m e = dot_sum m (gemm_iter c) (dim_K c) e"

definition gemm_out :: "gemm_cmd_t \<Rightarrow> local_mem \<Rightarrow> nat \<Rightarrow> u8" where
  "gemm_out c m e = quantized (g_quant_shift c) (activated (g_act_mode c) (gemm_biased c m e))"

text \<open>Operands, bias and output lie in the banks, and the output does not meet the first operand.\<close>

definition gemm_ranges :: "gemm_cmd_t \<Rightarrow> bool" where
  "gemm_ranges c = (0 < dim_M c \<and> 0 < dim_N c \<and> 0 < dim_K c \<and>
     unat (g_a_addr c) + dim_M c * dim_K c \<le> 8192 \<and> unat (g_c_addr c) + dim_M c * dim_N c \<le> 8192 \<and>
     unat (g_b_addr c) + dim_K c * dim_N c \<le> 4096 \<and> unat (g_bias_addr c) + dim_N c \<le> 4096 \<and>
     (unat (g_c_addr c) + dim_M c * dim_N c \<le> unat (g_a_addr c) \<or> unat (g_a_addr c) + dim_M c * dim_K c \<le> unat (g_c_addr c)))"

section \<open>Runs\<close>

definition gemm_tick :: "bool \<Rightarrow> gemm_cmd_t \<Rightarrow> host_port \<Rightarrow> gemm_backend \<times> buffers \<Rightarrow> gemm_backend \<times> buffers" where
  "gemm_tick cmd_valid cmd h s =
     (let p = datapath_ports (gb_data (fst s))
      in (gemm_backend_step cmd_valid cmd (backend_inputs p (snd s)) (fst s), router_step h p (snd s)))"

definition gemm_clocks :: "gemm_cmd_t \<Rightarrow> host_port list \<Rightarrow> gemm_backend \<times> buffers \<Rightarrow> gemm_backend \<times> buffers" where
  "gemm_clocks cmd = fold (gemm_tick False cmd)"

text \<open>The backend, from the clock that accepts \<open>c\<close>, for \<open>hs\<close> further clocks; and the commands of the examples.\<close>

definition gemm_run :: "gemm_cmd_t \<Rightarrow> gemm_backend \<times> buffers \<Rightarrow> host_port list \<Rightarrow> gemm_backend \<times> buffers" where
  "gemm_run c s hs = gemm_clocks c hs (gemm_tick True c quiet_host s)"

definition demo_gemm :: gemm_cmd_t where
  "demo_gemm = \<lparr>g_a_addr = 0, g_c_addr = 0x40, g_b_addr = 0, g_bias_addr = 0x10, g_m_dim = 2, g_n_dim = 2, g_k_dim = 2,
     g_quant_shift = 1, g_act_mode = 1\<rparr>"

section \<open>The sequencer and the address generator, clock by clock\<close>

text \<open>The sequencer is about to issue iteration \<open>i\<close>, or has issued all of them.\<close>

definition ctrl_at :: "gemm_cmd_t \<Rightarrow> nat \<Rightarrow> gemm_ctrl \<Rightarrow> bool" where
  "ctrl_at c i g = (gc_cmd g = c \<and> (if i < gemm_iters c
     then gc_state g = G_COMPUTE \<and> m_r g = word_of_nat (i div dim_K c div dim_N c) \<and>
       n_r g = word_of_nat (i div dim_K c mod dim_N c) \<and> k_r g = word_of_nat (i mod dim_K c)
     else gc_state g = G_DRAIN))"

text \<open>The sequencer and the address generator while the loader works on an iteration: in the first clock the next
  iteration \<open>i\<close> is issued, in the second its addresses are computed, and then they wait for the loader.\<close>

definition front0 :: "gemm_cmd_t \<Rightarrow> nat \<Rightarrow> gemm_backend \<Rightarrow> bool" where
  "front0 c i g = (ctrl_at c i (gb_ctrl g) \<and> ag_state (gb_addr_gen g) = AG_IDLE)"

definition front1 :: "gemm_cmd_t \<Rightarrow> nat \<Rightarrow> gemm_backend \<Rightarrow> bool" where
  "front1 c i g = (gc_cmd (gb_ctrl g) = c \<and> (if i < gemm_iters c
     then ctrl_at c (Suc i) (gb_ctrl g) \<and> ag_state (gb_addr_gen g) = AG_STAGE1 \<and> matches (gemm_iter c i) (gb_iter_r g) \<and>
       a_base_s1 (gb_addr_gen g) = g_a_addr c \<and> b_base_s1 (gb_addr_gen g) = g_b_addr c \<and>
       a_mul_s1 (gb_addr_gen g) = ucast (word_of_nat (i div dim_K c div dim_N c) :: u16) * ucast (g_k_dim c) \<and>
       b_mul_s1 (gb_addr_gen g) = ucast (word_of_nat (i mod dim_K c) :: u16) * ucast (g_n_dim c) \<and>
       k_s1 (gb_addr_gen g) = word_of_nat (i mod dim_K c) \<and> n_s1 (gb_addr_gen g) = word_of_nat (i div dim_K c mod dim_N c)
     else gc_state (gb_ctrl g) = G_DONE \<and> ag_state (gb_addr_gen g) = AG_IDLE))"

definition front2 :: "gemm_cmd_t \<Rightarrow> nat \<Rightarrow> gemm_backend \<Rightarrow> bool" where
  "front2 c i g = (gc_cmd (gb_ctrl g) = c \<and> (if i < gemm_iters c
     then ctrl_at c (Suc i) (gb_ctrl g) \<and> ag_state (gb_addr_gen g) = AG_OUT \<and> matches (gemm_iter c i) (gb_iter_r g) \<and>
       ag_a_addr (gb_addr_gen g) = a_at c (i div dim_K c) (i mod dim_K c) \<and>
       ag_b_addr (gb_addr_gen g) = b_at c (i div dim_K c) (i mod dim_K c)
     else gc_state (gb_ctrl g) = G_IDLE \<and> ag_state (gb_addr_gen g) = AG_IDLE))"

section \<open>The sequencer walks the iterations\<close>

lemma dim_pos:
  assumes "i < gemm_iters c"
  shows "0 < dim_M c" "0 < dim_N c" "0 < dim_K c"
  using assms by (auto simp: gemm_iters_def intro: gr0I)

lemma iter_coords:
  assumes "i < gemm_iters c"
  shows "i mod dim_K c < dim_K c" "i div dim_K c < dim_M c * dim_N c" "i div dim_K c mod dim_N c < dim_N c"
    "i div dim_K c div dim_N c < dim_M c"
proof -
  note p = dim_pos [OF assms]
  show "i mod dim_K c < dim_K c" "i div dim_K c mod dim_N c < dim_N c" using p by simp_all
  show e: "i div dim_K c < dim_M c * dim_N c"
    using assms p by (simp add: gemm_iters_def less_mult_imp_div_less)
  show "i div dim_K c div dim_N c < dim_M c" using e by (simp add: less_mult_imp_div_less)
qed

lemma ctrl_last:
  assumes "ctrl_at c i g" and "i < gemm_iters c"
  shows "last_k g \<longleftrightarrow> Suc (i mod dim_K c) = dim_K c"
    and "last_n g \<longleftrightarrow> Suc (i div dim_K c mod dim_N c) = dim_N c"
    and "outer_last g \<longleftrightarrow> Suc (i div dim_K c) = dim_M c * dim_N c"
    and "(ucast (m_r g) :: u32) < ucast (g_m_dim c) - 1 \<longleftrightarrow> Suc (i div dim_K c div dim_N c) < dim_M c"
    and "outer_last g \<longleftrightarrow> Suc (i div dim_K c div dim_N c) = dim_M c \<and> Suc (i div dim_K c mod dim_N c) = dim_N c"
proof -
  note q = iter_coords [OF assms(2)]
  have g: "gc_cmd g = c" "m_r g = word_of_nat (i div dim_K c div dim_N c)" "n_r g = word_of_nat (i div dim_K c mod dim_N c)"
    "k_r g = word_of_nat (i mod dim_K c)"
    using assms by (simp_all add: ctrl_at_def)
  show k: "last_k g \<longleftrightarrow> Suc (i mod dim_K c) = dim_K c" unfolding last_k_def g by (rule counter16 [OF q(1)])
  show n: "last_n g \<longleftrightarrow> Suc (i div dim_K c mod dim_N c) = dim_N c" unfolding last_n_def g by (rule counter16 [OF q(3)])
  show "(ucast (m_r g) :: u32) < ucast (g_m_dim c) - 1 \<longleftrightarrow> Suc (i div dim_K c div dim_N c) < dim_M c"
    unfolding g by (rule counter16 [OF q(4)])
  let ?e = "i div dim_K c"
  show o: "outer_last g \<longleftrightarrow> Suc (?e div dim_N c) = dim_M c \<and> Suc (?e mod dim_N c) = dim_N c"
    unfolding outer_last_def n unfolding g counter16 [OF q(4)] ..
  show "outer_last g \<longleftrightarrow> Suc ?e = dim_M c * dim_N c" unfolding o by (rule radix_last [OF q(2)])
qed

lemma ctrl_advance:
  assumes "ctrl_at c i g" and "i < gemm_iters c"
  shows "ctrl_at c (Suc i) (gemm_ctrl_step cv cmd True g)"
proof -
  note l = ctrl_last [OF assms]
  note p = dim_pos [OF assms(2)]
  note q = iter_coords [OF assms(2)]
  have g: "gc_state g = G_COMPUTE" "gc_cmd g = c" "m_r g = word_of_nat (i div dim_K c div dim_N c)"
    "n_r g = word_of_nat (i div dim_K c mod dim_N c)" "k_r g = word_of_nat (i mod dim_K c)"
    using assms by (simp_all add: ctrl_at_def)
  let ?e = "i div dim_K c"
  have more: "Suc i < gemm_iters c \<longleftrightarrow> \<not> (Suc (i mod dim_K c) = dim_K c \<and> Suc ?e = dim_M c * dim_N c)"
  proof -
    define E where "E = dim_M c * dim_N c"
    have i: "i = ?e * dim_K c + i mod dim_K c" by simp
    show ?thesis
    proof (cases "Suc ?e = E")
      case True
      then have "E * dim_K c = ?e * dim_K c + dim_K c" by (metis mult_Suc add.commute)
      then show ?thesis using i q(1) True unfolding gemm_iters_def E_def [symmetric] by linarith
    next
      case False
      then have "Suc (Suc ?e) * dim_K c \<le> E * dim_K c" using q(2) unfolding E_def [symmetric] by (intro mult_le_mono1) simp
      then have "?e * dim_K c + dim_K c + dim_K c \<le> E * dim_K c" by simp
      then show ?thesis using i q(1) False unfolding gemm_iters_def E_def [symmetric] by linarith
    qed
  qed
  show ?thesis
  proof (cases "Suc (i mod dim_K c) = dim_K c")
    case k: True
    then have "Suc i mod dim_K c = 0" "Suc i div dim_K c = Suc ?e" using p(3) by (simp_all add: mod_Suc div_Suc)
    then show ?thesis
      using k g l more q(4)
      by (cases "Suc (?e mod dim_N c) = dim_N c")
        (auto simp: ctrl_at_def gemm_ctrl_step_def mod_Suc div_Suc Let_def)
  next
    case k: False
    then have "Suc i mod dim_K c = Suc (i mod dim_K c)" "Suc i div dim_K c = ?e" by (simp_all add: mod_Suc div_Suc)
    then show ?thesis using k g l more by (simp add: ctrl_at_def gemm_ctrl_step_def Let_def)
  qed
qed

lemma meta_issued:
  assumes "ctrl_at c i g" and "i < gemm_iters c"
  shows "matches (gemm_iter c i) (iter_meta_of g md)"
proof -
  have g: "gc_state g = G_COMPUTE" "gc_cmd g = c" "m_r g = word_of_nat (i div dim_K c div dim_N c)"
    "n_r g = word_of_nat (i div dim_K c mod dim_N c)" "k_r g = word_of_nat (i mod dim_K c)"
    using assms by (simp_all add: ctrl_at_def)
  let ?e = "i div dim_K c"
  have k: "(word_of_nat (i mod dim_K c) :: u16) = 0 \<longleftrightarrow> i mod dim_K c = 0"
  proof -
    have "dim_K c < 65536" using unsigned_less [of "g_k_dim c", where ?'a = nat] by simp
    with iter_coords(1) [OF assms(2)] have "i mod dim_K c < 65536" by (rule less_trans)
    then show ?thesis by (auto simp: word_of_nat_eq_0_iff dest: nat_dvd_not_less)
  qed
  have "word_of_nat (?e div dim_N c * dim_N c + ?e mod dim_N c) =
      (word_of_nat (?e div dim_N c) * g_n_dim c + word_of_nat (?e mod dim_N c) :: u16)"
    by (simp only: of_nat_add of_nat_mult of_nat_unat ucast_id)
  then have a: "(word_of_nat (?e div dim_N c) * g_n_dim c + word_of_nat (?e mod dim_N c) :: u16) = word_of_nat ?e"
    by (simp only: div_mult_mod_eq)
  show ?thesis
    by (simp add: matches_def gemm_iter_def iter_meta_of_def Let_def ctrl_last(1) [OF assms] g k a c_at_def bias_at_def)
qed

lemma ctrl_wait: "ctrl_at c i g \<Longrightarrow> ctrl_at c i (gemm_ctrl_step cv cmd False g)"
  by (auto simp: ctrl_at_def gemm_ctrl_step_def Let_def)

lemma front_step0:
  assumes "front0 c i g"
  shows "front1 c i (gemm_backend_step cv cmd inp g)"
proof (cases "i < gemm_iters c")
  case True
  have c: "ctrl_at c i (gb_ctrl g)" "ag_state (gb_addr_gen g) = AG_IDLE" using assms by (simp_all add: front0_def)
  have g: "gc_state (gb_ctrl g) = G_COMPUTE" "gc_cmd (gb_ctrl g) = c"
    "m_r (gb_ctrl g) = word_of_nat (i div dim_K c div dim_N c)" "n_r (gb_ctrl g) = word_of_nat (i div dim_K c mod dim_N c)"
    "k_r (gb_ctrl g) = word_of_nat (i mod dim_K c)"
    using c True by (simp_all add: ctrl_at_def)
  have a: "gc_cmd (gemm_ctrl_step cv cmd True (gb_ctrl g)) = c" using ctrl_advance [OF c(1) True, of cv cmd] by (simp add: ctrl_at_def)
  show ?thesis
    using ctrl_advance [OF c(1) True, of cv cmd] meta_issued [OF c(1) True] True c g a
    by (simp add: front1_def gemm_backend_step_def addr_gen_ready_def iter_valid_def iter_accept_def gemm_addr_gen_step_def Let_def)
next
  case False
  then show ?thesis
    using assms by (simp add: front0_def front1_def ctrl_at_def gemm_backend_step_def addr_gen_ready_def iter_valid_def
        gemm_addr_gen_step_def gemm_ctrl_step_def Let_def)
qed

text \<open>The address arithmetic: 32 bits, then cut to the 16 of an address.\<close>

lemma addr_sum: "(ucast (ucast (x :: u16) * ucast y + ucast z :: u32) :: u16) = x * y + z"
proof -
  have m: "(n mod 4294967296) mod 65536 = n mod (65536 :: nat)" for n by (rule mod_mod_cancel) simp
  show ?thesis
    by (simp add: word_unat_eq_iff unsigned_ucast_eq take_bit_eq_mod unat_word_ariths mod_simps m)
qed

lemma front_step1:
  assumes "front1 c i g" and "i < gemm_iters c \<or> \<not> cv"
  shows "front2 c i (gemm_backend_step cv cmd inp g)"
proof (cases "i < gemm_iters c")
  case True
  have w: "ctrl_at c (Suc i) (gemm_ctrl_step cv cmd False (gb_ctrl g))"
    using assms(1) True by (intro ctrl_wait) (simp add: front1_def)
  then have "gc_cmd (gemm_ctrl_step cv cmd False (gb_ctrl g)) = c" by (simp add: ctrl_at_def)
  with assms(1) True w show ?thesis
    by (simp add: front1_def front2_def gemm_backend_step_def addr_gen_ready_def iter_valid_def iter_accept_def
        gemm_addr_gen_step_def Let_def addr_sum a_at_def b_at_def)
next
  case False
  then show ?thesis
    using assms by (simp add: front1_def front2_def gemm_backend_step_def addr_gen_ready_def iter_valid_def
        gemm_addr_gen_step_def gemm_ctrl_step_def Let_def)
qed

lemma front_step2:
  assumes "front2 c i g" and "i < gemm_iters c \<or> \<not> cv" and "ld_state (dp_loader (gb_data g)) \<noteq> LD_IDLE"
  shows "front2 c i (gemm_backend_step cv cmd inp g)"
proof (cases "i < gemm_iters c")
  case True
  have w: "ctrl_at c (Suc i) (gemm_ctrl_step cv cmd False (gb_ctrl g))"
    using assms(1) True by (intro ctrl_wait) (simp add: front2_def)
  then have "gc_cmd (gemm_ctrl_step cv cmd False (gb_ctrl g)) = c" by (simp add: ctrl_at_def)
  with assms(1,3) True w show ?thesis
    by (simp add: front2_def gemm_backend_step_def addr_gen_ready_def iter_valid_def iter_accept_def load_ready_def
        gemm_addr_gen_step_def Let_def)
next
  case False
  then show ?thesis
    using assms by (simp add: front2_def gemm_backend_step_def addr_gen_ready_def iter_valid_def
        gemm_addr_gen_step_def gemm_ctrl_step_def Let_def)
qed

lemma front_step4:
  assumes "front2 c i g" and "i < gemm_iters c" and "ld_state (dp_loader (gb_data g)) = LD_IDLE"
  shows "front0 c (Suc i) (gemm_backend_step cv cmd inp g)"
proof -
  have "ctrl_at c (Suc i) (gemm_ctrl_step cv cmd False (gb_ctrl g))"
    using assms by (intro ctrl_wait) (simp add: front2_def)
  with assms show ?thesis
    by (simp add: front2_def front0_def gemm_backend_step_def addr_gen_ready_def load_ready_def gemm_addr_gen_step_def Let_def)
qed

section \<open>The sequencer is one for the engine\<close>

text \<open>While the loader works on iteration \<open>j\<close> the next one is issued, its addresses are computed, and then they wait.
  Until the last iteration has been issued there is no completion to remember.\<close>

definition gemm_seq :: "gemm_cmd_t \<Rightarrow> nat \<Rightarrow> nat \<Rightarrow> gemm_backend \<Rightarrow> bool" where
  "gemm_seq c p j g = (gemm_ranges c \<and> gc_cmd (gb_ctrl g) = c \<and>
     (if gemm_iters c \<le> j then gc_state (gb_ctrl g) = G_IDLE \<and> ag_state (gb_addr_gen g) = AG_IDLE
      else if p = 0 then front0 c (Suc j) g else if p = 1 then front1 c (Suc j) g else front2 c (Suc j) g) \<and>
     (Suc j < gemm_iters c \<or> j < gemm_iters c \<and> p \<le> 1 \<longrightarrow> \<not> ctrl_finished g))"

lemma gemm_tick_sel [simp]:
  "fst (gemm_tick cv cmd h s) = gemm_backend_step cv cmd (backend_inputs (datapath_ports (gb_data (fst s))) (snd s)) (fst s)"
  "snd (gemm_tick cv cmd h s) = router_step h (datapath_ports (gb_data (fst s))) (snd s)"
  by (simp_all add: gemm_tick_def Let_def)

text \<open>On the datapath and the banks a clock of the backend is a clock of the engine.\<close>

lemma gemm_tick_data:
  "(gb_data (fst (gemm_tick cv cmd h s)), snd (gemm_tick cv cmd h s)) =
    datapath_tick (addr_gen_valid (fst s)) (gemm_request (fst s)) (g_quant_shift (gc_cmd (gb_ctrl (fst s))))
      (g_act_mode (gc_cmd (gb_ctrl (fst s)))) h (gb_data (fst s), snd s)"
  by (simp add: datapath_tick_def gemm_backend_step_def Let_def)

lemma c_cell_apart:
  assumes "gemm_ranges c" and "e < dim_M c * dim_N c" and "e' < dim_M c * dim_N c" and "k < dim_K c"
  shows "(ucast (c_at c e) :: 13 word) \<noteq> ucast (a_at c e' k)"
proof -
  have r: "unat (g_a_addr c) + dim_M c * dim_K c \<le> 8192" "unat (g_c_addr c) + dim_M c * dim_N c \<le> 8192"
    "unat (g_c_addr c) + dim_M c * dim_N c \<le> unat (g_a_addr c) \<or> unat (g_a_addr c) + dim_M c * dim_K c \<le> unat (g_c_addr c)"
    using assms(1) by (simp_all add: gemm_ranges_def)
  have "e' div dim_N c < dim_M c" using assms(3) by (rule less_mult_imp_div_less)
  then have "Suc (e' div dim_N c) * dim_K c \<le> dim_M c * dim_K c" by (intro mult_le_mono1) simp
  then have "e' div dim_N c * dim_K c + k < dim_M c * dim_K c" using assms(4) by simp
  then show ?thesis
    unfolding c_at_def a_at_def using r assms(2)
    by (intro act_cells_apart [where n = "dim_M c * dim_N c" and k = "dim_M c * dim_K c"]) linarith+
qed

lemma gemm_reads_safe:
  assumes "gemm_ranges c"
  shows "reads_safe (gemm_iter c) (gemm_iters c)"
  unfolding reads_safe_def
proof (intro allI impI)
  fix i j
  assume i: "i < j" and j: "j < gemm_iters c"
  then have "i < gemm_iters c" by simp
  from c_cell_apart [OF assms iter_coords(2) [OF this] iter_coords(2,1) [OF j]]
  show "(ucast (out_addr (gemm_iter c i)) :: 13 word) \<noteq> ucast (lr_act_addr (gemm_iter c j))" by (simp add: gemm_iter_def)
qed

lemma gemm_loads:
  assumes "gemm_seq c p j g" and "p \<le> 4" and "loader_in_step (gemm_iter c) (gemm_iters c) p j (gb_data g)"
  shows "load_ok (gemm_iter c) (gemm_iters c) p j (addr_gen_valid g) (gemm_request g) (gb_data g)"
proof -
  have "p = 0 \<or> p = 1 \<or> p = 2 \<or> p = 3 \<or> p = 4" using assms(2) by linarith
  then show ?thesis
    using assms(1,3)
    by (auto simp: gemm_seq_def load_ok_def addr_gen_valid_def front0_def front1_def front2_def gemm_request_def presents_def
        gemm_iter_def loader_in_step_def split: if_splits)
qed

text \<open>Completion is signalled while the engine is empty, and forgotten in the clock after.\<close>

lemma finished_step:
  "ctrl_finished (gemm_backend_step cv cmd i g) \<longleftrightarrow> \<not> pipe_empty (gb_data g) \<and> (gc_state (gb_ctrl g) = G_DONE \<or> ctrl_finished g)"
  by (auto simp: gemm_backend_step_def gemm_done_def Let_def)

lemma gemm_next:
  assumes "gemm_seq c p j g" and "p \<le> 4" and "j \<le> gemm_iters c" and "loader_in_step (gemm_iter c) (gemm_iters c) p j (gb_data g)"
  shows "if p = 4 then gemm_seq c 0 (Suc j) (gemm_backend_step False cmd i g) else gemm_seq c (Suc p) j (gemm_backend_step False cmd i g)"
proof -
  let ?g = "gemm_backend_step False cmd i g"
  have r: "gemm_ranges c" and cmd: "gc_cmd (gb_ctrl ?g) = c"
    using assms(1) by (simp_all add: gemm_seq_def gemm_backend_step_def gemm_ctrl_step_def Let_def)
  show ?thesis
  proof (cases "gemm_iters c \<le> j")
    case True
    then show ?thesis
      using assms(1,3) r cmd by (auto simp: gemm_seq_def gemm_backend_step_def gemm_ctrl_step_def gemm_addr_gen_step_def iter_valid_def Let_def)
  next
    case False
    consider "p = 0" | "p = 1" | "p = 2 \<or> p = 3" | "p = 4" using assms(2) by linarith
    then show ?thesis
    proof cases
      case 1
      with assms(1) False have f: "front0 c (Suc j) g" "\<not> ctrl_finished g" by (auto simp: gemm_seq_def)
      then have "gc_state (gb_ctrl g) \<noteq> G_DONE" by (auto simp: front0_def ctrl_at_def split: if_splits)
      then show ?thesis using 1 False r cmd front_step0 [OF f(1)] f(2) finished_step by (simp add: gemm_seq_def)
    next
      case 2
      with assms(1) False have f: "front1 c (Suc j) g" "\<not> ctrl_finished g" by (auto simp: gemm_seq_def)
      then have "Suc j < gemm_iters c \<Longrightarrow> gc_state (gb_ctrl g) \<noteq> G_DONE" by (auto simp: front1_def ctrl_at_def split: if_splits)
      then show ?thesis using 2 False r cmd front_step1 [OF f(1), of False] f(2) finished_step by (simp add: gemm_seq_def)
    next
      case 3
      with assms(1) False have f: "front2 c (Suc j) g" "Suc j < gemm_iters c \<Longrightarrow> \<not> ctrl_finished g" by (auto simp: gemm_seq_def)
      moreover have "ld_state (dp_loader (gb_data g)) \<noteq> LD_IDLE" using assms(4) 3 False by (auto simp: loader_in_step_def gemm_iter_def)
      moreover have "Suc j < gemm_iters c \<Longrightarrow> gc_state (gb_ctrl g) \<noteq> G_DONE" using f(1) by (auto simp: front2_def ctrl_at_def split: if_splits)
      ultimately show ?thesis using 3 False r cmd front_step2 [OF f(1), of False] finished_step by (auto simp: gemm_seq_def)
    next
      case 4
      with assms(1) False have f: "front2 c (Suc j) g" "Suc j < gemm_iters c \<Longrightarrow> \<not> ctrl_finished g" by (auto simp: gemm_seq_def)
      have l: "ld_state (dp_loader (gb_data g)) = LD_IDLE" using assms(4) 4 False by (simp add: loader_in_step_def)
      have d: "gc_state (gb_ctrl g) \<noteq> G_DONE" using f(1) by (auto simp: front2_def ctrl_at_def split: if_splits)
      show ?thesis
      proof (cases "Suc j < gemm_iters c")
        case True
        then show ?thesis using 4 f d r cmd front_step4 [OF f(1) True l, of False cmd i] finished_step by (simp add: gemm_seq_def)
      next
        case False
        then show ?thesis
          using 4 f(1) r cmd by (auto simp: gemm_seq_def front2_def gemm_backend_step_def gemm_ctrl_step_def gemm_addr_gen_step_def
              iter_valid_def Let_def)
      qed
    qed
  qed
qed

interpretation gm: sequencer gb_data "gemm_tick False cmd" "gemm_seq c" "gemm_iter c" "gemm_iters c" "g_quant_shift c" "g_act_mode c"
  for c cmd
proof
  fix p j h and g :: gemm_backend and b :: buffers
  assume s: "gemm_seq c p j g"
  then show "reads_safe (gemm_iter c) (gemm_iters c)" by (intro gemm_reads_safe) (simp add: gemm_seq_def)
  assume p: "p \<le> 4" "j \<le> gemm_iters c" and l: "loader_in_step (gemm_iter c) (gemm_iters c) p j (gb_data g)"
  show "\<exists>lv r. load_ok (gemm_iter c) (gemm_iters c) p j lv r (gb_data g) \<and>
      (gb_data (fst (gemm_tick False cmd h (g, b))), snd (gemm_tick False cmd h (g, b))) =
        datapath_tick lv r (g_quant_shift c) (g_act_mode c) h (gb_data g, b)"
    using gemm_loads [OF s p(1) l] gemm_tick_data [of False cmd h "(g, b)"] s by (auto simp: gemm_seq_def)
  show "if p = 4 then gemm_seq c 0 (Suc j) (fst (gemm_tick False cmd h (g, b)))
      else gemm_seq c (Suc p) j (fst (gemm_tick False cmd h (g, b)))"
    using gemm_next [OF s p l] by simp
qed

section \<open>From the command to the last result\<close>

definition gemm_idle :: "gemm_backend \<Rightarrow> bool" where
  "gemm_idle g = (at_rest (gb_data g) \<and> flight None None None None None False (gb_data g) \<and>
     gc_state (gb_ctrl g) = G_IDLE \<and> ag_state (gb_addr_gen g) = AG_IDLE \<and> \<not> ctrl_finished g)"

lemma gemm_clocks_simps:
  "gemm_clocks cmd [] s = s" "gemm_clocks cmd (h # hs) s = gemm_clocks cmd hs (gemm_tick False cmd h s)"
  "gemm_clocks cmd (xs @ ys) s = gemm_clocks cmd ys (gemm_clocks cmd xs s)"
  by (simp_all add: gemm_clocks_def)

text \<open>The clocks after the one that accepts the command, before the first iteration is handed over.\<close>

definition gemm_started :: "gemm_cmd_t \<Rightarrow> nat \<Rightarrow> gemm_backend \<Rightarrow> bool" where
  "gemm_started c k g = (gemm_ranges c \<and> \<not> ctrl_finished g \<and>
     (if k = 0 then gc_state (gb_ctrl g) = G_LOAD_CFG \<and> gc_cmd (gb_ctrl g) = c \<and> ag_state (gb_addr_gen g) = AG_IDLE
      else if k = 1 then front0 c 0 g else if k = 2 then front1 c 0 g else front2 c 0 g))"

lemma iters_pos: "gemm_ranges c \<Longrightarrow> 0 < gemm_iters c"
  by (simp add: gemm_ranges_def gemm_iters_def)

lemma gemm_started_state:
  assumes "gemm_started c k g"
  shows "gc_state (gb_ctrl g) \<noteq> G_DONE" and "k < 3 \<Longrightarrow> \<not> addr_gen_valid g" and "k = 3 \<Longrightarrow> addr_gen_valid g"
  using assms iters_pos [of c]
  by (auto simp: gemm_started_def front0_def front1_def front2_def ctrl_at_def addr_gen_valid_def split: if_splits)

interpretation gr: command_run gb_data "gemm_tick False cmd" "gemm_seq c" "gemm_iter c" "gemm_iters c" "g_quant_shift c" "g_act_mode c"
    3 "gemm_started c"
  for c cmd
proof
  fix k h and g :: gemm_backend and b :: buffers
  let ?t = "gemm_tick False cmd h (g, b)"
  have t: "(gb_data (fst ?t), snd ?t) = datapath_tick (addr_gen_valid g) (gemm_request g) (g_quant_shift (gc_cmd (gb_ctrl g)))
      (g_act_mode (gc_cmd (gb_ctrl g))) h (gb_data g, b)"
    using gemm_tick_data [of False cmd h "(g, b)"] by simp
  show "gemm_started c (Suc k) (fst ?t) \<and> (\<exists>r q' mode'. (gb_data (fst ?t), snd ?t) = datapath_tick False r q' mode' h (gb_data g, b))"
    if s: "gemm_started c k g" and k: "k < 3"
  proof -
    have T: "0 < gemm_iters c" using s iters_pos by (simp add: gemm_started_def)
    have nf: "\<not> ctrl_finished (fst ?t)" using s gemm_started_state(1) [OF s] by (simp add: finished_step gemm_started_def)
    consider "k = 0" | "k = 1" | "k = 2" using k by linarith
    then have "gemm_started c (Suc k) (fst ?t)"
    proof cases
      case 1
      then show ?thesis
        using s nf T by (simp add: gemm_started_def front0_def ctrl_at_def gemm_backend_step_def gemm_ctrl_step_def
            gemm_addr_gen_step_def iter_valid_def Let_def)
    next
      case 2
      then show ?thesis using s nf front_step0 [of c 0 g] by (simp add: gemm_started_def)
    next
      case 3
      then show ?thesis using s nf front_step1 [of c 0 g False] by (simp add: gemm_started_def)
    qed
    then show ?thesis using t gemm_started_state(2) [OF s k] by auto
  qed
  show "gemm_seq c 0 0 (fst ?t) \<and> 0 < gemm_iters c \<and> is_first (gemm_iter c 0) \<and> (\<exists>r q' mode'. presents (gemm_iter c 0) r \<and>
      (gb_data (fst ?t), snd ?t) = datapath_tick True r q' mode' h (gb_data g, b))"
    if s: "gemm_started c 3 g" and l: "ld_state (dp_loader (gb_data g)) = LD_IDLE"
  proof -
    have T: "0 < gemm_iters c" using s iters_pos by (simp add: gemm_started_def)
    have f: "front2 c 0 g" "gemm_ranges c" using s by (simp_all add: gemm_started_def)
    have "\<not> ctrl_finished (fst ?t)" using s gemm_started_state(1) [OF s] by (simp add: finished_step gemm_started_def)
    moreover have "front0 c (Suc 0) (fst ?t)" using front_step4 [OF f(1) T l] by simp
    ultimately have "gemm_seq c 0 0 (fst ?t)" using T f(2) by (simp add: gemm_seq_def front0_def ctrl_at_def)
    moreover have "presents (gemm_iter c 0) (gemm_request g)" "is_first (gemm_iter c 0)"
      using f(1) T by (simp_all add: front2_def presents_def gemm_request_def gemm_iter_def)
    ultimately show ?thesis using t gemm_started_state(3) [OF s] T by auto
  qed
  show "\<exists>r q' mode'. (gb_data (fst ?t), snd ?t) = datapath_tick False r q' mode' h (gb_data g, b)" if "gemm_seq c 0 (Suc (gemm_iters c)) g"
  proof -
    have "\<not> addr_gen_valid g" using that by (simp add: gemm_seq_def addr_gen_valid_def)
    then show ?thesis using t by auto
  qed
qed

lemma gemm_accepts:
  assumes "gemm_idle g" and "\<not> bias_pending_r b" and "gemm_ranges c" and "silent h"
  shows "gemm_started c 0 (fst (gemm_tick True c h (g, b)))"
    and "engine_idle (local_of b) (gb_data (fst (gemm_tick True c h (g, b))), snd (gemm_tick True c h (g, b)))"
proof -
  have g: "gc_state (gb_ctrl g) = G_IDLE" "ag_state (gb_addr_gen g) = AG_IDLE" "\<not> ctrl_finished g"
    using assms(1) by (simp_all add: gemm_idle_def)
  have "\<not> ctrl_finished (fst (gemm_tick True c h (g, b)))" using g by (simp add: finished_step)
  then show "gemm_started c 0 (fst (gemm_tick True c h (g, b)))"
    using g assms(3) by (simp add: gemm_started_def gemm_backend_step_def gemm_ctrl_step_def gemm_addr_gen_step_def iter_valid_def Let_def)
  have "engine_idle (local_of b) (gb_data (fst (g, b)), snd (g, b))" using assms(1,2) by (simp add: gemm_idle_def engine_idle_def)
  then show "engine_idle (local_of b) (gb_data (fst (gemm_tick True c h (g, b))), snd (gemm_tick True c h (g, b)))"
    unfolding gemm_tick_data using g(2) by (intro idle_clock assms(4)) (simp_all add: addr_gen_valid_def)
qed

text \<open>Where the backend is after a number of clocks since it accepted the command.\<close>

lemma gemm_reaches:
  assumes "gemm_idle g" and "\<not> bias_pending_r b" and "gemm_ranges c" and "\<forall>h \<in> set (h0 # hs). silent h"
  shows "length hs = 4 + (5 * j + p) \<Longrightarrow> p \<le> 4 \<Longrightarrow> j \<le> gemm_iters c \<Longrightarrow>
      gm.at c (local_of b) p j (gemm_clocks cmd hs (gemm_tick True c h0 (g, b)))"
    and "length hs = 4 + (5 * gemm_iters c + 5) \<Longrightarrow>
      gm.at c (local_of b) 0 (Suc (gemm_iters c)) (gemm_clocks cmd hs (gemm_tick True c h0 (g, b)))"
proof -
  have s: "silent h0" "\<forall>h \<in> set hs. silent h" using assms(4) by simp_all
  note r = gr.run_reaches [OF gemm_accepts [OF assms(1-3) s(1)] s(2), where cmd = cmd, folded gemm_clocks_def]
  show "length hs = 4 + (5 * j + p) \<Longrightarrow> p \<le> 4 \<Longrightarrow> j \<le> gemm_iters c \<Longrightarrow>
      gm.at c (local_of b) p j (gemm_clocks cmd hs (gemm_tick True c h0 (g, b)))"
    "length hs = 4 + (5 * gemm_iters c + 5) \<Longrightarrow>
      gm.at c (local_of b) 0 (Suc (gemm_iters c)) (gemm_clocks cmd hs (gemm_tick True c h0 (g, b)))"
    using r by simp_all
qed

abbreviation gemm_result :: "gemm_cmd_t \<Rightarrow> local_mem \<Rightarrow> nat \<Rightarrow> local_mem" where
  "gemm_result c m \<equiv> written (requantize (g_quant_shift c) (g_act_mode c)) m (gemm_iter c)"

lemma gemm_whole_run:
  assumes "gemm_idle g" and "\<not> bias_pending_r b" and "gemm_ranges c" and "\<forall>h \<in> set (h0 # hs). silent h"
    and "length hs = 11 + 5 * gemm_iters c" and s: "s = gemm_clocks cmd hs (gemm_tick True c h0 (g, b))"
  shows "gemm_idle (fst s)" "\<not> bias_pending_r (snd s)" "local_of (snd s) = gemm_result c (local_of b) (gemm_iters c)"
proof -
  have "length hs = (4 + (5 * gemm_iters c + 5)) + 2" using assms(5) by simp
  then obtain xs ys where h: "hs = xs @ ys" "length xs = 4 + (5 * gemm_iters c + 5)" "length ys = 2" by (rule take_drop_at)
  obtain k0 k1 where ys: "ys = [k0, k1]" using h(3) by (auto simp: eval_nat_numeral length_Suc_conv)
  have sil: "silent h0" "\<forall>h \<in> set xs. silent h" "silent k0" "silent k1" using assms(4) h(1) ys by auto
  define u where "u = gemm_clocks cmd xs (gemm_tick True c h0 (g, b))"
  define v where "v = gemm_tick False cmd k0 u"
  have "length xs = Suc 3 + (5 * gemm_iters c + 5)" using h(2) by simp
  note i = gr.run_idle [OF gemm_accepts [OF assms(1-3) sil(1)] sil(2,3) this, where cmd = cmd, folded gemm_clocks_def, folded u_def, folded v_def]
  have v: "gc_state (gb_ctrl (fst v)) = G_IDLE" "ag_state (gb_addr_gen (fst v)) = AG_IDLE" "\<not> addr_gen_valid (fst v)"
    using i(1) by (simp_all add: gemm_seq_def v_def gemm_backend_step_def gemm_ctrl_step_def gemm_addr_gen_step_def iter_valid_def
        addr_gen_valid_def Let_def)
  have s: "s = gemm_tick False cmd k1 v" by (simp add: s h(1) ys gemm_clocks_simps u_def v_def)
  note q = i(2)
  have q': "engine_idle (gemm_result c (local_of b) (gemm_iters c)) (gb_data (fst s), snd s)"
    unfolding s gemm_tick_data using q v(3) sil(4) by (intro idle_clock) simp_all
  have "pipe_empty (gb_data (fst v))" using q flight_empty by (auto simp: engine_idle_def)
  then have "\<not> ctrl_finished (fst s)" by (simp add: s finished_step)
  moreover have "gc_state (gb_ctrl (fst s)) = G_IDLE" "ag_state (gb_addr_gen (fst s)) = AG_IDLE"
    using v by (simp_all add: s gemm_backend_step_def gemm_ctrl_step_def gemm_addr_gen_step_def iter_valid_def Let_def)
  ultimately show "gemm_idle (fst s)" "\<not> bias_pending_r (snd s)" "local_of (snd s) = gemm_result c (local_of b) (gemm_iters c)"
    using q' by (simp_all add: gemm_idle_def engine_idle_def)
qed

section \<open>What the memory holds afterwards\<close>

lemma gemm_dots: "gemm_ranges c \<Longrightarrow> dots (gemm_iter c) (dim_K c) (g_c_addr c)"
  by (auto simp: dots_def gemm_iter_def gemm_ranges_def c_at_def)

lemma gemm_result_act:
  assumes "gemm_ranges c"
  shows "lm_act (gemm_result c m (e * dim_K c)) = act_written (g_c_addr c) (gemm_out c m) e (lm_act m)"
proof -
  have "gemm_out c m = requantize (g_quant_shift c) (g_act_mode c) \<circ> dot_sum m (gemm_iter c) (dim_K c)"
    by (simp add: fun_eq_iff gemm_out_def gemm_biased_def)
  then show ?thesis by (simp only: written_dots [OF gemm_dots [OF assms]])
qed

lemma dim_K_le: "gemm_ranges c \<Longrightarrow> dim_K c \<le> 8192"
  using mult_le_mono1 [of 1 "dim_M c" "dim_K c"] unfolding gemm_ranges_def by linarith

lemma gemm_out_ref:
  assumes "gemm_ranges c" and "e < dim_M c * dim_N c" and "g_act_mode c \<noteq> 3"
  shows "gemm_out c m e = requantized (unat (g_quant_shift c)) (ucast (g_act_mode c))
    (gemm_acc (act_bytes m (g_a_addr c) (dim_M c * dim_K c)) (wt_bytes m (g_b_addr c) (dim_K c * dim_N c))
      (wt_bytes m (g_bias_addr c) (dim_N c)) (dim_N c) (dim_K c) (e div dim_N c) (e mod dim_N c))"
proof -
  have r: "0 < dim_M c" "0 < dim_N c" "unat (g_a_addr c) + dim_M c * dim_K c \<le> 8192" "unat (g_b_addr c) + dim_K c * dim_N c \<le> 4096"
    "unat (g_bias_addr c) + dim_N c \<le> 4096"
    using assms(1) by (simp_all add: gemm_ranges_def)
  note k = dim_K_le [OF assms(1)]
  have q: "e mod dim_N c < dim_N c" "e div dim_N c < dim_M c" using r(2) assms(2) by (simp_all add: less_mult_imp_div_less)
  have a: "lm_act m (ucast (a_at c e i)) = act_bytes m (g_a_addr c) (dim_M c * dim_K c) ! (e div dim_N c * dim_K c + i)"
    if "i < dim_K c" for i
  proof -
    define x where "x = e div dim_N c * dim_K c + i"
    have x: "x < dim_M c * dim_K c" unfolding x_def by (rule index2_less [OF q(2) that])
    have "(ucast (a_at c e i) :: 13 word) = word_of_nat (unat (g_a_addr c) + x)"
      unfolding a_at_def x_def [symmetric] by (rule bank_addr [of _ "dim_M c * dim_K c"]) (use r(3) x in simp_all)
    then show ?thesis using x by (simp add: act_bytes_def flip: x_def del: of_nat_add)
  qed
  have b: "lm_wt m (ucast (b_at c e i)) = wt_bytes m (g_b_addr c) (dim_K c * dim_N c) ! (i * dim_N c + e mod dim_N c)"
    if "i < dim_K c" for i
  proof -
    define x where "x = i * dim_N c + e mod dim_N c"
    have x: "x < dim_K c * dim_N c" unfolding x_def by (rule index2_less [OF that q(1)])
    have "(ucast (b_at c e i) :: 12 word) = word_of_nat (unat (g_b_addr c) + x)"
      unfolding b_at_def x_def [symmetric] by (rule bank_addr [of _ "dim_K c * dim_N c"]) (use r(4) x in simp_all)
    then show ?thesis using x by (simp add: wt_bytes_def flip: x_def del: of_nat_add)
  qed
  have "lm_wt m (ucast (bias_at c e)) = wt_bytes m (g_bias_addr c) (dim_N c) ! (e mod dim_N c)"
    using bank_addr [of "g_bias_addr c" "dim_N c" "e mod dim_N c", where ?'a = 12] r(5) q(1) by (simp add: bias_at_def wt_bytes_def)
  moreover have "wt_bytes m (g_bias_addr c) (dim_N c) \<noteq> []" using r(2) by (auto simp: wt_bytes_def)
  moreover have j: "(e * dim_K c + i) div dim_K c = e" "(e * dim_K c + i) mod dim_K c = i" if "i < dim_K c" for i
    using group_index [OF that] by simp_all
  moreover have "(e * dim_K c + (dim_K c - Suc 0)) div dim_K c = e"
    using assms(1) by (intro group_index(1)) (simp add: gemm_ranges_def)
  ultimately show ?thesis
    using a b j by (simp add: gemm_out_def gemm_biased_def postproc_ref [OF assms(3)] sint_dot_sum [OF k] operand_act_def
        operand_wt_def gemm_iter_def gemm_acc_def bias_term_def)
qed

lemma gemm_bytes_ref:
  assumes "gemm_ranges c" and "g_act_mode c \<noteq> 3"
  shows "ref_gemm (act_bytes m (g_a_addr c) (dim_M c * dim_K c)) (wt_bytes m (g_b_addr c) (dim_K c * dim_N c))
      (wt_bytes m (g_bias_addr c) (dim_N c)) (int (dim_M c)) (int (dim_N c)) (int (dim_K c)) (int (unat (g_quant_shift c)))
      (ucast (g_act_mode c)) =
    Some (act_bytes (gemm_result c m (gemm_iters c)) (g_c_addr c) (dim_M c * dim_N c))"
proof -
  have r: "0 < dim_M c" "dim_M c * dim_K c \<le> 8192" "dim_K c * dim_N c \<le> 4096" "dim_M c * dim_N c \<le> 8192"
    using assms(1) by (simp_all add: gemm_ranges_def)
  have k: "dim_K c \<le> 131070" using dim_K_le [OF assms(1)] by linarith
  have w: "unat (g_c_addr c) + dim_M c * dim_N c \<le> 8192" using assms(1) by (simp add: gemm_ranges_def)
  have q: "unat (g_quant_shift c) < 32" using unsigned_less [of "g_quant_shift c", where ?'a = nat] by simp
  show ?thesis
    unfolding gemm_iters_def act_bytes_written [OF w gemm_result_act [OF assms(1)]]
    using gemm_out_ref [OF assms(1) _ assms(2)] r k q by (subst ref_gemm_eq) (simp_all add: act_bytes_def wt_bytes_def)
qed

section \<open>The end of a command\<close>

lemma gemm_iters_Suc:
  assumes "gemm_ranges c"
  obtains j where "gemm_iters c = Suc j" and "j = (dim_M c * dim_N c - 1) * dim_K c + (dim_K c - 1)"
proof -
  have "0 < dim_M c * dim_N c" "0 < dim_K c" using assms by (simp_all add: gemm_ranges_def)
  then have "gemm_iters c = Suc ((dim_M c * dim_N c - 1) * dim_K c + (dim_K c - 1))"
    unfolding gemm_iters_def by (cases "dim_M c * dim_N c"; cases "dim_K c") simp_all
  then show thesis by (rule that) simp
qed

text \<open>The output before the last is not on its way any more when the last iteration is issued, if K is at least 2.\<close>

lemma no_result_before_last:
  assumes "gemm_ranges c" and "gemm_iters c = Suc j" and "2 \<le> dim_K c"
  shows "prev (out_token m (gemm_iter c) n z) j = None"
proof (cases j)
  case (Suc i)
  have "Suc (Suc i) mod dim_K c = 0" unfolding Suc [symmetric] assms(2) [symmetric] gemm_iters_def by simp
  then have "Suc (i mod dim_K c) \<noteq> dim_K c" using assms(3) by (auto simp: mod_Suc split: if_splits)
  then show ?thesis by (simp add: Suc out_token_def gemm_iter_def)
qed simp

lemma last_output_pending:
  assumes "gemm_ranges c"
  shows "lm_act (gemm_result c m (gemm_iters c - 1)) (ucast (c_at c (dim_M c * dim_N c - 1))) =
    lm_act m (ucast (c_at c (dim_M c * dim_N c - 1)))"
proof -
  obtain j where j: "gemm_iters c = Suc j" "j = (dim_M c * dim_N c - 1) * dim_K c + (dim_K c - 1)" using assms by (rule gemm_iters_Suc)
  have r: "unat (g_c_addr c) + dim_M c * dim_N c \<le> 8192" "dim_M c * dim_N c - 1 < dim_M c * dim_N c" "dim_K c - 1 < dim_K c"
    using assms by (simp_all add: gemm_ranges_def)
  have w: "gemm_result c m (gemm_iters c - 1) = gemm_result c m ((dim_M c * dim_N c - 1) * dim_K c)"
    unfolding j(1) diff_Suc_1 j(2) by (rule written_part [OF gemm_dots [OF assms] r(3)])
  show ?thesis
    unfolding w gemm_result_act [OF assms]
    by (rule act_written_other) (use act_cell_eq [OF r(1,2)] in \<open>simp add: c_at_def\<close>)
qed

lemma gemm_flight:
  assumes "flight t0 t1 t2 t3 t4 t5 (gb_data (fst s))" and "t3 \<noteq> None \<Longrightarrow> t4 = None \<and> \<not> t5" and "\<not> valid_r (dp_pe (gb_data (fst s)))"
  shows "flight None t0 (stepped (activated (g_act_mode (gc_cmd (gb_ctrl (fst s))))) t1)
    (stepped (quantized (g_quant_shift (gc_cmd (gb_ctrl (fst s))))) t2) t3 (t4 \<noteq> None) (gb_data (fst (gemm_tick cv cmd h s)))"
  using flight_empty_pe [of t0 t1 t2 t3 t4 t5 "(gb_data (fst s), snd s)"] assms arg_cong [OF gemm_tick_data [of cv cmd h s], of fst] by simp

text \<open>The processing element stays empty while the loader has nothing for it.\<close>

lemma pe_stays_empty:
  assumes "ld_state (dp_loader (gb_data (fst s))) \<noteq> LD_DONE" and "\<not> valid_r (dp_pe (gb_data (fst s)))"
  shows "\<not> valid_r (dp_pe (gb_data (fst (gemm_tick cv cmd h s))))"
  using assms by (simp add: gemm_backend_step_def engine_simps)

lemma ld_moves:
  "ld_state (dp_loader (gb_data (fst s))) = LD_IDLE \<Longrightarrow> ag_state (gb_addr_gen (fst s)) \<noteq> AG_OUT \<Longrightarrow>
     ld_state (dp_loader (gb_data (fst (gemm_tick cv cmd h s)))) = LD_IDLE"
  "ld_state (dp_loader (gb_data (fst s))) = LD_IDLE \<Longrightarrow> ld_state (dp_loader (gb_data (fst (gemm_tick cv cmd h s)))) \<in> {LD_IDLE, LD_REQ}"
  by (auto simp: gemm_backend_step_def addr_gen_valid_def engine_simps)

lemma ag_moves:
  "ag_state (gb_addr_gen (fst s)) = AG_IDLE \<Longrightarrow> gc_state (gb_ctrl (fst s)) \<noteq> G_COMPUTE \<Longrightarrow>
     ag_state (gb_addr_gen (fst (gemm_tick cv cmd h s))) = AG_IDLE"
  "ag_state (gb_addr_gen (fst s)) = AG_IDLE \<Longrightarrow> ag_state (gb_addr_gen (fst (gemm_tick cv cmd h s))) \<noteq> AG_OUT"
  by (auto simp: gemm_backend_step_def gemm_addr_gen_step_def iter_valid_def Let_def)

lemma cmd_kept: "gc_cmd (gb_ctrl (fst (gemm_tick False cmd h s))) = gc_cmd (gb_ctrl (fst s))"
  by (simp add: gemm_backend_step_def gemm_ctrl_step_def Let_def)

text \<open>The end of a command with the next one accepted as soon as the scheduler can offer it.\<close>

lemma overtaken:
  assumes "datapath_at q mode m (gemm_iter c) (gemm_iters c) 4 j (gb_data (fst s0), snd s0)" and "gemm_iters c = Suc j" and "gemm_ranges c"
    and "gc_state (gb_ctrl (fst s0)) = G_LOAD_CFG" and "gc_cmd (gb_ctrl (fst s0)) = c2" and "ag_state (gb_addr_gen (fst s0)) = AG_IDLE"
    and "\<forall>h \<in> {h0, h1, h2, h3, h4, h5}. silent h"
  shows "lm_act (local_of (snd (gemm_clocks cmd [h0, h1, h2, h3, h4, h5] s0))) (ucast (c_at c (dim_M c * dim_N c - 1))) =
    quantized (g_quant_shift c2) (activated (g_act_mode c2) (gemm_biased c m (dim_M c * dim_N c - 1)))"
proof -
  define s1 where "s1 = gemm_tick False cmd h0 s0"
  define s2 where "s2 = gemm_tick False cmd h1 s1"
  define s3 where "s3 = gemm_tick False cmd h2 s2"
  define s4 where "s4 = gemm_tick False cmd h3 s3"
  define s5 where "s5 = gemm_tick False cmd h4 s4"
  define s6 where "s6 = gemm_tick False cmd h5 s5"
  let ?e = "dim_M c * dim_N c - 1" and ?x = "gemm_iter c j" and ?a = "acc_after m (gemm_iter c) j"
  have jK: "j = ?e * dim_K c + (dim_K c - 1)" using gemm_iters_Suc [OF assms(3)] assms(2) by (metis Suc_inject)
  have K: "dim_K c - 1 < dim_K c" using assms(3) by (simp add: gemm_ranges_def)
  have jm: "j div dim_K c = ?e" "j mod dim_K c = dim_K c - 1" "0 < dim_K c"
    unfolding jK using group_index [OF K, of ?e] K by (simp_all only:)
  have full: "at_stage m ?x ?a (gb_data (fst s0)) S_FULL" "bank_at m ?x (snd s0) S_FULL"
    and f0: "flight None None None None (stepped (requantize q mode) (prev (out_token m (gemm_iter c) (gemm_iters c) False) j)) False (gb_data (fst s0))"
    and nb: "\<not> bias_pending_r (snd s0)"
    using assms(1,2) by (simp_all add: datapath_at_def stage_last gemm_iter_def flight_at_def out_token_def Let_def)
  have ld: "ld_state (dp_loader (gb_data (fst s0))) = LD_IDLE" using full(1) by simp
  have l: "ld_state (dp_loader (gb_data (fst s1))) = LD_IDLE" "ld_state (dp_loader (gb_data (fst s2))) = LD_IDLE"
    "ld_state (dp_loader (gb_data (fst s3))) = LD_IDLE" "ld_state (dp_loader (gb_data (fst s4))) \<in> {LD_IDLE, LD_REQ}"
  proof -
    have a: "ag_state (gb_addr_gen (fst s1)) = AG_IDLE" unfolding s1_def using assms(4,6) by (intro ag_moves) simp_all
    then have b: "ag_state (gb_addr_gen (fst s2)) \<noteq> AG_OUT" unfolding s2_def by (rule ag_moves)
    show 1: "ld_state (dp_loader (gb_data (fst s1))) = LD_IDLE" unfolding s1_def using ld assms(6) by (intro ld_moves) simp_all
    show 2: "ld_state (dp_loader (gb_data (fst s2))) = LD_IDLE" unfolding s2_def using 1 a by (intro ld_moves) simp_all
    show 3: "ld_state (dp_loader (gb_data (fst s3))) = LD_IDLE" unfolding s3_def using 2 b by (intro ld_moves) simp_all
    show "ld_state (dp_loader (gb_data (fst s4))) \<in> {LD_IDLE, LD_REQ}" unfolding s4_def by (rule ld_moves(2) [OF 3])
  qed
  note t0 = gemm_tick_data [of False cmd h0 s0, folded s1_def]
  have t: "final_token m ?x ?a = Some (c_at c ?e, gemm_biased c m ?e)"
  proof -
    have "final_token m ?x ?a = Some (c_at c ?e, sum_of m (gemm_iter c) j)"
      using jm by (simp add: final_token_def sum_of_def gemm_iter_def)
    then show ?thesis unfolding gemm_biased_def sum_dots [OF gemm_dots [OF assms(3)], symmetric] jK [symmetric] .
  qed
  let ?t4 = "stepped (requantize q mode) (prev (out_token m (gemm_iter c) (gemm_iters c) False) j)"
  have d: "gb_data (fst s1) = fst (datapath_tick (addr_gen_valid (fst s0)) (gemm_request (fst s0)) (g_quant_shift (gc_cmd (gb_ctrl (fst s0))))
      (g_act_mode (gc_cmd (gb_ctrl (fst s0)))) h0 (gb_data (fst s0), snd s0))"
    unfolding t0 [symmetric] by simp
  have f1: "flight (Some (c_at c ?e, gemm_biased c m ?e)) None None None None (?t4 \<noteq> None) (gb_data (fst s1))"
    unfolding d t [symmetric]
    using flight_full(1) [of None None None None ?t4 False "(gb_data (fst s0), snd s0)" m ?x ?a] f0 full
    by (simp del: datapath_tick_sel not_None_eq stepped_simps(4))
  have v: "\<not> valid_r (dp_pe (gb_data (fst s1)))" "\<not> valid_r (dp_pe (gb_data (fst s2)))" "\<not> valid_r (dp_pe (gb_data (fst s3)))"
    "\<not> valid_r (dp_pe (gb_data (fst s4)))" "\<not> valid_r (dp_pe (gb_data (fst s5)))"
  proof -
    have "pe_ready_out (gb_data (fst s0))" using flight_ready(6) [OF f0] by simp
    from stage_full(2) [OF full(1) this] arg_cong [OF t0, of fst] show 1: "\<not> valid_r (dp_pe (gb_data (fst s1)))" by simp
    show 2: "\<not> valid_r (dp_pe (gb_data (fst s2)))" unfolding s2_def using l(1) 1 by (intro pe_stays_empty) simp_all
    show 3: "\<not> valid_r (dp_pe (gb_data (fst s3)))" unfolding s3_def using l(2) 2 by (intro pe_stays_empty) simp_all
    show 4: "\<not> valid_r (dp_pe (gb_data (fst s4)))" unfolding s4_def using l(3) 3 by (intro pe_stays_empty) simp_all
    show "\<not> valid_r (dp_pe (gb_data (fst s5)))" unfolding s5_def using l(4) 4 by (intro pe_stays_empty) auto
  qed
  have c2: "gc_cmd (gb_ctrl (fst s2)) = c2" "gc_cmd (gb_ctrl (fst s3)) = c2"
    unfolding s3_def s2_def s1_def cmd_kept assms(5) by (rule refl)+
  let ?a2 = "activated (g_act_mode c2) (gemm_biased c m ?e)"
  have f2: "flight None (Some (c_at c ?e, gemm_biased c m ?e)) None None None False (gb_data (fst s2))"
    using gemm_flight [OF f1 _ v(1), of False cmd h1] by (simp add: s2_def)
  have f3: "flight None None (Some (c_at c ?e, ?a2)) None None False (gb_data (fst s3))"
    using gemm_flight [OF f2 _ v(2), of False cmd h2] unfolding c2 s3_def [symmetric] by simp
  have f4: "flight None None None (Some (c_at c ?e, quantized (g_quant_shift c2) ?a2)) None False (gb_data (fst s4))"
    using gemm_flight [OF f3 _ v(3), of False cmd h3] unfolding c2 s4_def [symmetric] by simp
  have f5: "flight None None None None (Some (c_at c ?e, quantized (g_quant_shift c2) ?a2)) False (gb_data (fst s5))"
    using gemm_flight [OF f4 _ v(4), of False cmd h4] by (simp add: s5_def)
  have b1: "\<not> bias_pending_r (snd (gemm_tick False cmd h s))" if "\<not> bias_pending_r (snd s)" for h s
    using no_pending_step [OF that, of "datapath_ports (gb_data (fst s))" h] no_collision [of "gb_data (fst s)"] by simp
  have "\<not> bias_pending_r (snd s5)" unfolding s5_def s4_def s3_def s2_def s1_def by (intro b1 nb)
  from mem_clock(2) [of None None None None "Some (c_at c ?e, quantized (g_quant_shift c2) ?a2)" False "(gb_data (fst s5), snd s5)" h5]
    f5 this assms(7) arg_cong [OF gemm_tick_data [of False cmd h5 s5, folded s6_def], of snd]
  have "lm_act (local_of (snd s6)) (ucast (c_at c ?e)) = quantized (g_quant_shift c2) ?a2" by simp
  moreover have "gemm_clocks cmd [h0, h1, h2, h3, h4, h5] s0 = s6"
    by (simp add: gemm_clocks_simps s1_def s2_def s3_def s4_def s5_def s6_def)
  ultimately show ?thesis by simp
qed

lemma gemm_atD:
  assumes "gm.at c m p j s"
  shows "gemm_seq c p j (fst s)"
    and "datapath_at (g_quant_shift c) (g_act_mode c) m (gemm_iter c) (gemm_iters c) p j (gb_data (fst s), snd s)"
  using assms by (simp_all add: gm.at_def)

text \<open>The last iteration, from the clock in which its fetch begins.\<close>

lemma gemm_end:
  assumes "gemm_idle g" and "\<not> bias_pending_r b" and "gemm_ranges c" and "\<forall>h \<in> set hs. silent h" and "silent h1" and "silent h2"
    and "length hs = 5 * gemm_iters c" and "gemm_iters c = Suc j"
  shows "gm.at c (local_of b) 1 j (gemm_run c (g, b) hs)" "gm.at c (local_of b) 2 j (gemm_run c (g, b) (hs @ [h1]))"
    "gm.at c (local_of b) 3 j (gemm_run c (g, b) (hs @ [h1, h2]))"
  using assms(4-8) unfolding gemm_run_def by (intro gemm_reaches(1) assms; simp add: quiet_host_def)+

text \<open>Completion is signalled in the clock after the last iteration is issued, unless an output is on its way.\<close>

lemma done_at_last:
  assumes "gm.at c m 1 j s" and "gemm_iters c = Suc j" and "2 \<le> dim_K c"
  shows "gemm_done (fst s)" and "\<not> ctrl_finished (fst (gemm_tick cv cmd h s))"
proof -
  have "gemm_ranges c" "gc_state (gb_ctrl (fst s)) = G_DONE"
    using gemm_atD(1) [OF assms(1)] assms(2) by (simp_all add: gemm_seq_def front1_def)
  moreover have "pipe_empty (gb_data (fst s))"
  proof -
    have "prev (out_token m (gemm_iter c) (gemm_iters c) z) j = None" for z
      using \<open>gemm_ranges c\<close> assms(2,3) by (rule no_result_before_last)
    then have "flight None None None None None False (gb_data (fst s))"
      using gemm_atD(2) [OF assms(1)] by (simp add: datapath_at_def flight_at_def Let_def)
    then show ?thesis by (simp add: flight_empty)
  qed
  ultimately show "gemm_done (fst s)" "\<not> ctrl_finished (fst (gemm_tick cv cmd h s))"
    by (simp_all add: gemm_done_def finished_step)
qed

lemma quiet_after_done:
  assumes "gm.at c m 2 j s" and "gemm_iters c = Suc j" and "2 \<le> dim_K c" and "\<not> ctrl_finished (fst s)"
  shows "\<not> gemm_busy (fst s)" and "gemm_cmd_ready (fst s)"
proof -
  have "gemm_ranges c" and i: "gc_state (gb_ctrl (fst s)) = G_IDLE"
    using gemm_atD(1) [OF assms(1)] assms(2) by (simp_all add: gemm_seq_def front2_def)
  have "prev (out_token m (gemm_iter c) (gemm_iters c) z) j = None" for z
    using \<open>gemm_ranges c\<close> assms(2,3) by (rule no_result_before_last)
  then have "flight None None None None None False (gb_data (fst s))"
    using gemm_atD(2) [OF assms(1)] by (simp add: datapath_at_def flight_at_def Let_def)
  then have "pipe_empty (gb_data (fst s))" by (simp add: flight_empty)
  then show "\<not> gemm_busy (fst s)" "gemm_cmd_ready (fst s)" using i assms(4) by (simp_all add: gemm_busy_def gemm_cmd_ready_def)
qed

lemma demo_gemm_ok: "gemm_idle gemm_reset" "\<not> bias_pending_r reset_buffers" "gemm_ranges demo_gemm" "gemm_iters demo_gemm = 8"
  by (simp_all add: gemm_idle_def at_rest_def flight_def held_def queued_def gemm_reset_def datapath_reset_def loader_reset_def
      pe_reset_def postproc_reset_def pipe_reset_def skid_reset_def writer_reset_def reset_buffers_def gemm_ranges_def
      demo_gemm_def gemm_iters_def)

section \<open>Properties\<close>

text \<open>C14: The GEMM backend computes the bench's reference function.  From idle, with operands, bias and result in
  the banks and the result disjoint from the first operand, a command with M, N, K > 0 is finished
  5 M N K + 11 clocks after the clock that accepts it: the backend is idle again and the M N result
  bytes are \<open>ref_gemm\<close> of the operand and bias bytes the command names, for every shift and the three
  activation modes the reference knows; every other byte of both banks is unchanged.  The host is
  silent in the accepting clock and may read, but not write, in the others.\<close>

theorem gemm_computes_ref_gemm:
  assumes "gemm_idle g" and "\<not> bias_pending_r b" and "gemm_ranges c" and "g_act_mode c \<noteq> 3"
    and "M = dim_M c" and "N = dim_N c" and "K = dim_K c"
    and "length hs = 5 * (M * N * K) + 11" and "\<forall>h \<in> set hs. \<not> (host_req h \<and> host_wr h)"
    and "(g', b') = gemm_run c (g, b) hs"
  shows "gemm_idle g' \<and>
    ref_gemm (act_bytes (local_of b) (g_a_addr c) (M * K)) (wt_bytes (local_of b) (g_b_addr c) (K * N))
      (wt_bytes (local_of b) (g_bias_addr c) N) (int M) (int N) (int K) (int (unat (g_quant_shift c))) (ucast (g_act_mode c)) =
      Some (act_bytes (local_of b') (g_c_addr c) (M * N)) \<and>
    lm_wt (local_of b') = lm_wt (local_of b) \<and>
    (\<forall>x. (\<forall>e < M * N. x \<noteq> ucast (c_at c e)) \<longrightarrow> lm_act (local_of b') x = lm_act (local_of b) x)"
proof -
  have sil: "\<forall>h \<in> set (quiet_host # hs). silent h" using assms(9) by (simp add: quiet_host_def)
  have l: "length hs = 11 + 5 * gemm_iters c" using assms(5-8) by (simp add: gemm_iters_def)
  note r = gemm_whole_run [OF assms(1-3) sil l refl, of c, folded gemm_run_def, folded assms(10), simplified]
  have "lm_act (local_of b') = act_written (g_c_addr c) (gemm_out c (local_of b)) (M * N) (lm_act (local_of b))"
    using r(3) gemm_result_act [OF assms(3), of "local_of b" "M * N"] by (simp add: gemm_iters_def assms(5-7))
  then show ?thesis
    using r gemm_bytes_ref [OF assms(3,4), of "local_of b"]
      act_written_other [of "M * N" _ "g_c_addr c" "gemm_out c (local_of b)" "lm_act (local_of b)"]
    by (auto simp: assms(5-7) c_at_def)
qed

theorem gemm_computes_ref_gemm_witness:
  "\<exists>g' b'. (g', b') = gemm_run demo_gemm (gemm_reset, reset_buffers) (replicate 51 quiet_host) \<and> gemm_idle g' \<and>
    ref_gemm (act_bytes (local_of reset_buffers) 0 4) (wt_bytes (local_of reset_buffers) 0 4)
      (wt_bytes (local_of reset_buffers) 0x10 2) 2 2 2 1 1 = Some (act_bytes (local_of b') 0x40 4)"
proof -
  obtain g' b' where t: "(g', b') = gemm_run demo_gemm (gemm_reset, reset_buffers) (replicate 51 quiet_host)"
    by (metis surj_pair)
  with gemm_computes_ref_gemm [OF demo_gemm_ok(1-3) _ refl refl refl _ _ t] show ?thesis
    by (intro exI [of _ g'] exI [of _ b']) (simp add: demo_gemm_def quiet_host_def)
qed

text \<open>C19: The GEMM backend signals completion before it has written its last result.  From idle, for a command in
  range with an inner dimension of at least 2 and a host that does not write meanwhile, \<open>done\<close> comes 5 M N K clocks after the command is accepted, and in the next clock the backend
  shows neither busy nor occupied, while the last product is still being fetched: eight clocks after
  \<open>done\<close> the last result byte has its old value, and only the ninth writes it.  The sequencer leaves
  its DRAIN state when the address generator is idle, and \<open>pipe_empty\<close> does not look at the loader and
  the processing element.\<close>

theorem gemm_done_too_early:
  assumes "gemm_idle g" and "\<not> bias_pending_r b" and "gemm_ranges c" and "2 \<le> dim_K c"
    and "length hs = 5 * gemm_iters c" and "length ks = 7"
    and "\<forall>h \<in> set (hs @ h # ks @ [h']). \<not> (host_req h \<and> host_wr h)"
  defines "x \<equiv> ucast (c_at c (dim_M c * dim_N c - 1))"
  shows "gemm_done (fst (gemm_run c (g, b) hs)) \<and>
    \<not> gemm_busy (fst (gemm_run c (g, b) (hs @ [h]))) \<and> gemm_cmd_ready (fst (gemm_run c (g, b) (hs @ [h]))) \<and>
    lm_act (local_of (snd (gemm_run c (g, b) (hs @ h # ks)))) x = lm_act (local_of b) x \<and>
    lm_act (local_of (snd (gemm_run c (g, b) (hs @ h # ks @ [h'])))) x = gemm_out c (local_of b) (dim_M c * dim_N c - 1)"
proof -
  obtain j where j: "gemm_iters c = Suc j" using gemm_iters_Suc [OF assms(3)] by metis
  have sil: "\<forall>h \<in> set hs. silent h" "silent h" and sil8: "\<forall>k \<in> set (quiet_host # (hs @ h # ks)). silent k"
    and sil9: "\<forall>k \<in> set (quiet_host # (hs @ h # ks @ [h'])). silent k"
    using assms(7) by (simp_all add: quiet_host_def)
  note e = gemm_end [OF assms(1-3) sil(1,2,2) assms(5) j]
  note d = done_at_last [OF e(1) j assms(4)]
  have t: "gemm_run c (g, b) (hs @ [h]) = gemm_tick False c h (gemm_run c (g, b) hs)" by (simp add: gemm_run_def gemm_clocks_simps)
  note b2 = quiet_after_done [OF e(2) j assms(4) d(2) [of False c h, folded t]]
  have m: "local_of (snd (gemm_run c (g, b) (hs @ h # ks))) = gemm_result c (local_of b) (gemm_iters c - 1)"
    "local_of (snd (gemm_run c (g, b) (hs @ h # ks @ [h']))) = gemm_result c (local_of b) (gemm_iters c)"
    using gemm_reaches(1) [OF assms(1-3) sil8, of "gemm_iters c" 4 c] gemm_reaches(2) [OF assms(1-3) sil9, of c] assms(5,6)
    by (simp_all add: gemm_run_def gm.at_def datapath_at_def stored_at_def gemm_iter_def)
  have r: "unat (g_c_addr c) + dim_M c * dim_N c \<le> 8192" "dim_M c * dim_N c - 1 < dim_M c * dim_N c"
    using assms(3) by (simp_all add: gemm_ranges_def)
  have "lm_act (gemm_result c (local_of b) (gemm_iters c)) x = gemm_out c (local_of b) (dim_M c * dim_N c - 1)"
    unfolding gemm_iters_def gemm_result_act [OF assms(3)] x_def c_at_def by (rule act_written_at [OF r(1) le_refl r(2)])
  then show ?thesis using d(1) b2 last_output_pending [OF assms(3), of "local_of b"] unfolding m x_def by simp
qed

theorem gemm_done_too_early_witness:
  "gemm_done (fst (gemm_run demo_gemm (gemm_reset, reset_buffers) (replicate 40 quiet_host))) \<and>
   \<not> gemm_busy (fst (gemm_run demo_gemm (gemm_reset, reset_buffers) (replicate 40 quiet_host @ [quiet_host])))"
  using gemm_done_too_early [OF demo_gemm_ok(1-3), of "replicate 40 quiet_host" "replicate 7 quiet_host" quiet_host quiet_host]
  by (simp add: demo_gemm_ok(4)) (simp add: demo_gemm_def quiet_host_def)

text \<open>For an inner dimension of at least 2 a GEMM command queued behind another corrupts its last result: \<open>done\<close>
  comes at once, the scheduler takes the next command in the clock after it and offers it in the one after
  that, the backend accepts it, and the last result of the first command, still on its way, is activated and
  shifted with the second command's mode and shift.\<close>

theorem gemm_next_command_corrupts:
  assumes "gemm_idle g" and "\<not> bias_pending_r b" and "gemm_ranges c" and "2 \<le> dim_K c"
    and "length hs = 5 * gemm_iters c" and "length ks = 6"
    and "\<forall>h \<in> set (hs @ h # h' # h2 # ks). \<not> (host_req h \<and> host_wr h)"
  shows "gemm_done (fst (gemm_run c (g, b) hs)) \<and>
    lm_act (local_of (snd (gemm_clocks c2 ks (gemm_tick True c2 h2 (gemm_run c (g, b) (hs @ [h, h'])))))) 
      (ucast (c_at c (dim_M c * dim_N c - 1))) =
    quantized (g_quant_shift c2) (activated (g_act_mode c2) (gemm_biased c (local_of b) (dim_M c * dim_N c - 1)))"
proof -
  obtain j where j: "gemm_iters c = Suc j" using gemm_iters_Suc [OF assms(3)] by metis
  obtain k0 k1 k2 k3 k4 k5 where ks: "ks = [k0, k1, k2, k3, k4, k5]"
    using assms(6) by (auto simp: eval_nat_numeral length_Suc_conv)
  have sil: "\<forall>h \<in> set hs. silent h" "silent h" "silent h'" "silent h2" "\<forall>h \<in> {k0, k1, k2, k3, k4, k5}. silent h"
    using assms(7) ks by simp_all
  define s where "s = gemm_run c (g, b) (hs @ [h, h'])"
  have e: "gm.at c (local_of b) 3 j s" unfolding s_def by (rule gemm_end(3) [OF assms(1-3) sil(1-3) assms(5) j])
  have d: "gemm_done (fst (gemm_run c (g, b) hs))"
    by (rule done_at_last(1) [OF gemm_end(1) [OF assms(1-3) sil(1-3) assms(5) j] j assms(4)])
  define u where "u = gemm_tick True c2 h2 s"
  have "(gb_data (fst u), snd u) = (gb_data (fst (gemm_tick False c h2 s)), snd (gemm_tick False c h2 s))"
    unfolding u_def by (simp only: gemm_tick_data)
  moreover have "gm.at c (local_of b) 4 j (gemm_tick False c h2 s)" using gm.at_clock [OF e _ _ sil(4), of c] j by simp
  ultimately have at4: "datapath_at (g_quant_shift c) (g_act_mode c) (local_of b) (gemm_iter c) (gemm_iters c) 4 j (gb_data (fst u), snd u)"
    by (simp add: gm.at_def)
  have "gc_state (gb_ctrl (fst s)) = G_IDLE" "ag_state (gb_addr_gen (fst s)) = AG_IDLE"
    using gemm_atD(1) [OF e] j by (simp_all add: gemm_seq_def front2_def)
  then have "gc_state (gb_ctrl (fst u)) = G_LOAD_CFG" "gc_cmd (gb_ctrl (fst u)) = c2" "ag_state (gb_addr_gen (fst u)) = AG_IDLE"
    by (simp_all add: u_def gemm_backend_step_def gemm_ctrl_step_def gemm_addr_gen_step_def iter_valid_def Let_def)
  from overtaken [OF at4 j assms(3) this sil(5), of c2] show ?thesis using d by (simp add: ks u_def s_def)
qed

theorem gemm_next_command_corrupts_witness:
  "gemm_done (fst (gemm_run demo_gemm (gemm_reset, reset_buffers) (replicate 40 quiet_host))) \<and>
   lm_act (local_of (snd (gemm_clocks (demo_gemm\<lparr>g_act_mode := 0\<rparr>) (replicate 6 quiet_host) (gemm_tick True (demo_gemm\<lparr>g_act_mode := 0\<rparr>)
      quiet_host (gemm_run demo_gemm (gemm_reset, reset_buffers) (replicate 40 quiet_host @ [quiet_host, quiet_host]))))))
      (ucast (c_at demo_gemm 3)) =
    quantized 1 (activated 0 (gemm_biased demo_gemm (local_of reset_buffers) 3))"
  using gemm_next_command_corrupts [OF demo_gemm_ok(1-3), of "replicate 40 quiet_host" "replicate 6 quiet_host" quiet_host quiet_host
      quiet_host "demo_gemm\<lparr>g_act_mode := 0\<rparr>"]
  by (simp add: demo_gemm_ok(4)) (simp add: demo_gemm_def quiet_host_def)

end
