(* ===== verification/Npu_Conv.thy ===== *)
theory Npu_Conv
  imports Npu_Engine
begin

text \<open>
  The convolution backend (\<open>rtl/backends/conv\<close>): the sequencer that walks the loop nest and the address
  generator that finds the operands and the padding, in front of the engine of \<open>Npu_Engine\<close>, clock by
  clock on the ports of the buffer router.
\<close>

section \<open>Sequencer (\<open>conv_ctrl.sv\<close>)\<close>

datatype conv_state = CV_IDLE | CV_LOAD_CFG | CV_COMPUTE | CV_DRAIN | CV_DONE

record conv_ctrl =
  cc_state :: conv_state
  cc_cmd :: conv_cmd_t
  cc_oh :: u16
  cc_ow :: u16
  cc_k :: u16
  cc_r :: u16
  cc_s :: u16
  cc_c :: u16

text \<open>Comparisons with a dimension minus one are on 32 bits, the width of the literal; those with the limits \<open>oh_max\<close>
  and \<open>ow_max\<close>, which are registers' width, on 16.\<close>

definition cc_last_c :: "conv_ctrl \<Rightarrow> bool" where
  "cc_last_c g = ((ucast (cc_c g) :: u32) = ucast (in_c (cc_cmd g)) - 1)"

definition cc_last_s :: "conv_ctrl \<Rightarrow> bool" where
  "cc_last_s g = ((ucast (cc_s g) :: u32) = ucast (filt_s (cc_cmd g)) - 1)"

definition cc_last_r :: "conv_ctrl \<Rightarrow> bool" where
  "cc_last_r g = ((ucast (cc_r g) :: u32) = ucast (filt_r (cc_cmd g)) - 1)"

definition cc_last_k :: "conv_ctrl \<Rightarrow> bool" where
  "cc_last_k g = ((ucast (cc_k g) :: u32) = ucast (out_k (cc_cmd g)) - 1)"

definition cc_last_ow :: "conv_ctrl \<Rightarrow> bool" where
  "cc_last_ow g = (cc_ow g = out_w (cc_cmd g) - 1)"

definition cc_inner_last :: "conv_ctrl \<Rightarrow> bool" where
  "cc_inner_last g = (cc_last_r g \<and> cc_last_s g \<and> cc_last_c g)"

definition cc_outer_last :: "conv_ctrl \<Rightarrow> bool" where
  "cc_outer_last g = (cc_oh g = out_h (cc_cmd g) - 1 \<and> cc_last_ow g \<and> cc_last_k g)"

definition conv_ctrl_step :: "bool \<Rightarrow> conv_cmd_t \<Rightarrow> bool \<Rightarrow> conv_ctrl \<Rightarrow> conv_ctrl" where
  "conv_ctrl_step cmd_valid cmd iter_ready g =
     (let advance = (cc_state g = CV_COMPUTE \<and> iter_ready);
          load = (cc_state g = CV_LOAD_CFG);
          next_s = (advance \<and> cc_last_c g);
          next_r = (next_s \<and> cc_last_s g);
          next_k = (next_r \<and> cc_last_r g);
          next_ow = (next_k \<and> cc_last_k g);
          next_oh = (next_ow \<and> cc_last_ow g)
      in \<lparr>cc_state = (case cc_state g of
            CV_IDLE \<Rightarrow> if cmd_valid then CV_LOAD_CFG else CV_IDLE
          | CV_LOAD_CFG \<Rightarrow> CV_COMPUTE
          | CV_COMPUTE \<Rightarrow> if advance \<and> cc_inner_last g \<and> cc_outer_last g then CV_DRAIN else CV_COMPUTE
          | CV_DRAIN \<Rightarrow> if iter_ready then CV_DONE else CV_DRAIN
          | CV_DONE \<Rightarrow> CV_IDLE),
          cc_cmd = (if cc_state g = CV_IDLE \<and> cmd_valid then cmd else cc_cmd g),
          cc_oh = (if load then 0 else if next_oh \<and> cc_oh g < out_h (cc_cmd g) - 1 then cc_oh g + 1 else cc_oh g),
          cc_ow = (if load then 0 else if next_ow then (if \<not> cc_last_ow g then cc_ow g + 1 else 0) else cc_ow g),
          cc_k = (if load then 0 else if next_k then (if \<not> cc_last_k g then cc_k g + 1 else 0) else cc_k g),
          cc_r = (if load then 0 else if next_r then (if \<not> cc_last_r g then cc_r g + 1 else 0) else cc_r g),
          cc_s = (if load then 0 else if next_s then (if \<not> cc_last_s g then cc_s g + 1 else 0) else cc_s g),
          cc_c = (if load then 0 else if advance then (if \<not> cc_last_c g then cc_c g + 1 else 0) else cc_c g)\<rparr>)"

section \<open>Address generator (\<open>conv_addr_gen.sv\<close>)\<close>

datatype conv_addr_state = CA_IDLE | CA_STAGE1 | CA_STAGE2 | CA_STAGE3 | CA_OUT

record conv_addr_gen =
  ca_state :: conv_addr_state
  zero_pad_s1 :: bool
  act_base_s1 :: u16
  wt_base_s1 :: u16
  in_c_s1 :: u16
  filt_s_s1 :: u16
  iw_u_s1 :: u16
  c_s1 :: u16
  r_s1 :: u16
  s_s1 :: u16
  act_m1_s1 :: u32
  wt_m1_s1 :: u32
  act_m2_s2 :: u32
  wt_m2_s2 :: u32
  zero_pad_s2 :: bool
  act_base_s2 :: u16
  wt_base_s2 :: u16
  in_c_s2 :: u16
  c_s2 :: u16
  s_s2 :: u16
  act_idx_s3 :: u16
  wt_idx_s3 :: u16
  zero_pad_s3 :: bool
  act_base_s3 :: u16
  wt_base_s3 :: u16
  ca_act_addr_r :: u16
  ca_wt_addr_r :: u16
  ca_zero_pad_r :: bool

text \<open>A coordinate in the input: 17 bits, signed.\<close>

definition coord_calc :: "u16 \<Rightarrow> u16 \<Rightarrow> u16 \<Rightarrow> u16 \<Rightarrow> 17 word" where
  "coord_calc o' stride tap pad = ucast o' * ucast stride + ucast tap - ucast pad"

definition outside :: "17 word \<Rightarrow> u16 \<Rightarrow> bool" where
  "outside x n = (x <s 0 \<or> ucast n \<le>s x)"

definition conv_addr_gen_step :: "bool \<Rightarrow> bool \<Rightarrow> conv_ctrl \<Rightarrow> conv_addr_gen \<Rightarrow> conv_addr_gen" where
  "conv_addr_gen_step in_valid out_ready g a =
     (let accept = (ca_state a = CA_IDLE \<and> in_valid);
          stage1 = (ca_state a = CA_STAGE1);
          stage2 = (ca_state a = CA_STAGE2);
          stage3 = (ca_state a = CA_STAGE3);
          c = cc_cmd g;
          ih = coord_calc (cc_oh g) (stride_h c) (cc_r g) (pad_h c);
          iw = coord_calc (cc_ow g) (stride_w c) (cc_s g) (pad_w c)
      in \<lparr>ca_state = (case ca_state a of
            CA_IDLE \<Rightarrow> if in_valid then CA_STAGE1 else CA_IDLE
          | CA_STAGE1 \<Rightarrow> CA_STAGE2
          | CA_STAGE2 \<Rightarrow> CA_STAGE3
          | CA_STAGE3 \<Rightarrow> CA_OUT
          | CA_OUT \<Rightarrow> if out_ready then CA_IDLE else CA_OUT),
          zero_pad_s1 = (if accept then outside ih (in_h c) \<or> outside iw (in_w c) else zero_pad_s1 a),
          act_base_s1 = (if accept then act_in_addr c else act_base_s1 a),
          wt_base_s1 = (if accept then weight_addr c else wt_base_s1 a),
          in_c_s1 = (if accept then in_c c else in_c_s1 a),
          filt_s_s1 = (if accept then filt_s c else filt_s_s1 a),
          iw_u_s1 = (if accept then ucast iw else iw_u_s1 a),
          c_s1 = (if accept then cc_c g else c_s1 a),
          r_s1 = (if accept then cc_r g else r_s1 a),
          s_s1 = (if accept then cc_s g else s_s1 a),
          act_m1_s1 = (if accept then ucast (ucast ih :: u16) * ucast (in_w c) else act_m1_s1 a),
          wt_m1_s1 = (if accept then ucast (cc_k g) * ucast (filt_r c) else wt_m1_s1 a),
          act_m2_s2 = (if stage1 then (act_m1_s1 a + ucast (iw_u_s1 a)) * ucast (in_c_s1 a) else act_m2_s2 a),
          wt_m2_s2 = (if stage1 then (wt_m1_s1 a + ucast (r_s1 a)) * ucast (filt_s_s1 a) else wt_m2_s2 a),
          zero_pad_s2 = (if stage1 then zero_pad_s1 a else zero_pad_s2 a),
          act_base_s2 = (if stage1 then act_base_s1 a else act_base_s2 a),
          wt_base_s2 = (if stage1 then wt_base_s1 a else wt_base_s2 a),
          in_c_s2 = (if stage1 then in_c_s1 a else in_c_s2 a),
          c_s2 = (if stage1 then c_s1 a else c_s2 a),
          s_s2 = (if stage1 then s_s1 a else s_s2 a),
          act_idx_s3 = (if stage2 then ucast (act_m2_s2 a + ucast (c_s2 a)) else act_idx_s3 a),
          wt_idx_s3 = (if stage2 then ucast ((wt_m2_s2 a + ucast (s_s2 a)) * ucast (in_c_s2 a) + ucast (c_s2 a)) else wt_idx_s3 a),
          zero_pad_s3 = (if stage2 then zero_pad_s2 a else zero_pad_s3 a),
          act_base_s3 = (if stage2 then act_base_s2 a else act_base_s3 a),
          wt_base_s3 = (if stage2 then wt_base_s2 a else wt_base_s3 a),
          ca_act_addr_r = (if stage3 then act_base_s3 a + act_idx_s3 a else ca_act_addr_r a),
          ca_wt_addr_r = (if stage3 then wt_base_s3 a + wt_idx_s3 a else ca_wt_addr_r a),
          ca_zero_pad_r = (if stage3 then zero_pad_s3 a else ca_zero_pad_r a)\<rparr>)"

section \<open>Backend (\<open>conv_backend.sv\<close>)\<close>

record conv_backend =
  cb_ctrl :: conv_ctrl
  cb_addr_gen :: conv_addr_gen
  cb_iter_r :: iter_meta
  first_last_inner_seen_r :: bool
  cb_data :: datapath
  cb_finished :: bool

definition conv_iter_valid :: "conv_backend \<Rightarrow> bool" where
  "conv_iter_valid g = (cc_state (cb_ctrl g) = CV_COMPUTE)"

definition conv_iter_ready :: "conv_backend \<Rightarrow> bool" where
  "conv_iter_ready g = (ca_state (cb_addr_gen g) = CA_IDLE)"

definition conv_addr_valid :: "conv_backend \<Rightarrow> bool" where
  "conv_addr_valid g = (ca_state (cb_addr_gen g) = CA_OUT)"

definition conv_cmd_ready :: "conv_backend \<Rightarrow> bool" where
  "conv_cmd_ready g = (cc_state (cb_ctrl g) = CV_IDLE)"

definition conv_done :: "conv_backend \<Rightarrow> bool" where
  "conv_done g = ((cc_state (cb_ctrl g) = CV_DONE \<or> cb_finished g) \<and> pipe_empty (cb_data g))"

definition conv_busy :: "conv_backend \<Rightarrow> bool" where
  "conv_busy g = (cc_state (cb_ctrl g) \<noteq> CV_IDLE \<or> \<not> pipe_empty (cb_data g) \<or> cb_finished g)"

text \<open>Outputs are contiguous, so the write address counts up from the first one of the command.\<close>

definition conv_iter_meta :: "conv_ctrl \<Rightarrow> bool \<Rightarrow> iter_meta \<Rightarrow> iter_meta" where
  "conv_iter_meta g seen i =
     (let c = cc_cmd g; final = cc_inner_last g
      in \<lparr>md_last_inner = final, md_acc_clr = (cc_state g = CV_COMPUTE \<and> cc_r g = 0 \<and> cc_s g = 0 \<and> cc_c g = 0),
          md_wr_addr = (if final then if \<not> seen then act_out_addr c else md_wr_addr i + 1 else md_wr_addr i),
          md_bias_addr = (if final then bias_addr c + cc_k g else md_bias_addr i)\<rparr>)"

definition conv_request :: "conv_backend \<Rightarrow> load_request" where
  "conv_request g = \<lparr>lr_act_addr = ca_act_addr_r (cb_addr_gen g), lr_wt_addr = ca_wt_addr_r (cb_addr_gen g),
     lr_zero_pad = ca_zero_pad_r (cb_addr_gen g), lr_meta = cb_iter_r g\<rparr>"

definition conv_backend_step :: "bool \<Rightarrow> conv_cmd_t \<Rightarrow> backend_in \<Rightarrow> conv_backend \<Rightarrow> conv_backend" where
  "conv_backend_step cmd_valid cmd i g =
     (let c = cc_cmd (cb_ctrl g);
          iter_accept = (conv_iter_valid g \<and> conv_iter_ready g)
      in \<lparr>cb_ctrl = conv_ctrl_step cmd_valid cmd (conv_iter_ready g) (cb_ctrl g),
          cb_addr_gen = conv_addr_gen_step (conv_iter_valid g) (load_ready (dp_loader (cb_data g))) (cb_ctrl g) (cb_addr_gen g),
          cb_iter_r = (if iter_accept then conv_iter_meta (cb_ctrl g) (first_last_inner_seen_r g) (cb_iter_r g) else cb_iter_r g),
          first_last_inner_seen_r = (if iter_accept \<and> cc_inner_last (cb_ctrl g) then True
            else if cmd_valid \<and> conv_cmd_ready g then False else first_last_inner_seen_r g),
          cb_data = datapath_step (conv_addr_valid g) (conv_request g) (quant_shift c) (act_mode c) i (cb_data g),
          cb_finished = (if conv_done g then False else if cc_state (cb_ctrl g) = CV_DONE then True else cb_finished g)\<rparr>)"

definition conv_cmd_reset :: conv_cmd_t where
  "conv_cmd_reset = \<lparr>opcode = 0, act_in_addr = 0, act_out_addr = 0, weight_addr = 0, bias_addr = 0, in_h = 0, in_w = 0, in_c = 0,
     out_k = 0, filt_r = 0, filt_s = 0, stride_h = 0, stride_w = 0, pad_h = 0, pad_w = 0, out_h = 0, out_w = 0, quant_shift = 0,
     act_mode = 0\<rparr>"

definition conv_reset :: conv_backend where
  "conv_reset =
     \<lparr>cb_ctrl = \<lparr>cc_state = CV_IDLE, cc_cmd = conv_cmd_reset, cc_oh = 0, cc_ow = 0, cc_k = 0, cc_r = 0, cc_s = 0, cc_c = 0\<rparr>,
      cb_addr_gen = \<lparr>ca_state = CA_IDLE, zero_pad_s1 = False, act_base_s1 = 0, wt_base_s1 = 0, in_c_s1 = 0, filt_s_s1 = 0,
        iw_u_s1 = 0, c_s1 = 0, r_s1 = 0, s_s1 = 0, act_m1_s1 = 0, wt_m1_s1 = 0, act_m2_s2 = 0, wt_m2_s2 = 0, zero_pad_s2 = False,
        act_base_s2 = 0, wt_base_s2 = 0, in_c_s2 = 0, c_s2 = 0, s_s2 = 0, act_idx_s3 = 0, wt_idx_s3 = 0, zero_pad_s3 = False,
        act_base_s3 = 0, wt_base_s3 = 0, ca_act_addr_r = 0, ca_wt_addr_r = 0, ca_zero_pad_r = False\<rparr>,
      cb_iter_r = iter_meta_reset, first_last_inner_seen_r = False, cb_data = datapath_reset, cb_finished = False\<rparr>"

section \<open>Runs\<close>

definition conv_tick :: "bool \<Rightarrow> conv_cmd_t \<Rightarrow> host_port \<Rightarrow> conv_backend \<times> buffers \<Rightarrow> conv_backend \<times> buffers" where
  "conv_tick cmd_valid cmd h s =
     (let p = datapath_ports (cb_data (fst s))
      in (conv_backend_step cmd_valid cmd (backend_inputs p (snd s)) (fst s), router_step h p (snd s)))"

definition conv_clocks :: "conv_cmd_t \<Rightarrow> host_port list \<Rightarrow> conv_backend \<times> buffers \<Rightarrow> conv_backend \<times> buffers" where
  "conv_clocks cmd = fold (conv_tick False cmd)"

text \<open>The backend, from the clock that accepts \<open>c\<close>, for further clocks; and the command of the examples: a 2 x 2 image, a
  2 x 2 filter, stride 1 and one row and column of padding around.\<close>

definition conv_run :: "conv_cmd_t \<Rightarrow> conv_backend \<times> buffers \<Rightarrow> host_port list \<Rightarrow> conv_backend \<times> buffers" where
  "conv_run c s hs = conv_clocks c hs (conv_tick True c quiet_host s)"

definition demo_conv_cmd :: conv_cmd_t where
  "demo_conv_cmd = \<lparr>opcode = 0, act_in_addr = 0, act_out_addr = 0x40, weight_addr = 0, bias_addr = 0x10, in_h = 2, in_w = 2, in_c = 1,
     out_k = 1, filt_r = 2, filt_s = 2, stride_h = 1, stride_w = 1, pad_h = 1, pad_w = 1, out_h = 3, out_w = 3, quant_shift = 1,
     act_mode = 1\<rparr>"

section \<open>What a command computes\<close>

abbreviation cv_H :: "conv_cmd_t \<Rightarrow> nat" where "cv_H c \<equiv> unat (in_h c)"
abbreviation cv_W :: "conv_cmd_t \<Rightarrow> nat" where "cv_W c \<equiv> unat (in_w c)"
abbreviation cv_C :: "conv_cmd_t \<Rightarrow> nat" where "cv_C c \<equiv> unat (in_c c)"
abbreviation cv_K :: "conv_cmd_t \<Rightarrow> nat" where "cv_K c \<equiv> unat (out_k c)"
abbreviation cv_R :: "conv_cmd_t \<Rightarrow> nat" where "cv_R c \<equiv> unat (filt_r c)"
abbreviation cv_S :: "conv_cmd_t \<Rightarrow> nat" where "cv_S c \<equiv> unat (filt_s c)"
abbreviation cv_OH :: "conv_cmd_t \<Rightarrow> nat" where "cv_OH c \<equiv> unat (out_h c)"
abbreviation cv_OW :: "conv_cmd_t \<Rightarrow> nat" where "cv_OW c \<equiv> unat (out_w c)"

text \<open>The length of a dot product, the number of outputs and of iterations.\<close>

definition conv_len :: "conv_cmd_t \<Rightarrow> nat" where
  "conv_len c = cv_R c * cv_S c * cv_C c"

definition conv_outs :: "conv_cmd_t \<Rightarrow> nat" where
  "conv_outs c = cv_OH c * cv_OW c * cv_K c"

definition conv_iters :: "conv_cmd_t \<Rightarrow> nat" where
  "conv_iters c = conv_outs c * conv_len c"

text \<open>Row and column, in the padded image, of element \<open>x\<close> of the dot product of output \<open>e\<close>.\<close>

definition conv_y :: "conv_cmd_t \<Rightarrow> nat \<Rightarrow> nat \<Rightarrow> nat" where
  "conv_y c e x = e div cv_K c div cv_OW c * unat (stride_h c) + x div cv_C c div cv_S c"

definition conv_x :: "conv_cmd_t \<Rightarrow> nat \<Rightarrow> nat \<Rightarrow> nat" where
  "conv_x c e x = e div cv_K c mod cv_OW c * unat (stride_w c) + x div cv_C c mod cv_S c"

definition conv_inside :: "conv_cmd_t \<Rightarrow> nat \<Rightarrow> nat \<Rightarrow> bool" where
  "conv_inside c e x = (unat (pad_h c) \<le> conv_y c e x \<and> conv_y c e x < unat (pad_h c) + cv_H c \<and>
     unat (pad_w c) \<le> conv_x c e x \<and> conv_x c e x < unat (pad_w c) + cv_W c)"

definition conv_act_index :: "conv_cmd_t \<Rightarrow> nat \<Rightarrow> nat \<Rightarrow> nat" where
  "conv_act_index c e x =
     ((conv_y c e x - unat (pad_h c)) * cv_W c + (conv_x c e x - unat (pad_w c))) * cv_C c + x mod cv_C c"

definition conv_out_at :: "conv_cmd_t \<Rightarrow> nat \<Rightarrow> u16" where
  "conv_out_at c e = act_out_addr c + word_of_nat e"

definition conv_iter :: "conv_cmd_t \<Rightarrow> nat \<Rightarrow> load_request" where
  "conv_iter c j =
     (let L = conv_len c; e = j div L; x = j mod L
      in \<lparr>lr_act_addr = act_in_addr c + word_of_nat (conv_act_index c e x),
          lr_wt_addr = weight_addr c + word_of_nat (e mod cv_K c * L + x),
          lr_zero_pad = (\<not> conv_inside c e x),
          lr_meta = \<lparr>md_last_inner = (Suc x = L), md_acc_clr = (x = 0), md_wr_addr = conv_out_at c e,
            md_bias_addr = bias_addr c + word_of_nat (e mod cv_K c)\<rparr>\<rparr>)"

definition conv_out :: "conv_cmd_t \<Rightarrow> local_mem \<Rightarrow> nat \<Rightarrow> u8" where
  "conv_out c m e = quantized (quant_shift c) (activated (act_mode c) (dot_sum m (conv_iter c) (conv_len c) e))"

text \<open>Input, weights, bias and output lie in the banks, the output does not meet the input, and the last tap of the
  padded image is within the 17-bit coordinates.\<close>

definition conv_ranges :: "conv_cmd_t \<Rightarrow> bool" where
  "conv_ranges c = (0 < conv_len c \<and> 0 < conv_outs c \<and>
     unat (act_in_addr c) + cv_H c * cv_W c * cv_C c \<le> 8192 \<and> unat (act_out_addr c) + conv_outs c \<le> 8192 \<and>
     unat (weight_addr c) + cv_K c * conv_len c \<le> 4096 \<and> unat (bias_addr c) + cv_K c \<le> 4096 \<and>
     (unat (act_out_addr c) + conv_outs c \<le> unat (act_in_addr c) \<or>
      unat (act_in_addr c) + cv_H c * cv_W c * cv_C c \<le> unat (act_out_addr c)) \<and>
     (cv_OH c - 1) * unat (stride_h c) + cv_R c \<le> 131072 \<and> (cv_OW c - 1) * unat (stride_w c) + cv_S c \<le> 131072)"

section \<open>The loop nest\<close>

lemma conv_dims_pos:
  assumes "i < conv_iters c"
  shows "0 < cv_C c" "0 < cv_S c" "0 < cv_R c" "0 < cv_K c" "0 < cv_OW c" "0 < cv_OH c" "0 < conv_len c"
  using assms by (auto simp: conv_iters_def conv_outs_def conv_len_def intro: gr0I)

lemma conv_coords:
  assumes "i < conv_iters c"
  shows "i mod conv_len c < conv_len c" "i div conv_len c < conv_outs c"
    "i mod conv_len c mod cv_C c < cv_C c" "i mod conv_len c div cv_C c mod cv_S c < cv_S c"
    "i mod conv_len c div cv_C c div cv_S c < cv_R c" "i mod conv_len c div cv_C c < cv_R c * cv_S c"
    "i div conv_len c mod cv_K c < cv_K c" "i div conv_len c div cv_K c mod cv_OW c < cv_OW c"
    "i div conv_len c div cv_K c div cv_OW c < cv_OH c" "i div conv_len c div cv_K c < cv_OH c * cv_OW c"
proof -
  note p = conv_dims_pos [OF assms]
  show x: "i mod conv_len c < conv_len c" using p by simp
  show e: "i div conv_len c < conv_outs c" using assms p(7) by (simp add: conv_iters_def less_mult_imp_div_less)
  show a: "i mod conv_len c div cv_C c < cv_R c * cv_S c" using x by (simp add: conv_len_def less_mult_imp_div_less)
  show b: "i div conv_len c div cv_K c < cv_OH c * cv_OW c" using e by (simp add: conv_outs_def less_mult_imp_div_less)
  show "i mod conv_len c div cv_C c div cv_S c < cv_R c" "i div conv_len c div cv_K c div cv_OW c < cv_OH c"
    using a b by (simp_all add: less_mult_imp_div_less)
  show "i mod conv_len c mod cv_C c < cv_C c" "i mod conv_len c div cv_C c mod cv_S c < cv_S c"
    "i div conv_len c mod cv_K c < cv_K c" "i div conv_len c div cv_K c mod cv_OW c < cv_OW c"
    using p by simp_all
qed

text \<open>The sequencer is about to issue iteration \<open>i\<close>, or has issued all of them.\<close>

definition conv_ctrl_at :: "conv_cmd_t \<Rightarrow> nat \<Rightarrow> conv_ctrl \<Rightarrow> bool" where
  "conv_ctrl_at c i g = (cc_cmd g = c \<and> (if i < conv_iters c
     then let e = i div conv_len c; x = i mod conv_len c
       in cc_state g = CV_COMPUTE \<and> cc_c g = word_of_nat (x mod cv_C c) \<and> cc_s g = word_of_nat (x div cv_C c mod cv_S c) \<and>
         cc_r g = word_of_nat (x div cv_C c div cv_S c) \<and> cc_k g = word_of_nat (e mod cv_K c) \<and>
         cc_ow g = word_of_nat (e div cv_K c mod cv_OW c) \<and> cc_oh g = word_of_nat (e div cv_K c div cv_OW c)
     else cc_state g = CV_DRAIN))"

lemma conv_ctrl_atD:
  assumes "conv_ctrl_at c i g" and "i < conv_iters c"
  shows "cc_cmd g = c" "cc_state g = CV_COMPUTE" "cc_c g = word_of_nat (i mod conv_len c mod cv_C c)"
    "cc_s g = word_of_nat (i mod conv_len c div cv_C c mod cv_S c)" "cc_r g = word_of_nat (i mod conv_len c div cv_C c div cv_S c)"
    "cc_k g = word_of_nat (i div conv_len c mod cv_K c)" "cc_ow g = word_of_nat (i div conv_len c div cv_K c mod cv_OW c)"
    "cc_oh g = word_of_nat (i div conv_len c div cv_K c div cv_OW c)"
  using assms by (simp_all add: conv_ctrl_at_def Let_def)

text \<open>The same on 16 bits.\<close>

lemma limit16:
  assumes "x < unat (d :: u16)"
  shows "(word_of_nat x :: u16) = d - 1 \<longleftrightarrow> Suc x = unat d" and "(word_of_nat x :: u16) < d - 1 \<longleftrightarrow> Suc x < unat d"
proof -
  have "d \<noteq> 0" using assms by auto
  then have d: "unat (d - 1) = unat d - 1" by (rule unat_minus_one)
  have "x < 65536" using less_trans [OF assms unsigned_less [of d, where ?'a = nat]] by simp
  then have x: "unat (word_of_nat x :: u16) = x" by (simp add: unat_of_nat)
  show "(word_of_nat x :: u16) = d - 1 \<longleftrightarrow> Suc x = unat d" using assms by (auto simp: word_unat_eq_iff d x)
  show "(word_of_nat x :: u16) < d - 1 \<longleftrightarrow> Suc x < unat d" using assms by (auto simp: word_less_nat_alt d x)
qed

lemma conv_ctrl_last:
  assumes "conv_ctrl_at c i g" and "i < conv_iters c"
  shows "cc_last_c g \<longleftrightarrow> Suc (i mod conv_len c mod cv_C c) = cv_C c"
    and "cc_last_s g \<longleftrightarrow> Suc (i mod conv_len c div cv_C c mod cv_S c) = cv_S c"
    and "cc_last_r g \<longleftrightarrow> Suc (i mod conv_len c div cv_C c div cv_S c) = cv_R c"
    and "cc_last_k g \<longleftrightarrow> Suc (i div conv_len c mod cv_K c) = cv_K c"
    and "cc_last_ow g \<longleftrightarrow> Suc (i div conv_len c div cv_K c mod cv_OW c) = cv_OW c"
    and "cc_inner_last g \<longleftrightarrow> Suc (i mod conv_len c) = conv_len c"
    and "cc_outer_last g \<longleftrightarrow> Suc (i div conv_len c) = conv_outs c"
    and "cc_oh g < out_h (cc_cmd g) - 1 \<longleftrightarrow> Suc (i div conv_len c div cv_K c div cv_OW c) < cv_OH c"
proof -
  note g = conv_ctrl_atD [OF assms]
  note q = conv_coords [OF assms(2)]
  show c: "cc_last_c g \<longleftrightarrow> Suc (i mod conv_len c mod cv_C c) = cv_C c" unfolding cc_last_c_def g by (rule counter16 [OF q(3)])
  show s: "cc_last_s g \<longleftrightarrow> Suc (i mod conv_len c div cv_C c mod cv_S c) = cv_S c" unfolding cc_last_s_def g by (rule counter16 [OF q(4)])
  show r: "cc_last_r g \<longleftrightarrow> Suc (i mod conv_len c div cv_C c div cv_S c) = cv_R c" unfolding cc_last_r_def g by (rule counter16 [OF q(5)])
  show k: "cc_last_k g \<longleftrightarrow> Suc (i div conv_len c mod cv_K c) = cv_K c" unfolding cc_last_k_def g by (rule counter16 [OF q(7)])
  show w: "cc_last_ow g \<longleftrightarrow> Suc (i div conv_len c div cv_K c mod cv_OW c) = cv_OW c"
    unfolding cc_last_ow_def g by (rule limit16 [OF q(8)])
  show "cc_oh g < out_h (cc_cmd g) - 1 \<longleftrightarrow> Suc (i div conv_len c div cv_K c div cv_OW c) < cv_OH c"
    unfolding g by (rule limit16 [OF q(9)])
  have h: "cc_oh g = out_h (cc_cmd g) - 1 \<longleftrightarrow> Suc (i div conv_len c div cv_K c div cv_OW c) = cv_OH c"
    unfolding g by (rule limit16 [OF q(9)])
  show "cc_inner_last g \<longleftrightarrow> Suc (i mod conv_len c) = conv_len c"
    unfolding cc_inner_last_def c s r
    using radix_last [OF q(6)] radix_last [OF q(1) [unfolded conv_len_def], folded conv_len_def] by blast
  show "cc_outer_last g \<longleftrightarrow> Suc (i div conv_len c) = conv_outs c"
    unfolding cc_outer_last_def k w h
    using radix_last [OF q(10)] radix_last [OF q(2) [unfolded conv_outs_def], folded conv_outs_def] by blast
qed

lemma conv_more:
  assumes "i < conv_iters c"
  shows "Suc i < conv_iters c \<longleftrightarrow> \<not> (Suc (i mod conv_len c) = conv_len c \<and> Suc (i div conv_len c) = conv_outs c)"
  using radix_last [of i "conv_outs c" "conv_len c"] assms unfolding conv_iters_def by linarith

lemma conv_ctrl_advance:
  assumes "conv_ctrl_at c i g" and "i < conv_iters c"
  shows "conv_ctrl_at c (Suc i) (conv_ctrl_step cv cmd True g)"
proof -
  note l = conv_ctrl_last [OF assms]
  note p = conv_dims_pos [OF assms(2)]
  note q = conv_coords [OF assms(2)]
  note g = conv_ctrl_atD [OF assms]
  let ?e = "i div conv_len c" and ?x = "i mod conv_len c"
  have cmd: "cc_cmd (conv_ctrl_step cv cmd True g) = c" using g by (simp add: conv_ctrl_step_def Let_def)
  have inner: "cc_inner_last g \<longleftrightarrow> cc_last_r g \<and> cc_last_s g \<and> cc_last_c g" by (simp add: cc_inner_last_def)
  show ?thesis
  proof (cases "Suc i < conv_iters c")
    case False
    then have "cc_inner_last g" "cc_outer_last g" using l(6,7) conv_more [OF assms(2)] by simp_all
    then show ?thesis using False g cmd by (simp add: conv_ctrl_at_def conv_ctrl_step_def Let_def)
  next
    case more: True
    then have nd: "\<not> (cc_inner_last g \<and> cc_outer_last g)" using l(6,7) conv_more [OF assms(2)] by simp
    show ?thesis
    proof (cases "Suc ?x = conv_len c")
      case False
      then have d: "Suc i mod conv_len c = Suc ?x" "Suc i div conv_len c = ?e" by (simp_all add: mod_Suc div_Suc)
      have "\<not> (cc_last_r g \<and> cc_last_s g \<and> cc_last_c g)" using False l(6) inner by simp
      then show ?thesis
        using more nd g cmd q(3-5) unfolding conv_ctrl_at_def Let_def d
        by (cases "cc_last_c g"; cases "cc_last_s g") (simp_all add: conv_ctrl_step_def Let_def l mod_Suc div_Suc)
    next
      case True
      then have d: "Suc i mod conv_len c = 0" "Suc i div conv_len c = Suc ?e" using p(7) by (simp_all add: mod_Suc div_Suc)
      have i: "cc_last_r g" "cc_last_s g" "cc_last_c g" using True l(6) inner by simp_all
      have "\<not> cc_outer_last g" using nd True l(6) by simp
      then have o: "Suc ?e \<noteq> conv_outs c" using l(7) by simp
      have w: "Suc (?e mod cv_K c) = cv_K c \<Longrightarrow> Suc (?e div cv_K c mod cv_OW c) = cv_OW c \<Longrightarrow> Suc (?e div cv_K c div cv_OW c) < cv_OH c"
        using radix_last [OF q(2) [unfolded conv_outs_def], folded conv_outs_def] radix_last [OF q(10)] q(9) o by (meson Suc_lessI)
      show ?thesis
        using more nd g cmd i w q(9) unfolding conv_ctrl_at_def Let_def d
        by (cases "cc_last_k g"; cases "cc_last_ow g") (simp_all add: conv_ctrl_step_def Let_def l limit16 [OF q(9)] mod_Suc div_Suc)
    qed
  qed
qed

lemma conv_ctrl_wait: "conv_ctrl_at c i g \<Longrightarrow> conv_ctrl_at c i (conv_ctrl_step cv cmd False g)"
  by (auto simp: conv_ctrl_at_def conv_ctrl_step_def Let_def)

text \<open>The metadata of an iteration, given how many outputs have been counted.\<close>

definition conv_counted :: "conv_cmd_t \<Rightarrow> nat \<Rightarrow> bool \<Rightarrow> iter_meta \<Rightarrow> bool" where
  "conv_counted c n seen md = (seen = (0 < n) \<and> (0 < n \<longrightarrow> md_wr_addr md = conv_out_at c (n - 1)))"

lemma conv_meta_issued:
  assumes "conv_ctrl_at c i g" and "i < conv_iters c" and "conv_counted c (i div conv_len c) seen md"
  shows "matches (conv_iter c i) (conv_iter_meta g seen md)"
    and "conv_counted c (Suc i div conv_len c) (cc_inner_last g \<or> seen) (conv_iter_meta g seen md)"
proof -
  note l = conv_ctrl_last [OF assms(1,2)]
  note q = conv_coords [OF assms(2)]
  note g = conv_ctrl_atD [OF assms(1,2)]
  let ?e = "i div conv_len c" and ?x = "i mod conv_len c"
  have z: "(word_of_nat x :: u16) = 0 \<longleftrightarrow> x = 0" if "x < unat (d :: u16)" for x d
  proof -
    have "x < 65536" using less_trans [OF that unsigned_less [of d, where ?'a = nat]] by simp
    then show ?thesis by (auto simp: word_of_nat_eq_0_iff dest: nat_dvd_not_less)
  qed
  have "?x = 0 \<longleftrightarrow> ?x mod cv_C c = 0 \<and> ?x div cv_C c mod cv_S c = 0 \<and> ?x div cv_C c div cv_S c = 0"
    by (metis add.right_neutral add_0 div_mult_mod_eq mult_zero_left mult_is_0 div_0 mod_0)
  then have first: "cc_r g = 0 \<and> cc_s g = 0 \<and> cc_c g = 0 \<longleftrightarrow> ?x = 0"
    unfolding g z [OF q(3)] z [OF q(4)] z [OF q(5)] by argo
  have addr: "(if \<not> seen then act_out_addr c else md_wr_addr md + 1) = conv_out_at c ?e"
    using assms(3) by (cases ?e) (simp_all add: conv_counted_def conv_out_at_def)
  show "matches (conv_iter c i) (conv_iter_meta g seen md)"
    using first addr l(6) by (auto simp: matches_def conv_iter_meta_def conv_iter_def g(1,2,6) Let_def)
  show "conv_counted c (Suc i div conv_len c) (cc_inner_last g \<or> seen) (conv_iter_meta g seen md)"
    using addr l(6) assms(3) by (auto simp: conv_counted_def conv_iter_meta_def g(1) Let_def div_Suc mod_Suc)
qed

section \<open>The address arithmetic\<close>

text \<open>32 bits cut to the 16 of an address, and 17-bit signed coordinates.\<close>

lemma ucast16_add: "(ucast (x + y :: u32) :: u16) = ucast x + ucast y"
  and ucast16_mult: "(ucast (x * y :: u32) :: u16) = ucast x * ucast y"
  and ucast16_up: "(ucast (ucast (z :: u16) :: u32) :: u16) = z"
proof -
  have m: "(n mod 4294967296) mod 65536 = n mod (65536 :: nat)" for n by (rule mod_mod_cancel) simp
  show "(ucast (x + y :: u32) :: u16) = ucast x + ucast y" "(ucast (x * y :: u32) :: u16) = ucast x * ucast y"
    by (simp_all add: word_unat_eq_iff unsigned_ucast_eq take_bit_eq_mod unat_word_ariths m mod_simps)
  show "(ucast (ucast (z :: u16) :: u32) :: u16) = z" by simp
qed

lemma ucast17_nat: "x < 65536 \<Longrightarrow> (ucast (word_of_nat x :: u16) :: 17 word) = word_of_nat x"
  by (simp add: word_unat_eq_iff unsigned_ucast_eq unat_of_nat take_bit_eq_mod)

lemma coord_eq:
  assumes "o' < 65536" and "t < 65536"
  shows "coord_calc (word_of_nat o') st (word_of_nat t) pd = word_of_int (int (o' * unat st + t) - int (unat pd))"
proof -
  have "(ucast (x :: u16) :: 17 word) = word_of_nat (unat x)" for x using ucast17_nat [of "unat x"] unsigned_less [of x, where ?'a = nat] by simp
  then show ?thesis using assms by (simp add: coord_calc_def ucast17_nat)
qed

lemma sint17:
  "- 65536 \<le> v \<Longrightarrow> v < 131072 \<Longrightarrow> sint (word_of_int v :: 17 word) = (if v < 65536 then v else v - 131072)"
proof -
  assume v: "- 65536 \<le> v" "v < 131072"
  have "(v + 65536) mod 131072 = v - 65536" if "65536 \<le> v"
    using that v mod_pos_pos_trivial [of "v - 65536" 131072] mod_add_self2 [of "v - 65536" 131072] by (simp add: add.commute)
  then show ?thesis using v by (simp add: sint_sbintrunc' signed_take_bit_eq_take_bit_shift take_bit_eq_mod)
qed

lemma outside_eq:
  assumes "y < 131072"
  shows "outside (word_of_int (int y - int (unat (pd :: u16)))) n \<longleftrightarrow> \<not> (unat pd \<le> y \<and> y < unat pd + unat n)"
proof -
  define p l where "p = unat pd" and "l = unat n"
  have b: "p < 65536" "l < 65536"
    using unsigned_less [of pd, where ?'a = nat] unsigned_less [of n, where ?'a = nat] by (simp_all add: p_def l_def)
  have v: "sint (word_of_int (int y - int p) :: 17 word) = (if int y - int p < 65536 then int y - int p else int y - int p - 131072)"
    using assms b by (intro sint17) simp_all
  have "(ucast n :: 17 word) = word_of_int (int l)" using ucast17_nat [of l] b by (simp add: l_def)
  then have n: "sint (ucast n :: 17 word) = int l" using sint17 [of "int l"] b by simp
  have z: "sint (0 :: 17 word) = 0" by simp
  show ?thesis
    unfolding outside_def word_sless_alt word_sle_eq p_def [symmetric] l_def [symmetric] n v z using assms b by (auto split: if_splits)
qed

lemma ucast_17_16: "(ucast (word_of_int v :: 17 word) :: u16) = word_of_int v"
  by transfer simp

lemma conv_tap_less: 
  assumes "i < conv_iters c" and "conv_ranges c"
  shows "conv_y c (i div conv_len c) (i mod conv_len c) < 131072" "conv_x c (i div conv_len c) (i mod conv_len c) < 131072"
proof -
  note q = conv_coords [OF assms(1)]
  have r: "(cv_OH c - 1) * unat (stride_h c) + cv_R c \<le> 131072" "(cv_OW c - 1) * unat (stride_w c) + cv_S c \<le> 131072"
    using assms(2) by (simp_all add: conv_ranges_def)
  have "a * s + t < 131072" if "a < n" "t < k" "(n - 1) * s + k \<le> 131072" for a t n k s :: nat
  proof -
    have "a * s \<le> (n - 1) * s" using that(1) by (intro mult_le_mono1) simp
    then show ?thesis using that(2,3) by linarith
  qed
  from this [OF q(9,5) r(1)] this [OF q(8,4) r(2)]
  show "conv_y c (i div conv_len c) (i mod conv_len c) < 131072" "conv_x c (i div conv_len c) (i mod conv_len c) < 131072"
    by (simp_all add: conv_y_def conv_x_def)
qed

text \<open>The coordinates the address generator computes are those of the tap.\<close>

lemma conv_coord:
  assumes "conv_ctrl_at c i g" and "i < conv_iters c"
  shows "coord_calc (cc_oh g) (stride_h c) (cc_r g) (pad_h c) =
      word_of_int (int (conv_y c (i div conv_len c) (i mod conv_len c)) - int (unat (pad_h c)))"
    and "coord_calc (cc_ow g) (stride_w c) (cc_s g) (pad_w c) =
      word_of_int (int (conv_x c (i div conv_len c) (i mod conv_len c)) - int (unat (pad_w c)))"
proof -
  note q = conv_coords [OF assms(2)]
  have w: "x < 65536" if "x < unat (d :: u16)" for x d using less_trans [OF that unsigned_less [of d, where ?'a = nat]] by simp
  show "coord_calc (cc_oh g) (stride_h c) (cc_r g) (pad_h c) =
      word_of_int (int (conv_y c (i div conv_len c) (i mod conv_len c)) - int (unat (pad_h c)))"
    unfolding conv_ctrl_atD [OF assms] conv_y_def by (rule coord_eq [OF w [OF q(9)] w [OF q(5)]])
  show "coord_calc (cc_ow g) (stride_w c) (cc_s g) (pad_w c) =
      word_of_int (int (conv_x c (i div conv_len c) (i mod conv_len c)) - int (unat (pad_w c)))"
    unfolding conv_ctrl_atD [OF assms] conv_x_def by (rule coord_eq [OF w [OF q(8)] w [OF q(4)]])
qed

lemma conv_pad_issued:
  assumes "conv_ctrl_at c i g" and "i < conv_iters c" and "conv_ranges c"
  shows "outside (coord_calc (cc_oh g) (stride_h c) (cc_r g) (pad_h c)) (in_h c) \<or>
      outside (coord_calc (cc_ow g) (stride_w c) (cc_s g) (pad_w c)) (in_w c) \<longleftrightarrow> lr_zero_pad (conv_iter c i)"
  unfolding conv_coord [OF assms(1,2)] outside_eq [OF conv_tap_less(1) [OF assms(2,3)]] outside_eq [OF conv_tap_less(2) [OF assms(2,3)]]
  by (auto simp: conv_iter_def conv_inside_def Let_def)

lemma conv_act_issued:
  assumes "conv_ctrl_at c i g" and "i < conv_iters c" and "\<not> lr_zero_pad (conv_iter c i)"
  shows "act_in_addr c + ucast ((ucast (ucast (coord_calc (cc_oh g) (stride_h c) (cc_r g) (pad_h c)) :: u16) * ucast (in_w c) +
      ucast (ucast (coord_calc (cc_ow g) (stride_w c) (cc_s g) (pad_w c)) :: u16)) * ucast (in_c c) + ucast (cc_c g) :: u32) =
    lr_act_addr (conv_iter c i)"
proof -
  let ?e = "i div conv_len c" and ?x = "i mod conv_len c"
  have ins: "unat (pad_h c) \<le> conv_y c ?e ?x" "unat (pad_w c) \<le> conv_x c ?e ?x"
    using assms(3) by (simp_all add: conv_iter_def conv_inside_def Let_def)
  have n: "word_of_int (int y - int p) = (word_of_nat (y - p) :: u16)" if "p \<le> y" for y p
    using that by (simp flip: of_nat_diff)
  have "lr_act_addr (conv_iter c i) = act_in_addr c + ((word_of_nat (conv_y c ?e ?x - unat (pad_h c)) * in_w c +
      word_of_nat (conv_x c ?e ?x - unat (pad_w c))) * in_c c + word_of_nat (?x mod cv_C c))"
    by (simp add: conv_iter_def conv_act_index_def Let_def)
  then show ?thesis
    unfolding conv_coord [OF assms(1,2)] ucast_17_16 n [OF ins(1)] n [OF ins(2)] ucast16_add ucast16_mult ucast16_up
      conv_ctrl_atD(3) [OF assms(1,2)] by simp
qed

lemma conv_wt_issued:
  assumes "conv_ctrl_at c i g" and "i < conv_iters c"
  shows "weight_addr c + ucast (((ucast (cc_k g) * ucast (filt_r c) + ucast (cc_r g)) * ucast (filt_s c) + ucast (cc_s g)) * ucast (in_c c) +
      ucast (cc_c g) :: u32) = lr_wt_addr (conv_iter c i)"
proof -
  let ?e = "i div conv_len c" and ?x = "i mod conv_len c"
  have "?e mod cv_K c * conv_len c + ?x =
      ((?e mod cv_K c * cv_R c + ?x div cv_C c div cv_S c) * cv_S c + ?x div cv_C c mod cv_S c) * cv_C c + ?x mod cv_C c"
  proof -
    have "?x = (?x div cv_C c div cv_S c * cv_S c + ?x div cv_C c mod cv_S c) * cv_C c + ?x mod cv_C c" by simp
    then show ?thesis unfolding conv_len_def [of c] by (simp only: distrib_right add.assoc mult.assoc)
  qed
  then have "lr_wt_addr (conv_iter c i) = weight_addr c + word_of_nat
      (((?e mod cv_K c * cv_R c + ?x div cv_C c div cv_S c) * cv_S c + ?x div cv_C c mod cv_S c) * cv_C c + ?x mod cv_C c)"
    unfolding conv_iter_def Let_def by (simp only: load_request.simps)
  then show ?thesis
    unfolding ucast16_add ucast16_mult ucast16_up conv_ctrl_atD(3-6) [OF assms] by simp
qed

section \<open>The sequencer and the address generator, clock by clock\<close>

text \<open>What the address generator has still to add up comes out as the addresses of iteration \<open>i\<close>.\<close>

definition conv_stage :: "conv_cmd_t \<Rightarrow> nat \<Rightarrow> nat \<Rightarrow> conv_addr_gen \<Rightarrow> bool" where
  "conv_stage c i p a =
     (let x = conv_iter c i; pad = lr_zero_pad x
      in if p = 1 then ca_state a = CA_STAGE1 \<and> zero_pad_s1 a = pad \<and>
           (\<not> pad \<longrightarrow> act_base_s1 a + ucast ((act_m1_s1 a + ucast (iw_u_s1 a)) * ucast (in_c_s1 a) + ucast (c_s1 a)) = lr_act_addr x) \<and>
           wt_base_s1 a + ucast (((wt_m1_s1 a + ucast (r_s1 a)) * ucast (filt_s_s1 a) + ucast (s_s1 a)) * ucast (in_c_s1 a) +
             ucast (c_s1 a)) = lr_wt_addr x
         else if p = 2 then ca_state a = CA_STAGE2 \<and> zero_pad_s2 a = pad \<and>
           (\<not> pad \<longrightarrow> act_base_s2 a + ucast (act_m2_s2 a + ucast (c_s2 a)) = lr_act_addr x) \<and>
           wt_base_s2 a + ucast ((wt_m2_s2 a + ucast (s_s2 a)) * ucast (in_c_s2 a) + ucast (c_s2 a)) = lr_wt_addr x
         else if p = 3 then ca_state a = CA_STAGE3 \<and> zero_pad_s3 a = pad \<and>
           (\<not> pad \<longrightarrow> act_base_s3 a + act_idx_s3 a = lr_act_addr x) \<and> wt_base_s3 a + wt_idx_s3 a = lr_wt_addr x
         else ca_state a = CA_OUT \<and> ca_zero_pad_r a = pad \<and> (\<not> pad \<longrightarrow> ca_act_addr_r a = lr_act_addr x) \<and>
           ca_wt_addr_r a = lr_wt_addr x)"

definition conv_front :: "conv_cmd_t \<Rightarrow> nat \<Rightarrow> nat \<Rightarrow> conv_backend \<Rightarrow> bool" where
  "conv_front c p i g = (cc_cmd (cb_ctrl g) = c \<and> (if i < conv_iters c
     then if p = 0 then conv_ctrl_at c i (cb_ctrl g) \<and> ca_state (cb_addr_gen g) = CA_IDLE \<and>
         conv_counted c (i div conv_len c) (first_last_inner_seen_r g) (cb_iter_r g)
       else conv_ctrl_at c (Suc i) (cb_ctrl g) \<and> conv_stage c i p (cb_addr_gen g) \<and> matches (conv_iter c i) (cb_iter_r g) \<and>
         conv_counted c (Suc i div conv_len c) (first_last_inner_seen_r g) (cb_iter_r g)
     else ca_state (cb_addr_gen g) = CA_IDLE \<and>
       cc_state (cb_ctrl g) = (if p = 0 then CV_DRAIN else if p = 1 then CV_DONE else CV_IDLE)))"

lemmas conv_step_simps = conv_backend_step_def conv_iter_ready_def conv_iter_valid_def conv_addr_valid_def load_ready_def
  conv_addr_gen_step_def Let_def

lemma conv_front_first:
  assumes "conv_front c 0 i g" and "conv_ranges c"
  shows "conv_front c 1 i (conv_backend_step False cmd inp g)"
proof (cases "i < conv_iters c")
  case True
  have f: "conv_ctrl_at c i (cb_ctrl g)" "ca_state (cb_addr_gen g) = CA_IDLE"
    "conv_counted c (i div conv_len c) (first_last_inner_seen_r g) (cb_iter_r g)"
    using assms(1) True by (simp_all add: conv_front_def)
  note g = conv_ctrl_atD [OF f(1) True]
  have a: "conv_ctrl_at c (Suc i) (conv_ctrl_step False cmd True (cb_ctrl g))" by (rule conv_ctrl_advance [OF f(1) True])
  then have cmd: "cc_cmd (conv_ctrl_step False cmd True (cb_ctrl g)) = c" by (simp add: conv_ctrl_at_def)
  have st: "conv_stage c i 1 (conv_addr_gen_step True (load_ready (dp_loader (cb_data g))) (cb_ctrl g) (cb_addr_gen g))"
    using conv_pad_issued [OF f(1) True assms(2)] conv_act_issued [OF f(1) True] conv_wt_issued [OF f(1) True] f(2) g(1)
    unfolding conv_stage_def Let_def by (simp add: conv_addr_gen_step_def Let_def)
  show ?thesis
    using True f(2) g(1,2) a cmd st conv_meta_issued [OF f(1) True f(3)]
    by (cases "cc_inner_last (cb_ctrl g)")
      (simp_all add: conv_front_def conv_backend_step_def conv_iter_ready_def conv_iter_valid_def Let_def)
next
  case False
  then show ?thesis using assms(1) by (simp add: conv_front_def conv_step_simps conv_ctrl_step_def)
qed

lemma conv_front_later:
  assumes "conv_front c p i g" and "0 < p" and "p < 4"
  shows "conv_front c (Suc p) i (conv_backend_step False cmd inp g)"
proof (cases "i < conv_iters c")
  case True
  have f: "conv_ctrl_at c (Suc i) (cb_ctrl g)" "conv_stage c i p (cb_addr_gen g)" "matches (conv_iter c i) (cb_iter_r g)"
    "conv_counted c (Suc i div conv_len c) (first_last_inner_seen_r g) (cb_iter_r g)"
    using assms True by (simp_all add: conv_front_def)
  consider "p = 1" | "p = 2" | "p = 3" using assms(2,3) by linarith
  then have n: "ca_state (cb_addr_gen g) \<noteq> CA_IDLE" and st: "conv_stage c i (Suc p) (conv_addr_gen_step iv r ctrl (cb_addr_gen g))" for iv r ctrl
    using f(2) by (cases; simp add: conv_stage_def conv_addr_gen_step_def Let_def)+
  have w: "conv_ctrl_at c (Suc i) (conv_ctrl_step False cmd False (cb_ctrl g))" by (rule conv_ctrl_wait [OF f(1)])
  then have "cc_cmd (conv_ctrl_step False cmd False (cb_ctrl g)) = c" by (simp add: conv_ctrl_at_def)
  then show ?thesis using True f w n st assms(2) by (simp add: conv_front_def conv_backend_step_def conv_iter_ready_def Let_def)
next
  case False
  then show ?thesis using assms by (simp add: conv_front_def conv_step_simps conv_ctrl_step_def)
qed

lemma conv_front_taken:
  assumes "conv_front c 4 i g" and "i < conv_iters c" and "ld_state (dp_loader (cb_data g)) = LD_IDLE"
  shows "conv_front c 0 (Suc i) (conv_backend_step False cmd inp g)"
proof -
  have f: "conv_ctrl_at c (Suc i) (cb_ctrl g)" "ca_state (cb_addr_gen g) = CA_OUT"
    "conv_counted c (Suc i div conv_len c) (first_last_inner_seen_r g) (cb_iter_r g)"
    using assms by (simp_all add: conv_front_def conv_stage_def Let_def)
  have w: "conv_ctrl_at c (Suc i) (conv_ctrl_step False cmd False (cb_ctrl g))" by (rule conv_ctrl_wait [OF f(1)])
  then have "cc_cmd (conv_ctrl_step False cmd False (cb_ctrl g)) = c" by (simp add: conv_ctrl_at_def)
  moreover have "\<not> Suc i < conv_iters c \<Longrightarrow> cc_state (conv_ctrl_step False cmd False (cb_ctrl g)) = CV_DRAIN"
    using w by (simp add: conv_ctrl_at_def)
  ultimately show ?thesis using f w assms(3) by (simp add: conv_front_def conv_step_simps)
qed

section \<open>The sequencer is one for the engine\<close>

definition conv_seq :: "conv_cmd_t \<Rightarrow> nat \<Rightarrow> nat \<Rightarrow> conv_backend \<Rightarrow> bool" where
  "conv_seq c p j g = (conv_ranges c \<and> cc_cmd (cb_ctrl g) = c \<and>
     (if conv_iters c \<le> j then cc_state (cb_ctrl g) = CV_IDLE \<and> ca_state (cb_addr_gen g) = CA_IDLE else conv_front c p (Suc j) g) \<and>
     (Suc j < conv_iters c \<or> j < conv_iters c \<and> p \<le> 1 \<longrightarrow> \<not> cb_finished g))"

lemma conv_tick_sel [simp]:
  "fst (conv_tick cv cmd h s) = conv_backend_step cv cmd (backend_inputs (datapath_ports (cb_data (fst s))) (snd s)) (fst s)"
  "snd (conv_tick cv cmd h s) = router_step h (datapath_ports (cb_data (fst s))) (snd s)"
  by (simp_all add: conv_tick_def Let_def)

lemma conv_tick_data:
  "(cb_data (fst (conv_tick cv cmd h s)), snd (conv_tick cv cmd h s)) =
    datapath_tick (conv_addr_valid (fst s)) (conv_request (fst s)) (quant_shift (cc_cmd (cb_ctrl (fst s))))
      (act_mode (cc_cmd (cb_ctrl (fst s)))) h (cb_data (fst s), snd s)"
  by (simp add: datapath_tick_def conv_backend_step_def Let_def)

lemma conv_act_index_less:
  assumes "i < conv_iters c" and "\<not> lr_zero_pad (conv_iter c i)"
  shows "conv_act_index c (i div conv_len c) (i mod conv_len c) < cv_H c * cv_W c * cv_C c"
proof -
  let ?e = "i div conv_len c" and ?x = "i mod conv_len c"
  have "conv_y c ?e ?x - unat (pad_h c) < cv_H c" "conv_x c ?e ?x - unat (pad_w c) < cv_W c"
    using assms(2) by (auto simp: conv_iter_def conv_inside_def Let_def)
  then show ?thesis using conv_coords(3) [OF assms(1)] unfolding conv_act_index_def by (intro radix_less)
qed

lemma conv_reads_safe:
  assumes "conv_ranges c"
  shows "reads_safe (conv_iter c) (conv_iters c)"
  unfolding reads_safe_def
proof (intro allI impI)
  fix i j
  assume i: "i < j" and j: "j < conv_iters c" and np: "\<not> lr_zero_pad (conv_iter c j)"
  then have "i div conv_len c < conv_outs c" by (intro conv_coords) simp
  moreover note conv_act_index_less [OF j np]
  moreover have "unat (act_in_addr c) + cv_H c * cv_W c * cv_C c \<le> 8192" "unat (act_out_addr c) + conv_outs c \<le> 8192"
    "unat (act_out_addr c) + conv_outs c \<le> unat (act_in_addr c) \<or>
      unat (act_in_addr c) + cv_H c * cv_W c * cv_C c \<le> unat (act_out_addr c)"
    using assms by (simp_all add: conv_ranges_def)
  ultimately have "(ucast (act_out_addr c + word_of_nat (i div conv_len c)) :: 13 word) \<noteq>
      ucast (act_in_addr c + word_of_nat (conv_act_index c (j div conv_len c) (j mod conv_len c)))"
    by (intro act_cells_apart [where n = "conv_outs c" and k = "cv_H c * cv_W c * cv_C c"]) linarith+
  then show "(ucast (out_addr (conv_iter c i)) :: 13 word) \<noteq> ucast (lr_act_addr (conv_iter c j))"
    by (simp add: conv_iter_def conv_out_at_def Let_def)
qed

lemma conv_loads:
  assumes "conv_seq c p j g" and "p \<le> 4"
  shows "load_ok (conv_iter c) (conv_iters c) p j (conv_addr_valid g) (conv_request g) (cb_data g)"
proof -
  have "p = 0 \<or> p = 1 \<or> p = 2 \<or> p = 3 \<or> p = 4" using assms(2) by linarith
  then show ?thesis
    using assms(1)
    by (auto simp: conv_seq_def load_ok_def conv_addr_valid_def conv_front_def conv_stage_def conv_request_def presents_def Let_def
        split: if_splits)
qed

lemma conv_finished_step:
  "cb_finished (conv_backend_step cv cmd i g) \<longleftrightarrow> \<not> pipe_empty (cb_data g) \<and> (cc_state (cb_ctrl g) = CV_DONE \<or> cb_finished g)"
  by (auto simp: conv_backend_step_def conv_done_def Let_def)

lemma conv_front_state:
  assumes "conv_front c p i g" and "p \<noteq> 1 \<or> i < conv_iters c"
  shows "cc_state (cb_ctrl g) \<noteq> CV_DONE"
  using assms by (auto simp: conv_front_def conv_ctrl_at_def Let_def split: if_splits)

lemma conv_next:
  assumes "conv_seq c p j g" and "p \<le> 4" and "j \<le> conv_iters c" and "loader_in_step (conv_iter c) (conv_iters c) p j (cb_data g)"
  shows "if p = 4 then conv_seq c 0 (Suc j) (conv_backend_step False cmd i g) else conv_seq c (Suc p) j (conv_backend_step False cmd i g)"
proof -
  let ?g = "conv_backend_step False cmd i g"
  have r: "conv_ranges c" and cmd: "cc_cmd (cb_ctrl ?g) = c"
    using assms(1) by (simp_all add: conv_seq_def conv_backend_step_def conv_ctrl_step_def Let_def)
  show ?thesis
  proof (cases "conv_iters c \<le> j")
    case True
    then show ?thesis using assms(1,3) r cmd by (auto simp: conv_seq_def conv_step_simps conv_ctrl_step_def)
  next
    case False
    have f: "conv_front c p (Suc j) g" "Suc j < conv_iters c \<or> p \<le> 1 \<Longrightarrow> \<not> cb_finished g"
      using assms(1) False by (auto simp: conv_seq_def)
    have nf: "Suc j < conv_iters c \<or> p = 0 \<Longrightarrow> \<not> cb_finished ?g"
      using f conv_front_state [OF f(1)] conv_finished_step by auto
    consider "p = 0" | "0 < p \<and> p < 4" | "p = 4" using assms(2) by linarith
    then show ?thesis
    proof cases
      case 1
      then show ?thesis using False r cmd conv_front_first [OF _ r, of "Suc j" g] f nf by (simp add: conv_seq_def)
    next
      case 2
      then show ?thesis using False r cmd conv_front_later [OF f(1)] nf by (auto simp: conv_seq_def)
    next
      case 3
      have l: "ld_state (dp_loader (cb_data g)) = LD_IDLE" using assms(4) 3 False by (simp add: loader_in_step_def)
      show ?thesis
      proof (cases "Suc j < conv_iters c")
        case True
        then show ?thesis using 3 f(1) r cmd conv_front_taken [OF _ True l] nf by (simp add: conv_seq_def)
      next
        case False
        then show ?thesis using 3 f(1) r cmd by (auto simp: conv_seq_def conv_front_def conv_step_simps conv_ctrl_step_def)
      qed
    qed
  qed
qed

interpretation cm: sequencer cb_data "conv_tick False cmd" "conv_seq c" "conv_iter c" "conv_iters c" "quant_shift c" "act_mode c"
  for c cmd
proof
  fix p j h and g :: conv_backend and b :: buffers
  assume s: "conv_seq c p j g"
  then show "reads_safe (conv_iter c) (conv_iters c)" by (intro conv_reads_safe) (simp add: conv_seq_def)
  assume p: "p \<le> 4" "j \<le> conv_iters c" and l: "loader_in_step (conv_iter c) (conv_iters c) p j (cb_data g)"
  show "\<exists>lv r. load_ok (conv_iter c) (conv_iters c) p j lv r (cb_data g) \<and>
      (cb_data (fst (conv_tick False cmd h (g, b))), snd (conv_tick False cmd h (g, b))) =
        datapath_tick lv r (quant_shift c) (act_mode c) h (cb_data g, b)"
    using conv_loads [OF s p(1)] conv_tick_data [of False cmd h "(g, b)"] s by (auto simp: conv_seq_def)
  show "if p = 4 then conv_seq c 0 (Suc j) (fst (conv_tick False cmd h (g, b)))
      else conv_seq c (Suc p) j (fst (conv_tick False cmd h (g, b)))"
    using conv_next [OF s p l] by simp
qed

section \<open>From the command to the last result\<close>

definition conv_idle :: "conv_backend \<Rightarrow> bool" where
  "conv_idle g = (at_rest (cb_data g) \<and> flight None None None None None False (cb_data g) \<and>
     cc_state (cb_ctrl g) = CV_IDLE \<and> ca_state (cb_addr_gen g) = CA_IDLE \<and> \<not> cb_finished g)"

lemma conv_clocks_simps:
  "conv_clocks cmd [] s = s" "conv_clocks cmd (h # hs) s = conv_clocks cmd hs (conv_tick False cmd h s)"
  "conv_clocks cmd (xs @ ys) s = conv_clocks cmd ys (conv_clocks cmd xs s)"
  by (simp_all add: conv_clocks_def)

text \<open>The clocks after the one that accepts the command, before the first iteration is handed over.\<close>

definition conv_started :: "conv_cmd_t \<Rightarrow> nat \<Rightarrow> conv_backend \<Rightarrow> bool" where
  "conv_started c k g = (conv_ranges c \<and> \<not> cb_finished g \<and>
     (if k = 0 then cc_state (cb_ctrl g) = CV_LOAD_CFG \<and> cc_cmd (cb_ctrl g) = c \<and> ca_state (cb_addr_gen g) = CA_IDLE \<and>
        \<not> first_last_inner_seen_r g
      else conv_front c (k - 1) 0 g))"

lemma conv_iters_pos: "conv_ranges c \<Longrightarrow> 0 < conv_iters c"
  by (simp add: conv_ranges_def conv_iters_def)

lemma conv_started_state:
  assumes "conv_started c k g" and "k \<le> 5"
  shows "cc_state (cb_ctrl g) \<noteq> CV_DONE" and "k < 5 \<Longrightarrow> \<not> conv_addr_valid g" and "k = 5 \<Longrightarrow> conv_addr_valid g"
  using assms conv_iters_pos [of c]
  by (auto simp: conv_started_def conv_front_def conv_ctrl_at_def conv_stage_def conv_addr_valid_def Let_def split: if_splits)

interpretation cr: command_run cb_data "conv_tick False cmd" "conv_seq c" "conv_iter c" "conv_iters c" "quant_shift c" "act_mode c"
    5 "conv_started c"
  for c cmd
proof
  fix k h and g :: conv_backend and b :: buffers
  let ?t = "conv_tick False cmd h (g, b)"
  have t: "(cb_data (fst ?t), snd ?t) = datapath_tick (conv_addr_valid g) (conv_request g) (quant_shift (cc_cmd (cb_ctrl g)))
      (act_mode (cc_cmd (cb_ctrl g))) h (cb_data g, b)"
    using conv_tick_data [of False cmd h "(g, b)"] by simp
  show "conv_started c (Suc k) (fst ?t) \<and> (\<exists>r q' mode'. (cb_data (fst ?t), snd ?t) = datapath_tick False r q' mode' h (cb_data g, b))"
    if s: "conv_started c k g" and k: "k < 5"
  proof -
    have T: "0 < conv_iters c" and r: "conv_ranges c" using s conv_iters_pos by (simp_all add: conv_started_def)
    have nf: "\<not> cb_finished (fst ?t)" using s k conv_started_state(1) [OF s] by (simp add: conv_finished_step conv_started_def)
    consider "k = 0" | "k = 1" | "1 < k" by linarith
    then have "conv_started c (Suc k) (fst ?t)"
    proof cases
      case 1
      then show ?thesis
        using s nf T by (simp add: conv_started_def conv_front_def conv_ctrl_at_def conv_counted_def conv_step_simps conv_ctrl_step_def)
    next
      case 2
      then show ?thesis using s nf conv_front_first [OF _ r, of 0 g] by (simp add: conv_started_def)
    next
      case 3
      then show ?thesis using s nf k conv_front_later [of c "k - 1" 0 g] by (simp add: conv_started_def)
    qed
    then show ?thesis using t conv_started_state(2) [OF s] k by auto
  qed
  show "conv_seq c 0 0 (fst ?t) \<and> 0 < conv_iters c \<and> is_first (conv_iter c 0) \<and> (\<exists>r q' mode'. presents (conv_iter c 0) r \<and>
      (cb_data (fst ?t), snd ?t) = datapath_tick True r q' mode' h (cb_data g, b))"
    if s: "conv_started c 5 g" and l: "ld_state (dp_loader (cb_data g)) = LD_IDLE"
  proof -
    have T: "0 < conv_iters c" and r: "conv_ranges c" using s conv_iters_pos by (simp_all add: conv_started_def)
    have f: "conv_front c 4 0 g" using s by (simp add: conv_started_def)
    have "\<not> cb_finished (fst ?t)" using s conv_started_state(1) [OF s] by (simp add: conv_finished_step conv_started_def)
    moreover have "conv_front c 0 (Suc 0) (fst ?t)" using conv_front_taken [OF f T l] by simp
    ultimately have "conv_seq c 0 0 (fst ?t)" using T r by (simp add: conv_seq_def conv_front_def)
    moreover have "presents (conv_iter c 0) (conv_request g)" "is_first (conv_iter c 0)"
      using f T by (simp_all add: conv_front_def conv_stage_def presents_def conv_request_def conv_iter_def Let_def)
    ultimately show ?thesis using t conv_started_state(3) [OF s] T by auto
  qed
  show "\<exists>r q' mode'. (cb_data (fst ?t), snd ?t) = datapath_tick False r q' mode' h (cb_data g, b)" if "conv_seq c 0 (Suc (conv_iters c)) g"
  proof -
    have "\<not> conv_addr_valid g" using that by (simp add: conv_seq_def conv_addr_valid_def)
    then show ?thesis using t by auto
  qed
qed

lemma conv_accepts:
  assumes "conv_idle g" and "\<not> bias_pending_r b" and "conv_ranges c" and "silent h"
  shows "conv_started c 0 (fst (conv_tick True c h (g, b)))"
    and "engine_idle (local_of b) (cb_data (fst (conv_tick True c h (g, b))), snd (conv_tick True c h (g, b)))"
proof -
  have g: "cc_state (cb_ctrl g) = CV_IDLE" "ca_state (cb_addr_gen g) = CA_IDLE" "\<not> cb_finished g"
    using assms(1) by (simp_all add: conv_idle_def)
  have "\<not> cb_finished (fst (conv_tick True c h (g, b)))" using g by (simp add: conv_finished_step)
  then show "conv_started c 0 (fst (conv_tick True c h (g, b)))"
    using g assms(3) by (simp add: conv_started_def conv_step_simps conv_ctrl_step_def conv_cmd_ready_def)
  have "engine_idle (local_of b) (cb_data (fst (g, b)), snd (g, b))" using assms(1,2) by (simp add: conv_idle_def engine_idle_def)
  then show "engine_idle (local_of b) (cb_data (fst (conv_tick True c h (g, b))), snd (conv_tick True c h (g, b)))"
    unfolding conv_tick_data using g(2) by (intro idle_clock assms(4)) (simp_all add: conv_addr_valid_def)
qed

lemma conv_reaches:
  assumes "conv_idle g" and "\<not> bias_pending_r b" and "conv_ranges c" and "\<forall>h \<in> set (h0 # hs). silent h"
  shows "length hs = 6 + (5 * j + p) \<Longrightarrow> p \<le> 4 \<Longrightarrow> j \<le> conv_iters c \<Longrightarrow>
      cm.at c (local_of b) p j (conv_clocks cmd hs (conv_tick True c h0 (g, b)))"
    and "length hs = 6 + (5 * conv_iters c + 5) \<Longrightarrow>
      cm.at c (local_of b) 0 (Suc (conv_iters c)) (conv_clocks cmd hs (conv_tick True c h0 (g, b)))"
proof -
  have s: "silent h0" "\<forall>h \<in> set hs. silent h" using assms(4) by simp_all
  note r = cr.run_reaches [OF conv_accepts [OF assms(1-3) s(1)] s(2), where cmd = cmd, folded conv_clocks_def]
  show "length hs = 6 + (5 * j + p) \<Longrightarrow> p \<le> 4 \<Longrightarrow> j \<le> conv_iters c \<Longrightarrow>
      cm.at c (local_of b) p j (conv_clocks cmd hs (conv_tick True c h0 (g, b)))"
    "length hs = 6 + (5 * conv_iters c + 5) \<Longrightarrow>
      cm.at c (local_of b) 0 (Suc (conv_iters c)) (conv_clocks cmd hs (conv_tick True c h0 (g, b)))"
    using r by simp_all
qed

abbreviation conv_result :: "conv_cmd_t \<Rightarrow> local_mem \<Rightarrow> nat \<Rightarrow> local_mem" where
  "conv_result c m \<equiv> written (requantize (quant_shift c) (act_mode c)) m (conv_iter c)"

lemma conv_whole_run:
  assumes "conv_idle g" and "\<not> bias_pending_r b" and "conv_ranges c" and "\<forall>h \<in> set (h0 # hs). silent h"
    and "length hs = 13 + 5 * conv_iters c" and s: "s = conv_clocks cmd hs (conv_tick True c h0 (g, b))"
  shows "conv_idle (fst s)" "\<not> bias_pending_r (snd s)" "local_of (snd s) = conv_result c (local_of b) (conv_iters c)"
proof -
  have "length hs = (Suc 5 + (5 * conv_iters c + 5)) + 2" using assms(5) by simp
  then obtain xs ys where h: "hs = xs @ ys" "length xs = Suc 5 + (5 * conv_iters c + 5)" "length ys = 2" by (rule take_drop_at)
  obtain k0 k1 where ys: "ys = [k0, k1]" using h(3) by (auto simp: eval_nat_numeral length_Suc_conv)
  have sil: "silent h0" "\<forall>h \<in> set xs. silent h" "silent k0" "silent k1" using assms(4) h(1) ys by auto
  define u where "u = conv_clocks cmd xs (conv_tick True c h0 (g, b))"
  define v where "v = conv_tick False cmd k0 u"
  note i = cr.run_idle [OF conv_accepts [OF assms(1-3) sil(1)] sil(2,3) h(2), where cmd = cmd, folded conv_clocks_def, folded u_def,
      folded v_def]
  have v: "cc_state (cb_ctrl (fst v)) = CV_IDLE" "ca_state (cb_addr_gen (fst v)) = CA_IDLE" "\<not> conv_addr_valid (fst v)"
    using i(1) by (simp_all add: conv_seq_def v_def conv_step_simps conv_ctrl_step_def)
  have s: "s = conv_tick False cmd k1 v" by (simp add: s h(1) ys conv_clocks_simps u_def v_def)
  have q: "engine_idle (conv_result c (local_of b) (conv_iters c)) (cb_data (fst s), snd s)"
    unfolding s conv_tick_data using i(2) v(3) sil(4) by (intro idle_clock) simp_all
  have "pipe_empty (cb_data (fst v))" using i(2) flight_empty by (auto simp: engine_idle_def)
  then have "\<not> cb_finished (fst s)" by (simp add: s conv_finished_step)
  moreover have "cc_state (cb_ctrl (fst s)) = CV_IDLE" "ca_state (cb_addr_gen (fst s)) = CA_IDLE"
    using v by (simp_all add: s conv_step_simps conv_ctrl_step_def)
  ultimately show "conv_idle (fst s)" "\<not> bias_pending_r (snd s)" "local_of (snd s) = conv_result c (local_of b) (conv_iters c)"
    using q by (simp_all add: conv_idle_def engine_idle_def)
qed

section \<open>What the memory holds afterwards\<close>

lemma conv_dots: "conv_ranges c \<Longrightarrow> dots (conv_iter c) (conv_len c) (act_out_addr c)"
  by (auto simp: dots_def conv_iter_def conv_ranges_def conv_out_at_def Let_def)

lemma conv_result_act:
  assumes "conv_ranges c"
  shows "lm_act (conv_result c m (e * conv_len c)) = act_written (act_out_addr c) (conv_out c m) e (lm_act m)"
proof -
  have "conv_out c m = requantize (quant_shift c) (act_mode c) \<circ> dot_sum m (conv_iter c) (conv_len c)"
    by (simp add: fun_eq_iff conv_out_def)
  then show ?thesis by (simp only: written_dots [OF conv_dots [OF assms]])
qed

lemma sum_radix: "(\<Sum>i<A * B. f i) = (\<Sum>a<A. \<Sum>b<B. f (a * B + b))" for f :: "nat \<Rightarrow> int"
proof -
  have "sum f {m..<m + B} = (\<Sum>b<B. f (m + b))" for m
    using sum.shift_bounds_nat_ivl [of f 0 m B] by (simp add: lessThan_atLeast0 add.commute)
  then show ?thesis by (simp flip: sum.nat_group)
qed

lemma conv_len_le: "conv_ranges c \<Longrightarrow> conv_len c \<le> 4096"
proof -
  assume r: "conv_ranges c"
  then have "0 < cv_K c" by (simp add: conv_ranges_def conv_outs_def)
  then have "conv_len c \<le> cv_K c * conv_len c" by simp
  moreover have "cv_K c * conv_len c \<le> 4096" using r by (simp add: conv_ranges_def)
  ultimately show ?thesis by linarith
qed

text \<open>Element \<open>(r, s, ch)\<close> of the dot product of output \<open>e\<close>, and the bias of its channel.\<close>

lemma conv_term:
  assumes "conv_ranges c" and "e < conv_outs c" and "r < cv_R c" and "s < cv_S c" and "ch < cv_C c"
  defines "it \<equiv> conv_iter c (e * conv_len c + ((r * cv_S c + s) * cv_C c + ch))"
  shows "sint (operand_act m it) * sint (operand_wt m it) =
    (case padded (act_bytes m (act_in_addr c) (cv_H c * cv_W c * cv_C c)) (cv_H c) (cv_W c) (cv_C c) (unat (pad_h c)) (unat (pad_w c))
        (e div cv_K c div cv_OW c * unat (stride_h c) + r) (e div cv_K c mod cv_OW c * unat (stride_w c) + s) ch
      of None \<Rightarrow> 0 | Some a \<Rightarrow> sint a) *
    sint (wt_bytes m (weight_addr c) (cv_K c * conv_len c) ! (((e mod cv_K c * cv_R c + r) * cv_S c + s) * cv_C c + ch))"
proof -
  define x where "x = (r * cv_S c + s) * cv_C c + ch"
  have x: "x < conv_len c" unfolding x_def conv_len_def using assms(3-5) by (intro radix_less)
  have d: "x div cv_C c = r * cv_S c + s" "x mod cv_C c = ch" "x div cv_C c div cv_S c = r" "x div cv_C c mod cv_S c = s"
    unfolding x_def group_index [OF assms(5)] group_index [OF assms(4)] by (rule refl)+
  have j: "(e * conv_len c + x) div conv_len c = e" "(e * conv_len c + x) mod conv_len c = x"
    using group_index [OF x] by simp_all
  have e: "e * conv_len c + x < conv_iters c" unfolding conv_iters_def by (rule index2_less [OF assms(2) x])
  have it: "lr_zero_pad it = (\<not> conv_inside c e x)" "lr_act_addr it = act_in_addr c + word_of_nat (conv_act_index c e x)"
    "lr_wt_addr it = weight_addr c + word_of_nat (e mod cv_K c * conv_len c + x)"
    using j x by (simp_all add: it_def conv_iter_def Let_def flip: x_def)
  have pad: "padded act (cv_H c) (cv_W c) (cv_C c) (unat (pad_h c)) (unat (pad_w c))
        (e div cv_K c div cv_OW c * unat (stride_h c) + r) (e div cv_K c mod cv_OW c * unat (stride_w c) + s) ch =
      (if conv_inside c e x then Some (act ! conv_act_index c e x) else None)" for act
    unfolding padded_def conv_inside_def conv_act_index_def conv_y_def conv_x_def d(3,4) d(2) by simp
  show ?thesis
  proof (cases "conv_inside c e x")
    case True
    have "conv_act_index c e x < cv_H c * cv_W c * cv_C c"
      using conv_act_index_less [OF e] True it(1) unfolding j it_def x_def [symmetric] by simp
    then have "lm_act m (ucast (lr_act_addr it)) = act_bytes m (act_in_addr c) (cv_H c * cv_W c * cv_C c) ! conv_act_index c e x"
      unfolding it(2) using assms(1)
      by (subst bank_addr [where n = "cv_H c * cv_W c * cv_C c"]) (simp_all add: conv_ranges_def act_bytes_def)
    moreover have k: "e mod cv_K c < cv_K c" using assms(1) by (simp add: conv_ranges_def conv_outs_def)
    have w: "e mod cv_K c * conv_len c + x < cv_K c * conv_len c" by (rule index2_less [OF k x])
    have "lm_wt m (ucast (lr_wt_addr it)) = wt_bytes m (weight_addr c) (cv_K c * conv_len c) ! (e mod cv_K c * conv_len c + x)"
      unfolding it(3) using assms(1) w
      by (subst bank_addr [where n = "cv_K c * conv_len c"]) (simp_all add: conv_ranges_def wt_bytes_def)
    moreover have "e mod cv_K c * conv_len c + x = ((e mod cv_K c * cv_R c + r) * cv_S c + s) * cv_C c + ch"
      by (simp add: conv_len_def x_def algebra_simps)
    ultimately show ?thesis using True by (simp add: operand_act_def operand_wt_def it(1) pad)
  qed (simp add: operand_act_def it(1) pad)
qed

lemma conv_out_ref:
  assumes "conv_ranges c" and "e < conv_outs c" and "act_mode c \<noteq> 3"
  shows "conv_out c m e = requantized (unat (quant_shift c)) (ucast (act_mode c))
    (conv_acc (act_bytes m (act_in_addr c) (cv_H c * cv_W c * cv_C c)) (wt_bytes m (weight_addr c) (cv_K c * conv_len c))
      (wt_bytes m (bias_addr c) (cv_K c)) (cv_H c) (cv_W c) (cv_C c) (cv_R c) (cv_S c) (unat (stride_h c)) (unat (stride_w c))
      (unat (pad_h c)) (unat (pad_w c)) (e div cv_K c div cv_OW c) (e div cv_K c mod cv_OW c) (e mod cv_K c))"
proof -
  have L: "conv_len c \<le> 8192" "conv_len c - 1 < conv_len c" using conv_len_le [OF assms(1)] assms(1) by (simp_all add: conv_ranges_def)
  have k: "e mod cv_K c < cv_K c" using assms(1) by (simp add: conv_ranges_def conv_outs_def)
  let ?t = "\<lambda>i. sint (operand_act m (conv_iter c (e * conv_len c + i))) * sint (operand_wt m (conv_iter c (e * conv_len c + i)))"
  have "(\<Sum>i<conv_len c. ?t i) = (\<Sum>r<cv_R c. \<Sum>s<cv_S c. \<Sum>ch<cv_C c. ?t ((r * cv_S c + s) * cv_C c + ch))"
    unfolding conv_len_def sum_radix ..
  also have "\<dots> = (\<Sum>r<cv_R c. \<Sum>s<cv_S c. \<Sum>ch<cv_C c.
      (case padded (act_bytes m (act_in_addr c) (cv_H c * cv_W c * cv_C c)) (cv_H c) (cv_W c) (cv_C c) (unat (pad_h c)) (unat (pad_w c))
        (e div cv_K c div cv_OW c * unat (stride_h c) + r) (e div cv_K c mod cv_OW c * unat (stride_w c) + s) ch
      of None \<Rightarrow> 0 | Some a \<Rightarrow> sint a) *
      sint (wt_bytes m (weight_addr c) (cv_K c * conv_len c) ! (((e mod cv_K c * cv_R c + r) * cv_S c + s) * cv_C c + ch)))"
    by (intro sum.cong refl conv_term [OF assms(1,2)]) simp_all
  finally have sum: "(\<Sum>i<conv_len c. ?t i) = \<dots>" .
  have "md_bias_addr (lr_meta (conv_iter c (e * conv_len c + (conv_len c - 1)))) = bias_addr c + word_of_nat (e mod cv_K c)"
    by (simp only: conv_iter_def Let_def group_index [OF L(2)] load_request.simps iter_meta.simps)
  moreover have "lm_wt m (ucast (bias_addr c + word_of_nat (e mod cv_K c))) = wt_bytes m (bias_addr c) (cv_K c) ! (e mod cv_K c)"
    using assms(1) k by (subst bank_addr [where n = "cv_K c"]) (simp_all add: conv_ranges_def wt_bytes_def)
  moreover have "wt_bytes m (bias_addr c) (cv_K c) \<noteq> []" using k by (auto simp: wt_bytes_def)
  ultimately have "sint (dot_sum m (conv_iter c) (conv_len c) e) = conv_acc (act_bytes m (act_in_addr c) (cv_H c * cv_W c * cv_C c))
      (wt_bytes m (weight_addr c) (cv_K c * conv_len c))
      (wt_bytes m (bias_addr c) (cv_K c)) (cv_H c) (cv_W c) (cv_C c) (cv_R c) (cv_S c) (unat (stride_h c)) (unat (stride_w c))
      (unat (pad_h c)) (unat (pad_w c)) (e div cv_K c div cv_OW c) (e div cv_K c mod cv_OW c) (e mod cv_K c)"
    by (simp only: sint_dot_sum [OF L(1)] sum conv_acc_def bias_term_def if_False)
  then show ?thesis unfolding conv_out_def postproc_ref [OF assms(3)] by (simp only:)
qed

text \<open>The output has the shape the host derives, the strides are not zero and the filter fits the padded input.\<close>

definition conv_shape :: "conv_cmd_t \<Rightarrow> bool" where
  "conv_shape c = (0 < unat (stride_h c) \<and> 0 < unat (stride_w c) \<and>
     cv_R c \<le> cv_H c + 2 * unat (pad_h c) \<and> cv_S c \<le> cv_W c + 2 * unat (pad_w c) \<and>
     cv_OH c = out_dim (cv_H c) (unat (pad_h c)) (cv_R c) (unat (stride_h c)) \<and>
     cv_OW c = out_dim (cv_W c) (unat (pad_w c)) (cv_S c) (unat (stride_w c)))"

lemma conv_bytes_ref:
  assumes "conv_ranges c" and "conv_shape c" and "act_mode c \<noteq> 3"
  shows "ref_conv (act_bytes m (act_in_addr c) (cv_H c * cv_W c * cv_C c)) (wt_bytes m (weight_addr c) (cv_K c * conv_len c))
      (wt_bytes m (bias_addr c) (cv_K c)) (int (cv_H c)) (int (cv_W c)) (int (cv_C c)) (int (cv_K c)) (int (cv_R c)) (int (cv_S c))
      (int (unat (stride_h c))) (int (unat (stride_w c))) (int (unat (pad_h c))) (int (unat (pad_w c)))
      (int (unat (quant_shift c))) (ucast (act_mode c)) =
    Some (act_bytes (conv_result c m (conv_iters c)) (act_out_addr c) (conv_outs c))"
proof -
  have w: "unat (act_out_addr c) + conv_outs c \<le> 8192" and k: "0 < cv_K c"
    using assms(1) by (simp_all add: conv_ranges_def conv_outs_def)
  have sh: "0 < unat (stride_h c)" "0 < unat (stride_w c)"
    "cv_R c \<le> cv_H c + 2 * unat (pad_h c)" "cv_S c \<le> cv_W c + 2 * unat (pad_w c)"
    "out_dim (cv_H c) (unat (pad_h c)) (cv_R c) (unat (stride_h c)) = cv_OH c"
    "out_dim (cv_W c) (unat (pad_w c)) (cv_S c) (unat (stride_w c)) = cv_OW c"
    using assms(2) by (simp_all add: conv_shape_def)
  have "cv_OH c * cv_OW c \<le> conv_outs c" using k by (simp add: conv_outs_def)
  then have o: "cv_OH c * cv_OW c < 2 ^ 31" "cv_OH c * cv_OW c * cv_K c < 2 ^ 31"
    using w unfolding conv_outs_def [symmetric] by simp_all
  have l: "cv_R c * cv_S c * cv_C c \<le> 131070" using conv_len_le [OF assms(1)] by (simp add: conv_len_def)
  have n: "cv_H c * cv_W c * cv_C c < 2 ^ 31" "cv_K c * cv_R c * cv_S c * cv_C c < 2 ^ 31"
    using assms(1) by (simp_all add: conv_ranges_def conv_len_def mult.assoc)
  have d: "cv_H c + 2 * unat (pad_h c) < 2 ^ 31 - 1" "cv_W c + 2 * unat (pad_w c) < 2 ^ 31 - 1"
    using unat_u16_le [of "in_h c"] unat_u16_le [of "in_w c"] unat_u16_le [of "pad_h c"] unat_u16_le [of "pad_w c"] by simp_all
  have q: "unat (quant_shift c) < 32" using unsigned_less [of "quant_shift c", where ?'a = nat] by simp
  have len: "length (act_bytes m (act_in_addr c) (cv_H c * cv_W c * cv_C c)) = cv_H c * cv_W c * cv_C c"
    "length (wt_bytes m (weight_addr c) (cv_K c * conv_len c)) = cv_K c * cv_R c * cv_S c * cv_C c"
    "length (wt_bytes m (bias_addr c) (cv_K c)) = cv_K c"
    by (simp_all add: act_bytes_def wt_bytes_def conv_len_def)
  note ref = ref_conv_eq [OF len(1,2) disjI2 [OF len(3)] n l sh(3,4) d sh(1,2), unfolded sh(5,6), OF o q,
      of "ucast (act_mode c)"]
  have e: "conv_iters c = conv_outs c * conv_len c" by (simp add: conv_iters_def)
  have "conv_out c m i = requantized (unat (quant_shift c)) (ucast (act_mode c))
    (conv_acc (act_bytes m (act_in_addr c) (cv_H c * cv_W c * cv_C c)) (wt_bytes m (weight_addr c) (cv_K c * conv_len c))
      (wt_bytes m (bias_addr c) (cv_K c)) (cv_H c) (cv_W c) (cv_C c) (cv_R c) (cv_S c) (unat (stride_h c)) (unat (stride_w c))
      (unat (pad_h c)) (unat (pad_w c)) (i div (cv_OW c * cv_K c)) (i div cv_K c mod cv_OW c) (i mod cv_K c))"
    if "i < conv_outs c" for i
  proof -
    have "i div (cv_OW c * cv_K c) = i div cv_K c div cv_OW c" by (subst mult.commute) (rule div_mult2_eq)
    then show ?thesis by (simp only: conv_out_ref [OF assms(1) that assms(3)])
  qed
  then have "map (conv_out c m) [0..<conv_outs c] = map (\<lambda>i. requantized (unat (quant_shift c)) (ucast (act_mode c))
    (conv_acc (act_bytes m (act_in_addr c) (cv_H c * cv_W c * cv_C c)) (wt_bytes m (weight_addr c) (cv_K c * conv_len c))
      (wt_bytes m (bias_addr c) (cv_K c)) (cv_H c) (cv_W c) (cv_C c) (cv_R c) (cv_S c) (unat (stride_h c)) (unat (stride_w c))
      (unat (pad_h c)) (unat (pad_w c)) (i div (cv_OW c * cv_K c)) (i div cv_K c mod cv_OW c) (i mod cv_K c))) [0..<conv_outs c]"
    by (intro map_cong refl) simp
  then show ?thesis
    unfolding ref e act_bytes_written [OF w conv_result_act [OF assms(1)]] by (simp only: conv_outs_def)
qed

lemma conv_result_frame:
  assumes "conv_ranges c"
  shows "\<forall>x. (\<forall>e < conv_outs c. x \<noteq> ucast (conv_out_at c e)) \<longrightarrow>
    lm_act (conv_result c m (conv_iters c)) x = lm_act m x"
  unfolding conv_iters_def conv_result_act [OF assms] conv_out_at_def by (blast intro: act_written_other)

lemma demo_conv_cmd_ok:
  "conv_idle conv_reset" "\<not> bias_pending_r reset_buffers" "conv_ranges demo_conv_cmd" "conv_shape demo_conv_cmd" "conv_iters demo_conv_cmd = 36"
  by (simp_all add: conv_idle_def at_rest_def flight_def held_def queued_def datapath_reset_def loader_reset_def pe_reset_def
      postproc_reset_def pipe_reset_def skid_reset_def writer_reset_def conv_reset_def reset_buffers_def conv_ranges_def conv_shape_def conv_iters_def
      conv_len_def conv_outs_def out_dim_def demo_conv_cmd_def)

section \<open>Properties\<close>

text \<open>C15: The convolution backend computes the bench's reference function.  From idle, for a command whose
  input, weights, bias and output lie in their banks with the output apart from the input, with non-zero filter,
  channel and output dimensions, non-zero strides, a filter that fits the padded input, the output
  shape the host derives, taps of the padded image below 131072 (the 17 bits of its coordinates)
  and an activation mode other than 3, the backend is idle again five clocks per product plus 13 after the one that
  accepts the command.  The output bytes are then \<open>ref_conv\<close> of the input, weight and bias bytes;
  the weight bank and every other byte of the activation bank are unchanged.  The host is silent in the
  accepting clock and may read, but not write, in the others.\<close>

theorem conv_computes_ref_conv:
  assumes "conv_idle g" and "\<not> bias_pending_r b" and "conv_ranges c" and "conv_shape c" and "act_mode c \<noteq> 3"
    and "length hs = 5 * conv_iters c + 13" and "\<forall>h \<in> set hs. \<not> (host_req h \<and> host_wr h)"
    and "(g', b') = conv_run c (g, b) hs"
  shows "conv_idle g' \<and>
    ref_conv (act_bytes (local_of b) (act_in_addr c) (cv_H c * cv_W c * cv_C c))
      (wt_bytes (local_of b) (weight_addr c) (cv_K c * conv_len c)) (wt_bytes (local_of b) (bias_addr c) (cv_K c))
      (int (cv_H c)) (int (cv_W c)) (int (cv_C c)) (int (cv_K c)) (int (cv_R c)) (int (cv_S c))
      (int (unat (stride_h c))) (int (unat (stride_w c))) (int (unat (pad_h c))) (int (unat (pad_w c)))
      (int (unat (quant_shift c))) (ucast (act_mode c)) =
      Some (act_bytes (local_of b') (act_out_addr c) (conv_outs c)) \<and>
    lm_wt (local_of b') = lm_wt (local_of b) \<and>
    (\<forall>x. (\<forall>e < conv_outs c. x \<noteq> ucast (conv_out_at c e)) \<longrightarrow> lm_act (local_of b') x = lm_act (local_of b) x)"
proof -
  have sil: "\<forall>h \<in> set (quiet_host # hs). silent h" using assms(7) by (simp add: quiet_host_def)
  have l: "length hs = 13 + 5 * conv_iters c" using assms(6) by simp
  note r = conv_whole_run [OF assms(1-3) sil l refl, of c, folded conv_run_def, folded assms(8), simplified]
  show ?thesis
    using r(1,3) conv_bytes_ref [OF assms(3-5)] conv_result_frame [OF assms(3)] by simp
qed

theorem conv_computes_ref_conv_witness:
  "\<exists>g' b'. conv_run demo_conv_cmd (conv_reset, reset_buffers) (replicate 193 quiet_host) = (g', b') \<and> conv_idle g' \<and>
    lm_wt (local_of b') = lm_wt (local_of reset_buffers)"
proof -
  obtain g' b' where t: "(g', b') = conv_run demo_conv_cmd (conv_reset, reset_buffers) (replicate 193 quiet_host)"
    by (metis surj_pair)
  with conv_computes_ref_conv [OF demo_conv_cmd_ok(1-4) _ _ _ t] show ?thesis
    by (intro exI [of _ g'] exI [of _ b']) (simp add: demo_conv_cmd_ok(5), simp add: demo_conv_cmd_def quiet_host_def)
qed

end
