(* ===== verification/Npu_Pool.thy ===== *)
theory Npu_Pool
  imports Npu_Composite
begin

text \<open>
  The pooling composite (\<open>rtl/composites/pooling/pool_ctrl.sv\<close>, wrapped by \<open>pool_composite.sv\<close>): five
  nested loops over the output elements and their windows, maximum or average, clock by clock.
\<close>

section \<open>State machine and registers\<close>

datatype pool_state = PL_IDLE | PL_LOAD_CFG | PL_RD | PL_WAIT | PL_NEXT | PL_AVG_DIV | PL_WR | PL_DONE

text \<open>The parameter registers are latched together, as \<open>pl_cmd\<close>.\<close>

record pool_ctrl =
  pl_state :: pool_state
  pl_cmd :: pool_cmd_t
  pool_area_r :: u16
  in_wxc_r :: u16
  oh_r :: u16
  ow_r :: u16
  c_r :: u16
  oh_base_r :: u32
  ow_base_r :: u32
  out_pix_base_r :: u16
  tap_r_r :: u16
  tap_s_r :: u16
  acc_r :: u32
  has_valid_r :: bool
  div_quot_r :: u32
  div_rem_r :: u32
  div_denom_r :: u32
  div_cnt_r :: "5 word"
  div_sign_r :: bool

text \<open>Input coordinates on 33 bits, signed; a tap outside the input is skipped.\<close>

definition ih_w :: "pool_ctrl \<Rightarrow> 33 word" where
  "ih_w v = ucast (oh_base_r v) + ucast (tap_r_r v) - ucast (p_pad_h (pl_cmd v))"

definition iw_w :: "pool_ctrl \<Rightarrow> 33 word" where
  "iw_w v = ucast (ow_base_r v) + ucast (tap_s_r v) - ucast (p_pad_w (pl_cmd v))"

definition oob_w :: "pool_ctrl \<Rightarrow> bool" where
  "oob_w v = (ih_w v <s 0 \<or> ucast (p_in_h (pl_cmd v)) \<le>s ih_w v \<or>
     iw_w v <s 0 \<or> ucast (p_in_w (pl_cmd v)) \<le>s iw_w v)"

definition rd_addr_w :: "pool_ctrl \<Rightarrow> u16" where
  "rd_addr_w v = p_in_addr (pl_cmd v) + ucast (ih_w v) * in_wxc_r v + ucast (iw_w v) * p_in_c (pl_cmd v) + c_r v"

definition wr_addr_w :: "pool_ctrl \<Rightarrow> u16" where
  "wr_addr_w v = p_out_addr (pl_cmd v) + out_pix_base_r v + c_r v"

text \<open>One step of the divider: a shift and a trial subtraction.\<close>

definition div_trial_w :: "pool_ctrl \<Rightarrow> u32" where
  "div_trial_w v = 2 * div_rem_r v + of_bool (bit (div_quot_r v) 31)"

definition div_rem_next_w :: "pool_ctrl \<Rightarrow> u32" where
  "div_rem_next_w v = (if div_denom_r v \<le> div_trial_w v then div_trial_w v - div_denom_r v else div_trial_w v)"

definition div_quot_next_w :: "pool_ctrl \<Rightarrow> u32" where
  "div_quot_next_w v = 2 * div_quot_r v + of_bool (div_denom_r v \<le> div_trial_w v)"

definition signed_quot_w :: "pool_ctrl \<Rightarrow> u32" where
  "signed_quot_w v = (if div_sign_r v then - take_bit 31 (div_quot_r v) else take_bit 31 (div_quot_r v))"

definition result_w :: "pool_ctrl \<Rightarrow> u8" where
  "result_w v =
     (if \<not> p_pool_mode (pl_cmd v)
      then (if 127 <s acc_r v then 127 else if acc_r v <s - 128 then 0x80 else ucast (acc_r v))
      else (if 127 <s signed_quot_w v then 127 else if signed_quot_w v <s - 128 then 0x80 else ucast (signed_quot_w v)))"

text \<open>Comparisons with a dimension minus one are on 32 bits, the width of the literal.\<close>

definition last_inner_w :: "pool_ctrl \<Rightarrow> bool" where
  "last_inner_w v = ((ucast (tap_r_r v) :: u32) = ucast (p_pool_r (pl_cmd v)) - 1 \<and>
     (ucast (tap_s_r v) :: u32) = ucast (p_pool_s (pl_cmd v)) - 1)"

definition last_output_w :: "pool_ctrl \<Rightarrow> bool" where
  "last_output_w v = ((ucast (oh_r v) :: u32) = ucast (p_out_h (pl_cmd v)) - 1 \<and>
     (ucast (ow_r v) :: u32) = ucast (p_out_w (pl_cmd v)) - 1 \<and>
     (ucast (c_r v) :: u32) = ucast (p_in_c (pl_cmd v)) - 1)"

definition pool_next_state :: "bool \<Rightarrow> act_in \<Rightarrow> pool_ctrl \<Rightarrow> pool_state" where
  "pool_next_state cmd_valid i v = (case pl_state v of
     PL_IDLE \<Rightarrow> if cmd_valid then PL_LOAD_CFG else PL_IDLE
   | PL_LOAD_CFG \<Rightarrow> PL_RD
   | PL_RD \<Rightarrow> if oob_w v then PL_NEXT else if ai_rd_gnt i then PL_WAIT else PL_RD
   | PL_WAIT \<Rightarrow> if ai_rvalid i then PL_NEXT else PL_WAIT
   | PL_NEXT \<Rightarrow> if last_inner_w v then (if p_pool_mode (pl_cmd v) then PL_AVG_DIV else PL_WR) else PL_RD
   | PL_AVG_DIV \<Rightarrow> if div_cnt_r v = 0 then PL_WR else PL_AVG_DIV
   | PL_WR \<Rightarrow> if ai_wr_gnt i then (if last_output_w v then PL_DONE else PL_RD) else PL_WR
   | PL_DONE \<Rightarrow> PL_IDLE)"

text \<open>The accumulator takes an element: the sum, or the larger one (the first one always).\<close>

definition acc_next :: "u8 \<Rightarrow> pool_ctrl \<Rightarrow> u32" where
  "acc_next rdata v =
     (let elem = scast rdata
      in if \<not> p_pool_mode (pl_cmd v) then (if \<not> has_valid_r v \<or> acc_r v <s elem then elem else acc_r v)
         else acc_r v + elem)"

definition pool_ctrl_step :: "bool \<Rightarrow> pool_cmd_t \<Rightarrow> act_in \<Rightarrow> pool_ctrl \<Rightarrow> pool_ctrl" where
  "pool_ctrl_step cmd_valid cmd i v =
     (let c = pl_cmd v;
          latch = (pl_state v = PL_IDLE \<and> cmd_valid);
          load = (pl_state v = PL_LOAD_CFG);
          written = (pl_state v = PL_WR \<and> ai_wr_gnt i);
          advance = (written \<and> \<not> last_output_w v);
          more_c = ((ucast (c_r v) :: u32) < ucast (p_in_c c) - 1);
          more_ow = ((ucast (ow_r v) :: u32) < ucast (p_out_w c) - 1);
          pix = (advance \<and> \<not> more_c);
          row = (pix \<and> \<not> more_ow);
          tap = (pl_state v = PL_NEXT \<and> \<not> last_inner_w v);
          more_s = ((ucast (tap_s_r v) :: u32) < ucast (p_pool_s c) - 1);
          start_div = (pl_state v = PL_NEXT \<and> last_inner_w v \<and> p_pool_mode c);
          dividing = (pl_state v = PL_AVG_DIV)
      in \<lparr>pl_state = pool_next_state cmd_valid i v,
          pl_cmd = (if latch then cmd else c),
          pool_area_r = (if latch then ucast (ucast (p_pool_r cmd) :: u8) * ucast (ucast (p_pool_s cmd) :: u8) else pool_area_r v),
          in_wxc_r = (if latch then ucast ((ucast (p_in_w cmd) :: u32) * ucast (p_in_c cmd)) else in_wxc_r v),
          oh_r = (if load then 0 else if row then oh_r v + 1 else oh_r v),
          ow_r = (if load then 0 else if pix then (if more_ow then ow_r v + 1 else 0) else ow_r v),
          c_r = (if load then 0 else if advance then (if more_c then c_r v + 1 else 0) else c_r v),
          oh_base_r = (if load then 0 else if row then oh_base_r v + ucast (p_stride_h c) else oh_base_r v),
          ow_base_r = (if load then 0 else if pix then (if more_ow then ow_base_r v + ucast (p_stride_w c) else 0) else ow_base_r v),
          out_pix_base_r = (if load then 0 else if pix then out_pix_base_r v + p_in_c c else out_pix_base_r v),
          tap_r_r = (if load \<or> written then 0 else if tap \<and> \<not> more_s then tap_r_r v + 1 else tap_r_r v),
          tap_s_r = (if load \<or> written then 0 else if tap then (if more_s then tap_s_r v + 1 else 0) else tap_s_r v),
          acc_r = (if load \<or> written then (if \<not> p_pool_mode c then - 128 else 0)
                   else if pl_state v = PL_WAIT \<and> ai_rvalid i then acc_next (ai_rdata i) v else acc_r v),
          has_valid_r = (if load \<or> written then False
                         else if pl_state v = PL_WAIT \<and> ai_rvalid i then True else has_valid_r v),
          div_quot_r = (if start_div then (if bit (acc_r v) 31 then - acc_r v else acc_r v)
                        else if dividing then div_quot_next_w v else div_quot_r v),
          div_rem_r = (if start_div then 0 else if dividing then div_rem_next_w v else div_rem_r v),
          div_denom_r = (if start_div then ucast (pool_area_r v) else div_denom_r v),
          div_cnt_r = (if start_div then 31 else if dividing then div_cnt_r v - 1 else div_cnt_r v),
          div_sign_r = (if start_div then bit (acc_r v) 31 else div_sign_r v)\<rparr>)"

definition pool_out :: "pool_ctrl \<Rightarrow> act_out" where
  "pool_out v =
     \<lparr>ao_rd_addr = (if pl_state v = PL_RD \<and> \<not> oob_w v then rd_addr_w v else 0),
      ao_rd_req = (pl_state v = PL_RD \<and> \<not> oob_w v),
      ao_wr_addr = wr_addr_w v, ao_wr_data = result_w v, ao_wr_req = (pl_state v = PL_WR)\<rparr>"

definition pool_cmd_ready :: "pool_ctrl \<Rightarrow> bool" where
  "pool_cmd_ready v = (pl_state v = PL_IDLE)"

definition pool_done :: "pool_ctrl \<Rightarrow> bool" where
  "pool_done v = (pl_state v = PL_DONE)"

definition pool_busy :: "pool_ctrl \<Rightarrow> bool" where
  "pool_busy v = (pl_state v \<noteq> PL_IDLE)"

definition pool_cmd_zero :: pool_cmd_t where
  "pool_cmd_zero = \<lparr>p_in_addr = 0, p_out_addr = 0, p_in_h = 0, p_in_w = 0, p_in_c = 0, p_pool_r = 0, p_pool_s = 0,
     p_stride_h = 0, p_stride_w = 0, p_pad_h = 0, p_pad_w = 0, p_out_h = 0, p_out_w = 0, p_pool_mode = False\<rparr>"

definition pool_reset :: pool_ctrl where
  "pool_reset = \<lparr>pl_state = PL_IDLE, pl_cmd = pool_cmd_zero, pool_area_r = 0, in_wxc_r = 0, oh_r = 0, ow_r = 0, c_r = 0,
     oh_base_r = 0, ow_base_r = 0, out_pix_base_r = 0, tap_r_r = 0, tap_s_r = 0, acc_r = 0, has_valid_r = False,
     div_quot_r = 0, div_rem_r = 0, div_denom_r = 0, div_cnt_r = 0, div_sign_r = False\<rparr>"

section \<open>What a command computes\<close>

abbreviation in_H :: "pool_cmd_t \<Rightarrow> nat" where "in_H c \<equiv> unat (p_in_h c)"

abbreviation in_W :: "pool_cmd_t \<Rightarrow> nat" where "in_W c \<equiv> unat (p_in_w c)"

abbreviation in_C :: "pool_cmd_t \<Rightarrow> nat" where "in_C c \<equiv> unat (p_in_c c)"

abbreviation win_R :: "pool_cmd_t \<Rightarrow> nat" where "win_R c \<equiv> unat (p_pool_r c)"

abbreviation win_S :: "pool_cmd_t \<Rightarrow> nat" where "win_S c \<equiv> unat (p_pool_s c)"

abbreviation out_H :: "pool_cmd_t \<Rightarrow> nat" where "out_H c \<equiv> unat (p_out_h c)"

abbreviation out_W :: "pool_cmd_t \<Rightarrow> nat" where "out_W c \<equiv> unat (p_out_w c)"

definition pool_outs :: "pool_cmd_t \<Rightarrow> nat" where
  "pool_outs c = out_H c * out_W c * in_C c"

definition win_size :: "pool_cmd_t \<Rightarrow> nat" where
  "win_size c = win_R c * win_S c"

text \<open>Tap \<open>t\<close> of output \<open>e\<close>: its coordinates in the padded input, whether it is inside, and the byte read.\<close>

definition tap_y :: "pool_cmd_t \<Rightarrow> nat \<Rightarrow> nat \<Rightarrow> nat" where
  "tap_y c e t = e div in_C c div out_W c * unat (p_stride_h c) + t div win_S c"

definition tap_x :: "pool_cmd_t \<Rightarrow> nat \<Rightarrow> nat \<Rightarrow> nat" where
  "tap_x c e t = e div in_C c mod out_W c * unat (p_stride_w c) + t mod win_S c"

definition tap_inside :: "pool_cmd_t \<Rightarrow> nat \<Rightarrow> nat \<Rightarrow> bool" where
  "tap_inside c e t = (unat (p_pad_h c) \<le> tap_y c e t \<and> tap_y c e t < unat (p_pad_h c) + in_H c \<and>
     unat (p_pad_w c) \<le> tap_x c e t \<and> tap_x c e t < unat (p_pad_w c) + in_W c)"

definition tap_index :: "pool_cmd_t \<Rightarrow> nat \<Rightarrow> nat \<Rightarrow> nat" where
  "tap_index c e t = ((tap_y c e t - unat (p_pad_h c)) * in_W c + (tap_x c e t - unat (p_pad_w c))) * in_C c + e mod in_C c"

definition pool_tap :: "pool_cmd_t \<Rightarrow> (13 word \<Rightarrow> u8) \<Rightarrow> nat \<Rightarrow> nat \<Rightarrow> u8 option" where
  "pool_tap c m e t =
     (if tap_inside c e t then Some (m (ucast (p_in_addr c + word_of_nat (tap_index c e t)))) else None)"

definition pool_taken :: "pool_cmd_t \<Rightarrow> (13 word \<Rightarrow> u8) \<Rightarrow> nat \<Rightarrow> nat \<Rightarrow> u8 list" where
  "pool_taken c m e t = List.map_filter (pool_tap c m e) [0..<t]"

definition pool_acc :: "pool_cmd_t \<Rightarrow> u8 list \<Rightarrow> int" where
  "pool_acc c xs = (if p_pool_mode c then sum_list (map sint xs) else Max (insert (- 128) (sint ` set xs)))"

definition pool_byte :: "pool_cmd_t \<Rightarrow> (13 word \<Rightarrow> u8) \<Rightarrow> nat \<Rightarrow> u8" where
  "pool_byte c m e = word_of_int (pool_value (of_bool (p_pool_mode c)) (win_size c) (pool_taken c m e (win_size c)))"

text \<open>The clocks an output takes, and a command after the clock that accepts it.\<close>

definition out_clocks :: "pool_cmd_t \<Rightarrow> nat \<Rightarrow> nat" where
  "out_clocks c e = (\<Sum>t<win_size c. if tap_inside c e t then 3 else 2) + (if p_pool_mode c then 32 else 0) + 1"

definition pool_clocks :: "pool_cmd_t \<Rightarrow> nat" where
  "pool_clocks c = 1 + (\<Sum>e<pool_outs c. out_clocks c e)"

text \<open>There is a channel, the strides are not zero, the window is not empty and fits the padded input, the
  output shape is the one the host derives, input and output lie in the bank and apart, and the window is
  less than 256 in either direction, the width of the divisor's factors.\<close>

definition pool_ranges :: "pool_cmd_t \<Rightarrow> bool" where
  "pool_ranges c =
     (0 < in_C c \<and> 0 < win_R c \<and> 0 < win_S c \<and> 0 < unat (p_stride_h c) \<and> 0 < unat (p_stride_w c) \<and>
      win_R c \<le> in_H c + 2 * unat (p_pad_h c) \<and> win_S c \<le> in_W c + 2 * unat (p_pad_w c) \<and>
      out_H c = out_dim (in_H c) (unat (p_pad_h c)) (win_R c) (unat (p_stride_h c)) \<and>
      out_W c = out_dim (in_W c) (unat (p_pad_w c)) (win_S c) (unat (p_stride_w c)) \<and>
      unat (p_in_addr c) + in_H c * in_W c * in_C c \<le> 8192 \<and> unat (p_out_addr c) + pool_outs c \<le> 8192 \<and>
      (unat (p_in_addr c) + in_H c * in_W c * in_C c \<le> unat (p_out_addr c) \<or>
       unat (p_out_addr c) + pool_outs c \<le> unat (p_in_addr c)) \<and>
      win_R c < 256 \<and> win_S c < 256)"

section \<open>Phases\<close>

text \<open>The outer counters stand at output \<open>e\<close>.\<close>

definition pool_pos :: "pool_cmd_t \<Rightarrow> nat \<Rightarrow> pool_ctrl \<Rightarrow> bool" where
  "pool_pos c e v = (pl_cmd v = c \<and> pool_area_r v = word_of_nat (win_size c) \<and> in_wxc_r v = word_of_nat (in_W c * in_C c) \<and>
     oh_r v = word_of_nat (e div in_C c div out_W c) \<and> ow_r v = word_of_nat (e div in_C c mod out_W c) \<and>
     c_r v = word_of_nat (e mod in_C c) \<and>
     oh_base_r v = word_of_nat (e div in_C c div out_W c * unat (p_stride_h c)) \<and>
     ow_base_r v = word_of_nat (e div in_C c mod out_W c * unat (p_stride_w c)) \<and>
     out_pix_base_r v = word_of_nat (e div in_C c * in_C c))"

text \<open>\<open>e\<close> outputs are written and \<open>t\<close> taps of the next one are taken.\<close>

definition pool_at :: "pool_cmd_t \<Rightarrow> (13 word \<Rightarrow> u8) \<Rightarrow> nat \<Rightarrow> nat \<Rightarrow> pool_ctrl \<times> act_bank \<Rightarrow> bool" where
  "pool_at c m e t s = (pool_pos c e (fst s) \<and> acc_r (fst s) = word_of_int (pool_acc c (pool_taken c m e t)) \<and>
     (\<not> has_valid_r (fst s) \<longrightarrow> pool_taken c m e t = []) \<and>
     ab_mem (snd s) = act_written (p_out_addr c) (pool_byte c m) e m)"

definition taps_at :: "pool_cmd_t \<Rightarrow> nat \<Rightarrow> pool_ctrl \<Rightarrow> bool" where
  "taps_at c t v = (tap_r_r v = word_of_nat (t div win_S c) \<and> tap_s_r v = word_of_nat (t mod win_S c))"

text \<open>The divider after \<open>j\<close> of its 32 rounds on the magnitude \<open>n\<close>.\<close>

definition div_at :: "pool_cmd_t \<Rightarrow> int \<Rightarrow> nat \<Rightarrow> pool_ctrl \<Rightarrow> bool" where
  "div_at c x j v = (let n = nat \<bar>x\<bar>; d = win_size c in
     div_sign_r v = (x < 0) \<and> div_denom_r v = word_of_nat d \<and>
     unat (div_rem_r v) = n div 2 ^ (32 - j) mod d \<and>
     unat (div_quot_r v) = n mod 2 ^ (32 - j) * 2 ^ j + n div 2 ^ (32 - j) div d)"

text \<open>About to read tap \<open>t\<close>, or all taps taken; about to write; all outputs written.\<close>

definition pool_head :: "pool_cmd_t \<Rightarrow> (13 word \<Rightarrow> u8) \<Rightarrow> nat \<Rightarrow> nat \<Rightarrow> pool_ctrl \<times> act_bank \<Rightarrow> bool" where
  "pool_head c m e t s = (pool_at c m e t s \<and>
     (if t < win_size c then pl_state (fst s) = PL_RD \<and> taps_at c t (fst s)
      else if p_pool_mode c
      then pl_state (fst s) = PL_AVG_DIV \<and> div_cnt_r (fst s) = 31 \<and> div_at c (pool_acc c (pool_taken c m e t)) 0 (fst s)
      else pl_state (fst s) = PL_WR))"

definition pool_writes :: "pool_cmd_t \<Rightarrow> (13 word \<Rightarrow> u8) \<Rightarrow> nat \<Rightarrow> pool_ctrl \<times> act_bank \<Rightarrow> bool" where
  "pool_writes c m e s = (pool_at c m e (win_size c) s \<and> pl_state (fst s) = PL_WR \<and>
     (p_pool_mode c \<longrightarrow> div_at c (pool_acc c (pool_taken c m e (win_size c))) 32 (fst s)))"

definition pool_next :: "pool_cmd_t \<Rightarrow> (13 word \<Rightarrow> u8) \<Rightarrow> nat \<Rightarrow> pool_ctrl \<times> act_bank \<Rightarrow> bool" where
  "pool_next c m e s =
     (if e < pool_outs c then pool_head c m e 0 s
      else pl_state (fst s) = PL_DONE \<and> ab_mem (snd s) = act_written (p_out_addr c) (pool_byte c m) e m)"

section \<open>One clock, state by state\<close>

lemma pool_step_states:
  "pl_state v = PL_LOAD_CFG \<Longrightarrow> pool_ctrl_step cv cmd i v = v\<lparr>pl_state := PL_RD, oh_r := 0, ow_r := 0, c_r := 0,
     oh_base_r := 0, ow_base_r := 0, out_pix_base_r := 0, tap_r_r := 0, tap_s_r := 0,
     acc_r := (if \<not> p_pool_mode (pl_cmd v) then - 128 else 0), has_valid_r := False\<rparr>"
  "pl_state v = PL_RD \<Longrightarrow> pool_ctrl_step cv cmd i v =
     v\<lparr>pl_state := (if oob_w v then PL_NEXT else if ai_rd_gnt i then PL_WAIT else PL_RD)\<rparr>"
  "pl_state v = PL_WAIT \<Longrightarrow> ai_rvalid i \<Longrightarrow> pool_ctrl_step cv cmd i v =
     v\<lparr>pl_state := PL_NEXT, acc_r := acc_next (ai_rdata i) v, has_valid_r := True\<rparr>"
  "pl_state v = PL_DONE \<Longrightarrow> pool_ctrl_step cv cmd i v = v\<lparr>pl_state := PL_IDLE\<rparr>"
  by (simp_all add: pool_ctrl_step_def pool_next_state_def)

lemma pool_step_next:
  assumes "pl_state v = PL_NEXT"
  shows "\<not> last_inner_w v \<Longrightarrow> pool_ctrl_step cv cmd i v = v\<lparr>pl_state := PL_RD,
      tap_r_r := (if (ucast (tap_s_r v) :: u32) < ucast (p_pool_s (pl_cmd v)) - 1 then tap_r_r v else tap_r_r v + 1),
      tap_s_r := (if (ucast (tap_s_r v) :: u32) < ucast (p_pool_s (pl_cmd v)) - 1 then tap_s_r v + 1 else 0)\<rparr>"
    and "last_inner_w v \<Longrightarrow> \<not> p_pool_mode (pl_cmd v) \<Longrightarrow> pool_ctrl_step cv cmd i v = v\<lparr>pl_state := PL_WR\<rparr>"
    and "last_inner_w v \<Longrightarrow> p_pool_mode (pl_cmd v) \<Longrightarrow> pool_ctrl_step cv cmd i v = v\<lparr>pl_state := PL_AVG_DIV,
      div_quot_r := (if bit (acc_r v) 31 then - acc_r v else acc_r v), div_rem_r := 0,
      div_denom_r := ucast (pool_area_r v), div_cnt_r := 31, div_sign_r := bit (acc_r v) 31\<rparr>"
  using assms by (simp_all add: pool_ctrl_step_def pool_next_state_def)

lemma pool_step_div:
  "pl_state v = PL_AVG_DIV \<Longrightarrow> pool_ctrl_step cv cmd i v = v\<lparr>pl_state := (if div_cnt_r v = 0 then PL_WR else PL_AVG_DIV),
     div_quot_r := div_quot_next_w v, div_rem_r := div_rem_next_w v, div_cnt_r := div_cnt_r v - 1\<rparr>"
  by (simp add: pool_ctrl_step_def pool_next_state_def)

lemma pool_port_ignored:
  assumes "pl_state v \<noteq> PL_IDLE"
  shows "pool_ctrl_step cv c i v = pool_ctrl_step cv' c' i v"
proof -
  have "pool_next_state cv i v = pool_next_state cv' i v"
    using assms by (cases "pl_state v") (simp_all add: pool_next_state_def)
  then show ?thesis by (simp only: pool_ctrl_step_def assms simp_thms if_False Let_def)
qed

interpretation pool: latched pool_ctrl_step pool_out "\<lambda>v. pl_state v = PL_IDLE" "\<lambda>v. pl_state v = PL_DONE"
proof (unfold_locales, goal_cases)
  case (6 v cv c i)
  then show ?case by (rule pool_port_ignored)
next
  case (7 v cv c i c')
  then show ?case by (rule pool_port_ignored)
qed (simp_all add: pool_out_def pool_ctrl_step_def pool_next_state_def)

section \<open>Coordinates\<close>

lemma pool_bounds:
  assumes "e < pool_outs c"
  shows "0 < in_C c" "0 < out_W c" "e mod in_C c < in_C c" "e div in_C c mod out_W c < out_W c"
    "e div in_C c < out_H c * out_W c" "e div in_C c div out_W c < out_H c"
proof -
  show C: "0 < in_C c" and W: "0 < out_W c" using assms by (auto simp: pool_outs_def intro: gr0I)
  show "e mod in_C c < in_C c" "e div in_C c mod out_W c < out_W c" using C W by simp_all
  show e: "e div in_C c < out_H c * out_W c" using assms by (simp add: pool_outs_def less_mult_imp_div_less)
  show "e div in_C c div out_W c < out_H c" using e by (simp add: less_mult_imp_div_less)
qed

lemma tap_bounds:
  assumes "t < win_size c"
  shows "0 < win_S c" "t mod win_S c < win_S c" "t div win_S c < win_R c"
proof -
  show "0 < win_S c" using assms by (auto simp: win_size_def intro: gr0I)
  then show "t mod win_S c < win_S c" by simp
  show "t div win_S c < win_R c" using assms by (simp add: win_size_def less_mult_imp_div_less)
qed

text \<open>A coordinate on 33 bits: base plus offset minus padding, without wrap-around.\<close>

lemma coord33:
  fixes x r :: nat and p h :: u16
  assumes "x \<le> 65535 * 65535" and "r < 65536"
  defines "w \<equiv> ucast (word_of_nat x :: u32) + ucast (word_of_nat r :: u16) - ucast p :: 33 word"
  shows "w = word_of_int (int (x + r) - int (unat p))"
    and "w <s 0 \<longleftrightarrow> x + r < unat p" and "ucast h \<le>s w \<longleftrightarrow> unat p + unat h \<le> x + r"
proof -
  have u: "unat p < 65536" "unat h < 65536" using unsigned_less [of p, where ?'a = nat] unsigned_less [of h, where ?'a = nat] by simp_all
  have x: "x < 4294967296" using assms(1) by simp
  have "(ucast (word_of_nat x :: u32) :: 33 word) = word_of_nat x" "(ucast (word_of_nat r :: u16) :: 33 word) = word_of_nat r"
    using x assms(2) by (simp_all add: word_unat_eq_iff unsigned_ucast_eq unat_of_nat take_bit_nat_eq_self)
  moreover have "(ucast p :: 33 word) = word_of_nat (unat p)" by simp
  ultimately show w: "w = word_of_int (int (x + r) - int (unat p))" unfolding w_def by simp
  have "- 4294967296 \<le> int (x + r) - int (unat p)" "int (x + r) - int (unat p) < 4294967296"
    using assms(1,2) u by linarith+
  note w33 = this
  have z: "sint (word_of_int z :: 33 word) = z" if "- 4294967296 \<le> z" "z < 4294967296" for z
  proof -
    have "signed_take_bit 32 z = z" using that by (intro signed_take_bit_int_eq_self) simp_all
    then show ?thesis by (simp add: sint_sbintrunc')
  qed
  have s: "sint w = int (x + r) - int (unat p)" unfolding w by (rule z [OF w33])
  have "(ucast h :: 33 word) = word_of_int (int (unat h))" by simp
  then have h: "sint (ucast h :: 33 word) = int (unat h)" using z [of "int (unat h)"] u by (simp only:)
  show "w <s 0 \<longleftrightarrow> x + r < unat p" unfolding word_sless_alt s signed_0 by linarith
  show "ucast h \<le>s w \<longleftrightarrow> unat p + unat h \<le> x + r" unfolding word_sle_eq h s by linarith
qed

lemma tap_coords:
  assumes "pool_pos c e v" and "taps_at c t v" and "e < pool_outs c" and "t < win_size c"
  shows "oob_w v \<longleftrightarrow> \<not> tap_inside c e t"
    and "tap_inside c e t \<Longrightarrow> rd_addr_w v = p_in_addr c + word_of_nat (tap_index c e t)"
proof -
  note b = pool_bounds [OF assms(3)] and tb = tap_bounds [OF assms(4)]
  have u: "unat (d :: u16) \<le> 65535" for d
  proof -
    have "unat d < 65536" using unsigned_less [of d, where ?'a = nat] by simp
    then show ?thesis by linarith
  qed
  let ?oh = "e div in_C c div out_W c" and ?ow = "e div in_C c mod out_W c"
  have "?oh \<le> 65535" "?ow \<le> 65535" using b(4,6) u [of "p_out_h c"] u [of "p_out_w c"] by linarith+
  then have base: "?oh * unat (p_stride_h c) \<le> 65535 * 65535" "?ow * unat (p_stride_w c) \<le> 65535 * 65535"
    using u by (blast intro: mult_le_mono)+
  have rs: "t div win_S c < 65536" "t mod win_S c < 65536" using tb(2,3) u [of "p_pool_r c"] u [of "p_pool_s c"] by linarith+
  have v: "pl_cmd v = c" "in_wxc_r v = word_of_nat (in_W c * in_C c)" "c_r v = word_of_nat (e mod in_C c)"
    "oh_base_r v = word_of_nat (?oh * unat (p_stride_h c))" "ow_base_r v = word_of_nat (?ow * unat (p_stride_w c))"
    "tap_r_r v = word_of_nat (t div win_S c)" "tap_s_r v = word_of_nat (t mod win_S c)"
    using assms(1,2) by (simp_all add: pool_pos_def taps_at_def)
  note h = coord33 [OF base(1) rs(1), where p = "p_pad_h c", folded tap_y_def]
  note w = coord33 [OF base(2) rs(2), where p = "p_pad_w c", folded tap_x_def]
  have iw: "ih_w v = word_of_int (int (tap_y c e t) - int (unat (p_pad_h c)))"
    "iw_w v = word_of_int (int (tap_x c e t) - int (unat (p_pad_w c)))"
    unfolding ih_w_def iw_w_def v by (rule h(1), rule w(1))
  show "oob_w v \<longleftrightarrow> \<not> tap_inside c e t"
    unfolding oob_w_def ih_w_def iw_w_def v h(2,3) w(2,3) tap_inside_def by auto
  show "rd_addr_w v = p_in_addr c + word_of_nat (tap_index c e t)" if i: "tap_inside c e t"
  proof -
    have n: "int (tap_y c e t) - int (unat (p_pad_h c)) = int (tap_y c e t - unat (p_pad_h c))"
      "int (tap_x c e t) - int (unat (p_pad_w c)) = int (tap_x c e t - unat (p_pad_w c))"
      using i by (simp_all add: tap_inside_def of_nat_diff)
    have d: "(ucast (word_of_nat k :: 33 word) :: u16) = word_of_nat k" for k
      by (rule bit_word_eqI) (simp add: bit_simps)
    show ?thesis
      unfolding rd_addr_w_def iw n of_int_of_nat_eq d v tap_index_def
      by (simp add: ac_simps distrib_left distrib_right)
  qed
qed

section \<open>Taking a tap\<close>

lemma taken_Suc:
  "pool_taken c m e (Suc t) = pool_taken c m e t @ (case pool_tap c m e t of None \<Rightarrow> [] | Some x \<Rightarrow> [x])"
  by (simp add: pool_taken_def List.map_filter_def split: option.split)

lemma taken_0 [simp]: "pool_taken c m e 0 = []"
  by (simp add: pool_taken_def List.map_filter_def)

lemma max_bounds: "- 128 \<le> Max (insert (- 128) (sint ` set (xs :: u8 list)))" "Max (insert (- 128) (sint ` set xs)) \<le> 127"
  by (simp_all add: Max_ge Max_le_iff sint_i8)

lemma acc_takes:
  assumes "acc_r v = word_of_int (pool_acc c xs)" and "pl_cmd v = c" and "\<not> has_valid_r v \<longrightarrow> xs = []"
  shows "acc_next x v = word_of_int (pool_acc c (xs @ [x]))"
proof (cases "p_pool_mode c")
  case True
  then show ?thesis using assms by (simp add: acc_next_def pool_acc_def Let_def add.commute)
next
  case False
  have "insert (- 128) (sint ` set (xs @ [x])) = insert (sint x) (insert (- 128) (sint ` set xs))" by auto
  then have app: "pool_acc c (xs @ [x]) = max (sint x) (pool_acc c xs)" using False by (simp add: pool_acc_def)
  have "- 2147483648 \<le> pool_acc c xs" "pool_acc c xs < 2147483648"
    using max_bounds [of xs] False by (simp_all only: pool_acc_def if_False)
  then have s: "sint (acc_r v) = pool_acc c xs" unfolding assms(1) by (rule sint_of_int32)
  have x: "sint (scast x :: u32) = sint x" by (simp add: sint_up_scast is_up)
  have e: "(word_of_int (sint x) :: u32) = scast x" by simp
  show ?thesis
  proof (cases "has_valid_r v")
    case True
    have "acc_r v <s scast x \<longleftrightarrow> pool_acc c xs < sint x" unfolding word_sless_alt s x ..
    then show ?thesis using True False assms(1,2) unfolding app by (simp add: acc_next_def max_def e)
  next
    case f: False
    then have "xs = []" using assms(3) by blast
    then have "pool_acc c xs = - 128" using False by (simp add: pool_acc_def)
    then show ?thesis using f False assms(2) sint_i8(1) [of x] unfolding app by (simp add: acc_next_def max_def e)
  qed
qed

lemma taps_last:
  assumes "taps_at c t v" and "pl_cmd v = c" and "t < win_size c"
  shows "last_inner_w v \<longleftrightarrow> Suc t = win_size c"
    and "(ucast (tap_s_r v) :: u32) < ucast (p_pool_s (pl_cmd v)) - 1 \<longleftrightarrow> Suc (t mod win_S c) < win_S c"
proof -
  note b = tap_bounds [OF assms(3)]
  have v: "tap_r_r v = word_of_nat (t div win_S c)" "tap_s_r v = word_of_nat (t mod win_S c)"
    using assms(1) by (simp_all add: taps_at_def)
  show "last_inner_w v \<longleftrightarrow> Suc t = win_size c"
    unfolding last_inner_w_def v assms(2) counter16 [OF b(2)] counter16 [OF b(3)]
    using radix_last [of t "win_R c" "win_S c"] assms(3) by (simp add: win_size_def)
  show "(ucast (tap_s_r v) :: u32) < ucast (p_pool_s (pl_cmd v)) - 1 \<longleftrightarrow> Suc (t mod win_S c) < win_S c"
    unfolding v assms(2) by (rule counter16 [OF b(2)])
qed

lemma taps_advance:
  assumes "taps_at c t v" and "pl_cmd v = c" and "Suc t < win_size c" and "pl_state v = PL_NEXT"
  shows "taps_at c (Suc t) (pool_ctrl_step cv cmd i v)"
proof -
  have t: "t < win_size c" using assms(3) by simp
  note l = taps_last [OF assms(1,2) t]
  have "\<not> last_inner_w v" using l(1) assms(3) by simp
  note st = pool_step_next(1) [OF assms(4) this]
  have v: "tap_r_r v = word_of_nat (t div win_S c)" "tap_s_r v = word_of_nat (t mod win_S c)"
    using assms(1) by (simp_all add: taps_at_def)
  show ?thesis
  proof (cases "Suc (t mod win_S c) = win_S c")
    case True
    then have "Suc t mod win_S c = 0" "Suc t div win_S c = Suc (t div win_S c)"
      using tap_bounds(1) [OF t] by (simp_all add: mod_Suc div_Suc)
    then show ?thesis using True unfolding taps_at_def st l(2) by (simp add: v)
  next
    case False
    then have "Suc t mod win_S c = Suc (t mod win_S c)" "Suc t div win_S c = t div win_S c" "Suc (t mod win_S c) < win_S c"
      using tap_bounds(2) [OF t] by (simp_all add: mod_Suc div_Suc)
    then show ?thesis unfolding taps_at_def st l(2) by (simp add: v)
  qed
qed

text \<open>The input is not overwritten.\<close>

lemma input_kept:
  assumes "pool_ranges c" and "e < pool_outs c" and "k \<le> pool_outs c" and "tap_inside c e t"
  shows "act_written (p_out_addr c) g k m (ucast (p_in_addr c + word_of_nat (tap_index c e t))) =
    m (ucast (p_in_addr c + word_of_nat (tap_index c e t)))"
proof (rule act_written_other)
  fix i
  assume i: "i < k"
  have "tap_y c e t - unat (p_pad_h c) < in_H c" "tap_x c e t - unat (p_pad_w c) < in_W c"
    using assms(4) by (auto simp: tap_inside_def)
  from index3_less [OF this pool_bounds(3) [OF assms(2)]] have x: "tap_index c e t < in_H c * in_W c * in_C c"
    by (simp add: tap_index_def)
  have "unat (p_in_addr c) + tap_index c e t \<noteq> unat (p_out_addr c) + i"
    using assms(1,3) x i unfolding pool_ranges_def by linarith
  then show "(ucast (p_in_addr c + word_of_nat (tap_index c e t)) :: 13 word) \<noteq> ucast (p_out_addr c + word_of_nat i)"
    using assms(1,3) x i by (intro act_cells_apart [where n = "in_H c * in_W c * in_C c" and k = "pool_outs c"])
      (simp_all add: pool_ranges_def)
qed

text \<open>A tap has been taken and the window counters are about to move.\<close>

definition pool_mid :: "pool_cmd_t \<Rightarrow> (13 word \<Rightarrow> u8) \<Rightarrow> nat \<Rightarrow> nat \<Rightarrow> pool_ctrl \<times> act_bank \<Rightarrow> bool" where
  "pool_mid c m e t s = (pl_state (fst s) = PL_NEXT \<and> taps_at c t (fst s) \<and> pool_at c m e (Suc t) s)"

abbreviation pool_clock :: "pool_cmd_t \<Rightarrow> pool_ctrl \<times> act_bank \<Rightarrow> pool_ctrl \<times> act_bank" where
  "pool_clock \<equiv> bank_tick pool_ctrl_step pool_out False"

abbreviation pool_works :: "pool_ctrl \<times> act_bank \<Rightarrow> bool" where
  "pool_works \<equiv> \<lambda>s. pl_state (fst s) \<noteq> PL_IDLE \<and> pl_state (fst s) \<noteq> PL_DONE"

lemma tap_taken:
  assumes "pool_ranges c" and "e < pool_outs c" and "t < win_size c" and "pool_head c m e t s"
  shows "leads (pool_clock c) pool_works (if tap_inside c e t then 2 else 1) s (pool_mid c m e t)"
proof -
  obtain v a where s: "s = (v, a)" by fastforce
  have v: "pl_state v = PL_RD" "taps_at c t v" "pool_pos c e v" "acc_r v = word_of_int (pool_acc c (pool_taken c m e t))"
    "\<not> has_valid_r v \<longrightarrow> pool_taken c m e t = []" "ab_mem a = act_written (p_out_addr c) (pool_byte c m) e m"
    using assms(3,4) by (simp_all add: pool_head_def pool_at_def s)
  note k = tap_coords [OF v(3,2) assms(2,3)]
  show ?thesis
  proof (cases "tap_inside c e t")
    case False
    then have o: "oob_w v" using k(1) by simp
    have "pool_mid c m e t (pool_clock c s)"
      using v False o
      by (simp add: s pool_mid_def pool_at_def bank_tick_def bank_step_def pool_out_def pool_step_states taken_Suc pool_tap_def
          pool_pos_def taps_at_def)
    then show ?thesis using False v(1) leads_1 [of pool_works s "pool_mid c m e t" "pool_clock c"] by (simp add: s)
  next
    case True
    then have o: "\<not> oob_w v" using k(1) by simp
    let ?x = "m (ucast (p_in_addr c + word_of_nat (tap_index c e t)))"
    define v1 where "v1 = v\<lparr>pl_state := PL_WAIT\<rparr>"
    define a1 where "a1 = a\<lparr>ab_rdata := ?x, ab_rvalid := True\<rparr>"
    have 1: "pool_clock c s = (v1, a1)"
      using v o k(2) [OF True] input_kept [OF assms(1,2) less_imp_le [OF assms(2)] True, of "pool_byte c m" m]
      by (simp add: s v1_def a1_def bank_tick_def bank_in_def bank_step_def pool_out_def pool_step_states)
    define v2 where "v2 = v1\<lparr>pl_state := PL_NEXT, acc_r := acc_next ?x v1, has_valid_r := True\<rparr>"
    have 2: "pool_clock c (v1, a1) = (v2, a1\<lparr>ab_rvalid := False\<rparr>)"
    proof -
      have "pl_state v1 = PL_WAIT" "ab_rdata a1 = ?x" "ab_rvalid a1" by (simp_all add: v1_def a1_def)
      then show ?thesis by (simp add: v2_def bank_tick_def bank_in_def bank_step_def pool_out_def pool_step_states)
    qed
    have "pl_cmd v = c" using v(3) by (simp add: pool_pos_def)
    then have "acc_next ?x v1 = word_of_int (pool_acc c (pool_taken c m e t @ [?x]))"
      using v(4,5) by (intro acc_takes) (simp_all add: v1_def)
    then have "pool_mid c m e t (v2, a1\<lparr>ab_rvalid := False\<rparr>)"
      using v True by (simp add: pool_mid_def pool_at_def taken_Suc pool_tap_def pool_pos_def taps_at_def v2_def v1_def a1_def)
    then have "leads (pool_clock c) pool_works (Suc (Suc 0)) s (pool_mid c m e t)"
      using v(1) by (intro leads_step leads_0) (simp_all only: 1 2, simp_all add: s v1_def)
    then show ?thesis using True by (simp add: numeral_2_eq_2)
  qed
qed

lemma length_taken: "length (pool_taken c m e t) \<le> t"
  unfolding pool_taken_def using length_map_filter_le [of _ "[0..<t]"] by simp

lemma taps_small: "pool_ranges c \<Longrightarrow> win_size c \<le> 65025 \<and> 0 < win_size c"
proof -
  assume "pool_ranges c"
  then have "win_R c \<le> 255" "win_S c \<le> 255" "0 < win_R c" "0 < win_S c" by (simp_all add: pool_ranges_def)
  then have "win_R c * win_S c \<le> 255 * 255" "0 < win_R c * win_S c" by (blast intro: mult_le_mono, simp)
  then show ?thesis by (simp add: win_size_def)
qed

lemma acc_magnitude:
  fixes e :: nat and m :: "13 word \<Rightarrow> u8"
  assumes "pool_ranges c" and "p_pool_mode c"
  defines "x \<equiv> pool_acc c (pool_taken c m e (win_size c))"
  shows "\<bar>x\<bar> \<le> 128 * int (win_size c)" and "\<bar>x\<bar> < 2147483648"
proof -
  show a: "\<bar>x\<bar> \<le> 128 * int (win_size c)"
  proof -
    have "int (length (pool_taken c m e (win_size c))) \<le> int (win_size c)" using length_taken by (simp only: of_nat_le_iff)
    then show ?thesis
      using sum_sint_bounds [of "pool_taken c m e (win_size c)"] assms(2) unfolding x_def pool_acc_def by (simp only: if_True) linarith
  qed
  then show "\<bar>x\<bar> < 2147483648" using taps_small [OF assms(1)] by simp
qed

lemma mid_step:
  assumes "pool_ranges c" and "t < win_size c" and "pool_mid c m e t s"
  shows "pool_head c m e (Suc t) (pool_clock c s)"
proof -
  obtain v a where s: "s = (v, a)" by fastforce
  have v: "pl_state v = PL_NEXT" "taps_at c t v" "pool_at c m e (Suc t) (v, a)" "pl_cmd v = c" "pool_pos c e v"
    using assms(3) by (simp_all add: pool_mid_def pool_at_def pool_pos_def s)
  note l = taps_last(1) [OF v(2,4) assms(2)]
  consider "Suc t < win_size c" | (max) "Suc t = win_size c" "\<not> p_pool_mode c" | (avg) "Suc t = win_size c" "p_pool_mode c"
    using assms(2) by fastforce
  then show ?thesis
  proof cases
    case 1
    then have "\<not> last_inner_w v" using l by simp
    note st = pool_step_next(1) [OF v(1) this]
    show ?thesis
      using 1 v taps_advance [OF v(2,4) 1 v(1), of False c "bank_in (pool_out v) a"]
      by (simp add: s pool_head_def pool_at_def bank_tick_def bank_step_def pool_out_def st pool_pos_def)
  next
    case max
    then have "last_inner_w v" using l by simp
    note st = pool_step_next(2) [OF v(1) this]
    show ?thesis
      using max v by (simp add: s pool_head_def pool_at_def bank_tick_def bank_step_def pool_out_def st pool_pos_def)
  next
    case avg
    then have "last_inner_w v" using l by simp
    note st = pool_step_next(3) [OF v(1) this]
    let ?x = "pool_acc c (pool_taken c m e (win_size c))"
    have acc: "acc_r v = word_of_int ?x" using v(3) avg(1) by (simp add: pool_at_def)
    note mw = magnitude_word [OF acc_magnitude(2) [OF assms(1) avg(2)], of m e, folded acc]
    have n: "nat \<bar>?x\<bar> < 2 ^ 32" using acc_magnitude(2) [OF assms(1) avg(2), of m e] by simp
    have "unat (word_of_nat (win_size c) :: u16) = win_size c"
      using taps_small [OF assms(1)] by (simp add: unat_of_nat take_bit_nat_eq_self)
    then have d: "(ucast (word_of_nat (win_size c) :: u16) :: u32) = word_of_nat (win_size c)"
      by (simp add: word_unat_eq_iff unsigned_ucast_eq) (simp add: unat_of_nat take_bit_nat_eq_self)
    have "div_at c ?x 0 (pool_ctrl_step False c i v)" for i
      using avg v(4,5) mw n d by (simp add: div_at_def st pool_pos_def Let_def)
    then show ?thesis
      using avg v by (simp add: s pool_head_def pool_at_def bank_tick_def bank_step_def pool_out_def st pool_pos_def)
  qed
qed

section \<open>Dividing\<close>

lemma div_round:
  assumes "div_at c x j v" and "j < 32" and "nat \<bar>x\<bar> < 2 ^ 32" and "0 < win_size c" and "win_size c \<le> 65025"
  shows "div_at c x (Suc j) (v\<lparr>pl_state := st, div_quot_r := div_quot_next_w v, div_rem_r := div_rem_next_w v,
    div_cnt_r := k\<rparr>)"
proof -
  have v: "div_sign_r v = (x < 0)" "div_denom_r v = word_of_nat (win_size c)"
    "unat (div_rem_r v) = nat \<bar>x\<bar> div 2 ^ (32 - j) mod win_size c"
    "unat (div_quot_r v) = nat \<bar>x\<bar> mod 2 ^ (32 - j) * 2 ^ j + nat \<bar>x\<bar> div 2 ^ (32 - j) div win_size c"
    using assms(1) by (simp_all add: div_at_def Let_def)
  have d: "unat (div_denom_r v) = win_size c" "win_size c < 2 ^ 31"
    unfolding v(2) using assms(5) by (simp_all add: unat_of_nat take_bit_nat_eq_self)
  note q = restoring_round32 [OF d(1) assms(4) d(2) assms(2,3) v(3,4), folded div_trial_w_def, folded div_rem_next_w_def div_quot_next_w_def]
  show ?thesis using v(1,2) q by (simp add: div_at_def Let_def)
qed

definition pool_dividing :: "pool_cmd_t \<Rightarrow> (13 word \<Rightarrow> u8) \<Rightarrow> nat \<Rightarrow> nat \<Rightarrow> pool_ctrl \<times> act_bank \<Rightarrow> bool" where
  "pool_dividing c m e j s = (pool_at c m e (win_size c) s \<and> div_at c (pool_acc c (pool_taken c m e (win_size c))) j (fst s) \<and>
     (if j < 32 then pl_state (fst s) = PL_AVG_DIV \<and> div_cnt_r (fst s) = word_of_nat (31 - j) else pl_state (fst s) = PL_WR))"

lemma dividing_step:
  assumes "pool_ranges c" and "p_pool_mode c" and "j < 32" and "pool_dividing c m e j s"
  shows "pool_dividing c m e (Suc j) (pool_clock c s)"
proof -
  obtain v a where s: "s = (v, a)" by fastforce
  have v: "pl_state v = PL_AVG_DIV" "div_cnt_r v = word_of_nat (31 - j)" "pool_at c m e (win_size c) (v, a)"
    "div_at c (pool_acc c (pool_taken c m e (win_size c))) j v"
    using assms(3,4) by (simp_all add: pool_dividing_def s)
  note st = pool_step_div [OF v(1), of False c]
  have small: "nat \<bar>pool_acc c (pool_taken c m e (win_size c))\<bar> < 2 ^ 32" using acc_magnitude(2) [OF assms(1,2), of m e] by simp
  have "31 - j < 2 ^ LENGTH(5)" by simp
  from bank_addr_eq [OF this, of 0] have cnt: "div_cnt_r v = 0 \<longleftrightarrow> Suc j = 32"
    using assms(3) unfolding v(2) by (simp del: of_nat_diff) arith
  have dec: "div_cnt_r v - 1 = word_of_nat (31 - Suc j)" if "Suc j < 32"
    using that unfolding v(2) by (simp add: of_nat_diff)
  have "div_at c (pool_acc c (pool_taken c m e (win_size c))) (Suc j) (pool_ctrl_step False c i v)" for i
    unfolding st by (rule div_round [OF v(4) assms(3) small]) (use taps_small [OF assms(1)] in simp_all)
  then show ?thesis
    using v(1,3) cnt dec assms(3)
    by (cases "Suc j = 32")
      (simp_all add: s pool_dividing_def pool_at_def bank_tick_def bank_step_def pool_out_def st pool_pos_def)
qed

lemma divides:
  assumes "pool_ranges c" and "p_pool_mode c" and "pool_head c m e (win_size c) s"
  shows "leads (pool_clock c) pool_works 32 s (pool_writes c m e)"
proof -
  have "pool_dividing c m e 0 s" using assms(2,3) by (simp add: pool_head_def pool_dividing_def)
  then have "leads (pool_clock c) pool_works (\<Sum>j<(32 :: nat). 1) s (pool_dividing c m e 32)"
  proof (rule leads_loop)
    fix j t
    assume j: "j < (32 :: nat)" and t: "pool_dividing c m e j t"
    then have "pool_works t" by (simp add: pool_dividing_def)
    then show "leads (pool_clock c) pool_works 1 t (pool_dividing c m e (Suc j))"
      using dividing_step [OF assms(1,2) j t] by (rule leads_1)
  qed
  then have "leads (pool_clock c) pool_works 32 s (pool_dividing c m e 32)" by simp
  then show ?thesis by (rule leads_mono) (simp add: pool_dividing_def pool_writes_def)
qed

lemma takes_all:
  assumes "pool_ranges c" and "e < pool_outs c" and "pool_head c m e 0 s"
  shows "leads (pool_clock c) pool_works (\<Sum>t<win_size c. if tap_inside c e t then 3 else 2) s (pool_head c m e (win_size c))"
proof (rule leads_loop [where Q = "pool_head c m e", OF assms(3)])
  fix t u
  assume t: "t < win_size c" and u: "pool_head c m e t u"
  have "leads (pool_clock c) pool_works ((if tap_inside c e t then 2 else 1) + 1) u (pool_head c m e (Suc t))"
  proof (rule leads_trans [OF tap_taken [OF assms(1,2) t u]])
    fix w
    assume w: "pool_mid c m e t w"
    then have "pool_works w" by (simp add: pool_mid_def)
    then show "leads (pool_clock c) pool_works 1 w (pool_head c m e (Suc t))"
      using mid_step [OF assms(1) t w] by (rule leads_1)
  qed
  moreover have "(if tap_inside c e t then 2 else 1) + 1 = (if tap_inside c e t then 3 else 2 :: nat)" by simp
  ultimately show "leads (pool_clock c) pool_works (if tap_inside c e t then 3 else 2) u (pool_head c m e (Suc t))" by simp
qed

section \<open>Writing a result\<close>

text \<open>The write clears the window counters and the accumulator and moves the outer counters.\<close>

lemma pool_step_write:
  assumes "pl_state v = PL_WR" and "ai_wr_gnt i"
  defines "w \<equiv> v\<lparr>pl_state := PL_RD, tap_r_r := 0, tap_s_r := 0, acc_r := (if \<not> p_pool_mode (pl_cmd v) then - 128 else 0),
    has_valid_r := False\<rparr>"
    and "more_c \<equiv> (ucast (c_r v) :: u32) < ucast (p_in_c (pl_cmd v)) - 1"
    and "more_ow \<equiv> (ucast (ow_r v) :: u32) < ucast (p_out_w (pl_cmd v)) - 1"
  shows "last_output_w v \<Longrightarrow> pool_ctrl_step cv cmd i v = w\<lparr>pl_state := PL_DONE\<rparr>"
    and "\<not> last_output_w v \<Longrightarrow> more_c \<Longrightarrow> pool_ctrl_step cv cmd i v = w\<lparr>c_r := c_r v + 1\<rparr>"
    and "\<not> last_output_w v \<Longrightarrow> \<not> more_c \<Longrightarrow> more_ow \<Longrightarrow> pool_ctrl_step cv cmd i v = w\<lparr>c_r := 0,
      out_pix_base_r := out_pix_base_r v + p_in_c (pl_cmd v), ow_r := ow_r v + 1,
      ow_base_r := ow_base_r v + ucast (p_stride_w (pl_cmd v))\<rparr>"
    and "\<not> last_output_w v \<Longrightarrow> \<not> more_c \<Longrightarrow> \<not> more_ow \<Longrightarrow> pool_ctrl_step cv cmd i v = w\<lparr>c_r := 0,
      out_pix_base_r := out_pix_base_r v + p_in_c (pl_cmd v), ow_r := 0, ow_base_r := 0, oh_r := oh_r v + 1,
      oh_base_r := oh_base_r v + ucast (p_stride_h (pl_cmd v))\<rparr>"
  using assms(1,2) unfolding w_def more_c_def more_ow_def
  by (simp_all add: pool_ctrl_step_def pool_next_state_def Let_def)

lemma pos_last:
  assumes "pool_pos c e v" and "e < pool_outs c"
  shows "last_output_w v \<longleftrightarrow> Suc e = pool_outs c"
    and "(ucast (c_r v) :: u32) < ucast (p_in_c (pl_cmd v)) - 1 \<longleftrightarrow> Suc (e mod in_C c) < in_C c"
    and "(ucast (ow_r v) :: u32) < ucast (p_out_w (pl_cmd v)) - 1 \<longleftrightarrow> Suc (e div in_C c mod out_W c) < out_W c"
proof -
  note b = pool_bounds [OF assms(2)]
  have v: "pl_cmd v = c" "oh_r v = word_of_nat (e div in_C c div out_W c)" "ow_r v = word_of_nat (e div in_C c mod out_W c)"
    "c_r v = word_of_nat (e mod in_C c)"
    using assms(1) by (simp_all add: pool_pos_def)
  have "last_output_w v \<longleftrightarrow> Suc (e div in_C c div out_W c) = out_H c \<and> Suc (e div in_C c mod out_W c) = out_W c \<and>
      Suc (e mod in_C c) = in_C c"
    unfolding last_output_w_def v counter16 [OF b(3)] counter16 [OF b(4)] counter16 [OF b(6)] ..
  also have "\<dots> \<longleftrightarrow> Suc (e div in_C c) = out_H c * out_W c \<and> Suc (e mod in_C c) = in_C c"
    using radix_last [OF b(5)] by blast
  also have "\<dots> \<longleftrightarrow> Suc e = pool_outs c"
    unfolding pool_outs_def by (rule radix_last [OF assms(2) [unfolded pool_outs_def]])
  finally show "last_output_w v \<longleftrightarrow> Suc e = pool_outs c" .
  show "(ucast (c_r v) :: u32) < ucast (p_in_c (pl_cmd v)) - 1 \<longleftrightarrow> Suc (e mod in_C c) < in_C c"
    "(ucast (ow_r v) :: u32) < ucast (p_out_w (pl_cmd v)) - 1 \<longleftrightarrow> Suc (e div in_C c mod out_W c) < out_W c"
    unfolding v by (rule counter16 [OF b(3)], rule counter16 [OF b(4)])
qed

lemma pos_advance:
  fixes cv :: bool and cmd :: pool_cmd_t
  assumes "pool_pos c e v" and "Suc e < pool_outs c" and "pl_state v = PL_WR" and "ai_wr_gnt i"
  defines "u \<equiv> pool_ctrl_step cv cmd i v"
  shows "pool_pos c (Suc e) u" and "pl_state u = PL_RD" and "taps_at c 0 u"
    and "acc_r u = word_of_int (pool_acc c [])"
proof -
  have e: "e < pool_outs c" using assms(2) by simp
  note l = pos_last [OF assms(1) e] and b = pool_bounds [OF e]
  have nl: "\<not> last_output_w v" using l(1) assms(2) by simp
  note st = pool_step_write(2-4) [OF assms(3,4) nl, of cv cmd, folded u_def, unfolded l(2,3)]
  have v: "pl_cmd v = c" using assms(1) by (simp add: pool_pos_def)
  have acc: "(if \<not> p_pool_mode (pl_cmd v) then - 128 else 0) = (word_of_int (pool_acc c []) :: u32)"
    by (simp add: v pool_acc_def)
  consider "Suc (e mod in_C c) < in_C c"
    | (pix) "Suc (e mod in_C c) = in_C c" "Suc (e div in_C c mod out_W c) < out_W c"
    | (row) "Suc (e mod in_C c) = in_C c" "Suc (e div in_C c mod out_W c) = out_W c"
    using b(3,4) by linarith
  then have "pool_pos c (Suc e) u \<and> pl_state u = PL_RD \<and> taps_at c 0 u \<and> acc_r u = word_of_int (pool_acc c [])"
  proof cases
    case 1
    then have "Suc e mod in_C c = Suc (e mod in_C c)" "Suc e div in_C c = e div in_C c" by (simp_all add: mod_Suc div_Suc)
    then show ?thesis
      using assms(1) unfolding st(1) [OF 1] by (simp add: pool_pos_def taps_at_def acc [unfolded v])
  next
    case pix
    then have s: "Suc e mod in_C c = 0" "Suc e div in_C c = Suc (e div in_C c)" by (simp_all add: mod_Suc div_Suc)
    have t: "Suc (e div in_C c) mod out_W c = Suc (e div in_C c mod out_W c)"
      "Suc (e div in_C c) div out_W c = e div in_C c div out_W c" using pix(2) by (simp_all add: mod_Suc div_Suc)
    have n: "\<not> Suc (e mod in_C c) < in_C c" using pix(1) by simp
    show ?thesis
      using assms(1) s t unfolding st(2) [OF n pix(2)] by (simp add: pool_pos_def taps_at_def acc [unfolded v] algebra_simps)
  next
    case row
    then have s: "Suc e mod in_C c = 0" "Suc e div in_C c = Suc (e div in_C c)" by (simp_all add: mod_Suc div_Suc)
    have t: "Suc (e div in_C c) mod out_W c = 0"
      "Suc (e div in_C c) div out_W c = Suc (e div in_C c div out_W c)" using row(2) by (simp_all add: mod_Suc div_Suc)
    have n: "\<not> Suc (e mod in_C c) < in_C c" "\<not> Suc (e div in_C c mod out_W c) < out_W c" using row by simp_all
    show ?thesis
      using assms(1) s t unfolding st(3) [OF n] by (simp add: pool_pos_def taps_at_def acc [unfolded v] algebra_simps)
  qed
  then show "pool_pos c (Suc e) u" "pl_state u = PL_RD" "taps_at c 0 u" "acc_r u = word_of_int (pool_acc c [])" by blast+
qed

lemma result_byte:
  assumes "pool_ranges c" and "pool_writes c m e (v, a)"
  shows "result_w v = pool_byte c m e"
proof -
  let ?xs = "pool_taken c m e (win_size c)"
  have v: "pl_cmd v = c" "acc_r v = word_of_int (pool_acc c ?xs)" "p_pool_mode c \<longrightarrow> div_at c (pool_acc c ?xs) 32 v"
    using assms(2) by (simp_all add: pool_writes_def pool_at_def pool_pos_def)
  show ?thesis
  proof (cases "p_pool_mode c")
    case False
    have b: "- 128 \<le> pool_acc c ?xs" "pool_acc c ?xs \<le> 127" using max_bounds [of ?xs] False by (simp_all only: pool_acc_def if_False)
    then have "sint (acc_r v) = pool_acc c ?xs" unfolding v(2) by (intro sint_of_int32) simp_all
    then have "result_w v = ref_saturate (pool_acc c ?xs)" using False by (simp only: result_w_def v(1) saturate_words if_True not_False_eq_True)
    also have "\<dots> = word_of_int (pool_acc c ?xs)" by (rule saturate_small [OF b])
    finally show ?thesis using False by (simp only: pool_byte_def pool_value_def pool_acc_def of_bool_def if_False if_True simp_thms)
  next
    case True
    define x where "x = pool_acc c ?xs"
    define d where "d = win_size c"
    define q where "q = nat \<bar>x\<bar> div d"
    have d: "0 < d" using taps_small [OF assms(1)] by (simp add: d_def)
    have quot: "unat (div_quot_r v) = q" and sign: "div_sign_r v = (x < 0)"
      using v(3) True by (simp_all add: div_at_def Let_def x_def d_def q_def)
    have "int (length ?xs) \<le> int d" using length_taken by (simp only: of_nat_le_iff d_def)
    then have t: "- 128 * int d \<le> x" "x \<le> 127 * int d"
      using sum_sint_bounds [of ?xs] True unfolding x_def pool_acc_def by (simp_all only: if_True) linarith+
    then have "nat \<bar>x\<bar> \<le> 128 * d" "0 \<le> x \<Longrightarrow> nat \<bar>x\<bar> \<le> 127 * d" by linarith+
    then have q: "q \<le> 128" "0 \<le> x \<Longrightarrow> q \<le> 127"
      using div_le_mono [of "nat \<bar>x\<bar>" "128 * d" d] div_le_mono [of "nat \<bar>x\<bar>" "127 * d" d] d by (simp_all add: q_def)
    have dq: "div_quot_r v = word_of_nat q" using quot by (rule unat_eqD)
    have "take_bit 31 (div_quot_r v) = word_of_nat q"
      unfolding dq using q(1) by (simp add: word_unat_eq_iff unsigned_take_bit_eq unat_of_nat take_bit_nat_eq_self)
    then have sq: "signed_quot_w v = word_of_int (if x < 0 then - int q else int q)" by (simp add: signed_quot_w_def sign)
    have sd: "x sdiv int d = (if x < 0 then - int q else int q)"
      using d by (simp add: signed_divide_int_def q_def sgn_if zdiv_int)
    have small: "- 128 \<le> x sdiv int d" "x sdiv int d \<le> 127" unfolding sd using q by auto
    then have "sint (signed_quot_w v) = x sdiv int d" unfolding sq sd [symmetric] by (intro sint_of_int32) simp_all
    then have "result_w v = ref_saturate (x sdiv int d)" using True by (simp only: result_w_def v(1) saturate_words not_True_eq_False if_False)
    also have "\<dots> = word_of_int (x sdiv int d)" by (rule saturate_small [OF small])
    finally show ?thesis using True by (simp add: pool_byte_def pool_value_def pool_acc_def x_def d_def)
  qed
qed

lemma write_clock:
  assumes "pool_ranges c" and "e < pool_outs c" and "pool_writes c m e s"
  shows "pool_next c m (Suc e) (pool_clock c s)"
proof -
  obtain v a where s: "s = (v, a)" by fastforce
  have v: "pl_state v = PL_WR" "pool_pos c e v" "ab_mem a = act_written (p_out_addr c) (pool_byte c m) e m"
    "out_pix_base_r v = word_of_nat (e div in_C c * in_C c)" "c_r v = word_of_nat (e mod in_C c)" "pl_cmd v = c"
    using assms(3) by (simp_all add: pool_writes_def pool_at_def pool_pos_def s)
  have "wr_addr_w v = p_out_addr c + (word_of_nat (e div in_C c * in_C c + e mod in_C c))"
    unfolding wr_addr_w_def v(4-6) by (simp only: of_nat_add add.assoc)
  then have w: "wr_addr_w v = p_out_addr c + word_of_nat e" by simp
  have mem: "ab_mem (snd (pool_clock c s)) = act_written (p_out_addr c) (pool_byte c m) (Suc e) m"
    using v(1,3) result_byte [OF assms(1) assms(3) [unfolded s]] w
    by (simp add: s bank_tick_def bank_step_def pool_out_def act_written_Suc)
  let ?i = "bank_in (pool_out v) a"
  have g: "ai_wr_gnt ?i" using v(1) by (simp add: bank_in_def pool_out_def)
  have f: "fst (pool_clock c s) = pool_ctrl_step False c ?i v" by (simp add: s bank_tick_def)
  show ?thesis
  proof (cases "Suc e < pool_outs c")
    case True
    note p = pos_advance [OF v(2) True v(1) g, of False c]
    have "0 < win_size c" using taps_small [OF assms(1)] by simp
    then show ?thesis
      using True p mem by (simp add: pool_next_def pool_head_def pool_at_def f)
  next
    case False
    then have "last_output_w v" using pos_last(1) [OF v(2) assms(2)] assms(2) by simp
    then have "pl_state (pool_ctrl_step False c ?i v) = PL_DONE"
      using pool_step_write(1) [OF v(1) g, of False c] by simp
    then show ?thesis using False mem by (simp add: pool_next_def f)
  qed
qed

lemma output_round:
  assumes "pool_ranges c" and "e < pool_outs c" and "pool_next c m e s"
  shows "leads (pool_clock c) pool_works (out_clocks c e) s (pool_next c m (Suc e))"
proof -
  have h: "pool_head c m e 0 s" using assms(2,3) by (simp add: pool_next_def)
  have wr: "leads (pool_clock c) pool_works 1 w (pool_next c m (Suc e))" if w: "pool_writes c m e w" for w
  proof -
    have "pool_works w" using w by (simp add: pool_writes_def)
    then show ?thesis using write_clock [OF assms(1,2) w] by (rule leads_1)
  qed
  have "leads (pool_clock c) pool_works (if p_pool_mode c then 32 else 0) u (pool_writes c m e)"
    if "pool_head c m e (win_size c) u" for u
    using divides [OF assms(1) _ that] that by (auto simp: pool_head_def pool_writes_def intro: leads_0)
  from leads_trans [OF leads_trans [OF takes_all [OF assms(1,2) h] this] wr] show ?thesis
    by (simp add: out_clocks_def)
qed

section \<open>From the command to the last output\<close>

lemma pool_accepts:
  fixes i :: act_in
  assumes "pl_state v = PL_IDLE" and "pool_ranges c"
  defines "u \<equiv> pool_ctrl_step True c i v"
  shows "pl_state u = PL_LOAD_CFG" and "pl_cmd u = c" and "pool_area_r u = word_of_nat (win_size c)"
    and "in_wxc_r u = word_of_nat (in_W c * in_C c)"
proof -
  have "win_R c < 256" "win_S c < 256" using assms(2) by (simp_all add: pool_ranges_def)
  then have "(ucast (ucast (p_pool_r c) :: u8) :: u16) = p_pool_r c" "(ucast (ucast (p_pool_s c) :: u8) :: u16) = p_pool_s c"
    by (simp_all add: word_unat_eq_iff unsigned_ucast_eq unsigned_take_bit_eq take_bit_nat_eq_self)
  moreover have "(ucast ((ucast (p_in_w c) :: u32) * ucast (p_in_c c)) :: u16) = p_in_w c * p_in_c c"
    by (simp add: word_unat_eq_iff unsigned_ucast_eq unat_word_ariths take_bit_eq_mod mod_mod_cancel)
  ultimately show "pl_state u = PL_LOAD_CFG" "pl_cmd u = c" "pool_area_r u = word_of_nat (win_size c)"
    "in_wxc_r u = word_of_nat (in_W c * in_C c)"
    using assms(1) by (simp_all add: u_def pool_ctrl_step_def pool_next_state_def win_size_def)
qed

lemma outs_pos: "pool_ranges c \<Longrightarrow> 0 < pool_outs c"
  by (simp add: pool_outs_def pool_ranges_def out_dim_def)

lemma pool_computes:
  assumes "pl_state v = PL_IDLE" and "pool_ranges c"
  shows "leads (pool_clock c) pool_works (pool_clocks c) (bank_tick pool_ctrl_step pool_out True c (v, a))
    (\<lambda>s. pl_state (fst s) = PL_DONE \<and>
      ab_mem (snd s) = act_written (p_out_addr c) (pool_byte c (ab_mem a)) (pool_outs c) (ab_mem a))"
proof -
  define m where "m = ab_mem a"
  define s where "s = bank_tick pool_ctrl_step pool_out True c (v, a)"
  obtain u b where sb: "s = (u, b)" by fastforce
  have u: "u = pool_ctrl_step True c (bank_in (pool_out v) a) v" and b: "ab_mem b = m"
    using assms(1) sb by (auto simp: s_def bank_tick_def bank_step_def pool_out_def m_def)
  note p = pool_accepts [OF assms, of "bank_in (pool_out v) a", folded u]
  have w: "0 < win_size c" using taps_small [OF assms(2)] by simp
  have "pool_head c m 0 0 (pool_clock c s)"
    using p b w
    by (simp add: sb pool_head_def pool_at_def pool_pos_def taps_at_def bank_tick_def bank_step_def pool_out_def pool_step_states
        pool_acc_def)
  then have "pool_next c m 0 (pool_clock c s)" using outs_pos [OF assms(2)] by (simp add: pool_next_def)
  then have l: "leads (pool_clock c) pool_works 1 s (pool_next c m 0)" using p(1) by (intro leads_1) (simp_all add: sb)
  have "leads (pool_clock c) pool_works (\<Sum>e<pool_outs c. out_clocks c e) t (pool_next c m (pool_outs c))"
    if "pool_next c m 0 t" for t
    by (rule leads_loop [where Q = "pool_next c m", OF that]) (rule output_round [OF assms(2)])
  from leads_trans [OF l this] have "leads (pool_clock c) pool_works (pool_clocks c) s (pool_next c m (pool_outs c))"
    by (simp add: pool_clocks_def)
  then show ?thesis unfolding s_def m_def by (rule leads_mono) (simp add: pool_next_def)
qed

section \<open>The reference function\<close>

lemma map_filter_map: "List.map_filter f (map g xs) = List.map_filter (\<lambda>x. f (g x)) xs"
  by (simp add: List.map_filter_def comp_def filter_map)

lemma product_upt: "List.product [0..<R] [0..<S] = map (\<lambda>t. (t div S, t mod S)) [0..<R * S]"
proof (cases "S = 0")
  case False
  show ?thesis
  proof (induction R)
    case (Suc R)
    have "map (\<lambda>t. (t div S, t mod S)) [R * S..<R * S + S] = map (Pair R) [0..<S]"
    proof (rule nth_equalityI)
      fix i
      assume "i < length (map (\<lambda>t. (t div S, t mod S)) [R * S..<R * S + S])"
      then have "i < S" by simp
      then show "map (\<lambda>t. (t div S, t mod S)) [R * S..<R * S + S] ! i = map (Pair R) [0..<S] ! i" by simp
    qed simp
    then have "map (\<lambda>t. (t div S, t mod S)) [0..<Suc R * S] = List.product [0..<R] [0..<S] @ map (Pair R) [0..<S]"
      unfolding Suc.IH mult_Suc add.commute [of S] upt_add_eq_append [OF le0] by simp
    then show ?case by (simp add: product_concat_map)
  qed simp
qed (simp add: product_concat_map)

lemma taken_window:
  assumes "pool_ranges c" and "e < pool_outs c"
  shows "pool_taken c (lm_act m) e (win_size c) =
    pool_window (act_bytes m (p_in_addr c) (in_H c * in_W c * in_C c)) (in_H c) (in_W c) (in_C c) (win_R c) (win_S c)
      (unat (p_stride_h c)) (unat (p_stride_w c)) (unat (p_pad_h c)) (unat (p_pad_w c))
      (e div (out_W c * in_C c)) (e div in_C c mod out_W c) (e mod in_C c)"
proof -
  let ?n = "in_H c * in_W c * in_C c"
  have "pool_tap c (lm_act m) e t = padded (act_bytes m (p_in_addr c) ?n) (in_H c) (in_W c) (in_C c) (unat (p_pad_h c))
      (unat (p_pad_w c)) (tap_y c e t) (tap_x c e t) (e mod in_C c)" for t
  proof (cases "tap_inside c e t")
    case True
    then have "tap_y c e t - unat (p_pad_h c) < in_H c" "tap_x c e t - unat (p_pad_w c) < in_W c"
      by (auto simp: tap_inside_def)
    from index3_less [OF this pool_bounds(3) [OF assms(2)]] have x: "tap_index c e t < ?n" by (simp add: tap_index_def)
    have "unat (p_in_addr c) + ?n \<le> 8192" using assms(1) by (simp add: pool_ranges_def)
    then have "(ucast (p_in_addr c + word_of_nat (tap_index c e t)) :: 13 word) = word_of_nat (unat (p_in_addr c) + tap_index c e t)"
      using x by (intro bank_addr) simp_all
    moreover have "act_bytes m (p_in_addr c) ?n ! tap_index c e t = lm_act m (word_of_nat (unat (p_in_addr c) + tap_index c e t))"
      using x by (simp add: act_bytes_def)
    ultimately show ?thesis
      using True unfolding pool_tap_def padded_def tap_inside_def tap_index_def by (simp only: if_True)
  qed (auto simp: pool_tap_def padded_def tap_inside_def)
  then have t: "pool_tap c (lm_act m) e = (\<lambda>t. padded (act_bytes m (p_in_addr c) ?n) (in_H c) (in_W c) (in_C c)
      (unat (p_pad_h c)) (unat (p_pad_w c)) (tap_y c e t) (tap_x c e t) (e mod in_C c))" by (rule ext)
  have "e div (out_W c * in_C c) = e div in_C c div out_W c" by (simp only: mult.commute [of "out_W c"] div_mult2_eq)
  then show ?thesis
    by (simp only: pool_taken_def pool_window_def product_upt map_filter_map win_size_def prod.case t tap_y_def tap_x_def)
qed

lemma pool_bytes_ref:
  assumes "pool_ranges c"
  shows "ref_pool (act_bytes m (p_in_addr c) (in_H c * in_W c * in_C c)) (int (in_H c)) (int (in_W c)) (int (in_C c))
      (int (win_R c)) (int (win_S c)) (int (unat (p_stride_h c))) (int (unat (p_stride_w c))) (int (unat (p_pad_h c)))
      (int (unat (p_pad_w c))) (of_bool (p_pool_mode c)) =
    Some (map (pool_byte c (lm_act m)) [0..<pool_outs c])"
proof -
  have r: "unat (p_in_addr c) + in_H c * in_W c * in_C c \<le> 8192" "unat (p_out_addr c) + pool_outs c \<le> 8192" "0 < in_C c"
    "out_H c = out_dim (in_H c) (unat (p_pad_h c)) (win_R c) (unat (p_stride_h c))"
    "out_W c = out_dim (in_W c) (unat (p_pad_w c)) (win_S c) (unat (p_stride_w c))"
    using assms by (simp_all add: pool_ranges_def)
  have "out_H c * out_W c * 1 \<le> out_H c * out_W c * in_C c" using r(3) by (intro mult_le_mono2) simp
  then have "out_H c * out_W c \<le> 8192" "out_H c * out_W c * in_C c \<le> 8192" using r(2) unfolding pool_outs_def by linarith+
  then have o: "out_H c * out_W c < 2 ^ 31" "out_H c * out_W c * in_C c < 2 ^ 31" by simp_all
  have "in_H c + 2 * unat (p_pad_h c) \<le> 200000" "in_W c + 2 * unat (p_pad_w c) \<le> 200000"
    using unat_u16_le [of "p_in_h c"] unat_u16_le [of "p_pad_h c"] unat_u16_le [of "p_in_w c"] unat_u16_le [of "p_pad_w c"]
    by linarith+
  then have h: "in_H c + 2 * unat (p_pad_h c) < 2 ^ 31 - 1" "in_W c + 2 * unat (p_pad_w c) < 2 ^ 31 - 1" by simp_all
  have w: "0 < win_R c * win_S c" "win_R c * win_S c < 2 ^ 24" using taps_small [OF assms] by (simp_all add: win_size_def)
  have i: "length (act_bytes m (p_in_addr c) (in_H c * in_W c * in_C c)) = in_H c * in_W c * in_C c"
    "in_H c * in_W c * in_C c < 2 ^ 31" using r(1) by (simp_all add: act_bytes_def)
  have g: "win_R c \<le> in_H c + 2 * unat (p_pad_h c)" "win_S c \<le> in_W c + 2 * unat (p_pad_w c)" "0 < unat (p_stride_h c)"
    "0 < unat (p_stride_w c)" using assms by (simp_all add: pool_ranges_def)
  note e = ref_pool_eq [OF i g(1,2) h, of "unat (p_stride_h c)" "unat (p_stride_w c)" "of_bool (p_pool_mode c)",
    folded r(4,5), OF o(2) w g(3,4) o(1)]
  show ?thesis unfolding e using taken_window [OF assms, of _ m] by (simp add: pool_outs_def pool_byte_def win_size_def)
qed

section \<open>Properties\<close>

text \<open>C16: The pooling composite computes the bench's reference function.  From idle, for a command with at
  least one channel, non-zero strides, a non-empty window of less than 256 in either direction that
  fits the padded input, the output shape the host derives, and input and output in the activation
  bank and apart, it is done \<open>pool_clocks c\<close> clocks after the clock that accepts it (3 per tap
  inside the input, 2 per tap in the padding, 32 per average, 1 per result and 1 to start); the output
  bytes are then \<open>ref_pool\<close> of the input bytes, for both modes, every stride and every padding, and every
  other byte of both banks is unchanged.  The host may read meanwhile.\<close>

theorem pool_unit_computes_ref_pool:
  assumes "pl_state v = PL_IDLE" and "\<not> bias_pending_r b" and "pool_ranges c"
    and "length hs = pool_clocks c" and "\<forall>h \<in> set (h0 # hs). \<not> (host_req h \<and> host_wr h)"
    and "(v', b') = fold (unit_tick pool_ctrl_step pool_out False cmd) hs (unit_tick pool_ctrl_step pool_out True c h0 (v, b))"
  shows "pool_done v' \<and>
    ref_pool (act_bytes (local_of b) (p_in_addr c) (in_H c * in_W c * in_C c)) (int (in_H c)) (int (in_W c)) (int (in_C c))
      (int (win_R c)) (int (win_S c)) (int (unat (p_stride_h c))) (int (unat (p_stride_w c))) (int (unat (p_pad_h c)))
      (int (unat (p_pad_w c))) (of_bool (p_pool_mode c)) =
      Some (act_bytes (local_of b') (p_out_addr c) (pool_outs c)) \<and>
    lm_wt (local_of b') = lm_wt (local_of b) \<and>
    (\<forall>x. (\<forall>i < pool_outs c. x \<noteq> ucast (p_out_addr c + word_of_nat i)) \<longrightarrow>
      lm_act (local_of b') x = lm_act (local_of b) x)"
proof -
  have "leads (pool_clock c) pool_works (pool_clocks c) (bank_tick pool_ctrl_step pool_out True c (v, bank_of b))
      (\<lambda>s. pl_state (fst s) = PL_DONE \<and>
        ab_mem (snd s) = act_written (p_out_addr c) (pool_byte c (lm_act (local_of b))) (pool_outs c) (lm_act (local_of b)))"
    using pool_computes [OF assms(1,3), of "bank_of b"] by (simp add: bank_of_def)
  note r = pool.command_on_banks [OF assms(1,2,4,5) this assms(6)]
  have "unat (p_out_addr c) + pool_outs c \<le> 8192" using assms(3) by (simp add: pool_ranges_def)
  from act_bytes_written [OF this r(2)] show ?thesis
    using r(1,3) pool_bytes_ref [OF assms(3), of "local_of b"] act_written_other by (auto simp: pool_done_def r(2))
qed

definition demo_pool :: pool_cmd_t where
  "demo_pool = pool_cmd_zero\<lparr>p_out_addr := 0x40, p_in_h := 2, p_in_w := 2, p_in_c := 1, p_pool_r := 2, p_pool_s := 2,
     p_stride_h := 1, p_stride_w := 1, p_out_h := 1, p_out_w := 1, p_pool_mode := True\<rparr>"

lemma demo_pool_ok: "pool_ranges demo_pool" "pool_clocks demo_pool = 46" "pool_outs demo_pool = 1"
  by (simp_all add: demo_pool_def pool_cmd_zero_def pool_ranges_def pool_outs_def out_dim_def pool_clocks_def out_clocks_def
      win_size_def tap_inside_def tap_y_def tap_x_def lessThan_nat_numeral)

theorem pool_unit_computes_ref_pool_witness:
  "\<exists>v' b'. (v', b') = fold (unit_tick pool_ctrl_step pool_out False demo_pool) (replicate 46 quiet_host)
      (unit_tick pool_ctrl_step pool_out True demo_pool quiet_host (pool_reset, reset_buffers)) \<and> pool_done v' \<and>
    ref_pool (act_bytes (local_of reset_buffers) 0 4) 2 2 1 2 2 1 1 0 0 1 = Some (act_bytes (local_of b') 0x40 1)"
proof -
  obtain v' b' where t: "(v', b') = fold (unit_tick pool_ctrl_step pool_out False demo_pool) (replicate 46 quiet_host)
      (unit_tick pool_ctrl_step pool_out True demo_pool quiet_host (pool_reset, reset_buffers))"
    by (metis surj_pair)
  with pool_unit_computes_ref_pool [OF _ _ demo_pool_ok(1) _ _ t] show ?thesis
    by (intro exI [of _ v'] exI [of _ b'])
      (simp add: demo_pool_ok pool_reset_def reset_buffers_def quiet_host_def, simp add: demo_pool_def pool_cmd_zero_def)
qed

end
