(* ===== verification/Npu_Softmax.thy ===== *)
theory Npu_Softmax
  imports Npu_Composite
begin

text \<open>
  The softmax composite (\<open>rtl/composites/softmax\<close>): three passes over each row, with the exponential
  from two tables and a serial divider, clock by clock.
\<close>

section \<open>The exponential (\<open>softmax_exp_lut.sv\<close>)\<close>

definition lut_int :: "u16 list" where
  "lut_int = [65535, 24109, 8869, 3263, 1200, 442, 162, 60]"

definition lut_frac :: "u16 list" where
  "lut_frac =
     [65535, 63519, 61564, 59670, 57834, 56055, 54330, 52659,
      51039, 49468, 47946, 46471, 45042, 43656, 42313, 41011,
      39749, 38526, 37341, 36192, 35078, 33999, 32953, 31939,
      30957, 30004, 29081, 28186, 27319, 26479, 25664, 24874]"

definition softmax_exp_lut :: "u8 \<Rightarrow> u16" where
  "softmax_exp_lut diff =
     (let int_part = unat (drop_bit 5 diff); frac_part = unat (take_bit 5 diff);
          product = ucast (lut_int ! int_part) * ucast (lut_frac ! frac_part) :: u32
      in ucast (drop_bit 16 product))"

section \<open>State machine and registers\<close>

datatype softmax_state =
  SM_IDLE | SM_LOAD_CFG | SM_FIND_MAX | SM_EXP_SUM | SM_NORM_RD | SM_NORM_WAIT | SM_NORM_DIV | SM_NORM_WR | SM_DONE

text \<open>The parameter registers are latched together, as \<open>sm_cmd\<close>.\<close>

record softmax_ctrl =
  sm_state :: softmax_state
  sm_cmd :: softmax_cmd_t
  sm_row_r :: u16
  req_cnt_r :: u16
  rcv_cnt_r :: u16
  max_val_r :: u8
  sum_r :: u32
  norm_idx_r :: u16
  sm_numer_r :: "24 word"
  sm_rem_r :: u32
  sm_quot_r :: u8
  sm_cnt_r :: "5 word"
  row_base_in_r :: u16
  row_base_out_r :: u16
  exp_sum_rvalid_d :: bool
  exp_sum_lut_d :: u16

text \<open>Comparisons with a dimension minus one are on 32 bits, the width of the literal.\<close>

definition rcv_last :: "softmax_ctrl \<Rightarrow> bool" where
  "rcv_last v = ((ucast (rcv_cnt_r v) :: u32) = ucast (s_row_len (sm_cmd v)) - 1)"

definition norm_last :: "softmax_ctrl \<Rightarrow> bool" where
  "norm_last v = ((ucast (norm_idx_r v) :: u32) = ucast (s_row_len (sm_cmd v)) - 1)"

definition row_last :: "softmax_ctrl \<Rightarrow> bool" where
  "row_last v = ((ucast (sm_row_r v) :: u32) = ucast (s_num_rows (sm_cmd v)) - 1)"

definition more_rows :: "softmax_ctrl \<Rightarrow> bool" where
  "more_rows v = ((ucast (sm_row_r v) :: u32) < ucast (s_num_rows (sm_cmd v)) - 1)"

definition softmax_next_state :: "bool \<Rightarrow> act_in \<Rightarrow> softmax_ctrl \<Rightarrow> softmax_state" where
  "softmax_next_state cmd_valid i v = (case sm_state v of
     SM_IDLE \<Rightarrow> if cmd_valid then SM_LOAD_CFG else SM_IDLE
   | SM_LOAD_CFG \<Rightarrow> SM_FIND_MAX
   | SM_FIND_MAX \<Rightarrow> if ai_rvalid i \<and> rcv_last v then SM_EXP_SUM else SM_FIND_MAX
   | SM_EXP_SUM \<Rightarrow> if rcv_cnt_r v = s_row_len (sm_cmd v) then SM_NORM_RD else SM_EXP_SUM
   | SM_NORM_RD \<Rightarrow> if ai_rd_gnt i then SM_NORM_WAIT else SM_NORM_RD
   | SM_NORM_WAIT \<Rightarrow> if ai_rvalid i then SM_NORM_DIV else SM_NORM_WAIT
   | SM_NORM_DIV \<Rightarrow> if sm_cnt_r v = 23 then SM_NORM_WR else SM_NORM_DIV
   | SM_NORM_WR \<Rightarrow> if ai_wr_gnt i then (if norm_last v then (if row_last v then SM_DONE else SM_FIND_MAX) else SM_NORM_RD)
       else SM_NORM_WR
   | SM_DONE \<Rightarrow> SM_IDLE)"

text \<open>One step of the restoring divider: the shifted remainder and the trial difference, on 33 bits.\<close>

definition sm_shifted :: "softmax_ctrl \<Rightarrow> u32" where
  "sm_shifted v = 2 * sm_rem_r v + of_bool (bit (sm_numer_r v) 23)"

definition sm_trial :: "softmax_ctrl \<Rightarrow> 33 word" where
  "sm_trial v = ucast (sm_shifted v) - ucast (sum_r v)"

definition softmax_ctrl_step :: "bool \<Rightarrow> softmax_cmd_t \<Rightarrow> act_in \<Rightarrow> softmax_ctrl \<Rightarrow> softmax_ctrl" where
  "softmax_ctrl_step cmd_valid cmd i v =
     (let c = sm_cmd v;
          latch = (sm_state v = SM_IDLE \<and> cmd_valid);
          load = (sm_state v = SM_LOAD_CFG);
          find = (sm_state v = SM_FIND_MAX);
          accumulate = (sm_state v = SM_EXP_SUM);
          written = (sm_state v = SM_NORM_WR \<and> ai_wr_gnt i);
          next_row = (written \<and> norm_last v \<and> more_rows v);
          lut = softmax_exp_lut (max_val_r v - ai_rdata i);
          start_div = (sm_state v = SM_NORM_WAIT \<and> ai_rvalid i);
          dividing = (sm_state v = SM_NORM_DIV);
          restart = (load \<or> find \<and> rcv_last v \<and> ai_rvalid i \<or> next_row)
      in \<lparr>sm_state = softmax_next_state cmd_valid i v,
          sm_cmd = (if latch then cmd else c),
          sm_row_r = (if load then 0 else if next_row then sm_row_r v + 1 else sm_row_r v),
          req_cnt_r = (if restart then 0
                       else if (find \<or> accumulate) \<and> ai_rd_gnt i \<and> req_cnt_r v < s_row_len c then req_cnt_r v + 1
                       else req_cnt_r v),
          rcv_cnt_r = (if restart then 0
                       else if (find \<or> accumulate) \<and> ai_rvalid i then rcv_cnt_r v + 1 else rcv_cnt_r v),
          max_val_r = (if load \<or> next_row then 0x80
                       else if find \<and> ai_rvalid i \<and> max_val_r v <s ai_rdata i then ai_rdata i else max_val_r v),
          sum_r = (if load \<or> next_row then 0
                   else if exp_sum_rvalid_d v then sum_r v + ucast (exp_sum_lut_d v) else sum_r v),
          norm_idx_r = (if accumulate \<and> rcv_cnt_r v = s_row_len c then 0
                        else if written then (if norm_last v then 0 else norm_idx_r v + 1) else norm_idx_r v),
          sm_numer_r = (if start_div then ucast lut * 127 else if dividing then 2 * sm_numer_r v else sm_numer_r v),
          sm_rem_r = (if start_div then 0
                      else if dividing then (if \<not> bit (sm_trial v) 32 then ucast (sm_trial v) else sm_shifted v)
                      else sm_rem_r v),
          sm_quot_r = (if start_div then 0
                       else if dividing then 2 * sm_quot_r v + of_bool (\<not> bit (sm_trial v) 32) else sm_quot_r v),
          sm_cnt_r = (if start_div then 0 else if dividing then sm_cnt_r v + 1 else sm_cnt_r v),
          row_base_in_r = (if load then s_in_addr c else if next_row then row_base_in_r v + s_row_len c else row_base_in_r v),
          row_base_out_r = (if load then s_out_addr c else if next_row then row_base_out_r v + s_row_len c else row_base_out_r v),
          exp_sum_rvalid_d = (accumulate \<and> ai_rvalid i),
          exp_sum_lut_d = (if accumulate \<and> ai_rvalid i then lut else exp_sum_lut_d v)\<rparr>)"

definition norm_result :: "softmax_ctrl \<Rightarrow> u8" where
  "norm_result v = (if 127 < sm_quot_r v then 127 else sm_quot_r v)"

definition softmax_out :: "softmax_ctrl \<Rightarrow> act_out" where
  "softmax_out v =
     (let scan = (sm_state v = SM_FIND_MAX \<or> sm_state v = SM_EXP_SUM)
      in \<lparr>ao_rd_addr = (if scan then row_base_in_r v + req_cnt_r v
                        else if sm_state v = SM_NORM_RD then row_base_in_r v + norm_idx_r v else 0),
          ao_rd_req = (if scan then req_cnt_r v < s_row_len (sm_cmd v) else sm_state v = SM_NORM_RD),
          ao_wr_addr = row_base_out_r v + norm_idx_r v, ao_wr_data = norm_result v,
          ao_wr_req = (sm_state v = SM_NORM_WR)\<rparr>)"

definition softmax_cmd_ready :: "softmax_ctrl \<Rightarrow> bool" where
  "softmax_cmd_ready v = (sm_state v = SM_IDLE)"

definition softmax_done :: "softmax_ctrl \<Rightarrow> bool" where
  "softmax_done v = (sm_state v = SM_DONE)"

definition softmax_busy :: "softmax_ctrl \<Rightarrow> bool" where
  "softmax_busy v = (sm_state v \<noteq> SM_IDLE)"

definition softmax_cmd_zero :: softmax_cmd_t where
  "softmax_cmd_zero = \<lparr>s_in_addr = 0, s_out_addr = 0, s_num_rows = 0, s_row_len = 0\<rparr>"

definition softmax_reset :: softmax_ctrl where
  "softmax_reset = \<lparr>sm_state = SM_IDLE, sm_cmd = softmax_cmd_zero, sm_row_r = 0, req_cnt_r = 0, rcv_cnt_r = 0,
     max_val_r = 0x80, sum_r = 0, norm_idx_r = 0, sm_numer_r = 0, sm_rem_r = 0, sm_quot_r = 0, sm_cnt_r = 0,
     row_base_in_r = 0, row_base_out_r = 0, exp_sum_rvalid_d = False, exp_sum_lut_d = 0\<rparr>"

section \<open>What a command computes\<close>

abbreviation rows_of :: "softmax_cmd_t \<Rightarrow> nat" where "rows_of c \<equiv> unat (s_num_rows c)"

abbreviation len_of_row :: "softmax_cmd_t \<Rightarrow> nat" where "len_of_row c \<equiv> unat (s_row_len c)"

definition softmax_row_in :: "softmax_cmd_t \<Rightarrow> (13 word \<Rightarrow> u8) \<Rightarrow> nat \<Rightarrow> u8 list" where
  "softmax_row_in c m r = map (\<lambda>i. m (ucast (s_in_addr c + word_of_nat (r * len_of_row c + i)))) [0..<len_of_row c]"

definition softmax_byte :: "softmax_cmd_t \<Rightarrow> (13 word \<Rightarrow> u8) \<Rightarrow> nat \<Rightarrow> u8" where
  "softmax_byte c m e = (let xs = softmax_row_in c m (e div len_of_row c)
     in word_of_nat (softmax_value xs (xs ! (e mod len_of_row c))))"

text \<open>The clocks of a command after the one that accepts it.\<close>

definition softmax_clocks :: "softmax_cmd_t \<Rightarrow> nat" where
  "softmax_clocks c = 1 + rows_of c * (29 * len_of_row c + 3)"

text \<open>Rows in the bank, and results that do not overwrite elements still to be read; in place is allowed.\<close>

definition softmax_ranges :: "softmax_cmd_t \<Rightarrow> bool" where
  "softmax_ranges c = (let n = rows_of c * len_of_row c
     in 0 < rows_of c \<and> 0 < len_of_row c \<and> unat (s_in_addr c) + n \<le> 8192 \<and> unat (s_out_addr c) + n \<le> 8192 \<and>
        (unat (s_out_addr c) \<le> unat (s_in_addr c) \<or> unat (s_in_addr c) + n \<le> unat (s_out_addr c)))"

section \<open>Phases\<close>

text \<open>Row \<open>r\<close> is being worked on and the results before element \<open>i\<close> of it are written.\<close>

definition row_at :: "softmax_cmd_t \<Rightarrow> (13 word \<Rightarrow> u8) \<Rightarrow> nat \<Rightarrow> nat \<Rightarrow> softmax_ctrl \<times> act_bank \<Rightarrow> bool" where
  "row_at c m r i s = (sm_cmd (fst s) = c \<and> sm_row_r (fst s) = word_of_nat r \<and>
     row_base_in_r (fst s) = s_in_addr c + word_of_nat (r * len_of_row c) \<and>
     row_base_out_r (fst s) = s_out_addr c + word_of_nat (r * len_of_row c) \<and>
     ab_mem (snd s) = act_written (s_out_addr c) (softmax_byte c m) (r * len_of_row c + i) m)"

text \<open>The sum of the exponentials of the first \<open>k\<close> elements.\<close>

definition exp_sum :: "u8 list \<Rightarrow> nat \<Rightarrow> u32" where
  "exp_sum xs k = fold (\<lambda>x s. s + ucast (softmax_exp_approx (row_max xs - x))) (take k xs) 0"

text \<open>\<open>k\<close> clocks into the first pass and into the second one: a request per clock, its answer a clock later,
  and in the second pass its exponential another clock later.\<close>

definition finding :: "softmax_cmd_t \<Rightarrow> (13 word \<Rightarrow> u8) \<Rightarrow> nat \<Rightarrow> nat \<Rightarrow> softmax_ctrl \<times> act_bank \<Rightarrow> bool" where
  "finding c m r k s = (let v = fst s; xs = softmax_row_in c m r
     in row_at c m r 0 s \<and> sm_state v = SM_FIND_MAX \<and> req_cnt_r v = word_of_nat k \<and> rcv_cnt_r v = word_of_nat (k - 1) \<and>
        ab_rvalid (snd s) = (0 < k) \<and> (0 < k \<longrightarrow> ab_rdata (snd s) = xs ! (k - 1)) \<and>
        max_val_r v = row_max (take (k - 1) xs) \<and> sum_r v = 0 \<and> \<not> exp_sum_rvalid_d v)"

definition summing :: "softmax_cmd_t \<Rightarrow> (13 word \<Rightarrow> u8) \<Rightarrow> nat \<Rightarrow> nat \<Rightarrow> softmax_ctrl \<times> act_bank \<Rightarrow> bool" where
  "summing c m r k s = (let v = fst s; xs = softmax_row_in c m r; n = len_of_row c
     in row_at c m r 0 s \<and> sm_state v = SM_EXP_SUM \<and> req_cnt_r v = word_of_nat (min k n) \<and> rcv_cnt_r v = word_of_nat (k - 1) \<and>
        ab_rvalid (snd s) = (0 < k \<and> k \<le> n) \<and> (0 < k \<and> k \<le> n \<longrightarrow> ab_rdata (snd s) = xs ! (k - 1)) \<and>
        max_val_r v = row_max xs \<and> exp_sum_rvalid_d v = (2 \<le> k) \<and>
        (2 \<le> k \<longrightarrow> exp_sum_lut_d v = softmax_exp_approx (row_max xs - xs ! (k - 2))) \<and> sum_r v = exp_sum xs (k - 2))"

definition norm_at :: "softmax_cmd_t \<Rightarrow> (13 word \<Rightarrow> u8) \<Rightarrow> nat \<Rightarrow> nat \<Rightarrow> softmax_ctrl \<times> act_bank \<Rightarrow> bool" where
  "norm_at c m r i s = (let v = fst s; xs = softmax_row_in c m r
     in row_at c m r i s \<and> norm_idx_r v = word_of_nat i \<and> max_val_r v = row_max xs \<and> sum_r v = exp_sum xs (length xs) \<and>
        \<not> exp_sum_rvalid_d v)"

text \<open>About to normalise element \<open>i\<close> of row \<open>r\<close>, to start the next row, or done.\<close>

definition norm_next :: "softmax_cmd_t \<Rightarrow> (13 word \<Rightarrow> u8) \<Rightarrow> nat \<Rightarrow> nat \<Rightarrow> softmax_ctrl \<times> act_bank \<Rightarrow> bool" where
  "norm_next c m r i s =
     (if i < len_of_row c then sm_state (fst s) = SM_NORM_RD \<and> norm_at c m r i s
      else if Suc r < rows_of c then finding c m (Suc r) 0 s
      else sm_state (fst s) = SM_DONE \<and>
        ab_mem (snd s) = act_written (s_out_addr c) (softmax_byte c m) (rows_of c * len_of_row c) m)"

text \<open>The divider after \<open>j\<close> of its 24 rounds on \<open>n\<close>.\<close>

definition sm_div_at :: "nat \<Rightarrow> nat \<Rightarrow> nat \<Rightarrow> softmax_ctrl \<Rightarrow> bool" where
  "sm_div_at n d j v = (unat (sm_numer_r v) = n mod 2 ^ (24 - j) * 2 ^ j \<and>
     unat (sm_rem_r v) = n div 2 ^ (24 - j) mod d \<and> unat (sm_quot_r v) = n div 2 ^ (24 - j) div d mod 256)"

section \<open>One clock, state by state\<close>

lemma softmax_step_load:
  "sm_state v = SM_LOAD_CFG \<Longrightarrow> softmax_ctrl_step cv cmd i v = v\<lparr>sm_state := SM_FIND_MAX, sm_row_r := 0, req_cnt_r := 0,
     rcv_cnt_r := 0, max_val_r := 0x80, sum_r := 0, row_base_in_r := s_in_addr (sm_cmd v),
     row_base_out_r := s_out_addr (sm_cmd v), exp_sum_rvalid_d := False\<rparr>"
  by (simp add: softmax_ctrl_step_def softmax_next_state_def Let_def)

lemma softmax_step_find:
  assumes "sm_state v = SM_FIND_MAX"
  shows "ai_rvalid i \<Longrightarrow> rcv_last v \<Longrightarrow> softmax_ctrl_step cv cmd i v = v\<lparr>sm_state := SM_EXP_SUM, req_cnt_r := 0, rcv_cnt_r := 0,
      max_val_r := (if max_val_r v <s ai_rdata i then ai_rdata i else max_val_r v),
      sum_r := (if exp_sum_rvalid_d v then sum_r v + ucast (exp_sum_lut_d v) else sum_r v), exp_sum_rvalid_d := False\<rparr>"
    and "\<not> (ai_rvalid i \<and> rcv_last v) \<Longrightarrow> softmax_ctrl_step cv cmd i v = v\<lparr>
      req_cnt_r := (if ai_rd_gnt i \<and> req_cnt_r v < s_row_len (sm_cmd v) then req_cnt_r v + 1 else req_cnt_r v),
      rcv_cnt_r := (if ai_rvalid i then rcv_cnt_r v + 1 else rcv_cnt_r v),
      max_val_r := (if ai_rvalid i \<and> max_val_r v <s ai_rdata i then ai_rdata i else max_val_r v),
      sum_r := (if exp_sum_rvalid_d v then sum_r v + ucast (exp_sum_lut_d v) else sum_r v), exp_sum_rvalid_d := False\<rparr>"
  using assms by (auto simp: softmax_ctrl_step_def softmax_next_state_def Let_def)

lemma softmax_step_sum:
  assumes "sm_state v = SM_EXP_SUM"
  shows "softmax_ctrl_step cv cmd i v = v\<lparr>sm_state := (if rcv_cnt_r v = s_row_len (sm_cmd v) then SM_NORM_RD else SM_EXP_SUM),
      req_cnt_r := (if ai_rd_gnt i \<and> req_cnt_r v < s_row_len (sm_cmd v) then req_cnt_r v + 1 else req_cnt_r v),
      rcv_cnt_r := (if ai_rvalid i then rcv_cnt_r v + 1 else rcv_cnt_r v),
      norm_idx_r := (if rcv_cnt_r v = s_row_len (sm_cmd v) then 0 else norm_idx_r v),
      sum_r := (if exp_sum_rvalid_d v then sum_r v + ucast (exp_sum_lut_d v) else sum_r v),
      exp_sum_rvalid_d := ai_rvalid i,
      exp_sum_lut_d := (if ai_rvalid i then softmax_exp_lut (max_val_r v - ai_rdata i) else exp_sum_lut_d v)\<rparr>"
  using assms by (simp add: softmax_ctrl_step_def softmax_next_state_def Let_def)

lemma softmax_step_read:
  "sm_state v = SM_NORM_RD \<Longrightarrow> \<not> exp_sum_rvalid_d v \<Longrightarrow> softmax_ctrl_step cv cmd i v =
     v\<lparr>sm_state := (if ai_rd_gnt i then SM_NORM_WAIT else SM_NORM_RD)\<rparr>"
  "sm_state v = SM_NORM_WAIT \<Longrightarrow> \<not> exp_sum_rvalid_d v \<Longrightarrow> ai_rvalid i \<Longrightarrow> softmax_ctrl_step cv cmd i v =
     v\<lparr>sm_state := SM_NORM_DIV, sm_numer_r := ucast (softmax_exp_lut (max_val_r v - ai_rdata i)) * 127, sm_rem_r := 0,
       sm_quot_r := 0, sm_cnt_r := 0\<rparr>"
  "sm_state v = SM_NORM_DIV \<Longrightarrow> \<not> exp_sum_rvalid_d v \<Longrightarrow> softmax_ctrl_step cv cmd i v =
     v\<lparr>sm_state := (if sm_cnt_r v = 23 then SM_NORM_WR else SM_NORM_DIV), sm_numer_r := 2 * sm_numer_r v,
       sm_rem_r := (if \<not> bit (sm_trial v) 32 then ucast (sm_trial v) else sm_shifted v),
       sm_quot_r := 2 * sm_quot_r v + of_bool (\<not> bit (sm_trial v) 32), sm_cnt_r := sm_cnt_r v + 1\<rparr>"
  by (simp_all add: softmax_ctrl_step_def softmax_next_state_def Let_def)

lemma softmax_step_write:
  assumes "sm_state v = SM_NORM_WR" and "ai_wr_gnt i" and "\<not> exp_sum_rvalid_d v"
  shows "\<not> norm_last v \<Longrightarrow> softmax_ctrl_step cv cmd i v = v\<lparr>sm_state := SM_NORM_RD, norm_idx_r := norm_idx_r v + 1\<rparr>"
    and "norm_last v \<Longrightarrow> \<not> row_last v \<Longrightarrow> more_rows v \<Longrightarrow> softmax_ctrl_step cv cmd i v = v\<lparr>sm_state := SM_FIND_MAX,
      sm_row_r := sm_row_r v + 1, req_cnt_r := 0, rcv_cnt_r := 0, max_val_r := 0x80, sum_r := 0, norm_idx_r := 0,
      row_base_in_r := row_base_in_r v + s_row_len (sm_cmd v), row_base_out_r := row_base_out_r v + s_row_len (sm_cmd v)\<rparr>"
    and "norm_last v \<Longrightarrow> row_last v \<Longrightarrow> sm_state (softmax_ctrl_step cv cmd i v) = SM_DONE"
  using assms by (simp_all add: softmax_ctrl_step_def softmax_next_state_def Let_def)

lemma softmax_port_ignored:
  assumes "sm_state v \<noteq> SM_IDLE"
  shows "softmax_ctrl_step cv c i v = softmax_ctrl_step cv' c' i v"
proof -
  have "softmax_next_state cv i v = softmax_next_state cv' i v"
    using assms by (cases "sm_state v") (simp_all add: softmax_next_state_def)
  then show ?thesis by (simp only: softmax_ctrl_step_def assms simp_thms if_False Let_def)
qed

interpretation softmax: latched softmax_ctrl_step softmax_out "\<lambda>v. sm_state v = SM_IDLE" "\<lambda>v. sm_state v = SM_DONE"
proof (unfold_locales, goal_cases)
  case (6 v cv c i)
  then show ?case by (rule softmax_port_ignored)
next
  case (7 v cv c i c')
  then show ?case by (rule softmax_port_ignored)
qed (simp_all add: softmax_out_def softmax_ctrl_step_def softmax_next_state_def Let_def)

abbreviation softmax_clock :: "softmax_cmd_t \<Rightarrow> softmax_ctrl \<times> act_bank \<Rightarrow> softmax_ctrl \<times> act_bank" where
  "softmax_clock c \<equiv> bank_tick softmax_ctrl_step softmax_out False c"

abbreviation softmax_works :: "softmax_ctrl \<times> act_bank \<Rightarrow> bool" where
  "softmax_works s \<equiv> sm_state (fst s) \<noteq> SM_IDLE \<and> sm_state (fst s) \<noteq> SM_DONE"

section \<open>The exponential, the running maximum and the running sum\<close>

lemma exp_lut_approx: "softmax_exp_lut d = softmax_exp_approx d"
proof -
  have "lut_int = exp_int" "lut_frac = exp_frac" by (simp_all add: lut_int_def exp_int_def lut_frac_def exp_frac_def)
  moreover have "take_bit 5 d = d AND 31" by (simp add: take_bit_eq_mask mask_eq_exp_minus_1)
  ultimately show ?thesis by (simp add: softmax_exp_lut_def softmax_exp_approx_def Let_def)
qed

lemma row_max_Nil: "row_max [] = 0x80"
  by (simp add: row_max_def)

lemma row_max_take:
  "k < length xs \<Longrightarrow> row_max (take (Suc k) xs) = (if row_max (take k xs) <s xs ! k then xs ! k else row_max (take k xs))"
  by (simp add: row_max_def take_Suc_conv_app_nth word_sless_alt)

lemma exp_sum_0 [simp]: "exp_sum xs 0 = 0"
  by (simp add: exp_sum_def)

lemma exp_sum_Suc:
  "k < length xs \<Longrightarrow> exp_sum xs (Suc k) = exp_sum xs k + ucast (softmax_exp_approx (row_max xs - xs ! k))"
  by (simp add: exp_sum_def take_Suc_conv_app_nth)

lemma exp_sum_all: "length xs \<le> 65535 \<Longrightarrow> unat (exp_sum xs (length xs)) = sum_list (map (softmax_exp xs) xs)"
  unfolding exp_sum_def by (subst unat_fold_sum) (simp_all add: softmax_exp_def [abs_def])

lemma length_row_in [simp]: "length (softmax_row_in c m r) = len_of_row c"
  by (simp add: softmax_row_in_def)

section \<open>The first two passes\<close>

text \<open>An element that is still to be read has not been overwritten.\<close>

lemma softmax_input:
  assumes "softmax_ranges c" and "r < rows_of c" and "i < len_of_row c" and "p \<le> r * len_of_row c + i"
  shows "act_written (s_out_addr c) g p m (ucast (s_in_addr c + word_of_nat (r * len_of_row c) + word_of_nat i)) =
    softmax_row_in c m r ! i"
proof -
  let ?n = "rows_of c * len_of_row c" and ?e = "r * len_of_row c + i"
  have e: "?e < ?n" by (rule radix_less [OF assms(2,3)])
  have a: "s_in_addr c + word_of_nat (r * len_of_row c) + word_of_nat i = s_in_addr c + word_of_nat ?e"
    by (simp only: of_nat_add add.assoc)
  have "unat (s_in_addr c) + ?n \<le> 8192" "unat (s_out_addr c) + ?n \<le> 8192"
    "unat (s_out_addr c) \<le> unat (s_in_addr c) \<or> unat (s_in_addr c) + ?n \<le> unat (s_out_addr c)"
    using assms(1) by (simp_all add: softmax_ranges_def Let_def)
  from act_written_ahead [OF this e assms(4)]
  show ?thesis using assms(3) unfolding a by (simp add: softmax_row_in_def)
qed

lemma len_word: "word_of_nat k = (n :: u16) \<longleftrightarrow> k = unat n" if "k \<le> 65535"
  using that by (simp add: word_unat_eq_iff unat_of_nat take_bit_nat_eq_self)

lemma len_less: "word_of_nat k < (n :: u16) \<longleftrightarrow> k < unat n" if "k \<le> 65535"
  using that by (simp add: word_less_nat_alt unat_of_nat take_bit_nat_eq_self)

lemma finding_step:
  assumes "softmax_ranges c" and "r < rows_of c" and "k < len_of_row c" and "finding c m r k s"
  shows "finding c m r (Suc k) (softmax_clock c s)"
proof -
  obtain v a where s: "s = (v, a)" by fastforce
  let ?xs = "softmax_row_in c m r"
  have v: "sm_state v = SM_FIND_MAX" "sm_cmd v = c" "req_cnt_r v = word_of_nat k" "rcv_cnt_r v = word_of_nat (k - 1)"
    "ab_rvalid a = (0 < k)" "0 < k \<longrightarrow> ab_rdata a = ?xs ! (k - 1)" "max_val_r v = row_max (take (k - 1) ?xs)"
    "sum_r v = 0" "\<not> exp_sum_rvalid_d v"
    "row_base_in_r v = s_in_addr c + word_of_nat (r * len_of_row c)"
    "ab_mem a = act_written (s_out_addr c) (softmax_byte c m) (r * len_of_row c) m"
    "sm_row_r v = word_of_nat r" "row_base_out_r v = s_out_addr c + word_of_nat (r * len_of_row c)"
    using assms(4) by (simp_all add: finding_def row_at_def Let_def s)
  have n: "len_of_row c \<le> 65535" by (rule unat_u16_le)
  have k: "(word_of_nat k :: u16) < s_row_len c" using assms(3) n by (simp add: len_less)
  have "k - 1 < unat (s_row_len c)" using assms(3) by simp
  then have "\<not> (0 < k \<and> rcv_last v)" unfolding rcv_last_def v(2,4) counter16(1) [OF \<open>k - 1 < _\<close>] using assms(3) by auto
  then have "\<not> (ai_rvalid (bank_in (softmax_out v) a) \<and> rcv_last v)" by (simp add: bank_in_def v(5))
  note st = softmax_step_find(2) [OF v(1) this]
  have rd: "ab_mem a (ucast (row_base_in_r v + word_of_nat k)) = ?xs ! k"
    unfolding v(10,11) by (rule softmax_input [OF assms(1-3)]) simp
  have rm: "row_max (take (Suc (k - 1)) ?xs) = (if row_max (take (k - 1) ?xs) <s ?xs ! (k - 1) then ?xs ! (k - 1)
      else row_max (take (k - 1) ?xs))" using assms(3) by (intro row_max_take) simp
  have "fst (softmax_clock c s) = softmax_ctrl_step False c (bank_in (softmax_out v) a) v"
    by (simp add: s bank_tick_def)
  note f = this [unfolded st]
  have "snd (softmax_clock c s) = a\<lparr>ab_rdata := ?xs ! k, ab_rvalid := True\<rparr>"
    using v(1-3) k rd by (simp_all add: s bank_tick_def bank_step_def softmax_out_def)
  then show ?thesis
    using v k rm
    by (cases k) (simp_all add: finding_def row_at_def Let_def f bank_in_def softmax_out_def)
qed

lemma finding_last:
  assumes "softmax_ranges c" and "r < rows_of c" and "finding c m r (len_of_row c) s"
  shows "summing c m r 0 (softmax_clock c s)"
proof -
  obtain v a where s: "s = (v, a)" by fastforce
  let ?xs = "softmax_row_in c m r" and ?n = "len_of_row c"
  have v: "sm_state v = SM_FIND_MAX" "sm_cmd v = c" "req_cnt_r v = word_of_nat ?n" "rcv_cnt_r v = word_of_nat (?n - 1)"
    "ab_rvalid a = (0 < ?n)" "0 < ?n \<longrightarrow> ab_rdata a = ?xs ! (?n - 1)" "max_val_r v = row_max (take (?n - 1) ?xs)"
    "sum_r v = 0" "\<not> exp_sum_rvalid_d v"
    "row_base_in_r v = s_in_addr c + word_of_nat (r * len_of_row c)"
    "ab_mem a = act_written (s_out_addr c) (softmax_byte c m) (r * len_of_row c) m"
    "sm_row_r v = word_of_nat r" "row_base_out_r v = s_out_addr c + word_of_nat (r * len_of_row c)"
    using assms(3) by (simp_all add: finding_def row_at_def Let_def s)
  have n: "0 < ?n" using assms(1) by (simp add: softmax_ranges_def Let_def)
  then have "?n - 1 < unat (s_row_len c)" by simp
  then have l: "rcv_last v" unfolding rcv_last_def v(2,4) counter16(1) [OF \<open>?n - 1 < _\<close>] using n by simp
  have "ai_rvalid (bank_in (softmax_out v) a)" using n by (simp add: bank_in_def v(5))
  note st = softmax_step_find(1) [OF v(1) this l]
  have "row_max (take (Suc (?n - 1)) ?xs) = (if row_max (take (?n - 1) ?xs) <s ?xs ! (?n - 1) then ?xs ! (?n - 1)
      else row_max (take (?n - 1) ?xs))" using n by (intro row_max_take) simp
  then have rm: "(if row_max (take (?n - 1) ?xs) <s ?xs ! (?n - 1) then ?xs ! (?n - 1) else row_max (take (?n - 1) ?xs)) = row_max ?xs"
    using n by simp
  have "fst (softmax_clock c s) = softmax_ctrl_step False c (bank_in (softmax_out v) a) v"
    by (simp add: s bank_tick_def)
  note f = this [unfolded st]
  have "snd (softmax_clock c s) = a\<lparr>ab_rvalid := False\<rparr>"
    using v(1-3) by (simp_all add: s bank_tick_def bank_step_def softmax_out_def)
  then show ?thesis
    using v n rm by (simp add: summing_def row_at_def Let_def f bank_in_def softmax_out_def split: if_splits)
qed

lemma summing_step:
  assumes "softmax_ranges c" and "r < rows_of c" and "k \<le> len_of_row c" and "summing c m r k s"
  shows "summing c m r (Suc k) (softmax_clock c s)"
proof -
  obtain v a where s: "s = (v, a)" by fastforce
  let ?xs = "softmax_row_in c m r" and ?n = "len_of_row c"
  have v: "sm_state v = SM_EXP_SUM" "sm_cmd v = c" "req_cnt_r v = word_of_nat (min k ?n)" "rcv_cnt_r v = word_of_nat (k - 1)"
    "ab_rvalid a = (0 < k)" "0 < k \<longrightarrow> ab_rdata a = ?xs ! (k - 1)" "max_val_r v = row_max ?xs"
    "exp_sum_rvalid_d v = (2 \<le> k)" "2 \<le> k \<longrightarrow> exp_sum_lut_d v = softmax_exp_approx (row_max ?xs - ?xs ! (k - 2))"
    "sum_r v = exp_sum ?xs (k - 2)"
    "row_base_in_r v = s_in_addr c + word_of_nat (r * len_of_row c)"
    "ab_mem a = act_written (s_out_addr c) (softmax_byte c m) (r * len_of_row c) m"
    "sm_row_r v = word_of_nat r" "row_base_out_r v = s_out_addr c + word_of_nat (r * len_of_row c)"
    using assms(3,4) by (simp_all add: summing_def row_at_def Let_def s)
  have n: "?n \<le> 65535" "0 < ?n" using assms(1) unat_u16_le by (simp_all add: softmax_ranges_def Let_def)
  have req: "req_cnt_r v < s_row_len c \<longleftrightarrow> k < ?n"
    unfolding v(3) using n by (subst len_less) (auto simp: min_def)
  have rcv: "rcv_cnt_r v \<noteq> s_row_len c" unfolding v(4) using n assms(3) by (subst len_word) linarith+
  have rd: "ab_mem a (ucast (row_base_in_r v + req_cnt_r v)) = ?xs ! k" if "k < ?n"
    unfolding v(11,12,3) min_absorb1 [OF less_imp_le [OF that]] by (rule softmax_input [OF assms(1,2) that]) simp
  have sum: "exp_sum ?xs (Suc k - 2) = (if 2 \<le> k then sum_r v + ucast (exp_sum_lut_d v) else sum_r v)"
  proof (cases "2 \<le> k")
    case True
    then have "exp_sum ?xs (Suc (k - 2)) = exp_sum ?xs (k - 2) + ucast (softmax_exp_approx (row_max ?xs - ?xs ! (k - 2)))"
      using assms(3) by (intro exp_sum_Suc) simp
    moreover have "Suc k - 2 = Suc (k - 2)" using True by simp
    ultimately show ?thesis using True v(9,10) by simp
  next
    case False
    then have "Suc k - 2 = 0" "k - 2 = 0" by simp_all
    then show ?thesis using False v(10) by simp
  qed
  have b: "snd (softmax_clock c s) = a\<lparr>ab_rdata := (if k < ?n then ?xs ! k else ab_rdata a), ab_rvalid := (k < ?n)\<rparr>"
    using v(1,2) req rd by (simp add: s bank_tick_def bank_step_def softmax_out_def)
  have i: "ai_rd_gnt (bank_in (softmax_out v) a) = (k < ?n)" "ai_rvalid (bank_in (softmax_out v) a) = (0 < k)"
    "ai_rdata (bank_in (softmax_out v) a) = ab_rdata a"
    using v(1,2,5) req by (simp_all add: bank_in_def softmax_out_def)
  have cnt: "(if k < ?n \<and> k < ?n then req_cnt_r v + 1 else req_cnt_r v) = word_of_nat (min (Suc k) ?n)"
    "(if 0 < k then rcv_cnt_r v + 1 else rcv_cnt_r v) = word_of_nat (Suc k - 1)"
    unfolding v(3,4) by (simp add: min_def, cases k, simp_all)
  have "fst (softmax_clock c s) = softmax_ctrl_step False c (bank_in (softmax_out v) a) v"
    by (simp add: s bank_tick_def)
  note f = this [unfolded softmax_step_sum [OF v(1)] v(2) req if_not_P [OF rcv] i exp_lut_approx cnt v(8) sum [symmetric]]
  have lut: "2 \<le> Suc k \<longrightarrow> (if 0 < k then softmax_exp_approx (max_val_r v - ab_rdata a) else exp_sum_lut_d v) =
      softmax_exp_approx (row_max ?xs - ?xs ! (Suc k - 2))" using v(6,7) by (simp add: numeral_2_eq_2)
  show ?thesis
    unfolding summing_def Let_def
  proof (intro conjI)
    show "row_at c m r 0 (softmax_clock c s)" using v(2,11-14) by (simp add: row_at_def f b)
  qed (use v(1,2,7) assms(3) lut in \<open>simp_all add: f b Suc_le_eq numeral_2_eq_2 less_Suc_eq_le\<close>)
qed

lemma summing_last:
  assumes "softmax_ranges c" and "r < rows_of c" and "summing c m r (Suc (len_of_row c)) s"
  shows "norm_next c m r 0 (softmax_clock c s)"
proof -
  obtain v a where s: "s = (v, a)" by fastforce
  let ?xs = "softmax_row_in c m r" and ?n = "len_of_row c"
  have v: "sm_state v = SM_EXP_SUM" "sm_cmd v = c" "req_cnt_r v = s_row_len c" "rcv_cnt_r v = s_row_len c"
    "\<not> ab_rvalid a" "max_val_r v = row_max ?xs" "exp_sum_rvalid_d v = (2 \<le> Suc ?n)"
    "2 \<le> Suc ?n \<longrightarrow> exp_sum_lut_d v = softmax_exp_approx (row_max ?xs - ?xs ! (Suc ?n - 2))"
    "sum_r v = exp_sum ?xs (Suc ?n - 2)" "row_at c m r 0 (v, a)"
    using assms(3) by (simp_all add: summing_def row_at_def Let_def s)
  have n: "0 < ?n" using assms(1) by (simp add: softmax_ranges_def Let_def)
  have "exp_sum ?xs (Suc (?n - 1)) = exp_sum ?xs (?n - 1) + ucast (softmax_exp_approx (row_max ?xs - ?xs ! (?n - 1)))"
    using n by (intro exp_sum_Suc) simp
  moreover have "Suc ?n - 2 = ?n - 1" "Suc (?n - 1) = length ?xs" using n by simp_all
  ultimately have sum: "exp_sum ?xs (length ?xs) = sum_r v + ucast (exp_sum_lut_d v)" and d: "exp_sum_rvalid_d v"
    using n v(7-9) by simp_all
  note st = softmax_step_sum [OF v(1), of False c "bank_in (softmax_out v) a"]
  have "fst (softmax_clock c s) = softmax_ctrl_step False c (bank_in (softmax_out v) a) v"
    by (simp add: s bank_tick_def)
  note f = this [unfolded st]
  have b: "snd (softmax_clock c s) = a\<lparr>ab_rvalid := False\<rparr>"
    using v(1-3) by (simp add: s bank_tick_def bank_step_def softmax_out_def)
  show ?thesis
    unfolding norm_next_def norm_at_def row_at_def Let_def f b sum
    using v(2-6,10) n d by (simp add: bank_in_def softmax_out_def row_at_def)
qed

section \<open>The divider\<close>

text \<open>The borrow of a difference of 32-bit numbers, on 33 bits.\<close>

lemma borrow33:
  fixes a b :: u32
  shows "bit (ucast a - ucast b :: 33 word) 32 \<longleftrightarrow> a < b"
    and "b \<le> a \<Longrightarrow> unat (ucast (ucast a - ucast b :: 33 word) :: u32) = unat a - unat b"
proof -
  define z where "z = int (unat a) - int (unat b)"
  have z: "- 4294967296 \<le> z" "z < 4294967296"
  proof -
    have "unat a < 4294967296" "unat b < 4294967296"
      using unsigned_less [of a, where ?'a = nat] unsigned_less [of b, where ?'a = nat] by simp_all
    then show "- 4294967296 \<le> z" "z < 4294967296" unfolding z_def by linarith+
  qed
  have e: "(ucast a - ucast b :: 33 word) = word_of_int z"
    by (simp add: z_def)
  have "z div 4294967296 = (if z < 0 then - 1 else 0)" using z
    by (cases "z < 0") (simp_all add: div_pos_neg_trivial div_eq_minus1)
  then have "bit z 32 \<longleftrightarrow> z < 0" by (simp add: bit_iff_odd)
  then have "bit (word_of_int z :: 33 word) 32 \<longleftrightarrow> z < 0" by (simp add: bit_simps)
  moreover have "z < 0 \<longleftrightarrow> a < b" unfolding z_def word_less_nat_alt by linarith
  ultimately show "bit (ucast a - ucast b :: 33 word) 32 \<longleftrightarrow> a < b" by (simp only: e)
  have "(ucast (word_of_int z :: 33 word) :: u32) = word_of_int z"
    by (rule bit_word_eqI) (simp add: bit_simps)
  then show "unat (ucast (ucast a - ucast b :: 33 word) :: u32) = unat a - unat b" if "b \<le> a"
    using that unfolding e by (simp add: z_def unat_sub)
qed

lemma sm_div_round:
  assumes "sm_div_at n d j v" and "j < 24" and "n < 2 ^ 24" and "0 < d" and "unat (sum_r v) = d"
  shows "sm_div_at n d (Suc j) (v\<lparr>sm_state := st, sm_numer_r := 2 * sm_numer_r v,
       sm_rem_r := (if \<not> bit (sm_trial v) 32 then ucast (sm_trial v) else sm_shifted v),
       sm_quot_r := 2 * sm_quot_r v + of_bool (\<not> bit (sm_trial v) 32), sm_cnt_r := k\<rparr>)"
proof -
  define r where "r = n div 2 ^ (24 - j) mod d"
  define q where "q = n div 2 ^ (24 - j) div d"
  define b where "b = n div 2 ^ (24 - Suc j) mod 2"
  have v: "unat (sm_numer_r v) = n mod 2 ^ (24 - j) * 2 ^ j" "unat (sm_rem_r v) = r" "unat (sm_quot_r v) = q mod 256"
    using assms(1) by (simp_all add: sm_div_at_def r_def q_def)
  note rr = restoring_round [OF assms(4,2), of n, folded r_def q_def b_def]
  have "n div 2 ^ (24 - j) div Suc n = 0" by (rule div_less) (meson div_le_dividend le_imp_less_Suc)
  note reg = restoring_register [OF zero_less_Suc [of n] assms(2,3) zero_le, unfolded this add_0_right]
  have "bit (sm_numer_r v) 23 \<longleftrightarrow> bit (unat (sm_numer_r v)) 23" by (simp add: bit_unsigned_iff)
  then have "bit (sm_numer_r v) 23 \<longleftrightarrow> odd (unat (sm_numer_r v) div 2 ^ 23)" by (simp only: bit_iff_odd)
  then have top: "bit (sm_numer_r v) 23 \<longleftrightarrow> b = 1"
    using reg(1) unfolding v(1) by (simp add: odd_iff_mod_2_eq_one b_def)
  have b: "b \<le> 1" by (simp add: b_def)
  have ub: "unat (of_bool (bit (sm_numer_r v) 23) :: u32) = b" unfolding top using b by (cases "b = 1") simp_all
  have "r \<le> n" unfolding r_def by (meson div_le_dividend le_trans mod_less_eq_dividend)
  then have t: "unat (sm_shifted v) = 2 * r + b"
    using assms(3) b unfolding sm_shifted_def by (simp add: unat_word_ariths v(2) ub)
  have le: "\<not> bit (sm_trial v) 32 \<longleftrightarrow> d \<le> 2 * r + b"
    unfolding sm_trial_def borrow33(1) word_less_nat_alt t assms(5) by linarith
  have "unat (if \<not> bit (sm_trial v) 32 then ucast (sm_trial v) else sm_shifted v) = (if d \<le> 2 * r + b then 2 * r + b - d else 2 * r + b)"
    unfolding le using borrow33(2) [of "sum_r v" "sm_shifted v"] by (simp add: sm_trial_def word_le_nat_alt t assms(5))
  then have rem: "unat (if \<not> bit (sm_trial v) 32 then ucast (sm_trial v) else sm_shifted v) = n div 2 ^ (24 - Suc j) mod d"
    unfolding rr(1) .
  have "unat (2 * sm_quot_r v + of_bool (\<not> bit (sm_trial v) 32)) = (2 * (q mod 256) + of_bool (d \<le> 2 * r + b)) mod 256"
    unfolding le by (cases "d \<le> 2 * r + b") (simp_all add: unat_word_ariths v(3), presburger)
  also have "\<dots> = (2 * q + of_bool (d \<le> 2 * r + b)) mod 256" by (metis mod_add_left_eq mod_mult_right_eq)
  finally have quot: "unat (2 * sm_quot_r v + of_bool (\<not> bit (sm_trial v) 32)) = n div 2 ^ (24 - Suc j) div d mod 256"
    unfolding rr(2) .
  have "unat (2 * sm_numer_r v) = 2 * unat (sm_numer_r v) mod 2 ^ 24" by (simp add: unat_word_ariths)
  then have "unat (2 * sm_numer_r v) = n mod 2 ^ (24 - Suc j) * 2 ^ Suc j"
    using reg(3) unfolding v(1) by (simp only: add_0_right mult_0_right)
  then show ?thesis using rem quot by (simp add: sm_div_at_def)
qed

section \<open>The third pass\<close>

definition norm_numer :: "softmax_cmd_t \<Rightarrow> (13 word \<Rightarrow> u8) \<Rightarrow> nat \<Rightarrow> nat \<Rightarrow> nat" where
  "norm_numer c m r i = (let xs = softmax_row_in c m r in softmax_exp xs (xs ! i) * 127)"

definition norm_denom :: "softmax_cmd_t \<Rightarrow> (13 word \<Rightarrow> u8) \<Rightarrow> nat \<Rightarrow> nat" where
  "norm_denom c m r = (let xs = softmax_row_in c m r in sum_list (map (softmax_exp xs) xs))"

text \<open>The divider at work on element \<open>i\<close>, and its result about to be written.\<close>

definition norm_dividing :: "softmax_cmd_t \<Rightarrow> (13 word \<Rightarrow> u8) \<Rightarrow> nat \<Rightarrow> nat \<Rightarrow> nat \<Rightarrow> softmax_ctrl \<times> act_bank \<Rightarrow> bool" where
  "norm_dividing c m r i j s = (norm_at c m r i s \<and> sm_div_at (norm_numer c m r i) (norm_denom c m r) j (fst s) \<and>
     (if j < 24 then sm_state (fst s) = SM_NORM_DIV \<and> sm_cnt_r (fst s) = word_of_nat j else sm_state (fst s) = SM_NORM_WR))"

lemma norm_sizes:
  assumes "i < len_of_row c"
  shows "norm_numer c m r i < 2 ^ 24" and "0 < norm_denom c m r"
    and "unat (exp_sum (softmax_row_in c m r) (length (softmax_row_in c m r))) = norm_denom c m r"
    and "norm_numer c m r i div norm_denom c m r = softmax_value (softmax_row_in c m r) (softmax_row_in c m r ! i)"
    and "norm_numer c m r i div norm_denom c m r \<le> 127"
proof -
  let ?xs = "softmax_row_in c m r"
  have x: "?xs ! i \<in> set ?xs" using assms by simp
  show "norm_numer c m r i < 2 ^ 24" using softmax_exp_bounds(2) [of ?xs "?xs ! i"] by (simp add: norm_numer_def Let_def)
  show "0 < norm_denom c m r"
    using softmax_exp_le_sum [OF x] softmax_exp_bounds(1) [of ?xs "?xs ! i"] unfolding norm_denom_def Let_def by linarith
  show "unat (exp_sum ?xs (length ?xs)) = norm_denom c m r"
    using exp_sum_all [of ?xs] unat_u16_le [of "s_row_len c"] by (simp add: norm_denom_def Let_def)
  show v: "norm_numer c m r i div norm_denom c m r = softmax_value ?xs (?xs ! i)"
    by (simp add: norm_numer_def norm_denom_def softmax_value_def Let_def)
  show "norm_numer c m r i div norm_denom c m r \<le> 127" unfolding v by (rule softmax_value_le [OF x])
qed

lemma norm_reads:
  assumes "softmax_ranges c" and "r < rows_of c" and "i < len_of_row c" and "norm_next c m r i s"
  shows "leads (softmax_clock c) softmax_works 2 s (norm_dividing c m r i 0)"
proof -
  obtain v a where s: "s = (v, a)" by fastforce
  let ?xs = "softmax_row_in c m r"
  have v: "sm_state v = SM_NORM_RD" "norm_idx_r v = word_of_nat i" "max_val_r v = row_max ?xs"
    "sum_r v = exp_sum ?xs (length ?xs)" "\<not> exp_sum_rvalid_d v" "row_at c m r i (v, a)"
    using assms(3,4) by (simp_all add: norm_next_def norm_at_def Let_def s)
  have base: "row_base_in_r v = s_in_addr c + word_of_nat (r * len_of_row c)"
    "ab_mem a = act_written (s_out_addr c) (softmax_byte c m) (r * len_of_row c + i) m"
    using v(6) by (simp_all add: row_at_def)
  have rd: "ab_mem a (ucast (row_base_in_r v + word_of_nat i)) = ?xs ! i"
    unfolding base by (rule softmax_input [OF assms(1-3)]) simp
  define v1 where "v1 = v\<lparr>sm_state := SM_NORM_WAIT\<rparr>"
  define a1 where "a1 = a\<lparr>ab_rdata := ?xs ! i, ab_rvalid := True\<rparr>"
  have g: "ai_rd_gnt (bank_in (softmax_out v) a)" using v(1) by (simp add: bank_in_def softmax_out_def)
  have 1: "softmax_clock c s = (v1, a1)"
    unfolding s bank_tick_def fst_conv snd_conv softmax_step_read(1) [OF v(1,5)] if_P [OF g]
    using v(1,2) rd by (simp add: v1_def a1_def bank_step_def softmax_out_def)
  have w: "sm_state v1 = SM_NORM_WAIT" "\<not> exp_sum_rvalid_d v1" "ai_rvalid (bank_in (softmax_out v1) a1)"
    "ai_rdata (bank_in (softmax_out v1) a1) = ?xs ! i"
    using v(5) by (simp_all add: v1_def a1_def bank_in_def)
  define v2 where "v2 = v1\<lparr>sm_state := SM_NORM_DIV, sm_numer_r := ucast (softmax_exp_lut (row_max ?xs - ?xs ! i)) * 127,
       sm_rem_r := 0, sm_quot_r := 0, sm_cnt_r := 0\<rparr>"
  have m1: "max_val_r v1 = row_max ?xs" using v(3) by (simp add: v1_def)
  have 2: "softmax_clock c (v1, a1) = (v2, a1\<lparr>ab_rvalid := False\<rparr>)"
    unfolding bank_tick_def fst_conv snd_conv softmax_step_read(2) [OF w(1-3)] w(4) m1
    using w(1) by (simp add: v2_def bank_step_def softmax_out_def)
  have "unat (ucast x :: 24 word) = unat x" for x :: u16
    using unat_u16_le [of x] by (simp add: unsigned_ucast_eq take_bit_nat_eq_self)
  then have "unat ((ucast (softmax_exp_lut (row_max ?xs - ?xs ! i)) :: 24 word) * 127) = norm_numer c m r i"
    using norm_sizes(1) [OF assms(3), of m r]
    by (simp add: unat_word_ariths norm_numer_def Let_def softmax_exp_def exp_lut_approx)
  moreover have "norm_numer c m r i div 2 ^ 24 = 0" "norm_numer c m r i mod 2 ^ 24 = norm_numer c m r i"
    using norm_sizes(1) [OF assms(3), of m r] by (simp_all only: div_less mod_less)
  ultimately have "sm_div_at (norm_numer c m r i) (norm_denom c m r) 0 v2"
    unfolding sm_div_at_def diff_zero by (simp add: v2_def)
  then have "norm_dividing c m r i 0 (v2, a1\<lparr>ab_rvalid := False\<rparr>)"
    using v(2-6) by (simp add: norm_dividing_def norm_at_def row_at_def Let_def v2_def v1_def a1_def)
  then have "leads (softmax_clock c) softmax_works (Suc (Suc 0)) s (norm_dividing c m r i 0)"
    using v(1) by (intro leads_step leads_0) (simp_all only: 1 2, simp_all add: s v1_def)
  then show ?thesis by (simp add: numeral_2_eq_2)
qed

lemma norm_dividing_step:
  assumes "i < len_of_row c" and "j < 24" and "norm_dividing c m r i j s"
  shows "norm_dividing c m r i (Suc j) (softmax_clock c s)"
proof -
  obtain v a where s: "s = (v, a)" by fastforce
  have v: "sm_state v = SM_NORM_DIV" "sm_cnt_r v = word_of_nat j" "norm_at c m r i (v, a)"
    "sm_div_at (norm_numer c m r i) (norm_denom c m r) j v" "\<not> exp_sum_rvalid_d v"
    "sum_r v = exp_sum (softmax_row_in c m r) (length (softmax_row_in c m r))"
    using assms(2,3) by (simp_all add: norm_dividing_def norm_at_def Let_def s)
  note sz = norm_sizes [OF assms(1)]
  have "j < 2 ^ LENGTH(5)" using assms(2) by simp
  from bank_addr_eq [OF this, of 23] have cnt: "sm_cnt_r v = 23 \<longleftrightarrow> Suc j = 24" unfolding v(2) by simp
  note st = softmax_step_read(3) [OF v(1,5), of False c]
  have "sm_div_at (norm_numer c m r i) (norm_denom c m r) (Suc j) (softmax_ctrl_step False c x v)" for x
    unfolding st by (rule sm_div_round [OF v(4) assms(2) sz(1,2)]) (simp only: v(6) sz(3))
  moreover have "norm_at c m r i (softmax_ctrl_step False c x v, bank_step (softmax_out v) a)" for x
    using v(1,3) by (simp add: norm_at_def row_at_def Let_def st bank_step_def softmax_out_def)
  moreover have "sm_cnt_r (softmax_ctrl_step False c x v) = word_of_nat (Suc j)"
    "sm_state (softmax_ctrl_step False c x v) = (if Suc j = 24 then SM_NORM_WR else SM_NORM_DIV)" for x
    unfolding st cnt by (simp_all add: v(2))
  ultimately show ?thesis using assms(2) by (simp add: s norm_dividing_def bank_tick_def)
qed

lemma norm_writes:
  assumes "softmax_ranges c" and "r < rows_of c" and "i < len_of_row c" and "norm_dividing c m r i 24 s"
  shows "norm_next c m r (Suc i) (softmax_clock c s)"
proof -
  obtain v a where s: "s = (v, a)" by fastforce
  let ?xs = "softmax_row_in c m r" and ?N = "len_of_row c"
  have v: "sm_state v = SM_NORM_WR" "sm_cmd v = c" "sm_row_r v = word_of_nat r" "norm_idx_r v = word_of_nat i"
    "row_base_in_r v = s_in_addr c + word_of_nat (r * ?N)" "row_base_out_r v = s_out_addr c + word_of_nat (r * ?N)"
    "ab_mem a = act_written (s_out_addr c) (softmax_byte c m) (r * ?N + i) m" "max_val_r v = row_max ?xs"
    "sum_r v = exp_sum ?xs (length ?xs)" "\<not> exp_sum_rvalid_d v" "unat (sm_quot_r v) = norm_numer c m r i div norm_denom c m r mod 256"
    using assms(4) by (simp_all add: norm_dividing_def norm_at_def row_at_def sm_div_at_def Let_def s)
  have "unat (sm_quot_r v) = norm_numer c m r i div norm_denom c m r" "unat (sm_quot_r v) \<le> 127"
    using norm_sizes(5) [OF assms(3), of m r] unfolding v(11) by simp_all
  then have q: "unat (sm_quot_r v) = softmax_value ?xs (?xs ! i)" "\<not> 127 < sm_quot_r v"
    unfolding norm_sizes(4) [OF assms(3)] word_less_nat_alt by simp_all
  have "sm_quot_r v = word_of_nat (softmax_value ?xs (?xs ! i))" unfolding q(1) [symmetric] by simp
  then have "norm_result v = word_of_nat (softmax_value ?xs (?xs ! i))" using q(2) by (simp add: norm_result_def)
  moreover have "(r * ?N + i) div ?N = r" "(r * ?N + i) mod ?N = i"
    using assms(3) div_mult_self3 [OF gr_implies_not0 [OF assms(3)], of r i]
    by (simp_all only: div_less add_0_right mod_mult_self3 mod_less)
  ultimately have byte: "norm_result v = softmax_byte c m (r * ?N + i)" by (simp add: softmax_byte_def Let_def)
  have "row_base_out_r v + norm_idx_r v = s_out_addr c + word_of_nat (r * ?N + i)"
    unfolding v(4,6) by (simp only: of_nat_add add.assoc)
  then have mem: "ab_mem (snd (softmax_clock c s)) = act_written (s_out_addr c) (softmax_byte c m) (r * ?N + Suc i) m"
    unfolding add_Suc_right act_written_Suc
    using v(1,7) byte by (simp add: s bank_tick_def bank_step_def softmax_out_def)
  have rv: "\<not> ab_rvalid (snd (softmax_clock c s))" using v(1) by (simp add: s bank_tick_def bank_step_def softmax_out_def)
  let ?i = "bank_in (softmax_out v) a"
  have g: "ai_wr_gnt ?i" using v(1) by (simp add: bank_in_def softmax_out_def)
  have f: "fst (softmax_clock c s) = softmax_ctrl_step False c ?i v" by (simp add: s bank_tick_def)
  note st = softmax_step_write [OF v(1) g v(10), of False c]
  have nl: "norm_last v \<longleftrightarrow> Suc i = ?N" unfolding norm_last_def v(2,4) by (rule counter16 [OF assms(3)])
  have rl: "row_last v \<longleftrightarrow> Suc r = rows_of c" "more_rows v \<longleftrightarrow> Suc r < rows_of c"
    unfolding row_last_def more_rows_def v(2,3) by (rule counter16 [OF assms(2)])+
  consider (element) "Suc i < ?N" | (row) "Suc i = ?N" "Suc r < rows_of c" | (finish) "Suc i = ?N" "Suc r = rows_of c"
    using assms(2,3) by linarith
  then show ?thesis
  proof cases
    case element
    then have "\<not> norm_last v" using nl by simp
    note f' = f [unfolded st(1) [OF this]]
    show ?thesis
      using element mem v(2-6,8-10) by (simp add: norm_next_def norm_at_def row_at_def Let_def f')
  next
    case row
    then have "norm_last v" "\<not> row_last v" "more_rows v" using nl rl by simp_all
    note f' = f [unfolded st(2) [OF this]]
    have "r * ?N + Suc i = Suc r * ?N" using row(1) by simp
    then show ?thesis
      using row mem v(2,3,5,6,10) rv
      by (simp add: norm_next_def finding_def row_at_def Let_def f' row_max_Nil distrib_right add.commute)
  next
    case finish
    then have "norm_last v" "row_last v" using nl rl by simp_all
    from st(3) [OF this] have "sm_state (fst (softmax_clock c s)) = SM_DONE" by (simp only: f)
    moreover have "r * ?N + Suc i = rows_of c * ?N" using finish by (metis add.commute mult_Suc)
    ultimately show ?thesis using finish mem by (simp add: norm_next_def)
  qed
qed

lemma element_round:
  assumes "softmax_ranges c" and "r < rows_of c" and "i < len_of_row c" and "norm_next c m r i s"
  shows "leads (softmax_clock c) softmax_works 27 s (norm_next c m r (Suc i))"
proof -
  have div: "leads (softmax_clock c) softmax_works (\<Sum>j<(24 :: nat). 1) t (norm_dividing c m r i 24)"
    if "norm_dividing c m r i 0 t" for t
  proof (rule leads_loop [where Q = "norm_dividing c m r i", OF that])
    fix j t
    assume j: "j < (24 :: nat)" and t: "norm_dividing c m r i j t"
    then have "softmax_works t" by (simp add: norm_dividing_def)
    then show "leads (softmax_clock c) softmax_works 1 t (norm_dividing c m r i (Suc j))"
      using norm_dividing_step [OF assms(3) j t] by (rule leads_1)
  qed
  have wr: "leads (softmax_clock c) softmax_works 1 t (norm_next c m r (Suc i))" if "norm_dividing c m r i 24 t" for t
  proof -
    have "softmax_works t" using that by (simp add: norm_dividing_def)
    then show ?thesis using norm_writes [OF assms(1-3) that] by (rule leads_1)
  qed
  from leads_trans [OF leads_trans [OF norm_reads [OF assms] div] wr] show ?thesis by simp
qed

section \<open>From the command to the last row\<close>

definition row_next :: "softmax_cmd_t \<Rightarrow> (13 word \<Rightarrow> u8) \<Rightarrow> nat \<Rightarrow> softmax_ctrl \<times> act_bank \<Rightarrow> bool" where
  "row_next c m r s =
     (if r < rows_of c then finding c m r 0 s
      else sm_state (fst s) = SM_DONE \<and>
        ab_mem (snd s) = act_written (s_out_addr c) (softmax_byte c m) (rows_of c * len_of_row c) m)"

lemma row_round:
  assumes "softmax_ranges c" and "r < rows_of c" and "row_next c m r s"
  shows "leads (softmax_clock c) softmax_works (29 * len_of_row c + 3) s (row_next c m (Suc r))"
proof -
  let ?N = "len_of_row c" and ?L = "leads (softmax_clock c) softmax_works"
  have works: "finding c m r k t \<Longrightarrow> softmax_works t" "summing c m r k t \<Longrightarrow> softmax_works t" for k t
    by (simp_all add: finding_def summing_def Let_def)
  have f: "?L (\<Sum>k<?N. 1) s (finding c m r ?N)"
  proof (rule leads_loop [where Q = "finding c m r"])
    show "finding c m r 0 s" using assms(2,3) by (simp add: row_next_def)
    show "?L 1 t (finding c m r (Suc k))" if "k < ?N" "finding c m r k t" for k t
      using works(1) [OF that(2)] finding_step [OF assms(1,2) that] by (rule leads_1)
  qed
  have fl: "?L 1 t (summing c m r 0)" if "finding c m r ?N t" for t
    using works(1) [OF that] finding_last [OF assms(1,2) that] by (rule leads_1)
  have e: "?L (\<Sum>k<Suc ?N. 1) t (summing c m r (Suc ?N))" if "summing c m r 0 t" for t
  proof (rule leads_loop [where Q = "summing c m r", OF that])
    show "?L 1 t (summing c m r (Suc k))" if "k < Suc ?N" "summing c m r k t" for k t
      using works(2) [OF that(2)] summing_step [OF assms(1,2) that(1) [unfolded less_Suc_eq_le] that(2)] by (rule leads_1)
  qed
  have el: "?L 1 t (norm_next c m r 0)" if "summing c m r (Suc ?N) t" for t
    using works(2) [OF that] summing_last [OF assms(1,2) that] by (rule leads_1)
  have n: "?L (\<Sum>i<?N. 27) t (norm_next c m r ?N)" if "norm_next c m r 0 t" for t
    by (rule leads_loop [where Q = "norm_next c m r", OF that]) (rule element_round [OF assms(1,2)])
  have "?L (((\<Sum>k<?N. 1) + 1) + (\<Sum>k<Suc ?N. 1) + 1 + (\<Sum>i<?N. 27)) s (norm_next c m r ?N)"
    by (rule leads_trans [OF leads_trans [OF leads_trans [OF leads_trans [OF f fl] e] el] n])
  moreover have "((\<Sum>k<?N. 1) + 1) + (\<Sum>k<Suc ?N. 1) + 1 + (\<Sum>i<?N. 27) = 29 * ?N + 3" by simp
  ultimately have "?L (29 * ?N + 3) s (norm_next c m r ?N)" by (simp only:)
  then show ?thesis by (rule leads_mono) (simp add: norm_next_def row_next_def)
qed

lemma softmax_accepts:
  assumes "sm_state v = SM_IDLE"
  shows "sm_state (softmax_ctrl_step True c i v) = SM_LOAD_CFG" and "sm_cmd (softmax_ctrl_step True c i v) = c"
  using assms by (simp_all add: softmax_ctrl_step_def softmax_next_state_def Let_def)

lemma softmax_computes:
  assumes "sm_state v = SM_IDLE" and "softmax_ranges c"
  shows "leads (softmax_clock c) softmax_works (softmax_clocks c) (bank_tick softmax_ctrl_step softmax_out True c (v, a))
    (\<lambda>s. sm_state (fst s) = SM_DONE \<and>
      ab_mem (snd s) = act_written (s_out_addr c) (softmax_byte c (ab_mem a)) (rows_of c * len_of_row c) (ab_mem a))"
proof -
  define m where "m = ab_mem a"
  define s where "s = bank_tick softmax_ctrl_step softmax_out True c (v, a)"
  obtain u b where sb: "s = (u, b)" by fastforce
  have u: "u = softmax_ctrl_step True c (bank_in (softmax_out v) a) v" and b: "ab_mem b = m"
    using assms(1) sb by (auto simp: s_def bank_tick_def bank_step_def softmax_out_def m_def)
  note p = softmax_accepts [OF assms(1), of c "bank_in (softmax_out v) a", folded u]
  have "finding c m 0 0 (softmax_clock c s)"
    using p b
    by (simp add: sb finding_def row_at_def Let_def bank_tick_def bank_step_def softmax_out_def softmax_step_load row_max_Nil)
  moreover have "0 < rows_of c" using assms(2) by (simp add: softmax_ranges_def Let_def)
  ultimately have "row_next c m 0 (softmax_clock c s)" by (simp add: row_next_def)
  then have l: "leads (softmax_clock c) softmax_works 1 s (row_next c m 0)" using p(1) by (intro leads_1) (simp_all add: sb)
  have "leads (softmax_clock c) softmax_works (\<Sum>r<rows_of c. 29 * len_of_row c + 3) t (row_next c m (rows_of c))"
    if "row_next c m 0 t" for t
    by (rule leads_loop [where Q = "row_next c m", OF that]) (rule row_round [OF assms(2)])
  from leads_trans [OF l this] have "leads (softmax_clock c) softmax_works (softmax_clocks c) s (row_next c m (rows_of c))"
    by (simp add: softmax_clocks_def)
  then show ?thesis unfolding s_def m_def by (rule leads_mono) (simp add: row_next_def)
qed

section \<open>The reference function\<close>

lemma softmax_bytes_ref:
  assumes "softmax_ranges c"
  shows "ref_softmax (act_bytes m (s_in_addr c) (rows_of c * len_of_row c)) (int (rows_of c)) (int (len_of_row c)) =
    Some (map (softmax_byte c (lm_act m)) [0..<rows_of c * len_of_row c])"
proof -
  let ?N = "len_of_row c" and ?n = "rows_of c * len_of_row c"
  let ?xs = "act_bytes m (s_in_addr c) ?n"
  have fit: "unat (s_in_addr c) + ?n \<le> 8192" using assms by (simp add: softmax_ranges_def Let_def)
  have r: "row_of ?xs ?N (e div ?N) = softmax_row_in c (lm_act m) (e div ?N)"
    "?xs ! e = softmax_row_in c (lm_act m) (e div ?N) ! (e mod ?N)" if "e < ?n" for e
    using act_bytes_rows [OF fit that] by (simp_all only: softmax_row_in_def)
  have "word_of_nat (softmax_value (row_of ?xs ?N (e div ?N)) (?xs ! e)) = softmax_byte c (lm_act m) e" if e: "e < ?n" for e
    unfolding r [OF e] by (simp only: softmax_byte_def Let_def)
  moreover have "length ?xs = ?n" "?n < 2147483648" using fit by (simp_all add: act_bytes_def)
  ultimately show ?thesis using softmax_correct [of ?xs "rows_of c" ?N] unat_u16_le [of "s_row_len c"] by simp
qed

section \<open>Properties\<close>

text \<open>C17: The softmax composite computes the bench's reference function.  From idle, for a command with at
  least one row of at least one element, input and output in the activation bank and no result written
  over an element still to be read (in place is allowed), it is done \<open>softmax_clocks c = 1 + M (29 N + 3)\<close>
  clocks after the clock that accepts it; the output bytes are then \<open>ref_softmax\<close> of the input bytes, and
  every other byte of both banks is unchanged.  The host may read meanwhile.\<close>

theorem softmax_unit_computes_ref_softmax:
  assumes "sm_state v = SM_IDLE" and "\<not> bias_pending_r b" and "softmax_ranges c"
    and "length hs = softmax_clocks c" and "\<forall>h \<in> set (h0 # hs). \<not> (host_req h \<and> host_wr h)"
    and "(v', b') = fold (unit_tick softmax_ctrl_step softmax_out False cmd) hs
      (unit_tick softmax_ctrl_step softmax_out True c h0 (v, b))"
  shows "softmax_done v' \<and>
    ref_softmax (act_bytes (local_of b) (s_in_addr c) (rows_of c * len_of_row c)) (int (rows_of c)) (int (len_of_row c)) =
      Some (act_bytes (local_of b') (s_out_addr c) (rows_of c * len_of_row c)) \<and>
    lm_wt (local_of b') = lm_wt (local_of b) \<and>
    (\<forall>x. (\<forall>i < rows_of c * len_of_row c. x \<noteq> ucast (s_out_addr c + word_of_nat i)) \<longrightarrow>
      lm_act (local_of b') x = lm_act (local_of b) x)"
proof -
  let ?n = "rows_of c * len_of_row c"
  have "leads (softmax_clock c) softmax_works (softmax_clocks c) (bank_tick softmax_ctrl_step softmax_out True c (v, bank_of b))
      (\<lambda>s. sm_state (fst s) = SM_DONE \<and>
        ab_mem (snd s) = act_written (s_out_addr c) (softmax_byte c (lm_act (local_of b))) ?n (lm_act (local_of b)))"
    using softmax_computes [OF assms(1,3), of "bank_of b"] by (simp add: bank_of_def)
  note r = softmax.command_on_banks [OF assms(1,2,4,5) this assms(6)]
  have "unat (s_out_addr c) + ?n \<le> 8192" using assms(3) by (simp add: softmax_ranges_def Let_def)
  from act_bytes_written [OF this r(2)] show ?thesis
    using r(1,3) softmax_bytes_ref [OF assms(3), of "local_of b"] act_written_other by (auto simp: softmax_done_def r(2))
qed

definition demo_softmax :: softmax_cmd_t where
  "demo_softmax = softmax_cmd_zero\<lparr>s_num_rows := 2, s_row_len := 3\<rparr>"

lemma demo_softmax_ok: "softmax_ranges demo_softmax" "softmax_clocks demo_softmax = 181"
  by (simp_all add: demo_softmax_def softmax_cmd_zero_def softmax_ranges_def softmax_clocks_def)

theorem softmax_unit_computes_ref_softmax_witness:
  "\<exists>v' b'. (v', b') = fold (unit_tick softmax_ctrl_step softmax_out False demo_softmax) (replicate 181 quiet_host)
      (unit_tick softmax_ctrl_step softmax_out True demo_softmax quiet_host (softmax_reset, reset_buffers)) \<and> softmax_done v' \<and>
    ref_softmax (act_bytes (local_of reset_buffers) 0 6) 2 3 = Some (act_bytes (local_of b') 0 6)"
proof -
  obtain v' b' where t: "(v', b') = fold (unit_tick softmax_ctrl_step softmax_out False demo_softmax) (replicate 181 quiet_host)
      (unit_tick softmax_ctrl_step softmax_out True demo_softmax quiet_host (softmax_reset, reset_buffers))"
    by (metis surj_pair)
  with softmax_unit_computes_ref_softmax [OF _ _ demo_softmax_ok(1) _ _ t] show ?thesis
    by (intro exI [of _ v'] exI [of _ b'])
      (simp add: demo_softmax_ok softmax_reset_def reset_buffers_def quiet_host_def,
        simp add: demo_softmax_def softmax_cmd_zero_def)
qed

end
