(* ===== verification/Npu_Lnorm.thy ===== *)
theory Npu_Lnorm
  imports Npu_Composite
begin

text \<open>
  The layer-norm composite (\<open>rtl/composites/lnorm/lnorm_ctrl.sv\<close>, wrapped by \<open>lnorm_composite.sv\<close>): three
  passes over each row, one serial divider for the mean, the variance and the results, and a serial
  square root, clock by clock.
\<close>

section \<open>State machine and registers\<close>

datatype lnorm_state =
  LN_IDLE | LN_LOAD_CFG | LN_SUM_RD | LN_SUM_WAIT | LN_MEAN_DIV | LN_VAR_RD | LN_VAR_WAIT | LN_VAR_DIV | LN_SQRT
| LN_NORM_RD | LN_NORM_WAIT | LN_NORM_DIV | LN_NORM_WR | LN_DONE

record lnorm_ctrl =
  ln_state :: lnorm_state
  num_rows_r :: u16
  row_len_r :: u16
  norm_shift_r :: "5 word"
  ln_row_r :: u16
  in_row_base_r :: u16
  out_row_base_r :: u16
  idx_r :: u16
  ln_sum_r :: u32
  mean_r :: u32
  var_sum_r :: u32
  std_r :: u16
  ln_quot_r :: u32
  ln_rem_r :: u32
  ln_denom_r :: u32
  ln_cnt_r :: "5 word"
  ln_sign_r :: bool
  sqrt_input_r :: u32
  sqrt_rem_r :: u32
  sqrt_result_r :: u16
  sqrt_cnt_r :: "5 word"
  norm_sign_r :: bool

text \<open>One step of the divider and of the square root.\<close>

definition ln_trial_w :: "lnorm_ctrl \<Rightarrow> u32" where
  "ln_trial_w v = 2 * ln_rem_r v + of_bool (bit (ln_quot_r v) 31)"

definition ln_rem_next_w :: "lnorm_ctrl \<Rightarrow> u32" where
  "ln_rem_next_w v = (if ln_denom_r v \<le> ln_trial_w v then ln_trial_w v - ln_denom_r v else ln_trial_w v)"

definition ln_quot_next_w :: "lnorm_ctrl \<Rightarrow> u32" where
  "ln_quot_next_w v = 2 * ln_quot_r v + of_bool (ln_denom_r v \<le> ln_trial_w v)"

definition sqrt_rem_shifted_w :: "lnorm_ctrl \<Rightarrow> u32" where
  "sqrt_rem_shifted_w v = push_bit 2 (sqrt_rem_r v) OR drop_bit 30 (sqrt_input_r v)"

definition sqrt_trial_w :: "lnorm_ctrl \<Rightarrow> u32" where
  "sqrt_trial_w v = push_bit 2 (ucast (sqrt_result_r v)) OR 1"

definition sqrt_rem_next_w :: "lnorm_ctrl \<Rightarrow> u32" where
  "sqrt_rem_next_w v =
     (if sqrt_trial_w v \<le> sqrt_rem_shifted_w v then sqrt_rem_shifted_w v - sqrt_trial_w v else sqrt_rem_shifted_w v)"

definition sqrt_result_next_w :: "lnorm_ctrl \<Rightarrow> u16" where
  "sqrt_result_next_w v =
     (if sqrt_trial_w v \<le> sqrt_rem_shifted_w v then push_bit 1 (sqrt_result_r v) OR 1 else push_bit 1 (sqrt_result_r v))"

text \<open>The distance of an element from the mean, its square from its low half, and the scaled distance, which
  saturates.\<close>

definition diff_w :: "u8 \<Rightarrow> lnorm_ctrl \<Rightarrow> u32" where
  "diff_w rdata v = scast rdata - mean_r v"

definition abs_diff_w :: "u8 \<Rightarrow> lnorm_ctrl \<Rightarrow> u32" where
  "abs_diff_w rdata v = (if bit (diff_w rdata v) 31 then - diff_w rdata v else diff_w rdata v)"

definition abs_diff_sq_w :: "u8 \<Rightarrow> lnorm_ctrl \<Rightarrow> u32" where
  "abs_diff_sq_w rdata v = (let narrow = ucast (abs_diff_w rdata v) :: u16 in ucast narrow * ucast narrow)"

definition scaled_abs_w :: "u8 \<Rightarrow> lnorm_ctrl \<Rightarrow> u32" where
  "scaled_abs_w rdata v =
     (let wide = push_bit (unat (norm_shift_r v)) (ucast (abs_diff_w rdata v)) :: 40 word
      in if drop_bit 32 wide \<noteq> 0 then 0xFFFFFFFF else ucast wide)"

definition lnorm_result :: "lnorm_ctrl \<Rightarrow> u8" where
  "lnorm_result v =
     (if norm_sign_r v then (if 128 < ln_quot_r v then 0x80 else - ucast (ln_quot_r v))
      else (if 127 < ln_quot_r v then 127 else ucast (ln_quot_r v)))"

text \<open>Comparisons with a dimension minus one are on 32 bits, the width of the literal.\<close>

definition ln_last :: "lnorm_ctrl \<Rightarrow> bool" where
  "ln_last v = ((ucast (idx_r v) :: u32) = ucast (row_len_r v) - 1)"

definition ln_row_last :: "lnorm_ctrl \<Rightarrow> bool" where
  "ln_row_last v = ((ucast (ln_row_r v) :: u32) = ucast (num_rows_r v) - 1)"

definition ln_more_rows :: "lnorm_ctrl \<Rightarrow> bool" where
  "ln_more_rows v = ((ucast (ln_row_r v) :: u32) < ucast (num_rows_r v) - 1)"

definition lnorm_next_state :: "bool \<Rightarrow> act_in \<Rightarrow> lnorm_ctrl \<Rightarrow> lnorm_state" where
  "lnorm_next_state cmd_valid i v = (case ln_state v of
     LN_IDLE \<Rightarrow> if cmd_valid then LN_LOAD_CFG else LN_IDLE
   | LN_LOAD_CFG \<Rightarrow> LN_SUM_RD
   | LN_SUM_RD \<Rightarrow> if ai_rd_gnt i then LN_SUM_WAIT else LN_SUM_RD
   | LN_SUM_WAIT \<Rightarrow> if ai_rvalid i then (if ln_last v then LN_MEAN_DIV else LN_SUM_RD) else LN_SUM_WAIT
   | LN_MEAN_DIV \<Rightarrow> if ln_cnt_r v = 0 then LN_VAR_RD else LN_MEAN_DIV
   | LN_VAR_RD \<Rightarrow> if ai_rd_gnt i then LN_VAR_WAIT else LN_VAR_RD
   | LN_VAR_WAIT \<Rightarrow> if ai_rvalid i then (if ln_last v then LN_VAR_DIV else LN_VAR_RD) else LN_VAR_WAIT
   | LN_VAR_DIV \<Rightarrow> if ln_cnt_r v = 0 then LN_SQRT else LN_VAR_DIV
   | LN_SQRT \<Rightarrow> if sqrt_cnt_r v = 0 then LN_NORM_RD else LN_SQRT
   | LN_NORM_RD \<Rightarrow> if ai_rd_gnt i then LN_NORM_WAIT else LN_NORM_RD
   | LN_NORM_WAIT \<Rightarrow> if ai_rvalid i then LN_NORM_DIV else LN_NORM_WAIT
   | LN_NORM_DIV \<Rightarrow> if ln_cnt_r v = 0 then LN_NORM_WR else LN_NORM_DIV
   | LN_NORM_WR \<Rightarrow> if ai_wr_gnt i then (if ln_last v then (if ln_row_last v then LN_DONE else LN_SUM_RD) else LN_NORM_RD)
       else LN_NORM_WR
   | LN_DONE \<Rightarrow> LN_IDLE)"

text \<open>The sum of squares that the variance divider starts with saturates.\<close>

definition final_var :: "u8 \<Rightarrow> lnorm_ctrl \<Rightarrow> u32" where
  "final_var rdata v =
     (let wide = ucast (var_sum_r v) + ucast (abs_diff_sq_w rdata v) :: u64
      in if drop_bit 32 wide \<noteq> 0 then 0xFFFFFFFF else ucast wide)"

text \<open>The row addresses are taken from the command port, not latched, in the clock after the command.\<close>

definition lnorm_ctrl_step :: "bool \<Rightarrow> lnorm_cmd_t \<Rightarrow> act_in \<Rightarrow> lnorm_ctrl \<Rightarrow> lnorm_ctrl" where
  "lnorm_ctrl_step cmd_valid cmd i v =
     (let st = ln_state v; x = ai_rdata i;
          latch = (st = LN_IDLE \<and> cmd_valid);
          load = (st = LN_LOAD_CFG);
          summed = (st = LN_SUM_WAIT \<and> ai_rvalid i);
          squared = (st = LN_VAR_WAIT \<and> ai_rvalid i);
          scaled = (st = LN_NORM_WAIT \<and> ai_rvalid i);
          written = (st = LN_NORM_WR \<and> ai_wr_gnt i);
          next_row = (written \<and> ln_last v \<and> ln_more_rows v);
          final_sum = ln_sum_r v + scast x;
          start_mean = (summed \<and> ln_last v);
          start_var = (squared \<and> ln_last v);
          start = (start_mean \<or> start_var \<or> scaled);
          dividing = (st = LN_MEAN_DIV \<or> st = LN_VAR_DIV \<or> st = LN_NORM_DIV);
          start_sqrt = (st = LN_VAR_DIV \<and> ln_cnt_r v = 0)
      in \<lparr>ln_state = lnorm_next_state cmd_valid i v,
          num_rows_r = (if latch then l_num_rows cmd else num_rows_r v),
          row_len_r = (if latch then l_row_len cmd else row_len_r v),
          norm_shift_r = (if latch then l_norm_shift cmd else norm_shift_r v),
          ln_row_r = (if load then 0 else if next_row then ln_row_r v + 1 else ln_row_r v),
          in_row_base_r = (if load then l_in_addr cmd else if next_row then in_row_base_r v + row_len_r v else in_row_base_r v),
          out_row_base_r = (if load then l_out_addr cmd else if next_row then out_row_base_r v + row_len_r v else out_row_base_r v),
          idx_r = (if load then 0 else if summed \<or> squared \<or> written then (if ln_last v then 0 else idx_r v + 1) else idx_r v),
          ln_sum_r = (if load \<or> next_row then 0 else if summed then final_sum else ln_sum_r v),
          mean_r = (if st = LN_MEAN_DIV \<and> ln_cnt_r v = 0 then (if ln_sign_r v then - ln_quot_next_w v else ln_quot_next_w v)
                    else mean_r v),
          var_sum_r = (if load \<or> next_row then 0 else if squared then var_sum_r v + abs_diff_sq_w x v else var_sum_r v),
          std_r = (if st = LN_SQRT \<and> sqrt_cnt_r v = 0 then (if sqrt_result_next_w v = 0 then 1 else sqrt_result_next_w v)
                   else std_r v),
          ln_quot_r = (if start_mean then (if bit final_sum 31 then - final_sum else final_sum)
                       else if start_var then final_var x v else if scaled then scaled_abs_w x v
                       else if dividing then ln_quot_next_w v else ln_quot_r v),
          ln_rem_r = (if start then 0 else if dividing then ln_rem_next_w v else ln_rem_r v),
          ln_denom_r = (if start_mean \<or> start_var then ucast (row_len_r v) else if scaled then ucast (std_r v) else ln_denom_r v),
          ln_cnt_r = (if start then 31 else if dividing then ln_cnt_r v - 1 else ln_cnt_r v),
          ln_sign_r = (if start_mean then bit final_sum 31 else if start_var \<or> scaled then False else ln_sign_r v),
          sqrt_input_r = (if start_sqrt then ln_quot_next_w v + 1 else if st = LN_SQRT then push_bit 2 (sqrt_input_r v)
                          else sqrt_input_r v),
          sqrt_rem_r = (if start_sqrt then 0 else if st = LN_SQRT then sqrt_rem_next_w v else sqrt_rem_r v),
          sqrt_result_r = (if start_sqrt then 0 else if st = LN_SQRT then sqrt_result_next_w v else sqrt_result_r v),
          sqrt_cnt_r = (if start_sqrt then 15 else if st = LN_SQRT then sqrt_cnt_r v - 1 else sqrt_cnt_r v),
          norm_sign_r = (if scaled then bit (diff_w x v) 31 else norm_sign_r v)\<rparr>)"

definition lnorm_out :: "lnorm_ctrl \<Rightarrow> act_out" where
  "lnorm_out v =
     (let rd = (ln_state v = LN_SUM_RD \<or> ln_state v = LN_VAR_RD \<or> ln_state v = LN_NORM_RD)
      in \<lparr>ao_rd_addr = (if rd then in_row_base_r v + idx_r v else 0), ao_rd_req = rd,
          ao_wr_addr = out_row_base_r v + idx_r v, ao_wr_data = lnorm_result v, ao_wr_req = (ln_state v = LN_NORM_WR)\<rparr>)"

definition lnorm_cmd_ready :: "lnorm_ctrl \<Rightarrow> bool" where
  "lnorm_cmd_ready v = (ln_state v = LN_IDLE)"

definition lnorm_done :: "lnorm_ctrl \<Rightarrow> bool" where
  "lnorm_done v = (ln_state v = LN_DONE)"

definition lnorm_busy :: "lnorm_ctrl \<Rightarrow> bool" where
  "lnorm_busy v = (ln_state v \<noteq> LN_IDLE)"

definition lnorm_reset :: lnorm_ctrl where
  "lnorm_reset = \<lparr>ln_state = LN_IDLE, num_rows_r = 0, row_len_r = 0, norm_shift_r = 0, ln_row_r = 0, in_row_base_r = 0,
     out_row_base_r = 0, idx_r = 0, ln_sum_r = 0, mean_r = 0, var_sum_r = 0, std_r = 1, ln_quot_r = 0, ln_rem_r = 0,
     ln_denom_r = 0, ln_cnt_r = 0, ln_sign_r = False, sqrt_input_r = 0, sqrt_rem_r = 0, sqrt_result_r = 0, sqrt_cnt_r = 0,
     norm_sign_r = False\<rparr>"

section \<open>One clock, state by state\<close>

lemmas ln_step = lnorm_ctrl_step_def lnorm_next_state_def Let_def

lemma ln_step_load:
  "ln_state v = LN_LOAD_CFG \<Longrightarrow> lnorm_ctrl_step cv cmd i v = v\<lparr>ln_state := LN_SUM_RD, ln_row_r := 0,
     in_row_base_r := l_in_addr cmd, out_row_base_r := l_out_addr cmd, idx_r := 0, ln_sum_r := 0, var_sum_r := 0\<rparr>"
  by (simp add: ln_step)

lemma ln_step_read:
  "ln_state v = LN_SUM_RD \<Longrightarrow> ai_rd_gnt i \<Longrightarrow> lnorm_ctrl_step cv cmd i v = v\<lparr>ln_state := LN_SUM_WAIT\<rparr>"
  "ln_state v = LN_VAR_RD \<Longrightarrow> ai_rd_gnt i \<Longrightarrow> lnorm_ctrl_step cv cmd i v = v\<lparr>ln_state := LN_VAR_WAIT\<rparr>"
  "ln_state v = LN_NORM_RD \<Longrightarrow> ai_rd_gnt i \<Longrightarrow> lnorm_ctrl_step cv cmd i v = v\<lparr>ln_state := LN_NORM_WAIT\<rparr>"
  by (simp_all add: ln_step)

lemma ln_step_sum:
  assumes "ln_state v = LN_SUM_WAIT" and "ai_rvalid i"
  defines "t \<equiv> ln_sum_r v + scast (ai_rdata i)"
  shows "\<not> ln_last v \<Longrightarrow> lnorm_ctrl_step cv cmd i v = v\<lparr>ln_state := LN_SUM_RD, idx_r := idx_r v + 1, ln_sum_r := t\<rparr>"
    and "ln_last v \<Longrightarrow> lnorm_ctrl_step cv cmd i v = v\<lparr>ln_state := LN_MEAN_DIV, idx_r := 0, ln_sum_r := t,
      ln_quot_r := (if bit t 31 then - t else t), ln_rem_r := 0, ln_denom_r := ucast (row_len_r v), ln_cnt_r := 31,
      ln_sign_r := bit t 31\<rparr>"
  using assms by (simp_all add: ln_step)

lemma ln_step_square:
  assumes "ln_state v = LN_VAR_WAIT" and "ai_rvalid i"
  shows "\<not> ln_last v \<Longrightarrow> lnorm_ctrl_step cv cmd i v = v\<lparr>ln_state := LN_VAR_RD, idx_r := idx_r v + 1,
      var_sum_r := var_sum_r v + abs_diff_sq_w (ai_rdata i) v\<rparr>"
    and "ln_last v \<Longrightarrow> lnorm_ctrl_step cv cmd i v = v\<lparr>ln_state := LN_VAR_DIV, idx_r := 0,
      var_sum_r := var_sum_r v + abs_diff_sq_w (ai_rdata i) v, ln_quot_r := final_var (ai_rdata i) v, ln_rem_r := 0,
      ln_denom_r := ucast (row_len_r v), ln_cnt_r := 31, ln_sign_r := False\<rparr>"
  using assms by (simp_all add: ln_step)

lemma ln_step_scale:
  assumes "ln_state v = LN_NORM_WAIT" and "ai_rvalid i"
  shows "lnorm_ctrl_step cv cmd i v = v\<lparr>ln_state := LN_NORM_DIV, ln_quot_r := scaled_abs_w (ai_rdata i) v, ln_rem_r := 0,
      ln_denom_r := ucast (std_r v), ln_cnt_r := 31, ln_sign_r := False, norm_sign_r := bit (diff_w (ai_rdata i) v) 31\<rparr>"
  using assms by (simp add: ln_step)

lemma ln_step_div:
  assumes "ln_state v = LN_MEAN_DIV \<or> ln_state v = LN_VAR_DIV \<or> ln_state v = LN_NORM_DIV" and "ln_cnt_r v \<noteq> 0"
  shows "lnorm_ctrl_step cv cmd i v = v\<lparr>ln_quot_r := ln_quot_next_w v, ln_rem_r := ln_rem_next_w v, ln_cnt_r := ln_cnt_r v - 1\<rparr>"
  using assms by (elim disjE) (simp_all add: ln_step)

lemma ln_step_divided:
  "ln_state v = LN_MEAN_DIV \<Longrightarrow> ln_cnt_r v = 0 \<Longrightarrow> lnorm_ctrl_step cv cmd i v = v\<lparr>ln_state := LN_VAR_RD,
     mean_r := (if ln_sign_r v then - ln_quot_next_w v else ln_quot_next_w v), ln_quot_r := ln_quot_next_w v,
     ln_rem_r := ln_rem_next_w v, ln_cnt_r := - 1\<rparr>"
  "ln_state v = LN_VAR_DIV \<Longrightarrow> ln_cnt_r v = 0 \<Longrightarrow> lnorm_ctrl_step cv cmd i v = v\<lparr>ln_state := LN_SQRT,
     ln_quot_r := ln_quot_next_w v, ln_rem_r := ln_rem_next_w v, ln_cnt_r := - 1, sqrt_input_r := ln_quot_next_w v + 1,
     sqrt_rem_r := 0, sqrt_result_r := 0, sqrt_cnt_r := 15\<rparr>"
  "ln_state v = LN_NORM_DIV \<Longrightarrow> ln_cnt_r v = 0 \<Longrightarrow> lnorm_ctrl_step cv cmd i v = v\<lparr>ln_state := LN_NORM_WR,
     ln_quot_r := ln_quot_next_w v, ln_rem_r := ln_rem_next_w v, ln_cnt_r := - 1\<rparr>"
  by (simp_all add: ln_step)

lemma ln_step_sqrt:
  assumes "ln_state v = LN_SQRT"
  shows "sqrt_cnt_r v \<noteq> 0 \<Longrightarrow> lnorm_ctrl_step cv cmd i v = v\<lparr>sqrt_input_r := push_bit 2 (sqrt_input_r v),
      sqrt_rem_r := sqrt_rem_next_w v, sqrt_result_r := sqrt_result_next_w v, sqrt_cnt_r := sqrt_cnt_r v - 1\<rparr>"
    and "sqrt_cnt_r v = 0 \<Longrightarrow> lnorm_ctrl_step cv cmd i v = v\<lparr>ln_state := LN_NORM_RD,
      std_r := (if sqrt_result_next_w v = 0 then 1 else sqrt_result_next_w v), sqrt_input_r := push_bit 2 (sqrt_input_r v),
      sqrt_rem_r := sqrt_rem_next_w v, sqrt_result_r := sqrt_result_next_w v, sqrt_cnt_r := - 1\<rparr>"
  using assms by (simp_all add: ln_step)

lemma ln_step_write:
  assumes "ln_state v = LN_NORM_WR" and "ai_wr_gnt i"
  shows "\<not> ln_last v \<Longrightarrow> lnorm_ctrl_step cv cmd i v = v\<lparr>ln_state := LN_NORM_RD, idx_r := idx_r v + 1\<rparr>"
    and "ln_last v \<Longrightarrow> \<not> ln_row_last v \<Longrightarrow> ln_more_rows v \<Longrightarrow> lnorm_ctrl_step cv cmd i v = v\<lparr>ln_state := LN_SUM_RD,
      ln_row_r := ln_row_r v + 1, in_row_base_r := in_row_base_r v + row_len_r v,
      out_row_base_r := out_row_base_r v + row_len_r v, idx_r := 0, ln_sum_r := 0, var_sum_r := 0\<rparr>"
    and "ln_last v \<Longrightarrow> ln_row_last v \<Longrightarrow> ln_state (lnorm_ctrl_step cv cmd i v) = LN_DONE"
  using assms by (simp_all add: ln_step)

text \<open>After the command has been accepted the valid input makes no difference; the command itself does for
  one more clock, so the unit relies on a port that holds it.\<close>

lemma ln_valid_ignored:
  assumes "ln_state v \<noteq> LN_IDLE"
  shows "lnorm_ctrl_step cv c i v = lnorm_ctrl_step False c i v"
proof -
  have "lnorm_next_state cv i v = lnorm_next_state False i v"
    using assms by (cases "ln_state v") (simp_all add: lnorm_next_state_def)
  then show ?thesis by (simp only: lnorm_ctrl_step_def assms simp_thms if_False Let_def)
qed

interpretation lnorm: composite lnorm_ctrl_step lnorm_out "\<lambda>v. ln_state v = LN_IDLE" "\<lambda>v. ln_state v = LN_DONE"
proof (unfold_locales, goal_cases)
  case (6 v cv c i)
  then show ?case by (rule ln_valid_ignored)
qed (simp_all add: lnorm_out_def ln_step)

abbreviation lnorm_clock :: "lnorm_cmd_t \<Rightarrow> lnorm_ctrl \<times> act_bank \<Rightarrow> lnorm_ctrl \<times> act_bank" where
  "lnorm_clock c \<equiv> bank_tick lnorm_ctrl_step lnorm_out False c"

abbreviation lnorm_works :: "lnorm_ctrl \<times> act_bank \<Rightarrow> bool" where
  "lnorm_works s \<equiv> ln_state (fst s) \<noteq> LN_IDLE \<and> ln_state (fst s) \<noteq> LN_DONE"

section \<open>What a command computes\<close>

abbreviation ln_rows :: "lnorm_cmd_t \<Rightarrow> nat" where "ln_rows c \<equiv> unat (l_num_rows c)"

abbreviation ln_len :: "lnorm_cmd_t \<Rightarrow> nat" where "ln_len c \<equiv> unat (l_row_len c)"

definition lnorm_row_in :: "lnorm_cmd_t \<Rightarrow> (13 word \<Rightarrow> u8) \<Rightarrow> nat \<Rightarrow> u8 list" where
  "lnorm_row_in c m r = map (\<lambda>i. m (ucast (l_in_addr c + word_of_nat (r * ln_len c + i)))) [0..<ln_len c]"

definition lnorm_byte :: "lnorm_cmd_t \<Rightarrow> (13 word \<Rightarrow> u8) \<Rightarrow> nat \<Rightarrow> u8" where
  "lnorm_byte c m e = (let xs = lnorm_row_in c m (e div ln_len c)
     in word_of_int (lnorm_value (unat (l_norm_shift c)) xs (xs ! (e mod ln_len c))))"

text \<open>The clocks of a command after the one that accepts it.\<close>

definition lnorm_clocks :: "lnorm_cmd_t \<Rightarrow> nat" where
  "lnorm_clocks c = 1 + ln_rows c * (39 * ln_len c + 80)"

text \<open>Rows in the bank, and results that do not overwrite elements still to be read; in place is allowed.\<close>

definition lnorm_ranges :: "lnorm_cmd_t \<Rightarrow> bool" where
  "lnorm_ranges c = (let n = ln_rows c * ln_len c
     in 0 < ln_rows c \<and> 0 < ln_len c \<and> unat (l_in_addr c) + n \<le> 8192 \<and> unat (l_out_addr c) + n \<le> 8192 \<and>
        (unat (l_out_addr c) \<le> unat (l_in_addr c) \<or> unat (l_in_addr c) + n \<le> unat (l_out_addr c)))"

section \<open>Phases\<close>

text \<open>Row \<open>r\<close> is being worked on, at element \<open>i\<close> of a pass, with the results before element \<open>p\<close> written.\<close>

definition ln_at :: "lnorm_cmd_t \<Rightarrow> (13 word \<Rightarrow> u8) \<Rightarrow> nat \<Rightarrow> nat \<Rightarrow> nat \<Rightarrow> lnorm_ctrl \<times> act_bank \<Rightarrow> bool" where
  "ln_at c m r p i s = (let v = fst s
     in num_rows_r v = l_num_rows c \<and> row_len_r v = l_row_len c \<and> norm_shift_r v = l_norm_shift c \<and>
        ln_row_r v = word_of_nat r \<and> in_row_base_r v = l_in_addr c + word_of_nat (r * ln_len c) \<and>
        out_row_base_r v = l_out_addr c + word_of_nat (r * ln_len c) \<and> idx_r v = word_of_nat i \<and>
        ab_mem (snd s) = act_written (l_out_addr c) (lnorm_byte c m) (r * ln_len c + p) m)"

text \<open>The divider after \<open>j\<close> of its 32 rounds on \<open>n\<close>, and the square root after \<open>j\<close> of its 16 rounds.\<close>

definition ln_div_at :: "nat \<Rightarrow> nat \<Rightarrow> nat \<Rightarrow> lnorm_ctrl \<Rightarrow> bool" where
  "ln_div_at n d j v = (unat (ln_denom_r v) = d \<and> unat (ln_rem_r v) = n div 2 ^ (32 - j) mod d \<and>
     unat (ln_quot_r v) = n mod 2 ^ (32 - j) * 2 ^ j + n div 2 ^ (32 - j) div d)"

definition sqrt_at :: "u32 \<Rightarrow> nat \<Rightarrow> lnorm_ctrl \<Rightarrow> bool" where
  "sqrt_at n j v = (sqrt_input_r v = push_bit (2 * j) n \<and>
     (sqrt_rem_r v, sqrt_result_r v) = fold (isqrt_step n) (take j (rev [0..<16])) (0, 0))"

definition squares :: "u8 list \<Rightarrow> nat \<Rightarrow> nat" where
  "squares xs k = nat (\<Sum>x\<leftarrow>take k xs. (sint x - row_mean xs)\<^sup>2)"

text \<open>About to read element \<open>i\<close> of the pass, or to divide, or to go on.\<close>

definition sum_next :: "lnorm_cmd_t \<Rightarrow> (13 word \<Rightarrow> u8) \<Rightarrow> nat \<Rightarrow> nat \<Rightarrow> lnorm_ctrl \<times> act_bank \<Rightarrow> bool" where
  "sum_next c m r i s = (let v = fst s; xs = lnorm_row_in c m r; t = sum_list (map sint (take i xs))
     in var_sum_r v = 0 \<and>
        (if i < ln_len c then ln_state v = LN_SUM_RD \<and> ln_at c m r 0 i s \<and> ln_sum_r v = word_of_int t
         else ln_state v = LN_MEAN_DIV \<and> ln_at c m r 0 0 s \<and> ln_cnt_r v = 31 \<and> ln_div_at (nat \<bar>t\<bar>) (ln_len c) 0 v \<and>
           ln_sign_r v = (t < 0) \<and> \<not> ab_rvalid (snd s)))"

definition var_next :: "lnorm_cmd_t \<Rightarrow> (13 word \<Rightarrow> u8) \<Rightarrow> nat \<Rightarrow> nat \<Rightarrow> lnorm_ctrl \<times> act_bank \<Rightarrow> bool" where
  "var_next c m r i s = (let v = fst s; xs = lnorm_row_in c m r
     in mean_r v = word_of_int (row_mean xs) \<and>
        (if i < ln_len c then ln_state v = LN_VAR_RD \<and> ln_at c m r 0 i s \<and> var_sum_r v = word_of_nat (squares xs i)
         else ln_state v = LN_VAR_DIV \<and> ln_at c m r 0 0 s \<and> ln_cnt_r v = 31 \<and> ln_div_at (squares xs i) (ln_len c) 0 v \<and>
           \<not> ab_rvalid (snd s)))"

definition result_next :: "lnorm_cmd_t \<Rightarrow> (13 word \<Rightarrow> u8) \<Rightarrow> nat \<Rightarrow> nat \<Rightarrow> lnorm_ctrl \<times> act_bank \<Rightarrow> bool" where
  "result_next c m r i s = (let v = fst s; xs = lnorm_row_in c m r
     in if i < ln_len c
        then ln_state v = LN_NORM_RD \<and> ln_at c m r i i s \<and> mean_r v = word_of_int (row_mean xs) \<and>
          unat (std_r v) = (GREATEST s. s * s \<le> row_variance xs + 1)
        else if Suc r < ln_rows c then sum_next c m (Suc r) 0 s
        else ln_state v = LN_DONE \<and>
          ab_mem (snd s) = act_written (l_out_addr c) (lnorm_byte c m) (ln_rows c * ln_len c) m)"

section \<open>Reading an element\<close>

lemma lnorm_input:
  assumes "lnorm_ranges c" and "r < ln_rows c" and "i < ln_len c" and "p \<le> i"
  shows "act_written (l_out_addr c) g (r * ln_len c + p) m (ucast (l_in_addr c + word_of_nat (r * ln_len c) + word_of_nat i)) =
    lnorm_row_in c m r ! i"
proof -
  let ?n = "ln_rows c * ln_len c" and ?e = "r * ln_len c + i"
  have e: "?e < ?n" by (rule radix_less [OF assms(2,3)])
  have a: "l_in_addr c + word_of_nat (r * ln_len c) + word_of_nat i = l_in_addr c + word_of_nat ?e"
    by (simp only: of_nat_add add.assoc)
  have "unat (l_in_addr c) + ?n \<le> 8192" "unat (l_out_addr c) + ?n \<le> 8192"
    "unat (l_out_addr c) \<le> unat (l_in_addr c) \<or> unat (l_in_addr c) + ?n \<le> unat (l_out_addr c)"
    using assms(1) by (simp_all add: lnorm_ranges_def Let_def)
  from act_written_ahead [OF this e] assms(3,4) show ?thesis unfolding a by (simp add: lnorm_row_in_def)
qed

lemma ln_reads:
  assumes "lnorm_ranges c" and "r < ln_rows c" and "i < ln_len c" and "ln_at c m r p i (v, a)" and "p \<le> i"
    and "ln_state v = LN_SUM_RD \<and> w = LN_SUM_WAIT \<or> ln_state v = LN_VAR_RD \<and> w = LN_VAR_WAIT \<or>
      ln_state v = LN_NORM_RD \<and> w = LN_NORM_WAIT"
  shows "lnorm_clock c (v, a) = (v\<lparr>ln_state := w\<rparr>, a\<lparr>ab_rdata := lnorm_row_in c m r ! i, ab_rvalid := True\<rparr>)"
proof -
  have v: "in_row_base_r v = l_in_addr c + word_of_nat (r * ln_len c)" "idx_r v = word_of_nat i"
    "ab_mem a = act_written (l_out_addr c) (lnorm_byte c m) (r * ln_len c + p) m"
    using assms(4) by (simp_all add: ln_at_def Let_def)
  have rd: "ab_mem a (ucast (in_row_base_r v + idx_r v)) = lnorm_row_in c m r ! i"
    unfolding v by (rule lnorm_input [OF assms(1-3,5)])
  have o: "ao_rd_req (lnorm_out v)" "\<not> ao_wr_req (lnorm_out v)" "ao_rd_addr (lnorm_out v) = in_row_base_r v + idx_r v"
    using assms(6) by (auto simp: lnorm_out_def)
  then have "ai_rd_gnt (bank_in (lnorm_out v) a)" by (simp add: bank_in_def)
  then have "lnorm_ctrl_step False c (bank_in (lnorm_out v) a) v = v\<lparr>ln_state := w\<rparr>"
    using assms(6) ln_step_read [of v "bank_in (lnorm_out v) a"] by auto
  then show ?thesis using o rd by (simp add: bank_tick_def bank_step_def)
qed

lemma ln_silent:
  assumes "ln_state v \<notin> {LN_SUM_RD, LN_VAR_RD, LN_NORM_RD, LN_NORM_WR}"
  shows "lnorm_clock c (v, a) = (lnorm_ctrl_step False c (bank_in (lnorm_out v) a) v, a\<lparr>ab_rvalid := False\<rparr>)"
  using assms by (simp add: bank_tick_def bank_step_def lnorm_out_def)

lemma bank_in_data [simp]: "ai_rdata (bank_in p a) = ab_rdata a" "ai_rvalid (bank_in p a) = ab_rvalid a"
  by (simp_all add: bank_in_def)

lemma ln_last_eq:
  assumes "ln_at c m r p i (v, a)" and "i < ln_len c"
  shows "ln_last v \<longleftrightarrow> Suc i = ln_len c"
  using assms(1) counter16(1) [OF assms(2)] by (simp add: ln_last_def ln_at_def Let_def)

text \<open>The divider starts on \<open>n\<close>.\<close>

lemma ln_div_start:
  assumes "n < 4294967296" and "unat (ln_denom_r v) = d" and "ln_rem_r v = 0" and "unat (ln_quot_r v) = n"
  shows "ln_div_at n d 0 v"
  using assms by (simp add: ln_div_at_def)

section \<open>The sum pass\<close>

lemma length_lnorm_row [simp]: "length (lnorm_row_in c m r) = ln_len c"
  by (simp add: lnorm_row_in_def)

lemma sum_take_Suc: "i < length xs \<Longrightarrow> sum_list (map f (take (Suc i) xs)) = sum_list (map f (take i xs)) + (f (xs ! i) :: int)"
  by (simp add: take_Suc_conv_app_nth)

lemma row_sum_bounds: "length xs \<le> 65535 \<Longrightarrow> \<bar>sum_list (map sint (xs :: u8 list))\<bar> \<le> 8388480"
  using sum_sint_bounds [of xs] by linarith

lemma sum_round:
  assumes "lnorm_ranges c" and "r < ln_rows c" and "i < ln_len c" and "sum_next c m r i s"
  shows "leads (lnorm_clock c) lnorm_works 2 s (sum_next c m r (Suc i))"
proof -
  obtain v a where s: "s = (v, a)" by fastforce
  let ?xs = "lnorm_row_in c m r"
  let ?t = "\<lambda>k. sum_list (map sint (take k ?xs)) :: int"
  have v: "ln_state v = LN_SUM_RD" "ln_at c m r 0 i (v, a)" "ln_sum_r v = word_of_int (?t i)" "var_sum_r v = 0"
    using assms(3,4) by (simp_all add: sum_next_def Let_def s)
  define v1 where "v1 = v\<lparr>ln_state := LN_SUM_WAIT\<rparr>"
  define a1 where "a1 = a\<lparr>ab_rdata := ?xs ! i, ab_rvalid := True\<rparr>"
  have 1: "lnorm_clock c s = (v1, a1)"
    using ln_reads [OF assms(1-3) v(2), of LN_SUM_WAIT] v(1) by (simp add: s v1_def a1_def)
  have w: "ln_state v1 = LN_SUM_WAIT" "ln_at c m r 0 i (v1, a1)" "ai_rvalid (bank_in (lnorm_out v1) a1)"
    using v(2) by (simp_all add: v1_def a1_def ln_at_def Let_def)
  have t: "ln_sum_r v1 + scast (ai_rdata (bank_in (lnorm_out v1) a1)) = word_of_int (?t (Suc i))"
    using assms(3) v(3) by (simp add: v1_def a1_def sum_take_Suc)
  have b: "\<bar>?t (Suc i)\<bar> \<le> 8388480"
    using row_sum_bounds [of "take (Suc i) ?xs"] unat_u16_le [of "l_row_len c"] by simp
  have 2: "lnorm_clock c (v1, a1) = (lnorm_ctrl_step False c (bank_in (lnorm_out v1) a1) v1, a1\<lparr>ab_rvalid := False\<rparr>)"
    using w(1) by (intro ln_silent) simp
  note st = ln_step_sum [OF w(1,3), unfolded t, of False c]
  note last = ln_last_eq [OF w(2) assms(3)]
  have "sum_next c m r (Suc i) (lnorm_clock c (v1, a1))"
  proof (cases "Suc i = ln_len c")
    case False
    then have "\<not> ln_last v1" using last by simp
    then show ?thesis
      unfolding 2 st(1) [OF \<open>\<not> ln_last v1\<close>] using False assms(3) v(4) w(2)
      by (simp add: sum_next_def ln_at_def Let_def v1_def)
  next
    case True
    then have l: "ln_last v1" using last by simp
    let ?n = "nat \<bar>?t (Suc i)\<bar>"
    have sgn: "bit (word_of_int (?t (Suc i)) :: u32) 31 \<longleftrightarrow> ?t (Suc i) < 0"
      and mag: "unat (if bit (word_of_int (?t (Suc i)) :: u32) 31 then - word_of_int (?t (Suc i)) else word_of_int (?t (Suc i)) :: u32) = ?n"
      using magnitude_word [of "?t (Suc i)"] b by simp_all
    have d: "unat (ucast (row_len_r v1) :: u32) = ln_len c"
      using w(2) by (simp add: ln_at_def Let_def)
    show ?thesis
      unfolding 2 st(2) [OF l] using True v(4) w(2) sgn mag d b
      by (simp add: sum_next_def ln_at_def Let_def v1_def ln_div_at_def)
  qed
  then have "leads (lnorm_clock c) lnorm_works (Suc (Suc 0)) s (sum_next c m r (Suc i))"
    using v(1) w(1) by (intro leads_step leads_0) (simp_all only: 1, simp_all add: s)
  then show ?thesis by (simp add: numeral_2_eq_2)
qed

section \<open>Dividing\<close>

lemma ln_div_round:
  assumes "ln_div_at n d j v" and "j < 32" and "n < 2 ^ 32" and "0 < d" and "d < 2 ^ 31"
  shows "unat (ln_rem_next_w v) = n div 2 ^ (32 - Suc j) mod d"
    and "unat (ln_quot_next_w v) = n mod 2 ^ (32 - Suc j) * 2 ^ Suc j + n div 2 ^ (32 - Suc j) div d"
proof -
  have v: "unat (ln_denom_r v) = d" "unat (ln_rem_r v) = n div 2 ^ (32 - j) mod d"
    "unat (ln_quot_r v) = n mod 2 ^ (32 - j) * 2 ^ j + n div 2 ^ (32 - j) div d"
    using assms(1) by (simp_all add: ln_div_at_def)
  note q = restoring_round32 [OF v(1) assms(4,5,2,3) v(2,3), folded ln_trial_w_def, folded ln_rem_next_w_def ln_quot_next_w_def]
  show "unat (ln_rem_next_w v) = n div 2 ^ (32 - Suc j) mod d"
    "unat (ln_quot_next_w v) = n mod 2 ^ (32 - Suc j) * 2 ^ Suc j + n div 2 ^ (32 - Suc j) div d"
    using q by simp_all
qed

text \<open>All rounds but the last one, and the last one.\<close>

lemma ln_divides:
  assumes st: "ln_state v \<in> {LN_MEAN_DIV, LN_VAR_DIV, LN_NORM_DIV}" and "ln_cnt_r v = 31" and "ln_div_at n d 0 v"
    and "\<not> ab_rvalid a" and "n < 2 ^ 32" and "0 < d" and "d < 2 ^ 31"
  shows "leads (lnorm_clock c) lnorm_works 31 (v, a)
    (\<lambda>s. \<exists>q t. s = (v\<lparr>ln_quot_r := q, ln_rem_r := t, ln_cnt_r := 0\<rparr>, a) \<and> ln_div_at n d 31 (fst s))"
proof -
  let ?Q = "\<lambda>j s. \<exists>q t. s = (v\<lparr>ln_quot_r := q, ln_rem_r := t, ln_cnt_r := word_of_nat (31 - j)\<rparr>, a) \<and> ln_div_at n d j (fst s)"
  have "leads (lnorm_clock c) lnorm_works (\<Sum>j<(31 :: nat). 1) (v, a) (?Q 31)"
  proof (rule leads_loop [where Q = ?Q])
    have "v = v\<lparr>ln_quot_r := ln_quot_r v, ln_rem_r := ln_rem_r v, ln_cnt_r := word_of_nat (31 - 0)\<rparr>" using assms(2) by simp
    then show "?Q 0 (v, a)" using assms(3) by (metis fst_conv)
  next
    fix j t
    assume j: "j < (31 :: nat)" and "?Q j t"
    then obtain q x where t: "t = (v\<lparr>ln_quot_r := q, ln_rem_r := x, ln_cnt_r := word_of_nat (31 - j)\<rparr>, a)"
      and d: "ln_div_at n d j (fst t)" by blast
    define u where "u = v\<lparr>ln_quot_r := q, ln_rem_r := x, ln_cnt_r := word_of_nat (31 - j)\<rparr>"
    have us: "ln_state u \<in> {LN_MEAN_DIV, LN_VAR_DIV, LN_NORM_DIV}" "ln_denom_r u = ln_denom_r v" using st by (simp_all add: u_def)
    have "31 - j < 2 ^ LENGTH(5)" by simp
    from bank_addr_eq [OF this, of 0] have "ln_cnt_r u \<noteq> 0" using j by (simp add: u_def del: of_nat_diff)
    note step = ln_step_div [OF _ this, of False c "bank_in (lnorm_out u) a"]
    have "ln_cnt_r u - 1 = word_of_nat (31 - Suc j)" using j by (simp add: u_def of_nat_diff)
    then have 1: "lnorm_clock c t = (v\<lparr>ln_quot_r := ln_quot_next_w u, ln_rem_r := ln_rem_next_w u, ln_cnt_r := word_of_nat (31 - Suc j)\<rparr>, a)"
      using us(1) assms(4) step unfolding t u_def [symmetric]
      by (subst ln_silent) (auto simp: u_def)
    have "ln_div_at n d j u" using d by (simp add: t u_def)
    note r = ln_div_round [OF this less_trans [OF j] assms(5-7)]
    have "ln_div_at n d (Suc j) (fst (lnorm_clock c t))"
      using r assms(3) unfolding 1 by (simp add: ln_div_at_def)
    with 1 have "?Q (Suc j) (lnorm_clock c t)" by blast
    moreover have "lnorm_works t" using st by (auto simp: t)
    ultimately show "leads (lnorm_clock c) lnorm_works 1 t (?Q (Suc j))" by (intro leads_1)
  qed
  then show ?thesis by simp
qed

lemma ln_div_last:
  assumes "ln_div_at n d 31 v" and "n < 2 ^ 32" and "0 < d" and "d < 2 ^ 31"
  shows "unat (ln_quot_next_w v) = n div d"
  using ln_div_round(2) [OF assms(1) _ assms(2-4)] by simp

lemma ln_division:
  assumes st: "ln_state v \<in> {LN_MEAN_DIV, LN_VAR_DIV, LN_NORM_DIV}" and "ln_cnt_r v = 31" and "ln_div_at n d 0 v"
    and a: "\<not> ab_rvalid a" and "n < 2 ^ 32" and "0 < d" and "d < 2 ^ 31"
    and fin: "\<And>q t. let w = v\<lparr>ln_quot_r := q, ln_rem_r := t, ln_cnt_r := 0\<rparr>
      in unat (ln_quot_next_w w) = n div d \<longrightarrow> Q (lnorm_ctrl_step False c (bank_in (lnorm_out w) a) w, a)"
  shows "leads (lnorm_clock c) lnorm_works 32 (v, a) Q"
proof -
  have "leads (lnorm_clock c) lnorm_works (31 + 1) (v, a) Q"
  proof (rule leads_trans [OF ln_divides [OF assms(1-7)]])
    fix s
    assume "\<exists>q t. s = (v\<lparr>ln_quot_r := q, ln_rem_r := t, ln_cnt_r := 0\<rparr>, a) \<and> ln_div_at n d 31 (fst s)"
    then obtain q t where s: "s = (v\<lparr>ln_quot_r := q, ln_rem_r := t, ln_cnt_r := 0\<rparr>, a)"
      and d: "ln_div_at n d 31 (fst s)" by blast
    define w where "w = v\<lparr>ln_quot_r := q, ln_rem_r := t, ln_cnt_r := 0\<rparr>"
    have "unat (ln_quot_next_w w) = n div d" using ln_div_last [OF d assms(5-7)] by (simp add: s w_def)
    then have Q: "Q (lnorm_ctrl_step False c (bank_in (lnorm_out w) a) w, a)"
      using fin [where q = q and t = t] by (simp only: w_def Let_def)
    have "lnorm_clock c s = (lnorm_ctrl_step False c (bank_in (lnorm_out w) a) w, a)"
      unfolding s w_def [symmetric] using st a by (subst ln_silent) (auto simp: w_def)
    moreover have "lnorm_works s" using st by (auto simp: s)
    ultimately show "leads (lnorm_clock c) lnorm_works 1 s Q" using Q by (intro leads_1) simp_all
  qed
  then show ?thesis by simp
qed

lemma ln_len_bounds: "0 < ln_rows c \<Longrightarrow> lnorm_ranges c \<Longrightarrow> 0 < ln_len c \<and> ln_len c < 2 ^ 31"
  using unat_u16_le [of "l_row_len c"] by (simp add: lnorm_ranges_def Let_def)

lemma mean_round:
  assumes "lnorm_ranges c" and "r < ln_rows c" and "sum_next c m r (ln_len c) s"
  shows "leads (lnorm_clock c) lnorm_works 32 s (var_next c m r 0)"
proof -
  obtain v a where s: "s = (v, a)" by fastforce
  let ?xs = "lnorm_row_in c m r" and ?N = "ln_len c"
  define t where "t = sum_list (map sint ?xs)"
  have v: "ln_state v = LN_MEAN_DIV" "ln_at c m r 0 0 (v, a)" "ln_cnt_r v = 31" "ln_div_at (nat \<bar>t\<bar>) ?N 0 v"
    "ln_sign_r v = (t < 0)" "\<not> ab_rvalid a" "var_sum_r v = 0"
    using assms(3) by (simp_all add: sum_next_def Let_def s t_def)
  have N: "0 < ?N" "?N < 2 ^ 31" using ln_len_bounds [of c] assms(1,2) by simp_all
  have n: "nat \<bar>t\<bar> < 2 ^ 32" using row_sum_bounds [of ?xs] unat_u16_le [of "l_row_len c"] by (simp add: t_def)
  have mean: "row_mean ?xs = (if t < 0 then - int (nat \<bar>t\<bar> div ?N) else int (nat \<bar>t\<bar> div ?N))"
  proof -
    have "row_mean ?xs = t sdiv int ?N" by (simp only: row_mean_def t_def length_lnorm_row)
    moreover have "int (nat \<bar>t\<bar> div ?N) = \<bar>t\<bar> div int ?N" by (simp only: zdiv_int int_nat_eq abs_ge_zero if_True)
    ultimately show ?thesis using sdiv_pos [of "int ?N" t] N(1) by (simp only: of_nat_0_less_iff) simp
  qed
  have "ln_state v \<in> {LN_MEAN_DIV, LN_VAR_DIV, LN_NORM_DIV}" using v(1) by simp
  then show ?thesis unfolding s
  proof (rule ln_division [OF _ v(3,4,6) n N])
    fix q x
    define w where "w = v\<lparr>ln_quot_r := q, ln_rem_r := x, ln_cnt_r := 0\<rparr>"
    have w: "ln_state w = LN_MEAN_DIV" "ln_cnt_r w = 0" "ln_sign_r w = (t < 0)" "ln_at c m r 0 0 (w, a)" "var_sum_r w = 0"
      using v by (simp_all add: w_def ln_at_def Let_def)
    have "var_next c m r 0 (lnorm_ctrl_step False c (bank_in (lnorm_out w) a) w, a)"
      if "unat (ln_quot_next_w w) = nat \<bar>t\<bar> div ?N"
    proof -
      have q: "ln_quot_next_w w = word_of_nat (nat \<bar>t\<bar> div ?N)" using that by (metis of_nat_unat ucast_id)
      have "(if ln_sign_r w then - ln_quot_next_w w else ln_quot_next_w w) = word_of_int (row_mean ?xs)"
        unfolding w(3) q mean by (cases "t < 0") (simp_all only: if_True if_False of_int_minus of_int_of_nat_eq)
      then show ?thesis
        unfolding ln_step_divided(1) [OF w(1,2)] using w(4,5) N(1) by (simp add: var_next_def ln_at_def Let_def squares_def)
    qed
    then show "let w = v\<lparr>ln_quot_r := q, ln_rem_r := x, ln_cnt_r := 0\<rparr> in unat (ln_quot_next_w w) = nat \<bar>t\<bar> div ?N \<longrightarrow>
        var_next c m r 0 (lnorm_ctrl_step False c (bank_in (lnorm_out w) a) w, a)"
      by (simp add: Let_def w_def)
  qed
qed

section \<open>The variance pass\<close>

lemma diff_words:
  fixes x :: u8
  assumes "mean_r v = word_of_int (row_mean xs)" and "xs \<noteq> []"
  defines "d \<equiv> sint x - row_mean xs"
  shows "bit (diff_w x v) 31 \<longleftrightarrow> d < 0" and "unat (abs_diff_w x v) = nat \<bar>d\<bar>"
    and "abs_diff_sq_w x v = word_of_nat (nat (d\<^sup>2))" and "nat (d\<^sup>2) \<le> 65025"
proof -
  have b: "\<bar>d\<bar> \<le> 255" unfolding d_def by (rule row_diff_bounds [OF assms(2)])
  have w: "diff_w x v = word_of_int d" by (simp add: diff_w_def assms(1) d_def)
  have "\<bar>d\<bar> < 2147483648" using b by simp
  from magnitude_word [OF this] show s: "bit (diff_w x v) 31 \<longleftrightarrow> d < 0" and a: "unat (abs_diff_w x v) = nat \<bar>d\<bar>"
    unfolding abs_diff_w_def w by simp_all
  have n: "nat \<bar>d\<bar> \<le> 255" using b by simp
  then have sq: "nat \<bar>d\<bar> * nat \<bar>d\<bar> \<le> 255 * 255" by (intro mult_le_mono)
  have e: "nat (d\<^sup>2) = nat \<bar>d\<bar> * nat \<bar>d\<bar>"
    by (metis abs_ge_zero nat_mult_distrib power2_abs power2_eq_square)
  show "nat (d\<^sup>2) \<le> 65025" unfolding e using sq by simp
  have "unat (ucast (abs_diff_w x v) :: u16) = nat \<bar>d\<bar>"
    using n by (simp add: unsigned_ucast_eq a take_bit_nat_eq_self)
  then have "unat (abs_diff_sq_w x v) = nat \<bar>d\<bar> * nat \<bar>d\<bar>"
    using sq by (simp add: abs_diff_sq_w_def Let_def unat_word_ariths)
  then show "abs_diff_sq_w x v = word_of_nat (nat (d\<^sup>2))" unfolding e by (metis of_nat_unat ucast_id)
qed

lemma squares_0 [simp]: "squares xs 0 = 0"
  by (simp add: squares_def)

lemma squares_Suc: "i < length xs \<Longrightarrow> squares xs (Suc i) = squares xs i + nat ((sint (xs ! i) - row_mean xs)\<^sup>2)"
  unfolding squares_def sum_take_Suc by (intro nat_add_distrib sum_list_nonneg) auto

lemma squares_less: "xs \<noteq> [] \<Longrightarrow> length xs \<le> 65535 \<Longrightarrow> squares xs k < 4294967296"
  unfolding squares_def by (rule squares_bounds(1))

lemma final_var_word:
  assumes "var_sum_r v = word_of_nat a" and "abs_diff_sq_w x v = word_of_nat b" and "a + b < 4294967296"
  shows "unat (final_var x v) = a + b"
proof -
  have u: "unat (ucast (word_of_nat a :: u32) :: u64) = a" "unat (ucast (word_of_nat b :: u32) :: u64) = b"
    using assms(3) by (simp_all add: unsigned_ucast_eq unsigned_of_nat take_bit_nat_eq_self)
  let ?w = "ucast (word_of_nat a :: u32) + ucast (word_of_nat b :: u32) :: u64"
  have w: "unat ?w = a + b" using assms(3) by (subst unat_word_ariths) (simp add: u)
  have "unat (drop_bit 32 ?w) = unat ?w div 2 ^ 32"
    unfolding unat_drop_bit_eq by (rule drop_bit_eq_div)
  also have "\<dots> = unat (0 :: u64)" unfolding w using assms(3) by simp
  finally have z: "drop_bit 32 ?w = 0" by (rule unsigned_word_eqI)
  have f: "final_var x v = ucast ?w" unfolding final_var_def Let_def assms(1,2) z by (simp only: simp_thms if_False)
  have "take_bit 32 (a + b) = a + b" using assms(3) by (intro take_bit_nat_eq_self) simp
  then show ?thesis unfolding f unsigned_ucast_eq w by (simp only: len_bit0 len_num1 mult_1_right) simp
qed

lemma row_nonempty: "0 < ln_len c \<Longrightarrow> lnorm_row_in c m r \<noteq> [] \<and> length (lnorm_row_in c m r) \<le> 65535"
  using unat_u16_le [of "l_row_len c"] by (auto simp: lnorm_row_in_def)

lemma var_round:
  assumes "lnorm_ranges c" and "r < ln_rows c" and "i < ln_len c" and "var_next c m r i s"
  shows "leads (lnorm_clock c) lnorm_works 2 s (var_next c m r (Suc i))"
proof -
  obtain v a where s: "s = (v, a)" by fastforce
  let ?xs = "lnorm_row_in c m r"
  have v: "ln_state v = LN_VAR_RD" "ln_at c m r 0 i (v, a)" "var_sum_r v = word_of_nat (squares ?xs i)"
    "mean_r v = word_of_int (row_mean ?xs)"
    using assms(3,4) by (simp_all add: var_next_def Let_def s)
  define v1 where "v1 = v\<lparr>ln_state := LN_VAR_WAIT\<rparr>"
  define a1 where "a1 = a\<lparr>ab_rdata := ?xs ! i, ab_rvalid := True\<rparr>"
  have 1: "lnorm_clock c s = (v1, a1)"
    using ln_reads [OF assms(1-3) v(2), of LN_VAR_WAIT] v(1) by (simp add: s v1_def a1_def)
  have w: "ln_state v1 = LN_VAR_WAIT" "ln_at c m r 0 i (v1, a1)" "ai_rvalid (bank_in (lnorm_out v1) a1)"
    "ai_rdata (bank_in (lnorm_out v1) a1) = ?xs ! i" "mean_r v1 = word_of_int (row_mean ?xs)"
    "var_sum_r v1 = word_of_nat (squares ?xs i)"
    using v(2-4) by (simp_all add: v1_def a1_def ln_at_def Let_def)
  have ne: "?xs \<noteq> []" "length ?xs \<le> 65535" using row_nonempty assms(3) by simp_all
  note sq = diff_words [OF w(5) ne(1), of "?xs ! i"]
  have S: "squares ?xs (Suc i) = squares ?xs i + nat ((sint (?xs ! i) - row_mean ?xs)\<^sup>2)"
    using assms(3) by (intro squares_Suc) simp
  have sum: "var_sum_r v1 + abs_diff_sq_w (?xs ! i) v1 = word_of_nat (squares ?xs (Suc i))"
    unfolding S w(6) sq(3) by simp
  have fin: "unat (final_var (?xs ! i) v1) = squares ?xs (Suc i)"
    using squares_less [OF ne, of "Suc i"] unfolding S by (intro final_var_word w(6) sq(3))
  have 2: "lnorm_clock c (v1, a1) = (lnorm_ctrl_step False c (bank_in (lnorm_out v1) a1) v1, a1\<lparr>ab_rvalid := False\<rparr>)"
    using w(1) by (intro ln_silent) simp
  note st = ln_step_square [OF w(1,3), unfolded w(4) sum, of False c]
  note last = ln_last_eq [OF w(2) assms(3)]
  have "var_next c m r (Suc i) (lnorm_clock c (v1, a1))"
  proof (cases "Suc i = ln_len c")
    case False
    then have "\<not> ln_last v1" using last by simp
    then show ?thesis
      unfolding 2 st(1) [OF \<open>\<not> ln_last v1\<close>] using False assms(3) w(2,5)
      by (simp add: var_next_def ln_at_def Let_def v1_def)
  next
    case True
    then have l: "ln_last v1" using last by simp
    have d: "unat (ucast (row_len_r v1) :: u32) = ln_len c"
      using w(2) by (simp add: ln_at_def Let_def)
    show ?thesis
      unfolding 2 st(2) [OF l] using True w(2,5) fin d squares_less [OF ne, of "Suc i"]
      by (simp add: var_next_def ln_at_def Let_def v1_def ln_div_at_def)
  qed
  then have "leads (lnorm_clock c) lnorm_works (Suc (Suc 0)) s (var_next c m r (Suc i))"
    using v(1) w(1) by (intro leads_step leads_0) (simp_all only: 1, simp_all add: s)
  then show ?thesis by (simp add: numeral_2_eq_2)
qed

section \<open>The standard deviation\<close>

definition sqrt_begin :: "lnorm_cmd_t \<Rightarrow> (13 word \<Rightarrow> u8) \<Rightarrow> nat \<Rightarrow> lnorm_ctrl \<times> act_bank \<Rightarrow> bool" where
  "sqrt_begin c m r s = (let v = fst s; xs = lnorm_row_in c m r
     in ln_state v = LN_SQRT \<and> ln_at c m r 0 0 s \<and> mean_r v = word_of_int (row_mean xs) \<and> sqrt_cnt_r v = 15 \<and>
        sqrt_at (word_of_nat (row_variance xs + 1)) 0 v \<and> \<not> ab_rvalid (snd s))"

lemma variance_round:
  assumes "lnorm_ranges c" and "r < ln_rows c" and "var_next c m r (ln_len c) s"
  shows "leads (lnorm_clock c) lnorm_works 32 s (sqrt_begin c m r)"
proof -
  obtain v a where s: "s = (v, a)" by fastforce
  let ?xs = "lnorm_row_in c m r" and ?N = "ln_len c"
  have v: "ln_state v = LN_VAR_DIV" "ln_at c m r 0 0 (v, a)" "ln_cnt_r v = 31" "ln_div_at (squares ?xs ?N) ?N 0 v"
    "mean_r v = word_of_int (row_mean ?xs)" "\<not> ab_rvalid a"
    using assms(3) by (simp_all add: var_next_def Let_def s)
  have N: "0 < ?N" "?N < 2 ^ 31" using ln_len_bounds [of c] assms(1,2) by simp_all
  have ne: "?xs \<noteq> []" "length ?xs \<le> 65535" using row_nonempty N(1) by simp_all
  have n: "squares ?xs ?N < 2 ^ 32" using squares_less [OF ne] by simp
  have var: "squares ?xs ?N div ?N = row_variance ?xs" by (simp add: squares_def row_variance_def)
  have "ln_state v \<in> {LN_MEAN_DIV, LN_VAR_DIV, LN_NORM_DIV}" using v(1) by simp
  then show ?thesis unfolding s
  proof (rule ln_division [OF _ v(3,4,6) n N])
    fix q x
    define w where "w = v\<lparr>ln_quot_r := q, ln_rem_r := x, ln_cnt_r := 0\<rparr>"
    have w: "ln_state w = LN_VAR_DIV" "ln_cnt_r w = 0" "ln_at c m r 0 0 (w, a)" "mean_r w = word_of_int (row_mean ?xs)"
      using v by (simp_all add: w_def ln_at_def Let_def)
    have "sqrt_begin c m r (lnorm_ctrl_step False c (bank_in (lnorm_out w) a) w, a)"
      if "unat (ln_quot_next_w w) = squares ?xs ?N div ?N"
    proof -
      have "ln_quot_next_w w = word_of_nat (row_variance ?xs)" using that unfolding var by (metis of_nat_unat ucast_id)
      then show ?thesis
        unfolding ln_step_divided(2) [OF w(1,2)] using w(3,4) v(6) by (simp add: sqrt_begin_def sqrt_at_def ln_at_def Let_def)
    qed
    then show "let w = v\<lparr>ln_quot_r := q, ln_rem_r := x, ln_cnt_r := 0\<rparr> in unat (ln_quot_next_w w) = squares ?xs ?N div ?N \<longrightarrow>
        sqrt_begin c m r (lnorm_ctrl_step False c (bank_in (lnorm_out w) a) w, a)"
      by (simp add: Let_def w_def)
  qed
qed

text \<open>A round of the serial square root is a step of the reference loop.\<close>

lemma top_digit:
  fixes n :: u32
  assumes "j < 16"
  shows "drop_bit 30 (push_bit (2 * j) n) = drop_bit (2 * (15 - j)) n AND 3"
proof -
  have three: "(3 :: u32) = mask 2" by (simp add: mask_eq_exp_minus_1)
  have b3: "bit (3 :: u32) k \<longleftrightarrow> k < 2" for k unfolding three bit_mask_iff by auto
  show ?thesis
  proof (rule bit_word_eqI)
    fix k
    assume "k < LENGTH(32)"
    have "30 + k - 2 * j = 2 * (15 - j) + k" "2 * j \<le> 30 + k" using assms by simp_all
    then have "bit (drop_bit 30 (push_bit (2 * j) n)) k \<longleftrightarrow> 30 + k < 32 \<and> bit n (2 * (15 - j) + k)"
      by (simp only: bit_drop_bit_eq comp_apply bit_push_bit_iff) simp
    then show "bit (drop_bit 30 (push_bit (2 * j) n)) k = bit (drop_bit (2 * (15 - j)) n AND 3) k"
      unfolding bit_and_iff b3 bit_drop_bit_eq comp_apply by auto
  qed
qed

lemma sqrt_round:
  assumes "sqrt_at n j v" and "j < 16"
  shows "(sqrt_rem_next_w v, sqrt_result_next_w v) = fold (isqrt_step n) (take (Suc j) (rev [0..<16])) (0, 0)"
    and "push_bit 2 (sqrt_input_r v) = push_bit (2 * Suc j) n"
proof -
  have i: "sqrt_input_r v = push_bit (2 * j) n"
    and f: "(sqrt_rem_r v, sqrt_result_r v) = fold (isqrt_step n) (take j (rev [0..<16])) (0, 0)"
    using assms(1) by (simp_all add: sqrt_at_def)
  have "take (Suc j) (rev [0..<16]) = take j (rev [0..<16]) @ [15 - j]"
    using assms(2) by (simp add: take_Suc_conv_app_nth rev_nth)
  moreover have "(sqrt_rem_next_w v, sqrt_result_next_w v) = isqrt_step n (15 - j) (sqrt_rem_r v, sqrt_result_r v)"
    unfolding isqrt_step_def sqrt_rem_next_w_def sqrt_result_next_w_def sqrt_rem_shifted_w_def sqrt_trial_w_def i
      top_digit [OF assms(2)] by (simp only: prod.case Let_def split: if_split) simp
  ultimately show "(sqrt_rem_next_w v, sqrt_result_next_w v) = fold (isqrt_step n) (take (Suc j) (rev [0..<16])) (0, 0)"
    by (simp only: fold_append fold.simps comp_apply id_apply f)
  show "push_bit 2 (sqrt_input_r v) = push_bit (2 * Suc j) n" by (simp add: i push_bit_push_bit add.commute)
qed

text \<open>The standard deviation that the results are divided by.\<close>

definition row_std_of :: "u8 list \<Rightarrow> nat" where
  "row_std_of xs = (GREATEST s. s * s \<le> row_variance xs + 1)"

lemma row_std_of:
  assumes "xs \<noteq> []" and "length xs \<le> 65535"
  defines "s \<equiv> isqrt_hw (word_of_nat (row_variance xs + 1))"
  shows "unat s = row_std_of xs" and "s \<noteq> 0" and "0 < row_std_of xs" and "row_std_of xs \<le> 255"
proof -
  note b = std_bounds [OF squares_bounds(2) [OF assms(1,2)], folded s_def row_std_of_def]
  show "unat s = row_std_of xs" "s \<noteq> 0" "row_std_of xs \<le> 255" using b by simp_all
  show "0 < row_std_of xs" unfolding b(1) [symmetric] using b(2) unat_gt_0 by blast
qed

lemma sqrt_rounds:
  assumes "lnorm_ranges c" and "r < ln_rows c" and "sqrt_begin c m r s"
  shows "leads (lnorm_clock c) lnorm_works 16 s (result_next c m r 0)"
proof -
  obtain v a where s: "s = (v, a)" by fastforce
  let ?xs = "lnorm_row_in c m r"
  define n where "n = (word_of_nat (row_variance ?xs + 1) :: u32)"
  have v: "ln_state v = LN_SQRT" "ln_at c m r 0 0 (v, a)" "mean_r v = word_of_int (row_mean ?xs)" "sqrt_cnt_r v = 15"
    "sqrt_at n 0 v" "\<not> ab_rvalid a"
    using assms(3) by (simp_all add: sqrt_begin_def Let_def s n_def)
  let ?u = "\<lambda>i t q k. v\<lparr>sqrt_input_r := i, sqrt_rem_r := t, sqrt_result_r := q, sqrt_cnt_r := k\<rparr>"
  let ?Q = "\<lambda>j s. \<exists>i t q. s = (?u i t q (word_of_nat (15 - j)), a) \<and> sqrt_at n j (fst s)"
  have step: "leads (lnorm_clock c) lnorm_works 1 x (?Q (Suc j))" if j: "j < 15" and "?Q j x" for j x
  proof -
    from \<open>?Q j x\<close> obtain i t q where x: "x = (?u i t q (word_of_nat (15 - j)), a)" and q: "sqrt_at n j (fst x)" by blast
    define u where "u = ?u i t q (word_of_nat (15 - j))"
    have us: "ln_state u = LN_SQRT" using v(1) by (simp add: u_def)
    have "15 - j < 2 ^ LENGTH(5)" by simp
    from bank_addr_eq [OF this, of 0] have "sqrt_cnt_r u \<noteq> 0" using j by (simp add: u_def del: of_nat_diff)
    note st = ln_step_sqrt(1) [OF us this, of False c "bank_in (lnorm_out u) a"]
    have "sqrt_at n j u" "j < 16" using q j by (simp_all add: x u_def)
    note rd = sqrt_round [OF this]
    have "sqrt_cnt_r u - 1 = word_of_nat (15 - Suc j)" using j by (simp add: u_def of_nat_diff)
    then have 1: "lnorm_clock c x = (?u (push_bit 2 (sqrt_input_r u)) (sqrt_rem_next_w u) (sqrt_result_next_w u) (word_of_nat (15 - Suc j)), a)"
      using us v(6) st unfolding x u_def [symmetric] by (subst ln_silent) (auto simp: u_def)
    have "sqrt_at n (Suc j) (fst (lnorm_clock c x))" unfolding 1 using rd by (simp add: sqrt_at_def)
    with 1 have "?Q (Suc j) (lnorm_clock c x)" by blast
    moreover have "lnorm_works x" using v(1) by (simp add: x)
    ultimately show ?thesis by (intro leads_1)
  qed
  have "v = ?u (sqrt_input_r v) (sqrt_rem_r v) (sqrt_result_r v) (word_of_nat (15 - 0))" using v(4) by simp
  then have "?Q 0 (v, a)" using v(5) by (metis fst_conv)
  from leads_loop [where Q = ?Q, OF this step]
  have l: "leads (lnorm_clock c) lnorm_works (\<Sum>j<(15 :: nat). 1) s (?Q 15)" unfolding s .
  have "leads (lnorm_clock c) lnorm_works ((\<Sum>j<(15 :: nat). 1) + 1) s (result_next c m r 0)"
  proof (rule leads_trans [OF l])
    fix x
    assume "?Q 15 x"
    then obtain i t q where x: "x = (?u i t q 0, a)" and q: "sqrt_at n 15 (fst x)" by auto
    define u where "u = ?u i t q 0"
    have us: "ln_state u = LN_SQRT" "sqrt_cnt_r u = 0" "ln_at c m r 0 0 (u, a)" "mean_r u = word_of_int (row_mean ?xs)"
      using v(1-3) by (simp_all add: u_def ln_at_def Let_def)
    have "sqrt_at n 15 u" "15 < (16 :: nat)" using q by (simp_all add: x u_def)
    from sqrt_round(1) [OF this] have res: "sqrt_result_next_w u = isqrt_hw n"
      by (simp add: isqrt_hw_def prod_eq_iff)
    have N: "0 < ln_len c" using ln_len_bounds [of c] assms(1,2) by simp
    have "?xs \<noteq> []" "length ?xs \<le> 65535" using row_nonempty N by simp_all
    note sd = row_std_of [OF this, folded n_def]
    have "lnorm_clock c x = (lnorm_ctrl_step False c (bank_in (lnorm_out u) a) u, a\<lparr>ab_rvalid := False\<rparr>)"
      unfolding x u_def [symmetric] using us(1) by (intro ln_silent) simp
    then have "result_next c m r 0 (lnorm_clock c x)"
      unfolding ln_step_sqrt(2) [OF us(1,2)] res if_not_P [OF sd(2)]
      using us(3,4) sd(1) N by (simp add: result_next_def ln_at_def Let_def row_std_of_def)
    moreover have "lnorm_works x" using v(1) by (simp add: x)
    ultimately show "leads (lnorm_clock c) lnorm_works 1 x (result_next c m r 0)" by (intro leads_1)
  qed
  then show ?thesis by simp
qed

section \<open>The result pass\<close>

definition scaled :: "lnorm_cmd_t \<Rightarrow> (13 word \<Rightarrow> u8) \<Rightarrow> nat \<Rightarrow> nat \<Rightarrow> nat" where
  "scaled c m r i = (let xs = lnorm_row_in c m r
     in min (nat \<bar>sint (xs ! i) - row_mean xs\<bar> * 2 ^ unat (l_norm_shift c)) 4294967295)"

definition result_div :: "lnorm_cmd_t \<Rightarrow> (13 word \<Rightarrow> u8) \<Rightarrow> nat \<Rightarrow> nat \<Rightarrow> lnorm_ctrl \<times> act_bank \<Rightarrow> bool" where
  "result_div c m r i s = (let v = fst s; xs = lnorm_row_in c m r
     in ln_state v = LN_NORM_DIV \<and> ln_at c m r i i s \<and> mean_r v = word_of_int (row_mean xs) \<and> unat (std_r v) = row_std_of xs \<and>
        ln_cnt_r v = 31 \<and> ln_div_at (scaled c m r i) (row_std_of xs) 0 v \<and> norm_sign_r v = (sint (xs ! i) - row_mean xs < 0) \<and>
        \<not> ab_rvalid (snd s))"

definition result_wr :: "lnorm_cmd_t \<Rightarrow> (13 word \<Rightarrow> u8) \<Rightarrow> nat \<Rightarrow> nat \<Rightarrow> lnorm_ctrl \<times> act_bank \<Rightarrow> bool" where
  "result_wr c m r i s = (let v = fst s; xs = lnorm_row_in c m r
     in ln_state v = LN_NORM_WR \<and> ln_at c m r i i s \<and> mean_r v = word_of_int (row_mean xs) \<and> unat (std_r v) = row_std_of xs \<and>
        unat (ln_quot_r v) = scaled c m r i div row_std_of xs \<and> norm_sign_r v = (sint (xs ! i) - row_mean xs < 0) \<and>
        \<not> ab_rvalid (snd s))"

lemma scaled_word:
  assumes "unat (abs_diff_w x v) = k" and "k * 2 ^ unat (norm_shift_r v) < 1099511627776"
  shows "unat (scaled_abs_w x v) = min (k * 2 ^ unat (norm_shift_r v)) 4294967295"
proof -
  let ?w = "push_bit (unat (norm_shift_r v)) (ucast (abs_diff_w x v)) :: 40 word" and ?k = "k * 2 ^ unat (norm_shift_r v)"
  have "k < 4294967296" using unsigned_less [of "abs_diff_w x v", where ?'a = nat] by (simp add: assms(1))
  then have "unat (ucast (abs_diff_w x v) :: 40 word) = k"
    by (simp add: unsigned_ucast_eq assms(1) take_bit_nat_eq_self)
  then have w: "unat ?w = ?k"
    using assms(2) by (subst unsigned_push_bit_eq) (simp add: push_bit_eq_mult take_bit_nat_eq_self)
  have "unat (drop_bit 32 ?w) = unat ?w div 2 ^ 32"
    unfolding unat_drop_bit_eq by (rule drop_bit_eq_div)
  then have "unat (drop_bit 32 ?w) = 0 \<longleftrightarrow> ?k \<le> 4294967295" unfolding w by (auto simp: div_eq_0_iff)
  then have z: "drop_bit 32 ?w \<noteq> 0 \<longleftrightarrow> \<not> ?k \<le> 4294967295" by (simp only: unat_eq_0)
  show ?thesis
  proof (cases "?k \<le> 4294967295")
    case True
    then have "scaled_abs_w x v = ucast ?w" using z by (simp only: scaled_abs_w_def Let_def if_False not_True_eq_False)
    moreover have "unat (ucast ?w :: u32) = take_bit LENGTH(32) ?k" unfolding unsigned_ucast_eq w ..
    moreover have "take_bit LENGTH(32) ?k = ?k" using True by (intro take_bit_nat_eq_self) simp
    ultimately show ?thesis using True by simp
  next
    case False
    then have "scaled_abs_w x v = 0xFFFFFFFF" using z by (simp only: scaled_abs_w_def Let_def if_True not_False_eq_True)
    then show ?thesis using False by simp
  qed
qed

lemma element_scaled:
  assumes "lnorm_ranges c" and "r < ln_rows c" and "i < ln_len c" and "result_next c m r i s"
  shows "leads (lnorm_clock c) lnorm_works 2 s (result_div c m r i)"
proof -
  obtain v a where s: "s = (v, a)" by fastforce
  let ?xs = "lnorm_row_in c m r"
  let ?d = "sint (?xs ! i) - row_mean ?xs"
  have v: "ln_state v = LN_NORM_RD" "ln_at c m r i i (v, a)" "mean_r v = word_of_int (row_mean ?xs)"
    "unat (std_r v) = row_std_of ?xs"
    using assms(3,4) by (simp_all add: result_next_def row_std_of_def Let_def s)
  define v1 where "v1 = v\<lparr>ln_state := LN_NORM_WAIT\<rparr>"
  define a1 where "a1 = a\<lparr>ab_rdata := ?xs ! i, ab_rvalid := True\<rparr>"
  have 1: "lnorm_clock c s = (v1, a1)"
    using ln_reads [OF assms(1-3) v(2), of LN_NORM_WAIT] v(1) by (simp add: s v1_def a1_def)
  have w: "ln_state v1 = LN_NORM_WAIT" "ln_at c m r i i (v1, a1)" "ai_rvalid (bank_in (lnorm_out v1) a1)"
    "ai_rdata (bank_in (lnorm_out v1) a1) = ?xs ! i" "mean_r v1 = word_of_int (row_mean ?xs)"
    "unat (std_r v1) = row_std_of ?xs" "norm_shift_r v1 = l_norm_shift c"
    using v(2-4) by (simp_all add: v1_def a1_def ln_at_def Let_def)
  have ne: "?xs \<noteq> []" "length ?xs \<le> 65535" using row_nonempty assms(3) by simp_all
  note d = diff_words [OF w(5) ne(1), of "?xs ! i"]
  have "unat (l_norm_shift c) < 32" using unsigned_less [of "l_norm_shift c", where ?'a = nat] by simp
  then have sh: "unat (l_norm_shift c) \<le> 31" by linarith
  note sc = scaled_quotient(1) [OF row_diff_bounds [OF ne(1)] sh row_std_of(3,4) [OF ne], of "?xs ! i"]
  have q: "unat (scaled_abs_w (?xs ! i) v1) = scaled c m r i"
    using scaled_word [OF d(2)] sc by (simp add: w(7) scaled_def Let_def)
  have 2: "lnorm_clock c (v1, a1) = (lnorm_ctrl_step False c (bank_in (lnorm_out v1) a1) v1, a1\<lparr>ab_rvalid := False\<rparr>)"
    using w(1) by (intro ln_silent) simp
  have ud: "unat (ucast (std_r v1) :: u32) = row_std_of ?xs" using w(6) by simp
  have "scaled c m r i < 4294967296" by (simp add: scaled_def Let_def)
  then have "result_div c m r i (lnorm_clock c (v1, a1))"
    unfolding 2 ln_step_scale [OF w(1,3), unfolded w(4)] using w(2,5,6) q ud d(1)
    by (simp add: result_div_def ln_at_def Let_def ln_div_at_def)
  then have "leads (lnorm_clock c) lnorm_works (Suc (Suc 0)) s (result_div c m r i)"
    using v(1) w(1) by (intro leads_step leads_0) (simp_all only: 1, simp_all add: s)
  then show ?thesis by (simp add: numeral_2_eq_2)
qed

lemma element_divided:
  assumes "i < ln_len c" and "result_div c m r i s"
  shows "leads (lnorm_clock c) lnorm_works 32 s (result_wr c m r i)"
proof -
  obtain v a where s: "s = (v, a)" by fastforce
  let ?xs = "lnorm_row_in c m r"
  have v: "ln_state v = LN_NORM_DIV" "ln_at c m r i i (v, a)" "mean_r v = word_of_int (row_mean ?xs)"
    "unat (std_r v) = row_std_of ?xs" "ln_cnt_r v = 31" "ln_div_at (scaled c m r i) (row_std_of ?xs) 0 v"
    "norm_sign_r v = (sint (?xs ! i) - row_mean ?xs < 0)" "\<not> ab_rvalid a"
    using assms(2) by (simp_all add: result_div_def Let_def s)
  have ne: "?xs \<noteq> []" "length ?xs \<le> 65535" using row_nonempty assms(1) by simp_all
  have n: "scaled c m r i < 2 ^ 32" by (simp add: scaled_def Let_def)
  have d: "row_std_of ?xs < 2 ^ 31" using row_std_of(4) [OF ne] by simp
  have "ln_state v \<in> {LN_MEAN_DIV, LN_VAR_DIV, LN_NORM_DIV}" using v(1) by simp
  then show ?thesis unfolding s
  proof (rule ln_division [OF _ v(5,6,8) n row_std_of(3) [OF ne] d])
    fix q x
    define w where "w = v\<lparr>ln_quot_r := q, ln_rem_r := x, ln_cnt_r := 0\<rparr>"
    have w: "ln_state w = LN_NORM_DIV" "ln_cnt_r w = 0" "ln_at c m r i i (w, a)" "mean_r w = word_of_int (row_mean ?xs)"
      "unat (std_r w) = row_std_of ?xs" "norm_sign_r w = (sint (?xs ! i) - row_mean ?xs < 0)"
      using v by (simp_all add: w_def ln_at_def Let_def)
    have "result_wr c m r i (lnorm_ctrl_step False c (bank_in (lnorm_out w) a) w, a)"
      if "unat (ln_quot_next_w w) = scaled c m r i div row_std_of ?xs"
      unfolding ln_step_divided(3) [OF w(1,2)] using w(3-6) v(8) that by (simp add: result_wr_def ln_at_def Let_def)
    then show "let w = v\<lparr>ln_quot_r := q, ln_rem_r := x, ln_cnt_r := 0\<rparr> in
        unat (ln_quot_next_w w) = scaled c m r i div row_std_of ?xs \<longrightarrow>
        result_wr c m r i (lnorm_ctrl_step False c (bank_in (lnorm_out w) a) w, a)"
      by (simp add: Let_def w_def)
  qed
qed

lemma result_byte_eq:
  assumes "i < ln_len c" and "result_wr c m r i (v, a)"
  shows "lnorm_result v = lnorm_byte c m (r * ln_len c + i)"
proof -
  let ?xs = "lnorm_row_in c m r"
  let ?d = "sint (?xs ! i) - row_mean ?xs" and ?Q = "scaled c m r i div row_std_of ?xs"
  have ne: "?xs \<noteq> []" "length ?xs \<le> 65535" using row_nonempty assms(1) by simp_all
  have v: "unat (ln_quot_r v) = ?Q" "norm_sign_r v = (?d < 0)" using assms(2) by (simp_all add: result_wr_def Let_def)
  have "unat (l_norm_shift c) < 32" using unsigned_less [of "l_norm_shift c", where ?'a = nat] by simp
  then have sh: "unat (l_norm_shift c) \<le> 31" by linarith
  note sq = scaled_quotient(2) [OF row_diff_bounds [OF ne(1)] sh row_std_of(3,4) [OF ne], of "?xs ! i"]
  have "ln_quot_r v = word_of_nat ?Q" using v(1) by (metis of_nat_unat ucast_id)
  moreover have "(ucast (word_of_nat ?Q :: u32) :: u8) = word_of_nat ?Q"
    by (rule bit_word_eqI) (simp add: bit_simps)
  ultimately have u: "(ucast (ln_quot_r v) :: u8) = word_of_nat ?Q" by simp
  have c: "128 < ln_quot_r v \<longleftrightarrow> 128 < ?Q" "127 < ln_quot_r v \<longleftrightarrow> 127 < ?Q" by (simp_all add: word_less_nat_alt v(1))
  have "lnorm_result v = word_of_int (if ?d < 0 then (if 128 < ?Q then - 128 else - int ?Q) else (if 127 < ?Q then 127 else int ?Q))"
    unfolding lnorm_result_def v(2) u c by simp
  also have "\<dots> = word_of_int (lnorm_value (unat (l_norm_shift c)) ?xs (?xs ! i))"
    unfolding lnorm_value_def row_std_of_def [symmetric] sq [symmetric] by (simp only: scaled_def Let_def)
  moreover have "(r * ln_len c + i) div ln_len c = r" "(r * ln_len c + i) mod ln_len c = i"
    using assms(1) div_mult_self3 [OF gr_implies_not0 [OF assms(1)], of r i]
    by (simp_all only: div_less add_0_right mod_mult_self3 mod_less)
  ultimately show ?thesis by (simp add: lnorm_byte_def Let_def)
qed

lemma element_written:
  assumes "lnorm_ranges c" and "r < ln_rows c" and "i < ln_len c" and "result_wr c m r i s"
  shows "result_next c m r (Suc i) (lnorm_clock c s)"
proof -
  obtain v a where s: "s = (v, a)" by fastforce
  let ?xs = "lnorm_row_in c m r" and ?N = "ln_len c"
  have v: "ln_state v = LN_NORM_WR" "ln_at c m r i i (v, a)" "mean_r v = word_of_int (row_mean ?xs)"
    "unat (std_r v) = row_std_of ?xs" "\<not> ab_rvalid a"
    using assms(4) by (simp_all add: result_wr_def Let_def s)
  have regs: "num_rows_r v = l_num_rows c" "row_len_r v = l_row_len c" "norm_shift_r v = l_norm_shift c" "ln_row_r v = word_of_nat r"
    "in_row_base_r v = l_in_addr c + word_of_nat (r * ?N)" "out_row_base_r v = l_out_addr c + word_of_nat (r * ?N)"
    "idx_r v = word_of_nat i" "ab_mem a = act_written (l_out_addr c) (lnorm_byte c m) (r * ?N + i) m"
    using v(2) by (simp_all add: ln_at_def Let_def)
  note byte = result_byte_eq [OF assms(3) assms(4) [unfolded s]]
  have "out_row_base_r v + idx_r v = l_out_addr c + word_of_nat (r * ?N + i)"
    unfolding regs(6,7) by (simp only: of_nat_add add.assoc)
  then have mem: "ab_mem (snd (lnorm_clock c s)) = act_written (l_out_addr c) (lnorm_byte c m) (r * ?N + Suc i) m"
    unfolding add_Suc_right act_written_Suc
    using v(1) regs(8) byte by (simp add: s bank_tick_def bank_step_def lnorm_out_def)
  let ?i = "bank_in (lnorm_out v) a"
  have g: "ai_wr_gnt ?i" using v(1) by (simp add: bank_in_def lnorm_out_def)
  have f: "fst (lnorm_clock c s) = lnorm_ctrl_step False c ?i v" by (simp add: s bank_tick_def)
  note st = ln_step_write [OF v(1) g, of False c]
  have nl: "ln_last v \<longleftrightarrow> Suc i = ?N" by (rule ln_last_eq [OF v(2) assms(3)])
  have rl: "ln_row_last v \<longleftrightarrow> Suc r = ln_rows c" "ln_more_rows v \<longleftrightarrow> Suc r < ln_rows c"
    unfolding ln_row_last_def ln_more_rows_def regs(1,4) by (rule counter16 [OF assms(2)])+
  consider (element) "Suc i < ?N" | (row) "Suc i = ?N" "Suc r < ln_rows c" | (finish) "Suc i = ?N" "Suc r = ln_rows c"
    using assms(2,3) by linarith
  then show ?thesis
  proof cases
    case element
    then have "\<not> ln_last v" using nl by simp
    note f' = f [unfolded st(1) [OF this]]
    show ?thesis
      using element mem v(3,4) regs(1-7) by (simp add: result_next_def row_std_of_def ln_at_def Let_def f')
  next
    case row
    then have "ln_last v" "\<not> ln_row_last v" "ln_more_rows v" using nl rl by simp_all
    note f' = f [unfolded st(2) [OF this]]
    have "0 < ?N" using assms(3) by simp
    then show ?thesis
      using row mem regs(1-6)
      by (simp add: result_next_def sum_next_def ln_at_def Let_def f' distrib_right add.commute)
  next
    case finish
    then have "ln_last v" "ln_row_last v" using nl rl by simp_all
    from st(3) [OF this] have "ln_state (fst (lnorm_clock c s)) = LN_DONE" by (simp only: f)
    moreover have "r * ?N + Suc i = ln_rows c * ?N" using finish by (metis add.commute mult_Suc)
    ultimately show ?thesis using finish mem by (simp add: result_next_def)
  qed
qed

lemma lnorm_element_round:
  assumes "lnorm_ranges c" and "r < ln_rows c" and "i < ln_len c" and "result_next c m r i s"
  shows "leads (lnorm_clock c) lnorm_works 35 s (result_next c m r (Suc i))"
proof -
  have wr: "leads (lnorm_clock c) lnorm_works 1 t (result_next c m r (Suc i))" if "result_wr c m r i t" for t
  proof -
    have "lnorm_works t" using that by (simp add: result_wr_def Let_def)
    then show ?thesis using element_written [OF assms(1-3) that] by (rule leads_1)
  qed
  from leads_trans [OF leads_trans [OF element_scaled [OF assms] element_divided [OF assms(3)]] wr]
  show ?thesis by simp
qed

section \<open>From the command to the last row\<close>

definition ln_next :: "lnorm_cmd_t \<Rightarrow> (13 word \<Rightarrow> u8) \<Rightarrow> nat \<Rightarrow> lnorm_ctrl \<times> act_bank \<Rightarrow> bool" where
  "ln_next c m r s =
     (if r < ln_rows c then sum_next c m r 0 s
      else ln_state (fst s) = LN_DONE \<and>
        ab_mem (snd s) = act_written (l_out_addr c) (lnorm_byte c m) (ln_rows c * ln_len c) m)"

lemma ln_row_round:
  assumes "lnorm_ranges c" and "r < ln_rows c" and "ln_next c m r s"
  shows "leads (lnorm_clock c) lnorm_works (39 * ln_len c + 80) s (ln_next c m (Suc r))"
proof -
  let ?N = "ln_len c" and ?L = "leads (lnorm_clock c) lnorm_works"
  have "sum_next c m r 0 s" using assms(2,3) by (simp add: ln_next_def)
  then have s: "?L (\<Sum>i<?N. 2) s (sum_next c m r ?N)"
    by (rule leads_loop [where Q = "sum_next c m r"]) (rule sum_round [OF assms(1,2)])
  have q: "?L (\<Sum>i<?N. 2) t (var_next c m r ?N)" if "var_next c m r 0 t" for t
    by (rule leads_loop [where Q = "var_next c m r", OF that]) (rule var_round [OF assms(1,2)])
  have n: "?L (\<Sum>i<?N. 35) t (result_next c m r ?N)" if "result_next c m r 0 t" for t
    by (rule leads_loop [where Q = "result_next c m r", OF that]) (rule lnorm_element_round [OF assms(1,2)])
  have "?L ((\<Sum>i<?N. 2) + 32 + (\<Sum>i<?N. 2) + 32 + 16 + (\<Sum>i<?N. 35)) s (result_next c m r ?N)"
    by (rule leads_trans [OF leads_trans [OF leads_trans [OF leads_trans [OF leads_trans [OF s mean_round [OF assms(1,2)]] q]
      variance_round [OF assms(1,2)]] sqrt_rounds [OF assms(1,2)]] n])
  moreover have "(\<Sum>i<?N. 2) + 32 + (\<Sum>i<?N. 2) + 32 + 16 + (\<Sum>i<?N. 35) = 39 * ?N + 80" by simp
  ultimately have "?L (39 * ?N + 80) s (result_next c m r ?N)" by (simp only:)
  then show ?thesis by (rule leads_mono) (simp add: result_next_def ln_next_def)
qed

lemma lnorm_accepts:
  assumes "ln_state v = LN_IDLE"
  shows "lnorm_ctrl_step True c i v = v\<lparr>ln_state := LN_LOAD_CFG, num_rows_r := l_num_rows c, row_len_r := l_row_len c,
    norm_shift_r := l_norm_shift c\<rparr>"
  using assms by (simp add: ln_step)

lemma lnorm_computes:
  assumes "ln_state v = LN_IDLE" and "lnorm_ranges c"
  shows "leads (lnorm_clock c) lnorm_works (lnorm_clocks c) (bank_tick lnorm_ctrl_step lnorm_out True c (v, a))
    (\<lambda>s. ln_state (fst s) = LN_DONE \<and>
      ab_mem (snd s) = act_written (l_out_addr c) (lnorm_byte c (ab_mem a)) (ln_rows c * ln_len c) (ab_mem a))"
proof -
  define m where "m = ab_mem a"
  define s where "s = bank_tick lnorm_ctrl_step lnorm_out True c (v, a)"
  obtain u b where sb: "s = (u, b)" by fastforce
  have b: "ab_mem b = m" and u: "u = lnorm_ctrl_step True c (bank_in (lnorm_out v) a) v"
    using assms(1) sb by (auto simp: s_def bank_tick_def bank_step_def lnorm_out_def m_def)
  have uv: "ln_state u = LN_LOAD_CFG" "num_rows_r u = l_num_rows c" "row_len_r u = l_row_len c" "norm_shift_r u = l_norm_shift c"
    unfolding u lnorm_accepts [OF assms(1)] by simp_all
  have "0 < ln_rows c" "0 < ln_len c" using assms(2) by (simp_all add: lnorm_ranges_def Let_def)
  moreover have 1: "lnorm_clock c s = (lnorm_ctrl_step False c (bank_in (lnorm_out u) b) u, b\<lparr>ab_rvalid := False\<rparr>)"
    unfolding sb using uv(1) by (intro ln_silent) simp
  ultimately have "ln_next c m 0 (lnorm_clock c s)"
    unfolding 1 ln_step_load [OF uv(1)] using uv(2-4) b by (simp add: ln_next_def sum_next_def ln_at_def Let_def)
  then have l: "leads (lnorm_clock c) lnorm_works 1 s (ln_next c m 0)" using uv(1) by (intro leads_1) (simp_all add: sb)
  have "leads (lnorm_clock c) lnorm_works (\<Sum>r<ln_rows c. 39 * ln_len c + 80) t (ln_next c m (ln_rows c))"
    if "ln_next c m 0 t" for t
    by (rule leads_loop [where Q = "ln_next c m", OF that]) (rule ln_row_round [OF assms(2)])
  from leads_trans [OF l this] have "leads (lnorm_clock c) lnorm_works (lnorm_clocks c) s (ln_next c m (ln_rows c))"
    by (simp add: lnorm_clocks_def)
  then show ?thesis unfolding s_def m_def by (rule leads_mono) (simp add: ln_next_def)
qed

section \<open>The reference function\<close>

lemma lnorm_bytes_ref:
  assumes "lnorm_ranges c"
  shows "ref_lnorm (act_bytes m (l_in_addr c) (ln_rows c * ln_len c)) (int (ln_rows c)) (int (ln_len c)) (int (unat (l_norm_shift c))) =
    Some (map (lnorm_byte c (lm_act m)) [0..<ln_rows c * ln_len c])"
proof -
  let ?N = "ln_len c" and ?n = "ln_rows c * ln_len c"
  let ?xs = "act_bytes m (l_in_addr c) ?n"
  have fit: "unat (l_in_addr c) + ?n \<le> 8192" and N: "0 < ?N" using assms by (simp_all add: lnorm_ranges_def Let_def)
  have r: "row_of ?xs ?N (e div ?N) = lnorm_row_in c (lm_act m) (e div ?N)" "?xs ! e = lnorm_row_in c (lm_act m) (e div ?N) ! (e mod ?N)"
    if "e < ?n" for e
    using act_bytes_rows [OF fit that] by (simp_all only: lnorm_row_in_def)
  have "word_of_int (lnorm_value (unat (l_norm_shift c)) (row_of ?xs ?N (e div ?N)) (?xs ! e)) = lnorm_byte c (lm_act m) e" if e: "e < ?n" for e
    unfolding r [OF e] by (simp only: lnorm_byte_def Let_def)
  moreover have "length ?xs = ?n" "?n < 2147483648" using fit by (simp_all add: act_bytes_def)
  moreover have "unat (l_norm_shift c) \<le> 31" using unsigned_less [of "l_norm_shift c", where ?'a = nat] by simp
  ultimately show ?thesis using ref_lnorm_eq [of ?xs "ln_rows c" ?N "unat (l_norm_shift c)"] N unat_u16_le [of "l_row_len c"] by simp
qed

section \<open>Properties\<close>

text \<open>C18: The layer-norm composite computes the bench's reference function.  From idle, for a command with at
  least one row of at least one element, input and output in the activation bank and no result written
  over an element still to be read (in place is allowed), it is done
  \<open>lnorm_clocks c = 1 + M (39 N + 80)\<close> clocks after the clock that accepts it, for every shift of the 5-bit
  field; the output bytes are then \<open>ref_lnorm\<close> of the input bytes, and every other byte of both banks is
  unchanged.  The command has to stay at the port, as the scheduler's register keeps it: the unit takes
  the row addresses from there one clock after it has accepted the command.\<close>

theorem lnorm_unit_computes_ref_lnorm:
  assumes "ln_state v = LN_IDLE" and "\<not> bias_pending_r b" and "lnorm_ranges c"
    and "length hs = lnorm_clocks c" and "\<forall>h \<in> set (h0 # hs). \<not> (host_req h \<and> host_wr h)"
    and "(v', b') = fold (unit_tick lnorm_ctrl_step lnorm_out False c) hs
      (unit_tick lnorm_ctrl_step lnorm_out True c h0 (v, b))"
  shows "lnorm_done v' \<and>
    ref_lnorm (act_bytes (local_of b) (l_in_addr c) (ln_rows c * ln_len c)) (int (ln_rows c)) (int (ln_len c))
      (int (unat (l_norm_shift c))) =
      Some (act_bytes (local_of b') (l_out_addr c) (ln_rows c * ln_len c)) \<and>
    lm_wt (local_of b') = lm_wt (local_of b) \<and>
    (\<forall>x. (\<forall>i < ln_rows c * ln_len c. x \<noteq> ucast (l_out_addr c + word_of_nat i)) \<longrightarrow>
      lm_act (local_of b') x = lm_act (local_of b) x)"
proof -
  let ?n = "ln_rows c * ln_len c"
  have "leads (lnorm_clock c) lnorm_works (lnorm_clocks c) (bank_tick lnorm_ctrl_step lnorm_out True c (v, bank_of b))
      (\<lambda>s. ln_state (fst s) = LN_DONE \<and>
        ab_mem (snd s) = act_written (l_out_addr c) (lnorm_byte c (lm_act (local_of b))) ?n (lm_act (local_of b)))"
    using lnorm_computes [OF assms(1,3), of "bank_of b"] by (simp add: bank_of_def)
  note r = lnorm.held_command_on_banks [OF assms(1,2,4,5) this assms(6)]
  have "unat (l_out_addr c) + ?n \<le> 8192" using assms(3) by (simp add: lnorm_ranges_def Let_def)
  from act_bytes_written [OF this r(2)] show ?thesis
    using r(1,3) lnorm_bytes_ref [OF assms(3), of "local_of b"] act_written_other by (auto simp: lnorm_done_def r(2))
qed

definition demo_lnorm :: lnorm_cmd_t where
  "demo_lnorm = \<lparr>l_in_addr = 0, l_out_addr = 0, l_num_rows = 2, l_row_len = 3, l_norm_shift = 4\<rparr>"

lemma demo_lnorm_ok: "lnorm_ranges demo_lnorm" "lnorm_clocks demo_lnorm = 395"
  by (simp_all add: demo_lnorm_def lnorm_ranges_def lnorm_clocks_def)

theorem lnorm_unit_computes_ref_lnorm_witness:
  "\<exists>v' b'. (v', b') = fold (unit_tick lnorm_ctrl_step lnorm_out False demo_lnorm) (replicate 395 quiet_host)
      (unit_tick lnorm_ctrl_step lnorm_out True demo_lnorm quiet_host (lnorm_reset, reset_buffers)) \<and> lnorm_done v' \<and>
    ref_lnorm (act_bytes (local_of reset_buffers) 0 6) 2 3 4 = Some (act_bytes (local_of b') 0 6)"
proof -
  obtain v' b' where t: "(v', b') = fold (unit_tick lnorm_ctrl_step lnorm_out False demo_lnorm) (replicate 395 quiet_host)
      (unit_tick lnorm_ctrl_step lnorm_out True demo_lnorm quiet_host (lnorm_reset, reset_buffers))"
    by (metis surj_pair)
  with lnorm_unit_computes_ref_lnorm [OF _ _ demo_lnorm_ok(1) _ _ t] show ?thesis
    by (intro exI [of _ v'] exI [of _ b'])
      (simp add: demo_lnorm_ok lnorm_reset_def reset_buffers_def quiet_host_def, simp add: demo_lnorm_def)
qed

end
