(* ===== verification/Spec2Isabelle.thy ===== *)
theory Spec2Isabelle
  imports Npu_Bits Npu_Tensor Npu_Shell Npu_Concurrent Npu_Bench_Device Npu_Device_Vec Npu_Gemm Npu_Conv Npu_Pool Npu_Softmax Npu_Lnorm
begin

text \<open>
  \<^bold>\<open>The program.\<close>  lg-npu is a small neural processing unit together with the software that drives it.
  A host builds sixteen-word command descriptors from parameter structs
  (\<open>sw/runtime/command_builder.c\<close>), converts tensors to the device's NHWC layout
  (\<open>sw/runtime/tensor_desc.c\<close>), and submits commands and DMA requests either through memory-mapped
  registers from user space (\<open>sw/runtime/liblgnpu.c\<close>, \<open>sw/runtime/submit.c\<close>) or through ioctls of
  a Linux driver (\<open>sw/driver\<close>).  The device (\<open>rtl\<close>) keeps the descriptor words in a register-block
  window, fetches and decodes them after a doorbell, queues the decoded command in a FIFO of
  depth 4 and dispatches it to one of six compute backends.  The integration bench
  (\<open>tb/integration/npu_tb.h\<close>) submits the same commands to the simulated device and compares what
  it computes with C++ reference functions.

  \<^bold>\<open>Theories, in the order in which the parts build on each other.\<close>
  \<^item> \<open>Npu_Prelude\<close>: machine integers, C's \<open>int\<close> multiplication and overflow builtin, counted loops
    over fallible bodies (\<open>foldM\<close>, \<open>for_word\<close>), mixed-radix indices; the fact collections
    \<open>c_consts\<close>, \<open>c_sem\<close>, \<open>rtl_sem\<close> and \<open>keeps\<close>.
  \<^item> \<open>Npu_Bits\<close>: the arithmetic and bit helpers of \<open>sw/shared/annotations.h\<close> that have a run-time
    meaning, in their portable form: minimum, maximum, clamp, power-of-two test, alignment, single
    bits, rotations (a shift by the full width, which C leaves undefined, is \<open>None\<close>), byte swaps,
    leading and trailing zeros, population count.
  \<^item> \<open>Npu_Cmem\<close>: a byte memory in which an access outside the mapped bytes has no result, and
    \<open>memmove\<close> on it.
  \<^item> \<open>Npu_Tensor\<close>: \<open>lgnpu_tensor.h\<close> and \<open>tensor_desc.c\<close>.  Conversion moves exactly element (n, h, w,
    c) to its NHWC place; offsets and sizes are exact for every descriptor; which error
    is returned when; the \<open>int\<close> overflow for wide tensors.
  \<^item> \<open>Npu_Regs\<close>: the register map, stated in five places of the source, as tables that are shown
    to agree.
  \<^item> \<open>Npu_Cmd\<close>: \<open>lgnpu_cmd.h\<close> and \<open>command_builder.c\<close>, word by word.
  \<^item> \<open>Npu_Decode\<close>: \<open>npu_cmd_pkg.sv\<close>, the field extraction of \<open>npu_cmd_decode.sv\<close> and
    \<open>npu_dispatch.sv\<close>; decoding what a builder wrote gives the parameters back.
  \<^item> \<open>Npu_Mmio\<close>: an abstract bus, traces of writes, polling loops, and the two interfaces
    \<open>command_device\<close> and \<open>dma_device\<close> (locales) by which the host code relies on the device.
  \<^item> \<open>Npu_Runtime\<close>: \<open>liblgnpu.c\<close>, \<open>submit.c\<close> and \<open>mmio_helpers.h\<close> over any bus; its client lemmas are
    proved in the locales.
  \<^item> \<open>Npu_Driver\<close>: \<open>npu_drv.c\<close>, \<open>npu_queue.c\<close>, \<open>npu_dma.c\<close>, \<open>npu_irq.c\<close>, \<open>npu_reset.c\<close>,
    \<open>npu_mmio.c\<close> as sequential runs.  Locks and the completion are explicit, taking a held lock has
    no result; kernel services (waiting, user copies, delays, the ioctl number encoding, device
    managed resources) are parameters with named hypotheses.
  \<^item> \<open>Npu_Concurrent\<close>: submissions, DMA requests, the reset and enable ioctls, which take no lock, and the
    interrupt handler interleaved statement by statement for any number of threads, with a device whose
    soft reset takes effect at any later time; reachable states and an inductive invariant, and what a
    reset costs a transfer.
  \<^item> \<open>Npu_Fifo\<close>: \<open>fifo.sv\<close> at depth 4 refines a bounded queue (locale \<open>bounded_queue\<close>).
  \<^item> \<open>Npu_Shell\<close>: \<open>npu_reg_block.sv\<close>, \<open>npu_cmd_fetch.sv\<close>, \<open>npu_cmd_decode.sv\<close>,
    \<open>npu_scheduler.sv\<close>, \<open>npu_irq_ctrl.sv\<close>, \<open>npu_reset_ctrl.sv\<close>, \<open>npu_status.sv\<close> and their wiring in
    \<open>npu_shell.sv\<close>, clock by clock; it interprets \<open>dma_device\<close>, so the runtime's lemmas hold on it.
  \<^item> \<open>Npu_Reference\<close>, \<open>Npu_Kernels\<close>, \<open>Npu_Normalize\<close>: the bench's reference GEMM, convolution,
    vector operation, pooling, softmax and layer normalisation, loop by loop with every undefined
    C++ operation as \<open>None\<close>, and their mathematical specifications.
  \<^item> \<open>Npu_Bench\<close>, \<open>Npu_Bench_Device\<close>: the bench's descriptors, accesses, external memory and test
    runners, over any device and on the device model.
  \<^item> \<open>Npu_Buffers\<close>: the SRAM banks of \<open>rtl/memory\<close> and \<open>npu_buffer_router.sv\<close>, with the memory contents
    as a \<open>local_mem\<close>.
  \<^item> \<open>Npu_Dma\<close>: \<open>npu_dma_reader.sv\<close>, \<open>npu_dma_writer.sv\<close>, \<open>npu_dma_frontend.sv\<close> and the shell's buffer
    multiplexer between those banks and the bench's external memory; a request moves exactly its bytes.
  \<^item> \<open>Npu_Issue\<close>: from the doorbell to the scheduler on a quiet device, 36 clocks, and what a host that
    polls STATUS meanwhile sees.
  \<^item> \<open>Npu_Vec\<close>: \<open>vec_ctrl.sv\<close> and \<open>vec_backend.sv\<close> on the ports of the router; a command computes \<open>ref_vec\<close>.
  \<^item> \<open>Npu_Device\<close>, \<open>Npu_Device_Vec\<close>: \<open>npu_core.sv\<close>, \<open>npu_completion.sv\<close>, \<open>npu_perf_counters.sv\<close> and the
    composition of control path, DMA engines, buffers, vector unit and external memory as one machine;
    the bench's DMA tests and vector test pass on it, a DMA request to an unmapped address leaves it busy
    until a reset or another start, and the verdicts of the bench's test runners, with accesses that may hang.
  \<^item> \<open>Npu_Datapath\<close>: the handshaked stages that GEMM and convolution share (\<open>pipeline_reg.sv\<close>,
    \<open>skid_buffer.sv\<close>, \<open>rtl/ops\<close>, loader, processing element, accumulator, writer).
  \<^item> \<open>Npu_Engine\<close>: the wiring of those stages, the same in \<open>gemm_backend.sv\<close> and \<open>conv_backend.sv\<close>: one
    product every five clocks while results of earlier dot products are still on their way to the
    activation bank.  The locale \<open>sequencer\<close> states what it needs of the sequencer and address generator in
    front of it, \<open>command_run\<close> of a whole command; both backends interpret both.
  \<^item> \<open>Npu_Gemm\<close>: the GEMM backend; what it computes, when it is finished, and when it says so.
  \<^item> \<open>Npu_Conv\<close>: \<open>conv_ctrl.sv\<close>, \<open>conv_addr_gen.sv\<close> and \<open>conv_backend.sv\<close>; a command computes \<open>ref_conv\<close>.
  \<^item> \<open>Npu_Composite\<close>: what the composites of \<open>rtl/composites\<close> share: their ports, the contract of a unit
    on the activation bank (locales \<open>composite\<close> and \<open>latched\<close>), phases of a run (\<open>leads\<close>), results written
    in order, and the serial restoring divider.
  \<^item> \<open>Npu_Pool\<close>, \<open>Npu_Softmax\<close>, \<open>Npu_Lnorm\<close>: \<open>pool_ctrl.sv\<close>, \<open>softmax_ctrl.sv\<close> with
    \<open>softmax_exp_lut.sv\<close>, and \<open>lnorm_ctrl.sv\<close>, clock by clock; each computes its reference function.
  \<^item> this theory: properties that span host, driver and device.

  \<^bold>\<open>Bounds and fuel.\<close>  No loop of the model takes fuel: counted C loops are folds over their range and
  polling loops run for their source bound (10000 polls in the driver, the caller's \<open>max_polls\<close> in the
  runtime, 200000 in the bench).  A descriptor reaches the queue 35 clocks after its doorbell (one to start, two per
  word, one to decode, one to push) and the scheduler offers it one clock later.  A DMA transfer takes
  3 clocks per byte, a vector command of n elements is done 3 n + 1 clocks after its acceptance, a GEMM
  command idle again after 5 M N K + 11, a convolution after 5 clocks per product plus 13.  For M rows of N elements softmax is done after 1 + M (29 N + 3)
  clocks and layer normalisation after 1 + M (39 N + 80); pooling after 1 clock, 3 per tap inside the
  input, 2 per tap in the padding, 32 per average and 1 per result.  The bench free-runs 2000 clocks after a submission and 5 in a
  reset pulse.  The kernels are correct for accumulations of up to 131070 products (layer
  normalisation and softmax: rows of up to 65535 elements, layer-norm shift up to 31), where the
  \<open>int32_t\<close> accumulator cannot overflow.

  \<^bold>\<open>Not modelled.\<close>  \<open>Npu_Device\<close> contains the vector unit; the GEMM and the convolution backend and the
  composites are modelled on the ports of the router, and what they drive is an input of \<open>Npu_Device\<close>.  Attribute and compiler-hint macros have no run-time meaning.
  Module tables, waveform dumps, console output, the pin-level clocking of the simulator, the mock
  device of the host tests, the register header generator and the synthesis scripts are left out.

  \<^bold>\<open>Plan.\<close>  Next come all backends in \<open>Npu_Device\<close>, so that every compute test of the bench runs on the
  device model.
\<close>

section \<open>Concrete states for the examples\<close>

definition demo_soc_drv :: "soc drv" where
  "demo_soc_drv = \<lparr>npu = npu demo_drv, hw = reset_soc\<rparr>"

definition demo_conv :: npu_conv_params where
  "demo_conv =
     \<lparr>conv_act_in_addr = 0, conv_act_out_addr = 0x800, conv_weight_addr = 0, conv_bias_addr = 0x100,
      conv_in_h = 8, conv_in_w = 8, conv_in_c = 1, conv_out_k = 1, conv_filt_r = 3, conv_filt_s = 3,
      conv_stride_h = 1, conv_stride_w = 1, conv_pad_h = 1, conv_pad_w = 1, conv_out_h = 0,
      conv_out_w = 0, conv_quant_shift = 4, conv_act_mode = 1\<rparr>"

section \<open>Lemmas across components\<close>

text \<open>A descriptor the decoder accepts ends up, 35 clocks after its submission, as the newest queue
  entry, and dispatch turns that entry into the backend command it encodes.\<close>

lemma accepted_is_dispatched:
  assumes "pipe_idle p" and "\<not> shell_rung p" and "base dv = Some mmio"
    and "length (words desc) = LGNPU_CMD_WORDS" and "hw_accepts (words desc) = Some c"
  shows "\<exists>p'. npu_submit (soc_bus mmio) (Some dv) (Some desc) p = Some (0, p') \<and>
    contents (sh_queue (sh (run_clocks 35 p'))) \<noteq> [] \<and>
    npu_dispatch (last (contents (sh_queue (sh (run_clocks 35 p'))))) = c"
proof -
  from assms(5) have ok: "\<not> decode_err (words desc)" and c: "npu_dispatch (decode_fields (words desc)) = c"
    by (auto simp: hw_accepts_def split: if_splits)
  from submit_to_queue [OF assms(1-4)] ok c show ?thesis by auto
qed

section \<open>Properties\<close>

text \<open>C1: From the GEMM parameters to the GEMM backend.  With the pipeline at rest, building a GEMM
  descriptor and submitting it puts, 35 clocks later, a command at the end of the queue that
  the dispatcher routes to the GEMM backend with exactly the caller's addresses, dimensions,
  shift and activation.\<close>

theorem gemm_end_to_end:
  assumes "pipe_idle p" and "\<not> shell_rung p" and "base dv = Some mmio"
  shows "\<exists>desc p'. npu_cmd_build_gemm (Some d) (Some g) = (0, Some desc) \<and>
    npu_submit (soc_bus mmio) (Some dv) (Some desc) p = Some (0, p') \<and>
    contents (sh_queue (sh (run_clocks 35 p'))) \<noteq> [] \<and>
    npu_dispatch (last (contents (sh_queue (sh (run_clocks 35 p'))))) = Gemm
      \<lparr>g_a_addr = gemm_a_addr g, g_c_addr = gemm_c_addr g, g_b_addr = gemm_b_addr g,
       g_bias_addr = gemm_bias_addr g, g_m_dim = gemm_M g, g_n_dim = gemm_N g,
       g_k_dim = gemm_K g, g_quant_shift = ucast (gemm_quant_shift g),
       g_act_mode = ucast (gemm_act_mode g)\<rparr>"
proof -
  obtain desc where b: "npu_cmd_build_gemm (Some d) (Some g) = (0, Some desc)"
    and h: "hw_accepts (words desc) = Some (Gemm
      \<lparr>g_a_addr = gemm_a_addr g, g_c_addr = gemm_c_addr g, g_b_addr = gemm_b_addr g,
       g_bias_addr = gemm_bias_addr g, g_m_dim = gemm_M g, g_n_dim = gemm_N g,
       g_k_dim = gemm_K g, g_quant_shift = ucast (gemm_quant_shift g),
       g_act_mode = ucast (gemm_act_mode g)\<rparr>)"
    using gemm_accepted [of d g] by blast
  have "length (words desc) = LGNPU_CMD_WORDS" using build_gemm_words [OF b] by simp
  from accepted_is_dispatched [OF assms this h] b show ?thesis by blast
qed

theorem gemm_end_to_end_witness:
  "\<exists>desc p'. npu_cmd_build_gemm (Some \<lparr>words = replicate 16 9\<rparr>)
      (Some \<lparr>gemm_a_addr = 0, gemm_c_addr = 64, gemm_b_addr = 128, gemm_bias_addr = 256, gemm_M = 4,
             gemm_N = 4, gemm_K = 8, gemm_quant_shift = 3, gemm_act_mode = 1\<rparr>) = (0, Some desc) \<and>
    npu_submit (soc_bus 0x40000000) (Some \<lparr>base = Some 0x40000000\<rparr>) (Some desc) reset_soc = Some (0, p') \<and>
    npu_dispatch (last (contents (sh_queue (sh (run_clocks 35 p'))))) = Gemm
      \<lparr>g_a_addr = 0, g_c_addr = 64, g_b_addr = 128, g_bias_addr = 256, g_m_dim = 4, g_n_dim = 4,
       g_k_dim = 8, g_quant_shift = 3, g_act_mode = 1\<rparr>"
  using gemm_end_to_end [OF reset_soc_idle(1,2), of "\<lparr>base = Some 0x40000000\<rparr>" "0x40000000"
      "\<lparr>words = replicate 16 9\<rparr>"
      "\<lparr>gemm_a_addr = 0, gemm_c_addr = 64, gemm_b_addr = 128, gemm_bias_addr = 256, gemm_M = 4,
        gemm_N = 4, gemm_K = 8, gemm_quant_shift = 3, gemm_act_mode = 1\<rparr>"]
  by auto

text \<open>C28: The same for a convolution whose output shape is left to the builder: the convolution
  backend receives the caller's shape, filter, stride and padding together with the derived
  output dimensions.\<close>

theorem conv_end_to_end:
  assumes "pipe_idle p" and "\<not> shell_rung p" and "base dv = Some mmio"
  shows "\<exists>desc p' c. npu_cmd_build_conv (Some d) (Some q) = (0, Some desc) \<and>
    npu_submit (soc_bus mmio) (Some dv) (Some desc) p = Some (0, p') \<and>
    contents (sh_queue (sh (run_clocks 35 p'))) \<noteq> [] \<and>
    npu_dispatch (last (contents (sh_queue (sh (run_clocks 35 p'))))) = Conv c \<and>
    (act_in_addr c, act_out_addr c, weight_addr c, bias_addr c) =
      (conv_act_in_addr q, conv_act_out_addr q, conv_weight_addr q, conv_bias_addr q) \<and>
    (in_h c, in_w c, in_c c, out_k c, filt_r c, filt_s c) =
      (conv_in_h q, conv_in_w q, conv_in_c q, conv_out_k q, conv_filt_r q, conv_filt_s q) \<and>
    (stride_h c, stride_w c, pad_h c, pad_w c) =
      (conv_stride_h q, conv_stride_w q, conv_pad_h q, conv_pad_w q) \<and>
    out_h c = derive_out_dim (conv_in_h q) (conv_pad_h q) (conv_filt_r q) (conv_stride_h q) (conv_out_h q) \<and>
    out_w c = derive_out_dim (conv_in_w q) (conv_pad_w q) (conv_filt_s q) (conv_stride_w q) (conv_out_w q) \<and>
    quant_shift c = ucast (conv_quant_shift q) \<and> act_mode c = ucast (conv_act_mode q)"
proof -
  obtain desc where b: "npu_cmd_build_conv (Some d) (Some q) = (0, Some desc)"
    using build_total by blast
  obtain c where h: "hw_accepts (words desc) = Some (Conv c)"
    and c: "c = \<lparr>opcode = OP_CONV, act_in_addr = conv_act_in_addr q, act_out_addr = conv_act_out_addr q,
       weight_addr = conv_weight_addr q, bias_addr = conv_bias_addr q,
       in_h = conv_in_h q, in_w = conv_in_w q, in_c = conv_in_c q, out_k = conv_out_k q,
       filt_r = conv_filt_r q, filt_s = conv_filt_s q,
       stride_h = conv_stride_h q, stride_w = conv_stride_w q,
       pad_h = conv_pad_h q, pad_w = conv_pad_w q,
       out_h = derive_out_dim (conv_in_h q) (conv_pad_h q) (conv_filt_r q) (conv_stride_h q)
         (conv_out_h q),
       out_w = derive_out_dim (conv_in_w q) (conv_pad_w q) (conv_filt_s q) (conv_stride_w q)
         (conv_out_w q),
       quant_shift = ucast (conv_quant_shift q), act_mode = ucast (conv_act_mode q)\<rparr>"
    using conv_accepted [of d q] b by auto
  have "length (words desc) = LGNPU_CMD_WORDS" using build_conv_words [OF b] by simp
  from accepted_is_dispatched [OF assms this h] obtain p' where
    "npu_submit (soc_bus mmio) (Some dv) (Some desc) p = Some (0, p')"
    "contents (sh_queue (sh (run_clocks 35 p'))) \<noteq> []"
    "npu_dispatch (last (contents (sh_queue (sh (run_clocks 35 p'))))) = Conv c" by blast
  with b show ?thesis by (intro exI [of _ desc] exI [of _ p'] exI [of _ c]) (simp add: c)
qed

theorem conv_end_to_end_witness:
  "\<exists>desc p' c. npu_cmd_build_conv (Some \<lparr>words = replicate 16 9\<rparr>) (Some demo_conv) = (0, Some desc) \<and>
    npu_submit (soc_bus 0) (Some \<lparr>base = Some 0\<rparr>) (Some desc) reset_soc = Some (0, p') \<and>
    contents (sh_queue (sh (run_clocks 35 p'))) \<noteq> [] \<and>
    npu_dispatch (last (contents (sh_queue (sh (run_clocks 35 p'))))) = Conv c \<and>
    (act_in_addr c, act_out_addr c, weight_addr c, bias_addr c) =
      (conv_act_in_addr demo_conv, conv_act_out_addr demo_conv, conv_weight_addr demo_conv, conv_bias_addr demo_conv) \<and>
    (in_h c, in_w c, in_c c, out_k c, filt_r c, filt_s c) =
      (conv_in_h demo_conv, conv_in_w demo_conv, conv_in_c demo_conv, conv_out_k demo_conv, conv_filt_r demo_conv, conv_filt_s demo_conv) \<and>
    (stride_h c, stride_w c, pad_h c, pad_w c) =
      (conv_stride_h demo_conv, conv_stride_w demo_conv, conv_pad_h demo_conv, conv_pad_w demo_conv) \<and>
    out_h c = derive_out_dim (conv_in_h demo_conv) (conv_pad_h demo_conv) (conv_filt_r demo_conv) (conv_stride_h demo_conv) (conv_out_h demo_conv) \<and>
    out_w c = derive_out_dim (conv_in_w demo_conv) (conv_pad_w demo_conv) (conv_filt_s demo_conv) (conv_stride_w demo_conv) (conv_out_w demo_conv) \<and>
    quant_shift c = ucast (conv_quant_shift demo_conv) \<and> act_mode c = ucast (conv_act_mode demo_conv)"
  by (rule conv_end_to_end [OF reset_soc_idle(1,2)]) simp

text \<open>C29: The kernel driver on the device.  When the queue is not full, \<open>lgnpu_cmd_submit\<close> starts
  its wait in a state in which the device's command window holds exactly the caller's sixteen
  words and the doorbell is set, with the mutex held and the completion count reset; its
  result is the wait's answer.\<close>

theorem driver_submit_on_device:
  assumes "locks_free st" and "wait_frame kern" and "length ws = 16" and "regs (npu st) = mmio"
    and "shell_live (hw st)"
    and "\<not> bit (fst (bus_read (soc_bus mmio) (reg_addr mmio LGNPU_REG_STATUS) (hw st))) 2"
  shows "shell_window (hw (submitted (soc_bus mmio) ws st)) = ws \<and>
    shell_rung (hw (submitted (soc_bus mmio) ws st)) \<and>
    npu (submitted (soc_bus mmio) ws st) = (npu st)\<lparr>cmd_lock := True, cmd_done := 0\<rparr> \<and>
    map_option fst (lgnpu_cmd_submit kern (soc_bus mmio) ws st) =
      Some (wait_result (fst (wait_for_completion_interruptible_timeout kern 5000
        (submitted (soc_bus mmio) ws st))))"
proof -
  have l: "length ws = LGNPU_CMD_WORDS" using assms(3) by simp
  have "npu (submitted (soc_bus mmio) ws st) = (npu st)\<lparr>cmd_lock := True, cmd_done := 0\<rparr>"
    by (simp add: submitted_def)
  moreover have "map_option fst (lgnpu_cmd_submit kern (soc_bus mmio) ws st) =
      Some (wait_result (fst (wait_for_completion_interruptible_timeout kern 5000
        (submitted (soc_bus mmio) ws st))))"
    using assms(6) unfolding cmd_submit_eq [OF assms(1,2) l] assms(4) by (simp add: split_def Let_def)
  ultimately show ?thesis using shell.submitted_window [OF assms(4) l assms(5)] by blast
qed

theorem driver_submit_on_device_witness:
  "shell_window (hw (submitted (soc_bus 0x40000000) (replicate 16 7) demo_soc_drv)) = replicate 16 7 \<and>
    shell_rung (hw (submitted (soc_bus 0x40000000) (replicate 16 7) demo_soc_drv)) \<and>
    npu (submitted (soc_bus 0x40000000) (replicate 16 7) demo_soc_drv) =
      (npu demo_soc_drv)\<lparr>cmd_lock := True, cmd_done := 0\<rparr> \<and>
    map_option fst (lgnpu_cmd_submit generic_kernel (soc_bus 0x40000000) (replicate 16 7) demo_soc_drv) =
      Some (wait_result (fst (wait_for_completion_interruptible_timeout generic_kernel 5000
        (submitted (soc_bus 0x40000000) (replicate 16 7) demo_soc_drv))))"
proof (rule driver_submit_on_device)
  show "locks_free demo_soc_drv" using demo_locks by (simp add: locks_free_def demo_soc_drv_def)
  show "\<not> bit (fst (bus_read (soc_bus 0x40000000) (reg_addr 0x40000000 LGNPU_REG_STATUS)
      (hw demo_soc_drv))) 2"
    using pipe_idle_not_full [OF reset_soc_idle(1)] by (simp add: demo_soc_drv_def)
qed (use generic_kernel_wait reset_soc_idle(3) in \<open>simp_all add: demo_soc_drv_def demo_drv_def\<close>)

text \<open>DMA requests of the kernel driver reach the device cut to the widths of its registers: the
  request the engine starts has the low 20 bits of \<open>loc_addr\<close> and the low 16 bits of \<open>len\<close>, and
  the driver refuses neither.  A length that is a multiple of 65536 starts a transfer of
  length 0.\<close>

theorem driver_dma_request_truncated:
  assumes "regs (npu st) = mmio" and "\<not> cmd_lock (npu st)" and "shell_live (hw st)"
    and "unat len mod 65536 = 0"
  shows "let r = reg_addr mmio;
      s0 = bus_writes (soc_bus mmio)
        [(r LGNPU_REG_DMA_EXT_ADDR, ext_addr), (r LGNPU_REG_DMA_LOC_ADDR, loc_addr),
         (r LGNPU_REG_DMA_LEN, len), (r LGNPU_REG_DMA_CTRL, if dir = 1 then 3 else 1)] (hw st)
    in shell_dma_request s0 = Some (ext_addr, ucast loc_addr, 0, dir = 1) \<and>
      map_option fst (lgnpu_dma_transfer kern (soc_bus mmio) ext_addr loc_addr len dir st) =
        Some (if \<exists>k<10000. dma_free kern (soc_bus mmio) (r LGNPU_REG_DMA_STATUS) s0 k
              then 0 else - ETIMEDOUT)"
proof -
  let ?c = "if dir = 1 then 3 else 1 :: u32"
  have c: "bit ?c 0" "bit ?c 1 \<longleftrightarrow> dir = 1" by (simp_all add: bit_1_iff bit_numeral_simps)
  have z: "(ucast len :: u16) = 0"
    using assms(4) by (simp add: word_unat_eq_iff unsigned_ucast_eq take_bit_eq_mod)
  note req = shell.dma_request [OF assms(3) c(1), of mmio ext_addr loc_addr len, unfolded c(2) z]
  show ?thesis
    unfolding Let_def dma_transfer_eq [OF assms(2)] assms(1) req by auto
qed

theorem driver_dma_request_truncated_witness:
  "let r = reg_addr 0x40000000;
      s0 = bus_writes (soc_bus 0x40000000)
        [(r LGNPU_REG_DMA_EXT_ADDR, 0x80000000), (r LGNPU_REG_DMA_LOC_ADDR, 0x20000),
         (r LGNPU_REG_DMA_LEN, 0x10000), (r LGNPU_REG_DMA_CTRL, if (1 :: u32) = 1 then 3 else 1)]
        (hw demo_soc_drv)
    in shell_dma_request s0 = Some (0x80000000, ucast (0x20000 :: u32), 0, (1 :: u32) = 1) \<and>
      map_option fst (lgnpu_dma_transfer generic_kernel (soc_bus 0x40000000) 0x80000000 0x20000 0x10000 1
          demo_soc_drv) =
        Some (if \<exists>k<10000. dma_free generic_kernel (soc_bus 0x40000000) (r LGNPU_REG_DMA_STATUS) s0 k
              then 0 else - ETIMEDOUT)"
  by (rule driver_dma_request_truncated)
    (use reset_soc_idle(3) in \<open>simp_all add: demo_soc_drv_def demo_drv_def\<close>)

end
